(* ===== verification/Gobpm_Prelude.thy ===== *)
theory Gobpm_Prelude
  imports Main "HOL-Library.AList"
begin

text \<open>
  The vocabulary every component theory shares: the error codes of
  \<^verbatim>\<open>src/pkg/errs/errors.go\<close>, the result type of a fallible Go function, Go maps as
  association lists, and the generic list lemmas the component proofs lean on.

  A Go function returning \<^verbatim>\<open>(T, error)\<close> is modelled as a value of type \<open>'a result\<close>: \<open>Inl\<close>
  carries the \<^verbatim>\<open>errs.ApplicationError\<close> (its code and message; the diagnostic details are
  payload for the operator and are not modelled), \<open>Inr\<close> the returned value.

  A Go map whose length or iteration matters is an association list with distinct keys; the
  list order stands for one of the iteration orders the Go runtime may choose, so the
  theorems only speak of the set or the multiset of what such an iteration yields.
\<close>

section \<open>Errors\<close>

text \<open>\<open>Unclassified\<close> stands for an error built without a class.\<close>

datatype errcode =
    InvalidObject | RunFailed | NilDereference | BulidingFailed | InvalidParameter
  | TypeCastingError | OutOfRangeError | EmptyCollectionError | EmptyNotAllowed
  | DuplicateObject | OperationFailed | ConcurrentUpdate | ConditionFailed
  | ObjectNotFound | InvalidState | BrokenInvariant | Unclassified

datatype app_error = AppError (err_code: errcode) (err_msg: string)

type_synonym 'a result = "app_error + 'a"

text \<open>Generic names: nodes, flows and tracks are named by their Go \<^verbatim>\<open>string\<close> ids.\<close>

type_synonym node_id = string
type_synonym flow_id = string
type_synonym track_id = string

section \<open>Collections of facts\<close>

named_theorems gw_simps \<open>unfolding rules of the gateway operations\<close>

section \<open>Sum and option plumbing\<close>

lemma Inr_case_sumD [dest]:
  "(case r of Inl e \<Rightarrow> Inl e | Inr x \<Rightarrow> f x) = Inr y \<Longrightarrow> \<exists>x. r = Inr x \<and> f x = Inr y"
  by (cases r) auto

section \<open>Go maps as association lists\<close>

text \<open>\<^verbatim>\<open>m[k] = v\<close> is \<^const>\<open>AList.update\<close>; \<^verbatim>\<open>_, ok := m[k]\<close> is membership of the key.\<close>

definition has_key :: "'k \<Rightarrow> ('k \<times> 'v) list \<Rightarrow> bool" where
  "has_key k m \<longleftrightarrow> k \<in> set (map fst m)"

lemma has_key_Nil [simp]: "\<not> has_key k []"
  by (simp add: has_key_def)

lemma has_key_Cons [simp]: "has_key k (p # m) \<longleftrightarrow> k = fst p \<or> has_key k m"
  by (auto simp: has_key_def)

lemma has_key_append [simp]: "has_key k (m @ m') \<longleftrightarrow> has_key k m \<or> has_key k m'"
  by (auto simp: has_key_def)

lemma keys_update [simp]: "fst ` set (AList.update j v m) = insert j (fst ` set m)"
  by (metis dom_fun_upd dom_map_of_conv_image_fst option.discI update_conv')

lemma update_keyD: "(a, b) \<in> set (AList.update j v m) \<Longrightarrow> a = j \<or> a \<in> fst ` set m"
  by (metis fst_conv image_eqI insert_iff keys_update)

lemma has_key_update [simp]: "has_key k (AList.update j v m) \<longleftrightarrow> k = j \<or> has_key k m"
  by (simp add: has_key_def)

lemma has_key_map_of: "has_key k m \<longleftrightarrow> map_of m k \<noteq> None"
  by (simp add: has_key_def map_of_eq_None_iff image_iff)

lemma length_update_new:
  "\<not> has_key k m \<Longrightarrow> length (AList.update k v m) = Suc (length m)"
  by (induction m) auto

lemma length_update_old:
  "has_key k m \<Longrightarrow> length (AList.update k v m) = length m"
  by (induction m) auto

lemma update_new_append:
  "\<not> has_key k m \<Longrightarrow> AList.update k v m = m @ [(k, v)]"
  by (induction m) auto

section \<open>Bytes and decimal numerals\<close>

text \<open>A Go string is the list of its bytes.\<close>

definition byte :: "char \<Rightarrow> nat" where
  "byte c = of_char c"

definition is_digit :: "char \<Rightarrow> bool" where
  "is_digit c \<longleftrightarrow> 48 \<le> byte c \<and> byte c \<le> 57"

abbreviation bslash :: char where
  "bslash \<equiv> CHR 0x5C"

text \<open>Text between single quotes, for the messages.\<close>

definition sq :: "string \<Rightarrow> string" where
  "sq s = CHR 0x27 # s @ [CHR 0x27]"

definition digits_val :: "string \<Rightarrow> nat" where
  "digits_val = foldl (\<lambda>n c. 10 * n + (byte c - 48)) 0"

text \<open>The em dash of some messages.\<close>

definition emdash :: string where
  "emdash = [CHR 0xE2, CHR 0x80, CHR 0x94]"

text \<open>\<^verbatim>\<open>strconv.Itoa\<close> of a non-negative number.\<close>

definition digit :: "nat \<Rightarrow> char" where
  "digit n = char_of (48 + n)"

fun Itoa :: "nat \<Rightarrow> string" where
  "Itoa n = (if n < 10 then [digit n] else Itoa (n div 10) @ [digit (n mod 10)])"

declare Itoa.simps [simp del]

text \<open>\<^verbatim>\<open>strconv.Atoi\<close>: an optional sign and decimal digits, in the range of a 64-bit \<^verbatim>\<open>int\<close>.\<close>

definition Atoi :: "string \<Rightarrow> int option" where
  "Atoi s =
     (let sgn = s \<noteq> [] \<and> hd s \<in> {CHR ''+'', CHR ''-''};
          ds = (if sgn then tl s else s);
          v = (if sgn \<and> hd s = CHR ''-'' then - int (digits_val ds) else int (digits_val ds))
      in if ds = [] \<or> \<not> list_all is_digit ds \<or> v < - (2 ^ 63) \<or> 2 ^ 63 \<le> v then None else Some v)"

lemma byte_digit: "n < 10 \<Longrightarrow> byte (digit n) = 48 + n"
  by (simp add: byte_def digit_def)

lemma is_digit_digit: "n < 10 \<Longrightarrow> is_digit (digit n)"
  by (simp add: is_digit_def byte_digit)

lemma Itoa_digits: "list_all is_digit (Itoa n) \<and> Itoa n \<noteq> []"
proof (induction n rule: Itoa.induct)
  case (1 n)
  then show ?case by (subst (1 2) Itoa.simps) (auto simp: is_digit_digit)
qed

lemma digits_val_snoc: "digits_val (s @ [c]) = 10 * digits_val s + (byte c - 48)"
  by (simp add: digits_val_def)

lemma digits_val_Itoa: "digits_val (Itoa n) = n"
proof (induction n rule: Itoa.induct)
  case (1 n)
  show ?case
  proof (cases "n < 10")
    case True
    then show ?thesis by (subst Itoa.simps) (simp add: digits_val_def byte_digit)
  next
    case False
    then show ?thesis using 1 by (subst Itoa.simps) (simp add: digits_val_snoc byte_digit)
  qed
qed

lemma Atoi_Itoa: "n < 2 ^ 63 \<Longrightarrow> Atoi (Itoa n) = Some (int n)"
proof -
  assume n: "n < 2 ^ 63"
  have h: "is_digit (hd (Itoa n))" using Itoa_digits[of n] by (cases "Itoa n") auto
  then have "hd (Itoa n) \<noteq> CHR ''+''" "hd (Itoa n) \<noteq> CHR ''-''" by (auto simp: is_digit_def byte_def)
  moreover have "int n < 2 ^ 63" using n by (metis of_nat_less_iff of_nat_numeral of_nat_power)
  ultimately show ?thesis using Itoa_digits[of n] by (simp add: Atoi_def Let_def digits_val_Itoa)
qed

section \<open>Counting\<close>

lemma distinct_subset_length_le:
  assumes "distinct xs" and "set xs \<subseteq> set ys"
  shows "length xs \<le> length ys"
  using assms by (metis card_length card_mono distinct_card finite_set le_trans)

lemma distinct_cover:
  assumes "distinct xs" and "distinct ys" and "set xs \<subseteq> set ys" and "length ys \<le> length xs"
  shows "set xs = set ys"
  using assms by (metis card_seteq distinct_card finite_set)

lemma foldr_max_ge: "x \<in> set xs \<Longrightarrow> f x \<le> foldr (\<lambda>p m. max (f p) m) xs (0::nat)"
  by (induction xs) auto

end
