(* ===== verification/Flow_Graph.thy ===== *)
theory Flow_Graph
  imports Gobpm_Prelude
begin

text \<open>
  The flow graph: sequence flows and the per-direction, declaration-ordered flow lists of
  a node (\<^verbatim>\<open>src/pkg/model/flow\<close>). A flow is a Go pointer: \<open>sf_ptr\<close> is its identity and
  \<open>sf_id\<close> its BPMN id, because the gateways select the default flow by pointer and
  everything else by id.
\<close>

section \<open>Sequence flows\<close>

record 'c seqflow =
  sf_ptr :: nat
  sf_id :: flow_id
  sf_source :: "node_id option"
  sf_target :: "node_id option"
  sf_cond :: "'c option"

text \<open>Pointer comparison \<^verbatim>\<open>f == g\<close> on two \<^verbatim>\<open>*SequenceFlow\<close>.\<close>

definition same_ptr :: "'c seqflow \<Rightarrow> 'c seqflow \<Rightarrow> bool" where
  "same_ptr f g \<longleftrightarrow> sf_ptr f = sf_ptr g"

section \<open>The flow lists of a node\<close>

datatype direction = DirInput | DirOutput

record 'c base_node =
  bn_id :: node_id
  bn_in :: "'c seqflow list"
  bn_out :: "'c seqflow list"

definition Incoming :: "('c, 'x) base_node_scheme \<Rightarrow> 'c seqflow list" where
  "Incoming n = bn_in n"

definition Outgoing :: "('c, 'x) base_node_scheme \<Rightarrow> 'c seqflow list" where
  "Outgoing n = bn_out n"

text \<open>
  The loop of \<^verbatim>\<open>AddFlow\<close>: overwrite in place the first flow with the same id, append when
  there is none.
\<close>

fun add_flow_list :: "'c seqflow \<Rightarrow> 'c seqflow list \<Rightarrow> 'c seqflow list" where
  "add_flow_list sf [] = [sf]"
| "add_flow_list sf (f # fs) = (if sf_id f = sf_id sf then sf # fs else f # add_flow_list sf fs)"

text \<open>A nil flow is \<open>None\<close>; the two valid directions are the constructors of the datatype.\<close>

fun AddFlow ::
    "'c seqflow option \<Rightarrow> direction \<Rightarrow> ('c, 'x) base_node_scheme \<Rightarrow> ('c, 'x) base_node_scheme result"
  where
  "AddFlow None dir n = Inl (AppError EmptyNotAllowed ''couldn't add empty sequence flow'')"
| "AddFlow (Some sf) DirInput n = Inr (n\<lparr>bn_in := add_flow_list sf (bn_in n)\<rparr>)"
| "AddFlow (Some sf) DirOutput n = Inr (n\<lparr>bn_out := add_flow_list sf (bn_out n)\<rparr>)"

definition CloneShell :: "('c, 'x) base_node_scheme \<Rightarrow> 'c base_node" where
  "CloneShell n = \<lparr>bn_id = bn_id n, bn_in = [], bn_out = []\<rparr>"

text \<open>A node's flow lists are well formed when no id occurs twice in one direction.\<close>

definition wf_flows :: "('c, 'x) base_node_scheme \<Rightarrow> bool" where
  "wf_flows n \<longleftrightarrow> distinct (map sf_id (bn_in n)) \<and> distinct (map sf_id (bn_out n))"

lemma ids_add_flow_list:
  "map sf_id (add_flow_list sf fs) =
     (if sf_id sf \<in> set (map sf_id fs) then map sf_id fs else map sf_id fs @ [sf_id sf])"
  by (induction fs) auto

lemma in_add_flow_list [simp]: "sf \<in> set (add_flow_list sf fs)"
  by (induction fs) auto

lemma add_flow_list_other:
  "sf_id f \<noteq> sf_id sf \<Longrightarrow> f \<in> set (add_flow_list sf fs) \<longleftrightarrow> f \<in> set fs"
  by (induction fs) auto

lemma distinct_add_flow_list:
  "distinct (map sf_id fs) \<Longrightarrow> distinct (map sf_id (add_flow_list sf fs))"
  unfolding ids_add_flow_list by auto

lemma AddFlow_wf:
  "wf_flows n \<Longrightarrow> AddFlow sf dir n = Inr n' \<Longrightarrow> wf_flows n'"
  by (cases sf; cases dir) (auto simp: wf_flows_def distinct_add_flow_list)

lemma CloneShell_wf [simp]: "wf_flows (CloneShell n)"
  by (simp add: wf_flows_def CloneShell_def)

end
