(* ===== verification/Reachability.thy ===== *)
theory Reachability
  imports Flow_Graph
begin

text \<open>
  The backward reachability walk that decides whether a synchronizing join may still
  receive a token (\<^verbatim>\<open>src/internal/instance/reachability.go\<close>), and the token-position view it
  reads. The walk is a worklist loop with a visited set; its result is characterised by the
  paths of the flow graph, so the joins can be reasoned about without the loop.

  A graph lists, per node id, the node's incoming flows in declaration order; a node id the
  graph does not list has none. A \<^verbatim>\<open>map[string]bool\<close> is its characteristic function.
\<close>

type_synonym 'c graph = "(node_id \<times> 'c seqflow list) list"

definition incoming_of :: "'c graph \<Rightarrow> node_id \<Rightarrow> 'c seqflow list" where
  "incoming_of g n = (case map_of g n of None \<Rightarrow> [] | Some fs \<Rightarrow> fs)"

text \<open>The non-nil sources of a node's incoming flows, in declaration order.\<close>

definition sources_of :: "'c graph \<Rightarrow> node_id \<Rightarrow> node_id list" where
  "sources_of g n = List.map_filter sf_source (incoming_of g n)"

lemma sources_of_unlisted: "n \<notin> fst ` set g \<Longrightarrow> sources_of g n = []"
  by (auto simp: sources_of_def incoming_of_def map_filter_simps
           dest!: map_of_SomeD split: option.split)
     (metis fst_conv image_eqI map_of_SomeD)

section \<open>The walk\<close>

text \<open>
  One iteration pops the top of the stack; the sources of a freshly visited node are pushed
  in declaration order, so the last one is on top.
\<close>

function reaches_loop :: "'c graph \<Rightarrow> (node_id \<Rightarrow> bool) \<Rightarrow> node_id list \<Rightarrow> node_id list \<Rightarrow> bool" where
  "reaches_loop g occupied visited [] = False"
| "reaches_loop g occupied visited (n # stack) =
     (if n \<in> set visited then reaches_loop g occupied visited stack
      else if occupied n then True
      else reaches_loop g occupied (n # visited) (rev (sources_of g n) @ stack))"
  by pat_completeness auto
termination
proof (relation "measures [\<lambda>(g, occ, visited, stack). card (fst ` set g - set visited),
                           \<lambda>(g, occ, visited, stack). length stack]", goal_cases)
  case 1
  show ?case by simp
next
  case (2 g occ visited n stack)
  then show ?case by simp
next
  case (3 g occ visited n stack)
  let ?K = "fst ` set g"
  show ?case
  proof (cases "n \<in> ?K")
    case True
    with 3 have "?K - set (n # visited) \<subset> ?K - set visited" by auto
    then have "card (?K - set (n # visited)) < card (?K - set visited)"
      by (intro psubset_card_mono) auto
    then show ?thesis by simp
  next
    case False
    then have "?K - set (n # visited) = ?K - set visited" by auto
    with False show ?thesis by (simp add: sources_of_unlisted)
  qed
qed

definition reachesOccupied :: "'c graph \<Rightarrow> node_id \<Rightarrow> node_id \<Rightarrow> (node_id \<Rightarrow> bool) \<Rightarrow> bool" where
  "reachesOccupied g start stopID occupied = reaches_loop g occupied [stopID] [start]"

text \<open>\<^verbatim>\<open>checkFlowsWith\<close>: a nil flow is \<open>None\<close>, a flow without a source is skipped.\<close>

fun flow_reachable :: "'c graph \<Rightarrow> node_id \<Rightarrow> (node_id \<Rightarrow> bool) \<Rightarrow> 'c seqflow \<Rightarrow> bool" where
  "flow_reachable g joinID occupied f =
     (case sf_source f of None \<Rightarrow> False | Some src \<Rightarrow> reachesOccupied g src joinID occupied)"

definition checkFlowsWith ::
    "'c graph \<Rightarrow> node_id \<Rightarrow> 'c seqflow option list \<Rightarrow> (node_id \<Rightarrow> bool) \<Rightarrow> 'c seqflow list result"
  where
  "checkFlowsWith g joinID flows occupied =
     Inr (filter (flow_reachable g joinID occupied) (List.map_filter (\<lambda>f. f) flows))"

text \<open>
  \<^verbatim>\<open>joinPositions\<close>: the occupied nodes and whether a token sits on the join without being
  parked there. \<open>position\<close> and \<open>parked\<close> are the loop's maps from a track to its node.
\<close>

definition joinPositions ::
    "node_id option \<Rightarrow> (track_id \<times> node_id) list \<Rightarrow> (track_id \<times> node_id) list
     \<Rightarrow> (node_id \<Rightarrow> bool) \<times> bool" where
  "joinPositions joinNode position parked =
     (\<lambda>n. n \<in> snd ` set position,
      (case joinNode of
         None \<Rightarrow> False
       | Some j \<Rightarrow> list_ex (\<lambda>(t, n). n = j \<and> \<not> has_key t parked) position))"

section \<open>The walk decides path existence\<close>

text \<open>
  A backward step from a node goes to a source of one of its incoming flows; the join
  itself is never entered.
\<close>

inductive back_path :: "'c graph \<Rightarrow> node_id \<Rightarrow> node_id \<Rightarrow> node_id \<Rightarrow> bool"
  for g :: "'c graph" and stop :: node_id where
  back_refl: "a \<noteq> stop \<Longrightarrow> back_path g stop a a"
| back_step: "a \<noteq> stop \<Longrightarrow> b \<in> set (sources_of g a) \<Longrightarrow> back_path g stop b c \<Longrightarrow> back_path g stop a c"

inductive_simps back_path_from_stop: "back_path g stop stop c"

lemma back_path_start: "back_path g stop a c \<Longrightarrow> a \<noteq> stop"
  by (induction rule: back_path.induct) auto

lemma back_path_unfold:
  "a \<noteq> stop \<Longrightarrow> back_path g stop a c \<longleftrightarrow> c = a \<or> (\<exists>b \<in> set (sources_of g a). back_path g stop b c)"
  by (auto intro: back_path.intros elim: back_path.cases)

text \<open>
  A path that leaves a set closed under unvisited successors must pass through the
  worklist: the invariant of the loop.
\<close>

definition walk_inv :: "'c graph \<Rightarrow> node_id \<Rightarrow> (node_id \<Rightarrow> bool) \<Rightarrow> node_id list \<Rightarrow> node_id list \<Rightarrow> bool" where
  "walk_inv g stop occupied visited stack \<longleftrightarrow>
     stop \<in> set visited \<and>
     (\<forall>v \<in> set visited. v \<noteq> stop \<longrightarrow>
        \<not> occupied v \<and> set (sources_of g v) \<subseteq> set visited \<union> set stack)"

lemma walk_inv_path:
  assumes inv: "walk_inv g stop occupied visited stack"
    and path: "back_path g stop a c" and a: "a \<in> set visited" and c: "occupied c"
  shows "\<exists>s \<in> set stack. back_path g stop s c"
  using path a c
proof (induction rule: back_path.induct)
  case (back_refl a)
  with inv show ?case by (auto simp: walk_inv_def)
next
  case (back_step a b c)
  from inv back_step.prems(1) back_step.hyps have "b \<in> set visited \<union> set stack"
    by (auto simp: walk_inv_def)
  with back_step.IH back_step.hyps(3) back_step.prems(2) show ?case by blast
qed

lemma reaches_loop_iff:
  "walk_inv g stop occupied visited stack \<Longrightarrow>
   reaches_loop g occupied visited stack \<longleftrightarrow>
     (\<exists>s \<in> set stack. \<exists>c. back_path g stop s c \<and> occupied c)"
proof (induction g occupied visited stack rule: reaches_loop.induct)
  case (1 g occupied visited)
  show ?case by simp
next
  case (2 g occupied visited n stack)
  consider (seen) "n \<in> set visited" | (hit) "n \<notin> set visited" "occupied n"
    | (new) "n \<notin> set visited" "\<not> occupied n" by blast
  then show ?case
  proof cases
    case seen
    have inv: "walk_inv g stop occupied visited stack"
      using 2(3) seen by (auto simp: walk_inv_def)
    from 2(1)[OF seen inv] seen
    have "reaches_loop g occupied visited (n # stack) \<longleftrightarrow>
        (\<exists>s \<in> set stack. \<exists>c. back_path g stop s c \<and> occupied c)" by simp
    with walk_inv_path[OF inv _ seen] show ?thesis by auto
  next
    case hit
    with 2(3) have "back_path g stop n n" by (auto simp: walk_inv_def intro: back_refl)
    with hit show ?thesis by auto
  next
    case new
    have stop: "n \<noteq> stop" using new 2(3) by (auto simp: walk_inv_def)
    have inv: "walk_inv g stop occupied (n # visited) (rev (sources_of g n) @ stack)"
      using 2(3) new by (auto simp: walk_inv_def)
    from 2(2)[OF new inv] new stop show ?thesis
      by (auto simp: back_path_unfold[OF stop])
  qed
qed

lemma reachesOccupied_iff:
  "reachesOccupied g start stopID occupied \<longleftrightarrow> (\<exists>c. back_path g stopID start c \<and> occupied c)"
  unfolding reachesOccupied_def
  by (subst reaches_loop_iff[of g stopID]) (simp_all add: walk_inv_def)

lemma flow_reachable_iff:
  "flow_reachable g j occupied f \<longleftrightarrow>
     (\<exists>s c. sf_source f = Some s \<and> back_path g j s c \<and> occupied c)"
  by (simp add: reachesOccupied_iff split: option.split)

text \<open>Fewer occupied nodes never make a flow reachable: a token death only prunes.\<close>

lemma flow_reachable_mono:
  "flow_reachable g j occ f \<Longrightarrow> (\<And>n. occ n \<Longrightarrow> occ' n) \<Longrightarrow> flow_reachable g j occ' f"
  unfolding flow_reachable_iff by blast

declare flow_reachable.simps [simp del]

section \<open>The interface the joins rely on\<close>

text \<open>
  \<^verbatim>\<open>exec.FlowChecker\<close>: a checker returns a sublist of the flows it was asked about, and
  whether a flow survives does not depend on the other flows of the query.
\<close>

locale flow_checker =
  fixes check :: "node_id \<Rightarrow> 'c seqflow list \<Rightarrow> 'c seqflow list result"
    and live :: "node_id \<Rightarrow> 'c seqflow \<Rightarrow> bool"
  assumes check_live: "check n fs = Inr (filter (live n) fs)"
begin

lemma check_total: "\<exists>rs. check n fs = Inr rs"
  by (simp add: check_live)

lemma check_subset: "check n fs = Inr rs \<Longrightarrow> set rs \<subseteq> set fs"
  by (auto simp: check_live)

lemma check_empty_iff: "check n fs = Inr [] \<longleftrightarrow> (\<forall>f \<in> set fs. \<not> live n f)"
  by (auto simp: check_live filter_empty_conv)

end

text \<open>
  The only checker of the program, \<^verbatim>\<open>fixedFlowChecker.CheckFlows\<close>: the walk over a bound
  occupied-node snapshot.
\<close>

definition fixedFlowChecker ::
    "'c graph \<Rightarrow> (node_id \<Rightarrow> bool) \<Rightarrow> node_id \<Rightarrow> 'c seqflow list \<Rightarrow> 'c seqflow list result" where
  "fixedFlowChecker g occupied node flows = checkFlowsWith g node (map Some flows) occupied"

lemma map_filter_map_Some [simp]: "List.map_filter (\<lambda>f. f) (map Some fs) = fs"
  by (induction fs) (simp_all add: map_filter_simps)

interpretation fixed: flow_checker "fixedFlowChecker g occupied" "\<lambda>n. flow_reachable g n occupied"
  for g :: "'c graph" and occupied
  by unfold_locales (simp add: fixedFlowChecker_def checkFlowsWith_def)

section \<open>Properties\<close>

text \<open>
  Claim C34. The worklist walk of \<^verbatim>\<open>reachesOccupied\<close> is total and decides exactly whether a
  backward path of the flow graph, never entering the join, leads from the start node to a
  node that holds a token; cycles of the graph neither hang it nor change its answer.
\<close>

theorem reachesOccupied_correct:
  "reachesOccupied g start stopID occupied =
     (\<exists>c. back_path g stopID start c \<and> occupied c)"
  by (rule reachesOccupied_iff)

text \<open>
  The checker a join rechecks with returns exactly the flows a live token can still
  reach, and a token death can only shrink the answer: a flow reported for fewer occupied
  nodes is reported for more.
\<close>

theorem checkFlows_death_prunes:
  assumes "fixedFlowChecker g (fst (joinPositions j position parked)) n fs = Inr rs"
    and "fixedFlowChecker g (fst (joinPositions j position' parked')) n fs = Inr rs'"
    and "snd ` set position' \<subseteq> snd ` set position"
  shows "set rs' \<subseteq> set rs \<and> set rs \<subseteq> set fs"
proof -
  have "flow_reachable g n (\<lambda>n. n \<in> snd ` set position') f \<Longrightarrow>
      flow_reachable g n (\<lambda>n. n \<in> snd ` set position) f" for f
    by (erule flow_reachable_mono) (rule subsetD[OF assms(3)])
  then show ?thesis using assms(1,2) by (auto simp: fixed.check_live joinPositions_def)
qed

definition ex_edge :: "nat \<Rightarrow> flow_id \<Rightarrow> node_id \<Rightarrow> node_id \<Rightarrow> nat seqflow" where
  "ex_edge p i s t = \<lparr>sf_ptr = p, sf_id = i, sf_source = Some s, sf_target = Some t, sf_cond = None\<rparr>"

text \<open>A cyclic example: \<open>a\<close> and \<open>b\<close> feed each other and the join \<open>j\<close>.\<close>

definition ex_graph :: "nat graph" where
  "ex_graph = [(''j'', [ex_edge 1 ''f1'' ''a'' ''j'', ex_edge 2 ''f2'' ''b'' ''j'']),
               (''a'', [ex_edge 3 ''f3'' ''b'' ''a'']),
               (''b'', [ex_edge 4 ''f4'' ''a'' ''b''])]"

lemma ex_check_before:
  "fixedFlowChecker ex_graph (fst (joinPositions None [(''t'', ''a'')] [])) ''j'' (incoming_of ex_graph ''j'')
   = Inr (incoming_of ex_graph ''j'')"
  by code_simp

lemma ex_check_after:
  "fixedFlowChecker ex_graph (fst (joinPositions None [] [])) ''j'' (incoming_of ex_graph ''j'') = Inr []"
  by code_simp

theorem checkFlows_death_prunes_witness:
  "set ([] :: nat seqflow list) \<subseteq> set (incoming_of ex_graph ''j'')
   \<and> set (incoming_of ex_graph ''j'') \<subseteq> set (incoming_of ex_graph ''j'')"
  by (rule checkFlows_death_prunes[OF ex_check_before ex_check_after]) simp

end
