(* ===== verification/Gateway_Routing.thy ===== *)
theory Gateway_Routing
  imports Flow_Graph
begin

text \<open>
  The diverging half of the gateways: the gateway record with its direction rules and
  default flow (\<^verbatim>\<open>src/pkg/model/gateways/gateway.go\<close>), the exclusive split
  (\<^verbatim>\<open>exclusive.go\<close>) and the true-subset fork the inclusive and complex gateways share.

  Conditions are opaque values of type \<open>'c\<close>. What a gateway asks of its runtime
  environment is a record of three functions: the declared result type of a condition, the
  expression engine, and the boolean read-out of a value (\<^verbatim>\<open>data.As[bool]\<close>).
\<close>

section \<open>The gateway\<close>

datatype GDirection = Unspecified | Converging | Diverging | Mixed | OtherDirection string

fun GDirection_Validate :: "GDirection \<Rightarrow> unit result" where
  "GDirection_Validate (OtherDirection d) = Inl (AppError InvalidObject ''invalid gateway direction'')"
| "GDirection_Validate _ = Inr ()"

record 'c gateway = "'c base_node" +
  gw_defaultFlow :: "'c seqflow option"
  gw_direction :: GDirection

text \<open>\<^verbatim>\<open>Gateway.clone\<close>: default flow and direction are kept, the flow lists start empty.\<close>

definition gateway_clone :: "('c, 'x) gateway_scheme \<Rightarrow> 'c gateway" where
  "gateway_clone g = base_node.extend (CloneShell g) \<lparr>gw_defaultFlow = gw_defaultFlow g, gw_direction = gw_direction g\<rparr>"

fun find_id :: "flow_id \<Rightarrow> 'c seqflow list \<Rightarrow> 'c seqflow option" where
  "find_id i [] = None"
| "find_id i (f # fs) = (if sf_id f = i then Some f else find_id i fs)"

definition UpdateDefaultFlow ::
    "'c seqflow option \<Rightarrow> ('c, 'x) gateway_scheme \<Rightarrow> ('c, 'x) gateway_scheme result" where
  "UpdateDefaultFlow fo g =
     (case fo of
        None \<Rightarrow> Inr (g\<lparr>gw_defaultFlow := None\<rparr>)
      | Some f \<Rightarrow>
          (case find_id (sf_id f) (Outgoing g) of
             None \<Rightarrow> Inl (AppError ObjectNotFound ''there is no outgoing flow'')
           | Some sf \<Rightarrow>
               if sf_cond sf \<noteq> None
               then Inl (AppError InvalidObject ''default flow shouldn't have a condition expression'')
               else Inr (g\<lparr>gw_defaultFlow := Some sf\<rparr>)))"

section \<open>Direction rules\<close>

text \<open>The empty string means that the counts comply.\<close>

fun testDirectionFlows :: "GDirection \<Rightarrow> int \<Rightarrow> int \<Rightarrow> string" where
  "testDirectionFlows Unspecified inCount outCount =
     (if inCount < 1 \<or> outCount < 1
      then ''unspecified gateway should have at least one incoming and one outgoing flows'' else '''')"
| "testDirectionFlows Mixed inCount outCount =
     (if outCount < 2 \<or> inCount < 2
      then ''mixed gateway MUST have multiple incoming and outgouing flows'' else '''')"
| "testDirectionFlows Converging inCount outCount =
     (if (outCount > 1 \<or> outCount = 0) \<or> inCount < 2
      then ''converging gateway MUST have multiple incoming and not have multiple outgouing flows''
      else '''')"
| "testDirectionFlows Diverging inCount outCount =
     (if outCount < 2 \<or> (inCount > 1 \<or> inCount = 0)
      then ''diverging gateway MUST have multiple outgoing and not have multiple incoming flows''
      else '''')"
| "testDirectionFlows (OtherDirection d) inCount outCount = ''''"

definition TestFlows :: "('c, 'x) gateway_scheme \<Rightarrow> unit result" where
  "TestFlows g =
     (let errM = testDirectionFlows (gw_direction g) (int (length (Incoming g))) (int (length (Outgoing g)))
      in if errM \<noteq> '''' then Inl (AppError InvalidObject errM) else Inr ())"

definition AcceptIncomingFlow :: "('c, 'x) gateway_scheme \<Rightarrow> unit result" where
  "AcceptIncomingFlow g =
     (if gw_direction g = Diverging \<and> length (Incoming g) > 0
      then Inl (AppError BulidingFailed ''diverging gateway MUST NOT have multiple incoming flows'')
      else Inr ())"

definition SupportOutgoingFlow :: "('c, 'x) gateway_scheme \<Rightarrow> unit result" where
  "SupportOutgoingFlow g =
     (if gw_direction g = Converging \<and> length (Outgoing g) > 0
      then Inl (AppError BulidingFailed ''converging gateway MUST NOT have multiple outgoing flows'')
      else Inr ())"

text \<open>
  The part of \<^verbatim>\<open>flow.connect\<close> that touches a gateway: the guard of its direction, then the
  flow is added.
\<close>

definition connect_incoming :: "'c seqflow \<Rightarrow> ('c, 'x) gateway_scheme \<Rightarrow> ('c, 'x) gateway_scheme result" where
  "connect_incoming sf g = (case AcceptIncomingFlow g of Inl e \<Rightarrow> Inl e | Inr _ \<Rightarrow> AddFlow (Some sf) DirInput g)"

definition connect_outgoing :: "'c seqflow \<Rightarrow> ('c, 'x) gateway_scheme \<Rightarrow> ('c, 'x) gateway_scheme result" where
  "connect_outgoing sf g = (case SupportOutgoingFlow g of Inl e \<Rightarrow> Inl e | Inr _ \<Rightarrow> AddFlow (Some sf) DirOutput g)"

section \<open>Conditions and routing\<close>

record ('c, 'v) cond_env =
  ce_resultType :: "'c \<Rightarrow> string"
  ce_evaluate :: "'c \<Rightarrow> 'v result"
  ce_asBool :: "'v \<Rightarrow> bool option"

definition checkCondition :: "('c, 'v) cond_env \<Rightarrow> 'c \<Rightarrow> bool result" where
  "checkCondition re cond =
     (if ce_resultType re cond \<noteq> ''bool''
      then Inl (AppError TypeCastingError ''invalid condition expression type'')
      else (case ce_evaluate re cond of
              Inl e \<Rightarrow> Inl (AppError OperationFailed ''flow condition evaluation failed'')
            | Inr res \<Rightarrow>
                (case ce_asBool re res of
                   None \<Rightarrow> Inl (AppError TypeCastingError ''flow condition is not boolean'')
                 | Some val \<Rightarrow> Inr val)))"

definition no_outgoing_err :: app_error where
  "no_outgoing_err = AppError InvalidState ''no available outgoing flow: no condition matched and no default''"

text \<open>\<^verbatim>\<open>of == g.defaultFlow\<close>, by pointer.\<close>

fun is_default :: "'c seqflow option \<Rightarrow> 'c seqflow \<Rightarrow> bool" where
  "is_default None f = False"
| "is_default (Some d) f = same_ptr f d"

text \<open>The loop of \<^verbatim>\<open>ExclusiveGateway.Exec\<close>: the first flow that is taken, if any.\<close>

fun exclusive_loop ::
    "('c, 'v) cond_env \<Rightarrow> 'c seqflow option \<Rightarrow> 'c seqflow list \<Rightarrow> 'c seqflow option result" where
  "exclusive_loop re d [] = Inr None"
| "exclusive_loop re d (f # out) =
     (if is_default d f then exclusive_loop re d out
      else (case sf_cond f of
              None \<Rightarrow> exclusive_loop re d out
            | Some cond \<Rightarrow>
                (case checkCondition re cond of
                   Inl e \<Rightarrow> Inl e
                 | Inr res \<Rightarrow> if res then Inr (Some f) else exclusive_loop re d out)))"

definition Exclusive_Exec :: "('c, 'v) cond_env \<Rightarrow> ('c, 'x) gateway_scheme \<Rightarrow> 'c seqflow list result" where
  "Exclusive_Exec re g =
     (let out = Outgoing g in
      if length out \<le> 1 then Inr out
      else (case exclusive_loop re (gw_defaultFlow g) out of
              Inl e \<Rightarrow> Inl e
            | Inr (Some f) \<Rightarrow> Inr [f]
            | Inr None \<Rightarrow>
                (case gw_defaultFlow g of
                   None \<Rightarrow> Inl no_outgoing_err
                 | Some d \<Rightarrow> Inr [d])))"

text \<open>The loop of \<^verbatim>\<open>forkTrueSubset\<close>: every flow whose condition is true, in order.\<close>

fun fork_loop ::
    "('c, 'v) cond_env \<Rightarrow> 'c seqflow option \<Rightarrow> 'c seqflow list \<Rightarrow> 'c seqflow list \<Rightarrow> 'c seqflow list result" where
  "fork_loop re d flows [] = Inr flows"
| "fork_loop re d flows (f # out) =
     (if is_default d f then fork_loop re d flows out
      else (case sf_cond f of
              None \<Rightarrow> fork_loop re d flows out
            | Some cond \<Rightarrow>
                (case checkCondition re cond of
                   Inl e \<Rightarrow> Inl e
                 | Inr res \<Rightarrow> fork_loop re d (if res then flows @ [f] else flows) out)))"

definition forkTrueSubset :: "('c, 'v) cond_env \<Rightarrow> ('c, 'x) gateway_scheme \<Rightarrow> 'c seqflow list result" where
  "forkTrueSubset re g =
     (let out = Outgoing g in
      if length out \<le> 1 then Inr out
      else (case fork_loop re (gw_defaultFlow g) [] out of
              Inl e \<Rightarrow> Inl e
            | Inr flows \<Rightarrow>
                if flows = []
                then (case gw_defaultFlow g of
                        None \<Rightarrow> Inl no_outgoing_err
                      | Some d \<Rightarrow> Inr [d])
                else Inr flows))"

definition Inclusive_Exec :: "('c, 'v) cond_env \<Rightarrow> ('c, 'x) gateway_scheme \<Rightarrow> 'c seqflow list result" where
  "Inclusive_Exec re g = forkTrueSubset re g"

definition Complex_Exec :: "('c, 'v) cond_env \<Rightarrow> ('c, 'x) gateway_scheme \<Rightarrow> 'c seqflow list result" where
  "Complex_Exec re g = forkTrueSubset re g"

definition Parallel_Exec :: "('c, 'x) gateway_scheme \<Rightarrow> 'c seqflow list result" where
  "Parallel_Exec g = Inr (Outgoing g)"

section \<open>The candidates of a split and their verdicts\<close>

text \<open>
  The reference reading of BPMN 13.4: only a flow that is not the default and carries a
  condition is a candidate; \<open>holds\<close> is its verdict.
\<close>

definition candidate :: "'c seqflow option \<Rightarrow> 'c seqflow \<Rightarrow> bool" where
  "candidate d f \<longleftrightarrow> \<not> is_default d f \<and> sf_cond f \<noteq> None"

definition verdict :: "('c, 'v) cond_env \<Rightarrow> 'c seqflow \<Rightarrow> bool result" where
  "verdict re f = checkCondition re (the (sf_cond f))"

definition holds :: "('c, 'v) cond_env \<Rightarrow> 'c seqflow \<Rightarrow> bool" where
  "holds re f \<longleftrightarrow> verdict re f = Inr True"

lemma exclusive_loop_Cons:
  "exclusive_loop re d (f # out) =
     (if candidate d f
      then (case verdict re f of Inl e \<Rightarrow> Inl e
            | Inr res \<Rightarrow> if res then Inr (Some f) else exclusive_loop re d out)
      else exclusive_loop re d out)"
  by (auto simp: candidate_def verdict_def split: option.split)

lemma fork_loop_Cons:
  "fork_loop re d acc (f # out) =
     (if candidate d f
      then (case verdict re f of Inl e \<Rightarrow> Inl e
            | Inr res \<Rightarrow> fork_loop re d (if res then acc @ [f] else acc) out)
      else fork_loop re d acc out)"
  by (auto simp: candidate_def verdict_def split: option.split)

declare exclusive_loop.simps(2) [simp del] fork_loop.simps(2) [simp del]

lemma exclusive_loop_Some:
  "exclusive_loop re d out = Inr (Some f) \<Longrightarrow>
   \<exists>pre post. out = pre @ f # post \<and> candidate d f \<and> holds re f
     \<and> (\<forall>p \<in> set pre. candidate d p \<longrightarrow> verdict re p = Inr False)"
proof (induction out)
  case Nil
  then show ?case by simp
next
  case (Cons x out)
  show ?case
  proof (cases "candidate d x \<and> verdict re x = Inr True")
    case True
    with Cons.prems have "x = f" by (simp add: exclusive_loop_Cons)
    with True have "x # out = [] @ f # out" "candidate d f" "holds re f"
      by (simp_all add: holds_def)
    then show ?thesis by (metis empty_iff list.set(1))
  next
    case False
    with Cons.prems have rest: "exclusive_loop re d out = Inr (Some f)"
      and x: "candidate d x \<longrightarrow> verdict re x = Inr False"
      by (auto simp: exclusive_loop_Cons split: if_splits sum.splits)
    from Cons.IH[OF rest] obtain pre post where
      IH: "out = pre @ f # post" "candidate d f" "holds re f"
        "\<forall>p \<in> set pre. candidate d p \<longrightarrow> verdict re p = Inr False" by blast
    then have "x # out = (x # pre) @ f # post" by simp
    moreover have "\<forall>p \<in> set (x # pre). candidate d p \<longrightarrow> verdict re p = Inr False"
      using IH(4) x by simp
    ultimately show ?thesis using IH(2,3) by blast
  qed
qed

lemma exclusive_loop_None:
  "exclusive_loop re d out = Inr None \<longleftrightarrow> (\<forall>f \<in> set out. candidate d f \<longrightarrow> verdict re f = Inr False)"
  by (induction out) (auto simp: exclusive_loop_Cons split: sum.splits if_splits)

lemma exclusive_loop_split:
  "candidate d f \<Longrightarrow> holds re f \<Longrightarrow> \<forall>p \<in> set pre. candidate d p \<longrightarrow> verdict re p = Inr False \<Longrightarrow>
   exclusive_loop re d (pre @ f # post) = Inr (Some f)"
  by (induction pre) (auto simp: exclusive_loop_Cons holds_def)

lemma fork_loop_Inr:
  "fork_loop re d acc out = Inr flows \<longleftrightarrow>
     flows = acc @ filter (\<lambda>f. candidate d f \<and> holds re f) out
     \<and> (\<forall>f \<in> set out. candidate d f \<longrightarrow> (\<exists>b. verdict re f = Inr b))"
proof (induction out arbitrary: acc)
  case Nil
  then show ?case by auto
next
  case (Cons x out)
  show ?case
  proof (cases "candidate d x")
    case True
    then show ?thesis
    proof (cases "verdict re x")
      case (Inl e)
      with True show ?thesis by (simp add: fork_loop_Cons)
    next
      case (Inr b)
      with True show ?thesis
        by (cases b) (auto simp: fork_loop_Cons Cons.IH holds_def)
    qed
  next
    case False
    then show ?thesis by (auto simp: fork_loop_Cons Cons.IH)
  qed
qed

text \<open>A complete fork evaluation determines the exclusive choice: its first flow.\<close>

lemma exclusive_loop_fork:
  "fork_loop re d [] out = Inr flows \<Longrightarrow>
   exclusive_loop re d out = Inr (case flows of [] \<Rightarrow> None | f # _ \<Rightarrow> Some f)"
proof (induction out arbitrary: flows)
  case Nil
  then show ?case by simp
next
  case (Cons x out)
  show ?case
  proof (cases "candidate d x \<and> verdict re x = Inr True")
    case True
    with Cons.prems have "\<exists>fs. flows = x # fs"
      by (auto simp: fork_loop_Inr holds_def)
    with True show ?thesis by (auto simp: exclusive_loop_Cons)
  next
    case False
    with Cons.prems have "fork_loop re d [] out = Inr flows"
      and "candidate d x \<longrightarrow> verdict re x = Inr False"
      by (auto simp: fork_loop_Inr holds_def)
    with Cons.IH show ?thesis by (auto simp: exclusive_loop_Cons)
  qed
qed

section \<open>The default-flow invariant\<close>

text \<open>
  What \<^verbatim>\<open>UpdateDefaultFlow\<close> keeps: the stored default is the gateway's own outgoing-flow
  object and has no condition.
\<close>

definition wf_default :: "('c, 'x) gateway_scheme \<Rightarrow> bool" where
  "wf_default g \<longleftrightarrow> (case gw_defaultFlow g of None \<Rightarrow> True | Some d \<Rightarrow> d \<in> set (bn_out g) \<and> sf_cond d = None)"

lemma find_id_Some: "find_id i fs = Some f \<Longrightarrow> f \<in> set fs \<and> sf_id f = i"
  by (induction fs) (auto split: if_splits)

lemma find_id_None: "find_id i fs = None \<longleftrightarrow> i \<notin> sf_id ` set fs"
  by (induction fs) auto

lemma UpdateDefaultFlow_wf:
  "UpdateDefaultFlow fo g = Inr g' \<Longrightarrow> wf_default g'"
  by (auto simp: UpdateDefaultFlow_def wf_default_def Outgoing_def
           dest: find_id_Some split: option.splits if_splits)

section \<open>Properties\<close>

text \<open>
  A diverging exclusive gateway takes exactly one flow: the first outgoing flow in
  declaration order that is not the default, has a condition and whose condition is true,
  every earlier candidate having evaluated to false; when every candidate is false it takes
  the default flow. In every other case (a condition that fails to evaluate before a true
  one, or no match and no default) it returns an error, never an empty or a larger list.
\<close>

theorem exclusive_takes_first_true:
  assumes "1 < length (Outgoing g)"
  shows "Exclusive_Exec re g = Inr fs \<longleftrightarrow>
    (\<exists>pre f post. Outgoing g = pre @ f # post \<and> fs = [f] \<and> candidate (gw_defaultFlow g) f \<and> holds re f
       \<and> (\<forall>p \<in> set pre. candidate (gw_defaultFlow g) p \<longrightarrow> verdict re p = Inr False))
    \<or> (\<forall>p \<in> set (Outgoing g). candidate (gw_defaultFlow g) p \<longrightarrow> verdict re p = Inr False)
       \<and> (\<exists>d. gw_defaultFlow g = Some d \<and> fs = [d])"
    (is "_ \<longleftrightarrow> ?first \<or> ?def")
proof -
  let ?d = "gw_defaultFlow g" and ?out = "Outgoing g"
  have ex: "Exclusive_Exec re g = (case exclusive_loop re ?d ?out of
        Inl e \<Rightarrow> Inl e
      | Inr (Some f) \<Rightarrow> Inr [f]
      | Inr None \<Rightarrow> (case ?d of None \<Rightarrow> Inl no_outgoing_err | Some d \<Rightarrow> Inr [d]))"
    using assms by (simp add: Exclusive_Exec_def)
  have first: "?first \<longleftrightarrow> (\<exists>f. exclusive_loop re ?d ?out = Inr (Some f) \<and> fs = [f])"
    using exclusive_loop_Some[of re ?d ?out] by (auto simp: exclusive_loop_split)
  have default: "?def \<longleftrightarrow> exclusive_loop re ?d ?out = Inr None \<and> (\<exists>d. ?d = Some d \<and> fs = [d])"
    by (simp add: exclusive_loop_None)
  show ?thesis
    unfolding ex first default by (auto split: sum.splits option.splits)
qed

text \<open>
  The inclusive and the complex split return exactly the candidates whose condition
  is true, in declaration order, or the default flow alone when there is none; they succeed
  if and only if every candidate's condition evaluates and some flow can be taken.
\<close>

theorem fork_is_true_subset:
  assumes "1 < length (Outgoing g)"
  shows "forkTrueSubset re g = Inr fs \<longleftrightarrow>
    (\<forall>f \<in> set (Outgoing g). candidate (gw_defaultFlow g) f \<longrightarrow> (\<exists>b. verdict re f = Inr b))
    \<and> (let true = filter (\<lambda>f. candidate (gw_defaultFlow g) f \<and> holds re f) (Outgoing g)
       in if true \<noteq> [] then fs = true else gw_defaultFlow g \<noteq> None \<and> fs = [the (gw_defaultFlow g)])"
    (is "_ \<longleftrightarrow> ?ok \<and> _")
proof (cases ?ok)
  case True
  then have "fork_loop re (gw_defaultFlow g) [] (Outgoing g)
      = Inr (filter (\<lambda>f. candidate (gw_defaultFlow g) f \<and> holds re f) (Outgoing g))"
    by (simp add: fork_loop_Inr)
  with True assms show ?thesis
    by (auto simp: forkTrueSubset_def Let_def split: option.split)
next
  case False
  then have "\<nexists>flows. fork_loop re (gw_defaultFlow g) [] (Outgoing g) = Inr flows"
    by (simp add: fork_loop_Inr)
  then obtain e where "fork_loop re (gw_defaultFlow g) [] (Outgoing g) = Inl e"
    by (metis obj_sumE)
  with False assms show ?thesis by (simp add: forkTrueSubset_def)
qed

text \<open>
  Where the inclusive split succeeds, the exclusive split of the same gateway
  succeeds too and takes the first of the flows the inclusive split takes.
\<close>

theorem exclusive_refines_inclusive:
  assumes "1 < length (Outgoing g)" and "Inclusive_Exec re g = Inr fs"
  shows "Exclusive_Exec re g = Inr [hd fs] \<and> fs \<noteq> []"
proof -
  from assms obtain flows where
    l: "fork_loop re (gw_defaultFlow g) [] (Outgoing g) = Inr flows"
    and fs: "(if flows = [] then (case gw_defaultFlow g of None \<Rightarrow> Inl no_outgoing_err | Some d \<Rightarrow> Inr [d])
              else Inr flows) = Inr fs"
    by (auto simp: Inclusive_Exec_def forkTrueSubset_def split: sum.splits)
  from exclusive_loop_fork[OF l] fs assms(1) show ?thesis
    by (auto simp: Exclusive_Exec_def split: list.splits option.splits if_splits)
qed

text \<open>
  A successful \<^verbatim>\<open>UpdateDefaultFlow\<close> stores the gateway's own flow object, whatever
  pointer with the same id the caller passed: afterwards the pointer comparison the splits
  use recognises exactly the outgoing flow of that id as the default, and it is unconditional.
\<close>

theorem default_flow_recognised:
  assumes "distinct (map sf_ptr (Outgoing g))" and "distinct (map sf_id (Outgoing g))"
    and "UpdateDefaultFlow (Some f) g = Inr g'"
  shows "Outgoing g' = Outgoing g
    \<and> (\<exists>d \<in> set (Outgoing g). gw_defaultFlow g' = Some d \<and> sf_id d = sf_id f \<and> sf_cond d = None)
    \<and> (\<forall>x \<in> set (Outgoing g). is_default (gw_defaultFlow g') x = (sf_id x = sf_id f))"
proof -
  from assms(3) obtain d where
    find: "find_id (sf_id f) (Outgoing g) = Some d" and g': "g' = g\<lparr>gw_defaultFlow := Some d\<rparr>"
    and c: "sf_cond d = None"
    by (auto simp: UpdateDefaultFlow_def split: option.splits if_splits)
  from find have d: "d \<in> set (Outgoing g)" "sf_id d = sf_id f" by (auto dest: find_id_Some)
  have "is_default (gw_defaultFlow g') x = (sf_id x = sf_id f)" if x: "x \<in> set (Outgoing g)" for x
  proof -
    have "sf_ptr x = sf_ptr d \<longleftrightarrow> x = d" "sf_id x = sf_id d \<longleftrightarrow> x = d"
      using assms(1,2) x d(1) by (auto simp: distinct_map inj_on_def)
    then show ?thesis using d(2) by (simp add: g' same_ptr_def)
  qed
  with d c show ?thesis by (auto simp: g' Outgoing_def)
qed

definition ex_flow :: "nat \<Rightarrow> flow_id \<Rightarrow> bool option \<Rightarrow> bool seqflow" where
  "ex_flow p i c = \<lparr>sf_ptr = p, sf_id = i, sf_source = Some ''g'', sf_target = Some i, sf_cond = c\<rparr>"

text \<open>Conditions are their own verdicts.\<close>

definition ex_env :: "(bool, bool) cond_env" where
  "ex_env = \<lparr>ce_resultType = (\<lambda>_. ''bool''), ce_evaluate = Inr, ce_asBool = Some\<rparr>"

definition ex_gateway :: "bool gateway" where
  "ex_gateway = \<lparr>bn_id = ''g'', bn_in = [],
     bn_out = [ex_flow 1 ''a'' None, ex_flow 2 ''b'' (Some False), ex_flow 3 ''c'' (Some True),
               ex_flow 4 ''d'' (Some True)],
     gw_defaultFlow = Some (ex_flow 1 ''a'' None), gw_direction = Diverging\<rparr>"

lemma ex_gateway_len: "1 < length (Outgoing ex_gateway)"
  by (simp add: ex_gateway_def Outgoing_def)

lemma ex_gateway_fork: "forkTrueSubset ex_env ex_gateway = Inr [ex_flow 3 ''c'' (Some True), ex_flow 4 ''d'' (Some True)]"
  by code_simp

lemma ex_gateway_exclusive: "Exclusive_Exec ex_env ex_gateway = Inr [ex_flow 3 ''c'' (Some True)]"
  by code_simp

lemma ex_gateway_out:
  "Outgoing ex_gateway = [ex_flow 1 ''a'' None, ex_flow 2 ''b'' (Some False)] @
     ex_flow 3 ''c'' (Some True) # [ex_flow 4 ''d'' (Some True)]"
  by (simp add: ex_gateway_def Outgoing_def)

lemma ex_gateway_verdicts:
  "candidate (gw_defaultFlow ex_gateway) (ex_flow 3 ''c'' (Some True))" "holds ex_env (ex_flow 3 ''c'' (Some True))"
  "\<forall>p \<in> set [ex_flow 1 ''a'' None, ex_flow 2 ''b'' (Some False)].
     candidate (gw_defaultFlow ex_gateway) p \<longrightarrow> verdict ex_env p = Inr False"
  by code_simp+

theorem exclusive_takes_first_true_witness:
  "Exclusive_Exec ex_env ex_gateway = Inr [ex_flow 3 ''c'' (Some True)]"
  using exclusive_takes_first_true[OF ex_gateway_len, of ex_env] ex_gateway_out ex_gateway_verdicts
  by blast

theorem fork_is_true_subset_witness:
  "forkTrueSubset ex_env ex_gateway = Inr [ex_flow 3 ''c'' (Some True), ex_flow 4 ''d'' (Some True)]"
proof (subst fork_is_true_subset[OF ex_gateway_len], intro conjI)
  show "\<forall>f \<in> set (Outgoing ex_gateway).
      candidate (gw_defaultFlow ex_gateway) f \<longrightarrow> (\<exists>b. verdict ex_env f = Inr b)"
    by (simp add: verdict_def checkCondition_def ex_env_def)
  show "let true = filter (\<lambda>f. candidate (gw_defaultFlow ex_gateway) f \<and> holds ex_env f) (Outgoing ex_gateway)
      in if true \<noteq> [] then [ex_flow 3 ''c'' (Some True), ex_flow 4 ''d'' (Some True)] = true
         else gw_defaultFlow ex_gateway \<noteq> None
           \<and> [ex_flow 3 ''c'' (Some True), ex_flow 4 ''d'' (Some True)] = [the (gw_defaultFlow ex_gateway)]"
    by code_simp
qed

theorem exclusive_refines_inclusive_witness:
  "Exclusive_Exec ex_env ex_gateway = Inr [ex_flow 3 ''c'' (Some True)]"
  using exclusive_refines_inclusive[OF ex_gateway_len, of ex_env] ex_gateway_fork
  by (simp add: Inclusive_Exec_def)

theorem default_flow_recognised_witness:
  "\<exists>g'. UpdateDefaultFlow (Some (ex_flow 9 ''a'' None)) (ex_gateway\<lparr>gw_defaultFlow := None\<rparr>) = Inr g'
     \<and> is_default (gw_defaultFlow g') (ex_flow 1 ''a'' None)
     \<and> \<not> is_default (gw_defaultFlow g') (ex_flow 2 ''b'' (Some False))"
proof -
  let ?g = "ex_gateway\<lparr>gw_defaultFlow := None\<rparr>"
  have "distinct (map sf_ptr (Outgoing ?g))" "distinct (map sf_id (Outgoing ?g))"
    by (simp_all add: ex_gateway_def Outgoing_def ex_flow_def)
  moreover have u: "UpdateDefaultFlow (Some (ex_flow 9 ''a'' None)) ?g
      = Inr (ex_gateway\<lparr>gw_defaultFlow := Some (ex_flow 1 ''a'' None)\<rparr>)"
    by code_simp
  ultimately show ?thesis
    using default_flow_recognised[of ?g "ex_flow 9 ''a'' None"]
    by (auto simp: ex_flow_def ex_gateway_def Outgoing_def)
qed

end
