(* ===== verification/Gateway_Joins.thy ===== *)
theory Gateway_Joins
  imports Reachability Gateway_Routing
begin

text \<open>
  The converging half of the gateways: the parallel barrier
  (\<^verbatim>\<open>src/pkg/model/gateways/parallel.go\<close>), the inclusive OR-join (\<^verbatim>\<open>inclusive.go\<close>) and the
  complex activation join (\<^verbatim>\<open>complex.go\<close>). Each operation runs under the gateway's own
  mutex, so it is one atomic step on the gateway's record; concurrent arrivals are sequences
  of such steps.
\<close>

section \<open>The contract of a synchronizing join\<close>

text \<open>A sequence of arrivals \<open>(flow, track)\<close> and the outcome \<open>(complete, merged)\<close> of each.\<close>

fun run_arrive ::
    "('j \<Rightarrow> flow_id \<Rightarrow> track_id \<Rightarrow> 'j \<times> bool \<times> track_id list) \<Rightarrow> 'j \<Rightarrow> (flow_id \<times> track_id) list
     \<Rightarrow> 'j \<times> (bool \<times> track_id list) list" where
  "run_arrive arrive j [] = (j, [])"
| "run_arrive arrive j ((f, t) # as) =
     (let (j', out) = arrive j f t; (j'', outs) = run_arrive arrive j' as in (j'', out # outs))"

lemma run_arrive_append:
  "run_arrive arrive j (as @ bs) =
     (let (j', os) = run_arrive arrive j as; (j'', os') = run_arrive arrive j' bs in (j'', os @ os'))"
  by (induction as arbitrary: j) (auto simp: Let_def split: prod.splits)

text \<open>
  \<^verbatim>\<open>exec.SynchronizingJoin\<close>: \<open>ids\<close> are the incoming flow ids, \<open>marked\<close> those that have
  delivered. A waiting arrival absorbs nobody, a completing one is the survivor and has seen
  every incoming flow deliver.
\<close>

locale sync_join =
  fixes arrive :: "'j \<Rightarrow> flow_id \<Rightarrow> track_id \<Rightarrow> 'j \<times> bool \<times> track_id list"
    and inv :: "'j \<Rightarrow> bool"
    and ids :: "'j \<Rightarrow> flow_id list"
    and marked :: "'j \<Rightarrow> flow_id set"
  assumes inv_arrive: "inv j \<Longrightarrow> f \<in> set (ids j) \<Longrightarrow> inv (fst (arrive j f t))"
    and ids_arrive: "ids (fst (arrive j f t)) = ids j"
    and wait_marked: "arrive j f t = (j', False, m) \<Longrightarrow> marked j' \<subseteq> insert f (marked j)"
    and wait_merged: "arrive j f t = (j', False, m) \<Longrightarrow> m = []"
    and complete_cover:
      "inv j \<Longrightarrow> f \<in> set (ids j) \<Longrightarrow> arrive j f t = (j', True, m) \<Longrightarrow> set (ids j) \<subseteq> insert f (marked j)"
    and survivor_kept: "arrive j f t = (j', True, m) \<Longrightarrow> t \<notin> set m"
begin

lemma run_waiting:
  assumes "inv j" and "fst ` set as \<subseteq> set (ids j)"
    and "run_arrive arrive j as = (j', os)" and "\<forall>out \<in> set os. \<not> fst out"
  shows "inv j' \<and> ids j' = ids j \<and> marked j' \<subseteq> marked j \<union> fst ` set as \<and> (\<forall>out \<in> set os. snd out = [])"
  using assms
proof (induction as arbitrary: j os)
  case Nil
  then show ?case by simp
next
  case (Cons a as)
  obtain f t where a: "a = (f, t)" by (cases a)
  obtain j1 c m where s: "arrive j f t = (j1, c, m)" by (metis prod_cases3)
  obtain os1 where r: "run_arrive arrive j1 as = (j', os1)" and os: "os = (c, m) # os1"
    using Cons.prems(3) a s by (auto split: prod.splits)
  have c: "\<not> c" using Cons.prems(4) os by auto
  have s': "arrive j f t = (j1, False, m)" using s c by simp
  have f: "f \<in> set (ids j)" using Cons.prems(2) a by auto
  have j1: "inv j1" "ids j1 = ids j"
    using inv_arrive[OF Cons.prems(1) f, of t] ids_arrive[of j f t] s by simp_all
  have "inv j' \<and> ids j' = ids j1 \<and> marked j' \<subseteq> marked j1 \<union> fst ` set as
      \<and> (\<forall>out \<in> set os1. snd out = [])"
    using Cons.IH[OF j1(1) _ r] Cons.prems(2,4) os j1(2) by auto
  with j1 wait_marked[OF s'] wait_merged[OF s'] os a show ?case by auto
qed

text \<open>The barrier: the first completing arrival has seen every incoming flow.\<close>

lemma first_completion_covers:
  assumes "inv j" and "marked j = {}" and "fst ` set as \<subseteq> set (ids j)" and "f \<in> set (ids j)"
    and "run_arrive arrive j as = (j', os)" and "\<forall>out \<in> set os. \<not> fst out"
    and "arrive j' f t = (j'', True, m)"
  shows "set (ids j) = insert f (fst ` set as)"
proof -
  from run_waiting[OF assms(1,3,5,6)] assms(2)
  have "inv j'" "ids j' = ids j" "marked j' \<subseteq> fst ` set as" by simp_all
  with complete_cover[of j' f t j'' m] assms(3,4,7) show ?thesis by auto
qed

end

text \<open>The shape shared by the join records: the arrivals, and the incoming flow ids.\<close>

definition flow_ids :: "('c, 'x) base_node_scheme \<Rightarrow> flow_id list" where
  "flow_ids n = map sf_id (Incoming n)"

definition arrivals_ok :: "flow_id list \<Rightarrow> (flow_id \<times> track_id) list \<Rightarrow> bool" where
  "arrivals_ok ids arr \<longleftrightarrow> distinct ids \<and> distinct (map fst arr) \<and> set (map fst arr) \<subseteq> set ids"

lemma arrivals_ok_update:
  "arrivals_ok ids arr \<Longrightarrow> f \<in> set ids \<Longrightarrow> arrivals_ok ids (AList.update f t arr)"
  by (auto simp: arrivals_ok_def distinct_update dom_update)

lemma arrivals_full:
  assumes "arrivals_ok ids arr" and "\<not> length arr < length ids"
  shows "set (map fst arr) = set ids"
proof (rule distinct_cover)
  show "distinct (map fst arr)" "distinct ids" "set (map fst arr) \<subseteq> set ids"
    using assms(1) by (auto simp: arrivals_ok_def)
  show "length ids \<le> length (map fst arr)" using assms(2) by simp
qed

section \<open>The parallel gateway\<close>

record 'c ParallelGateway = "'c gateway" +
  pg_arrived :: "(flow_id \<times> track_id) list"

definition Parallel_Arrive ::
    "'c ParallelGateway \<Rightarrow> flow_id \<Rightarrow> track_id \<Rightarrow> 'c ParallelGateway \<times> bool \<times> track_id list" where
  "Parallel_Arrive pg incomingFlowID arrivingTrackID =
     (let arrived = AList.update incomingFlowID arrivingTrackID (pg_arrived pg) in
      if length arrived < length (Incoming pg)
      then (pg\<lparr>pg_arrived := arrived\<rparr>, False, [])
      else (pg\<lparr>pg_arrived := []\<rparr>, True, filter (\<lambda>i. i \<noteq> arrivingTrackID) (map snd arrived)))"

definition Parallel_Clone :: "'c ParallelGateway \<Rightarrow> 'c ParallelGateway" where
  "Parallel_Clone pg = gateway.extend (gateway_clone pg) \<lparr>pg_arrived = []\<rparr>"

definition parallel_inv :: "'c ParallelGateway \<Rightarrow> bool" where
  "parallel_inv pg \<longleftrightarrow> arrivals_ok (flow_ids pg) (pg_arrived pg)"

lemma Parallel_Arrive_cases:
  "Parallel_Arrive pg f t =
     (let arr = AList.update f t (pg_arrived pg) in
      if length arr < length (flow_ids pg)
      then (pg\<lparr>pg_arrived := arr\<rparr>, False, [])
      else (pg\<lparr>pg_arrived := []\<rparr>, True, filter (\<lambda>i. i \<noteq> t) (map snd arr)))"
  by (simp add: Parallel_Arrive_def flow_ids_def)

interpretation par: sync_join Parallel_Arrive parallel_inv flow_ids "\<lambda>pg. set (map fst (pg_arrived pg))"
proof (unfold_locales, goal_cases)
  case (1 j f t)
  then show ?case
    by (auto simp: Parallel_Arrive_cases parallel_inv_def Let_def flow_ids_def Incoming_def
        arrivals_ok_update) (simp add: arrivals_ok_def)
next
  case (2 j f t)
  show ?case by (simp add: Parallel_Arrive_cases Let_def flow_ids_def Incoming_def)
next
  case (3 j f t j' m)
  then show ?case by (auto simp: Parallel_Arrive_cases Let_def dest: update_keyD split: if_splits)
next
  case (4 j f t j' m)
  then show ?case by (auto simp: Parallel_Arrive_cases Let_def split: if_splits)
next
  case (5 j f t j' m)
  then have "arrivals_ok (flow_ids j) (AList.update f t (pg_arrived j))"
    by (simp add: parallel_inv_def arrivals_ok_update)
  moreover have "\<not> length (AList.update f t (pg_arrived j)) < length (flow_ids j)"
    using 5(3) by (auto simp: Parallel_Arrive_cases Let_def split: if_splits)
  ultimately have "set (map fst (AList.update f t (pg_arrived j))) = set (flow_ids j)"
    by (rule arrivals_full)
  then show ?case by (simp add: dom_update)
next
  case (6 j f t j' m)
  then show ?case by (auto simp: Parallel_Arrive_cases Let_def split: if_splits)
qed

text \<open>
  Distinct flows deliver one token each: every arrival but the last waits, the state keeps
  exactly the arrivals so far.
\<close>

lemma parallel_run_waiting:
  assumes "distinct (map fst (pg_arrived pg @ as))" and "length (pg_arrived pg @ as) < length (flow_ids pg)"
  shows "run_arrive Parallel_Arrive pg as =
    (pg\<lparr>pg_arrived := pg_arrived pg @ as\<rparr>, replicate (length as) (False, []))"
  using assms
proof (induction as arbitrary: pg)
  case Nil
  then show ?case by simp
next
  case (Cons a as)
  obtain f t where a: "a = (f, t)" by (cases a)
  let ?pg = "pg\<lparr>pg_arrived := pg_arrived pg @ [(f, t)]\<rparr>"
  have new: "\<not> has_key f (pg_arrived pg)" using Cons.prems(1) a by (auto simp: has_key_def)
  then have "Parallel_Arrive pg f t = (?pg, False, [])"
    using Cons.prems(2) a by (simp add: Parallel_Arrive_cases update_new_append)
  moreover have "run_arrive Parallel_Arrive ?pg as =
      (?pg\<lparr>pg_arrived := pg_arrived ?pg @ as\<rparr>, replicate (length as) (False, []))"
    using Cons.prems a by (intro Cons.IH) (simp_all add: flow_ids_def Incoming_def)
  ultimately show ?case using a by simp
qed

lemma parallel_last_completes:
  assumes "distinct (map fst (pg_arrived pg @ [(f, t)]))"
    and "length (pg_arrived pg @ [(f, t)]) = length (flow_ids pg)"
  shows "Parallel_Arrive pg f t =
    (pg\<lparr>pg_arrived := []\<rparr>, True, filter (\<lambda>i. i \<noteq> t) (map snd (pg_arrived pg)))"
proof -
  have "\<not> has_key f (pg_arrived pg)" using assms(1) by (auto simp: has_key_def)
  with assms(2) show ?thesis by (simp add: Parallel_Arrive_cases update_new_append)
qed

section \<open>The inclusive gateway\<close>

record 'c InclusiveGateway = "'c gateway" +
  ig_order :: "track_id list"
  ig_arrived :: "(flow_id \<times> track_id) list"
  ig_fired :: bool

fun absorb :: "track_id list \<Rightarrow> track_id \<Rightarrow> track_id list" where
  "absorb [] survivor = []"
| "absorb (i # order) survivor = (if i \<noteq> survivor then i # absorb order survivor else absorb order survivor)"

lemma absorb_filter: "absorb order s = filter (\<lambda>i. i \<noteq> s) order"
  by (induction order) auto

text \<open>
  \<^verbatim>\<open>unmarkedFlows\<close> of the inclusive and of the complex gateway have the same body; the model
  takes the incoming flows and the arrival table.
\<close>

definition unmarkedFlows :: "'c seqflow list \<Rightarrow> (flow_id \<times> track_id) list \<Rightarrow> 'c seqflow list" where
  "unmarkedFlows incoming arrived = filter (\<lambda>f. \<not> has_key (sf_id f) arrived) incoming"

definition Inclusive_Arrive ::
    "'c InclusiveGateway \<Rightarrow> flow_id \<Rightarrow> track_id \<Rightarrow> 'c InclusiveGateway \<times> bool \<times> track_id list" where
  "Inclusive_Arrive ig incomingFlowID arrivingTrackID =
     (if ig_fired ig then (ig, False, [])
      else
        (let ig' = (if \<not> has_key incomingFlowID (ig_arrived ig)
                    then ig\<lparr>ig_arrived := AList.update incomingFlowID arrivingTrackID (ig_arrived ig),
                            ig_order := ig_order ig @ [arrivingTrackID]\<rparr>
                    else ig)
         in if length (ig_arrived ig') < length (Incoming ig') then (ig', False, [])
            else (ig'\<lparr>ig_fired := True\<rparr>, True, absorb (ig_order ig') arrivingTrackID)))"

text \<open>A checker error is treated conservatively: the join waits.\<close>

definition Inclusive_Recheck ::
    "(node_id \<Rightarrow> 'c seqflow list \<Rightarrow> 'c seqflow list result) \<Rightarrow> 'c InclusiveGateway
     \<Rightarrow> 'c InclusiveGateway \<times> bool \<times> track_id \<times> track_id list" where
  "Inclusive_Recheck fc ig =
     (case ig_order ig of
        [] \<Rightarrow> (ig, False, '''', [])
      | first # _ \<Rightarrow>
          if ig_fired ig then (ig, False, '''', [])
          else
            (let unmarked = unmarkedFlows (Incoming ig) (ig_arrived ig);
                 blocked = (unmarked \<noteq> [] \<and>
                   (case fc (bn_id ig) unmarked of Inl e \<Rightarrow> True | Inr reachable \<Rightarrow> reachable \<noteq> []))
             in if blocked then (ig, False, '''', [])
                else (ig\<lparr>ig_fired := True\<rparr>, True, first, absorb (ig_order ig) first)))"

definition IsTrailing :: "'c InclusiveGateway \<Rightarrow> track_id \<Rightarrow> bool" where
  "IsTrailing ig arrivingTrackID \<longleftrightarrow> ig_fired ig \<and> arrivingTrackID \<notin> set (ig_order ig)"

definition Inclusive_Clone :: "'c InclusiveGateway \<Rightarrow> 'c InclusiveGateway" where
  "Inclusive_Clone ig =
     gateway.extend (gateway_clone ig) \<lparr>ig_order = [], ig_arrived = [], ig_fired = False\<rparr>"

definition inclusive_inv :: "'c InclusiveGateway \<Rightarrow> bool" where
  "inclusive_inv ig \<longleftrightarrow>
     arrivals_ok (flow_ids ig) (ig_arrived ig) \<and> ig_order ig = map snd (ig_arrived ig)"

lemma Inclusive_Arrive_incoming: "Incoming (fst (Inclusive_Arrive ig f t)) = Incoming ig"
  by (simp add: Inclusive_Arrive_def Let_def Incoming_def)

lemma Inclusive_Arrive_inv:
  assumes "inclusive_inv ig" and "f \<in> set (flow_ids ig)"
  shows "inclusive_inv (fst (Inclusive_Arrive ig f t))"
  using assms
  by (auto simp: inclusive_inv_def Inclusive_Arrive_def Let_def flow_ids_def Incoming_def
      update_new_append arrivals_ok_def has_key_def)

lemma Inclusive_Recheck_inv:
  "inclusive_inv ig \<Longrightarrow> inclusive_inv (fst (Inclusive_Recheck fc ig))"
  by (auto simp: inclusive_inv_def Inclusive_Recheck_def Let_def flow_ids_def Incoming_def
      split: list.split sum.split)

interpretation inc: sync_join Inclusive_Arrive inclusive_inv flow_ids "\<lambda>ig. set (map fst (ig_arrived ig))"
proof (unfold_locales, goal_cases)
  case (1 j f t)
  then show ?case by (rule Inclusive_Arrive_inv)
next
  case (2 j f t)
  show ?case by (simp add: flow_ids_def Inclusive_Arrive_incoming)
next
  case (3 j f t j' m)
  then show ?case
    by (auto simp: Inclusive_Arrive_def Let_def dest: update_keyD split: if_splits)
next
  case (4 j f t j' m)
  then show ?case by (auto simp: Inclusive_Arrive_def Let_def split: if_splits)
next
  case (5 j f t j' m)
  let ?arr = "ig_arrived j'"
  have inv': "inclusive_inv j'" and ids: "flow_ids j' = flow_ids j"
    using Inclusive_Arrive_inv[OF 5(1,2), of t] Inclusive_Arrive_incoming[of j f t] 5(3)
    by (simp_all add: flow_ids_def)
  have full: "\<not> length ?arr < length (flow_ids j')"
    using 5(3) by (auto simp: Inclusive_Arrive_def Let_def flow_ids_def Incoming_def split: if_splits)
  have "set (map fst ?arr) = set (flow_ids j')"
    using inv' full by (intro arrivals_full) (auto simp: inclusive_inv_def)
  moreover have "set (map fst ?arr) \<subseteq> insert f (set (map fst (ig_arrived j)))"
    using 5(3) by (auto simp: Inclusive_Arrive_def Let_def dest: update_keyD split: if_splits)
  ultimately show ?case using ids by simp
next
  case (6 j f t j' m)
  then show ?case by (auto simp: Inclusive_Arrive_def Let_def absorb_filter split: if_splits)
qed

section \<open>Sequences of operations on the inclusive join\<close>

text \<open>
  The loop and the tracks interleave arrivals and rechecks in any order; a recheck brings its
  own checker. The outcome of an operation is the survivor and the merged tracks when it
  completes the join.
\<close>

datatype 'c inc_op =
    IncArrive flow_id track_id
  | IncRecheck "node_id \<Rightarrow> 'c seqflow list \<Rightarrow> 'c seqflow list result"

fun inc_do :: "'c InclusiveGateway \<Rightarrow> 'c inc_op \<Rightarrow> 'c InclusiveGateway \<times> (track_id \<times> track_id list) option" where
  "inc_do ig (IncArrive f t) =
     (let (ig', complete, merged) = Inclusive_Arrive ig f t in (ig', if complete then Some (t, merged) else None))"
| "inc_do ig (IncRecheck fc) =
     (let (ig', complete, survivor, merged) = Inclusive_Recheck fc ig
      in (ig', if complete then Some (survivor, merged) else None))"

fun inc_run :: "'c InclusiveGateway \<Rightarrow> 'c inc_op list \<Rightarrow> 'c InclusiveGateway \<times> (track_id \<times> track_id list) list" where
  "inc_run ig [] = (ig, [])"
| "inc_run ig (op # ops) =
     (let (ig', out) = inc_do ig op; (ig'', outs) = inc_run ig' ops
      in (ig'', (case out of None \<Rightarrow> outs | Some d \<Rightarrow> d # outs)))"

lemma inc_do_fired: "ig_fired ig \<Longrightarrow> inc_do ig op = (ig, None)"
  by (cases op) (auto simp: Inclusive_Arrive_def Inclusive_Recheck_def split: list.split)

lemma inc_run_fired: "ig_fired ig \<Longrightarrow> inc_run ig ops = (ig, [])"
  by (induction ops) (auto simp: inc_do_fired)

lemma inc_do_completes:
  assumes "inc_do ig op = (ig', Some (s, m))"
  shows "ig_fired ig' \<and> \<not> ig_fired ig \<and> m = absorb (ig_order ig') s
    \<and> (\<forall>fc. op = IncRecheck fc \<longrightarrow> s \<in> set (ig_order ig'))"
  using assms
  by (cases op) (auto simp: Inclusive_Arrive_def Inclusive_Recheck_def Let_def
                      split: if_splits list.splits)

lemma inc_do_waits:
  assumes "inc_do ig op = (ig', None)" and "\<not> ig_fired ig"
  shows "\<not> ig_fired ig'"
  using assms
  by (cases op) (auto simp: Inclusive_Arrive_def Inclusive_Recheck_def Let_def
                      split: if_splits list.splits)

lemma Inclusive_Recheck_iff:
  assumes "flow_checker fc live"
  shows "(\<exists>ig' s m. Inclusive_Recheck fc ig = (ig', True, s, m)) \<longleftrightarrow>
    \<not> ig_fired ig \<and> ig_order ig \<noteq> [] \<and>
    (\<forall>f \<in> set (Incoming ig). \<not> has_key (sf_id f) (ig_arrived ig) \<longrightarrow> \<not> live (bn_id ig) f)"
proof -
  have "fc (bn_id ig) fs = Inr (filter (live (bn_id ig)) fs)" for fs
    using assms by (simp add: flow_checker_def)
  then show ?thesis
    by (auto simp: Inclusive_Recheck_def Let_def unmarkedFlows_def filter_empty_conv split: list.split)
qed

section \<open>Properties\<close>

text \<open>
  The parallel join is an exact N-of-N barrier: from a fresh join, one token per
  incoming flow (in any order) makes every arrival but the last wait, the last one completes
  the join as the survivor and absorbs exactly the other tracks, and the arrival table is
  empty again, ready for reuse.
\<close>

theorem parallel_barrier:
  assumes "pg_arrived pg = []" and "distinct (flow_ids pg)" and "distinct (map snd (as @ [(f, t)]))"
    and "distinct (map fst (as @ [(f, t)]))" and "set (map fst (as @ [(f, t)])) = set (flow_ids pg)"
  shows "run_arrive Parallel_Arrive pg (as @ [(f, t)]) =
    (pg, replicate (length as) (False, []) @ [(True, map snd as)])"
proof -
  have len: "length (as @ [(f, t)]) = length (flow_ids pg)"
    using assms(2,4,5) by (metis distinct_card length_map)
  let ?pg = "pg\<lparr>pg_arrived := as\<rparr>"
  have 1: "run_arrive Parallel_Arrive pg as = (?pg, replicate (length as) (False, []))"
    using parallel_run_waiting[of pg as] assms(1,4) len by simp
  have 2: "Parallel_Arrive ?pg f t = (?pg\<lparr>pg_arrived := []\<rparr>, True, filter (\<lambda>i. i \<noteq> t) (map snd as))"
    using parallel_last_completes[of ?pg f t] assms(4) len by (simp add: flow_ids_def Incoming_def)
  have 3: "filter (\<lambda>i. i \<noteq> t) (map snd as) = map snd as"
    using assms(3) by (intro filter_True) auto
  have 4: "pg\<lparr>pg_arrived := []\<rparr> = pg" using assms(1) by simp
  show ?thesis unfolding run_arrive_append by (simp add: 1 2[unfolded 3] 4)
qed

definition ex_in :: "flow_id \<Rightarrow> bool seqflow" where
  "ex_in i = \<lparr>sf_ptr = length i, sf_id = i, sf_source = Some i, sf_target = Some ''j'', sf_cond = None\<rparr>"

definition ex_par :: "bool ParallelGateway" where
  "ex_par = \<lparr>bn_id = ''j'', bn_in = [ex_in ''a'', ex_in ''b'', ex_in ''c''], bn_out = [],
     gw_defaultFlow = None, gw_direction = Unspecified, pg_arrived = []\<rparr>"

theorem parallel_barrier_witness:
  "run_arrive Parallel_Arrive ex_par ([(''c'', ''t1''), (''a'', ''t2'')] @ [(''b'', ''t3'')])
   = (ex_par, [(False, []), (False, []), (True, [''t1'', ''t2''])])"
  using parallel_barrier[of ex_par "[(''c'', ''t1''), (''a'', ''t2'')]" "''b''" "''t3''"]
  by (auto simp: ex_par_def flow_ids_def Incoming_def ex_in_def)

text \<open>
  Claim C1. The inclusive join fires on a recheck exactly when it has not fired yet, at least
  one token has arrived, and for no incoming flow that has not delivered is there a backward
  path, avoiding the join, from the flow's source to a node holding a token.
\<close>

theorem inclusive_recheck_decides:
  "(\<exists>ig' s m. Inclusive_Recheck (fixedFlowChecker g occupied) ig = (ig', True, s, m)) =
   (\<not> ig_fired ig \<and> ig_order ig \<noteq> [] \<and>
    \<not> (\<exists>f \<in> set (Incoming ig). \<not> has_key (sf_id f) (ig_arrived ig) \<and>
        (\<exists>src n. sf_source f = Some src \<and> back_path g (bn_id ig) src n \<and> occupied n)))"
  unfolding Inclusive_Recheck_iff[OF fixed.flow_checker_axioms, of g occupied ig] flow_reachable_iff
  by blast

text \<open>
  Claim C2. Over any interleaving of arrivals and rechecks the inclusive join completes at most
  once; when it does, every recorded arrival is either the survivor or merged, and the merged
  list never contains the survivor.
\<close>

theorem inclusive_fires_once:
  "length (snd (inc_run ig ops)) \<le> 1
   \<and> (\<forall>(s, m) \<in> set (snd (inc_run ig ops)).
        s \<notin> set m \<and> set (ig_order (fst (inc_run ig ops))) - {s} = set m)"
proof (induction ops arbitrary: ig)
  case Nil
  then show ?case by simp
next
  case (Cons op ops)
  obtain ig' out where s: "inc_do ig op = (ig', out)" by fastforce
  show ?case
  proof (cases out)
    case None
    with Cons.IH[of ig'] s show ?thesis by (simp split: prod.splits)
  next
    case (Some d)
    obtain sv m where d: "d = (sv, m)" by (cases d)
    from inc_do_completes[of ig op ig' sv m] s Some d
    have "ig_fired ig'" "m = absorb (ig_order ig') sv" by auto
    then show ?thesis using s Some d by (auto simp: inc_run_fired absorb_filter)
  qed
qed

text \<open>
  A second token that reaches an inclusive join on a flow that has already delivered,
  while the join still waits, is not recorded: it parks, it is not trailing then, and no
  later arrival (of other tracks) or recheck ever names it as survivor or as merged. The code
  has no other place that releases a parked track, so such a token stays parked.
\<close>

theorem inclusive_duplicate_token_stranded:
  assumes "\<not> ig_fired ig" and "has_key f (ig_arrived ig)" and "t \<notin> set (ig_order ig)"
    and "length (ig_arrived ig) < length (Incoming ig)"
    and "\<forall>f'. IncArrive f' t \<notin> set ops"
  shows "Inclusive_Arrive ig f t = (ig, False, []) \<and> \<not> IsTrailing ig t
    \<and> (\<forall>(s, m) \<in> set (snd (inc_run ig ops)). t \<noteq> s \<and> t \<notin> set m)"
proof -
  have "\<forall>(s, m) \<in> set (snd (inc_run ig ops)). t \<noteq> s \<and> t \<notin> set m"
    using assms(3,5)
  proof (induction ops arbitrary: ig)
    case Nil
    then show ?case by simp
  next
    case (Cons op ops)
    obtain ig' out where s: "inc_do ig op = (ig', out)" by fastforce
    have order: "t \<notin> set (ig_order ig')"
      using s Cons.prems by (cases op)
        (auto simp: Inclusive_Arrive_def Inclusive_Recheck_def Let_def split: if_splits list.splits)
    have res: "\<forall>(sv, m) \<in> set_option out. t \<noteq> sv \<and> t \<notin> set m"
    proof (cases out)
      case (Some d)
      obtain sv m where d: "d = (sv, m)" by (cases d)
      have "m = absorb (ig_order ig') sv" "\<forall>fc. op = IncRecheck fc \<longrightarrow> sv \<in> set (ig_order ig')"
        using inc_do_completes[of ig op ig' sv m] s Some d by auto
      moreover have "\<forall>f'. op = IncArrive f' sv \<longrightarrow> sv \<noteq> t" using Cons.prems(2) by auto
      moreover have "\<exists>f'. op = IncArrive f' sv" if "\<forall>fc. op \<noteq> IncRecheck fc"
        using that s Some d by (cases op) (auto split: if_splits prod.splits)
      ultimately show ?thesis using order Some d by (auto simp: absorb_filter)
    qed simp
    from Cons.IH[OF order] Cons.prems(2) res s show ?case
      by (auto split: prod.splits option.splits)
  qed
  then show ?thesis using assms by (simp add: Inclusive_Arrive_def Let_def IsTrailing_def)
qed

definition ex_inc :: "bool InclusiveGateway" where
  "ex_inc = \<lparr>bn_id = ''j'', bn_in = [ex_in ''a'', ex_in ''b''], bn_out = [],
     gw_defaultFlow = None, gw_direction = Unspecified,
     ig_order = [''t1''], ig_arrived = [(''a'', ''t1'')], ig_fired = False\<rparr>"

theorem inclusive_duplicate_token_stranded_witness:
  "Inclusive_Arrive ex_inc ''a'' ''t2'' = (ex_inc, False, []) \<and> \<not> IsTrailing ex_inc ''t2''
   \<and> snd (inc_run ex_inc [IncArrive ''b'' ''t3'']) = [(''t3'', [''t1''])] \<and> ''t2'' \<notin> set (''t3'' # [''t1''])"
proof -
  have run: "snd (inc_run ex_inc [IncArrive ''b'' ''t3'']) = [(''t3'', [''t1''])]" by code_simp
  show ?thesis
    using inclusive_duplicate_token_stranded[of ex_inc "''a''" "''t2''" "[IncArrive ''b'' ''t3'']"]
    unfolding run by (simp add: ex_inc_def Incoming_def)
qed

theorem inclusive_fires_once_witness:
  "snd (inc_run ex_inc [IncArrive ''b'' ''t3'', IncArrive ''a'' ''t4'']) = [(''t3'', [''t1''])]
   \<and> ''t3'' \<notin> set [''t1'']
   \<and> set (ig_order (fst (inc_run ex_inc [IncArrive ''b'' ''t3'', IncArrive ''a'' ''t4'']))) - {''t3''} = set [''t1'']"
proof -
  have run: "snd (inc_run ex_inc [IncArrive ''b'' ''t3'', IncArrive ''a'' ''t4'']) = [(''t3'', [''t1''])]"
    by code_simp
  show ?thesis
    using inclusive_fires_once[of ex_inc "[IncArrive ''b'' ''t3'', IncArrive ''a'' ''t4'']"]
    unfolding run by simp
qed

end
