(* ===== verification/Complex_Join.thy ===== *)
theory Complex_Join
  imports Gateway_Joins
begin

text \<open>
  The complex gateway (\<^verbatim>\<open>src/pkg/model/gateways/complex.go\<close>): construction of its activation
  rule, the registration-time validation, and the activation-driven join decided by
  \<^verbatim>\<open>Recheck\<close>. Conditions are opaque (\<open>'c\<close>); \<open>eval\<close> is \<^verbatim>\<open>exec.GuardEval\<close>, \<open>fc\<close> the
  \<^verbatim>\<open>exec.FlowChecker\<close> the loop hands in.
\<close>

section \<open>The activation rule\<close>

record 'c Triple =
  tr_cond :: "'c option"
  tr_required :: "flow_id list"
  tr_count :: int

datatype 'c TripleOption = WithGuard "'c option" | WithRequired "flow_id list"

fun apply_TripleOption :: "'c TripleOption \<Rightarrow> 'c Triple \<Rightarrow> 'c Triple result" where
  "apply_TripleOption (WithGuard None) t =
     Inl (AppError InvalidParameter ''WithGuard: a nil condition isn't allowed'')"
| "apply_TripleOption (WithGuard (Some c)) t = Inr (t\<lparr>tr_cond := Some c\<rparr>)"
| "apply_TripleOption (WithRequired ids) t =
     (if ids = [] then Inl (AppError InvalidParameter ''WithRequired: at least one incoming flow id expected'')
      else if '''' \<in> set ids then Inl (AppError InvalidParameter ''WithRequired: an empty flow id isn't allowed'')
      else Inr (t\<lparr>tr_required := tr_required t @ ids\<rparr>))"

fun apply_TripleOptions :: "'c TripleOption list \<Rightarrow> 'c Triple \<Rightarrow> 'c Triple result" where
  "apply_TripleOptions [] t = Inr t"
| "apply_TripleOptions (o1 # os) t =
     (case apply_TripleOption o1 t of
        Inl e \<Rightarrow> Inl (AppError BulidingFailed ''NewTriple: option failed'')
      | Inr t' \<Rightarrow> apply_TripleOptions os t')"

definition NewTriple :: "int \<Rightarrow> 'c TripleOption list \<Rightarrow> 'c Triple result" where
  "NewTriple count opts =
     (case apply_TripleOptions opts \<lparr>tr_cond = None, tr_required = [], tr_count = count\<rparr> of
        Inl e \<Rightarrow> Inl e
      | Inr t \<Rightarrow>
          if tr_count t < 1 then Inl (AppError InvalidParameter ''NewTriple: count must be >= 1'')
          else if tr_count t < int (length (tr_required t))
          then Inl (AppError InvalidParameter ''NewTriple: count must be >= the number of required flows'')
          else Inr t)"

record 'c complexConfig =
  cc_activation :: "'c Triple list"
  cc_set :: bool

datatype 'c ComplexOption = WithActivationThreshold int | WithActivation "'c Triple list"

text \<open>An option that fails leaves the configuration as it was.\<close>

fun apply_ComplexOption :: "'c ComplexOption \<Rightarrow> 'c complexConfig \<Rightarrow> 'c complexConfig result" where
  "apply_ComplexOption (WithActivationThreshold n) cc =
     (if cc_set cc
      then Inl (AppError InvalidParameter ''WithActivationThreshold: an activation rule is already set'')
      else (case NewTriple n [] of
              Inl e \<Rightarrow> Inl e
            | Inr t \<Rightarrow> Inr (cc\<lparr>cc_activation := [t], cc_set := True\<rparr>)))"
| "apply_ComplexOption (WithActivation triples) cc =
     (if cc_set cc
      then Inl (AppError InvalidParameter ''WithActivation: an activation rule is already set'')
      else if triples = []
      then Inl (AppError InvalidParameter ''WithActivation: at least one triple expected'')
      else Inr (cc\<lparr>cc_activation := cc_activation cc @ triples, cc_set := True\<rparr>))"

definition complexConfig_Validate :: "'c complexConfig \<Rightarrow> unit result" where
  "complexConfig_Validate cc =
     (if \<not> cc_set cc \<or> cc_activation cc = []
      then Inl (AppError InvalidParameter
        ''complex gateway requires an activation rule (WithActivationThreshold or WithActivation)'')
      else Inr ())"

record 'c ComplexGateway = "'c gateway" +
  cg_activation :: "'c Triple list"
  cg_order :: "track_id list"
  cg_arrived :: "(flow_id \<times> track_id) list"
  cg_fired :: bool

text \<open>The option loop of \<^verbatim>\<open>NewComplexGateway\<close> applies every option and collects the errors.\<close>

fun complex_options_loop ::
    "'c ComplexOption list \<Rightarrow> 'c complexConfig \<Rightarrow> app_error list \<Rightarrow> 'c complexConfig \<times> app_error list" where
  "complex_options_loop [] cc ee = (cc, ee)"
| "complex_options_loop (o1 # os) cc ee =
     (case apply_ComplexOption o1 cc of
        Inl e \<Rightarrow> complex_options_loop os cc (ee @ [e])
      | Inr cc' \<Rightarrow> complex_options_loop os cc' ee)"

text \<open>\<open>base\<close> is the outcome of the base constructor \<^verbatim>\<open>New(baseOpts...)\<close>.\<close>

definition NewComplexGateway :: "'c ComplexOption list \<Rightarrow> 'c gateway result \<Rightarrow> 'c ComplexGateway result" where
  "NewComplexGateway opts base =
     (let (cc, ee) = complex_options_loop opts \<lparr>cc_activation = [], cc_set = False\<rparr> [];
          ee' = (case complexConfig_Validate cc of Inl e \<Rightarrow> ee @ [e] | Inr _ \<Rightarrow> ee)
      in if ee' \<noteq> [] then Inl (AppError BulidingFailed ''complex gateway building failed'')
         else (case base of
                 Inl e \<Rightarrow> Inl (AppError BulidingFailed ''complex gateway building failed'')
               | Inr g \<Rightarrow> Inr (gateway.extend g
                   \<lparr>cg_activation = cc_activation cc, cg_order = [], cg_arrived = [], cg_fired = False\<rparr>)))"

definition Complex_Clone :: "'c ComplexGateway \<Rightarrow> 'c ComplexGateway" where
  "Complex_Clone cg = gateway.extend (gateway_clone cg)
     \<lparr>cg_activation = cg_activation cg, cg_order = [], cg_arrived = [], cg_fired = False\<rparr>"

section \<open>The activation join\<close>

definition Complex_Record ::
    "'c ComplexGateway \<Rightarrow> flow_id \<Rightarrow> track_id \<Rightarrow> 'c ComplexGateway \<times> bool" where
  "Complex_Record cg incomingFlowID arrivingTrackID =
     (if cg_fired cg then (cg, True)
      else if \<not> has_key incomingFlowID (cg_arrived cg)
      then (cg\<lparr>cg_arrived := AList.update incomingFlowID arrivingTrackID (cg_arrived cg),
               cg_order := cg_order cg @ [arrivingTrackID]\<rparr>, False)
      else (cg, False))"

record Decision =
  dc_Survivor :: track_id
  dc_Merged :: "track_id list"
  dc_Fired :: bool
  dc_Aborted :: bool

definition no_decision :: Decision where
  "no_decision = \<lparr>dc_Survivor = '''', dc_Merged = [], dc_Fired = False, dc_Aborted = False\<rparr>"

definition requiredMet :: "(flow_id \<times> track_id) list \<Rightarrow> flow_id list \<Rightarrow> bool" where
  "requiredMet arrived required \<longleftrightarrow> list_all (\<lambda>req. has_key req arrived) required"

definition flowIDSet :: "'c seqflow list \<Rightarrow> flow_id list" where
  "flowIDSet flows = remdups (map sf_id flows)"

text \<open>\<^verbatim>\<open>evalTriple\<close> returns \<open>(fireable, alive)\<close>; a guard error fails the decision.\<close>

definition evalTriple ::
    "('c \<Rightarrow> bool result) \<Rightarrow> (flow_id \<times> track_id) list \<Rightarrow> flow_id list \<Rightarrow> 'c Triple \<Rightarrow> (bool \<times> bool) result" where
  "evalTriple eval arrived reachableIDs t =
     (let countMet = int (length arrived) \<ge> tr_count t;
          reqMet = requiredMet arrived (tr_required t)
      in case (case tr_cond t of None \<Rightarrow> Inr True | Some c \<Rightarrow> eval c) of
           Inl e \<Rightarrow> Inl e
         | Inr guardTrue \<Rightarrow>
             if guardTrue \<and> countMet \<and> reqMet then Inr (True, True)
             else if int (length arrived) + int (length reachableIDs) < tr_count t then Inr (False, False)
             else if \<not> list_all (\<lambda>req. has_key req arrived \<or> req \<in> set reachableIDs) (tr_required t)
             then Inr (False, False)
             else Inr (False, reachableIDs \<noteq> []))"

text \<open>The triple loop of \<^verbatim>\<open>decide\<close> returns whether a triple fires, and \<open>anyAlive\<close> where none does.\<close>

fun decide_loop ::
    "('c \<Rightarrow> bool result) \<Rightarrow> (flow_id \<times> track_id) list \<Rightarrow> flow_id list \<Rightarrow> bool \<Rightarrow> 'c Triple list
     \<Rightarrow> (bool \<times> bool) result" where
  "decide_loop eval arrived reachableIDs anyAlive [] = Inr (False, anyAlive)"
| "decide_loop eval arrived reachableIDs anyAlive (t # ts) =
     (case evalTriple eval arrived reachableIDs t of
        Inl e \<Rightarrow> Inl e
      | Inr (fireable, alive) \<Rightarrow>
          if fireable then Inr (True, anyAlive)
          else decide_loop eval arrived reachableIDs (anyAlive \<or> alive) ts)"

definition decide ::
    "('c \<Rightarrow> bool result) \<Rightarrow> (node_id \<Rightarrow> 'c seqflow list \<Rightarrow> 'c seqflow list result) \<Rightarrow> 'c ComplexGateway
     \<Rightarrow> 'c ComplexGateway \<times> Decision result" where
  "decide eval fc cg =
     (case fc (bn_id cg) (unmarkedFlows (Incoming cg) (cg_arrived cg)) of
        Inl e \<Rightarrow> (cg, Inr no_decision)
      | Inr reachable \<Rightarrow>
          (case decide_loop eval (cg_arrived cg) (flowIDSet reachable) False (cg_activation cg) of
             Inl e \<Rightarrow> (cg, Inl e)
           | Inr (fire, anyAlive) \<Rightarrow>
               if fire
               then (let survivor = last (cg_order cg)
                     in (cg\<lparr>cg_fired := True\<rparr>,
                         Inr \<lparr>dc_Survivor = survivor, dc_Merged = absorb (cg_order cg) survivor,
                              dc_Fired = True, dc_Aborted = False\<rparr>))
               else if \<not> anyAlive then (cg, Inr (no_decision\<lparr>dc_Aborted := True\<rparr>))
               else (cg, Inr no_decision)))"

definition Complex_Recheck ::
    "('c \<Rightarrow> bool result) \<Rightarrow> (node_id \<Rightarrow> 'c seqflow list \<Rightarrow> 'c seqflow list result) \<Rightarrow> 'c ComplexGateway
     \<Rightarrow> 'c ComplexGateway \<times> Decision result" where
  "Complex_Recheck eval fc cg =
     (if cg_fired cg \<or> cg_order cg = [] then (cg, Inr no_decision) else decide eval fc cg)"

section \<open>Registration-time validation\<close>

text \<open>The error list of \<^verbatim>\<open>ComplexGateway.Validate\<close>; an empty list is a nil error.\<close>

definition triple_errors :: "flow_id list \<Rightarrow> 'c Triple \<Rightarrow> app_error list" where
  "triple_errors inIDs t =
     (if tr_count t < 1 \<or> tr_count t > int (length inIDs)
      then [AppError InvalidObject ''complex gateway triple count out of range [1, incoming]''] else [])
     @ map (\<lambda>_. AppError InvalidObject ''complex gateway required flow is not an incoming flow'')
           (filter (\<lambda>req. req \<notin> set inIDs) (tr_required t))"

definition Complex_Validate :: "'c ComplexGateway \<Rightarrow> app_error list" where
  "Complex_Validate cg = concat (map (triple_errors (flow_ids cg)) (cg_activation cg))"

section \<open>Facts about the decision\<close>

definition triple_sat :: "('c \<Rightarrow> bool result) \<Rightarrow> (flow_id \<times> track_id) list \<Rightarrow> 'c Triple \<Rightarrow> bool" where
  "triple_sat eval arrived t \<longleftrightarrow>
     (case tr_cond t of None \<Rightarrow> True | Some c \<Rightarrow> eval c = Inr True)
     \<and> tr_count t \<le> int (length arrived) \<and> set (tr_required t) \<subseteq> fst ` set arrived"

lemma requiredMet_iff: "requiredMet arrived req \<longleftrightarrow> set req \<subseteq> fst ` set arrived"
  by (auto simp: requiredMet_def list_all_iff has_key_def)

lemma evalTriple_fireable:
  "evalTriple eval arrived reach t = Inr (True, a) \<Longrightarrow> triple_sat eval arrived t"
  by (auto simp: evalTriple_def triple_sat_def Let_def requiredMet_iff
           split: option.splits sum.splits if_splits)

lemma evalTriple_sat:
  "triple_sat eval arrived t \<Longrightarrow> evalTriple eval arrived reach t = Inr (True, True)"
  by (auto simp: evalTriple_def triple_sat_def Let_def requiredMet_iff split: option.splits)

lemma evalTriple_dead:
  assumes "evalTriple eval arrived reach t = Inr (False, False)"
  shows "reach = [] \<or> int (length arrived) + int (length reach) < tr_count t
    \<or> (\<exists>req \<in> set (tr_required t). \<not> has_key req arrived \<and> req \<notin> set reach)"
  using assms
  by (auto simp: evalTriple_def Let_def list_all_iff split: option.splits sum.splits if_splits)

lemma decide_loop_fire:
  "decide_loop eval arrived reach a ts = Inr (True, b) \<Longrightarrow> \<exists>t \<in> set ts. triple_sat eval arrived t"
proof (induction ts arbitrary: a)
  case (Cons t ts)
  then show ?case
    by (fastforce split: sum.splits prod.splits if_splits dest: evalTriple_fireable)
qed simp

lemma decide_loop_alive:
  "decide_loop eval arrived reach a ts = Inr (False, b) \<Longrightarrow>
   b = (a \<or> (\<exists>t \<in> set ts. evalTriple eval arrived reach t = Inr (False, True)))
   \<and> (\<forall>t \<in> set ts. \<exists>al. evalTriple eval arrived reach t = Inr (False, al))"
proof (induction ts arbitrary: a)
  case (Cons t ts)
  then obtain al where t: "evalTriple eval arrived reach t = Inr (False, al)"
    and rest: "decide_loop eval arrived reach (a \<or> al) ts = Inr (False, b)"
    by (auto split: sum.splits prod.splits if_splits)
  with Cons.IH[OF rest] show ?case by auto
qed simp

lemma decide_loop_first_sat:
  assumes "\<forall>t \<in> set pre. \<exists>al. evalTriple eval arrived reach t = Inr (False, al)"
    and "triple_sat eval arrived t"
  shows "\<exists>b. decide_loop eval arrived reach a (pre @ t # post) = Inr (True, b)"
  using assms(1)
proof (induction pre arbitrary: a)
  case Nil
  then show ?case using assms(2) by (simp add: evalTriple_sat)
next
  case (Cons p pre)
  then obtain al where "evalTriple eval arrived reach p = Inr (False, al)" by auto
  with Cons show ?case by simp
qed

text \<open>Evaluable guards: the decision never errors, and a satisfied triple always fires.\<close>

lemma evalTriple_total:
  assumes "\<forall>c. tr_cond t = Some c \<longrightarrow> (\<exists>b. eval c = Inr b)"
  shows "\<exists>f al. evalTriple eval arrived reach t = Inr (f, al)"
  using assms by (cases "tr_cond t") (auto simp: evalTriple_def Let_def)

lemma decide_loop_sat:
  assumes "\<forall>t \<in> set ts. \<forall>c. tr_cond t = Some c \<longrightarrow> (\<exists>b. eval c = Inr b)"
    and "\<exists>t \<in> set ts. triple_sat eval arrived t"
  shows "\<exists>b. decide_loop eval arrived reach a ts = Inr (True, b)"
  using assms
proof (induction ts arbitrary: a)
  case (Cons t ts)
  obtain f al where t: "evalTriple eval arrived reach t = Inr (f, al)"
    using evalTriple_total[of t eval arrived reach] Cons.prems(1) by auto
  show ?case
  proof (cases f)
    case False
    with t have "\<not> triple_sat eval arrived t" using evalTriple_sat[of eval arrived t reach] by auto
    with Cons t False show ?thesis by simp
  qed (simp add: t)
qed simp

lemma decide_loop_none:
  assumes "\<forall>t \<in> set ts. \<forall>c. tr_cond t = Some c \<longrightarrow> (\<exists>b. eval c = Inr b)"
    and "\<not> (\<exists>t \<in> set ts. triple_sat eval arrived t)"
  shows "decide_loop eval arrived [] False ts = Inr (False, False)"
  using assms
proof (induction ts)
  case (Cons t ts)
  obtain f al where t: "evalTriple eval arrived [] t = Inr (f, al)"
    using evalTriple_total[of t eval arrived "[]"] Cons.prems(1) by auto
  have "\<not> f" using evalTriple_fireable[of eval arrived "[]" t al] t Cons.prems(2) by (cases f) auto
  moreover from this have "\<not> al"
    using t by (auto simp: evalTriple_def Let_def split: sum.splits if_splits)
  ultimately show ?case using Cons t by simp
qed simp

lemma Complex_Recheck_Fired:
  assumes "Complex_Recheck eval fc cg = (cg', Inr d)" and "dc_Fired d"
  shows "\<not> cg_fired cg \<and> cg_order cg \<noteq> [] \<and> cg' = cg\<lparr>cg_fired := True\<rparr>
    \<and> dc_Survivor d = last (cg_order cg) \<and> dc_Merged d = absorb (cg_order cg) (last (cg_order cg))
    \<and> \<not> dc_Aborted d \<and> (\<exists>t \<in> set (cg_activation cg). triple_sat eval (cg_arrived cg) t)"
  using assms
  by (auto simp: Complex_Recheck_def decide_def no_decision_def Let_def
           dest: decide_loop_fire split: if_splits sum.splits prod.splits)

lemma Complex_Recheck_Aborted:
  assumes "Complex_Recheck eval fc cg = (cg', Inr d)" and "dc_Aborted d"
  obtains reachable where "fc (bn_id cg) (unmarkedFlows (Incoming cg) (cg_arrived cg)) = Inr reachable"
    and "cg' = cg" and "\<not> dc_Fired d"
    and "\<forall>t \<in> set (cg_activation cg).
      evalTriple eval (cg_arrived cg) (flowIDSet reachable) t = Inr (False, False)"
proof -
  from assms have d: "decide eval fc cg = (cg', Inr d)"
    by (auto simp: Complex_Recheck_def no_decision_def split: if_splits)
  then obtain reachable where r: "fc (bn_id cg) (unmarkedFlows (Incoming cg) (cg_arrived cg)) = Inr reachable"
    using assms(2) by (auto simp: decide_def no_decision_def split: sum.splits)
  with d assms(2) have l: "decide_loop eval (cg_arrived cg) (flowIDSet reachable) False (cg_activation cg)
      = Inr (False, False)" and "cg' = cg" "\<not> dc_Fired d"
    by (auto simp: decide_def no_decision_def Let_def split: sum.splits prod.splits if_splits)
  with decide_loop_alive[OF l] that[OF r] show ?thesis by fastforce
qed

section \<open>Properties\<close>

text \<open>
  A complex gateway fires only when some activation triple is satisfied by the
  recorded arrivals (count met, all required flows arrived, guard true), then latches; the
  last arrival is the survivor, every other recorded track is merged, and a latched gateway
  neither records nor decides anything again.
\<close>

theorem complex_fire_sound:
  assumes "Complex_Recheck eval fc cg = (cg', Inr d)" and "dc_Fired d"
  shows "(\<exists>t \<in> set (cg_activation cg). triple_sat eval (cg_arrived cg) t)
    \<and> dc_Survivor d = last (cg_order cg) \<and> set (dc_Merged d) = set (cg_order cg) - {dc_Survivor d}
    \<and> \<not> dc_Aborted d
    \<and> (\<forall>f t eval' fc'. Complex_Record cg' f t = (cg', True)
        \<and> Complex_Recheck eval' fc' cg' = (cg', Inr no_decision))"
  using Complex_Recheck_Fired[OF assms]
  by (auto simp: absorb_filter Complex_Record_def Complex_Recheck_def)

text \<open>
  Claim C33. A complex gateway aborts only when its rule is unsatisfiable: whatever further
  arrivals the still reachable incoming flows may deliver, and whatever the guards then say,
  no triple can be satisfied, unless nothing can arrive any more at all, in which case no
  triple is satisfied now.
\<close>

theorem complex_abort_sound:
  assumes inv: "arrivals_ok (flow_ids cg) (cg_arrived cg)"
    and "Complex_Recheck eval (fixedFlowChecker g occupied) cg = (cg', Inr d)" and "dc_Aborted d"
    and t: "t \<in> set (cg_activation cg)"
    and later: "distinct (map fst (cg_arrived cg @ later))"
    and "fst ` set later \<subseteq> sf_id ` {f \<in> set (Incoming cg). flow_reachable g (bn_id cg) occupied f}"
  shows "\<not> triple_sat eval (cg_arrived cg) t \<and> (later \<noteq> [] \<longrightarrow> \<not> triple_sat eval' (cg_arrived cg @ later) t)"
proof -
  let ?un = "unmarkedFlows (Incoming cg) (cg_arrived cg)"
  let ?R = "flowIDSet (filter (flow_reachable g (bn_id cg) occupied) ?un)"
  from Complex_Recheck_Aborted[OF assms(2,3)]
  have dead: "evalTriple eval (cg_arrived cg) ?R t = Inr (False, False)"
    using t by (auto simp: fixed.check_live)
  have now: "\<not> triple_sat eval (cg_arrived cg) t"
    using dead evalTriple_sat[of eval "cg_arrived cg" t ?R] by auto
  have sub: "fst ` set later \<subseteq> set ?R"
  proof
    fix i assume i: "i \<in> fst ` set later"
    with assms(6) obtain f where f: "f \<in> set (Incoming cg)" "flow_reachable g (bn_id cg) occupied f" "sf_id f = i"
      by (auto simp: subset_iff image_iff)
    moreover have "\<not> has_key i (cg_arrived cg)"
      using i later by (auto simp: has_key_def)
    ultimately show "i \<in> set ?R" by (auto simp: flowIDSet_def unmarkedFlows_def)
  qed
  have len: "length later \<le> length ?R"
    using distinct_subset_length_le[of "map fst later" ?R] sub later by simp
  have "\<not> triple_sat eval' (cg_arrived cg @ later) t" if "later \<noteq> []"
  proof -
    have "?R \<noteq> []" using sub that by (cases later) auto
    with evalTriple_dead[OF dead]
    consider "int (length (cg_arrived cg)) + int (length ?R) < tr_count t"
      | req where "req \<in> set (tr_required t)" "\<not> has_key req (cg_arrived cg)" "req \<notin> set ?R"
      by blast
    then show ?thesis
    proof cases
      case 1
      then show ?thesis using len by (simp add: triple_sat_def)
    next
      case 2
      then have "req \<notin> fst ` (set (cg_arrived cg) \<union> set later)"
        using sub by (auto simp: has_key_def image_Un)
      with 2(1) show ?thesis by (auto simp: triple_sat_def)
    qed
  qed
  with now show ?thesis by blast
qed

text \<open>
  A validated complex gateway whose incoming flows have all delivered and whose guards
  all evaluate never waits: its next recheck fires if some triple's guard is absent or true,
  and aborts otherwise.
\<close>

theorem complex_progress:
  assumes "Complex_Validate cg = []" and "\<not> cg_fired cg" and "cg_order cg \<noteq> []"
    and "arrivals_ok (flow_ids cg) (cg_arrived cg)" and "set (flow_ids cg) \<subseteq> fst ` set (cg_arrived cg)"
    and "\<forall>t \<in> set (cg_activation cg). \<forall>c. tr_cond t = Some c \<longrightarrow> (\<exists>b. eval c = Inr b)"
  shows "\<exists>cg' d. Complex_Recheck eval (fixedFlowChecker g occupied) cg = (cg', Inr d)
    \<and> dc_Fired d = (\<exists>t \<in> set (cg_activation cg). tr_cond t = None \<or> eval (the (tr_cond t)) = Inr True)
    \<and> dc_Aborted d = (\<not> dc_Fired d)"
proof -
  have un: "unmarkedFlows (Incoming cg) (cg_arrived cg) = []"
    using assms(5) by (auto simp: unmarkedFlows_def filter_empty_conv flow_ids_def has_key_def)
  have keys: "set (map fst (cg_arrived cg)) = set (flow_ids cg)"
    using assms(4,5) by (auto simp: arrivals_ok_def)
  have len: "length (cg_arrived cg) = length (flow_ids cg)"
    using keys assms(4) by (metis arrivals_ok_def distinct_card length_map)
  have sat: "triple_sat eval (cg_arrived cg) t = (tr_cond t = None \<or> eval (the (tr_cond t)) = Inr True)"
    if t: "t \<in> set (cg_activation cg)" for t
  proof -
    have "triple_errors (flow_ids cg) t = []" using assms(1) t by (auto simp: Complex_Validate_def)
    then have "tr_count t \<le> int (length (cg_arrived cg))" "set (tr_required t) \<subseteq> fst ` set (cg_arrived cg)"
      using len keys by (auto simp: triple_errors_def filter_empty_conv split: if_splits)
    then show ?thesis by (cases "tr_cond t") (auto simp: triple_sat_def)
  qed
  let ?loop = "decide_loop eval (cg_arrived cg) [] False (cg_activation cg)"
  have rc: "Complex_Recheck eval (fixedFlowChecker g occupied) cg = decide eval (fixedFlowChecker g occupied) cg"
    using assms(2,3) by (simp add: Complex_Recheck_def)
  show ?thesis
  proof (cases "\<exists>t \<in> set (cg_activation cg). triple_sat eval (cg_arrived cg) t")
    case True
    from decide_loop_sat[OF assms(6) True] obtain b where "?loop = Inr (True, b)" by blast
    with True sat show ?thesis
      by (auto simp: rc decide_def fixed.check_live un flowIDSet_def Let_def)
  next
    case False
    have "?loop = Inr (False, False)"
      using decide_loop_none[OF assms(6) False] by simp
    with False sat show ?thesis
      by (auto simp: rc decide_def fixed.check_live un flowIDSet_def no_decision_def)
  qed
qed

definition ex_cpx :: "bool ComplexGateway" where
  "ex_cpx = \<lparr>bn_id = ''j'', bn_in = [ex_in ''a'', ex_in ''b'', ex_in ''c''], bn_out = [],
     gw_defaultFlow = None, gw_direction = Unspecified,
     cg_activation = [\<lparr>tr_cond = None, tr_required = [''b''], tr_count = 2\<rparr>],
     cg_order = [''t1'', ''t2''], cg_arrived = [(''a'', ''t1''), (''b'', ''t2'')], cg_fired = False\<rparr>"

theorem complex_fire_sound_witness:
  "\<exists>t \<in> set (cg_activation ex_cpx). triple_sat Inr (cg_arrived ex_cpx) t"
proof -
  have "Complex_Recheck Inr (fixedFlowChecker [] (\<lambda>_. False)) ex_cpx
      = (ex_cpx\<lparr>cg_fired := True\<rparr>, Inr \<lparr>dc_Survivor = ''t2'', dc_Merged = [''t1''], dc_Fired = True, dc_Aborted = False\<rparr>)"
    by code_simp
  from complex_fire_sound[OF this] show ?thesis by simp
qed

definition ex_cpx1 :: "bool ComplexGateway" where
  "ex_cpx1 = ex_cpx\<lparr>cg_order := [''t1''], cg_arrived := [(''a'', ''t1'')]\<rparr>"

text \<open>Only \<open>c\<close> is still reachable, and the triple requires \<open>b\<close>.\<close>

theorem complex_abort_sound_witness:
  "\<not> triple_sat Inr (cg_arrived ex_cpx1 @ [(''c'', ''t9'')]) (hd (cg_activation ex_cpx1))"
proof -
  let ?occ = "\<lambda>n. n = ''c''"
  have ok: "arrivals_ok (flow_ids ex_cpx1) (cg_arrived ex_cpx1)"
    by (simp add: arrivals_ok_def flow_ids_def Incoming_def ex_cpx1_def ex_cpx_def ex_in_def)
  have ab: "Complex_Recheck Inr (fixedFlowChecker [] ?occ) ex_cpx1
      = (ex_cpx1, Inr (no_decision\<lparr>dc_Aborted := True\<rparr>))" by code_simp
  have dst: "distinct (map fst (cg_arrived ex_cpx1 @ [(''c'', ''t9'')]))" by (simp add: ex_cpx1_def)
  have r: "flow_reachable [] (bn_id ex_cpx1) ?occ (ex_in ''c'')" by code_simp
  have "ex_in ''c'' \<in> set (Incoming ex_cpx1)" "sf_id (ex_in ''c'') = ''c''"
    by (simp_all add: ex_cpx1_def ex_cpx_def Incoming_def ex_in_def)
  with r have later: "fst ` set [(''c'', ''t9'')] \<subseteq>
      sf_id ` {f \<in> set (Incoming ex_cpx1). flow_reachable [] (bn_id ex_cpx1) ?occ f}" by force
  have "hd (cg_activation ex_cpx1) \<in> set (cg_activation ex_cpx1)" by (simp add: ex_cpx1_def ex_cpx_def)
  from complex_abort_sound[OF ok ab _ this dst later, of Inr] show ?thesis by (simp add: no_decision_def)
qed

definition ex_cpx3 :: "bool ComplexGateway" where
  "ex_cpx3 = ex_cpx\<lparr>cg_order := [''t1'', ''t2'', ''t3''],
     cg_arrived := [(''a'', ''t1''), (''b'', ''t2''), (''c'', ''t3'')]\<rparr>"

theorem complex_progress_witness:
  "\<exists>cg' d. Complex_Recheck Inr (fixedFlowChecker [] (\<lambda>_. False)) ex_cpx3 = (cg', Inr d) \<and> dc_Fired d"
proof -
  have "Complex_Validate ex_cpx3 = []" by code_simp
  then show ?thesis
    using complex_progress[of ex_cpx3 Inr "[]" "\<lambda>_. False"]
    by (auto simp: ex_cpx3_def ex_cpx_def arrivals_ok_def flow_ids_def Incoming_def ex_in_def)
qed

end
