(* ===== verification/Float64.thy ===== *)
theory Float64
  imports Complex_Main "HOL-Library.Log_Nat"
begin

text \<open>
  Go's \<^verbatim>\<open>float64\<close> as the expression language uses it: IEEE 754 binary64 with round to
  nearest, ties to even, including signed zeros, infinities and NaN. A finite non-zero value
  is the rational number it denotes; an operation computes the exact rational result and
  rounds it once, as the standard prescribes. \<^verbatim>\<open>math.Mod\<close>, the integer conversions and the
  decimal reading of \<^verbatim>\<open>strconv.ParseFloat\<close> are the ones the evaluator and the lexer call.
\<close>

datatype float64 = NaN | Inf bool | Zero bool | Fin rat

text \<open>The flag of \<^const>\<open>Inf\<close> and \<^const>\<open>Zero\<close> is the sign bit: \<open>True\<close> is negative.\<close>

section \<open>Rounding\<close>

definition pow2 :: "int \<Rightarrow> rat" where
  "pow2 e = (if 0 \<le> e then 2 ^ nat e else 1 / 2 ^ nat (- e))"

text \<open>The exponent \<open>e\<close> with \<open>pow2 e \<le> q < pow2 (e + 1)\<close> of a positive \<open>q\<close>.\<close>

definition ilog2 :: "rat \<Rightarrow> int" where
  "ilog2 q = (let (n, d) = quotient_of q; e = bitlen n - bitlen d in if pow2 e \<le> q then e else e - 1)"

definition round_even :: "rat \<Rightarrow> int" where
  "round_even q =
     (let m = \<lfloor>q\<rfloor>; r = q - of_int m
      in if r < 1/2 then m else if r > 1/2 then m + 1 else if even m then m else m + 1)"

text \<open>Round the magnitude \<open>q \<ge> 0\<close> with sign \<open>s\<close>; the least quantum is \<open>2^-1074\<close>.\<close>

definition fround :: "bool \<Rightarrow> rat \<Rightarrow> float64" where
  "fround s q =
     (if q = 0 then Zero s
      else (let qe = max (ilog2 q - 52) (-1074);
                v = of_int (round_even (q / pow2 qe)) * pow2 qe
            in if v = 0 then Zero s
               else if pow2 1024 \<le> v then Inf s
               else Fin (if s then - v else v)))"

section \<open>Operations\<close>

fun fval :: "float64 \<Rightarrow> rat" where
  "fval (Fin q) = q"
| "fval _ = 0"

fun fsign :: "float64 \<Rightarrow> bool" where
  "fsign NaN = False"
| "fsign (Inf s) = s"
| "fsign (Zero s) = s"
| "fsign (Fin q) = (q < 0)"

fun fis_zero :: "float64 \<Rightarrow> bool" where
  "fis_zero (Zero _) = True"
| "fis_zero _ = False"

fun fneg :: "float64 \<Rightarrow> float64" where
  "fneg NaN = NaN"
| "fneg (Inf s) = Inf (\<not> s)"
| "fneg (Zero s) = Zero (\<not> s)"
| "fneg (Fin q) = Fin (- q)"

definition fofrat :: "rat \<Rightarrow> float64" where
  "fofrat q = fround (q < 0) \<bar>q\<bar>"

fun fadd :: "float64 \<Rightarrow> float64 \<Rightarrow> float64" where
  "fadd NaN _ = NaN"
| "fadd _ NaN = NaN"
| "fadd (Inf s) (Inf t) = (if s = t then Inf s else NaN)"
| "fadd (Inf s) _ = Inf s"
| "fadd _ (Inf t) = Inf t"
| "fadd (Zero s) (Zero t) = Zero (s \<and> t)"
| "fadd x y = fofrat (fval x + fval y)"

definition fsub :: "float64 \<Rightarrow> float64 \<Rightarrow> float64" where
  "fsub x y = fadd x (fneg y)"

definition fmul :: "float64 \<Rightarrow> float64 \<Rightarrow> float64" where
  "fmul x y =
     (let s = (fsign x \<noteq> fsign y) in
      case (x, y) of
        (NaN, _) \<Rightarrow> NaN
      | (_, NaN) \<Rightarrow> NaN
      | (Inf _, _) \<Rightarrow> (if fis_zero y then NaN else Inf s)
      | (_, Inf _) \<Rightarrow> (if fis_zero x then NaN else Inf s)
      | _ \<Rightarrow> fround s \<bar>fval x * fval y\<bar>)"

definition fdiv :: "float64 \<Rightarrow> float64 \<Rightarrow> float64" where
  "fdiv x y =
     (let s = (fsign x \<noteq> fsign y) in
      case (x, y) of
        (NaN, _) \<Rightarrow> NaN
      | (_, NaN) \<Rightarrow> NaN
      | (Inf _, Inf _) \<Rightarrow> NaN
      | (Inf _, _) \<Rightarrow> Inf s
      | (_, Inf _) \<Rightarrow> Zero s
      | (_, Zero _) \<Rightarrow> (if fis_zero x then NaN else Inf s)
      | _ \<Rightarrow> fround s \<bar>fval x / fval y\<bar>)"

text \<open>\<^verbatim>\<open>math.Mod\<close>: the remainder of the truncated division, with the sign of \<open>x\<close>.\<close>

definition ftrunc :: "rat \<Rightarrow> int" where
  "ftrunc q = (if q < 0 then \<lceil>q\<rceil> else \<lfloor>q\<rfloor>)"

definition fmod :: "float64 \<Rightarrow> float64 \<Rightarrow> float64" where
  "fmod x y =
     (case (x, y) of
        (NaN, _) \<Rightarrow> NaN
      | (_, NaN) \<Rightarrow> NaN
      | (Inf _, _) \<Rightarrow> NaN
      | (_, Zero _) \<Rightarrow> NaN
      | (_, Inf _) \<Rightarrow> x
      | _ \<Rightarrow> fround (fsign x) \<bar>fval x - fval y * of_int (ftrunc (fval x / fval y))\<bar>)"

fun feq :: "float64 \<Rightarrow> float64 \<Rightarrow> bool" where
  "feq NaN _ = False"
| "feq _ NaN = False"
| "feq (Inf s) (Inf t) = (s = t)"
| "feq (Inf _) _ = False"
| "feq _ (Inf _) = False"
| "feq x y = (fval x = fval y)"

fun flt :: "float64 \<Rightarrow> float64 \<Rightarrow> bool" where
  "flt NaN _ = False"
| "flt _ NaN = False"
| "flt (Inf s) (Inf t) = (s \<and> \<not> t)"
| "flt (Inf s) _ = s"
| "flt _ (Inf t) = (\<not> t)"
| "flt x y = (fval x < fval y)"

section \<open>Conversions\<close>

definition fofint :: "int \<Rightarrow> float64" where
  "fofint n = fofrat (of_int n)"

section \<open>Exactness and order\<close>

lemma pow2_pos: "0 < pow2 e"
  by (simp add: pow2_def)

lemma round_even_int [simp]: "round_even (of_int m) = m"
  by (simp add: round_even_def Let_def)

lemma ilog2_int_le:
  assumes "0 < n" and "n < 2 ^ 53"
  shows "ilog2 (of_int n) \<le> 52"
proof -
  have "bitlen n \<le> 53" using assms bitlen_le_iff_power[of n 53] by simp
  moreover have "bitlen (1::int) = 1" using bitlen_eq_zero_iff[of 1] bitlen_le_iff_power[of 1 1] bitlen_nonneg[of 1] by simp
  ultimately show ?thesis by (auto simp: ilog2_def Let_def quotient_of_int)
qed

lemma fround_int_exact:
  assumes "0 < n" and "n < 2 ^ 53"
  shows "fround s (of_int n) = Fin (if s then - of_int n else of_int n)"
proof -
  define qe where "qe = max (ilog2 (of_int n) - 52) (-1074)"
  have qe: "qe \<le> 0" using ilog2_int_le[OF assms] by (simp add: qe_def)
  have p: "pow2 qe = 1 / 2 ^ nat (- qe)" using qe by (cases "qe = 0") (auto simp: pow2_def)
  have "of_int n / pow2 qe = of_int (n * 2 ^ nat (- qe))" by (simp add: p)
  then have v: "of_int (round_even (of_int n / pow2 qe)) * pow2 qe = (of_int n :: rat)"
    by (simp only: round_even_int) (simp add: p)
  have "(of_int n :: rat) < pow2 1024"
  proof -
    have "n < 2 ^ 1024" using assms(2) by (rule order.strict_trans) simp
    then have "(of_int n :: rat) < of_int (2 ^ 1024)" by (simp only: of_int_less_iff)
    then show ?thesis by (simp add: pow2_def)
  qed
  then have "\<not> pow2 1024 \<le> (of_int n :: rat)" by simp
  with assms(1) show ?thesis
    by (simp add: fround_def Let_def v del: mult_eq_0_iff flip: qe_def)
qed

lemma fofint_exact:
  assumes "\<bar>n\<bar> < 2 ^ 53"
  shows "fofint n = (if n = 0 then Zero False else Fin (of_int n))"
proof -
  have "fround (n < 0) (of_int \<bar>n\<bar>) = Fin (if n < 0 then - of_int \<bar>n\<bar> else of_int \<bar>n\<bar>)" if "n \<noteq> 0"
    using fround_int_exact[of "\<bar>n\<bar>" "n < 0"] assms that by simp
  then show ?thesis by (auto simp: fofint_def fofrat_def fround_def)
qed

text \<open>Without NaN the comparison is a linear order up to the two zeros.\<close>

lemma feq_flt_trichotomy:
  "x \<noteq> NaN \<Longrightarrow> y \<noteq> NaN \<Longrightarrow> feq x y \<or> flt x y \<or> flt y x"
  by (cases x; cases y) auto

lemma flt_not_sym: "flt x y \<Longrightarrow> \<not> flt y x \<and> \<not> feq x y"
  by (cases x; cases y) auto

lemma feq_sym: "feq x y = feq y x"
  by (cases x; cases y) auto

end
