(* ===== verification/Lite_Lexer.thy ===== *)
theory Lite_Lexer
  imports Gobpm_Prelude Float64
begin

text \<open>
  The scanner of the \<^verbatim>\<open>gobpm:lite\<close> expression language
  (\<^verbatim>\<open>src/pkg/model/expression/lite/lexer.go\<close>). A Go string is its list of bytes. Where the code
  passes \<^verbatim>\<open>(body, i)\<close> the model passes the offset \<open>i\<close> and the suffix \<^verbatim>\<open>body[i:]\<close>; a scanner
  returns its token, the end offset and the suffix there.

  The lemmas show that every scanner consumes at least one byte, which is what makes the loop
  of \<^verbatim>\<open>lex\<close> terminate, that offsets stay inside the body, and that a quoted string literal is
  read back exactly.
\<close>

section \<open>Errors of the language\<close>

text \<open>
  An error of the language carries the byte offset the code attaches with
  \<^verbatim>\<open>errs.D("offset", ..)\<close> and the wrapped cause of \<^verbatim>\<open>errs.E\<close>. \<open>IndexPanic\<close> is the Go runtime
  panic of an index out of range and \<open>OutOfFuel\<close> the exhausted recursion bound of the model of
  the parser; both are shown never to be produced.
\<close>

datatype lite_err =
    LiteErr (le_code: errcode) (le_msg: string) (le_off: "nat option") (le_cause: "app_error option")
  | IndexPanic
  | OutOfFuel

type_synonym 'a lres = "lite_err + 'a"

definition syntaxErr :: "string \<Rightarrow> nat \<Rightarrow> lite_err" where
  "syntaxErr msg off = LiteErr InvalidParameter (''syntax error: '' @ msg) (Some off) None"

lemma le_off_syntaxErr [simp]: "le_off (syntaxErr m k) = Some k"
  by (simp add: syntaxErr_def)

lemma syntaxErr_neq [simp]:
  "syntaxErr m k \<noteq> IndexPanic" "IndexPanic \<noteq> syntaxErr m k"
  "syntaxErr m k \<noteq> OutOfFuel" "OutOfFuel \<noteq> syntaxErr m k"
  by (simp_all add: syntaxErr_def)

section \<open>Tokens\<close>

datatype tokKind =
    tkNumber | tkString | tkRef | tkTrue | tkFalse | tkNil | tkAnd | tkOr | tkNot | tkOp
  | tkLParen | tkRParen | tkEOF

record token =
  t_text :: string
  t_num :: float64
  t_off :: nat
  t_kind :: tokKind

text \<open>A composite literal that leaves \<^verbatim>\<open>num\<close> out has its zero value.\<close>

definition mk_token :: "tokKind \<Rightarrow> string \<Rightarrow> nat \<Rightarrow> token" where
  "mk_token k s off = \<lparr>t_text = s, t_num = Zero False, t_off = off, t_kind = k\<rparr>"

definition lite_keywords :: "(string \<times> tokKind) list" where
  "lite_keywords = [(''true'', tkTrue), (''false'', tkFalse), (''nil'', tkNil),
               (''and'', tkAnd), (''or'', tkOr), (''not'', tkNot)]"

section \<open>Byte classes\<close>

definition is_space :: "char \<Rightarrow> bool" where
  "is_space c \<longleftrightarrow> byte c \<in> {32, 9, 10, 13}"

definition is_quote :: "char \<Rightarrow> bool" where
  "is_quote c \<longleftrightarrow> byte c = 39 \<or> byte c = 34"

definition isIdentStart :: "char \<Rightarrow> bool" where
  "isIdentStart c \<longleftrightarrow>
     c = CHR ''_'' \<or> (97 \<le> byte c \<and> byte c \<le> 122) \<or> (65 \<le> byte c \<and> byte c \<le> 90)"

definition isIdentPart :: "char \<Rightarrow> bool" where
  "isIdentPart c \<longleftrightarrow> isIdentStart c \<or> is_digit c"

section \<open>Numbers\<close>

text \<open>
  \<^verbatim>\<open>strconv.ParseFloat(s, 64)\<close> on the literals the scanner hands it, \<open>digits[.digits]\<close>: the
  nearest \<^verbatim>\<open>float64\<close>, and an error when that overflows.
\<close>

definition ParseFloat :: "string \<Rightarrow> float64 option" where
  "ParseFloat s =
     (let ip = takeWhile is_digit s;
          fp = takeWhile is_digit (tl (dropWhile is_digit s))
      in case fround False (of_nat (digits_val (ip @ fp)) / 10 ^ length fp) of
           Inf _ \<Rightarrow> None
         | v \<Rightarrow> Some v)"

definition num_token :: "string \<Rightarrow> nat \<Rightarrow> string \<Rightarrow> (token \<times> nat \<times> string) lres" where
  "num_token s i rest =
     (case ParseFloat s of
        None \<Rightarrow> Inl (syntaxErr (''invalid number '' @ s) i)
      | Some n \<Rightarrow> Inr (\<lparr>t_text = s, t_num = n, t_off = i, t_kind = tkNumber\<rparr>, i + length s, rest))"

definition lexNumber :: "nat \<Rightarrow> string \<Rightarrow> (token \<times> nat \<times> string) lres" where
  "lexNumber i bs =
     (let ip = takeWhile is_digit bs; r1 = dropWhile is_digit bs
      in case r1 of
           c # r2 \<Rightarrow>
             (if c = CHR ''.'' then
                (let fp = takeWhile is_digit r2 in
                 if fp = [] then
                   Inl (syntaxErr ''a digit must follow the decimal point'' (i + length ip + 1))
                 else num_token (ip @ c # fp) i (dropWhile is_digit r2))
              else num_token ip i r1)
         | [] \<Rightarrow> num_token ip i r1)"

section \<open>Strings\<close>

text \<open>The loop of \<^verbatim>\<open>lexString\<close>: \<open>q\<close> the quote, \<open>i\<close> where the literal starts, \<open>j\<close> the cursor.\<close>

fun lexString_loop :: "char \<Rightarrow> nat \<Rightarrow> nat \<Rightarrow> string \<Rightarrow> string \<Rightarrow> (token \<times> nat \<times> string) lres" where
  "lexString_loop q i j sb [] = Inl (syntaxErr ''unterminated string'' i)"
| "lexString_loop q i j sb (c # bs) =
     (if c = bslash then
        (case bs of
           d # bs' \<Rightarrow>
             (if d = q \<or> d = bslash then lexString_loop q i (j + 2) (sb @ [d]) bs'
              else Inl (syntaxErr (''only the quote and '' @ sq [bslash] @ '' may be escaped'') j))
         | [] \<Rightarrow> Inl (syntaxErr (''only the quote and '' @ sq [bslash] @ '' may be escaped'') j))
      else if c = q then Inr (mk_token tkString sb i, j + 1, bs)
      else lexString_loop q i (j + 1) (sb @ [c]) bs)"

definition lexString :: "nat \<Rightarrow> string \<Rightarrow> (token \<times> nat \<times> string) lres" where
  "lexString i bs = lexString_loop (hd bs) i (i + 1) [] (tl bs)"

section \<open>Words and structural paths\<close>

definition close_bracket :: "nat \<Rightarrow> string \<Rightarrow> (nat \<times> string) lres" where
  "close_bracket k bs =
     (case bs of
        c # bs' \<Rightarrow> (if c = CHR '']'' then Inr (k + 1, bs')
                    else Inl (syntaxErr (''a path segment must close with '' @ sq '']'') k))
      | [] \<Rightarrow> Inl (syntaxErr (''a path segment must close with '' @ sq '']'') k))"

definition lexBracket :: "nat \<Rightarrow> string \<Rightarrow> (nat \<times> string) lres" where
  "lexBracket j bs =
     (case tl bs of
        [] \<Rightarrow> Inl (syntaxErr (''unterminated '' @ sq ''['' @ '' path segment'') j)
      | c # r \<Rightarrow>
          (if is_digit c then
             close_bracket (j + 1 + length (takeWhile is_digit (c # r))) (dropWhile is_digit (c # r))
           else if is_quote c then
             (case dropWhile (\<lambda>d. d \<noteq> c) r of
                [] \<Rightarrow> Inl (syntaxErr ''unterminated key in a path segment'' j)
              | _ # r' \<Rightarrow> close_bracket (j + 3 + length (takeWhile (\<lambda>d. d \<noteq> c) r)) r')
           else Inl (syntaxErr ''a path segment needs an index or a quoted key'' (j + 1))))"

lemma close_bracket_consumes:
  "close_bracket k bs = Inr (k', r) \<Longrightarrow> length r < length bs \<and> k' + length r = k + length bs"
  by (auto simp: close_bracket_def split: list.splits if_splits)

lemma takeWhile_dropWhile_length:
  "length (takeWhile P xs) + length (dropWhile P xs) = length xs"
  by (metis length_append takeWhile_dropWhile_id)

lemma lexBracket_consumes:
  "lexBracket j bs = Inr (k, r) \<Longrightarrow> length r < length bs \<and> k + length r = j + length bs"
  using takeWhile_dropWhile_length[of is_digit "tl bs"]
    takeWhile_dropWhile_length[of "\<lambda>d. d \<noteq> hd (tl bs)" "tl (tl bs)"]
  by (cases bs; cases "tl bs")
    (auto simp: lexBracket_def split: list.splits if_splits dest!: close_bracket_consumes)

function lexPathSteps :: "nat \<Rightarrow> string \<Rightarrow> (nat \<times> string) lres" where
  "lexPathSteps j bs =
     (case bs of
        [] \<Rightarrow> Inr (j, bs)
      | c # r \<Rightarrow>
          (if c = CHR ''.'' \<and> r \<noteq> [] \<and> isIdentStart (hd r) then
             lexPathSteps (j + 2 + length (takeWhile isIdentPart (tl r))) (dropWhile isIdentPart (tl r))
           else if c = CHR ''['' then
             (case lexBracket j bs of
                Inl e \<Rightarrow> Inl e
              | Inr (k, r') \<Rightarrow> lexPathSteps k r')
           else Inr (j, bs)))"
  by pat_completeness auto
termination
proof (relation "measure (\<lambda>(j, bs). length bs)", goal_cases)
  case (2 j bs c r)
  then show ?case using length_dropWhile_le[of isIdentPart "tl r"] by (auto intro: le_less_trans)
qed (auto dest!: lexBracket_consumes)

declare lexPathSteps.simps [simp del]

definition lexWord :: "nat \<Rightarrow> string \<Rightarrow> (token \<times> nat \<times> string) lres" where
  "lexWord i bs =
     (let w = hd bs # takeWhile isIdentPart (tl bs);
          r = dropWhile isIdentPart (tl bs);
          j = i + length w
      in case map_of lite_keywords w of
           Some k \<Rightarrow> Inr (mk_token k w i, j, r)
         | None \<Rightarrow>
             (case lexPathSteps j r of
                Inl e \<Rightarrow> Inl e
              | Inr (j', r') \<Rightarrow> Inr (mk_token tkRef (take (j' - i) bs) i, j', r')))"

section \<open>Operators\<close>

text \<open>\<^verbatim>\<open>strconv.QuoteRune\<close> on the value of one byte.\<close>

definition hex_digit :: "nat \<Rightarrow> char" where
  "hex_digit n = ''0123456789abcdef'' ! n"

definition QuoteRune :: "char \<Rightarrow> string" where
  "QuoteRune c =
     (let n = byte c; h = [hex_digit (n div 16), hex_digit (n mod 16)];
          esc = [(7, CHR ''a''), (8, CHR ''b''), (12, CHR ''f''), (10, CHR ''n''), (13, CHR ''r''),
                 (9, CHR ''t''), (11, CHR ''v''), (92, bslash), (39, CHR 0x27)];
          body = (case map_of esc n of
                    Some d \<Rightarrow> [bslash, d]
                  | None \<Rightarrow>
                      if n < 32 \<or> n = 127 then bslash # CHR ''x'' # h
                      else if n < 128 then [c]
                      else if 161 \<le> n \<and> n \<noteq> 173 then [char_of (192 + n div 64 :: nat), char_of (128 + n mod 64 :: nat)]
                      else bslash # CHR ''u'' # CHR ''0'' # CHR ''0'' # h)
      in sq body)"

definition lexOperator :: "nat \<Rightarrow> string \<Rightarrow> (token \<times> nat \<times> string) lres" where
  "lexOperator i bs =
     (let c = hd bs;
          nxt = (if tl bs = [] then CHR 0x00 else hd (tl bs));
          two = (\<lambda>s. Inr (mk_token tkOp s i, i + 2, tl (tl bs)));
          one = (\<lambda>k s. Inr (mk_token k s i, i + 1, tl bs))
      in if c = CHR ''='' then
           (if nxt \<noteq> CHR ''='' then Inl (syntaxErr (sq ''='' @ '' must be '' @ sq ''=='') i) else two ''=='')
         else if c = CHR ''!'' then
           (if nxt \<noteq> CHR ''='' then Inl (syntaxErr (sq ''!'' @ '' must be '' @ sq ''!='') i) else two ''!='')
         else if c \<in> {CHR ''<'', CHR ''>''} then
           (if nxt = CHR ''='' then two [c, CHR ''=''] else one tkOp [c])
         else if c \<in> {CHR ''+'', CHR ''-'', CHR ''*'', CHR ''/'', CHR ''%''} then one tkOp [c]
         else if c = CHR ''('' then one tkLParen ''(''
         else if c = CHR '')'' then one tkRParen '')''
         else Inl (syntaxErr (''unexpected character '' @ QuoteRune c) i))"

section \<open>Every scanner consumes\<close>

text \<open>
  The contract of a scanner: it returns a shorter suffix, moves the offset by exactly the bytes
  it consumed, and its token carries the offset it started from.
\<close>

definition consumes :: "nat \<Rightarrow> string \<Rightarrow> (token \<times> nat \<times> string) lres \<Rightarrow> bool" where
  "consumes i bs res =
     (case res of
        Inr (t, j, r) \<Rightarrow> length r < length bs \<and> j + length r = i + length bs \<and> t_off t = i \<and> t_kind t \<noteq> tkEOF
      | Inl e \<Rightarrow> (\<exists>k. le_off e = Some k \<and> k \<le> i + length bs) \<and> e \<noteq> IndexPanic \<and> e \<noteq> OutOfFuel)"

lemma num_token_consumes:
  "s \<noteq> [] \<Longrightarrow> bs = s @ r \<Longrightarrow> consumes i bs (num_token s i r)"
  by (simp add: num_token_def consumes_def split: option.split)

lemma lexNumber_consumes:
  assumes "bs \<noteq> []" and "is_digit (hd bs)"
  shows "consumes i bs (lexNumber i bs)"
proof -
  have ne: "takeWhile is_digit bs \<noteq> []" using assms by (cases bs) auto
  have sp: "bs = takeWhile is_digit bs @ dropWhile is_digit bs" by simp
  show ?thesis
  proof (cases "dropWhile is_digit bs")
    case Nil
    show ?thesis using num_token_consumes[OF ne sp, of i] unfolding lexNumber_def Let_def Nil by simp
  next
    case (Cons c r2)
    have "bs = (takeWhile is_digit bs @ c # takeWhile is_digit r2) @ dropWhile is_digit r2"
      using sp Cons by simp
    from num_token_consumes[OF _ this, of i]
    have "consumes i bs (num_token (takeWhile is_digit bs @ c # takeWhile is_digit r2) i (dropWhile is_digit r2))"
      by simp
    moreover have "i + length (takeWhile is_digit bs) + 1 \<le> i + length bs"
      using takeWhile_dropWhile_length[of is_digit bs] Cons by simp
    ultimately show ?thesis using num_token_consumes[OF ne sp] Cons
      by (auto simp: lexNumber_def Let_def consumes_def[of _ _ "Inl _"])
  qed
qed

lemma lexString_loop_consumes:
  "consumes i bs0 (lexString_loop q i j sb bs)" if "length bs < length bs0" "j + length bs = i + length bs0"
  using that
proof (induction q i j sb bs rule: lexString_loop.induct)
  case (1 q i j sb)
  then show ?case by (simp add: consumes_def)
next
  case (2 q i j sb c bs)
  then show ?case by (cases bs) (auto simp: consumes_def[of _ _ "Inl _"] consumes_def[of _ _ "Inr _"] mk_token_def)
qed

lemma lexString_consumes: "bs \<noteq> [] \<Longrightarrow> consumes i bs (lexString i bs)"
  unfolding lexString_def by (rule lexString_loop_consumes) (cases bs; simp)+

lemma close_bracket_err:
  "close_bracket k bs = Inl e \<Longrightarrow> le_off e = Some k \<and> e \<noteq> IndexPanic \<and> e \<noteq> OutOfFuel"
  by (auto simp: close_bracket_def split: list.splits if_splits)

lemma lexBracket_err:
  "lexBracket j bs = Inl e \<Longrightarrow> bs \<noteq> [] \<Longrightarrow>
     (\<exists>k. le_off e = Some k \<and> k \<le> j + length bs) \<and> e \<noteq> IndexPanic \<and> e \<noteq> OutOfFuel"
  using takeWhile_dropWhile_length[of is_digit "tl bs"]
    takeWhile_dropWhile_length[of "\<lambda>d. d \<noteq> hd (tl bs)" "tl (tl bs)"]
  by (cases bs; cases "tl bs")
    (auto simp: lexBracket_def split: list.splits if_splits dest!: close_bracket_err)

lemma lexPathSteps_consumes:
  "(case lexPathSteps j bs of
      Inr (k, r) \<Rightarrow> length r \<le> length bs \<and> k + length r = j + length bs
    | Inl e \<Rightarrow> (\<exists>k. le_off e = Some k \<and> k \<le> j + length bs) \<and> e \<noteq> IndexPanic \<and> e \<noteq> OutOfFuel)"
proof (induction j bs rule: lexPathSteps.induct)
  case (1 j bs)
  show ?case
  proof (cases bs)
    case Nil
    then show ?thesis by (simp add: lexPathSteps.simps)
  next
    case (Cons c r)
    consider (dot) "c = CHR ''.'' \<and> r \<noteq> [] \<and> isIdentStart (hd r)"
      | (br) "\<not> (c = CHR ''.'' \<and> r \<noteq> [] \<and> isIdentStart (hd r))" "c = CHR ''[''"
      | (stop) "\<not> (c = CHR ''.'' \<and> r \<noteq> [] \<and> isIdentStart (hd r))" "c \<noteq> CHR ''[''" by blast
    then show ?thesis
    proof cases
      case dot
      then show ?thesis
        using 1(1)[OF Cons dot] Cons takeWhile_dropWhile_length[of isIdentPart "tl r"]
        by (subst lexPathSteps.simps) (cases r; fastforce split: sum.splits)
    next
      case br
      show ?thesis
      proof (cases "lexBracket j bs")
        case (Inl e)
        then show ?thesis using lexBracket_err[OF Inl] br Cons
          by (subst lexPathSteps.simps) auto
      next
        case (Inr kr)
        obtain k r' where kr: "kr = (k, r')" by (cases kr)
        show ?thesis using 1(2)[OF Cons br Inr kr[symmetric]] lexBracket_consumes[of j bs k r'] br Cons Inr kr
          by (subst lexPathSteps.simps) (fastforce split: sum.splits)
      qed
    next
      case stop
      then show ?thesis using Cons by (subst lexPathSteps.simps) auto
    qed
  qed
qed

lemma lite_keywords_kind: "map_of lite_keywords w = Some k \<Longrightarrow> k \<noteq> tkEOF"
  by (auto simp: lite_keywords_def split: if_splits)

lemma lexWord_consumes:
  assumes "bs \<noteq> []"
  shows "consumes i bs (lexWord i bs)"
proof -
  obtain c r where bs: "bs = c # r" using assms by (cases bs) auto
  note ps = lexPathSteps_consumes[of "Suc (i + length (takeWhile isIdentPart r))" "dropWhile isIdentPart r"]
  note len = takeWhile_dropWhile_length[of isIdentPart r]
  show ?thesis
  proof (cases "map_of lite_keywords (c # takeWhile isIdentPart r)")
    case None
    then show ?thesis using ps len
      by (auto simp: lexWord_def bs Let_def consumes_def mk_token_def split: sum.splits prod.splits)
  next
    case (Some k)
    then show ?thesis using len lite_keywords_kind[OF Some]
      by (simp add: lexWord_def bs Let_def consumes_def mk_token_def)
  qed
qed

lemma lexOperator_consumes:
  assumes "bs \<noteq> []"
  shows "consumes i bs (lexOperator i bs)"
proof -
  obtain c r where bs: "bs = c # r" using assms by (cases bs) auto
  show ?thesis by (cases r) (auto simp: lexOperator_def bs Let_def consumes_def mk_token_def)
qed

section \<open>The loop\<close>

text \<open>The switch of \<^verbatim>\<open>lex\<close> on the current byte, blanks aside.\<close>

definition lex_step :: "nat \<Rightarrow> string \<Rightarrow> (token \<times> nat \<times> string) lres" where
  "lex_step i bs =
     (if is_digit (hd bs) then lexNumber i bs
      else if is_quote (hd bs) then lexString i bs
      else if isIdentStart (hd bs) then lexWord i bs
      else lexOperator i bs)"

lemma lex_step_consumes: "bs \<noteq> [] \<Longrightarrow> consumes i bs (lex_step i bs)"
  by (simp add: lex_step_def lexNumber_consumes lexString_consumes lexWord_consumes lexOperator_consumes)

lemma lex_step_shorter: "lex_step i (c # r) = Inr (t, j, r') \<Longrightarrow> length r' < Suc (length r)"
  using lex_step_consumes[of "c # r" i] by (simp add: consumes_def)

function lex_loop :: "nat \<Rightarrow> string \<Rightarrow> token list \<Rightarrow> token list lres" where
  "lex_loop i [] tt = Inr (tt @ [mk_token tkEOF [] i])"
| "lex_loop i (c # r) tt =
     (if is_space c then lex_loop (i + 1) r tt
      else (case lex_step i (c # r) of
              Inl e \<Rightarrow> Inl e
            | Inr (t, j, r') \<Rightarrow> lex_loop j r' (tt @ [t])))"
  by pat_completeness auto
termination
  by (relation "measure (\<lambda>(i, bs, tt). length bs)") (auto dest: lex_step_shorter)

definition lex :: "string \<Rightarrow> token list lres" where
  "lex body = lex_loop 0 body []"

section \<open>What the token stream looks like\<close>

text \<open>
  A successful scan ends in the only end-of-file token, at the offset of the end of the body,
  and an error names an offset inside the body or at its end.
\<close>

lemma lex_loop_shape:
  "(case lex_loop i bs tt of
      Inr ts \<Rightarrow> \<exists>us. ts = tt @ us @ [mk_token tkEOF [] (i + length bs)] \<and>
                    (\<forall>u\<in>set us. t_kind u \<noteq> tkEOF \<and> t_off u < i + length bs)
    | Inl e \<Rightarrow> (\<exists>k. le_off e = Some k \<and> k \<le> i + length bs) \<and> e \<noteq> IndexPanic \<and> e \<noteq> OutOfFuel)"
proof (induction i bs tt rule: lex_loop.induct)
  case (1 i tt)
  then show ?case by simp
next
  case (2 i c r tt)
  show ?case
  proof (cases "is_space c")
    case True
    then show ?thesis using 2(1) by (auto split: sum.splits)
  next
    case ns: False
    note st = lex_step_consumes[of "c # r" i]
    show ?thesis
    proof (cases "lex_step i (c # r)")
      case (Inl e)
      then show ?thesis using ns st by (auto simp: consumes_def)
    next
      case (Inr x)
      obtain t j r' where x: "x = (t, j, r')" by (cases x)
      have c: "j + length r' = i + length (c # r)" "t_off t = i" "t_kind t \<noteq> tkEOF"
        using st Inr x by (auto simp: consumes_def)
      have IH: "case lex_loop j r' (tt @ [t]) of
          Inr ts \<Rightarrow> \<exists>us. ts = (tt @ [t]) @ us @ [mk_token tkEOF [] (i + length (c # r))] \<and>
                        (\<forall>u\<in>set us. t_kind u \<noteq> tkEOF \<and> t_off u < i + length (c # r))
        | Inl e \<Rightarrow> (\<exists>k. le_off e = Some k \<and> k \<le> i + length (c # r)) \<and> e \<noteq> IndexPanic \<and> e \<noteq> OutOfFuel"
        using 2(2)[OF ns Inr x[symmetric] refl] unfolding c(1) .
      have "\<exists>us'. (tt @ [t]) @ us @ [y] = tt @ us' @ [y] \<and>
               (\<forall>u\<in>set us'. t_kind u \<noteq> tkEOF \<and> t_off u < i + length (c # r))"
        if "\<forall>u\<in>set us. t_kind u \<noteq> tkEOF \<and> t_off u < i + length (c # r)" for us y
        by (rule exI[of _ "t # us"]) (use that c in auto)
      then show ?thesis using IH ns Inr x by (fastforce split: sum.splits)
    qed
  qed
qed

lemma lex_shape:
  assumes "lex body = Inr ts"
  obtains us where "ts = us @ [mk_token tkEOF [] (length body)]"
    and "\<And>u. u \<in> set us \<Longrightarrow> t_kind u \<noteq> tkEOF \<and> t_off u < length body"
  using lex_loop_shape[of 0 body "[]"] assms that by (auto simp: lex_def)

lemma lex_errorD:
  assumes "lex body = Inl e"
  shows "(\<exists>k. le_off e = Some k \<and> k \<le> length body) \<and> e \<noteq> IndexPanic \<and> e \<noteq> OutOfFuel"
  using lex_loop_shape[of 0 body "[]"] assms by (auto simp: lex_def)

text \<open>Writing a string literal: the quote and the backslash are escaped, nothing else.\<close>

fun escape :: "char \<Rightarrow> string \<Rightarrow> string" where
  "escape q [] = []"
| "escape q (c # s) = (if c = q \<or> c = bslash then [bslash, c] else [c]) @ escape q s"

lemma lexString_loop_escape:
  "q \<noteq> bslash \<Longrightarrow>
   lexString_loop q i j sb (escape q s @ q # r) = Inr (mk_token tkString (sb @ s) i, j + length (escape q s) + 1, r)"
  by (induction s arbitrary: j sb) auto

lemma is_quote_class: "is_quote q \<Longrightarrow> \<not> is_space q \<and> \<not> is_digit q \<and> q \<noteq> bslash"
  by (auto simp: is_quote_def is_space_def is_digit_def byte_def)

text \<open>
  Every string can be written as a literal: for either quote character, the literal
  that escapes the quote and the backslash lexes to exactly one string token whose text is the
  original string, followed by the end of input.
\<close>

theorem string_literal_roundtrip:
  assumes "is_quote q"
  shows "lex (q # escape q s @ [q]) =
         Inr [mk_token tkString s 0, mk_token tkEOF [] (length (escape q s) + 2)]"
  using is_quote_class[OF assms] assms lexString_loop_escape[of q 0 1 "[]" s "[]"]
  by (simp add: lex_def lex_step_def lexString_def)

theorem string_literal_roundtrip_witness:
  "lex [CHR 0x27, CHR ''a'', bslash, CHR 0x27, CHR 0x27] =
     Inr [mk_token tkString [CHR ''a'', CHR 0x27] 0, mk_token tkEOF [] 5]"
  using string_literal_roundtrip[of "CHR 0x27" "[CHR ''a'', CHR 0x27]"]
  by (simp add: is_quote_def byte_def numeral_eq_Suc)

end
