(* ===== verification/Lite_Parser.thy ===== *)
theory Lite_Parser
  imports Lite_Lexer
begin

text \<open>
  The recursive descent parser of the \<^verbatim>\<open>gobpm:lite\<close> language
  (\<^verbatim>\<open>src/pkg/model/expression/lite/parser.go\<close>), and the grammar its doc comments give as an
  inductive relation. The parser state \<^verbatim>\<open>(tt, i)\<close> is the list of the tokens not yet consumed;
  reading beyond its end is the Go index panic.

  The nesting of the descent is bounded by fuel, one unit per parenthesis or call; \<^verbatim>\<open>parse\<close>
  starts it with one more than there are tokens, which is shown to be enough. Main results: the parser returns an AST exactly when the
  grammar derives it, so the grammar is unambiguous, and no body makes it panic.
\<close>

section \<open>Syntax trees\<close>

text \<open>The operands of the language: \<^verbatim>\<open>nil\<close>, \<^verbatim>\<open>bool\<close>, \<^verbatim>\<open>string\<close>, \<^verbatim>\<open>float64\<close> and \<^verbatim>\<open>time.Time\<close>
  (as the instant in nanoseconds). A literal holds one of the first four.\<close>

datatype operand = ONil | OBool bool | OStr string | ONum float64 | OTime int

datatype node =
    litNode operand nat
  | refNode string nat
  | callNode node string nat
  | unaryNode node string nat
  | binNode node node string nat

fun pos :: "node \<Rightarrow> nat" where
  "pos (litNode _ off) = off"
| "pos (refNode _ off) = off"
| "pos (callNode _ _ off) = off"
| "pos (unaryNode _ _ off) = off"
| "pos (binNode _ _ _ off) = off"

definition builtins :: "string list" where
  "builtins = [''has'', ''len'', ''time'']"

definition comparisonOps :: "string list" where
  "comparisonOps = [''=='', ''!='', ''<'', ''<='', ''>'', ''>='']"

section \<open>Levels\<close>

text \<open>The binding levels, loosest first, and the operator a token is at a level.\<close>

datatype level = LOr | LAnd | LNot | LCmp | LAdd | LMul | LUnary | LPrimary

definition op_in :: "string list \<Rightarrow> token \<Rightarrow> string option" where
  "op_in ops c = (if t_kind c = tkOp \<and> t_text c \<in> set ops then Some (t_text c) else None)"

fun sel :: "level \<Rightarrow> token \<Rightarrow> string option" where
  "sel LOr c = (if t_kind c = tkOr then Some ''or'' else None)"
| "sel LAnd c = (if t_kind c = tkAnd then Some ''and'' else None)"
| "sel LCmp c = op_in comparisonOps c"
| "sel LAdd c = op_in [''+'', ''-''] c"
| "sel LMul c = op_in [''*'', ''/'', ''%''] c"
| "sel _ c = None"

section \<open>The parser\<close>

type_synonym pres = "(node \<times> token list) lres"

text \<open>
  The loop of \<^verbatim>\<open>parseBinaryChain\<close>, bounded by the tokens left. The loops of \<^verbatim>\<open>parseOr\<close> and
  \<^verbatim>\<open>parseAnd\<close> are the same loop with the keyword as the operator.
\<close>

fun chain_loop :: "nat \<Rightarrow> (token list \<Rightarrow> pres) \<Rightarrow> (token \<Rightarrow> string option) \<Rightarrow> node \<Rightarrow> token list \<Rightarrow> pres" where
  "chain_loop 0 sub ops left ts = Inl OutOfFuel"
| "chain_loop (Suc n) sub ops left ts =
     (case ts of
        [] \<Rightarrow> Inl IndexPanic
      | c # ts' \<Rightarrow>
          (case ops c of
             None \<Rightarrow> Inr (left, ts)
           | Some op \<Rightarrow>
               (case sub ts' of
                  Inl e \<Rightarrow> Inl e
                | Inr (right, ts'') \<Rightarrow> chain_loop n sub ops (binNode left right op (t_off c)) ts'')))"

definition parseBinaryChain :: "(token list \<Rightarrow> pres) \<Rightarrow> (token \<Rightarrow> string option) \<Rightarrow> token list \<Rightarrow> pres" where
  "parseBinaryChain sub ops ts =
     (case sub ts of
        Inl e \<Rightarrow> Inl e
      | Inr (left, ts') \<Rightarrow> chain_loop (Suc (length ts')) sub ops left ts')"

text \<open>The closing parenthesis both \<^verbatim>\<open>parsePrimary\<close> and \<^verbatim>\<open>parseRefOrCall\<close> look for.\<close>

definition expect_rparen :: "string \<Rightarrow> node \<Rightarrow> token list \<Rightarrow> pres" where
  "expect_rparen msg n ts =
     (case ts of
        [] \<Rightarrow> Inl IndexPanic
      | c # ts' \<Rightarrow> if t_kind c \<noteq> tkRParen then Inl (syntaxErr msg (t_off c)) else Inr (n, ts'))"

text \<open>
  The parameter \<open>por\<close> is \<^verbatim>\<open>p.parseOr\<close>, through which the levels call back into the loosest one
  for a parenthesised expression or an argument.
\<close>

definition parseRefOrCall :: "(token list \<Rightarrow> pres) \<Rightarrow> token \<Rightarrow> token list \<Rightarrow> pres" where
  "parseRefOrCall por t ts =
     (case ts of
        [] \<Rightarrow> Inl IndexPanic
      | c # r \<Rightarrow>
          (if t_kind c \<noteq> tkLParen then Inr (refNode (t_text t) (t_off t), ts)
           else if t_text t \<notin> set builtins then
             Inl (syntaxErr (''unknown function '' @ t_text t @ '' (builtins: has, len, time)'') (t_off t))
           else
             (case por r of
                Inl e \<Rightarrow> Inl e
              | Inr (arg, r') \<Rightarrow>
                  expect_rparen (''expected '' @ sq '')'' @ '' after the argument'')
                    (callNode arg (t_text t) (t_off t)) r')))"

definition parsePrimary :: "(token list \<Rightarrow> pres) \<Rightarrow> token list \<Rightarrow> pres" where
  "parsePrimary por ts =
     (case ts of
        [] \<Rightarrow> Inl IndexPanic
      | t # r \<Rightarrow>
          (case t_kind t of
             tkNumber \<Rightarrow> Inr (litNode (ONum (t_num t)) (t_off t), r)
           | tkString \<Rightarrow> Inr (litNode (OStr (t_text t)) (t_off t), r)
           | tkTrue \<Rightarrow> Inr (litNode (OBool True) (t_off t), r)
           | tkFalse \<Rightarrow> Inr (litNode (OBool False) (t_off t), r)
           | tkNil \<Rightarrow> Inr (litNode ONil (t_off t), r)
           | tkLParen \<Rightarrow>
               (case por r of
                  Inl e \<Rightarrow> Inl e
                | Inr (e, r') \<Rightarrow> expect_rparen (''expected '' @ sq '')'') e r')
           | tkRef \<Rightarrow> parseRefOrCall por t r
           | _ \<Rightarrow> Inl (syntaxErr ''expected an expression'' (t_off t))))"

fun parseUnary :: "(token list \<Rightarrow> pres) \<Rightarrow> token list \<Rightarrow> pres" where
  "parseUnary por [] = Inl IndexPanic"
| "parseUnary por (c # ts) =
     (if t_kind c = tkOp \<and> t_text c = ''-'' then
        (case parseUnary por ts of
           Inl e \<Rightarrow> Inl e
         | Inr (operand, r) \<Rightarrow> Inr (unaryNode operand ''-'' (t_off c), r))
      else parsePrimary por (c # ts))"

definition parseMultiplicative :: "(token list \<Rightarrow> pres) \<Rightarrow> token list \<Rightarrow> pres" where
  "parseMultiplicative por = parseBinaryChain (parseUnary por) (sel LMul)"

definition parseAdditive :: "(token list \<Rightarrow> pres) \<Rightarrow> token list \<Rightarrow> pres" where
  "parseAdditive por = parseBinaryChain (parseMultiplicative por) (sel LAdd)"

definition parseComparison :: "(token list \<Rightarrow> pres) \<Rightarrow> token list \<Rightarrow> pres" where
  "parseComparison por ts =
     (case parseAdditive por ts of
        Inl e \<Rightarrow> Inl e
      | Inr (left, ts') \<Rightarrow>
          (case ts' of
             [] \<Rightarrow> Inl IndexPanic
           | c # r \<Rightarrow>
               (case sel LCmp c of
                  None \<Rightarrow> Inr (left, ts')
                | Some op \<Rightarrow>
                    (case parseAdditive por r of
                       Inl e \<Rightarrow> Inl e
                     | Inr (right, r') \<Rightarrow> Inr (binNode left right op (t_off c), r')))))"

fun parseNot :: "(token list \<Rightarrow> pres) \<Rightarrow> token list \<Rightarrow> pres" where
  "parseNot por [] = Inl IndexPanic"
| "parseNot por (t # ts) =
     (if t_kind t = tkNot then
        (case parseNot por ts of
           Inl e \<Rightarrow> Inl e
         | Inr (operand, r) \<Rightarrow> Inr (unaryNode operand ''not'' (t_off t), r))
      else parseComparison por (t # ts))"

definition parseAnd :: "(token list \<Rightarrow> pres) \<Rightarrow> token list \<Rightarrow> pres" where
  "parseAnd por = parseBinaryChain (parseNot por) (sel LAnd)"

text \<open>The fuel bounds the nesting of parentheses and calls.\<close>

fun parseOr :: "nat \<Rightarrow> token list \<Rightarrow> pres" where
  "parseOr 0 ts = Inl OutOfFuel"
| "parseOr (Suc n) ts = parseBinaryChain (parseAnd (parseOr n)) (sel LOr) ts"

definition parse_tokens :: "token list \<Rightarrow> node lres" where
  "parse_tokens ts =
     (case parseOr (Suc (length ts)) ts of
        Inl e \<Rightarrow> Inl e
      | Inr (n, r) \<Rightarrow>
          (case r of
             [] \<Rightarrow> Inl IndexPanic
           | c # _ \<Rightarrow>
               if t_kind c \<noteq> tkEOF then Inl (syntaxErr ''unexpected input after the expression'' (t_off c))
               else Inr n))"

definition parse :: "string \<Rightarrow> node lres" where
  "parse body = (case lex body of Inl e \<Rightarrow> Inl e | Inr tt \<Rightarrow> parse_tokens tt)"

section \<open>The grammar\<close>

text \<open>
  The productions of the doc comments, one level per non-terminal: \<open>gram L ts n\<close> says that the
  tokens \<open>ts\<close> derive the tree \<open>n\<close> at the level \<open>L\<close>. The repetitions \<^verbatim>\<open>{ op expr }\<close> are written
  left-recursively, which is the associativity the trees have.
\<close>

fun tighter :: "level \<Rightarrow> level" where
  "tighter LOr = LAnd"
| "tighter LAnd = LNot"
| "tighter LNot = LCmp"
| "tighter LCmp = LAdd"
| "tighter LAdd = LMul"
| "tighter LMul = LUnary"
| "tighter LUnary = LPrimary"
| "tighter LPrimary = LPrimary"

definition chain_level :: "level \<Rightarrow> bool" where
  "chain_level L \<longleftrightarrow> L \<in> {LOr, LAnd, LAdd, LMul}"

fun literal :: "token \<Rightarrow> operand option" where
  "literal t =
     (case t_kind t of
        tkNumber \<Rightarrow> Some (ONum (t_num t))
      | tkString \<Rightarrow> Some (OStr (t_text t))
      | tkTrue \<Rightarrow> Some (OBool True)
      | tkFalse \<Rightarrow> Some (OBool False)
      | tkNil \<Rightarrow> Some ONil
      | _ \<Rightarrow> None)"

inductive gram :: "level \<Rightarrow> token list \<Rightarrow> node \<Rightarrow> bool" where
  up: "L \<noteq> LPrimary \<Longrightarrow> gram (tighter L) p e \<Longrightarrow> gram L p e"
| chain: "chain_level L \<Longrightarrow> gram L p l \<Longrightarrow> sel L c = Some op \<Longrightarrow> gram (tighter L) q r \<Longrightarrow>
    gram L (p @ c # q) (binNode l r op (t_off c))"
| cmp: "gram LAdd p l \<Longrightarrow> sel LCmp c = Some op \<Longrightarrow> gram LAdd q r \<Longrightarrow>
    gram LCmp (p @ c # q) (binNode l r op (t_off c))"
| nott: "t_kind t = tkNot \<Longrightarrow> gram LNot p e \<Longrightarrow> gram LNot (t # p) (unaryNode e ''not'' (t_off t))"
| neg: "t_kind c = tkOp \<Longrightarrow> t_text c = ''-'' \<Longrightarrow> gram LUnary p e \<Longrightarrow>
    gram LUnary (c # p) (unaryNode e ''-'' (t_off c))"
| lit: "literal t = Some v \<Longrightarrow> gram LPrimary [t] (litNode v (t_off t))"
| ref: "t_kind t = tkRef \<Longrightarrow> gram LPrimary [t] (refNode (t_text t) (t_off t))"
| paren: "t_kind t = tkLParen \<Longrightarrow> gram LOr p e \<Longrightarrow> t_kind c = tkRParen \<Longrightarrow> gram LPrimary (t # p @ [c]) e"
| call: "t_kind t = tkRef \<Longrightarrow> t_text t \<in> set builtins \<Longrightarrow> t_kind b = tkLParen \<Longrightarrow> gram LOr p e \<Longrightarrow>
    t_kind c = tkRParen \<Longrightarrow> gram LPrimary (t # b # p @ [c]) (callNode e (t_text t) (t_off t))"

section \<open>Soundness\<close>

fun parser_at :: "(token list \<Rightarrow> pres) \<Rightarrow> level \<Rightarrow> token list \<Rightarrow> pres" where
  "parser_at por LOr = parseBinaryChain (parseAnd por) (sel LOr)"
| "parser_at por LAnd = parseAnd por"
| "parser_at por LNot = parseNot por"
| "parser_at por LCmp = parseComparison por"
| "parser_at por LAdd = parseAdditive por"
| "parser_at por LMul = parseMultiplicative por"
| "parser_at por LUnary = parseUnary por"
| "parser_at por LPrimary = parsePrimary por"

lemma parser_at_chain:
  "chain_level L \<Longrightarrow> parser_at por L = parseBinaryChain (parser_at por (tighter L)) (sel L)"
  by (auto simp: chain_level_def parseAnd_def parseAdditive_def parseMultiplicative_def)

lemma chain_level_neq: "chain_level L \<Longrightarrow> L \<noteq> LPrimary"
  by (auto simp: chain_level_def)

lemma gram_no_eof: "gram L p e \<Longrightarrow> p \<noteq> [] \<and> (\<forall>t\<in>set p. t_kind t \<noteq> tkEOF)"
proof (induction rule: gram.induct)
  case (chain L p l c op q r)
  then show ?case by (cases L) (auto simp: op_in_def split: if_splits)
qed (auto simp: op_in_def split: if_splits tokKind.splits)

definition sound :: "level \<Rightarrow> (token list \<Rightarrow> pres) \<Rightarrow> bool" where
  "sound L f \<longleftrightarrow> (\<forall>ts e r. f ts = Inr (e, r) \<longrightarrow> (\<exists>p. ts = p @ r \<and> gram L p e))"

lemma soundD: "sound L f \<Longrightarrow> f ts = Inr (e, r) \<Longrightarrow> \<exists>p. ts = p @ r \<and> gram L p e"
  by (simp add: sound_def)

lemma chain_loop_sound:
  assumes "chain_level L" and "sound (tighter L) f"
  shows "chain_loop n f (sel L) l ts = Inr (e, r) \<Longrightarrow> gram L p l \<Longrightarrow> \<exists>q. ts = q @ r \<and> gram L (p @ q) e"
proof (induction n arbitrary: l ts p)
  case (Suc n)
  show ?case
  proof (cases ts)
    case Nil
    with Suc.prems show ?thesis by simp
  next
    case (Cons c us)
    show ?thesis
    proof (cases "sel L c")
      case None
      with Suc.prems Cons show ?thesis by auto
    next
      case (Some op)
      with Suc.prems Cons obtain rt vs where f: "f us = Inr (rt, vs)"
        and lp: "chain_loop n f (sel L) (binNode l rt op (t_off c)) vs = Inr (e, r)"
        by (auto split: sum.splits)
      obtain q1 where q1: "us = q1 @ vs" "gram (tighter L) q1 rt" using soundD[OF assms(2) f] by blast
      have "gram L (p @ c # q1) (binNode l rt op (t_off c))"
        by (rule gram.chain[OF assms(1) Suc.prems(2) Some q1(2)])
      from Suc.IH[OF lp this] obtain q2 where "vs = q2 @ r" "gram L ((p @ c # q1) @ q2) e" by blast
      then show ?thesis using Cons q1 by (intro exI[of _ "c # q1 @ q2"]) simp
    qed
  qed
qed simp

lemma chain_sound:
  assumes "chain_level L" and "sound (tighter L) f"
  shows "sound L (parseBinaryChain f (sel L))"
  unfolding sound_def
proof (intro allI impI)
  fix ts e r
  assume "parseBinaryChain f (sel L) ts = Inr (e, r)"
  then obtain l us where f: "f ts = Inr (l, us)" and lp: "chain_loop (Suc (length us)) f (sel L) l us = Inr (e, r)"
    by (auto simp: parseBinaryChain_def simp del: chain_loop.simps split: sum.splits)
  obtain p where p: "ts = p @ us" "gram (tighter L) p l" using soundD[OF assms(2) f] by blast
  have "gram L p l" using p(2) chain_level_neq[OF assms(1)] by (rule gram.up[rotated])
  from chain_loop_sound[OF assms lp this] p show "\<exists>p. ts = p @ r \<and> gram L p e" by auto
qed

lemma expect_rparenD:
  "expect_rparen m n ts = Inr (e, r) \<Longrightarrow> \<exists>c. ts = c # r \<and> t_kind c = tkRParen \<and> e = n"
  by (auto simp: expect_rparen_def split: list.splits if_splits)

lemma parseRefOrCall_sound:
  assumes "sound LOr por" and "t_kind t = tkRef" and "parseRefOrCall por t ts = Inr (e, r)"
  shows "\<exists>p. t # ts = p @ r \<and> gram LPrimary p e"
proof (cases ts)
  case Nil
  with assms show ?thesis by (simp add: parseRefOrCall_def)
next
  case (Cons c us)
  show ?thesis
  proof (cases "t_kind c = tkLParen")
    case False
    then show ?thesis using assms Cons gram.ref[OF assms(2)] by (auto simp: parseRefOrCall_def)
  next
    case True
    with assms(3) Cons obtain a vs where b: "t_text t \<in> set builtins" and a: "por us = Inr (a, vs)"
      and x: "\<exists>m. expect_rparen m (callNode a (t_text t) (t_off t)) vs = Inr (e, r)"
      by (auto simp: parseRefOrCall_def split: if_splits sum.splits)
    obtain d where d: "vs = d # r" "t_kind d = tkRParen" "e = callNode a (t_text t) (t_off t)"
      using x expect_rparenD by blast
    obtain p where p: "us = p @ vs" "gram LOr p a" using soundD[OF assms(1) a] by blast
    have "gram LPrimary (t # c # p @ [d]) e" using gram.call[OF assms(2) b True p(2) d(2)] d(3) by simp
    then show ?thesis using Cons p d by (intro exI[of _ "t # c # p @ [d]"]) simp
  qed
qed

lemma parsePrimary_sound: "sound LOr por \<Longrightarrow> sound LPrimary (parsePrimary por)"
  unfolding sound_def[of LPrimary]
proof (intro allI impI)
  fix ts e r
  assume por: "sound LOr por" and "parsePrimary por ts = Inr (e, r)"
  then obtain t us where ts: "ts = t # us" and pp: "parsePrimary por (t # us) = Inr (e, r)"
    by (cases ts) (auto simp: parsePrimary_def)
  consider (lit) v where "literal t = Some v" | (ref) "t_kind t = tkRef" | (paren) "t_kind t = tkLParen"
    using pp by (cases "t_kind t") (auto simp: parsePrimary_def)
  then show "\<exists>p. ts = p @ r \<and> gram LPrimary p e"
  proof cases
    case lit
    then have "e = litNode v (t_off t)" "r = us" using pp
      by (auto simp: parsePrimary_def split: tokKind.splits)
    then show ?thesis using gram.lit[OF lit] ts by auto
  next
    case ref
    then show ?thesis using parseRefOrCall_sound[OF por ref] pp ts by (simp add: parsePrimary_def)
  next
    case paren
    then obtain a vs where a: "por us = Inr (a, vs)" and x: "\<exists>m. expect_rparen m a vs = Inr (e, r)"
      using pp by (auto simp: parsePrimary_def split: sum.splits)
    obtain d where d: "vs = d # r" "t_kind d = tkRParen" "e = a" using x expect_rparenD by blast
    obtain p where p: "us = p @ vs" "gram LOr p a" using soundD[OF por a] by blast
    have "gram LPrimary (t # p @ [d]) e" using gram.paren[OF paren p(2) d(2)] d(3) by simp
    then show ?thesis using ts p d by (intro exI[of _ "t # p @ [d]"]) simp
  qed
qed

lemma parseUnary_sound:
  assumes "sound LOr por"
  shows "sound LUnary (parseUnary por)"
proof -
  have "\<exists>p. ts = p @ r \<and> gram LUnary p e" if "parseUnary por ts = Inr (e, r)" for ts e r
    using that
  proof (induction ts arbitrary: e r)
    case (Cons c ts)
    show ?case
    proof (cases "t_kind c = tkOp \<and> t_text c = ''-''")
      case True
      with Cons.prems obtain a where a: "parseUnary por ts = Inr (a, r)" "e = unaryNode a ''-'' (t_off c)"
        by (auto split: sum.splits)
      obtain p where "ts = p @ r" "gram LUnary p a" using Cons.IH[OF a(1)] by blast
      then show ?thesis using gram.neg[of c p a] True a(2) by (intro exI[of _ "c # p"]) simp
    next
      case False
      then have "parsePrimary por (c # ts) = Inr (e, r)" using Cons.prems by (auto simp: if_not_P)
      from soundD[OF parsePrimary_sound[OF assms] this] gram.up[of LUnary] show ?thesis by auto
    qed
  qed simp
  then show ?thesis by (simp add: sound_def)
qed

lemma parseComparison_sound:
  assumes "sound LAdd (parseAdditive por)"
  shows "sound LCmp (parseComparison por)"
  unfolding sound_def
proof (intro allI impI)
  fix ts e r
  assume "parseComparison por ts = Inr (e, r)"
  then obtain l c us where l: "parseAdditive por ts = Inr (l, c # us)" and
    x: "(case sel LCmp c of None \<Rightarrow> Inr (l, c # us)
         | Some op \<Rightarrow> (case parseAdditive por us of Inl e \<Rightarrow> Inl e
             | Inr (right, r') \<Rightarrow> Inr (binNode l right op (t_off c), r'))) = (Inr (e, r) :: pres)"
    by (auto simp: parseComparison_def split: sum.splits list.splits)
  obtain p where p: "ts = p @ c # us" "gram LAdd p l" using soundD[OF assms l] by blast
  show "\<exists>p. ts = p @ r \<and> gram LCmp p e"
  proof (cases "sel LCmp c")
    case None
    then show ?thesis using x p gram.up[of LCmp p l] by auto
  next
    case (Some op)
    then obtain rt where rt: "parseAdditive por us = Inr (rt, r)" "e = binNode l rt op (t_off c)"
      using x by (auto split: sum.splits)
    obtain q where q: "us = q @ r" "gram LAdd q rt" using soundD[OF assms rt(1)] by blast
    then show ?thesis using gram.cmp[OF p(2) Some q(2)] p(1) rt(2) by (intro exI[of _ "p @ c # q"]) simp
  qed
qed

lemma parseNot_sound:
  assumes "sound LCmp (parseComparison por)"
  shows "sound LNot (parseNot por)"
proof -
  have "\<exists>p. ts = p @ r \<and> gram LNot p e" if "parseNot por ts = Inr (e, r)" for ts e r
    using that
  proof (induction ts arbitrary: e r)
    case (Cons c ts)
    show ?case
    proof (cases "t_kind c = tkNot")
      case True
      with Cons.prems obtain a where a: "parseNot por ts = Inr (a, r)" "e = unaryNode a ''not'' (t_off c)"
        by (auto split: sum.splits)
      obtain p where "ts = p @ r" "gram LNot p a" using Cons.IH[OF a(1)] by blast
      then show ?thesis using gram.nott[OF True, of p a] a(2) by (intro exI[of _ "c # p"]) simp
    next
      case False
      then have "parseComparison por (c # ts) = Inr (e, r)" using Cons.prems by simp
      from soundD[OF assms this] gram.up[of LNot] show ?thesis by auto
    qed
  qed simp
  then show ?thesis by (simp add: sound_def)
qed

lemma parser_at_sound:
  assumes "sound LOr por"
  shows "sound L (parser_at por L)"
proof -
  note un = parseUnary_sound[OF assms]
  have mul: "sound LMul (parseMultiplicative por)"
    using chain_sound[of LMul] un by (simp add: chain_level_def parseMultiplicative_def)
  have add: "sound LAdd (parseAdditive por)"
    using chain_sound[of LAdd] mul by (simp add: chain_level_def parseAdditive_def)
  note cm = parseComparison_sound[OF add]
  note nt = parseNot_sound[OF cm]
  have an: "sound LAnd (parseAnd por)" using chain_sound[of LAnd] nt by (simp add: chain_level_def parseAnd_def)
  have orr: "sound LOr (parser_at por LOr)" using chain_sound[of LOr] an by (simp add: chain_level_def)
  show ?thesis using un mul add cm nt an orr parsePrimary_sound[OF assms] by (cases L) simp_all
qed

lemma parseOr_sound: "sound LOr (parseOr n)"
proof (induction n)
  case 0
  then show ?case by (simp add: sound_def)
next
  case (Suc n)
  have "parseOr (Suc n) = parser_at (parseOr n) LOr" by (rule ext) simp
  then show ?case using parser_at_sound[OF Suc, of LOr] by simp
qed

section \<open>Errors: no panic, enough fuel, offsets of tokens\<close>

definition eof_ended :: "token list \<Rightarrow> bool" where
  "eof_ended ts \<longleftrightarrow> ts \<noteq> [] \<and> t_kind (last ts) = tkEOF"

lemma eof_ended_rest: "eof_ended (p @ r) \<Longrightarrow> gram L p e \<Longrightarrow> eof_ended r"
  using gram_no_eof[of L p e] by (cases r rule: rev_cases) (auto simp: eof_ended_def)

lemma eof_ended_Cons: "eof_ended (t # r) \<Longrightarrow> t_kind t \<noteq> tkEOF \<Longrightarrow> eof_ended r"
  by (auto simp: eof_ended_def split: if_splits)

text \<open>A parser of at most \<open>N\<close> tokens fails only with a syntax error at one of them.\<close>

definition tame :: "nat \<Rightarrow> (token list \<Rightarrow> pres) \<Rightarrow> bool" where
  "tame N f \<longleftrightarrow> (\<forall>ts e. length ts \<le> N \<longrightarrow> eof_ended ts \<longrightarrow> f ts = Inl e \<longrightarrow>
     (\<exists>m. \<exists>t\<in>set ts. e = syntaxErr m (t_off t)))"

lemma tameD: "tame N f \<Longrightarrow> length ts \<le> N \<Longrightarrow> eof_ended ts \<Longrightarrow> f ts = Inl e \<Longrightarrow>
   \<exists>m. \<exists>t\<in>set ts. e = syntaxErr m (t_off t)"
  by (simp add: tame_def)

lemma tameI: "(\<And>ts e. length ts \<le> N \<Longrightarrow> eof_ended ts \<Longrightarrow> f ts = Inl e \<Longrightarrow>
   \<exists>m. \<exists>t\<in>set ts. e = syntaxErr m (t_off t)) \<Longrightarrow> tame N f"
  by (simp add: tame_def)

lemma chain_loop_tame:
  assumes "sound L' f" and "tame N f" and "\<And>c op. ops c = Some op \<Longrightarrow> t_kind c \<noteq> tkEOF"
  shows "chain_loop n f ops l ts = Inl e \<Longrightarrow> length ts < n \<Longrightarrow> length ts \<le> N \<Longrightarrow> eof_ended ts \<Longrightarrow>
         \<exists>m. \<exists>t\<in>set ts. e = syntaxErr m (t_off t)"
proof (induction n arbitrary: l ts)
  case (Suc n)
  obtain c us where ts: "ts = c # us" using Suc.prems by (cases ts) (auto simp: eof_ended_def)
  then obtain op where op: "ops c = Some op" using Suc.prems by (cases "ops c") auto
  have us: "eof_ended us" using eof_ended_Cons Suc.prems assms(3)[OF op] ts by blast
  show ?case
  proof (cases "f us")
    case (Inl e')
    then show ?thesis using tameD[OF assms(2) _ us Inl] Suc.prems ts op by auto
  next
    case (Inr x)
    obtain rt vs where x: "x = (rt, vs)" by (cases x)
    obtain q where q: "us = q @ vs" "gram L' q rt" using soundD[OF assms(1)] Inr x by blast
    have "chain_loop n f ops (binNode l rt op (t_off c)) vs = Inl e" using Suc.prems ts op Inr x by simp
    from Suc.IH[OF this] eof_ended_rest[of q vs] us q Suc.prems ts show ?thesis by fastforce
  qed
qed simp

lemma sel_not_eof: "sel L c = Some op \<Longrightarrow> t_kind c \<noteq> tkEOF"
  by (cases L) (auto simp: op_in_def split: if_splits)

lemma chain_tame:
  assumes "sound L' f" and "tame N f"
  shows "tame N (parseBinaryChain f (sel L))"
proof (rule tameI)
  fix ts e
  assume a: "length ts \<le> N" "eof_ended ts" "parseBinaryChain f (sel L) ts = Inl e"
  show "\<exists>m. \<exists>t\<in>set ts. e = syntaxErr m (t_off t)"
  proof (cases "f ts")
    case (Inl e')
    then show ?thesis using tameD[OF assms(2) a(1,2) Inl] a(3) by (simp add: parseBinaryChain_def)
  next
    case (Inr x)
    obtain l us where x: "x = (l, us)" by (cases x)
    obtain p where p: "ts = p @ us" "gram L' p l" using soundD[OF assms(1)] Inr x by blast
    have "chain_loop (Suc (length us)) f (sel L) l us = Inl e"
      using a(3) Inr x by (simp add: parseBinaryChain_def del: chain_loop.simps)
    moreover have "eof_ended us" using eof_ended_rest a(2) p by blast
    ultimately have "\<exists>m. \<exists>t\<in>set us. e = syntaxErr m (t_off t)"
      using chain_loop_tame[OF assms, of "sel L"] sel_not_eof a(1) p(1) by (metis le_add2 le_trans length_append lessI)
    then show ?thesis using p(1) by auto
  qed
qed

lemma expect_rparen_err:
  "expect_rparen m n ts = Inl e \<Longrightarrow> eof_ended ts \<Longrightarrow> \<exists>m. \<exists>t\<in>set ts. e = syntaxErr m (t_off t)"
  by (auto simp: expect_rparen_def eof_ended_def split: list.splits if_splits)

lemma nested_err:
  assumes "sound LOr por" and "tame N por" and "length r \<le> N" and "eof_ended r"
    and "(case por r of Inl e \<Rightarrow> Inl e | Inr (a, r') \<Rightarrow> expect_rparen m (g a) r') = Inl e"
  shows "\<exists>m. \<exists>t\<in>set r. e = syntaxErr m (t_off t)"
proof (cases "por r")
  case (Inl e')
  then show ?thesis using tameD[OF assms(2-4)] assms(5) by simp
next
  case (Inr x)
  obtain a vs where x: "x = (a, vs)" by (cases x)
  obtain q where q: "r = q @ vs" "gram LOr q a" using soundD[OF assms(1)] Inr x by blast
  have "expect_rparen m (g a) vs = Inl e" using assms(5) Inr x by simp
  from expect_rparen_err[OF this] eof_ended_rest[of q vs] q assms(4) show ?thesis by auto
qed

lemma parsePrimary_tame:
  assumes "sound LOr por" and "tame N por"
  shows "tame (Suc N) (parsePrimary por)"
proof (rule tameI)
  fix ts e
  assume a: "length ts \<le> Suc N" "eof_ended ts" "parsePrimary por ts = Inl e"
  then obtain t us where ts: "ts = t # us" by (cases ts) (auto simp: eof_ended_def)
  show "\<exists>m. \<exists>t\<in>set ts. e = syntaxErr m (t_off t)"
  proof (cases "t_kind t = tkEOF")
    case True
    then show ?thesis using a(3) ts by (auto simp: parsePrimary_def)
  next
    case False
    then have us: "eof_ended us" using eof_ended_Cons a(2) ts by blast
    consider (paren) "t_kind t = tkLParen" | (ref) "t_kind t = tkRef"
      | (bad) "parsePrimary por ts = Inl (syntaxErr ''expected an expression'' (t_off t))"
      using a(3) ts by (cases "t_kind t") (auto simp: parsePrimary_def)
    then show ?thesis
    proof cases
      case paren
      then have "(case por us of Inl e \<Rightarrow> Inl e
          | Inr (e, r') \<Rightarrow> expect_rparen (''expected '' @ sq '')'') e r') = Inl e"
        using a(3) ts by (simp add: parsePrimary_def)
      from nested_err[OF assms _ us, of _ "\<lambda>x. x", OF _ this] a(1) ts show ?thesis by auto
    next
      case ref
      then have pr: "parseRefOrCall por t us = Inl e" using a(3) ts by (simp add: parsePrimary_def)
      obtain c vs where vs: "us = c # vs" using us by (cases us) (auto simp: eof_ended_def)
      show ?thesis
      proof (cases "t_kind c = tkLParen \<and> t_text t \<in> set builtins")
        case True
        then have vs': "eof_ended vs" using eof_ended_Cons us vs by auto
        from True pr vs have "(case por vs of Inl e \<Rightarrow> Inl e | Inr (arg, r') \<Rightarrow>
            expect_rparen (''expected '' @ sq '')'' @ '' after the argument'')
                    (callNode arg (t_text t) (t_off t)) r') = Inl e"
          by (simp add: parseRefOrCall_def)
        from nested_err[OF assms _ vs', of _ "\<lambda>x. callNode x (t_text t) (t_off t)", OF _ this] a(1) ts vs
        show ?thesis by auto
      next
        case False
        then show ?thesis using pr ts vs by (auto simp: parseRefOrCall_def split: if_splits)
      qed
    next
      case bad
      then show ?thesis using a(3) ts by auto
    qed
  qed
qed

lemma parseUnary_tame:
  assumes "tame N (parsePrimary por)"
  shows "tame N (parseUnary por)"
proof -
  have "\<exists>m. \<exists>t\<in>set ts. e = syntaxErr m (t_off t)"
    if "parseUnary por ts = Inl e" "length ts \<le> N" "eof_ended ts" for ts e
    using that
  proof (induction ts arbitrary: e)
    case (Cons c ts)
    show ?case
    proof (cases "t_kind c = tkOp \<and> t_text c = ''-''")
      case True
      then show ?thesis using Cons eof_ended_Cons[of c ts] by (fastforce split: sum.splits)
    next
      case False
      then show ?thesis using Cons.prems tameD[OF assms] by (auto simp: if_not_P simp del: set_simps)
    qed
  qed (simp add: eof_ended_def)
  then show ?thesis by (simp add: tame_def)
qed

lemma parseNot_tame:
  assumes "tame N (parseComparison por)"
  shows "tame N (parseNot por)"
proof -
  have "\<exists>m. \<exists>t\<in>set ts. e = syntaxErr m (t_off t)"
    if "parseNot por ts = Inl e" "length ts \<le> N" "eof_ended ts" for ts e
    using that
  proof (induction ts arbitrary: e)
    case (Cons c ts)
    show ?case
    proof (cases "t_kind c = tkNot")
      case True
      then show ?thesis using Cons eof_ended_Cons[of c ts] by (fastforce split: sum.splits)
    next
      case False
      then show ?thesis using Cons.prems tameD[OF assms] by (auto simp: if_not_P simp del: set_simps)
    qed
  qed (simp add: eof_ended_def)
  then show ?thesis by (simp add: tame_def)
qed

lemma parseComparison_tame:
  assumes "sound LAdd (parseAdditive por)" and "tame N (parseAdditive por)"
  shows "tame N (parseComparison por)"
proof (rule tameI)
  fix ts e
  assume a: "length ts \<le> N" "eof_ended ts" "parseComparison por ts = Inl e"
  show "\<exists>m. \<exists>t\<in>set ts. e = syntaxErr m (t_off t)"
  proof (cases "parseAdditive por ts")
    case (Inl e')
    then show ?thesis using tameD[OF assms(2) a(1,2) Inl] a(3) by (simp add: parseComparison_def)
  next
    case (Inr x)
    obtain l us where x: "x = (l, us)" by (cases x)
    obtain p where p: "ts = p @ us" "gram LAdd p l" using soundD[OF assms(1)] Inr x by blast
    then have "eof_ended us" using a(2) eof_ended_rest by blast
    then obtain c vs where us: "us = c # vs" by (cases us) (auto simp: eof_ended_def)
    with a(3) Inr x obtain op where op: "sel LCmp c = Some op" and e: "parseAdditive por vs = Inl e"
      by (auto simp: parseComparison_def simp del: sel.simps split: option.splits sum.splits)
    have "eof_ended vs" using \<open>eof_ended us\<close> us sel_not_eof[OF op] eof_ended_Cons by blast
    from tameD[OF assms(2) _ this e] a(1) p us show ?thesis by auto
  qed
qed

lemma parser_at_tame:
  assumes "sound LOr por" and "tame N por"
  shows "tame (Suc N) (parser_at por L)"
proof -
  note snd = parser_at_sound[OF assms(1)]
  note un = parseUnary_tame[OF parsePrimary_tame[OF assms]]
  have mul: "tame (Suc N) (parseMultiplicative por)"
    using chain_tame[OF _ un] snd[of LUnary] by (simp add: parseMultiplicative_def)
  have add: "tame (Suc N) (parseAdditive por)"
    using chain_tame[OF _ mul] snd[of LMul] by (simp add: parseAdditive_def)
  have cm: "tame (Suc N) (parseComparison por)"
    using parseComparison_tame[OF _ add] snd[of LAdd] by simp
  note nt = parseNot_tame[OF cm]
  have an: "tame (Suc N) (parseAnd por)" using chain_tame[OF _ nt] snd[of LNot] by (simp add: parseAnd_def)
  have orr: "tame (Suc N) (parser_at por LOr)" using chain_tame[OF _ an] snd[of LAnd] by simp
  show ?thesis using un mul add cm nt an orr parsePrimary_tame[OF assms] by (cases L) simp_all
qed

lemma parseOr_tame: "tame n (parseOr n)"
proof (induction n)
  case 0
  then show ?case by (simp add: tame_def eof_ended_def)
next
  case (Suc n)
  have "parseOr (Suc n) = parser_at (parseOr n) LOr" by (rule ext) simp
  then show ?case using parser_at_tame[OF parseOr_sound Suc, of LOr] by simp
qed

section \<open>Completeness\<close>

text \<open>
  What may follow a phrase of a level: a token that the level and the tighter ones do not
  continue with. An opening parenthesis would turn a trailing reference into a call.
\<close>

fun rank :: "level \<Rightarrow> nat" where
  "rank LOr = 0" | "rank LAnd = 1" | "rank LNot = 2" | "rank LCmp = 3" | "rank LAdd = 4"
| "rank LMul = 5" | "rank LUnary = 6" | "rank LPrimary = 7"

definition follow :: "level \<Rightarrow> token list \<Rightarrow> bool" where
  "follow L ts \<longleftrightarrow>
     (\<exists>c r. ts = c # r \<and> t_kind c \<noteq> tkLParen \<and> (\<forall>M. rank L \<le> rank M \<longrightarrow> sel M c = None))"

lemma rank_tighter: "rank L \<le> rank (tighter L)"
  by (cases L) simp_all

lemma follow_tighter: "follow L ts \<Longrightarrow> follow (tighter L) ts"
  unfolding follow_def using rank_tighter[of L] order_trans by blast

lemma sel_follow: "sel L c = Some op \<Longrightarrow> follow (tighter L) (c # r)"
proof -
  assume a: "sel L c = Some op"
  have "sel M c = None" if "rank (tighter L) \<le> rank M" for M
    using a that by (cases L; cases M) (auto simp: op_in_def comparisonOps_def split: if_splits)
  moreover have "t_kind c \<noteq> tkLParen" using a by (cases L) (auto simp: op_in_def split: if_splits)
  ultimately show ?thesis by (auto simp: follow_def)
qed

lemma follow_rparen: "t_kind c = tkRParen \<Longrightarrow> follow L (c # r)"
proof -
  assume "t_kind c = tkRParen"
  then have "sel M c = None" for M by (cases M) (auto simp: op_in_def)
  then show ?thesis using \<open>t_kind c = tkRParen\<close> by (auto simp: follow_def)
qed

lemma follow_eof: "t_kind c = tkEOF \<Longrightarrow> follow L (c # r)"
proof -
  assume "t_kind c = tkEOF"
  then have "sel M c = None" for M by (cases M) (auto simp: op_in_def)
  then show ?thesis using \<open>t_kind c = tkEOF\<close> by (auto simp: follow_def)
qed

lemma gram_hd:
  "gram L p e \<Longrightarrow> p \<noteq> [] \<and> (rank LCmp \<le> rank L \<longrightarrow> t_kind (hd p) \<noteq> tkNot) \<and>
     (L = LPrimary \<longrightarrow> t_kind (hd p) \<noteq> tkOp)"
proof (induction rule: gram.induct)
  case (up L p e)
  then show ?case using rank_tighter[of L] order_trans by blast
qed (auto simp: chain_level_def split: tokKind.splits)

text \<open>With a consuming operand parser the bound of the loop does not matter.\<close>

lemma chain_loop_fuel:
  assumes "sound L' f"
  shows "length ts < n \<Longrightarrow> length ts < m \<Longrightarrow> chain_loop n f ops l ts = chain_loop m f ops l ts"
proof (induction n arbitrary: m l ts)
  case (Suc n)
  obtain m' where m: "m = Suc m'" using Suc.prems by (cases m) auto
  show ?case
  proof (cases ts)
    case (Cons c us)
    have "chain_loop n f ops b vs = chain_loop m' f ops b vs" if "f us = Inr (r, vs)" for r b vs
      using Suc.IH[of vs m'] soundD[OF assms that] Suc.prems Cons m by fastforce
    then show ?thesis using Cons m by (auto split: option.splits sum.splits)
  qed (simp add: m)
qed simp

lemma chain_loop_step:
  assumes "sound L' f" and "ops c = Some op" and "f (q @ rest) = Inr (r, rest)"
  shows "chain_loop (Suc (length (c # q @ rest))) f ops l (c # q @ rest) =
         chain_loop (Suc (length rest)) f ops (binNode l r op (t_off c)) rest"
proof -
  have "chain_loop (Suc (length (c # q @ rest))) f ops l (c # q @ rest) =
        chain_loop (length (c # q @ rest)) f ops (binNode l r op (t_off c)) rest"
    using assms(2,3) by (subst chain_loop.simps(2)) (simp del: chain_loop.simps)
  then show ?thesis using chain_loop_fuel[OF assms(1), of rest "length (c # q @ rest)" "Suc (length rest)" ops]
    by simp
qed

lemma chain_loop_stop: "follow L rest \<Longrightarrow> chain_loop (Suc n) f (sel L) l rest = Inr (l, rest)"
  by (auto simp: follow_def)

definition complete :: "(token list \<Rightarrow> pres) \<Rightarrow> level \<Rightarrow> token list \<Rightarrow> node \<Rightarrow> bool" where
  "complete por L p e \<longleftrightarrow>
     (\<forall>rest. follow L rest \<longrightarrow> parser_at por L (p @ rest) = Inr (e, rest)) \<and>
     (chain_level L \<longrightarrow> (\<forall>rest. follow (tighter L) rest \<longrightarrow>
        parser_at por L (p @ rest) = chain_loop (Suc (length rest)) (parser_at por (tighter L)) (sel L) e rest))"

lemma complete_chainI:
  assumes "chain_level L"
    and "\<And>rest. follow (tighter L) rest \<Longrightarrow>
        parser_at por L (p @ rest) = chain_loop (Suc (length rest)) (parser_at por (tighter L)) (sel L) e rest"
  shows "complete por L p e"
  unfolding complete_def using assms follow_tighter chain_loop_stop by metis

lemma complete_up:
  assumes "L \<noteq> LPrimary" and "gram (tighter L) p e" and "complete por (tighter L) p e"
  shows "complete por L p e"
proof -
  have IH: "parser_at por (tighter L) (p @ rest) = Inr (e, rest)" if "follow (tighter L) rest" for rest
    using assms(3) that by (simp add: complete_def)
  have hd: "p \<noteq> []" using gram_hd[OF assms(2)] by simp
  then obtain t p' where p: "p = t # p'" by (cases p) auto
  show ?thesis
  proof (cases "chain_level L")
    case True
    then show ?thesis
    proof (rule complete_chainI)
      fix rest assume "follow (tighter L) rest"
      then show "parser_at por L (p @ rest) = chain_loop (Suc (length rest)) (parser_at por (tighter L)) (sel L) e rest"
        using IH parser_at_chain[OF True] by (simp add: parseBinaryChain_def)
    qed
  next
    case False
    have "parser_at por L (p @ rest) = Inr (e, rest)" if f: "follow L rest" for rest
    proof -
      note IH' = IH[OF follow_tighter[OF f]]
      consider "L = LNot" | "L = LCmp" | "L = LUnary" using False assms(1) by (cases L) (auto simp: chain_level_def)
      then show ?thesis
      proof cases
        case 1
        then show ?thesis using IH' gram_hd[OF assms(2)] p by simp
      next
        case 2
        then obtain c r where "rest = c # r" "sel LCmp c = None" using f unfolding follow_def by blast
        then show ?thesis using IH' 2 by (simp add: parseComparison_def)
      next
        case 3
        then show ?thesis using IH' gram_hd[OF assms(2)] p by simp
      qed
    qed
    then show ?thesis using False by (simp add: complete_def)
  qed
qed

lemma complete_binary:
  assumes "sound LOr por" and L: "chain_level L" and "complete por L p l" and c: "sel L c = Some op"
    and "complete por (tighter L) q r"
  shows "complete por L (p @ c # q) (binNode l r op (t_off c))"
  using L
proof (rule complete_chainI)
  fix rest assume f: "follow (tighter L) rest"
  have q: "parser_at por (tighter L) (q @ rest) = Inr (r, rest)" using assms(5) f by (simp add: complete_def)
  have "parser_at por L (p @ (c # q @ rest)) =
      chain_loop (Suc (length (c # q @ rest))) (parser_at por (tighter L)) (sel L) l (c # q @ rest)"
    using assms(3) L sel_follow[OF c] unfolding complete_def by blast
  also have "\<dots> = chain_loop (Suc (length rest)) (parser_at por (tighter L)) (sel L) (binNode l r op (t_off c)) rest"
    by (rule chain_loop_step[OF parser_at_sound[OF assms(1), of "tighter L"], where ops = "sel L" and q = q and rest = rest, OF c q])
  finally show "parser_at por L ((p @ c # q) @ rest) =
      chain_loop (Suc (length rest)) (parser_at por (tighter L)) (sel L) (binNode l r op (t_off c)) rest"
    by simp
qed

lemma complete_cmp:
  assumes "complete por LAdd p l" and c: "sel LCmp c = Some op" and "complete por LAdd q r"
  shows "complete por LCmp (p @ c # q) (binNode l r op (t_off c))"
proof -
  have "parser_at por LCmp ((p @ c # q) @ rest) = Inr (binNode l r op (t_off c), rest)"
    if f: "follow LCmp rest" for rest
  proof -
    have "parser_at por LAdd (p @ c # q @ rest) = Inr (l, c # q @ rest)"
      using assms(1) sel_follow[OF c] by (simp add: complete_def)
    moreover have "parser_at por LAdd (q @ rest) = Inr (r, rest)"
      using assms(3) follow_tighter[OF f] by (simp add: complete_def)
    ultimately show ?thesis using c by (simp add: parseComparison_def)
  qed
  then show ?thesis by (simp add: complete_def chain_level_def)
qed

text \<open>
  The induction over derivations, for a \<open>parseOr\<close> that is complete on the shorter phrases between
  parentheses.
\<close>

lemma gram_complete_at:
  assumes "sound LOr por"
    and por: "\<And>p e rest. gram LOr p e \<Longrightarrow> length p < N \<Longrightarrow> follow LOr rest \<Longrightarrow> por (p @ rest) = Inr (e, rest)"
  shows "gram L p e \<Longrightarrow> length p \<le> N \<Longrightarrow> complete por L p e"
proof (induction rule: gram.induct)
  case (up L p e)
  show ?case by (rule complete_up[OF up.hyps up.IH[OF up.prems]])
next
  case (chain L p l c op q r)
  then show ?case by (intro complete_binary[OF assms(1) chain.hyps(1)]) auto
next
  case (cmp p l c op q r)
  then show ?case by (intro complete_cmp) auto
next
  case (nott t p e)
  then show ?case by (auto simp: complete_def chain_level_def)
next
  case (neg c p e)
  then show ?case by (auto simp: complete_def chain_level_def)
next
  case (lit t v)
  then show ?case by (auto simp: complete_def chain_level_def parsePrimary_def split: tokKind.splits)
next
  case (ref t)
  then show ?case by (auto simp: complete_def chain_level_def parsePrimary_def parseRefOrCall_def follow_def)
next
  case (paren t p e c)
  have "por (p @ c # rest) = Inr (e, c # rest)" for rest
    using por[OF paren(2)] follow_rparen[OF paren(3)] paren.prems by simp
  then show ?case using paren by (auto simp: complete_def chain_level_def parsePrimary_def expect_rparen_def)
next
  case (call t b p e c)
  have "por (p @ c # rest) = Inr (e, c # rest)" for rest
    using por[OF call(4)] follow_rparen[OF call(5)] call.prems by simp
  then show ?case using call
    by (auto simp: complete_def chain_level_def parsePrimary_def parseRefOrCall_def expect_rparen_def)
qed

lemma parseOr_complete:
  "gram LOr p e \<Longrightarrow> length p < n \<Longrightarrow> follow LOr rest \<Longrightarrow> parseOr n (p @ rest) = Inr (e, rest)"
proof (induction n arbitrary: p e rest)
  case (Suc n)
  have "complete (parseOr n) LOr p e"
    by (rule gram_complete_at[OF parseOr_sound Suc.IH]) (use Suc.prems in auto)
  then show ?case using Suc.prems by (simp add: complete_def)
qed simp

section \<open>The parser decides the grammar\<close>

lemma parse_tokens_sound:
  assumes "parse_tokens (us @ [z]) = Inr n" and z: "t_kind z = tkEOF"
    and nf: "\<And>u. u \<in> set us \<Longrightarrow> t_kind u \<noteq> tkEOF"
  shows "gram LOr us n"
proof -
  obtain c r where pr: "parseOr (Suc (length (us @ [z]))) (us @ [z]) = Inr (n, c # r)" and c: "t_kind c = tkEOF"
    using assms(1) by (auto simp: parse_tokens_def simp del: parseOr.simps split: sum.splits list.splits if_splits)
  obtain p where p: "us @ [z] = p @ c # r" "gram LOr p n" using soundD[OF parseOr_sound pr] by blast
  have "r = []"
  proof (rule ccontr)
    assume "r \<noteq> []"
    then have "us = p @ c # butlast r" using p(1) by (metis butlast_append butlast_snoc list.distinct(1) butlast.simps(2))
    then show False using nf c by auto
  qed
  then show ?thesis using p by simp
qed

lemma parse_tokens_complete:
  assumes "gram LOr us n" and "t_kind z = tkEOF"
  shows "parse_tokens (us @ [z]) = Inr n"
  using parseOr_complete[OF assms(1), of "Suc (length (us @ [z]))" "[z]"] follow_eof[OF assms(2)] assms(2)
  by (simp add: parse_tokens_def del: parseOr.simps)

text \<open>
  Claim C35. The parser decides the documented grammar: a body parses to a tree exactly when it
  scans to tokens that the grammar derives that tree from. In particular an accepted body has
  one reading, and every derivable body is accepted.
\<close>

theorem parse_decides_grammar:
  "parse body = Inr n \<longleftrightarrow> (\<exists>us. lex body = Inr (us @ [mk_token tkEOF [] (length body)]) \<and> gram LOr us n)"
proof
  assume a: "parse body = Inr n"
  then obtain ts where ts: "lex body = Inr ts" and p: "parse_tokens ts = Inr n"
    by (auto simp: parse_def split: sum.splits)
  obtain us where "ts = us @ [mk_token tkEOF [] (length body)]" and
    nf: "\<And>u. u \<in> set us \<Longrightarrow> t_kind u \<noteq> tkEOF \<and> t_off u < length body"
    using lex_shape[OF ts] by blast
  moreover have "gram LOr us n" if "ts = us @ [mk_token tkEOF [] (length body)]"
    using parse_tokens_sound[of us _ n] p nf that by (simp add: mk_token_def)
  ultimately show "\<exists>us. lex body = Inr (us @ [mk_token tkEOF [] (length body)]) \<and> gram LOr us n"
    using ts by blast
next
  assume "\<exists>us. lex body = Inr (us @ [mk_token tkEOF [] (length body)]) \<and> gram LOr us n"
  then show "parse body = Inr n"
    using parse_tokens_complete by (auto simp: parse_def mk_token_def)
qed

lemma parse_tokens_err:
  assumes "parse_tokens ts = Inl e" and "eof_ended ts"
  shows "\<exists>m. \<exists>t\<in>set ts. e = syntaxErr m (t_off t)"
proof (cases "parseOr (Suc (length ts)) ts")
  case (Inl e')
  then show ?thesis using tameD[OF parseOr_tame _ assms(2) Inl] assms(1)
    by (simp add: parse_tokens_def del: parseOr.simps)
next
  case (Inr x)
  obtain n r where x: "x = (n, r)" by (cases x)
  obtain p where p: "ts = p @ r" "gram LOr p n" using soundD[OF parseOr_sound] Inr x by blast
  then have "eof_ended r" using eof_ended_rest assms(2) by blast
  then obtain c q where "r = c # q" by (cases r) (auto simp: eof_ended_def)
  then show ?thesis using assms(1) Inr x p
    by (auto simp: parse_tokens_def simp del: parseOr.simps split: if_splits)
qed

text \<open>
  Claim C37. Scanning and parsing are total and fail only with an anchored error: no body makes
  the parser run past its tokens or exhaust the recursion bound, and every rejection carries a
  byte offset inside the body or at its end.
\<close>

theorem parse_error_anchored:
  assumes "parse body = Inl e"
  shows "e \<noteq> IndexPanic \<and> e \<noteq> OutOfFuel \<and> (\<exists>k. le_off e = Some k \<and> k \<le> length body)"
proof (cases "lex body")
  case (Inl e')
  then show ?thesis using lex_errorD[OF Inl] assms by (simp add: parse_def)
next
  case (Inr ts)
  obtain us where us: "ts = us @ [mk_token tkEOF [] (length body)]"
    "\<And>u. u \<in> set us \<Longrightarrow> t_kind u \<noteq> tkEOF \<and> t_off u < length body"
    using lex_shape[OF Inr] by blast
  have "eof_ended ts" using us by (simp add: eof_ended_def mk_token_def)
  moreover have "parse_tokens ts = Inl e" using assms Inr by (simp add: parse_def)
  ultimately obtain m t where t: "t \<in> set ts" "e = syntaxErr m (t_off t)" using parse_tokens_err by blast
  have "t_off t \<le> length body" using t(1) us by (fastforce simp: mk_token_def)
  then show ?thesis using t(2) by simp
qed

text \<open>A body whose closing parenthesis is missing.\<close>

lemma parse_unclosed_paren: "parse ''(a'' = Inl (syntaxErr (''expected '' @ sq '')'') 2)"
  by code_simp

theorem parse_error_anchored_witness:
  "syntaxErr (''expected '' @ sq '')'') 2 \<noteq> IndexPanic \<and>
   (\<exists>k. le_off (syntaxErr (''expected '' @ sq '')'') 2) = Some k \<and> k \<le> length ''(a'')"
  using parse_error_anchored[OF parse_unclosed_paren] by blast

end
