(* ===== verification/Lite_Eval.thy ===== *)
theory Lite_Eval
  imports Lite_Parser
begin

text \<open>
  The evaluator and the engine of the \<^verbatim>\<open>gobpm:lite\<close> language
  (\<^verbatim>\<open>src/pkg/model/expression/lite/eval.go\<close>, \<^verbatim>\<open>lite.go\<close>). The process data the expression reads,
  \<^verbatim>\<open>data.Source\<close>, is the parameter \<open>src_find\<close>; \<^verbatim>\<open>time.Parse(time.RFC3339, ..)\<close> is the parameter
  \<open>src_time\<close>, so every theorem holds whatever texts it accepts. An error message is the format
  string of the code: the operand of a \<^verbatim>\<open>%q\<close> verb is not rendered into it. The cause a failed
  time parse wraps is the standard library's and is left out.

  The theorems: a well-kinded expression fails only by dividing by zero or by a bad time text,
  comparison is the expected order on numbers that are not NaN, integers below \<open>2^53\<close> compare
  as integers, and every evaluation error is anchored inside the body.
\<close>

section \<open>Data read from the process\<close>

text \<open>
  The dynamic type of what \<^verbatim>\<open>Value().Get\<close> returns, as far as \<^verbatim>\<open>normalize\<close> tells them apart: the
  ten integer types share \<open>RInt\<close> (the value in its mathematical reading), and a \<^verbatim>\<open>float32\<close> is
  given by the \<^verbatim>\<open>float64\<close> of the same value.
\<close>

datatype raw = RNil | RBool bool | RString string | RFloat64 float64 | RTime int | RInt int
  | RFloat32 float64 | ROther

text \<open>A datum: its raw value, and what \<^verbatim>\<open>Count()\<close> and \<^verbatim>\<open>Keys()\<close> return where its value has them.\<close>

record datum =
  d_raw :: raw
  d_count :: "nat option"
  d_keys :: "string list option"

record source =
  src_find :: "string \<Rightarrow> datum result"
  src_time :: "string \<Rightarrow> int option"

definition evalErr :: "string \<Rightarrow> nat \<Rightarrow> lite_err" where
  "evalErr msg off = LiteErr InvalidParameter msg (Some off) None"

definition readErr :: "nat \<Rightarrow> app_error \<Rightarrow> lite_err" where
  "readErr off cause = LiteErr OperationFailed ''reading %q failed'' (Some off) (Some cause)"

fun normalize :: "raw \<Rightarrow> string \<Rightarrow> nat \<Rightarrow> operand lres" where
  "normalize RNil path off = Inr ONil"
| "normalize (RBool b) path off = Inr (OBool b)"
| "normalize (RString s) path off = Inr (OStr s)"
| "normalize (RFloat64 x) path off = Inr (ONum x)"
| "normalize (RTime t) path off = Inr (OTime t)"
| "normalize (RInt n) path off = Inr (ONum (fofint n))"
| "normalize (RFloat32 x) path off = Inr (ONum x)"
| "normalize ROther path off =
     Inl (evalErr ([CHR 0x22] @ path @ [CHR 0x22] @ '' isn't a lite operand (number, string, bool, time) '' @
            emdash @ '' navigate into it or use len()'') off)"

definition readRef :: "source \<Rightarrow> string \<Rightarrow> nat \<Rightarrow> operand lres" where
  "readRef src path off =
     (case src_find src path of
        Inl e \<Rightarrow> Inl (readErr off e)
      | Inr d \<Rightarrow> normalize (d_raw d) path off)"

section \<open>Operators\<close>

definition ordered :: "string \<Rightarrow> bool \<Rightarrow> bool \<Rightarrow> bool" where
  "ordered op eq lt =
     (if op = ''=='' then eq
      else if op = ''!='' then \<not> eq
      else if op = ''<'' then lt
      else if op = ''<='' then lt \<or> eq
      else if op = ''>'' then \<not> lt \<and> \<not> eq
      else \<not> lt)"

definition crossKind :: "string \<Rightarrow> nat \<Rightarrow> lite_err" where
  "crossKind op off = evalErr (sq op @ '' can't compare operands of different kinds'') off"

definition compareBools :: "string \<Rightarrow> operand \<Rightarrow> operand \<Rightarrow> nat \<Rightarrow> operand lres" where
  "compareBools op l r off =
     (case (l, r) of
        (OBool lv, OBool rv) \<Rightarrow>
          (if op = ''=='' then Inr (OBool (lv = rv))
           else if op = ''!='' then Inr (OBool (lv \<noteq> rv))
           else Inl (evalErr (''bools don't order '' @ emdash @ '' only == and !='') off))
      | _ \<Rightarrow> Inl (crossKind op off))"

text \<open>Go compares strings byte by byte.\<close>

fun str_less :: "string \<Rightarrow> string \<Rightarrow> bool" where
  "str_less _ [] = False"
| "str_less [] (_ # _) = True"
| "str_less (c # s) (d # t) = (byte c < byte d \<or> (byte c = byte d \<and> str_less s t))"

definition compare :: "string \<Rightarrow> operand \<Rightarrow> operand \<Rightarrow> nat \<Rightarrow> operand lres" where
  "compare op l r off =
     (if l = ONil \<or> r = ONil then
        (if op = ''=='' then Inr (OBool (l = ONil \<and> r = ONil))
         else if op = ''!='' then Inr (OBool ((l = ONil) \<noteq> (r = ONil)))
         else Inl (evalErr (''nil doesn't order '' @ emdash @ '' only == and !='') off))
      else
        (case l of
           ONum lv \<Rightarrow>
             (case r of ONum rv \<Rightarrow> Inr (OBool (ordered op (feq lv rv) (flt lv rv)))
              | _ \<Rightarrow> Inl (crossKind op off))
         | OStr lv \<Rightarrow>
             (case r of OStr rv \<Rightarrow> Inr (OBool (ordered op (lv = rv) (str_less lv rv)))
              | _ \<Rightarrow> Inl (crossKind op off))
         | OTime lv \<Rightarrow>
             (case r of OTime rv \<Rightarrow> Inr (OBool (ordered op (lv = rv) (lv < rv)))
              | _ \<Rightarrow> Inl (crossKind op off))
         | _ \<Rightarrow> compareBools op l r off))"

definition divZeroErr :: "string \<Rightarrow> nat \<Rightarrow> lite_err" where
  "divZeroErr op off =
     (if op = ''/'' then evalErr ''division by zero'' off
      else evalErr (''division by zero in '' @ sq ''%'') off)"

definition arithmetic :: "string \<Rightarrow> operand \<Rightarrow> operand \<Rightarrow> nat \<Rightarrow> operand lres" where
  "arithmetic op l r off =
     (let needs_num = Inl (evalErr (sq op @ '' needs number operands'') off) in
      case (if op = ''+'' then l else ONil) of
        OStr ls \<Rightarrow> (case r of OStr rs \<Rightarrow> Inr (OStr (ls @ rs)) | _ \<Rightarrow> Inl (crossKind op off))
      | _ \<Rightarrow>
          (case l of
             ONum lf \<Rightarrow>
               (case r of
                  ONum rf \<Rightarrow>
                    (if op = ''+'' then Inr (ONum (fadd lf rf))
                     else if op = ''-'' then Inr (ONum (fsub lf rf))
                     else if op = ''*'' then Inr (ONum (fmul lf rf))
                     else if op = ''/'' then
                       (if fis_zero rf then Inl (divZeroErr op off) else Inr (ONum (fdiv lf rf)))
                     else
                       (if fis_zero rf then Inl (divZeroErr op off) else Inr (ONum (fmod lf rf))))
                | _ \<Rightarrow> needs_num)
           | _ \<Rightarrow> needs_num))"

section \<open>Builtins\<close>

text \<open>
  \<^verbatim>\<open>utf8.RuneCountInString\<close>: the bytes of the first rune, where an invalid sequence counts as
  one rune of one byte.
\<close>

definition in_range :: "nat \<Rightarrow> nat \<Rightarrow> string \<Rightarrow> nat \<Rightarrow> bool" where
  "in_range lo hi s k \<longleftrightarrow> k < length s \<and> lo \<le> byte (s ! k) \<and> byte (s ! k) \<le> hi"

definition rune_len :: "string \<Rightarrow> nat" where
  "rune_len s =
     (let b = byte (hd s);
          lo = (if b = 224 then 160 else if b = 240 then 144 else 128);
          hi = (if b = 237 then 159 else if b = 244 then 143 else 191);
          cont = in_range 128 191 s
      in if 194 \<le> b \<and> b \<le> 223 \<and> in_range lo hi s 1 then 2
         else if 224 \<le> b \<and> b \<le> 239 \<and> in_range lo hi s 1 \<and> cont 2 then 3
         else if 240 \<le> b \<and> b \<le> 244 \<and> in_range lo hi s 1 \<and> cont 2 \<and> cont 3 then 4
         else 1)"

function RuneCountInString :: "string \<Rightarrow> nat" where
  "RuneCountInString [] = 0"
| "RuneCountInString (c # s) = Suc (RuneCountInString (drop (rune_len (c # s) - 1) s))"
  by pat_completeness auto
termination by (relation "measure length") auto

definition rune_count_num :: "string \<Rightarrow> operand" where
  "rune_count_num s = ONum (fofint (int (RuneCountInString s)))"

definition lenErr :: "nat \<Rightarrow> lite_err" where
  "lenErr off = evalErr ''len() needs an array, a map or a string'' off"

definition lenOfRef :: "source \<Rightarrow> string \<Rightarrow> nat \<Rightarrow> operand lres" where
  "lenOfRef src path off =
     (case src_find src path of
        Inl e \<Rightarrow> Inl (readErr off e)
      | Inr d \<Rightarrow>
          (case d_count d of
             Some n \<Rightarrow> Inr (ONum (fofint (int n)))
           | None \<Rightarrow>
               (case d_keys d of
                  Some ks \<Rightarrow> Inr (ONum (fofint (int (length ks))))
                | None \<Rightarrow>
                    (case d_raw d of
                       RString s \<Rightarrow> Inr (rune_count_num s)
                     | _ \<Rightarrow> Inl (lenErr off)))))"

definition timeErr :: "nat \<Rightarrow> lite_err" where
  "timeErr off = LiteErr InvalidParameter ''time(): %q isn't an RFC3339 timestamp'' (Some off) None"

section \<open>Evaluation\<close>

definition evalHas :: "source \<Rightarrow> operand \<Rightarrow> nat \<Rightarrow> operand lres" where
  "evalHas src v off =
     (case v of
        OStr s \<Rightarrow> (case src_find src s of Inl _ \<Rightarrow> Inr (OBool False) | Inr _ \<Rightarrow> Inr (OBool True))
      | _ \<Rightarrow> Inl (evalErr ''has() needs a string naming a datum or path'' off))"

definition evalTime :: "source \<Rightarrow> operand \<Rightarrow> nat \<Rightarrow> operand lres" where
  "evalTime src v off =
     (case v of
        OStr s \<Rightarrow> (case src_time src s of None \<Rightarrow> Inl (timeErr off) | Some t \<Rightarrow> Inr (OTime t))
      | _ \<Rightarrow> Inl (evalErr ''time() needs an RFC3339 string'' off))"

definition evalUnary :: "string \<Rightarrow> operand \<Rightarrow> nat \<Rightarrow> operand lres" where
  "evalUnary op v off =
     (if op = ''not'' then
        (case v of OBool b \<Rightarrow> Inr (OBool (\<not> b)) | _ \<Rightarrow> Inl (evalErr (sq ''not'' @ '' needs a bool operand'') off))
      else
        (case v of ONum f \<Rightarrow> Inr (ONum (fneg f)) | _ \<Rightarrow> Inl (evalErr (''unary '' @ sq ''-'' @ '' needs a number'') off)))"

definition boolErr :: "string \<Rightarrow> nat \<Rightarrow> lite_err" where
  "boolErr op off = evalErr (sq op @ '' needs bool operands'') off"

text \<open>
  \<open>evalLogical\<close> gets its right operand as the result of evaluating it, which the code computes
  only on the branch that returns it.
\<close>

definition evalLogical :: "string \<Rightarrow> operand \<Rightarrow> operand lres \<Rightarrow> nat \<Rightarrow> operand lres" where
  "evalLogical op l right off =
     (case l of
        OBool lb \<Rightarrow>
          (if (op = ''and'' \<and> \<not> lb) \<or> (op = ''or'' \<and> lb) then Inr (OBool lb)
           else (case right of
                   Inl e \<Rightarrow> Inl e
                 | Inr (OBool rb) \<Rightarrow> Inr (OBool rb)
                 | Inr _ \<Rightarrow> Inl (boolErr op off)))
      | _ \<Rightarrow> Inl (boolErr op off))"

definition len_arg_ref :: "node \<Rightarrow> string option" where
  "len_arg_ref n = (case n of refNode path _ \<Rightarrow> Some path | _ \<Rightarrow> None)"

text \<open>
  \<^verbatim>\<open>evalBinary\<close>, \<^verbatim>\<open>evalLen\<close> and \<^verbatim>\<open>evalCall\<close> likewise take the results of evaluating their operands;
  a result the code would not compute is not looked at.
\<close>

definition evalBinary :: "string \<Rightarrow> operand lres \<Rightarrow> operand lres \<Rightarrow> nat \<Rightarrow> operand lres" where [simp]:
  "evalBinary op left right off =
     (case left of
        Inl e \<Rightarrow> Inl e
      | Inr l \<Rightarrow>
          (if op = ''and'' \<or> op = ''or'' then evalLogical op l right off
           else (case right of
                   Inl e \<Rightarrow> Inl e
                 | Inr r \<Rightarrow> if op \<in> set comparisonOps then compare op l r off else arithmetic op l r off)))"

definition evalLen :: "source \<Rightarrow> node \<Rightarrow> operand lres \<Rightarrow> nat \<Rightarrow> operand lres" where [simp]:
  "evalLen src arg res off =
     (if len_arg_ref arg \<noteq> None then lenOfRef src (the (len_arg_ref arg)) off
      else (case res of
              Inl e \<Rightarrow> Inl e
            | Inr v \<Rightarrow> (case v of OStr s \<Rightarrow> Inr (rune_count_num s) | _ \<Rightarrow> Inl (lenErr off))))"

definition evalCall :: "source \<Rightarrow> string \<Rightarrow> node \<Rightarrow> operand lres \<Rightarrow> nat \<Rightarrow> operand lres" where [simp]:
  "evalCall src name arg res off =
     (if name = ''has'' then (case res of Inl e \<Rightarrow> Inl e | Inr v \<Rightarrow> evalHas src v off)
      else if name = ''len'' then evalLen src arg res off
      else (case res of Inl e \<Rightarrow> Inl e | Inr v \<Rightarrow> evalTime src v off))"

fun eval :: "source \<Rightarrow> node \<Rightarrow> operand lres" where
  "eval src (litNode v off) = Inr v"
| "eval src (refNode path off) = readRef src path off"
| "eval src (unaryNode a op off) =
     (case eval src a of Inl e \<Rightarrow> Inl e | Inr v \<Rightarrow> evalUnary op v off)"
| "eval src (binNode a b op off) = evalBinary op (eval src a) (eval src b) off"
| "eval src (callNode a name off) = evalCall src name a (eval src a) off"

section \<open>The engine\<close>

text \<open>
  A formal expression as \<^verbatim>\<open>Evaluate\<close> sees it: its text body if it is a \<^verbatim>\<open>data.BodyHolder\<close>, and
  the declared result type, empty when undeclared. A nil expression or source is \<open>None\<close>.
\<close>

record formal_expr =
  fe_body :: "string option"
  fe_result :: string

definition liteErr0 :: "errcode \<Rightarrow> string \<Rightarrow> lite_err" where
  "liteErr0 c m = LiteErr c m None None"

definition checkedResult :: "operand \<Rightarrow> string \<Rightarrow> formal_expr \<Rightarrow> operand lres" where
  "checkedResult v produced expr =
     (if fe_result expr \<noteq> [] \<and> fe_result expr \<noteq> produced then
        Inl (liteErr0 TypeCastingError ''the produced result type doesn't match the declared one'')
      else Inr v)"

definition packResult :: "operand \<Rightarrow> formal_expr \<Rightarrow> operand lres" where
  "packResult v expr =
     (case v of
        OBool _ \<Rightarrow> checkedResult v ''bool'' expr
      | ONum _ \<Rightarrow> checkedResult v ''float64'' expr
      | OStr _ \<Rightarrow> checkedResult v ''string'' expr
      | OTime _ \<Rightarrow> checkedResult v ''Time'' expr
      | ONil \<Rightarrow> Inl (liteErr0 InvalidState ''the expression produced no value (nil)''))"

definition Evaluate :: "formal_expr option \<Rightarrow> source option \<Rightarrow> operand lres" where
  "Evaluate expr src =
     (case expr of
        None \<Rightarrow> Inl (liteErr0 EmptyNotAllowed ''Evaluate: a nil FormalExpression isn't allowed'')
      | Some ex \<Rightarrow>
          (case src of
             None \<Rightarrow> Inl (liteErr0 EmptyNotAllowed ''Evaluate: a nil data Source isn't allowed'')
           | Some s \<Rightarrow>
               (case fe_body ex of
                  None \<Rightarrow> Inl (liteErr0 InvalidObject
                    ''Evaluate: the expression carries no text body (data.BodyHolder)'')
                | Some body \<Rightarrow>
                    (case parse body of
                       Inl e \<Rightarrow> Inl e
                     | Inr ast \<Rightarrow>
                         (case eval s ast of Inl e \<Rightarrow> Inl e | Inr v \<Rightarrow> packResult v ex)))))"

section \<open>Kinds\<close>

text \<open>
  A static reading of the rules the evaluator enforces dynamically: \<open>G\<close> gives the kind of a data
  reference, \<open>cnt\<close> the references that name a collection.
\<close>

datatype kind = KNil | KBool | KStr | KNum | KTime

fun kind_of :: "operand \<Rightarrow> kind" where
  "kind_of ONil = KNil"
| "kind_of (OBool _) = KBool"
| "kind_of (OStr _) = KStr"
| "kind_of (ONum _) = KNum"
| "kind_of (OTime _) = KTime"

definition eq_op :: "string \<Rightarrow> bool" where
  "eq_op op \<longleftrightarrow> op = ''=='' \<or> op = ''!=''"

definition bin_kind :: "string \<Rightarrow> kind \<Rightarrow> kind \<Rightarrow> kind option" where
  "bin_kind op l r =
     (if op = ''and'' \<or> op = ''or'' then (if l = KBool \<and> r = KBool then Some KBool else None)
      else if op \<in> set comparisonOps then
        (if l = KNil \<or> r = KNil then (if eq_op op then Some KBool else None)
         else if l \<noteq> r then None
         else if l = KBool \<and> \<not> eq_op op then None
         else Some KBool)
      else if op = ''+'' \<and> l = KStr \<and> r = KStr then Some KStr
      else if l = KNum \<and> r = KNum then Some KNum
      else None)"

definition call_kind :: "string \<Rightarrow> kind \<Rightarrow> kind option" where
  "call_kind name k =
     (if k \<noteq> KStr then None
      else if name = ''has'' then Some KBool
      else if name = ''len'' then Some KNum
      else Some KTime)"

fun node_kind :: "(string \<Rightarrow> kind option) \<Rightarrow> (string \<Rightarrow> bool) \<Rightarrow> node \<Rightarrow> kind option" where
  "node_kind G cnt (litNode v off) = Some (kind_of v)"
| "node_kind G cnt (refNode path off) = G path"
| "node_kind G cnt (unaryNode a op off) =
     (case node_kind G cnt a of
        None \<Rightarrow> None
      | Some k \<Rightarrow> if op = ''not'' then (if k = KBool then Some KBool else None)
                   else (if k = KNum then Some KNum else None))"
| "node_kind G cnt (binNode a b op off) =
     (case (node_kind G cnt a, node_kind G cnt b) of
        (Some l, Some r) \<Rightarrow> bin_kind op l r
      | _ \<Rightarrow> None)"
| "node_kind G cnt (callNode a name off) =
     (if name = ''len'' \<and> len_arg_ref a \<noteq> None \<and> cnt (the (len_arg_ref a)) then Some KNum
      else (case node_kind G cnt a of None \<Rightarrow> None | Some k \<Rightarrow> call_kind name k))"

definition conforms :: "source \<Rightarrow> (string \<Rightarrow> kind option) \<Rightarrow> (string \<Rightarrow> bool) \<Rightarrow> bool" where
  "conforms src G cnt \<longleftrightarrow>
     (\<forall>p k. G p = Some k \<longrightarrow> (\<exists>d v. src_find src p = Inr d \<and> normalize (d_raw d) p 0 = Inr v \<and> kind_of v = k)) \<and>
     (\<forall>p. cnt p \<longrightarrow> (\<exists>d. src_find src p = Inr d \<and> (d_count d \<noteq> None \<or> d_keys d \<noteq> None)))"

definition benign :: "lite_err \<Rightarrow> bool" where
  "benign e \<longleftrightarrow> (\<exists>off. e = timeErr off \<or> (\<exists>op. e = divZeroErr op off))"

definition kind_ok :: "kind \<Rightarrow> operand lres \<Rightarrow> bool" where
  "kind_ok k res = (case res of Inr v \<Rightarrow> kind_of v = k | Inl e \<Rightarrow> benign e)"

lemma kind_of_simps:
  "kind_of v = KNil \<longleftrightarrow> v = ONil" "kind_of v = KBool \<longleftrightarrow> (\<exists>b. v = OBool b)"
  "kind_of v = KStr \<longleftrightarrow> (\<exists>s. v = OStr s)" "kind_of v = KNum \<longleftrightarrow> (\<exists>x. v = ONum x)"
  "kind_of v = KTime \<longleftrightarrow> (\<exists>t. v = OTime t)"
  by (cases v; simp)+

lemma kind_okE:
  assumes "kind_ok k res"
  obtains v where "res = Inr v" "kind_of v = k" | e where "res = Inl e" "benign e"
  using assms by (auto simp: kind_ok_def split: sum.splits)

lemma normalize_off: "normalize r p off = Inr v \<longleftrightarrow> normalize r p 0 = Inr v"
  by (cases r) auto

lemma readRef_kind: "conforms src G cnt \<Longrightarrow> G p = Some k \<Longrightarrow> kind_ok k (readRef src p off)"
proof -
  assume "conforms src G cnt" "G p = Some k"
  then obtain d v where "src_find src p = Inr d" "normalize (d_raw d) p off = Inr v" "kind_of v = k"
    unfolding conforms_def using normalize_off[of _ p off] by blast
  then show ?thesis by (simp add: kind_ok_def readRef_def)
qed

lemma compare_kind:
  assumes "op \<in> set comparisonOps" and "bin_kind op (kind_of l) (kind_of r) = Some k"
  shows "kind_ok k (compare op l r off)"
proof -
  have ne: "op \<noteq> ''and''" "op \<noteq> ''or''" using assms(1) by (auto simp: comparisonOps_def)
  show ?thesis using assms ne
    by (cases l; cases r)
      (auto simp: compare_def compareBools_def bin_kind_def eq_op_def kind_ok_def split: if_splits)
qed

lemma arithmetic_kind:
  assumes "op \<notin> set comparisonOps" and "op \<noteq> ''and''" and "op \<noteq> ''or''"
    and "bin_kind op (kind_of l) (kind_of r) = Some k"
  shows "kind_ok k (arithmetic op l r off)"
  using assms
  by (cases l; cases r) (auto simp: arithmetic_def bin_kind_def kind_ok_def benign_def split: if_splits)

lemma evalLogical_kind:
  assumes "op = ''and'' \<or> op = ''or''" and "bin_kind op (kind_of l) kr = Some k" and "kind_ok kr right"
  shows "kind_ok k (evalLogical op l right off)"
proof -
  have l: "\<exists>b. l = OBool b" "kr = KBool" "k = KBool" using assms(1,2) kind_of_simps(2)
    by (auto simp: bin_kind_def split: if_splits)
  from assms(3) show ?thesis
    by (cases rule: kind_okE) (use l in \<open>auto simp: kind_ok_def evalLogical_def kind_of_simps\<close>)
qed

lemma evalUnary_kind:
  "(if op = ''not'' then (if kind_of v = KBool then Some KBool else None)
    else (if kind_of v = KNum then Some KNum else None)) = Some k \<Longrightarrow> kind_ok k (evalUnary op v off)"
  by (cases v) (auto simp: evalUnary_def kind_ok_def split: if_splits)

lemma lenOfRef_collection: "conforms src G cnt \<Longrightarrow> cnt p \<Longrightarrow> kind_ok KNum (lenOfRef src p off)"
  unfolding conforms_def kind_ok_def lenOfRef_def by (fastforce split: option.splits)

lemma lenOfRef_string:
  assumes "conforms src G cnt" and "G p = Some KStr"
  shows "kind_ok KNum (lenOfRef src p off)"
proof -
  obtain d v where d: "src_find src p = Inr d" "normalize (d_raw d) p 0 = Inr v" "kind_of v = KStr"
    using assms unfolding conforms_def by blast
  obtain t where "d_raw d = RString t" using d(2,3) by (cases "d_raw d") auto
  then show ?thesis using d(1) by (auto simp: lenOfRef_def kind_ok_def rune_count_num_def split: option.splits)
qed

lemma eval_kind:
  assumes "conforms src G cnt"
  shows "node_kind G cnt n = Some k \<Longrightarrow> kind_ok k (eval src n)"
proof (induction n arbitrary: k)
  case (litNode v off)
  then show ?case by (simp add: kind_ok_def)
next
  case (refNode path off)
  then show ?case using readRef_kind[OF assms] by simp
next
  case (unaryNode a op off)
  then obtain ka where ka: "node_kind G cnt a = Some ka" by (auto split: option.splits)
  from unaryNode.IH[OF ka] show ?case
  proof (cases rule: kind_okE)
    case (1 v)
    have "kind_ok k (evalUnary op v off)" by (rule evalUnary_kind) (use unaryNode.prems ka 1 in \<open>auto split: if_splits\<close>)
    then show ?thesis using 1 by simp
  qed (simp add: kind_ok_def)
next
  case (binNode a b op off)
  then obtain ka kb where k: "node_kind G cnt a = Some ka" "node_kind G cnt b = Some kb"
    and bk: "bin_kind op ka kb = Some k" by (auto split: option.splits)
  note rb = binNode.IH(2)[OF k(2)]
  from binNode.IH(1)[OF k(1)] show ?case
  proof (cases rule: kind_okE)
    case (1 l)
    show ?thesis
    proof (cases "op = ''and'' \<or> op = ''or''")
      case True
      then show ?thesis using evalLogical_kind[OF True, of l kb k "eval src b"] bk 1 rb by auto
    next
      case False
      from rb show ?thesis
      proof (cases rule: kind_okE)
        case (1 r)
        then show ?thesis using compare_kind[of op l r k off] arithmetic_kind[of op l r k off] bk
            \<open>eval src a = Inr l\<close> \<open>kind_of l = ka\<close> False by auto
      qed (use 1 False in \<open>simp add: kind_ok_def\<close>)
    qed
  qed (simp add: kind_ok_def)
next
  case (callNode a name off)
  show ?case
  proof (cases "name = ''len'' \<and> len_arg_ref a \<noteq> None")
    case True
    then obtain p off' where a: "a = refNode p off'" "name = ''len''"
      by (auto simp: len_arg_ref_def split: node.splits)
    show ?thesis
    proof (cases "cnt p")
      case True
      then show ?thesis using callNode.prems a lenOfRef_collection[OF assms] by (simp add: len_arg_ref_def)
    next
      case False
      then have "G p = Some KStr" "k = KNum" using callNode.prems a
        by (auto simp: len_arg_ref_def call_kind_def split: option.splits if_splits)
      then show ?thesis using a lenOfRef_string[OF assms] by (simp add: len_arg_ref_def)
    qed
  next
    case False
    then obtain ka where ka: "node_kind G cnt a = Some ka" and ck: "call_kind name ka = Some k"
      using callNode.prems by (auto split: option.splits if_splits)
    from callNode.IH[OF ka] show ?thesis
    proof (cases rule: kind_okE)
      case (1 v)
      then obtain s where "v = OStr s" using ck by (cases v) (auto simp: call_kind_def split: if_splits)
      then show ?thesis using False 1 ck
        by (auto simp: call_kind_def kind_ok_def evalHas_def evalTime_def rune_count_num_def benign_def
            split: if_splits sum.splits option.splits)
    qed (use False in \<open>auto simp: kind_ok_def\<close>)
  qed
qed

fun kind_name :: "kind \<Rightarrow> string" where
  "kind_name KNil = ''nil''"
| "kind_name KBool = ''bool''"
| "kind_name KStr = ''string''"
| "kind_name KNum = ''float64''"
| "kind_name KTime = ''Time''"

lemma packResult_kind:
  "kind_of v \<noteq> KNil \<Longrightarrow> packResult v ex =
     (if fe_result ex \<in> {[], kind_name (kind_of v)} then Inr v
      else Inl (liteErr0 TypeCastingError ''the produced result type doesn't match the declared one''))"
  by (cases v) (auto simp: packResult_def checkedResult_def)

text \<open>
  Claim C36. Kind soundness of the language: if the data conforms to its declared kinds and the
  parsed body has the kind \<open>k\<close> under them, then evaluating the body against a declared result type
  that is empty or \<open>k\<close> yields a value of kind \<open>k\<close>, or fails by dividing by zero or by a text that
  is no RFC 3339 time; no operand, reference or result error can occur.
\<close>

theorem lite_kind_sound:
  assumes "conforms src G cnt" and "parse body = Inr n" and "node_kind G cnt n = Some k" and "k \<noteq> KNil"
    and "res \<in> {[], kind_name k}"
  shows "case Evaluate (Some \<lparr>fe_body = Some body, fe_result = res\<rparr>) (Some src) of
           Inr v \<Rightarrow> kind_of v = k
         | Inl e \<Rightarrow> (\<exists>off. e = timeErr off \<or> (\<exists>op. e = divZeroErr op off))"
  using eval_kind[OF assms(1,3)]
proof (cases rule: kind_okE)
  case (1 v)
  then show ?thesis using assms(2,4,5) packResult_kind[of v] by (auto simp: Evaluate_def)
next
  case (2 e)
  then show ?thesis using assms(2) by (simp add: Evaluate_def benign_def)
qed

definition sample_source :: source where
  "sample_source = \<lparr>src_find = (\<lambda>p. if p = ''n'' then Inr \<lparr>d_raw = RInt 4, d_count = None, d_keys = None\<rparr>
                     else Inl (AppError ObjectNotFound ''no datum'')), src_time = (\<lambda>_. None)\<rparr>"

lemma sample_conforms: "conforms sample_source [''n'' \<mapsto> KNum] (\<lambda>_. False)"
  by (auto simp: conforms_def sample_source_def split: if_splits)

lemma sample_parse:
  "parse ''n < 5'' = Inr (binNode (refNode ''n'' 0) (litNode (ONum (Fin 5)) 4) ''<'' 2)"
  by code_simp

theorem lite_kind_sound_witness:
  "case Evaluate (Some \<lparr>fe_body = Some ''n < 5'', fe_result = ''bool''\<rparr>) (Some sample_source) of
     Inr v \<Rightarrow> kind_of v = KBool
   | Inl e \<Rightarrow> (\<exists>off. e = timeErr off \<or> (\<exists>op. e = divZeroErr op off))"
  using lite_kind_sound[OF sample_conforms sample_parse, of KBool "''bool''"]
  by (simp add: bin_kind_def comparisonOps_def)

section \<open>Anchored errors\<close>

fun offsets :: "node \<Rightarrow> nat set" where
  "offsets (litNode v off) = {off}"
| "offsets (refNode p off) = {off}"
| "offsets (callNode a f off) = insert off (offsets a)"
| "offsets (unaryNode a op off) = insert off (offsets a)"
| "offsets (binNode a b op off) = insert off (offsets a \<union> offsets b)"

lemma gram_offsets: "gram L p n \<Longrightarrow> offsets n \<subseteq> t_off ` set p"
  by (induction rule: gram.induct) auto

lemma parse_offsets:
  assumes "parse body = Inr n" and "k \<in> offsets n"
  shows "k < length body"
proof -
  obtain ts where ts: "lex body = Inr ts" and p: "parse_tokens ts = Inr n"
    using assms(1) by (auto simp: parse_def split: sum.splits)
  obtain us where us: "ts = us @ [mk_token tkEOF [] (length body)]" and
    nf: "\<And>u. u \<in> set us \<Longrightarrow> t_kind u \<noteq> tkEOF \<and> t_off u < length body"
    using lex_shape[OF ts] by blast
  have "gram LOr us n" using parse_tokens_sound[of us _ n] p us nf by (simp add: mk_token_def)
  then show ?thesis using gram_offsets nf assms(2) by blast
qed

lemma le_off_err [simp]:
  "le_off (evalErr m k) = Some k" "le_off (readErr k c) = Some k" "le_off (timeErr k) = Some k"
  "le_off (lenErr k) = Some k" "le_off (boolErr op k) = Some k" "le_off (crossKind op k) = Some k"
  "le_off (divZeroErr op k) = Some k"
  by (simp_all add: evalErr_def readErr_def timeErr_def lenErr_def boolErr_def crossKind_def divZeroErr_def)

lemma operator_off:
  "compare op l r off = Inl e \<Longrightarrow> le_off e = Some off"
  "arithmetic op l r off = Inl e \<Longrightarrow> le_off e = Some off"
  "evalUnary op l off = Inl e \<Longrightarrow> le_off e = Some off"
  "evalHas src l off = Inl e \<Longrightarrow> le_off e = Some off"
  "evalTime src l off = Inl e \<Longrightarrow> le_off e = Some off"
  by (auto simp: compare_def compareBools_def arithmetic_def Let_def evalUnary_def evalHas_def evalTime_def
      split: if_splits operand.splits sum.splits option.splits)

lemma read_off:
  "readRef src p off = Inl e \<Longrightarrow> le_off e = Some off"
  "lenOfRef src p off = Inl e \<Longrightarrow> le_off e = Some off"
  by (auto simp: readRef_def lenOfRef_def split: sum.splits option.splits raw.splits elim!: normalize.elims)

lemma evalLogical_off:
  "evalLogical op l right off = Inl e \<Longrightarrow> le_off e = Some off \<or> right = Inl e"
  by (auto simp: evalLogical_def split: if_splits operand.splits sum.splits)

lemma eval_off: "eval src n = Inl e \<Longrightarrow> \<exists>k\<in>offsets n. le_off e = Some k"
proof (induction n arbitrary: e)
  case (callNode a name off)
  then show ?case
    by (auto dest!: operator_off(4,5) read_off(2) split: if_splits sum.splits operand.splits)
next
  case (binNode a b op off)
  then show ?case
    by (auto dest!: operator_off(1,2) evalLogical_off split: if_splits sum.splits)
next
  case (unaryNode a op off)
  then show ?case by (auto dest!: operator_off(3) split: sum.splits)
qed (auto dest!: read_off(1))

text \<open>
  Every evaluation error is anchored: once a body has parsed, an error of the evaluator
  carries the offset of a byte of that body.
\<close>

theorem eval_error_anchored:
  assumes "parse body = Inr n" and "eval src n = Inl e"
  shows "\<exists>k < length body. le_off e = Some k"
  using eval_off[OF assms(2)] parse_offsets[OF assms(1)] by blast

lemma parse_missing: "parse ''x'' = Inr (refNode ''x'' 0)"
  by code_simp

theorem eval_error_anchored_witness:
  "\<exists>k < length ''x''. le_off (readErr 0 (AppError ObjectNotFound ''no datum'')) = Some k"
  using eval_error_anchored[OF parse_missing, of sample_source] by (simp add: readRef_def sample_source_def)

section \<open>Comparison\<close>

lemma compare_num:
  "compare op (ONum x) (ONum y) off = Inr (OBool (ordered op (feq x y) (flt x y)))"
  by (simp add: compare_def)

definition int_cmp :: "string \<Rightarrow> int \<Rightarrow> int \<Rightarrow> bool" where
  "int_cmp op a b =
     (if op = ''=='' then a = b
      else if op = ''!='' then a \<noteq> b
      else if op = ''<'' then a < b
      else if op = ''<='' then a \<le> b
      else if op = ''>'' then b < a
      else b \<le> a)"

lemma fofint_order:
  assumes "\<bar>a\<bar> < 2 ^ 53" and "\<bar>b\<bar> < 2 ^ 53"
  shows "feq (fofint a) (fofint b) \<longleftrightarrow> a = b" and "flt (fofint a) (fofint b) \<longleftrightarrow> a < b"
  by (simp_all add: fofint_exact[OF assms(1)] fofint_exact[OF assms(2)])

text \<open>
  The numeric unification is exact for integers of magnitude below \<open>2^53\<close>: reading two
  such integer data and comparing them with any of the six operators gives the comparison of the
  integers, whatever Go integer types they had.
\<close>

theorem integer_compare_exact:
  assumes "\<bar>a\<bar> < 2 ^ 53" and "\<bar>b\<bar> < 2 ^ 53"
    and "src_find src p = Inr \<lparr>d_raw = RInt a, d_count = c, d_keys = ks\<rparr>"
    and "src_find src q = Inr \<lparr>d_raw = RInt b, d_count = c', d_keys = ks'\<rparr>"
    and "op \<in> set comparisonOps"
  shows "eval src (binNode (refNode p i) (refNode q j) op off) = Inr (OBool (int_cmp op a b))"
proof -
  have "op \<noteq> ''and''" "op \<noteq> ''or''" using assms(5) by (auto simp: comparisonOps_def)
  moreover have "ordered op (feq (fofint a) (fofint b)) (flt (fofint a) (fofint b)) = int_cmp op a b"
    unfolding fofint_order[OF assms(1,2)] by (auto simp: ordered_def int_cmp_def)
  ultimately show ?thesis using assms(3-5) by (simp add: readRef_def compare_num)
qed

theorem integer_compare_exact_witness:
  "eval sample_source (binNode (refNode ''n'' 0) (refNode ''n'' 5) ''>='' 2) = Inr (OBool (int_cmp ''>='' 4 4))"
  using integer_compare_exact[of 4 4 sample_source "''n''" None None "''n''" None None "''>=''" 0 5 2]
  by (simp add: sample_source_def comparisonOps_def)

text \<open>
  On numbers other than NaN the comparison operators are those of one linear order:
  greater is less with the operands swapped, each weak comparison is the negation of the opposite
  strict one, and exactly one of less, equal and greater holds.
\<close>

theorem number_order_coherent:
  assumes "x \<noteq> NaN" and "y \<noteq> NaN"
  shows "compare ''>'' (ONum x) (ONum y) off = compare ''<'' (ONum y) (ONum x) off \<and>
         compare ''>='' (ONum x) (ONum y) off = compare ''<='' (ONum y) (ONum x) off \<and>
         length (filter (\<lambda>op. compare op (ONum x) (ONum y) off = Inr (OBool True)) [''<'', ''=='', ''>'']) = 1"
  using feq_flt_trichotomy[OF assms] flt_not_sym[of x y] flt_not_sym[of y x] feq_sym[of x y]
  by (auto simp: compare_num ordered_def)

theorem number_order_coherent_witness:
  "compare ''>'' (ONum (Inf False)) (ONum (Fin 3)) 0 = compare ''<'' (ONum (Fin 3)) (ONum (Inf False)) 0"
  using number_order_coherent[of "Inf False" "Fin 3" 0] by simp

text \<open>
  With a NaN operand the operators are not those of IEEE 754: neither operand is less
  than the other or equal to it, yet each is reported greater than the other, in both directions,
  and so is greater-or-equal. A NaN arises inside the language as the difference of two infinite
  numbers.
\<close>

theorem nan_greater_both_ways:
  "fsub (Inf s) (Inf s) = NaN \<and>
   compare ''>'' (ONum NaN) (ONum x) off = Inr (OBool True) \<and>
   compare ''>'' (ONum x) (ONum NaN) off = Inr (OBool True) \<and>
   compare ''>='' (ONum x) (ONum NaN) off = Inr (OBool True) \<and>
   compare ''<'' (ONum x) (ONum NaN) off = Inr (OBool False) \<and>
   compare ''=='' (ONum x) (ONum NaN) off = Inr (OBool False)"
  by (cases x) (simp_all add: compare_num ordered_def fsub_def)

end
