(* ===== verification/Data_Path.thy ===== *)
theory Data_Path
  imports Gobpm_Prelude "HOL-Library.Sublist"
begin

text \<open>
  Structural paths (\<^verbatim>\<open>src/pkg/model/data/path.go\<close>, \<^verbatim>\<open>name.go\<close>): splitting a path into its steps,
  rendering a map key, and the overlap test that decides which data changes concern which
  dependencies. A \<^verbatim>\<open>Step\<close> is discriminated by its non-empty \<^verbatim>\<open>Field\<close> or \<^verbatim>\<open>Key\<close>, as in the code. The
  message of an error is the format string of the code.

  The lemmas show that every well-formed path is read back from its text, and that two paths
  overlap exactly when the steps of one are a prefix of the steps of the other.
\<close>

section \<open>Names and steps\<close>

definition reservedNameChars :: "char list" where
  "reservedNameChars = [CHR ''/'', CHR ''.'', CHR ''['', CHR '']'']"

definition CheckName :: "string \<Rightarrow> unit result" where
  "CheckName name =
     (if list_all (\<lambda>c. c \<notin> set reservedNameChars) name then Inr ()
      else Inl (AppError InvalidParameter ''data name %q must not contain the reserved character %q''))"

definition structural :: "char \<Rightarrow> bool" where
  "structural c \<longleftrightarrow> c = CHR ''.'' \<or> c = CHR ''[''"

record step =
  st_field :: string
  st_key :: string
  st_index :: nat

definition field_step :: "string \<Rightarrow> step" where
  "field_step f = \<lparr>st_field = f, st_key = [], st_index = 0\<rparr>"

definition key_step :: "string \<Rightarrow> step" where
  "key_step k = \<lparr>st_field = [], st_key = k, st_index = 0\<rparr>"

definition index_step :: "nat \<Rightarrow> step" where
  "index_step i = \<lparr>st_field = [], st_key = [], st_index = i\<rparr>"

definition isField :: "step \<Rightarrow> bool" where
  "isField s \<longleftrightarrow> st_field s \<noteq> []"

definition isKey :: "step \<Rightarrow> bool" where
  "isKey s \<longleftrightarrow> st_key s \<noteq> []"

definition pathErr :: "string \<Rightarrow> app_error" where
  "pathErr format = AppError InvalidParameter format"

section \<open>Reading a path\<close>

abbreviation dquote :: char where
  "dquote \<equiv> CHR 0x22"

text \<open>The scan of \<^verbatim>\<open>keyStep\<close> after the opening quote: the key and what follows the closing quote.\<close>

fun key_scan :: "string \<Rightarrow> string \<Rightarrow> (string \<times> string) result" where
  "key_scan b [] = Inl (pathErr ''unclosed map key in %q'')"
| "key_scan b (c # r) =
     (if c = bslash then
        (case r of
           d # r' \<Rightarrow>
             (if d = dquote \<or> d = bslash then key_scan (b @ [d]) r'
              else Inl (pathErr ''bad escape in a map key in %q''))
         | [] \<Rightarrow> Inl (pathErr ''bad escape in a map key in %q''))
      else if c = dquote then Inr (b, r)
      else key_scan (b @ [c]) r)"

definition keyStep :: "string \<Rightarrow> (step \<times> string) result" where
  "keyStep rest =
     (case key_scan [] (drop 2 rest) of
        Inl e \<Rightarrow> Inl e
      | Inr (key, r) \<Rightarrow>
          (if r = [] \<or> hd r \<noteq> CHR '']'' then Inl (pathErr (''missing '' @ sq '']'' @ '' after a map key in %q''))
           else if key = [] then Inl (pathErr ''an empty map key in %q'')
           else Inr (key_step key, tl r)))"

definition nextStep :: "string \<Rightarrow> (step \<times> string) result" where
  "nextStep rest =
     (if hd rest = CHR ''.'' then
        (let name = takeWhile (\<lambda>c. \<not> structural c) (tl rest);
             r = dropWhile (\<lambda>c. \<not> structural c) (tl rest)
         in if name = [] \<or> CHR '']'' \<in> set name then Inl (pathErr ''malformed field step in %q'')
            else Inr (field_step name, r))
      else if hd rest = CHR ''['' then
        (if 1 < length rest \<and> rest ! 1 = dquote then keyStep rest
         else
           (let txt = takeWhile (\<lambda>c. c \<noteq> CHR '']'') (tl rest);
                r = dropWhile (\<lambda>c. c \<noteq> CHR '']'') (tl rest)
            in if r = [] then Inl (pathErr ''unclosed index in %q'')
               else (case Atoi txt of
                       Some idx \<Rightarrow>
                         (if idx < 0 then Inl (pathErr ''bad index %q in %q'')
                          else Inr (index_step (nat idx), tl r))
                     | None \<Rightarrow> Inl (pathErr ''bad index %q in %q''))))
      else Inl (pathErr ''unexpected character %q in %q''))"

lemma key_scan_shorter: "key_scan b bs = Inr (k, r) \<Longrightarrow> length r < length bs"
proof (induction b bs rule: key_scan.induct)
  case (2 b c r')
  then show ?case by (cases r') (auto split: if_splits)
qed simp

lemma nextStep_shorter: "nextStep rest = Inr (s, r) \<Longrightarrow> rest \<noteq> [] \<Longrightarrow> length r < length rest"
  using length_dropWhile_le[of "\<lambda>c. \<not> structural c" "tl rest"]
    length_dropWhile_le[of "\<lambda>c. c \<noteq> CHR '']''" "tl rest"]
  by (cases rest)
    (auto simp: nextStep_def keyStep_def Let_def split: if_splits option.splits sum.splits
      dest!: key_scan_shorter)

text \<open>The loop \<^verbatim>\<open>for rest != ""\<close> that \<^verbatim>\<open>SplitPath\<close> and \<^verbatim>\<open>ParsePath\<close> share.\<close>

function steps_loop :: "string \<Rightarrow> step list \<Rightarrow> step list result" where
  "steps_loop rest steps =
     (if rest = [] then Inr steps
      else (case nextStep rest of
              Inl e \<Rightarrow> Inl e
            | Inr (s, r) \<Rightarrow> steps_loop r (steps @ [s])))"
  by pat_completeness auto
termination
  by (relation "measure (\<lambda>(rest, steps). length rest)") (auto dest: nextStep_shorter)

declare steps_loop.simps [simp del]

definition SplitPath :: "string \<Rightarrow> (string \<times> step list) result" where
  "SplitPath path =
     (let head = takeWhile (\<lambda>c. \<not> structural c) path;
          rest = dropWhile (\<lambda>c. \<not> structural c) path
      in if rest = [] then Inr (path, [])
         else if CHR '']'' \<in> set head \<or> head = [] then Inl (pathErr ''malformed path head %q'')
         else (case steps_loop rest [] of Inl e \<Rightarrow> Inl e | Inr steps \<Rightarrow> Inr (head, steps)))"

definition ParsePath :: "string \<Rightarrow> step list result" where
  "ParsePath path =
     (if path = [] then Inr []
      else if hd path = CHR ''['' then steps_loop path []
      else (case SplitPath path of
              Inl e \<Rightarrow> Inl e
            | Inr (head, steps) \<Rightarrow> Inr (field_step head # steps)))"

section \<open>Overlap\<close>

definition overlapSteps :: "string \<Rightarrow> step list result" where
  "overlapSteps path =
     (if path = [] then Inl (pathErr ''an empty path isn't allowed'') else ParsePath path)"

fun match_short :: "step list \<Rightarrow> step list \<Rightarrow> nat list \<Rightarrow> bool" where
  "match_short as bs [] = True"
| "match_short as bs (i # is) = (if as ! i \<noteq> bs ! i then False else match_short as bs is)"

definition PathsOverlap :: "string \<Rightarrow> string \<Rightarrow> bool result" where
  "PathsOverlap a b =
     (case overlapSteps a of
        Inl e \<Rightarrow> Inl e
      | Inr as \<Rightarrow>
          (case overlapSteps b of
             Inl e \<Rightarrow> Inl e
           | Inr bs \<Rightarrow>
               (let short = (if length bs < length as then bs else as)
                in Inr (match_short as bs [0..<length short]))))"

section \<open>Writing a path\<close>

text \<open>\<^verbatim>\<open>keyEscaper.Replace\<close>: the backslash and the double quote are escaped.\<close>

fun escape_key :: "string \<Rightarrow> string" where
  "escape_key [] = []"
| "escape_key (c # s) = (if c = bslash \<or> c = dquote then [bslash, c] else [c]) @ escape_key s"

definition KeyLabel :: "string \<Rightarrow> string" where
  "KeyLabel key = [CHR ''['', dquote] @ escape_key key @ [dquote, CHR '']'']"

definition indexLabel :: "nat \<Rightarrow> string" where
  "indexLabel i = ''['' @ Itoa i @ '']''"

text \<open>The text of a step, as the diff and the shape walk write it.\<close>

definition render_step :: "step \<Rightarrow> string" where
  "render_step s =
     (if isField s then CHR ''.'' # st_field s
      else if isKey s then KeyLabel (st_key s)
      else indexLabel (st_index s))"

definition legal_name :: "string \<Rightarrow> bool" where
  "legal_name s \<longleftrightarrow> s \<noteq> [] \<and> CheckName s = Inr ()"

definition legal_step :: "step \<Rightarrow> bool" where
  "legal_step s \<longleftrightarrow>
     (\<exists>f. legal_name f \<and> s = field_step f) \<or> (\<exists>k. k \<noteq> [] \<and> s = key_step k) \<or>
     (\<exists>i. i < 2 ^ 63 \<and> s = index_step i)"

lemma legal_step_cases [consumes 1, case_names field key index]:
  assumes "legal_step s"
  obtains f where "legal_name f" "s = field_step f" | k where "k \<noteq> []" "s = key_step k"
    | i where "i < 2 ^ 63" "s = index_step i"
  using assms by (auto simp: legal_step_def)

lemma legal_stepI [simp]:
  "legal_name f \<Longrightarrow> legal_step (field_step f)" "k \<noteq> [] \<Longrightarrow> legal_step (key_step k)"
  "i < 2 ^ 63 \<Longrightarrow> legal_step (index_step i)"
  by (auto simp: legal_step_def)

lemma legal_nameD:
  assumes "legal_name f"
  shows "f \<noteq> []" and "\<forall>c\<in>set f. \<not> structural c" and "CHR '']'' \<notin> set f"
  using assms by (auto simp: legal_name_def CheckName_def reservedNameChars_def structural_def list_all_iff split: if_splits)

lemma render_simps:
  "f \<noteq> [] \<Longrightarrow> render_step (field_step f) = CHR ''.'' # f"
  "k \<noteq> [] \<Longrightarrow> render_step (key_step k) = KeyLabel k"
  "render_step (index_step i) = indexLabel i"
  by (simp_all add: render_step_def isField_def isKey_def field_step_def key_step_def index_step_def)

lemma key_scan_escape: "key_scan b (escape_key k @ dquote # r) = Inr (b @ k, r)"
  by (induction k arbitrary: b) auto

text \<open>What may follow a rendered step: nothing, or the structural character of the next one.\<close>

definition step_follow :: "string \<Rightarrow> bool" where
  "step_follow r \<longleftrightarrow> r = [] \<or> structural (hd r)"

lemma takeWhile_name:
  assumes "\<forall>c\<in>set f. \<not> structural c" and "step_follow r"
  shows "takeWhile (\<lambda>c. \<not> structural c) (f @ r) = f" and "dropWhile (\<lambda>c. \<not> structural c) (f @ r) = r"
  using assms by (cases r; auto simp: step_follow_def takeWhile_append)+

lemma digit_not_bracket: "is_digit c \<Longrightarrow> c \<noteq> CHR '']'' \<and> c \<noteq> dquote"
  by (auto simp: is_digit_def byte_def)

lemma nextStep_render:
  assumes "legal_step s" and "step_follow r"
  shows "nextStep (render_step s @ r) = Inr (s, r)"
  using assms(1)
proof (cases rule: legal_step_cases)
  case (field f)
  then show ?thesis using legal_nameD[OF field(1)] takeWhile_name[OF _ assms(2)]
    by (simp add: nextStep_def render_simps Let_def)
next
  case (key k)
  then show ?thesis
    by (simp add: nextStep_def render_simps KeyLabel_def keyStep_def key_scan_escape)
next
  case (index i)
  have d: "\<forall>c\<in>set (Itoa i). c \<noteq> CHR '']''" "Itoa i \<noteq> []" "hd (Itoa i) \<noteq> dquote"
    using Itoa_digits[of i] digit_not_bracket hd_in_set[of "Itoa i"] by (auto simp: list_all_iff)
  have "takeWhile (\<lambda>c. c \<noteq> CHR '']'') (Itoa i @ CHR '']'' # r) = Itoa i"
    "dropWhile (\<lambda>c. c \<noteq> CHR '']'') (Itoa i @ CHR '']'' # r) = CHR '']'' # r"
    using d(1) by (simp_all add: takeWhile_append dropWhile_append)
  then show ?thesis using d Atoi_Itoa[OF index(1)] index(2)
    by (cases "Itoa i") (simp_all add: nextStep_def render_simps indexLabel_def Let_def)
qed

definition render_steps :: "step list \<Rightarrow> string" where
  "render_steps steps = concat (map render_step steps)"

lemma render_steps_simps [simp]:
  "render_steps [] = []" "render_steps (s # ss) = render_step s @ render_steps ss"
  "render_steps (ss @ ss') = render_steps ss @ render_steps ss'"
  by (simp_all add: render_steps_def)

lemma render_step_structural:
  "legal_step s \<Longrightarrow> render_step s \<noteq> [] \<and> structural (hd (render_step s))"
  by (cases rule: legal_step_cases, assumption)
    (auto simp: render_simps KeyLabel_def indexLabel_def structural_def dest: legal_nameD)

lemma step_follow_render: "list_all legal_step ss \<Longrightarrow> step_follow (render_steps ss)"
  using render_step_structural by (cases ss) (auto simp: step_follow_def)

lemma steps_loop_render:
  "list_all legal_step ss \<Longrightarrow> steps_loop (render_steps ss) acc = Inr (acc @ ss)"
proof (induction ss arbitrary: acc)
  case Nil
  then show ?case by (simp add: steps_loop.simps)
next
  case (Cons s ss)
  then show ?case using nextStep_render[of s "render_steps ss"] step_follow_render[of ss]
      render_step_structural[of s]
    by (subst steps_loop.simps) simp
qed

lemma SplitPath_render:
  assumes "legal_name h" and "list_all legal_step ss"
  shows "SplitPath (h @ render_steps ss) = Inr (h, ss)"
  using legal_nameD[OF assms(1)] takeWhile_name[OF _ step_follow_render[OF assms(2)], of h]
    steps_loop_render[OF assms(2), of "[]"] render_step_structural assms(2)
  by (cases ss) (auto simp: SplitPath_def Let_def)

lemma ParsePath_render_name:
  assumes "legal_name h" and "list_all legal_step ss"
  shows "ParsePath (h @ render_steps ss) = Inr (field_step h # ss)"
proof -
  have "h \<noteq> []" "hd h \<noteq> CHR ''[''" using legal_nameD[OF assms(1)] hd_in_set[of h] by (auto simp: structural_def)
  then show ?thesis using SplitPath_render[OF assms] by (simp add: ParsePath_def)
qed

text \<open>
  Paths round-trip: a path written from a legal name and legal steps (fields, quoted map
  keys with any bytes, indexes that fit an \<^verbatim>\<open>int\<close>) splits back into exactly that head and those
  steps, so distinct addresses have distinct texts.
\<close>

theorem path_roundtrip:
  assumes "legal_name h" and "list_all legal_step ss"
  shows "SplitPath (h @ render_steps ss) = Inr (h, ss) \<and>
         ParsePath (h @ render_steps ss) = Inr (field_step h # ss)"
  using SplitPath_render[OF assms] ParsePath_render_name[OF assms] by simp

theorem path_roundtrip_witness:
  "SplitPath (''order'' @ render_steps [field_step ''items'', index_step 12, key_step ''E]R'']) =
     Inr (''order'', [field_step ''items'', index_step 12, key_step ''E]R''])"
  using path_roundtrip[of "''order''" "[field_step ''items'', index_step 12, key_step ''E]R'']"]
  by (simp add: legal_name_def CheckName_def reservedNameChars_def)

lemma match_short_iff: "match_short as bs is \<longleftrightarrow> (\<forall>i\<in>set is. as ! i = bs ! i)"
  by (induction "is") auto

lemma match_short_prefix:
  "match_short as bs [0..<length (if length bs < length as then bs else as)] \<longleftrightarrow> prefix as bs \<or> prefix bs as"
  (is "?l \<longleftrightarrow> ?r")
proof
  assume l: ?l
  show ?r
  proof (cases "length bs < length as")
    case True
    then have "take (length bs) as = bs" using l by (intro nth_equalityI) (auto simp: match_short_iff)
    then show ?thesis by (metis take_is_prefix)
  next
    case False
    then have "take (length as) bs = as" using l by (intro nth_equalityI) (auto simp: match_short_iff)
    then show ?thesis by (metis take_is_prefix)
  qed
next
  assume ?r
  then show ?l by (auto simp: match_short_iff prefix_def nth_append)
qed

lemma PathsOverlap_parsed:
  assumes "a \<noteq> []" and "b \<noteq> []" and "ParsePath a = Inr as" and "ParsePath b = Inr bs"
  shows "PathsOverlap a b = Inr (prefix as bs \<or> prefix bs as)"
  using assms match_short_prefix[of as bs] by (simp add: PathsOverlap_def overlapSteps_def Let_def)

text \<open>
  The overlap test on the paths of two addresses is the ancestor-or-descendant relation:
  it answers yes exactly when the two steps lists, head included, are comparable by prefix, for
  every pair of well-formed addresses, and it never fails on them.
\<close>

theorem paths_overlap_is_prefix:
  assumes "legal_name h" and "list_all legal_step ss" and "legal_name g" and "list_all legal_step rs"
  shows "PathsOverlap (h @ render_steps ss) (g @ render_steps rs) =
         Inr (h = g \<and> (prefix ss rs \<or> prefix rs ss))"
  using PathsOverlap_parsed[OF _ _ ParsePath_render_name[OF assms(1,2)] ParsePath_render_name[OF assms(3,4)]]
    legal_nameD(1)[OF assms(1)] legal_nameD(1)[OF assms(3)]
  by (auto simp: field_step_def)

theorem paths_overlap_is_prefix_witness:
  "PathsOverlap (''order'' @ render_steps []) (''orders'' @ render_steps [index_step 0]) = Inr False"
  using paths_overlap_is_prefix[of "''order''" "[]" "''orders''" "[index_step 0]"]
  by (simp add: legal_name_def CheckName_def reservedNameChars_def)

end
