(* ===== verification/Data_Value.thy ===== *)
theory Data_Value
  imports Data_Path "HOL-Library.Char_ord" "HOL-Library.List_Lexorder"
begin

text \<open>
  Structured values and the operations on them: navigation and the shape walk
  (\<^verbatim>\<open>src/pkg/model/data/path.go\<close>, \<^verbatim>\<open>shape.go\<close>), the commit diff (\<^verbatim>\<open>diff.go\<close>), the dynamic records and
  maps (\<^verbatim>\<open>src/pkg/model/data/values/record.go\<close>, \<^verbatim>\<open>map.go\<close>) and structural writes (\<^verbatim>\<open>setpath.go\<close>).

  A value is a tree: the containers of the code are pointers, and the model assumes that no
  container is reachable at two addresses. \<open>VNil\<close> is a nil value or element, \<open>Scalar\<close> a
  \<^verbatim>\<open>values.Variable\<close>, \<open>Raw\<close> a plain Go value held by a list or a map. The type parameter of a list
  or a map matters only as to whether it is an interface type (\<^verbatim>\<open>data.Value\<close>, \<^verbatim>\<open>any\<close>) or a concrete
  one. The keys of a map are listed in sorted order, as \<^verbatim>\<open>Keys()\<close> does.

  Main results: the diff of two values reports a change at or above every address where they
  differ, and every change it reports is a real one of the reported kind; a structural write is
  read back, keeps every address it does not overlap, and even when it fails keeps the data
  that was there.
\<close>

section \<open>Values\<close>

datatype elemT = Iface | Concrete

datatype 'a val = VNil | Scalar 'a | Raw 'a | Rec "(string \<times> 'a val) list" | Lst elemT "'a val list"
  | MapV elemT "(string \<times> 'a val) list"

text \<open>A value read at a name, and nil where the name is missing.\<close>

definition at_key :: "(string \<times> 'a val) list \<Rightarrow> string \<Rightarrow> 'a val" where
  "at_key fs k = (case map_of fs k of None \<Rightarrow> VNil | Some v \<Rightarrow> v)"

definition at_idx :: "'a val list \<Rightarrow> nat \<Rightarrow> 'a val" where
  "at_idx xs i = (if i < length xs then xs ! i else VNil)"

abbreviation keys_of :: "(string \<times> 'a val) list \<Rightarrow> string list" where
  "keys_of fs \<equiv> map fst fs"

definition map_keys :: "(string \<times> 'a val) list \<Rightarrow> string list" where
  "map_keys es = sort (keys_of es)"

fun kindOf :: "'a val \<Rightarrow> string" where
  "kindOf (Rec _) = ''record''"
| "kindOf (Lst _ _) = ''list''"
| "kindOf (MapV _ _) = ''map''"
| "kindOf _ = ''scalar''"

fun depth :: "'a val \<Rightarrow> nat" where
  "depth (Rec fs) = Suc (foldr (\<lambda>p m. max (depth (snd p)) m) fs 0)"
| "depth (MapV t fs) = Suc (foldr (\<lambda>p m. max (depth (snd p)) m) fs 0)"
| "depth (Lst t xs) = Suc (foldr (\<lambda>x m. max (depth x) m) xs 0)"
| "depth _ = 0"

lemma depth_at_key: "depth (at_key fs k) < depth (Rec fs)" "depth (at_key fs k) < depth (MapV t fs)"
proof -
  have "depth (at_key fs k) \<le> foldr (\<lambda>p m. max (depth (snd p)) m) fs 0"
  proof (cases "map_of fs k")
    case (Some v)
    then show ?thesis using foldr_max_ge[OF map_of_SomeD[OF Some], of "depth \<circ> snd"]
      by (simp add: at_key_def)
  qed (simp add: at_key_def)
  then show "depth (at_key fs k) < depth (Rec fs)" "depth (at_key fs k) < depth (MapV t fs)" by simp_all
qed

lemma depth_at_idx: "depth (at_idx xs i) < depth (Lst t xs)"
  using foldr_max_ge[of "xs ! i" xs depth] by (simp add: at_idx_def less_Suc_eq_le)

section \<open>Navigation\<close>

definition Record_Field :: "(string \<times> 'a val) list \<Rightarrow> string \<Rightarrow> 'a val result" where
  "Record_Field fs name =
     (case map_of fs name of
        None \<Rightarrow> Inl (AppError ObjectNotFound ''record has no field %q'')
      | Some v \<Rightarrow> Inr v)"

definition Map_Entry :: "(string \<times> 'a val) list \<Rightarrow> string \<Rightarrow> 'a val result" where
  "Map_Entry es key =
     (case map_of es key of
        None \<Rightarrow> Inl (AppError ObjectNotFound ''map has no entry %q'')
      | Some v \<Rightarrow> Inr v)"

definition GetAt :: "'a val list \<Rightarrow> nat \<Rightarrow> 'a val result" where
  "GetAt xs i =
     (if xs = [] then Inl (AppError EmptyCollectionError ''collection is empty'')
      else if length xs \<le> i then Inl (AppError OutOfRangeError ''index %d is out of range (max index: %d)'')
      else Inr (xs ! i))"

definition notNavigable :: app_error where
  "notNavigable = AppError InvalidParameter ''cannot take %q: %s is not %s but a %s''"

fun WalkSteps :: "'a val \<Rightarrow> step list \<Rightarrow> 'a val result" where
  "WalkSteps cur [] = Inr cur"
| "WalkSteps cur (s # ss) =
     (if isField s then
        (case cur of
           Rec fs \<Rightarrow> (case Record_Field fs (st_field s) of Inl e \<Rightarrow> Inl e | Inr v \<Rightarrow> WalkSteps v ss)
         | _ \<Rightarrow> Inl notNavigable)
      else if isKey s then
        (case cur of
           MapV t es \<Rightarrow> (case Map_Entry es (st_key s) of Inl e \<Rightarrow> Inl e | Inr v \<Rightarrow> WalkSteps v ss)
         | _ \<Rightarrow> Inl notNavigable)
      else
        (case cur of
           Lst t xs \<Rightarrow> (case GetAt xs (st_index s) of Inl e \<Rightarrow> Inl e | Inr v \<Rightarrow> WalkSteps v ss)
         | _ \<Rightarrow> Inl notNavigable))"

text \<open>The value at an address, nil when the address leads nowhere.\<close>

fun child :: "'a val \<Rightarrow> step \<Rightarrow> 'a val" where
  "child (Rec fs) s = (if isField s then at_key fs (st_field s) else VNil)"
| "child (MapV t es) s = (if \<not> isField s \<and> isKey s then at_key es (st_key s) else VNil)"
| "child (Lst t xs) s = (if \<not> isField s \<and> \<not> isKey s then at_idx xs (st_index s) else VNil)"
| "child _ s = VNil"

fun at :: "'a val \<Rightarrow> step list \<Rightarrow> 'a val" where
  "at v [] = v"
| "at v (s # ss) = at (child v s) ss"

lemma at_VNil [simp]: "at VNil ss = VNil"
  by (induction ss) auto

lemma at_append: "at v (ss @ rs) = at (at v ss) rs"
  by (induction ss arbitrary: v) auto

lemma WalkSteps_at: "WalkSteps v ss = Inr u \<Longrightarrow> at v ss = u"
proof (induction v ss rule: WalkSteps.induct)
  case (2 cur s ss)
  then show ?case
    by (cases cur) (auto simp: Record_Field_def Map_Entry_def GetAt_def at_key_def at_idx_def
        split: if_splits option.splits)
qed simp

lemma at_WalkSteps: "at v ss \<noteq> VNil \<Longrightarrow> WalkSteps v ss = Inr (at v ss)"
proof (induction v ss rule: WalkSteps.induct)
  case (2 cur s ss)
  then show ?case
    by (cases cur) (auto simp: Record_Field_def Map_Entry_def GetAt_def at_key_def at_idx_def
        split: if_splits option.splits)
qed simp

section \<open>The commit diff\<close>

datatype ChangeType = ValueUpdated | ValueAdded | ValueDeleted

datatype change = Change (ch_path: string) (ch_type: ChangeType)

text \<open>
  \<open>deq\<close> is \<^verbatim>\<open>reflect.DeepEqual\<close> on the Go values of two leaves. The new keys come first, then the
  keys only the old side has, as deletions.
\<close>

definition old_only :: "string list \<Rightarrow> string list \<Rightarrow> string list" where
  "old_only olds news = filter (\<lambda>k. k \<notin> set news) olds"

definition diffRecords :: "(string \<Rightarrow> 'a val \<Rightarrow> 'a val \<Rightarrow> change list) \<Rightarrow> string \<Rightarrow>
    (string \<times> 'a val) list \<Rightarrow> (string \<times> 'a val) list \<Rightarrow> change list" where [simp]:
  "diffRecords diff path fs gs =
     concat (map (\<lambda>k. diff (path @ ''.'' @ k) (at_key fs k) (at_key gs k)) (keys_of gs)) @
     concat (map (\<lambda>k. diff (path @ ''.'' @ k) (at_key fs k) VNil) (old_only (keys_of fs) (keys_of gs)))"

definition diffMaps :: "(string \<Rightarrow> 'a val \<Rightarrow> 'a val \<Rightarrow> change list) \<Rightarrow> string \<Rightarrow>
    (string \<times> 'a val) list \<Rightarrow> (string \<times> 'a val) list \<Rightarrow> change list" where [simp]:
  "diffMaps diff path fs gs =
     concat (map (\<lambda>k. diff (path @ KeyLabel k) (at_key fs k) (at_key gs k)) (map_keys gs)) @
     concat (map (\<lambda>k. diff (path @ KeyLabel k) (at_key fs k) VNil) (old_only (map_keys fs) (map_keys gs)))"

definition diffCollections :: "(string \<Rightarrow> 'a val \<Rightarrow> 'a val \<Rightarrow> change list) \<Rightarrow> string \<Rightarrow>
    'a val list \<Rightarrow> 'a val list \<Rightarrow> change list" where [simp]:
  "diffCollections diff path xs ys =
     concat (map (\<lambda>i. diff (path @ indexLabel i) (at_idx xs i) (at_idx ys i)) [0..<max (length xs) (length ys)])"

lemma diff_congs [fundef_cong]:
  "path = path' \<Longrightarrow> fs = fs' \<Longrightarrow> gs = gs' \<Longrightarrow>
     (\<And>p k. d p (at_key fs' k) (at_key gs' k) = d' p (at_key fs' k) (at_key gs' k)) \<Longrightarrow>
     (\<And>p k. d p (at_key fs' k) VNil = d' p (at_key fs' k) VNil) \<Longrightarrow>
     diffRecords d path fs gs = diffRecords d' path' fs' gs'"
  "path = path' \<Longrightarrow> fs = fs' \<Longrightarrow> gs = gs' \<Longrightarrow>
     (\<And>p k. d p (at_key fs' k) (at_key gs' k) = d' p (at_key fs' k) (at_key gs' k)) \<Longrightarrow>
     (\<And>p k. d p (at_key fs' k) VNil = d' p (at_key fs' k) VNil) \<Longrightarrow>
     diffMaps d path fs gs = diffMaps d' path' fs' gs'"
  "path = path' \<Longrightarrow> xs = xs' \<Longrightarrow> ys = ys' \<Longrightarrow>
     (\<And>p i. d p (at_idx xs' i) (at_idx ys' i) = d' p (at_idx xs' i) (at_idx ys' i)) \<Longrightarrow>
     diffCollections d path xs ys = diffCollections d' path' xs' ys'"
  by simp_all

definition scalarEqual :: "('a \<Rightarrow> 'a \<Rightarrow> bool) \<Rightarrow> 'a val \<Rightarrow> 'a val \<Rightarrow> bool" where [simp]:
  "scalarEqual deq old new =
     (let content = (\<lambda>v. case v of Scalar a \<Rightarrow> Some a | Raw a \<Rightarrow> Some a | _ \<Rightarrow> None)
      in case (content old, content new) of (Some a, Some b) \<Rightarrow> deq a b | _ \<Rightarrow> False)"

function (sequential) diffInto :: "('a \<Rightarrow> 'a \<Rightarrow> bool) \<Rightarrow> string \<Rightarrow> 'a val \<Rightarrow> 'a val \<Rightarrow> change list" where
  "diffInto deq path VNil VNil = []"
| "diffInto deq path VNil new = [Change path ValueAdded]"
| "diffInto deq path old VNil = [Change path ValueDeleted]"
| "diffInto deq path (Rec fs) (Rec gs) = diffRecords (\<lambda>p x y. diffInto deq p x y) path fs gs"
| "diffInto deq path (Lst t xs) (Lst u ys) = diffCollections (\<lambda>p x y. diffInto deq p x y) path xs ys"
| "diffInto deq path (MapV t fs) (MapV u gs) = diffMaps (\<lambda>p x y. diffInto deq p x y) path fs gs"
| "diffInto deq path old new =
     (if kindOf old \<noteq> kindOf new then [Change path ValueUpdated]
      else if \<not> scalarEqual deq old new then [Change path ValueUpdated]
      else [])"
  by pat_completeness auto
termination
proof (relation "measure (\<lambda>(deq, path, old, new). depth old + depth new)", goal_cases)
  case (2 deq path fs gs x k)
  then show ?case using depth_at_key(1)[of fs k] depth_at_key(1)[of gs k] by simp
next
  case (3 deq path fs gs x k)
  then show ?case using depth_at_key(1)[of fs k] by simp
next
  case (4 deq path t xs u ys x k)
  then show ?case using depth_at_idx[of xs k t] depth_at_idx[of ys k u] by simp
next
  case (5 deq path t fs u gs x k)
  then show ?case using depth_at_key(2)[of fs k t] depth_at_key(2)[of gs k u] by simp
next
  case (6 deq path t fs u gs x k)
  then show ?case using depth_at_key(2)[of fs k t] by simp
qed simp

definition DiffValues :: "('a \<Rightarrow> 'a \<Rightarrow> bool) \<Rightarrow> string \<Rightarrow> 'a val \<Rightarrow> 'a val \<Rightarrow> change list" where
  "DiffValues deq root oldV newV = diffInto deq root oldV newV"

subsection \<open>What the diff promises\<close>

text \<open>What can be observed at an address: nothing, a leaf, or a container of a kind.\<close>

datatype 'a obs = Absent | LeafObs 'a | KindObs string

fun observe :: "'a val \<Rightarrow> 'a obs" where
  "observe VNil = Absent"
| "observe (Scalar a) = LeafObs a"
| "observe (Raw a) = LeafObs a"
| "observe v = KindObs (kindOf v)"

definition obs_at :: "'a val \<Rightarrow> step list \<Rightarrow> 'a obs" where
  "obs_at v ss = observe (at v ss)"

text \<open>Values whose every address can be written down: the names are legal, the keys not empty.\<close>

fun legal_val :: "'a val \<Rightarrow> bool" where
  "legal_val (Rec fs) \<longleftrightarrow>
     distinct (keys_of fs) \<and> list_all (\<lambda>p. legal_name (fst p) \<and> legal_val (snd p)) fs"
| "legal_val (MapV t es) \<longleftrightarrow>
     distinct (keys_of es) \<and> list_all (\<lambda>p. fst p \<noteq> [] \<and> legal_val (snd p)) es"
| "legal_val (Lst t xs) \<longleftrightarrow> length xs < 2 ^ 63 \<and> list_all legal_val xs"
| "legal_val _ \<longleftrightarrow> True"

lemma legal_at_key: "legal_val (Rec fs) \<Longrightarrow> legal_val (at_key fs k)" "legal_val (MapV t fs) \<Longrightarrow> legal_val (at_key fs k)"
  by (auto simp: at_key_def list_all_iff split: option.split dest!: map_of_SomeD)

lemma legal_at_idx: "legal_val (Lst t xs) \<Longrightarrow> legal_val (at_idx xs i)"
  by (simp add: at_idx_def list_all_length)

lemma at_key_present: "at_key fs k \<noteq> VNil \<Longrightarrow> k \<in> set (keys_of fs)"
  by (auto simp: at_key_def split: option.splits dest!: map_of_SomeD intro: rev_image_eqI)

lemma legal_key_step: "legal_val (MapV t fs) \<Longrightarrow> k \<in> set (keys_of fs) \<Longrightarrow> k \<noteq> []"
  by (auto simp: list_all_iff)

lemma legal_field_name: "legal_val (Rec fs) \<Longrightarrow> k \<in> set (keys_of fs) \<Longrightarrow> legal_name k"
  by (auto simp: list_all_iff)

text \<open>The steps into the children of a container, and their labels.\<close>

lemma child_field: "k \<noteq> [] \<Longrightarrow> child (Rec fs) (field_step k) = at_key fs k"
  by (simp add: isField_def field_step_def)

lemma child_key: "k \<noteq> [] \<Longrightarrow> child (MapV t fs) (key_step k) = at_key fs k"
  by (simp add: isField_def isKey_def key_step_def)

lemma child_index: "child (Lst t xs) (index_step i) = at_idx xs i"
  by (simp add: isField_def isKey_def index_step_def)

text \<open>
  The reported changes: \<open>reports chs path old new\<close> says that the changes \<open>chs\<close> found under \<open>path\<close>
  are exactly at addresses where the two values differ in the way reported, and that every
  address where they differ lies at or below a reported one.
\<close>

fun change_ok :: "ChangeType \<Rightarrow> 'a obs \<Rightarrow> 'a obs \<Rightarrow> bool" where
  "change_ok ValueAdded a b \<longleftrightarrow> a = Absent \<and> b \<noteq> Absent"
| "change_ok ValueDeleted a b \<longleftrightarrow> a \<noteq> Absent \<and> b = Absent"
| "change_ok ValueUpdated a b \<longleftrightarrow> a \<noteq> Absent \<and> b \<noteq> Absent \<and> a \<noteq> b"

definition sound_change :: "string \<Rightarrow> 'a val \<Rightarrow> 'a val \<Rightarrow> change \<Rightarrow> bool" where
  "sound_change path old new ch \<longleftrightarrow>
     (\<exists>rs. list_all legal_step rs \<and> ch_path ch = path @ render_steps rs \<and>
        change_ok (ch_type ch) (obs_at old rs) (obs_at new rs))"

definition covers :: "string \<Rightarrow> change list \<Rightarrow> step list \<Rightarrow> bool" where
  "covers path chs ss \<longleftrightarrow>
     (\<exists>ch\<in>set chs. \<exists>rs. list_all legal_step rs \<and> ch_path ch = path @ render_steps rs \<and> prefix rs ss)"

lemma sound_change_here:
  "change_ok t (observe old) (observe new) \<Longrightarrow> sound_change path old new (Change path t)"
  by (auto simp: sound_change_def obs_at_def intro!: exI[of _ "[]"])

lemma sound_change_child:
  assumes "legal_step s" and "sound_change (path @ render_step s) (child old s) (child new s) ch"
  shows "sound_change path old new ch"
proof -
  obtain rs where "list_all legal_step rs" "ch_path ch = (path @ render_step s) @ render_steps rs"
    "change_ok (ch_type ch) (obs_at (child old s) rs) (obs_at (child new s) rs)"
    using assms(2) by (auto simp: sound_change_def)
  then show ?thesis using assms(1) by (auto simp: sound_change_def obs_at_def intro!: exI[of _ "s # rs"])
qed

lemma covers_here: "Change path t \<in> set chs \<Longrightarrow> covers path chs ss"
  unfolding covers_def by (rule bexI[of _ "Change path t"]) (auto intro!: exI[of _ "[]"])

lemma covers_child:
  assumes "legal_step s" and "covers (path @ render_step s) chs' ss" and "set chs' \<subseteq> set chs"
  shows "covers path chs (s # ss)"
proof -
  obtain ch rs where "ch \<in> set chs'" "list_all legal_step rs"
    "ch_path ch = (path @ render_step s) @ render_steps rs" "prefix rs ss"
    using assms(2) by (auto simp: covers_def)
  then show ?thesis using assms(1,3) unfolding covers_def
    by (intro bexI[of _ ch] exI[of _ "s # rs"]) auto
qed

lemma observe_eq_Absent [simp]: "observe v = Absent \<longleftrightarrow> v = VNil"
  by (cases v) auto

lemma field_child_sound:
  assumes "legal_val (Rec fs)" and "legal_val (Rec gs)" and "k \<in> set (keys_of fs) \<union> set (keys_of gs)"
    and "sound_change (path @ ''.'' @ k) (at_key fs k) (at_key gs k) ch"
  shows "sound_change path (Rec fs) (Rec gs) ch"
proof -
  have "legal_name k" using assms(1-3) legal_field_name by blast
  then have "k \<noteq> []" "legal_step (field_step k)" by (simp_all add: legal_name_def)
  with assms(4) show ?thesis
    by (metis sound_change_child render_simps(1) child_field append_Cons append_Nil)
qed

lemma key_child_sound:
  assumes "legal_val (MapV t fs)" and "legal_val (MapV u gs)" and "k \<in> set (keys_of fs) \<union> set (keys_of gs)"
    and "sound_change (path @ KeyLabel k) (at_key fs k) (at_key gs k) ch"
  shows "sound_change path (MapV t fs) (MapV u gs) ch"
proof -
  have "k \<noteq> []" using assms(1-3) legal_key_step by blast
  with assms(4) show ?thesis
    by (metis sound_change_child render_simps(2) child_key legal_stepI(2))
qed

lemma index_child_sound:
  assumes "legal_val (Lst t xs)" and "legal_val (Lst u ys)" and "i < max (length xs) (length ys)"
    and "sound_change (path @ indexLabel i) (at_idx xs i) (at_idx ys i) ch"
  shows "sound_change path (Lst t xs) (Lst u ys) ch"
proof -
  have "legal_step (index_step i)" using assms(1-3) by (auto simp: less_max_iff_disj)
  then show ?thesis using assms(4) by (metis sound_change_child render_simps(3) child_index)
qed

lemma set_map_keys [simp]: "set (map_keys es) = set (keys_of es)"
  by (simp add: map_keys_def)

lemma at_key_absent: "k \<notin> set (keys_of gs) \<Longrightarrow> at_key gs k = VNil"
  using at_key_present by blast

lemma set_old_only: "k \<in> set (old_only a b) \<longleftrightarrow> k \<in> set a \<and> k \<notin> set b"
  by (auto simp: old_only_def)

text \<open>The changes of two containers of one kind are those of their children.\<close>

lemma diff_rec:
  "ch \<in> set (diffInto deq path (Rec fs) (Rec gs)) \<longleftrightarrow>
     (\<exists>k \<in> set (keys_of fs) \<union> set (keys_of gs). ch \<in> set (diffInto deq (path @ ''.'' @ k) (at_key fs k) (at_key gs k)))"
  (is "?l \<longleftrightarrow> ?r")
proof -
  have "?l \<longleftrightarrow> (\<exists>k\<in>set (keys_of gs). ch \<in> set (diffInto deq (path @ ''.'' @ k) (at_key fs k) (at_key gs k))) \<or>
      (\<exists>k\<in>set (keys_of fs). k \<notin> set (keys_of gs) \<and> ch \<in> set (diffInto deq (path @ ''.'' @ k) (at_key fs k) VNil))"
    unfolding diffInto.simps diffRecords_def diffMaps_def by (simp add: set_old_only Bex_def)
  then show ?thesis using at_key_absent[of _ gs] by (metis Un_iff)
qed

lemma diff_map:
  "ch \<in> set (diffInto deq path (MapV t fs) (MapV u gs)) \<longleftrightarrow>
     (\<exists>k \<in> set (keys_of fs) \<union> set (keys_of gs). ch \<in> set (diffInto deq (path @ KeyLabel k) (at_key fs k) (at_key gs k)))"
  (is "?l \<longleftrightarrow> ?r")
proof -
  have "?l \<longleftrightarrow> (\<exists>k\<in>set (keys_of gs). ch \<in> set (diffInto deq (path @ KeyLabel k) (at_key fs k) (at_key gs k))) \<or>
      (\<exists>k\<in>set (keys_of fs). k \<notin> set (keys_of gs) \<and> ch \<in> set (diffInto deq (path @ KeyLabel k) (at_key fs k) VNil))"
    unfolding diffInto.simps diffRecords_def diffMaps_def by (simp add: set_old_only Bex_def)
  then show ?thesis using at_key_absent[of _ gs] by (metis Un_iff)
qed

lemma diff_list:
  "ch \<in> set (diffInto deq path (Lst t xs) (Lst u ys)) \<longleftrightarrow>
     (\<exists>i < max (length xs) (length ys). ch \<in> set (diffInto deq (path @ indexLabel i) (at_idx xs i) (at_idx ys i)))"
  by auto

lemma diffInto_sound:
  assumes refl: "\<And>a. deq a a"
  shows "legal_val old \<Longrightarrow> legal_val new \<Longrightarrow> ch \<in> set (diffInto deq path old new) \<Longrightarrow>
         sound_change path old new ch"
proof (induction "depth old + depth new" arbitrary: path old new rule: less_induct)
  case less
  consider (recs) fs gs where "old = Rec fs" "new = Rec gs" | (maps) t fs u gs where "old = MapV t fs" "new = MapV u gs"
    | (lists) t xs u ys where "old = Lst t xs" "new = Lst u ys"
    | (flat) t where "ch = Change path t" "change_ok t (observe old) (observe new)"
    using less.prems(3) refl by (cases old; cases new) (auto split: if_splits)
  then show ?case
  proof cases
    case recs
    obtain k where k: "k \<in> set (keys_of fs) \<union> set (keys_of gs)"
      and ch: "ch \<in> set (diffInto deq (path @ ''.'' @ k) (at_key fs k) (at_key gs k))"
      using less.prems(3) unfolding recs diff_rec by blast
    have "depth (at_key fs k) + depth (at_key gs k) < depth old + depth new"
      using recs depth_at_key(1)[of fs k] depth_at_key(1)[of gs k] by (simp only: recs add_strict_mono)
    from less.hyps[OF this _ _ ch] less.prems(1,2) recs legal_at_key(1) field_child_sound[OF _ _ k]
    show ?thesis by metis
  next
    case maps
    obtain k where k: "k \<in> set (keys_of fs) \<union> set (keys_of gs)"
      and ch: "ch \<in> set (diffInto deq (path @ KeyLabel k) (at_key fs k) (at_key gs k))"
      using less.prems(3) unfolding maps diff_map by blast
    have "depth (at_key fs k) + depth (at_key gs k) < depth old + depth new"
      using maps depth_at_key(2)[of fs k t] depth_at_key(2)[of gs k u] by (simp only: maps add_strict_mono)
    from less.hyps[OF this _ _ ch] less.prems(1,2) maps legal_at_key(2) key_child_sound[OF _ _ k]
    show ?thesis by metis
  next
    case lists
    obtain i where i: "i < max (length xs) (length ys)"
      and ch: "ch \<in> set (diffInto deq (path @ indexLabel i) (at_idx xs i) (at_idx ys i))"
      using less.prems(3) unfolding lists diff_list by blast
    have "depth (at_idx xs i) + depth (at_idx ys i) < depth old + depth new"
      using lists depth_at_idx[of xs i t] depth_at_idx[of ys i u] by (simp only: lists add_strict_mono)
    from less.hyps[OF this _ _ ch] less.prems(1,2) lists legal_at_idx index_child_sound[OF _ _ i]
    show ?thesis by metis
  next
    case flat
    then show ?thesis using sound_change_here by blast
  qed
qed

text \<open>The step into a child present on either side is written by the diff of the containers.\<close>

lemma diff_child:
  assumes "legal_step s" and "kindOf old = kindOf new" and "child old s \<noteq> VNil \<or> child new s \<noteq> VNil"
  shows "set (diffInto deq (path @ render_step s) (child old s) (child new s)) \<subseteq> set (diffInto deq path old new)"
  using assms(1)
proof (cases rule: legal_step_cases)
  case (field f)
  then have f: "f \<noteq> []" by (simp add: legal_name_def)
  obtain fs gs where r: "old = Rec fs" "new = Rec gs"
    using assms(2,3) field f by (cases old; cases new) (auto simp: isField_def field_step_def)
  have "f \<in> set (keys_of fs) \<union> set (keys_of gs)"
    using assms(3) at_key_present unfolding r field(2) child_field[OF f] by blast
  then show ?thesis unfolding r field(2) child_field[OF f] render_simps(1)[OF f] subset_iff diff_rec
    by (metis append_Cons append_Nil)
next
  case (key k)
  obtain t fs u gs where r: "old = MapV t fs" "new = MapV u gs"
    using assms(2,3) key by (cases old; cases new) (auto simp: isField_def isKey_def key_step_def)
  have "k \<in> set (keys_of fs) \<union> set (keys_of gs)"
    using assms(3) at_key_present unfolding r key(2) child_key[OF key(1)] by blast
  then show ?thesis unfolding r key(2) child_key[OF key(1)] render_simps(2)[OF key(1)] subset_iff diff_map
    by blast
next
  case (index i)
  obtain t xs u ys where r: "old = Lst t xs" "new = Lst u ys"
    using assms(2,3) index by (cases old; cases new) (auto simp: isField_def isKey_def index_step_def)
  have "i < max (length xs) (length ys)"
    using assms(3) unfolding r index(2) child_index by (auto simp: at_idx_def less_max_iff_disj split: if_splits)
  then show ?thesis unfolding r index(2) child_index render_simps(3) subset_iff diff_list by blast
qed

lemma diffInto_covers:
  assumes "\<And>a b. deq a b \<Longrightarrow> a = b"
  shows "list_all legal_step ss \<Longrightarrow> obs_at old ss \<noteq> obs_at new ss \<Longrightarrow> covers path (diffInto deq path old new) ss"
proof (induction ss arbitrary: path old new)
  case Nil
  then have "\<exists>t. Change path t \<in> set (diffInto deq path old new)"
    using assms by (cases old; cases new) (auto simp: obs_at_def)
  then show ?case using covers_here by blast
next
  case (Cons s ss)
  show ?case
  proof (cases "observe old = observe new")
    case True
    then have "kindOf old = kindOf new" by (cases old; cases new) auto
    moreover have ne: "obs_at (child old s) ss \<noteq> obs_at (child new s) ss" using Cons.prems(2) by (simp add: obs_at_def)
    then have "child old s \<noteq> VNil \<or> child new s \<noteq> VNil" by auto
    ultimately have "set (diffInto deq (path @ render_step s) (child old s) (child new s)) \<subseteq> set (diffInto deq path old new)"
      using diff_child Cons.prems(1) by (metis list.pred_inject(2))
    then show ?thesis using covers_child[OF _ Cons.IH[OF _ ne]] Cons.prems(1) by simp
  next
    case False
    then have "\<exists>t. Change path t \<in> set (diffInto deq path old new)"
      using assms by (cases old; cases new) auto
    then show ?thesis using covers_here by blast
  qed
qed

text \<open>
  Claim C38. No committed change goes unnoticed: if the values before and after a commit differ
  at an address (one is absent there, or they are leaves with different content, or containers of
  different kinds), the diff reports a change whose path overlaps the path of that address, which
  is the test that decides whether a dependent condition is re-evaluated.
\<close>

theorem diff_detects_every_change:
  assumes "legal_name root" and "list_all legal_step ss" and "\<And>a b. deq a b \<Longrightarrow> a = b"
    and "obs_at old ss \<noteq> obs_at new ss"
  shows "\<exists>ch \<in> set (DiffValues deq root old new). PathsOverlap (ch_path ch) (root @ render_steps ss) = Inr True"
proof -
  obtain ch rs where ch: "ch \<in> set (diffInto deq root old new)" "list_all legal_step rs"
    "ch_path ch = root @ render_steps rs" "prefix rs ss"
    using diffInto_covers[where deq = deq and path = root, OF assms(3) assms(2,4)] by (auto simp: covers_def)
  have "PathsOverlap (ch_path ch) (root @ render_steps ss) = Inr True"
    using PathsOverlap_parsed[OF _ _ ParsePath_render_name[OF assms(1) ch(2)] ParsePath_render_name[OF assms(1,2)]]
      legal_nameD(1)[OF assms(1)] ch(3,4) by simp
  then show ?thesis using ch(1) by (auto simp: DiffValues_def)
qed

lemma sample_legal_name: "legal_name ''order''"
  by (simp add: legal_name_def CheckName_def reservedNameChars_def)

theorem diff_detects_every_change_witness:
  "\<exists>ch \<in> set (DiffValues (=) ''order'' (Lst Iface [Scalar (3::nat)]) (Lst Iface [Scalar 2])).
     PathsOverlap (ch_path ch) (''order'' @ render_steps [index_step 0]) = Inr True"
  by (rule diff_detects_every_change[OF sample_legal_name])
    (simp_all add: obs_at_def child_index at_idx_def del: child.simps)

text \<open>
  The diff reports only real changes and names them right: every reported path is the
  text of an address under the root, where an addition had nothing before and something after, a
  deletion the reverse, and an update two different things.
\<close>

theorem diff_reports_only_changes:
  assumes "\<And>a. deq a a" and "legal_val old" and "legal_val new"
    and "ch \<in> set (DiffValues deq root old new)"
  shows "\<exists>rs. list_all legal_step rs \<and> ch_path ch = root @ render_steps rs \<and>
           change_ok (ch_type ch) (obs_at old rs) (obs_at new rs)"
  using diffInto_sound[where deq = deq and path = root, OF assms(1) assms(2,3)] assms(4) by (simp add: DiffValues_def sound_change_def)

lemma sample_diff:
  "DiffValues (=) ''order'' (Lst Iface [Scalar (3::nat)]) (Lst Iface [Scalar 2]) = [Change ''order[0]'' ValueUpdated]"
  by code_simp

theorem diff_reports_only_changes_witness:
  "\<exists>rs. list_all legal_step rs \<and> ''order[0]'' = ''order'' @ render_steps rs \<and>
     change_ok ValueUpdated (obs_at (Lst Iface [Scalar (3::nat)]) rs) (obs_at (Lst Iface [Scalar 2]) rs)"
  using diff_reports_only_changes[of "(=)" "Lst Iface [Scalar (3::nat)]" "Lst Iface [Scalar 2]"
      "Change ''order[0]'' ValueUpdated" "''order''"]
  by (simp add: sample_diff)

end
