(* ===== verification/Data_Setpath.thy ===== *)
theory Data_Setpath
  imports Data_Value
begin

text \<open>
  Structural writes (\<^verbatim>\<open>src/pkg/model/data/values/setpath.go\<close>) on the dynamic records, maps and lists
  (\<^verbatim>\<open>record.go\<close>, \<^verbatim>\<open>map.go\<close>, and the \<^verbatim>\<open>SetAt\<close> of \<^verbatim>\<open>array.go\<close>). The code mutates the containers in place, so a
  write returns the root as it is afterwards together with its outcome; a failed write can
  leave containers behind that it created on the way. \<open>Panic\<close> is a Go runtime panic: building an
  error message asks the container for its type, and \<^verbatim>\<open>Array[T].Type\<close> and \<^verbatim>\<open>checkValue[T]\<close> dereference
  the reflected type of a zero \<open>T\<close>, which is nil when \<open>T\<close> is an interface.
\<close>

section \<open>Containers\<close>

datatype outcome = Done | Failed app_error | Panic

definition SetField :: "(string \<times> 'a val) list \<Rightarrow> string \<Rightarrow> 'a val \<Rightarrow> (string \<times> 'a val) list \<times> outcome" where
  "SetField fs name v =
     (case CheckName name of
        Inl e \<Rightarrow> (fs, Failed e)
      | Inr _ \<Rightarrow>
          (if v = VNil then (fs, Failed (AppError EmptyNotAllowed ''record field %q value couldn't be nil''))
           else (AList.update name v fs, Done)))"

text \<open>\<^verbatim>\<open>checkValue[T]\<close> of a \<^verbatim>\<open>data.Value\<close>: an interface element type takes every non-nil value.\<close>

definition takes_value :: "elemT \<Rightarrow> 'a val \<Rightarrow> outcome" where
  "takes_value t v =
     (case t of
        Iface \<Rightarrow> if v = VNil then Panic else Done
      | Concrete \<Rightarrow> Failed (AppError TypeCastingError ''value (%v) isn't a value of type %q''))"

definition SetEntry :: "elemT \<Rightarrow> (string \<times> 'a val) list \<Rightarrow> string \<Rightarrow> 'a val \<Rightarrow> (string \<times> 'a val) list \<times> outcome" where
  "SetEntry t es key v =
     (if key = [] then (es, Failed (AppError EmptyNotAllowed ''%s: an empty map key isn't allowed''))
      else (case takes_value t v of
              Done \<Rightarrow> (AList.update key v es, Done)
            | bad \<Rightarrow> (es, bad)))"

definition SetAt :: "elemT \<Rightarrow> 'a val list \<Rightarrow> nat \<Rightarrow> 'a val \<Rightarrow> 'a val list \<times> outcome" where
  "SetAt t xs i v =
     (case takes_value t v of
        Done \<Rightarrow>
          (if i < length xs then (xs[i := v], Done)
           else if i = length xs then (xs @ [v], Done)
           else (xs, Failed (AppError OutOfRangeError ''set index %d is out of range (len: %d)'')))
      | bad \<Rightarrow> (xs, bad))"

text \<open>The constructors, and the remaining operation of a map.\<close>

fun NewRecord_loop :: "(string \<times> 'a val) list \<Rightarrow> (string \<times> 'a val) list \<Rightarrow> (string \<times> 'a val) list result" where
  "NewRecord_loop fs [] = Inr fs"
| "NewRecord_loop fs ((name, v) # rest) =
     (case CheckName name of
        Inl e \<Rightarrow> Inl e
      | Inr _ \<Rightarrow>
          (if v = VNil then Inl (AppError EmptyNotAllowed ''record field %q has a nil value'')
           else if map_of fs name \<noteq> None then Inl (AppError DuplicateObject ''duplicate record field %q'')
           else NewRecord_loop (fs @ [(name, v)]) rest))"

definition NewRecord :: "(string \<times> 'a val) list \<Rightarrow> 'a val result" where
  "NewRecord rfs = (case NewRecord_loop [] rfs of Inl e \<Rightarrow> Inl e | Inr fs \<Rightarrow> Inr (Rec fs))"

definition NewMap :: "elemT \<Rightarrow> (string \<times> 'a val) list \<Rightarrow> 'a val result" where
  "NewMap t entries =
     (if list_ex (\<lambda>p. fst p = []) entries then Inl (AppError EmptyNotAllowed ''%s: an empty map key isn't allowed'')
      else Inr (MapV t entries))"

definition DeleteEntry :: "(string \<times> 'a val) list \<Rightarrow> string \<Rightarrow> (string \<times> 'a val) list result" where
  "DeleteEntry es key =
     (if map_of es key = None then Inl (AppError ObjectNotFound ''map has no entry %q to delete'')
      else Inr (AList.delete key es))"

section \<open>SetPath\<close>

definition notWritable :: "'a val \<Rightarrow> outcome" where
  "notWritable got =
     (case got of
        Lst Iface _ \<Rightarrow> Panic
      | _ \<Rightarrow> Failed (AppError InvalidParameter ''cannot set %q: the container is not %s (is %s)''))"

definition vivify :: "step \<Rightarrow> 'a val" where
  "vivify nxt = (if st_field nxt \<noteq> [] then Rec [] else if st_key nxt \<noteq> [] then MapV Iface [] else Lst Iface [])"

definition is_value :: "'a val \<Rightarrow> bool" where
  "is_value v = (case v of Raw _ \<Rightarrow> False | VNil \<Rightarrow> False | _ \<Rightarrow> True)"

text \<open>
  \<^verbatim>\<open>descendOrVivify\<close> returns the current container as it is after the call, and the child to
  descend into or the failure.
\<close>

definition descendOrVivify :: "'a val \<Rightarrow> step \<Rightarrow> step \<Rightarrow> 'a val \<times> ('a val + outcome)" where
  "descendOrVivify cur s nxt =
     (if st_field s \<noteq> [] then
        (case cur of
           Rec fs \<Rightarrow>
             (case Record_Field fs (st_field s) of
                Inr c \<Rightarrow> (cur, Inl c)
              | Inl _ \<Rightarrow>
                  (case SetField fs (st_field s) (vivify nxt) of
                     (fs', Done) \<Rightarrow> (Rec fs', Inl (vivify nxt))
                   | (fs', bad) \<Rightarrow> (Rec fs', Inr bad)))
         | _ \<Rightarrow> (cur, Inr (notWritable cur)))
      else if st_key s \<noteq> [] then
        (case cur of
           MapV t es \<Rightarrow>
             (case Map_Entry es (st_key s) of
                Inr c \<Rightarrow> if is_value c then (cur, Inl c) else (cur, Inr (notWritable cur))
              | Inl _ \<Rightarrow>
                  (case SetEntry t es (st_key s) (vivify nxt) of
                     (es', Done) \<Rightarrow> (MapV t es', Inl (vivify nxt))
                   | (es', bad) \<Rightarrow> (MapV t es', Inr bad)))
         | _ \<Rightarrow> (cur, Inr (notWritable cur)))
      else
        (case cur of
           Lst t xs \<Rightarrow>
             (case GetAt xs (st_index s) of
                Inr c \<Rightarrow> if is_value c then (cur, Inl c) else (cur, Inr (notWritable cur))
              | Inl _ \<Rightarrow>
                  (case SetAt t xs (st_index s) (vivify nxt) of
                     (xs', Done) \<Rightarrow> (Lst t xs', Inl (vivify nxt))
                   | (xs', bad) \<Rightarrow> (Lst t xs', Inr bad)))
         | _ \<Rightarrow> (cur, Inr (notWritable cur))))"

definition setLast :: "'a val \<Rightarrow> step \<Rightarrow> 'a val \<Rightarrow> 'a val \<times> outcome" where
  "setLast parent lst v =
     (if st_field lst \<noteq> [] then
        (case parent of
           Rec fs \<Rightarrow> (let (fs', out) = SetField fs (st_field lst) v in (Rec fs', out))
         | _ \<Rightarrow> (parent, notWritable parent))
      else if st_key lst \<noteq> [] then
        (case parent of
           MapV t es \<Rightarrow> (let (es', out) = SetEntry t es (st_key lst) v in (MapV t es', out))
         | _ \<Rightarrow> (parent, notWritable parent))
      else
        (case parent of
           Lst t xs \<Rightarrow> (let (xs', out) = SetAt t xs (st_index lst) v in (Lst t xs', out))
         | _ \<Rightarrow> (parent, notWritable parent)))"

text \<open>The child the code goes on to mutate is the one the container holds: it is put back.\<close>

definition put_child :: "'a val \<Rightarrow> step \<Rightarrow> 'a val \<Rightarrow> 'a val" where
  "put_child cur s c =
     (case cur of
        Rec fs \<Rightarrow> Rec (AList.update (st_field s) c fs)
      | MapV t es \<Rightarrow> MapV t (AList.update (st_key s) c es)
      | Lst t xs \<Rightarrow> Lst t (xs[st_index s := c])
      | _ \<Rightarrow> cur)"

fun walkAndSet :: "'a val \<Rightarrow> step list \<Rightarrow> 'a val \<Rightarrow> 'a val \<times> outcome" where
  "walkAndSet cur [] v = (cur, Done)"
| "walkAndSet cur [s] v = setLast cur s v"
| "walkAndSet cur (s # s' # ss) v =
     (case descendOrVivify cur s s' of
        (cur', Inr bad) \<Rightarrow> (cur', bad)
      | (cur', Inl c) \<Rightarrow>
          (let (c', out) = walkAndSet c (s' # ss) v in (put_child cur' s c', out)))"

definition SetPath :: "'a val \<Rightarrow> string \<Rightarrow> 'a val \<Rightarrow> 'a val \<times> outcome" where
  "SetPath root path v =
     (case ParsePath path of
        Inl e \<Rightarrow> (root, Failed e)
      | Inr steps \<Rightarrow>
          (if steps = [] then
             (root, Failed (AppError InvalidParameter (''SetPath: an empty path '' @ emdash @ '' a whole-value write is Value.Update'')))
           else walkAndSet root steps v))"

section \<open>What a write changes\<close>

fun slot :: "'a val \<Rightarrow> step \<Rightarrow> bool" where
  "slot (Rec fs) s \<longleftrightarrow> isField s"
| "slot (MapV t es) s \<longleftrightarrow> \<not> isField s \<and> isKey s"
| "slot (Lst t xs) s \<longleftrightarrow> \<not> isField s \<and> \<not> isKey s \<and> st_index s < length xs"
| "slot _ s \<longleftrightarrow> False"

lemma legal_step_eq:
  assumes "legal_step s" and "legal_step s'"
  shows "s = s' \<longleftrightarrow> isField s = isField s' \<and> isKey s = isKey s' \<and>
     st_field s = st_field s' \<and> st_key s = st_key s' \<and> st_index s = st_index s'"
  by (auto simp: isField_def isKey_def)

lemma legal_step_parts:
  assumes "legal_step s"
  shows "isField s \<Longrightarrow> st_key s = [] \<and> st_index s = 0" and "isKey s \<Longrightarrow> st_field s = [] \<and> st_index s = 0"
  using assms by (auto simp: legal_step_def field_step_def key_step_def index_step_def isField_def isKey_def)

lemma at_key_update: "at_key (AList.update k v fs) k' = (if k' = k then v else at_key fs k')"
  by (simp add: at_key_def update_conv')

lemma at_idx_update: "i < length xs \<Longrightarrow> at_idx (xs[i := v]) j = (if j = i then v else at_idx xs j)"
  by (simp add: at_idx_def)

lemma at_idx_append: "at_idx (xs @ [v]) j = (if j = length xs then v else at_idx xs j)"
  by (auto simp: at_idx_def nth_append)

lemma step_diff:
  assumes "legal_step s" and "legal_step s'" and "s' \<noteq> s"
  shows "isField s \<Longrightarrow> isField s' \<Longrightarrow> st_field s' \<noteq> st_field s"
    and "\<not> isField s \<Longrightarrow> isKey s \<Longrightarrow> isKey s' \<Longrightarrow> st_key s' \<noteq> st_key s"
    and "\<not> isField s \<Longrightarrow> \<not> isKey s \<Longrightarrow> \<not> isField s' \<Longrightarrow> \<not> isKey s' \<Longrightarrow> st_index s' \<noteq> st_index s"
proof -
  have *: "s' = s" if "st_field s' = st_field s" "st_key s' = st_key s" "st_index s' = st_index s" using that by simp
  show "isField s \<Longrightarrow> isField s' \<Longrightarrow> st_field s' \<noteq> st_field s"
    using * assms(3) legal_step_parts(1)[OF assms(1)] legal_step_parts(1)[OF assms(2)] by metis
  show "\<not> isField s \<Longrightarrow> isKey s \<Longrightarrow> isKey s' \<Longrightarrow> st_key s' \<noteq> st_key s"
    using * assms(3) legal_step_parts(2)[OF assms(1)] legal_step_parts(2)[OF assms(2)] by metis
  show "\<not> isField s \<Longrightarrow> \<not> isKey s \<Longrightarrow> \<not> isField s' \<Longrightarrow> \<not> isKey s' \<Longrightarrow> st_index s' \<noteq> st_index s"
    using * assms(3) by (auto simp: isField_def isKey_def)
qed

text \<open>\<open>updated cur s c cur'\<close>: \<open>cur'\<close> is \<open>cur\<close> with the child at \<open>s\<close> replaced by \<open>c\<close>.\<close>

definition updated :: "'a val \<Rightarrow> step \<Rightarrow> 'a val \<Rightarrow> 'a val \<Rightarrow> bool" where
  "updated cur s c cur' \<longleftrightarrow>
     slot cur' s \<and> observe cur' = observe cur \<and>
     (\<forall>s'. legal_step s' \<longrightarrow> child cur' s' = (if s' = s then c else child cur s'))"

lemma updated_put:
  assumes "legal_step s" and "slot cur s"
  shows "updated cur s c (put_child cur s c)"
proof (cases cur)
  case (Rec fs)
  then show ?thesis using assms(2) step_diff(1)[OF assms(1)]
    by (auto simp: updated_def put_child_def at_key_update)
next
  case (Lst t xs)
  then show ?thesis using assms(2) step_diff(3)[OF assms(1)]
    by (auto simp: updated_def put_child_def at_idx_update)
next
  case (MapV t es)
  then show ?thesis using assms(2) step_diff(2)[OF assms(1)]
    by (auto simp: updated_def put_child_def at_key_update)
qed (use assms in auto)

lemma setLast_spec:
  assumes "legal_step s" and "setLast cur s v = (cur', out)"
  shows "if out = Done then v \<noteq> VNil \<and> updated cur s v cur' else cur' = cur"
proof -
  have f: "st_field s \<noteq> [] \<longleftrightarrow> isField s" "st_key s \<noteq> [] \<longleftrightarrow> isKey s" by (simp_all add: isField_def isKey_def)
  show ?thesis
  proof (cases cur)
    case (Rec fs)
    then show ?thesis using assms(2) step_diff(1)[OF assms(1)] unfolding setLast_def f
      by (auto simp: updated_def SetField_def notWritable_def at_key_update split: if_splits sum.splits)
  next
    case (Lst t xs)
    then show ?thesis using assms(2) step_diff(3)[OF assms(1)] unfolding setLast_def f
      by (auto simp: updated_def SetAt_def takes_value_def notWritable_def at_idx_update at_idx_append
          split: if_splits elemT.splits)
  next
    case (MapV t es)
    then show ?thesis using assms(2) step_diff(2)[OF assms(1)] unfolding setLast_def f
      by (auto simp: updated_def SetEntry_def takes_value_def notWritable_def at_key_update
          split: if_splits elemT.splits)
  qed (use assms(2) in \<open>auto simp: setLast_def notWritable_def split: if_splits\<close>)
qed

lemma vivify_neq: "vivify nxt \<noteq> VNil"
  by (simp add: vivify_def)

lemma updated_same: "slot cur s \<Longrightarrow> child cur s = c \<Longrightarrow> updated cur s c cur"
  by (auto simp: updated_def)

text \<open>Attaching a fresh child is the write of a last step.\<close>

lemma descend_cases:
  "(\<exists>c. descendOrVivify cur s nxt = (cur, Inl c) \<and> slot cur s \<and> child cur s = c) \<or>
   (\<exists>bad. descendOrVivify cur s nxt = (cur, Inr bad) \<and> bad \<noteq> Done) \<or>
   (child cur s = VNil \<and>
    descendOrVivify cur s nxt =
      (case setLast cur s (vivify nxt) of (cur', Done) \<Rightarrow> (cur', Inl (vivify nxt)) | (cur', bad) \<Rightarrow> (cur', Inr bad)))"
proof (cases cur)
  case (Rec fs)
  then show ?thesis
    by (auto simp: descendOrVivify_def setLast_def Record_Field_def at_key_def isField_def notWritable_def
        split: option.split prod.split outcome.split)
next
  case (Lst t xs)
  then show ?thesis
    by (auto simp: descendOrVivify_def setLast_def GetAt_def at_idx_def isField_def isKey_def notWritable_def
        split: elemT.split prod.split outcome.split)
next
  case (MapV t es)
  then show ?thesis
    by (auto simp: descendOrVivify_def setLast_def Map_Entry_def at_key_def isField_def isKey_def notWritable_def
        split: option.split prod.split outcome.split)
qed (auto simp: descendOrVivify_def notWritable_def)

definition write_ok :: "'a val \<Rightarrow> step list \<Rightarrow> 'a val \<Rightarrow> 'a val \<Rightarrow> outcome \<Rightarrow> bool" where
  "write_ok cur steps v cur' out \<longleftrightarrow>
     observe cur' = observe cur \<and>
     (out = Done \<longrightarrow> v \<noteq> VNil \<and> at cur' steps = v) \<and>
     (\<forall>ss. list_all legal_step ss \<longrightarrow> \<not> prefix ss steps \<longrightarrow> \<not> prefix steps ss \<longrightarrow> at cur' ss = at cur ss) \<and>
     (out \<noteq> Done \<longrightarrow> (\<forall>ss. list_all legal_step ss \<longrightarrow> at cur ss \<noteq> VNil \<longrightarrow> obs_at cur' ss = obs_at cur ss))"

lemma write_ok_refl: "out \<noteq> Done \<Longrightarrow> write_ok cur steps v cur out"
  by (simp add: write_ok_def)

lemma write_ok_last:
  assumes "legal_step s" and "updated cur s v cur'" and "v \<noteq> VNil"
  shows "write_ok cur [s] v cur' Done"
  unfolding write_ok_def
proof (intro conjI allI impI)
  fix ss assume ss: "list_all legal_step ss" "\<not> prefix ss [s]" "\<not> prefix [s] ss"
  then obtain s' rs where "ss = s' # rs" "s' \<noteq> s" by (cases ss) auto
  then show "at cur' ss = at cur ss" using assms(2) ss(1) by (simp add: updated_def)
qed (use assms in \<open>auto simp: updated_def\<close>)

text \<open>A write below the child at \<open>s\<close>, which was there or has just been created empty.\<close>

lemma write_ok_step:
  assumes "legal_step s" and "updated cur s c' cur'" and "write_ok c ss v c' out" and "ss \<noteq> []"
    and old: "child cur s = c \<or> child cur s = VNil \<and> (\<forall>r. child c r = VNil)"
  shows "write_ok cur (s # ss) v cur' out"
proof -
  have at': "at cur' (s' # rs) = (if s' = s then at c' rs else at cur (s' # rs))" if "legal_step s'" for s' rs
    using assms(2) that by (simp add: updated_def)
  have empty: "at c rs = at (child cur s) rs" if "rs \<noteq> []" for rs
    using old that by (cases rs) auto
  have frame: "at cur' rs = at cur rs"
    if rs: "list_all legal_step rs" "\<not> prefix rs (s # ss)" "\<not> prefix (s # ss) rs" for rs
  proof -
    obtain s' qs where q: "rs = s' # qs" using rs(2) by (cases rs) auto
    show ?thesis
    proof (cases "s' = s")
      case True
      then have "at c' qs = at c qs" "qs \<noteq> []" using assms(3) rs q by (auto simp: write_ok_def)
      then show ?thesis using at' q True empty rs(1) by simp
    next
      case False
      then show ?thesis using at' q rs(1) by simp
    qed
  qed
  have kept: "obs_at cur' rs = obs_at cur rs"
    if rs: "list_all legal_step rs" "at cur rs \<noteq> VNil" and out: "out \<noteq> Done" for rs
  proof (cases rs)
    case Nil
    then show ?thesis using assms(2) by (simp add: obs_at_def updated_def)
  next
    case (Cons s' qs)
    show ?thesis
    proof (cases "s' = s")
      case True
      then have "child cur s = c" using old rs(2) Cons by auto
      then have "obs_at c' qs = obs_at c qs" using assms(3) rs Cons True out by (simp add: write_ok_def)
      then show ?thesis using at'[of s' qs] rs(1) Cons True \<open>child cur s = c\<close> by (simp add: obs_at_def)
    next
      case False
      then show ?thesis using at'[of s' qs] rs(1) Cons by (simp add: obs_at_def)
    qed
  qed
  show ?thesis using frame kept assms(2,3) at'[of s ss] assms(1) unfolding write_ok_def updated_def by auto
qed

lemma updated_trans:
  "updated cur s c cur' \<Longrightarrow> updated cur' s c' cur'' \<Longrightarrow> updated cur s c' cur''"
  by (simp add: updated_def)

lemma vivify_empty: "child (vivify nxt) r = VNil"
  by (simp add: vivify_def at_key_def at_idx_def)

lemma walkAndSet_ok:
  "list_all legal_step steps \<Longrightarrow> steps \<noteq> [] \<Longrightarrow> walkAndSet cur steps v = (cur', out) \<Longrightarrow> write_ok cur steps v cur' out"
proof (induction cur steps v arbitrary: cur' out rule: walkAndSet.induct)
  case (2 cur s v)
  then have "if out = Done then v \<noteq> VNil \<and> updated cur s v cur' else cur' = cur"
    using setLast_spec[of s cur v cur' out] by simp
  then show ?case using write_ok_last[of s cur v cur'] write_ok_refl[of out cur "[s]" v] 2(1)
    by (cases "out = Done") auto
next
  case (3 cur s s' ss v)
  have s: "legal_step s" and ss: "list_all legal_step (s' # ss)" using 3(2) by simp_all
  consider (old) c where "descendOrVivify cur s s' = (cur, Inl c)" "slot cur s" "child cur s = c"
    | (bad) bad where "descendOrVivify cur s s' = (cur, Inr bad)" "bad \<noteq> Done"
    | (new) "child cur s = VNil" "descendOrVivify cur s s' =
      (case setLast cur s (vivify s') of (cur', Done) \<Rightarrow> (cur', Inl (vivify s')) | (cur', bad) \<Rightarrow> (cur', Inr bad))"
    using descend_cases[of cur s s'] by blast
  then show ?case
  proof cases
    case old
    obtain c' out' where w: "walkAndSet c (s' # ss) v = (c', out')" by fastforce
    have "write_ok c (s' # ss) v c' out'" using 3(1)[OF old(1)[symmetric] refl ss] w by simp
    moreover have "cur' = put_child cur s c'" "out' = out" using 3(4) old w by auto
    ultimately show ?thesis using write_ok_step[OF s updated_put[OF s old(2)]] old(3) by auto
  next
    case bad
    then show ?thesis using 3(4) write_ok_refl by auto
  next
    case new
    obtain cur1 out1 where sl: "setLast cur s (vivify s') = (cur1, out1)" by fastforce
    show ?thesis
    proof (cases "out1 = Done")
      case True
      have up: "updated cur s (vivify s') cur1" using setLast_spec[OF s sl] True by simp
      then have "slot cur1 s" by (simp add: updated_def)
      have d: "descendOrVivify cur s s' = (cur1, Inl (vivify s'))" using new sl True by simp
      obtain c' out' where w: "walkAndSet (vivify s') (s' # ss) v = (c', out')" by fastforce
      have wr: "write_ok (vivify s') (s' # ss) v c' out'" using 3(1)[OF d[symmetric] refl ss] w by simp
      have eq: "cur' = put_child cur1 s c'" "out' = out" using 3(4) d w by auto
      have fresh: "child cur s = vivify s' \<or> child cur s = VNil \<and> (\<forall>r. child (vivify s' :: 'a val) r = VNil)"
        using new(1) vivify_empty by blast
      show ?thesis
        using write_ok_step[OF s updated_trans[OF up updated_put[OF s \<open>slot cur1 s\<close>]] wr _ fresh] eq by simp
    next
      case False
      then have "cur1 = cur" using setLast_spec[OF s sl] by simp
      then have "cur' = cur" "out = out1" using 3(4) new(2) sl False by (auto split: outcome.splits)
      then show ?thesis using write_ok_refl False by simp
    qed
  qed
qed simp

text \<open>
  Claim C39. A structural write is read back and touches nothing else: after \<^verbatim>\<open>SetPath\<close> succeeds,
  walking the same steps returns the written value, and every address that neither contains nor
  is contained in the written one holds what it held before.
\<close>

theorem setpath_read_back:
  assumes "ParsePath path = Inr steps" and "list_all legal_step steps" and "SetPath root path v = (root', Done)"
  shows "WalkSteps root' steps = Inr v \<and>
         (\<forall>ss. list_all legal_step ss \<longrightarrow> \<not> prefix ss steps \<longrightarrow> \<not> prefix steps ss \<longrightarrow> at root' ss = at root ss)"
proof -
  have "steps \<noteq> []" "walkAndSet root steps v = (root', Done)"
    using assms(1,3) by (auto simp: SetPath_def split: if_splits)
  from walkAndSet_ok[OF assms(2) this] show ?thesis
    using at_WalkSteps[of root' steps] by (auto simp: write_ok_def)
qed

lemma sample_setpath:
  "ParsePath ''a[0]'' = Inr [field_step ''a'', index_step 0]"
  "SetPath (Rec []) ''a[0]'' (Scalar (7::nat)) = (Rec [(''a'', Lst Iface [Scalar 7])], Done)"
  by code_simp+

theorem setpath_read_back_witness:
  "WalkSteps (Rec [(''a'', Lst Iface [Scalar (7::nat)])]) [field_step ''a'', index_step 0] = Inr (Scalar 7)"
  using setpath_read_back[OF sample_setpath(1) _ sample_setpath(2)]
  by (simp add: legal_name_def CheckName_def reservedNameChars_def)

text \<open>
  A failed structural write loses no data: whatever the outcome, an address that held
  something before a failed \<^verbatim>\<open>SetPath\<close> shows the same leaf, or a container of the same kind, after it;
  the write may only leave empty containers it had created at addresses that held nothing.
\<close>

theorem setpath_failure_keeps_data:
  assumes "ParsePath path = Inr steps" and "list_all legal_step steps"
    and "SetPath root path v = (root', out)" and "out \<noteq> Done"
    and "list_all legal_step ss" and "at root ss \<noteq> VNil"
  shows "obs_at root' ss = obs_at root ss"
proof (cases "steps = []")
  case True
  then show ?thesis using assms(1,3) by (auto simp: SetPath_def)
next
  case False
  then have "walkAndSet root steps v = (root', out)" using assms(1,3) by (auto simp: SetPath_def)
  from walkAndSet_ok[OF assms(2) False this] show ?thesis using assms(4-6) by (simp add: write_ok_def)
qed

lemma sample_setpath_fail:
  "ParsePath ''a[1]'' = Inr [field_step ''a'', index_step 1]"
  "SetPath (Rec [(''b'', Scalar (5::nat))]) ''a[1]'' (Scalar 7) =
     (Rec [(''b'', Scalar 5), (''a'', Lst Iface [])],
      Failed (AppError OutOfRangeError ''set index %d is out of range (len: %d)''))"
  by code_simp+

theorem setpath_failure_keeps_data_witness:
  "obs_at (Rec [(''b'', Scalar (5::nat)), (''a'', Lst Iface [])]) [field_step ''b''] =
   obs_at (Rec [(''b'', Scalar 5)]) [field_step ''b'']"
  using setpath_failure_keeps_data[OF sample_setpath_fail(1) _ sample_setpath_fail(2), of "[field_step ''b'']"]
  by (simp add: legal_name_def CheckName_def reservedNameChars_def child_field at_key_def del: child.simps)

text \<open>
  A write that meets a list where it needs a record panics when the list holds
  interface elements, although the same mistake on any other container is a classified error:
  \<^verbatim>\<open>SetPath\<close> itself creates such a list for a missing index step, and a later field write into it
  brings the caller down instead of returning the error.
\<close>

theorem setpath_field_into_list_panics:
  "SetPath (Rec []) ''a[0]'' (Scalar x) = (Rec [(''a'', Lst Iface [Scalar x])], Done) \<and>
   SetPath (Rec [(''a'', Lst Iface [Scalar x])]) ''a.b'' v = (Rec [(''a'', Lst Iface [Scalar x])], Panic)"
proof -
  have p: "ParsePath ''a[0]'' = Inr [field_step ''a'', index_step 0]" "ParsePath ''a.b'' = Inr [field_step ''a'', field_step ''b'']"
    by code_simp+
  show ?thesis
    by (simp add: SetPath_def p descendOrVivify_def field_step_def index_step_def Record_Field_def SetField_def
        CheckName_def reservedNameChars_def vivify_def setLast_def SetAt_def takes_value_def put_child_def notWritable_def)
qed

text \<open>
  A record accepts a field it cannot address: the empty name passes the name check, so
  a record is built with it, although no path names it; the change the commit diff then reports
  has a path that does not parse, and the overlap test on it fails.
\<close>

theorem record_empty_name_unaddressable:
  assumes "v \<noteq> VNil"
  shows "NewRecord [([], v)] = Inr (Rec [([], v)]) \<and>
         DiffValues deq ''order'' (Rec []) (Rec [([], v)]) = [Change ''order.'' ValueAdded] \<and>
         PathsOverlap ''order.'' ''order'' = Inl (pathErr ''malformed field step in %q'')"
proof -
  have "PathsOverlap ''order.'' ''order'' = Inl (pathErr ''malformed field step in %q'')" by code_simp
  then show ?thesis using assms
    by (cases v) (auto simp: NewRecord_def CheckName_def DiffValues_def at_key_def old_only_def)
qed

theorem record_empty_name_unaddressable_witness:
  "NewRecord [([], Scalar (1::nat))] = Inr (Rec [([], Scalar 1)])"
  using record_empty_name_unaddressable[of "Scalar (1::nat)" "(=)"] by simp

end
