(* ===== verification/Data_Shape.thy ===== *)
theory Data_Shape
  imports Data_Value
begin

text \<open>
  The shape of a value (\<^verbatim>\<open>src/pkg/model/data/shape.go\<close>): the field infos at one level, and the
  depth-first walk that visits every node with its path. The Go type names of a scalar and of a
  raw element are the parameters \<open>tyName\<close> and \<open>tyString\<close> (\<^verbatim>\<open>reflect.Type\<close>'s \<^verbatim>\<open>Name\<close> and \<^verbatim>\<open>String\<close>).

  The walk is shown to visit exactly the addresses that navigation reaches, each with the kind
  of the value found there.
\<close>

record FieldInfo =
  fi_name :: string
  fi_kind :: string
  fi_type :: string

record 'a types =
  tyName :: "'a \<Rightarrow> string"
  tyString :: "'a \<Rightarrow> string"

fun leafType :: "'a types \<Rightarrow> 'a val \<Rightarrow> string" where
  "leafType ty (Scalar a) = tyName ty a"
| "leafType ty (Raw a) = tyString ty a"
| "leafType ty _ = ''nil''"

definition infoFor :: "'a types \<Rightarrow> string \<Rightarrow> 'a val \<Rightarrow> FieldInfo" where
  "infoFor ty name v =
     \<lparr>fi_name = name, fi_kind = kindOf v, fi_type = (if kindOf v = ''scalar'' then leafType ty v else [])\<rparr>"

definition resolveInto :: "'a val \<Rightarrow> string \<Rightarrow> 'a val result" where
  "resolveInto v path =
     (if path = [] then Inr v
      else
        (case SplitPath path of
           Inl e \<Rightarrow> Inl e
         | Inr (head, steps) \<Rightarrow>
             (if head \<noteq> [] then
                (case v of
                   Rec fs \<Rightarrow> (case Record_Field fs head of Inl e \<Rightarrow> Inl e | Inr c \<Rightarrow> WalkSteps c steps)
                 | _ \<Rightarrow> Inl notNavigable)
              else WalkSteps v steps)))"

definition unknown_slot :: "string \<Rightarrow> FieldInfo" where
  "unknown_slot name = \<lparr>fi_name = name, fi_kind = ''unknown'', fi_type = []\<rparr>"

definition star_label :: string where
  "star_label = [CHR ''['', dquote, CHR ''*'', dquote, CHR '']'']"

definition schema_of :: "'a types \<Rightarrow> 'a val \<Rightarrow> FieldInfo list" where
  "schema_of ty n =
     (case n of
        Rec fs \<Rightarrow> map (\<lambda>k. infoFor ty k (at_key fs k)) (keys_of fs)
      | Lst t xs \<Rightarrow> [if xs = [] then unknown_slot ''[]'' else infoFor ty ''[]'' (at_idx xs 0)]
      | MapV t es \<Rightarrow> [if es = [] then unknown_slot star_label else infoFor ty star_label (at_key es (hd (map_keys es)))]
      | _ \<Rightarrow> [infoFor ty [] n])"

definition SchemaAt :: "'a types \<Rightarrow> 'a val \<Rightarrow> string \<Rightarrow> FieldInfo list result" where
  "SchemaAt ty v path = (case resolveInto v path of Inl e \<Rightarrow> Inl e | Inr n \<Rightarrow> Inr (schema_of ty n))"

text \<open>The calls of \<^verbatim>\<open>visit\<close>, in order.\<close>

function (sequential) walkChildren :: "'a types \<Rightarrow> string \<Rightarrow> 'a val \<Rightarrow> (string \<times> FieldInfo) list" where
  "walkChildren ty path (Rec fs) =
     concat (map (\<lambda>k. (path @ ''.'' @ k, infoFor ty k (at_key fs k)) # walkChildren ty (path @ ''.'' @ k) (at_key fs k))
       (keys_of fs))"
| "walkChildren ty path (Lst t xs) =
     concat (map (\<lambda>i. (path @ indexLabel i, infoFor ty (indexLabel i) (at_idx xs i)) #
         walkChildren ty (path @ indexLabel i) (at_idx xs i)) [0..<length xs])"
| "walkChildren ty path (MapV t es) =
     concat (map (\<lambda>k. (path @ KeyLabel k, infoFor ty (KeyLabel k) (at_key es k)) # walkChildren ty (path @ KeyLabel k) (at_key es k))
       (map_keys es))"
| "walkChildren ty path v = []"
  by pat_completeness auto
termination
proof (relation "measure (\<lambda>(ty, path, v). depth v)", goal_cases)
  case (2 ty path fs x)
  then show ?case using depth_at_key(1)[of fs x] by simp
next
  case (3 ty path t xs x)
  then show ?case using depth_at_idx[of xs x t] by simp
next
  case (4 ty path t es x)
  then show ?case using depth_at_key(2)[of es x t] by simp
qed simp

definition Walk :: "'a types \<Rightarrow> 'a val \<Rightarrow> (string \<times> FieldInfo) list" where
  "Walk ty v = ([], infoFor ty [] v) # walkChildren ty [] v"

section \<open>The walk visits what navigation reaches\<close>

definition step_name :: "step \<Rightarrow> string" where
  "step_name s = (if isField s then st_field s else render_step s)"

definition address_name :: "step list \<Rightarrow> string" where
  "address_name ss = (if ss = [] then [] else step_name (last ss))"

text \<open>The legal steps into the children a container has.\<close>

fun child_steps :: "'a val \<Rightarrow> step list" where
  "child_steps (Rec fs) = map field_step (keys_of fs)"
| "child_steps (MapV t es) = map key_step (map_keys es)"
| "child_steps (Lst t xs) = map index_step [0..<length xs]"
| "child_steps _ = []"

lemma step_name_simps:
  "f \<noteq> [] \<Longrightarrow> step_name (field_step f) = f" "k \<noteq> [] \<Longrightarrow> step_name (key_step k) = KeyLabel k"
  "step_name (index_step i) = indexLabel i"
  by (simp_all add: step_name_def render_simps isField_def field_step_def key_step_def)
    (simp_all add: index_step_def render_step_def isField_def isKey_def key_step_def)

lemma walkChildren_steps:
  "legal_val v \<Longrightarrow> walkChildren ty path v =
     concat (map (\<lambda>s. (path @ render_step s, infoFor ty (step_name s) (child v s)) #
       walkChildren ty (path @ render_step s) (child v s)) (child_steps v))"
proof (cases v)
  case (Rec fs)
  assume l: "legal_val v"
  have "k \<noteq> []" if "k \<in> set (keys_of fs)" for k
    using legal_field_name[OF l[unfolded Rec] that] by (simp add: legal_name_def)
  then show ?thesis unfolding Rec walkChildren.simps child_steps.simps map_map
    by (intro arg_cong[of _ _ concat] map_cong)
      (auto simp: render_simps child_field step_name_simps simp del: child.simps)
next
  case (MapV t es)
  assume l: "legal_val v"
  have "k \<noteq> []" if "k \<in> set (map_keys es)" for k
    using legal_key_step[OF l[unfolded MapV]] that by simp
  then show ?thesis unfolding MapV walkChildren.simps child_steps.simps map_map
    by (intro arg_cong[of _ _ concat] map_cong)
      (auto simp: render_simps child_key step_name_simps simp del: child.simps)
next
  case (Lst t xs)
  then show ?thesis unfolding Lst walkChildren.simps child_steps.simps map_map
    by (intro arg_cong[of _ _ concat] map_cong)
      (auto simp: render_simps child_index step_name_simps simp del: child.simps)
qed auto

lemma child_steps_walk:
  assumes "legal_val v" and "legal_step s"
  shows "WalkSteps v (s # ss) = Inr u \<longleftrightarrow> s \<in> set (child_steps v) \<and> WalkSteps (child v s) ss = Inr u"
  using assms(2)
proof (cases rule: legal_step_cases)
  case (field f)
  then have "f \<noteq> []" by (simp add: legal_name_def)
  then show ?thesis unfolding field(2)
    by (cases v) (auto simp: isField_def isKey_def field_step_def key_step_def index_step_def Record_Field_def at_key_def map_keys_def image_iff
        split: option.splits simp: map_of_eq_None_iff dest!: map_of_SomeD intro!: rev_bexI)
next
  case (key k)
  then show ?thesis unfolding key(2)
    by (cases v) (auto simp: isField_def isKey_def field_step_def key_step_def index_step_def Map_Entry_def at_key_def image_iff
        split: option.splits simp: map_of_eq_None_iff dest!: map_of_SomeD intro!: rev_bexI)
next
  case (index i)
  then show ?thesis using assms(1) unfolding index(2)
    by (cases v) (auto simp: isField_def isKey_def field_step_def key_step_def index_step_def GetAt_def at_idx_def image_iff
        list_all_iff legal_name_def)
qed

lemma child_steps_legal:
  assumes "legal_val v" and "s \<in> set (child_steps v)"
  shows "legal_step s" and "legal_val (child v s)"
proof -
  show "legal_step s" using assms by (cases v) (auto simp: list_all_iff)
  show "legal_val (child v s)" using assms(1) legal_at_key legal_at_idx
    by (cases v) (auto simp del: legal_val.simps simp: legal_val.simps(4-6))
qed

lemma child_depth: "s \<in> set (child_steps v) \<Longrightarrow> depth (child v s) < depth v"
proof (cases v)
  case (Rec fs)
  then show ?thesis using depth_at_key(1)[of fs "st_field s"] by auto
next
  case (MapV t es)
  then show ?thesis using depth_at_key(2)[of es "st_key s" t] by auto
next
  case (Lst t xs)
  then show ?thesis using depth_at_idx[of xs "st_index s" t] by auto
qed auto

text \<open>An address of a value: legal steps that navigation can take.\<close>

definition reaches :: "'a val \<Rightarrow> step list \<Rightarrow> 'a val \<Rightarrow> bool" where
  "reaches v ss u \<longleftrightarrow> list_all legal_step ss \<and> WalkSteps v ss = Inr u"

lemma reaches_Cons:
  "legal_val v \<Longrightarrow> reaches v (s # ss) u \<longleftrightarrow> s \<in> set (child_steps v) \<and> reaches (child v s) ss u"
  unfolding reaches_def using child_steps_walk[of v s ss u] child_steps_legal(1)[of v s] by auto

lemma walkChildren_visits:
  "legal_val v \<Longrightarrow> (p, fi) \<in> set (walkChildren ty path v) \<longleftrightarrow>
     (\<exists>ss u. ss \<noteq> [] \<and> reaches v ss u \<and> p = path @ render_steps ss \<and> fi = infoFor ty (address_name ss) u)"
proof (induction "depth v" arbitrary: v path p fi rule: less_induct)
  case less
  have IH: "(p, fi) \<in> set (walkChildren ty (path @ render_step s) (child v s)) \<longleftrightarrow>
     (\<exists>ss u. ss \<noteq> [] \<and> reaches (child v s) ss u \<and> p = (path @ render_step s) @ render_steps ss \<and>
        fi = infoFor ty (address_name ss) u)" if "s \<in> set (child_steps v)" for s
    using less.hyps[OF child_depth[OF that] child_steps_legal(2)[OF less.prems that]] .
  have "(p, fi) \<in> set (walkChildren ty path v) \<longleftrightarrow>
      (\<exists>s\<in>set (child_steps v). (p = path @ render_step s \<and> fi = infoFor ty (step_name s) (child v s)) \<or>
         (p, fi) \<in> set (walkChildren ty (path @ render_step s) (child v s)))"
    unfolding walkChildren_steps[OF less.prems, of ty path] by auto
  also have "\<dots> \<longleftrightarrow> (\<exists>s ss u. reaches v (s # ss) u \<and> p = path @ render_steps (s # ss) \<and> fi = infoFor ty (address_name (s # ss)) u)"
  proof (intro iffI; elim bexE exE conjE)
    fix s
    assume s: "s \<in> set (child_steps v)" and
      "(p = path @ render_step s \<and> fi = infoFor ty (step_name s) (child v s)) \<or>
       (p, fi) \<in> set (walkChildren ty (path @ render_step s) (child v s))"
    then consider (here) "p = path @ render_step s" "fi = infoFor ty (step_name s) (child v s)"
      | (below) ss u where "ss \<noteq> []" "reaches (child v s) ss u" "p = (path @ render_step s) @ render_steps ss"
        "fi = infoFor ty (address_name ss) u" using IH[OF s] by blast
    then show "\<exists>s ss u. reaches v (s # ss) u \<and> p = path @ render_steps (s # ss) \<and> fi = infoFor ty (address_name (s # ss)) u"
    proof cases
      case here
      then show ?thesis using s reaches_Cons[OF less.prems, of s "[]"]
        by (intro exI[of _ s] exI[of _ "[]"]) (auto simp: reaches_def address_name_def)
    next
      case below
      then show ?thesis using s reaches_Cons[OF less.prems, of s ss u]
        by (intro exI[of _ s] exI[of _ ss] exI[of _ u]) (auto simp: address_name_def)
    qed
  next
    fix s ss u
    assume r: "reaches v (s # ss) u" and p: "p = path @ render_steps (s # ss)" and f: "fi = infoFor ty (address_name (s # ss)) u"
    then have s: "s \<in> set (child_steps v)" and rc: "reaches (child v s) ss u" using reaches_Cons[OF less.prems] by blast+
    show "\<exists>s\<in>set (child_steps v). (p = path @ render_step s \<and> fi = infoFor ty (step_name s) (child v s)) \<or>
         (p, fi) \<in> set (walkChildren ty (path @ render_step s) (child v s))"
    proof (intro bexI[OF _ s], cases "ss = []")
      case True
      then show "(p = path @ render_step s \<and> fi = infoFor ty (step_name s) (child v s)) \<or>
         (p, fi) \<in> set (walkChildren ty (path @ render_step s) (child v s))"
        using rc p f by (auto simp: reaches_def address_name_def)
    next
      case False
      then show "(p = path @ render_step s \<and> fi = infoFor ty (step_name s) (child v s)) \<or>
         (p, fi) \<in> set (walkChildren ty (path @ render_step s) (child v s))"
        using IH[OF s] rc p f by (auto simp: address_name_def)
    qed
  qed
  finally show ?case by (metis neq_Nil_conv)
qed

text \<open>
  The shape walk is exact: a pair of a path and a field info is among its visits if and
  only if the path is the text of an address of the value and the info describes the value that
  navigating to it returns.
\<close>

theorem walk_visits_addresses:
  assumes "legal_val v"
  shows "(p, fi) \<in> set (Walk ty v) \<longleftrightarrow>
     (\<exists>ss u. list_all legal_step ss \<and> WalkSteps v ss = Inr u \<and> p = render_steps ss \<and>
        fi = infoFor ty (address_name ss) u)"
proof -
  have "(p, fi) \<in> set (Walk ty v) \<longleftrightarrow> (p = [] \<and> fi = infoFor ty [] v) \<or>
     (\<exists>ss u. ss \<noteq> [] \<and> reaches v ss u \<and> p = [] @ render_steps ss \<and> fi = infoFor ty (address_name ss) u)"
    unfolding Walk_def using walkChildren_visits[OF assms, of p fi ty "[]"] by simp
  also have "\<dots> \<longleftrightarrow> (\<exists>ss u. reaches v ss u \<and> p = render_steps ss \<and> fi = infoFor ty (address_name ss) u)"
  proof (intro iffI; elim disjE exE conjE)
    assume "p = []" "fi = infoFor ty [] v"
    then show "\<exists>ss u. reaches v ss u \<and> p = render_steps ss \<and> fi = infoFor ty (address_name ss) u"
      by (intro exI[of _ "[]"] exI[of _ v]) (simp add: reaches_def address_name_def)
  next
    fix ss u
    assume "reaches v ss u" "p = render_steps ss" "fi = infoFor ty (address_name ss) u"
    then show "(p = [] \<and> fi = infoFor ty [] v) \<or>
      (\<exists>ss u. ss \<noteq> [] \<and> reaches v ss u \<and> p = [] @ render_steps ss \<and> fi = infoFor ty (address_name ss) u)"
      by (cases "ss = []") (auto simp: reaches_def address_name_def)
  qed auto
  finally show ?thesis by (simp add: reaches_def)
qed

definition sample_types :: "nat types" where
  "sample_types = \<lparr>tyName = (\<lambda>_. ''int''), tyString = (\<lambda>_. ''int'')\<rparr>"

theorem walk_visits_addresses_witness:
  "(([], infoFor sample_types [] (Lst Iface [Scalar 3])) \<in> set (Walk sample_types (Lst Iface [Scalar 3]))) \<longleftrightarrow>
     (\<exists>ss u. list_all legal_step ss \<and> WalkSteps (Lst Iface [Scalar 3]) ss = Inr u \<and> [] = render_steps ss \<and>
        infoFor sample_types [] (Lst Iface [Scalar 3]) = infoFor sample_types (address_name ss) u)"
  by (rule walk_visits_addresses) simp

end
