(* ===== verification/Data_Array.thy ===== *)
theory Data_Array
  imports Gobpm_Prelude
begin

text \<open>
  The list value (\<^verbatim>\<open>src/pkg/model/data/values/array.go\<close>, \<^verbatim>\<open>array_t.go\<close>): a slice with an iteration cursor,
  -1 on the empty collection. An argument of type \<^verbatim>\<open>any\<close> is \<open>Some x\<close> when its dynamic type is the
  expected one and \<open>None\<close> otherwise; \<open>a_iface\<close> says whether the element type is an interface, in
  which case the failure message of \<^verbatim>\<open>checkValue\<close> dereferences a nil \<^verbatim>\<open>reflect.Type\<close> and panics.

  The lemmas: the cursor invariant is kept by every operation, so reading the current element
  of a non-empty collection never panics, and the typed twins agree with the untyped operations
  except \<^verbatim>\<open>InsertT\<close>.
\<close>

record 'a arr =
  a_elements :: "'a list"
  a_index :: int
  a_iface :: bool

datatype 'a ares = AOk 'a | AErr app_error | AEOF | APanic

section \<open>Checks\<close>

definition checkValue :: "bool \<Rightarrow> 'v option \<Rightarrow> 'v ares" where
  "checkValue iface value =
     (case value of
        Some v \<Rightarrow> AOk v
      | None \<Rightarrow> if iface then APanic else AErr (AppError TypeCastingError ''value (%v) isn't a value of type %q''))"

definition checkForEmpty :: "'a arr \<Rightarrow> unit ares" where
  "checkForEmpty a =
     (if a_index a < 0 then AErr (AppError EmptyCollectionError ''collection is empty'') else AOk ())"

definition checkIndex :: "int \<Rightarrow> 'a arr \<Rightarrow> unit ares" where
  "checkIndex index a =
     (case checkForEmpty a of
        AOk _ \<Rightarrow>
          (if index < 0 \<or> int (length (a_elements a)) - 1 < index
           then AErr (AppError OutOfRangeError ''index %d is out of range (max index: %d)'') else AOk ())
      | bad \<Rightarrow> bad)"

section \<open>Operations\<close>

text \<open>A mutating operation returns the array as it is afterwards and its result.\<close>

definition NewArray :: "bool \<Rightarrow> 'a list \<Rightarrow> 'a arr" where
  "NewArray iface values =
     \<lparr>a_elements = values, a_index = (if values = [] then -1 else 0), a_iface = iface\<rparr>"

definition Array_Get :: "'a arr \<Rightarrow> 'a ares" where
  "Array_Get a = (if a_index a < 0 then APanic
                  else if nat (a_index a) < length (a_elements a) then AOk (a_elements a ! nat (a_index a))
                  else APanic)"

definition Array_UpdateT :: "'a arr \<Rightarrow> 'a \<Rightarrow> 'a arr \<times> unit ares" where
  "Array_UpdateT a v =
     (if a_index a < 0 then (a, AErr (AppError EmptyCollectionError ''collection is empty''))
      else (a\<lparr>a_elements := (a_elements a)[nat (a_index a) := v]\<rparr>, AOk ()))"

definition Array_Update :: "'a arr \<Rightarrow> 'a option \<Rightarrow> 'a arr \<times> unit ares" where
  "Array_Update a value =
     (if a_index a < 0 then (a, AErr (AppError EmptyCollectionError ''collection is empty''))
      else (case checkValue (a_iface a) value of
              AOk v \<Rightarrow> (a\<lparr>a_elements := (a_elements a)[nat (a_index a) := v]\<rparr>, AOk ())
            | AErr e \<Rightarrow> (a, AErr e) | AEOF \<Rightarrow> (a, AEOF) | APanic \<Rightarrow> (a, APanic)))"

definition Array_Clone :: "'a arr \<Rightarrow> 'a arr" where
  "Array_Clone a = (NewArray (a_iface a) (a_elements a))\<lparr>a_index := a_index a\<rparr>"

definition Count :: "'a arr \<Rightarrow> nat" where
  "Count a = length (a_elements a)"

definition Rewind :: "'a arr \<Rightarrow> 'a arr" where
  "Rewind a = (if a_index a < 0 then a else a\<lparr>a_index := 0\<rparr>)"

definition GoToT :: "'a arr \<Rightarrow> int \<Rightarrow> 'a arr \<times> unit ares" where
  "GoToT a index =
     (let idx = (if index < 0 then int (length (a_elements a)) + index else index)
      in case checkIndex idx a of
           AOk _ \<Rightarrow> (a\<lparr>a_index := idx\<rparr>, AOk ())
         | bad \<Rightarrow> (a, bad))"

definition GoTo :: "'a arr \<Rightarrow> int option \<Rightarrow> 'a arr \<times> unit ares" where
  "GoTo a index =
     (case checkValue False index of
        AOk i \<Rightarrow>
          (let idx = (if i < 0 then int (length (a_elements a)) + i else i)
           in case checkIndex idx a of
                AOk _ \<Rightarrow> (a\<lparr>a_index := idx\<rparr>, AOk ())
              | bad \<Rightarrow> (a, bad))
      | AErr e \<Rightarrow> (a, AErr e) | AEOF \<Rightarrow> (a, AEOF) | APanic \<Rightarrow> (a, APanic))"

definition Array_Next :: "'a arr \<Rightarrow> bool \<Rightarrow> 'a arr \<times> unit ares" where
  "Array_Next a forward =
     (let idx = (if forward then a_index a + 1 else a_index a - 1)
      in if idx = int (length (a_elements a)) then (a, AEOF)
         else (case checkIndex idx a of
                 AOk _ \<Rightarrow> (a\<lparr>a_index := idx\<rparr>, AOk ())
               | bad \<Rightarrow> (a, bad)))"

definition GetKeys :: "'a arr \<Rightarrow> nat list" where
  "GetKeys a = [0..<length (a_elements a)]"

definition Clear :: "'a arr \<Rightarrow> 'a arr" where
  "Clear a = a\<lparr>a_elements := [], a_index := -1\<rparr>"

definition AddT :: "'a arr \<Rightarrow> 'a \<Rightarrow> 'a arr" where
  "AddT a v =
     (let a' = a\<lparr>a_elements := a_elements a @ [v]\<rparr>
      in if a_index a < 0 then a'\<lparr>a_index := 0\<rparr> else a')"

definition Array_Add :: "'a arr \<Rightarrow> 'a option \<Rightarrow> 'a arr \<times> unit ares" where
  "Array_Add a value =
     (case checkValue (a_iface a) value of
        AOk v \<Rightarrow> (AddT a v, AOk ())
      | AErr e \<Rightarrow> (a, AErr e) | AEOF \<Rightarrow> (a, AEOF) | APanic \<Rightarrow> (a, APanic))"

definition GetAtT :: "'a arr \<Rightarrow> int \<Rightarrow> 'a ares" where
  "GetAtT a idx =
     (case checkIndex idx a of
        AOk _ \<Rightarrow> AOk (a_elements a ! nat idx)
      | AErr e \<Rightarrow> AErr e | AEOF \<Rightarrow> AEOF | APanic \<Rightarrow> APanic)"

definition Array_GetAt :: "'a arr \<Rightarrow> int option \<Rightarrow> 'a ares" where
  "Array_GetAt a index =
     (case checkValue False index of
        AOk idx \<Rightarrow> GetAtT a idx
      | AErr e \<Rightarrow> AErr e | AEOF \<Rightarrow> AEOF | APanic \<Rightarrow> APanic)"

definition setAt :: "'a arr \<Rightarrow> int \<Rightarrow> 'a \<Rightarrow> 'a arr \<times> unit ares" where
  "setAt a idx v =
     (if 0 \<le> idx \<and> idx < int (length (a_elements a)) then (a\<lparr>a_elements := (a_elements a)[nat idx := v]\<rparr>, AOk ())
      else if idx = int (length (a_elements a)) then (AddT a v, AOk ())
      else (a, AErr (AppError OutOfRangeError ''set index %d is out of range (len: %d)'')))"

definition Array_SetAt :: "'a arr \<Rightarrow> int option \<Rightarrow> 'a option \<Rightarrow> 'a arr \<times> unit ares" where
  "Array_SetAt a index value =
     (case checkValue (a_iface a) value of
        AOk v \<Rightarrow>
          (case checkValue False index of
             AOk idx \<Rightarrow> setAt a idx v
           | AErr e \<Rightarrow> (a, AErr e) | AEOF \<Rightarrow> (a, AEOF) | APanic \<Rightarrow> (a, APanic))
      | AErr e \<Rightarrow> (a, AErr e) | AEOF \<Rightarrow> (a, AEOF) | APanic \<Rightarrow> (a, APanic))"

definition insert_at :: "'a list \<Rightarrow> nat \<Rightarrow> 'a \<Rightarrow> 'a list" where
  "insert_at xs i v = take i xs @ v # drop i xs"

definition Array_Insert :: "'a arr \<Rightarrow> 'a option \<Rightarrow> int option \<Rightarrow> 'a arr \<times> unit ares" where
  "Array_Insert a value index =
     (case checkValue (a_iface a) value of
        AOk v \<Rightarrow>
          (case checkValue False index of
             AOk idx \<Rightarrow>
               (if idx < 0 \<or> int (length (a_elements a)) < idx
                then (a, AErr (AppError OutOfRangeError ''insert index %d is out of range (len: %d)''))
                else
                  (let a' = a\<lparr>a_elements := insert_at (a_elements a) (nat idx) v\<rparr>
                   in (if a_elements a = [] then a'\<lparr>a_index := 0\<rparr> else a', AOk ())))
           | AErr e \<Rightarrow> (a, AErr e) | AEOF \<Rightarrow> (a, AEOF) | APanic \<Rightarrow> (a, APanic))
      | AErr e \<Rightarrow> (a, AErr e) | AEOF \<Rightarrow> (a, AEOF) | APanic \<Rightarrow> (a, APanic))"

definition InsertT :: "'a arr \<Rightarrow> 'a \<Rightarrow> int \<Rightarrow> 'a arr \<times> unit ares" where
  "InsertT a v index =
     (case checkIndex index a of
        AOk _ \<Rightarrow> (a\<lparr>a_elements := insert_at (a_elements a) (nat index) v\<rparr>, AOk ())
      | bad \<Rightarrow> (a, bad))"

definition remove_at :: "'a list \<Rightarrow> nat \<Rightarrow> 'a list" where
  "remove_at xs i = take i xs @ drop (Suc i) xs"

definition DeleteT :: "'a arr \<Rightarrow> int \<Rightarrow> 'a arr \<times> unit ares" where
  "DeleteT a index =
     (case checkIndex index a of
        AOk _ \<Rightarrow>
          (let a' = a\<lparr>a_elements := remove_at (a_elements a) (nat index)\<rparr>; n = int (length (a_elements a'))
           in (if n = 0 then a'\<lparr>a_index := -1\<rparr>
               else if n \<le> a_index a' then a'\<lparr>a_index := n - 1\<rparr> else a', AOk ()))
      | bad \<Rightarrow> (a, bad))"

definition Array_Delete :: "'a arr \<Rightarrow> int option \<Rightarrow> 'a arr \<times> unit ares" where
  "Array_Delete a index =
     (case checkValue False index of
        AOk idx \<Rightarrow> DeleteT a idx
      | AErr e \<Rightarrow> (a, AErr e) | AEOF \<Rightarrow> (a, AEOF) | APanic \<Rightarrow> (a, APanic))"

section \<open>The cursor invariant\<close>

definition arr_inv :: "'a arr \<Rightarrow> bool" where
  "arr_inv a \<longleftrightarrow>
     (if a_elements a = [] then a_index a = -1
      else 0 \<le> a_index a \<and> a_index a < int (length (a_elements a)))"

datatype 'a arr_op =
    OUpdate "'a option" | OUpdateT 'a | ORewind | OGoTo "int option" | OGoToT int | ONext bool | OClear
  | OAdd "'a option" | OAddT 'a | OSetAt "int option" "'a option" | OSetAtT int 'a
  | OInsert "'a option" "int option" | OInsertT 'a int | ODelete "int option" | ODeleteT int | OClone

fun arr_step :: "'a arr \<Rightarrow> 'a arr_op \<Rightarrow> 'a arr" where
  "arr_step a (OUpdate v) = fst (Array_Update a v)"
| "arr_step a (OUpdateT v) = fst (Array_UpdateT a v)"
| "arr_step a ORewind = Rewind a"
| "arr_step a (OGoTo i) = fst (GoTo a i)"
| "arr_step a (OGoToT i) = fst (GoToT a i)"
| "arr_step a (ONext d) = fst (Array_Next a d)"
| "arr_step a OClear = Clear a"
| "arr_step a (OAdd v) = fst (Array_Add a v)"
| "arr_step a (OAddT v) = AddT a v"
| "arr_step a (OSetAt i v) = fst (Array_SetAt a i v)"
| "arr_step a (OSetAtT i v) = fst (setAt a i v)"
| "arr_step a (OInsert v i) = fst (Array_Insert a v i)"
| "arr_step a (OInsertT v i) = fst (InsertT a v i)"
| "arr_step a (ODelete i) = fst (Array_Delete a i)"
| "arr_step a (ODeleteT i) = fst (DeleteT a i)"
| "arr_step a OClone = Array_Clone a"

lemma length_insert_at: "i \<le> length xs \<Longrightarrow> length (insert_at xs i v) = Suc (length xs)"
  by (simp add: insert_at_def)

lemma length_remove_at: "i < length xs \<Longrightarrow> length (remove_at xs i) = length xs - 1"
  by (simp add: remove_at_def)

lemma checkIndex_iff:
  "arr_inv a \<Longrightarrow> checkIndex i a = AOk u \<longleftrightarrow> 0 \<le> i \<and> i < int (length (a_elements a))"
  by (auto simp: checkIndex_def checkForEmpty_def arr_inv_def split: if_splits)

lemma AddT_inv: "arr_inv a \<Longrightarrow> arr_inv (AddT a v)"
  by (auto simp: AddT_def arr_inv_def Let_def split: if_splits)

lemma goto_inv: "arr_inv a \<Longrightarrow> checkIndex i a = AOk u \<Longrightarrow> arr_inv (a\<lparr>a_index := i\<rparr>)"
  using checkIndex_iff[of a i u] by (auto simp: arr_inv_def)

lemma update_inv: "arr_inv a \<Longrightarrow> arr_inv (a\<lparr>a_elements := (a_elements a)[k := v]\<rparr>)"
  by (auto simp: arr_inv_def)

lemma insert_inv:
  "arr_inv a \<Longrightarrow> a_elements a \<noteq> [] \<Longrightarrow> i \<le> length (a_elements a) \<Longrightarrow>
     arr_inv (a\<lparr>a_elements := insert_at (a_elements a) i v\<rparr>)"
  by (auto simp: arr_inv_def insert_at_def)

lemma insert_empty_inv: "arr_inv a \<Longrightarrow> a_elements a = [] \<Longrightarrow>
     arr_inv (a\<lparr>a_elements := insert_at (a_elements a) i v, a_index := 0\<rparr>)"
  by (auto simp: arr_inv_def insert_at_def)

lemma DeleteT_inv:
  assumes "arr_inv a"
  shows "arr_inv (fst (DeleteT a i))"
proof (cases "checkIndex i a")
  case (AOk u)
  then have "0 \<le> i \<and> i < int (length (a_elements a))" using checkIndex_iff[OF assms] by blast
  then have "length (remove_at (a_elements a) (nat i)) = length (a_elements a) - 1" using length_remove_at[of "nat i" "a_elements a"] by (simp add: nat_less_iff)
  moreover have "length (remove_at (a_elements a) (nat i)) = 0 \<longleftrightarrow> remove_at (a_elements a) (nat i) = []" by simp
  ultimately show ?thesis using AOk assms by (auto simp: DeleteT_def Let_def arr_inv_def split: if_splits)
qed (use assms in \<open>auto simp: DeleteT_def\<close>)

lemma setAt_inv: "arr_inv a \<Longrightarrow> arr_inv (fst (setAt a i v))"
  using update_inv[of a] AddT_inv[of a] by (simp add: setAt_def)

lemma InsertT_inv:
  assumes "arr_inv a"
  shows "arr_inv (fst (InsertT a v i))"
proof (cases "checkIndex i a")
  case (AOk u)
  then have "0 \<le> i \<and> i < int (length (a_elements a))" using checkIndex_iff[OF assms] by blast
  then have "a_elements a \<noteq> []" "nat i \<le> length (a_elements a)" by auto
  then show ?thesis using AOk insert_inv[OF assms, of "nat i" v] by (simp add: InsertT_def)
qed (use assms in \<open>auto simp: InsertT_def\<close>)

lemma Insert_inv: "arr_inv a \<Longrightarrow> arr_inv (fst (Array_Insert a value index))"
  using insert_inv[of a] insert_empty_inv[of a]
  by (auto simp: Array_Insert_def Let_def split: ares.splits)

lemma goto_case_inv: "arr_inv a \<Longrightarrow> arr_inv (fst (case checkIndex i a of AOk _ \<Rightarrow> (a\<lparr>a_index := i\<rparr>, AOk ()) | bad \<Rightarrow> (a, bad)))"
  using goto_inv[of a i] by (cases "checkIndex i a") simp_all

lemma GoTo_inv:
  assumes "arr_inv a"
  shows "arr_inv (fst (GoTo a i))" and "arr_inv (fst (GoToT a j))" and "arr_inv (fst (Array_Next a d))"
  using goto_case_inv[OF assms] assms
  by (simp_all add: GoTo_def GoToT_def Array_Next_def Let_def checkValue_def split: option.split)

lemma Update_inv: "arr_inv a \<Longrightarrow> arr_inv (fst (Array_Update a v)) \<and> arr_inv (fst (Array_UpdateT a w))"
  using update_inv[of a] by (auto simp: Array_Update_def Array_UpdateT_def split: ares.splits)

lemma simple_inv:
  "arr_inv a \<Longrightarrow> arr_inv (Rewind a) \<and> arr_inv (Clear a) \<and> arr_inv (Array_Clone a)"
  by (auto simp: Rewind_def Clear_def Array_Clone_def NewArray_def arr_inv_def)

lemma untyped_inv:
  "arr_inv a \<Longrightarrow> arr_inv (fst (Array_Add a v)) \<and> arr_inv (fst (Array_SetAt a i v)) \<and> arr_inv (fst (Array_Delete a i))"
  using AddT_inv[of a] setAt_inv[of a] DeleteT_inv[of a]
  by (auto simp: Array_Add_def Array_SetAt_def Array_Delete_def split: ares.split)

lemma arr_step_inv: "arr_inv a \<Longrightarrow> arr_inv (arr_step a op)"
  using Update_inv[of a] GoTo_inv[of a] AddT_inv[of a] setAt_inv[of a] Insert_inv[of a] InsertT_inv[of a]
    DeleteT_inv[of a] simple_inv[of a] untyped_inv[of a]
  by (cases op) simp_all

text \<open>
  The iteration cursor is always usable: whatever sequence of operations, typed or not
  and failing or not, is applied to a new array, the cursor is -1 exactly when the array is empty
  and otherwise points at an element, so reading the current element panics only when the array
  is empty.
\<close>

theorem array_cursor_valid:
  "let a = foldl arr_step (NewArray iface values) ops
   in arr_inv a \<and> (Array_Get a = APanic \<longleftrightarrow> a_elements a = [])"
proof -
  have "arr_inv (foldl arr_step a ops)" if "arr_inv a" for a
    using that by (induction ops arbitrary: a) (auto simp: arr_step_inv)
  moreover have "arr_inv (NewArray iface values)" by (auto simp: NewArray_def arr_inv_def)
  ultimately have "arr_inv (foldl arr_step (NewArray iface values) ops)" by blast
  then show ?thesis by (auto simp: Let_def Array_Get_def arr_inv_def nat_less_iff split: if_splits)
qed

text \<open>
  \<^verbatim>\<open>InsertT\<close>, documented as the typed version of \<^verbatim>\<open>Insert\<close>, agrees with it exactly at the
  positions before the end: at the end of a collection, and into an empty one, \<^verbatim>\<open>Insert\<close> succeeds
  and \<^verbatim>\<open>InsertT\<close> is an error.
\<close>

theorem insertT_differs_at_end:
  assumes "arr_inv a"
  shows "(Array_Insert a (Some v) (Some i) = InsertT a v i \<or>
            snd (Array_Insert a (Some v) (Some i)) \<noteq> AOk ()) \<longleftrightarrow> i \<noteq> int (length (a_elements a))"
proof (cases "0 \<le> i \<and> i < int (length (a_elements a))")
  case True
  then have "a_elements a \<noteq> []" by auto
  then show ?thesis using True checkIndex_iff[OF assms, of i "()"] by (auto simp: Array_Insert_def InsertT_def checkValue_def)
next
  case False
  then have "checkIndex i a \<noteq> AOk ()" using checkIndex_iff[OF assms] by blast
  then have "snd (InsertT a v i) \<noteq> AOk ()" by (cases "checkIndex i a") (auto simp: InsertT_def)
  then have "InsertT a v i \<noteq> (b, AOk ())" for b by auto
  then show ?thesis using False by (auto simp: Array_Insert_def checkValue_def Let_def dest: sym)
qed

theorem insertT_differs_at_end_witness:
  "(Array_Insert (NewArray False [5::nat]) (Some 6) (Some 1) = InsertT (NewArray False [5]) 6 1 \<or>
      snd (Array_Insert (NewArray False [5::nat]) (Some 6) (Some 1)) \<noteq> AOk ()) \<longleftrightarrow>
     (1::int) \<noteq> int (length (a_elements (NewArray False [5::nat])))"
  by (rule insertT_differs_at_end) (simp add: arr_inv_def NewArray_def)

end
