(* ===== verification/Go_Strings.thy ===== *)
theory Go_Strings
  imports Gobpm_Prelude "HOL-Library.Sublist"
begin

text \<open>
  The string functions of the Go standard library that the data plane uses: \<^verbatim>\<open>strings.TrimSpace\<close> with
  the Unicode white space (as UTF-8 bytes), \<^verbatim>\<open>strings.Split\<close> and \<^verbatim>\<open>strings.Join\<close> on a one-byte separator.
\<close>

section \<open>TrimSpace\<close>

text \<open>The encodings of the runes \<^verbatim>\<open>unicode.IsSpace\<close> accepts.\<close>

definition space_runes :: "string list" where
  "space_runes =
     [[CHR 0x20], [CHR 0x09], [CHR 0x0A], [CHR 0x0B], [CHR 0x0C], [CHR 0x0D],
      [CHR 0xC2, CHR 0x85], [CHR 0xC2, CHR 0xA0], [CHR 0xE1, CHR 0x9A, CHR 0x80]] @
     map (\<lambda>n. [CHR 0xE2, CHR 0x80, char_of (n::nat)]) [128..<139] @
     [[CHR 0xE2, CHR 0x80, CHR 0xA8], [CHR 0xE2, CHR 0x80, CHR 0xA9], [CHR 0xE2, CHR 0x80, CHR 0xAF],
      [CHR 0xE2, CHR 0x81, CHR 0x9F], [CHR 0xE3, CHR 0x80, CHR 0x80]]"

function strip :: "string list \<Rightarrow> string \<Rightarrow> string" where
  "strip ws s =
     (case find (\<lambda>w. w \<noteq> [] \<and> prefix w s) ws of
        None \<Rightarrow> s
      | Some w \<Rightarrow> strip ws (drop (length w) s))"
  by pat_completeness auto
termination
  by (relation "measure (\<lambda>(ws, s). length s)") (auto simp: find_Some_iff prefix_def)

declare strip.simps [simp del]

definition TrimSpace :: "string \<Rightarrow> string" where
  "TrimSpace s = rev (strip (map rev space_runes) (rev (strip space_runes s)))"

lemma strip_none: "(\<And>w. w \<in> set ws \<Longrightarrow> w \<noteq> [] \<Longrightarrow> \<not> prefix w s) \<Longrightarrow> strip ws s = s"
  by (subst strip.simps) (auto split: option.split simp: find_Some_iff)

lemma strip_shorter: "length (strip ws s) \<le> length s"
proof (induction ws s rule: strip.induct)
  case (1 ws s)
  show ?case
  proof (cases "find (\<lambda>w. w \<noteq> [] \<and> prefix w s) ws")
    case None
    then show ?thesis by (subst strip.simps) simp
  next
    case (Some w)
    then show ?thesis using 1[OF Some] by (subst strip.simps) simp
  qed
qed

lemma strip_fix:
  assumes "strip ws s = s" and "w \<in> set ws" and "w \<noteq> []"
  shows "\<not> prefix w s"
proof
  assume p: "prefix w s"
  then have "find (\<lambda>w. w \<noteq> [] \<and> prefix w s) ws \<noteq> None" using assms(2,3) by (auto simp: find_None_iff)
  then obtain u where u: "find (\<lambda>w. w \<noteq> [] \<and> prefix w s) ws = Some u" by blast
  then have "u \<noteq> []" "prefix u s" by (auto simp: find_Some_iff)
  then have "length (drop (length u) s) < length s" by (auto simp: prefix_def)
  moreover have "strip ws s = strip ws (drop (length u) s)" using u by (subst strip.simps) simp
  ultimately show False using assms(1) strip_shorter[of ws "drop (length u) s"] by simp
qed

lemma slash_not_space: "CHR ''/'' \<notin> set w" if "w \<in> set space_runes"
proof -
  have "list_all (\<lambda>w. CHR ''/'' \<notin> set w) space_runes" by code_simp
  then show ?thesis using that by (auto simp: list_all_iff)
qed

lemma TrimSpace_trimmed:
  assumes "TrimSpace s = s"
  shows "strip space_runes s = s" and "strip (map rev space_runes) (rev s) = rev s"
proof -
  have l: "length (strip (map rev space_runes) (rev (strip space_runes s))) = length s"
    using arg_cong[OF assms, of length] by (simp add: TrimSpace_def)
  have "length s \<le> length (strip space_runes s)"
    using l strip_shorter[of "map rev space_runes" "rev (strip space_runes s)"] by simp
  moreover have "\<exists>k. strip ws t = drop k t" for ws t
  proof (induction ws t rule: strip.induct)
    case (1 ws t)
    show ?case
    proof (cases "find (\<lambda>w. w \<noteq> [] \<and> prefix w t) ws")
      case None
      then show ?thesis by (subst strip.simps) (auto intro: exI[of _ 0])
    next
      case (Some w)
      then show ?thesis using 1[OF Some] by (subst strip.simps) (auto simp: drop_drop)
    qed
  qed
  then obtain k where "strip space_runes s = drop k s" by blast
  ultimately show *: "strip space_runes s = s" by (cases "k = 0"; cases "s = []") auto
  show "strip (map rev space_runes) (rev s) = rev s"
    using assms unfolding TrimSpace_def * by (metis rev_rev_ident)
qed

text \<open>A text that begins with a slash and ends in a trimmed part after its last slash is trimmed.\<close>

lemma TrimSpace_path:
  assumes "TrimSpace c = c" and "c \<noteq> []" and x: "x = [] \<or> last x = CHR ''/''"
  shows "TrimSpace (CHR ''/'' # x @ c) = CHR ''/'' # x @ c"
proof -
  have left: "strip space_runes (CHR ''/'' # x @ c) = CHR ''/'' # x @ c"
    by (rule strip_none) (auto simp: prefix_Cons dest!: slash_not_space)
  have "\<not> prefix w (rev (CHR ''/'' # x @ c))" if w: "w \<in> set (map rev space_runes)" "w \<noteq> []" for w
  proof
    assume p: "prefix w (rev (CHR ''/'' # x @ c))"
    obtain y where y: "rev (CHR ''/'' # x @ c) = rev c @ CHR ''/'' # y"
      using x by (cases x rule: rev_cases) auto
    have "CHR ''/'' \<notin> set w" using w slash_not_space by auto
    then have "prefix w (rev c)" using p unfolding y by (auto simp: prefix_append prefix_Cons)
    then show False using strip_fix[OF TrimSpace_trimmed(2)[OF assms(1)] w] by blast
  qed
  then have "strip (map rev space_runes) (rev (CHR ''/'' # x @ c)) = rev (CHR ''/'' # x @ c)"
    by (rule strip_none)
  then show ?thesis by (simp only: TrimSpace_def left rev_rev_ident)
qed

section \<open>Split and Join\<close>

fun Split :: "char \<Rightarrow> string \<Rightarrow> string list" where
  "Split c [] = [[]]"
| "Split c (x # xs) =
     (if x = c then [] # Split c xs
      else (case Split c xs of [] \<Rightarrow> [[x]] | h # t \<Rightarrow> (x # h) # t))"

fun Join :: "char \<Rightarrow> string list \<Rightarrow> string" where
  "Join c [] = []"
| "Join c [s] = s"
| "Join c (s # t # ss) = s @ c # Join c (t # ss)"

lemma Split_neq [simp]: "Split c s \<noteq> []"
  by (cases s) (auto split: list.split)

lemma Split_no_sep: "c \<notin> set s \<Longrightarrow> Split c s = [s]"
  by (induction s) auto

lemma Split_append_sep: "c \<notin> set s \<Longrightarrow> Split c (s @ c # r) = s # Split c r"
  by (induction s) auto

lemma Split_Join: "ss \<noteq> [] \<Longrightarrow> (\<And>s. s \<in> set ss \<Longrightarrow> c \<notin> set s) \<Longrightarrow> Split c (Join c ss) = ss"
  by (induction c ss rule: Join.induct) (simp_all add: Split_no_sep Split_append_sep)

end
