(* ===== verification/Data_Scope.thy ===== *)
theory Data_Scope
  imports Go_Strings Data_Value
begin

text \<open>
  The data plane of a process instance (\<^verbatim>\<open>src/internal/scope/datapath.go\<close>, \<^verbatim>\<open>scope.go\<close>): the tree of
  container scopes, keyed by their paths as texts, with name resolution from a scope up to the
  root, atomic commits, and the reserved read-only runtime subtree. Every operation runs under
  the plane's mutex, so the model takes each as one step on the plane. The runtime variables
  supplier and the cloning of a datum are parameters.

  The walk from a scope to the root strips one path segment per turn and stops at the root; it
  is bounded by the number of segments, \<open>None\<close> standing for a walk that would not stop, which the
  containment check is shown to exclude.
\<close>

section \<open>Data paths\<close>

abbreviation slash :: char where
  "slash \<equiv> CHR ''/''"

definition invPath :: app_error where
  "invPath = AppError InvalidParameter ''invalid data path (should start from /): %q''"

definition Validate :: "string \<Rightarrow> unit result" where
  "Validate p =
     (let s = TrimSpace p; fields = Split slash s
      in if s = [] then Inl invPath
         else if hd fields \<noteq> [] then Inl invPath
         else if length fields = 2 \<and> fields ! 1 = [] then Inr ()
         else if list_ex (\<lambda>f. TrimSpace f = []) (tl fields) then Inl invPath
         else Inr ())"

definition NewDataPath :: "string \<Rightarrow> string result" where
  "NewDataPath newPath = (case Validate newPath of Inl e \<Rightarrow> Inl e | Inr _ \<Rightarrow> Inr newPath)"

definition DropTail :: "string \<Rightarrow> string result" where
  "DropTail p =
     (let pp = Split slash p
      in if length pp = 1 then Inl (AppError Unclassified ''invalid path to drop its tail: '')
         else if length pp = 2 \<and> hd pp = [] then NewDataPath [slash]
         else NewDataPath (Join slash (butlast pp)))"

definition Append :: "string \<Rightarrow> string \<Rightarrow> string result" where
  "Append p tail =
     (let t = TrimSpace tail
      in if t = [] then Inl (AppError Unclassified ''couldn't add empty string to tail'')
         else (case Validate p of
                 Inl e \<Rightarrow> Inl e
               | Inr _ \<Rightarrow> if p = [slash] then NewDataPath (p @ t) else NewDataPath (p @ slash # t)))"

section \<open>The plane\<close>

text \<open>A datum: its name, the id of its item definition, its value, and whether its state is Ready.\<close>

record 'v sdatum =
  dt_name :: string
  dt_idef :: "string option"
  dt_value :: "'v val"
  dt_ready :: bool

type_synonym 'v book = "(string \<times> 'v sdatum) list"

record 'v plane =
  pl_scopes :: "(string \<times> 'v book) list"
  pl_rt :: "(string \<Rightarrow> 'v sdatum result) option"
  pl_root :: string
  pl_rtPath :: string

definition RuntimeVarsSegment :: string where
  "RuntimeVarsSegment = ''RUNTIME''"

definition Scope_New :: "string \<Rightarrow> (string \<Rightarrow> 'v sdatum result) option \<Rightarrow> 'v plane result" where
  "Scope_New root rt =
     (case Validate root of
        Inl e \<Rightarrow> Inl (AppError InvalidParameter ''New: invalid root path %q'')
      | Inr _ \<Rightarrow>
          (case Append root RuntimeVarsSegment of
             Inl e \<Rightarrow> Inl e
           | Inr rtPath \<Rightarrow> Inr \<lparr>pl_scopes = [(root, [])], pl_rt = rt, pl_root = root, pl_rtPath = rtPath\<rparr>))"

definition checkContained :: "'v plane \<Rightarrow> string \<Rightarrow> unit result" where
  "checkContained p path =
     (case Validate path of
        Inl e \<Rightarrow> Inl (AppError InvalidParameter ''%s: invalid container-scope path %q'')
      | Inr _ \<Rightarrow>
          (if path = pl_root p \<or> prefix (pl_root p @ [slash]) path \<or> pl_root p = [slash] then Inr ()
           else Inl (AppError InvalidParameter ''%s: path %q is outside the plane rooted at %q'')))"

definition checkWritable :: "'v plane \<Rightarrow> string \<Rightarrow> unit result" where
  "checkWritable p path =
     (if path = pl_rtPath p \<or> prefix (pl_rtPath p @ [slash]) path
      then Inl (AppError ConditionFailed ''%s: %q is the reserved read-only runtime subtree'')
      else Inr ())"

text \<open>The walk of \<^verbatim>\<open>getData\<close>: \<open>finder\<close> selects the datum in a scope's book.\<close>

definition find_in :: "('v sdatum \<Rightarrow> bool) \<Rightarrow> 'v book \<Rightarrow> 'v sdatum option" where
  "find_in finder vv = find finder (map snd vv)"

definition notFoundErr :: app_error where
  "notFoundErr = AppError ObjectNotFound ''data %q isn't found from scope %q up to root''"

fun getData_loop :: "nat \<Rightarrow> 'v plane \<Rightarrow> ('v sdatum \<Rightarrow> bool) \<Rightarrow> string \<Rightarrow> 'v sdatum result option" where
  "getData_loop 0 p finder path = None"
| "getData_loop (Suc n) p finder path =
     (case (case map_of (pl_scopes p) path of Some vv \<Rightarrow> find_in finder vv | None \<Rightarrow> None) of
        Some d \<Rightarrow> Some (Inr d)
      | None \<Rightarrow>
          (if path = pl_root p then Some (Inl notFoundErr)
           else (case DropTail path of
                   Inl e \<Rightarrow> Some (Inl (AppError OperationFailed ''couldn't walk up from scope %q''))
                 | Inr path' \<Rightarrow> getData_loop n p finder path')))"

definition getData :: "'v plane \<Rightarrow> string \<Rightarrow> ('v sdatum \<Rightarrow> bool) \<Rightarrow> 'v sdatum result option" where
  "getData p from finder = getData_loop (length (Split slash from)) p finder from"

definition GetData :: "'v plane \<Rightarrow> string \<Rightarrow> string \<Rightarrow> 'v sdatum result option" where
  "GetData p from name =
     (let name' = TrimSpace name
      in if name' = [] then Some (Inl (AppError EmptyNotAllowed ''GetData: an empty data name isn't allowed''))
         else (case checkContained p from of
                 Inl e \<Rightarrow> Some (Inl e)
               | Inr _ \<Rightarrow>
                   (case (pl_rt p, from = pl_rtPath p) of
                      (Some rt, True) \<Rightarrow> Some (rt name')
                    | _ \<Rightarrow> getData p from (\<lambda>d. dt_name d = name'))))"

text \<open>By id: the nearest scope that has a match, and in it the match with the least name.\<close>

definition best_match :: "string \<Rightarrow> 'v book \<Rightarrow> 'v sdatum option" where
  "best_match idef vv =
     foldl (\<lambda>m d. if dt_idef d \<noteq> Some idef then m
                  else (case m of
                          None \<Rightarrow> Some d
                        | Some m' \<Rightarrow> if dt_name d < dt_name m' then Some d else m))
       None (map snd vv)"

definition noIdErr :: app_error where
  "noIdErr = AppError ObjectNotFound ''GetDataByID: no data with ItemDefinition id %q visible from %q''"

fun byID_loop :: "nat \<Rightarrow> 'v plane \<Rightarrow> string \<Rightarrow> string \<Rightarrow> 'v sdatum result option" where
  "byID_loop 0 p idef path = None"
| "byID_loop (Suc n) p idef path =
     (case (case map_of (pl_scopes p) path of Some vv \<Rightarrow> best_match idef vv | None \<Rightarrow> None) of
        Some d \<Rightarrow> Some (Inr d)
      | None \<Rightarrow>
          (if path = [slash] then Some (Inl noIdErr)
           else (case DropTail path of
                   Inl e \<Rightarrow> Some (Inl noIdErr)
                 | Inr path' \<Rightarrow> byID_loop n p idef path')))"

definition GetDataByID :: "'v plane \<Rightarrow> string \<Rightarrow> string \<Rightarrow> 'v sdatum result option" where
  "GetDataByID p from idef =
     (let id' = TrimSpace idef
      in if id' = [] then Some (Inl (AppError EmptyNotAllowed ''GetDataByID: an empty ItemDefinition id isn't allowed''))
         else (case checkContained p from of
                 Inl e \<Rightarrow> Some (Inl e)
               | Inr _ \<Rightarrow> byID_loop (Suc (length (Split slash from))) p id' from))"

section \<open>Commit, open, close\<close>

fun batchNames :: "'v sdatum option list \<Rightarrow> (string \<times> 'v sdatum) list result" where
  "batchNames [] = Inr []"
| "batchNames (None # dd) = Inl (AppError EmptyNotAllowed ''%s: a nil data item isn't allowed (index %d)'')"
| "batchNames (Some d # dd) =
     (let name = TrimSpace (dt_name d)
      in if name = [] then Inl (AppError EmptyNotAllowed ''%s: a data item with an empty name isn't allowed (index %d)'')
         else (case batchNames dd of Inl e \<Rightarrow> Inl e | Inr nn \<Rightarrow> Inr ((name, d) # nn)))"

fun commit_loop :: "('v \<Rightarrow> 'v \<Rightarrow> bool) \<Rightarrow> 'v book \<Rightarrow> (string \<times> 'v sdatum) list \<Rightarrow> 'v book \<times> change list" where
  "commit_loop deq vv [] = (vv, [])"
| "commit_loop deq vv ((name, d) # rest) =
     (let prior = (case map_of vv name of None \<Rightarrow> VNil | Some pd \<Rightarrow> dt_value pd);
          (vv', changes) = commit_loop deq (AList.update name d vv) rest
      in (vv', DiffValues deq name prior (dt_value d) @ changes))"

definition Scope_Commit :: "('v \<Rightarrow> 'v \<Rightarrow> bool) \<Rightarrow> 'v plane \<Rightarrow> string \<Rightarrow> 'v sdatum option list \<Rightarrow>
    ('v plane \<times> change list) result" where
  "Scope_Commit deq p pt dd =
     (case checkContained p pt of
        Inl e \<Rightarrow> Inl e
      | Inr _ \<Rightarrow>
          (case checkWritable p pt of
             Inl e \<Rightarrow> Inl e
           | Inr _ \<Rightarrow>
               (case batchNames dd of
                  Inl e \<Rightarrow> Inl e
                | Inr nn \<Rightarrow>
                    (if dd = [] then Inr (p, [])
                     else (case map_of (pl_scopes p) pt of
                             None \<Rightarrow> Inl (AppError ObjectNotFound ''Commit: container scope %q isn't open'')
                           | Some vv \<Rightarrow>
                               (let (vv', changes) = commit_loop deq vv nn
                                in Inr (p\<lparr>pl_scopes := AList.update pt vv' (pl_scopes p)\<rparr>, changes)))))))"

definition OpenScope :: "'v plane \<Rightarrow> string \<Rightarrow> 'v plane result" where
  "OpenScope p path =
     (case checkContained p path of
        Inl e \<Rightarrow> Inl e
      | Inr _ \<Rightarrow>
          (case checkWritable p path of
             Inl e \<Rightarrow> Inl e
           | Inr _ \<Rightarrow>
               (case DropTail path of
                  Inl e \<Rightarrow> Inl e
                | Inr parent \<Rightarrow>
                    (if has_key path (pl_scopes p)
                     then Inl (AppError DuplicateObject ''OpenScope: container scope %q is already open'')
                     else if \<not> has_key parent (pl_scopes p)
                     then Inl (AppError ObjectNotFound ''OpenScope: parent scope %q of %q isn't open'')
                     else Inr (p\<lparr>pl_scopes := AList.update path [] (pl_scopes p)\<rparr>)))))"

definition CloseScope :: "'v plane \<Rightarrow> string \<Rightarrow> 'v plane result" where
  "CloseScope p path =
     (case checkContained p path of
        Inl e \<Rightarrow> Inl e
      | Inr _ \<Rightarrow>
          (if path = pl_root p then Inl (AppError InvalidParameter ''CloseScope: the root scope %q can't be closed'')
           else if \<not> has_key path (pl_scopes p)
           then Inl (AppError ObjectNotFound ''CloseScope: container scope %q isn't open'')
           else if list_ex (\<lambda>q. prefix (path @ [slash]) (fst q)) (pl_scopes p)
           then Inl (AppError ConditionFailed ''CloseScope: scope %q has an open child %q'')
           else Inr (p\<lparr>pl_scopes := AList.delete path (pl_scopes p)\<rparr>)))"

definition opened :: "'v plane \<Rightarrow> string \<Rightarrow> bool" where
  "opened p path = has_key path (pl_scopes p)"

section \<open>Names and snapshots\<close>

definition visible_from :: "string \<Rightarrow> string \<Rightarrow> bool" where
  "visible_from from path \<longleftrightarrow>
     path = from \<or> path = [slash] \<or> prefix (path @ [slash]) (from @ [slash])"

definition namesFromLocked :: "'v plane \<Rightarrow> string \<Rightarrow> string list" where
  "namesFromLocked p from =
     sort (remdups (concat (map (\<lambda>(path, vv). if visible_from from path then map fst vv else []) (pl_scopes p))))"

fun snapshot_loop :: "('v sdatum \<Rightarrow> 'v sdatum result) \<Rightarrow> 'v plane \<Rightarrow> string \<Rightarrow> string list \<Rightarrow> 'v sdatum list result option" where
  "snapshot_loop clone p from [] = Some (Inr [])"
| "snapshot_loop clone p from (n # ns) =
     (case getData p from (\<lambda>d. dt_name d = n) of
        None \<Rightarrow> None
      | Some (Inl e) \<Rightarrow> Some (Inl (AppError OperationFailed ''SnapshotAt: couldn't read %q at %q''))
      | Some (Inr d) \<Rightarrow>
          (case clone d of
             Inl e \<Rightarrow> Some (Inl e)
           | Inr cp \<Rightarrow>
               (case snapshot_loop clone p from ns of
                  None \<Rightarrow> None
                | Some (Inl e) \<Rightarrow> Some (Inl e)
                | Some (Inr snap) \<Rightarrow> Some (Inr (cp # snap)))))"

definition SnapshotAt :: "('v sdatum \<Rightarrow> 'v sdatum result) \<Rightarrow> 'v plane \<Rightarrow> string \<Rightarrow> 'v sdatum list result option" where
  "SnapshotAt clone p from =
     (case checkContained p from of
        Inl e \<Rightarrow> Some (Inl e)
      | Inr _ \<Rightarrow> snapshot_loop clone p from (namesFromLocked p from))"

definition OpenPaths :: "'v plane \<Rightarrow> string list" where
  "OpenPaths p = sort (map fst (pl_scopes p))"

fun own_loop :: "('v sdatum \<Rightarrow> 'v sdatum result) \<Rightarrow> 'v book \<Rightarrow> string list \<Rightarrow> 'v sdatum list result" where
  "own_loop clone bk [] = Inr []"
| "own_loop clone bk (n # ns) =
     (case map_of bk n of
        None \<Rightarrow> own_loop clone bk ns
      | Some d \<Rightarrow>
          (case clone d of
             Inl e \<Rightarrow> Inl e
           | Inr cp \<Rightarrow> (case own_loop clone bk ns of Inl e \<Rightarrow> Inl e | Inr ds \<Rightarrow> Inr (cp # ds))))"

definition OwnData :: "('v sdatum \<Rightarrow> 'v sdatum result) \<Rightarrow> 'v plane \<Rightarrow> string \<Rightarrow> 'v sdatum list result" where
  "OwnData clone p path =
     (case map_of (pl_scopes p) path of
        None \<Rightarrow> Inl (AppError ObjectNotFound ''OwnData: scope %q isn't open'')
      | Some bk \<Rightarrow> own_loop clone bk (sort (map fst bk)))"

section \<open>The walk to the root stops\<close>

lemma Join_Split: "Join c (Split c s) = s"
proof (induction s)
  case (Cons x s)
  obtain h t where "Split c s = h # t" by (cases "Split c s") auto
  then show ?case using Cons by (cases t) auto
qed simp

lemma Split_sep_free: "f \<in> set (Split c s) \<Longrightarrow> c \<notin> set f"
  by (induction s arbitrary: f) (auto split: if_splits list.splits)

lemma Split_append: "Split c (a @ c # b) = Split c a @ Split c b"
proof (induction a)
  case (Cons x a)
  then show ?case by (cases "Split c a") auto
qed simp

lemma NewDataPathD: "NewDataPath q = Inr r \<Longrightarrow> r = q"
  by (auto simp: NewDataPath_def split: sum.splits)

lemma DropTail_Split:
  assumes "DropTail path = Inr q" and "2 < length (Split slash path)"
  shows "Split slash q = butlast (Split slash path)"
proof -
  have q: "q = Join slash (butlast (Split slash path))"
    using assms by (auto simp: DropTail_def Let_def dest: NewDataPathD split: if_splits)
  have "butlast (Split slash path) \<noteq> []"
    using assms(2) by (cases "Split slash path"; cases "tl (Split slash path)") auto
  then show ?thesis unfolding q by (intro Split_Join) (auto dest!: in_set_butlastD Split_sep_free)
qed

lemma walk_below_root:
  "Split slash path = Split slash (pl_root p) @ ts \<Longrightarrow> 2 \<le> length (Split slash (pl_root p)) \<Longrightarrow> length ts < n \<Longrightarrow>
     getData_loop n p finder path \<noteq> None"
proof (induction n arbitrary: path ts)
  case (Suc n)
  show ?case
  proof (cases ts rule: rev_cases)
    case Nil
    then have "path = pl_root p" using Suc.prems(1) Join_Split by (metis append_Nil2)
    then show ?thesis by (auto split: option.split)
  next
    case (snoc us u)
    have "getData_loop n p finder q \<noteq> None" if d: "DropTail path = Inr q" for q
    proof -
      have "Split slash q = Split slash (pl_root p) @ us"
        using DropTail_Split[OF d] Suc.prems(1,2) snoc by (simp add: butlast_append)
      then show ?thesis using Suc.IH Suc.prems snoc by simp
    qed
    then show ?thesis by (auto split: option.split sum.split)
  qed
qed simp

lemma walk_to_slash:
  "pl_root p = [slash] \<Longrightarrow> length (Split slash path) \<le> n \<Longrightarrow> getData_loop n p finder path \<noteq> None"
proof (induction n arbitrary: path)
  case 0
  then show ?case by simp
next
  case (Suc n)
  have "length (Split slash path) \<noteq> 0" by simp
  then consider (one) "length (Split slash path) = 1" | (two) "length (Split slash path) = 2"
    | (more) "2 < length (Split slash path)" by linarith
  then show ?case
  proof cases
    case one
    then show ?thesis by (auto simp: DropTail_def split: option.split)
  next
    case two
    have "getData_loop n p finder q \<noteq> None" if d: "DropTail path = Inr q" for q
    proof -
      obtain m where n: "n = Suc m" using Suc.prems(2) two by (cases n) auto
      have "q = [slash] \<or> length (Split slash q) = 1"
      proof (cases "hd (Split slash path) = []")
        case True
        then show ?thesis using d two by (auto simp: DropTail_def Let_def dest: NewDataPathD)
      next
        case False
        then have "q = Join slash (butlast (Split slash path))" using d two
          by (auto simp: DropTail_def Let_def dest: NewDataPathD)
        moreover have "\<exists>x. butlast (Split slash path) = [x] \<and> slash \<notin> set x"
          using two Split_sep_free[of _ slash path] by (cases "Split slash path"; cases "tl (Split slash path)") auto
        ultimately show ?thesis by (auto simp: Split_no_sep)
      qed
      then show ?thesis using Suc.prems(1) n by (auto simp: DropTail_def split: option.split)
    qed
    then show ?thesis by (auto split: option.split sum.split)
  next
    case more
    have "getData_loop n p finder q \<noteq> None" if d: "DropTail path = Inr q" for q
      using Suc.IH[OF Suc.prems(1), of q] DropTail_Split[OF d more] Suc.prems(2) by simp
    then show ?thesis by (auto split: option.split sum.split)
  qed
qed

definition plane_ok :: "'v plane \<Rightarrow> bool" where
  "plane_ok p \<longleftrightarrow> Validate (pl_root p) = Inr ()"

lemma slash_Split2: "slash \<in> set s \<Longrightarrow> 2 \<le> length (Split slash s)"
  by (metis Split_append in_set_conv_decomp length_append Split_neq length_greater_0_conv Suc_leI add_mono one_add_one One_nat_def)

lemma strip_subset: "set (strip ws s) \<subseteq> set s"
proof (induction ws s rule: strip.induct)
  case (1 ws s)
  show ?case
  proof (cases "find (\<lambda>w. w \<noteq> [] \<and> prefix w s) ws")
    case None
    then show ?thesis by (subst strip.simps) simp
  next
    case (Some w)
    then show ?thesis using 1[OF Some] set_drop_subset[of "length w" s] by (subst strip.simps) auto
  qed
qed

lemma TrimSpace_subset: "set (TrimSpace s) \<subseteq> set s"
  using strip_subset[of "map rev space_runes" "rev (strip space_runes s)"] strip_subset[of space_runes s]
  by (auto simp: TrimSpace_def)

lemma Validate_slash: "Validate q = Inr () \<Longrightarrow> slash \<in> set q"
proof (rule ccontr)
  assume v: "Validate q = Inr ()" and n: "slash \<notin> set q"
  then have "slash \<notin> set (TrimSpace q)" using TrimSpace_subset by blast
  then have "Split slash (TrimSpace q) = [TrimSpace q]" by (rule Split_no_sep)
  then show False using v by (auto simp: Validate_def Let_def split: if_splits)
qed

lemma getData_total:
  assumes "plane_ok p" and "checkContained p from = Inr ()"
  shows "getData p from finder \<noteq> None"
proof -
  have two: "2 \<le> length (Split slash (pl_root p))" using assms(1) Validate_slash slash_Split2 by (auto simp: plane_ok_def)
  from assms(2) consider "from = pl_root p" | (below) "prefix (pl_root p @ [slash]) from" | (root) "pl_root p = [slash]"
    by (auto simp: checkContained_def split: sum.splits if_splits)
  then show ?thesis
  proof cases
    case 1
    then show ?thesis using walk_below_root[of "from" p "[]"] two by (simp add: getData_def)
  next
    case below
    then obtain t where "from = pl_root p @ slash # t" by (auto simp: prefix_def)
    then have "Split slash from = Split slash (pl_root p) @ Split slash t" by (simp add: Split_append)
    then show ?thesis using walk_below_root[of "from" p "Split slash t" "length (Split slash from)"] two
      by (auto simp: getData_def)
  next
    case root
    then show ?thesis using walk_to_slash[of p "from"] by (simp add: getData_def)
  qed
qed

text \<open>
  Name resolution always answers: from every path that passes the plane's containment
  check, looking a name up terminates, with a datum or an error, whatever scopes are open.
\<close>

theorem scope_lookup_terminates:
  assumes "plane_ok p" and "checkContained p from = Inr ()"
  shows "\<exists>r. GetData p from name = Some r"
  using getData_total[OF assms] assms(2) by (auto simp: GetData_def Let_def split: option.split bool.split)

definition sample_plane :: "nat plane" where
  "sample_plane = \<lparr>pl_scopes = [(''/'', []), (''/sub'', [])], pl_rt = None, pl_root = ''/'', pl_rtPath = ''/RUNTIME''\<rparr>"

lemma sample_plane_contained:
  "plane_ok sample_plane" "checkContained sample_plane ''/sub'' = Inr ()"
  by code_simp+

theorem scope_lookup_terminates_witness: "\<exists>r. GetData sample_plane ''/sub'' ''x'' = Some r"
  by (rule scope_lookup_terminates[OF sample_plane_contained])

section \<open>Resolution finds the nearest scope\<close>

text \<open>Paths as lists of segments.\<close>

definition clean :: "string \<Rightarrow> bool" where
  "clean c \<longleftrightarrow> c \<noteq> [] \<and> TrimSpace c = c \<and> slash \<notin> set c"

definition path_of :: "string list \<Rightarrow> string" where
  "path_of cs = (if cs = [] then [slash] else Join slash ([] # cs))"

lemma Join_snoc: "ss \<noteq> [] \<Longrightarrow> Join c (ss @ [x]) = Join c ss @ c # x"
  by (induction c ss rule: Join.induct) auto

lemma Split_path_of: "cs \<noteq> [] \<Longrightarrow> list_all clean cs \<Longrightarrow> Split slash (path_of cs) = [] # cs"
proof -
  assume a: "cs \<noteq> []" "list_all clean cs"
  have "slash \<notin> set x" if "x \<in> set ([] # cs)" for x using a(2) that by (auto simp: clean_def list_all_iff)
  then have "Split slash (Join slash ([] # cs)) = [] # cs" by (intro Split_Join) simp_all
  then show ?thesis using a(1) by (simp add: path_of_def)
qed

lemma path_of_trimmed:
  assumes "list_all clean cs"
  shows "TrimSpace (path_of cs) = path_of cs"
proof (cases cs rule: rev_cases)
  case Nil
  have "TrimSpace [slash] = [slash]" by code_simp
  then show ?thesis using Nil by (simp add: path_of_def)
next
  case (snoc bs c)
  have c: "TrimSpace c = c" "c \<noteq> []" using assms snoc by (simp_all add: clean_def)
  have "\<exists>x. path_of cs = slash # x @ c \<and> (x = [] \<or> last x = slash)"
  proof (cases bs)
    case Nil
    then show ?thesis using snoc by (auto simp: path_of_def intro!: exI[of _ "[]"])
  next
    case (Cons b bs')
    have "path_of cs = Join slash ([] # bs) @ slash # c"
      using Join_snoc[of "[] # bs" slash c] snoc by (simp add: path_of_def)
    then show ?thesis using Cons by (intro exI[of _ "Join slash bs @ [slash]"]) simp
  qed
  then obtain x where "path_of cs = slash # x @ c" "x = [] \<or> last x = slash" by blast
  then show ?thesis using TrimSpace_path[OF c, of x] by simp
qed

lemma Validate_path_of: "list_all clean cs \<Longrightarrow> Validate (path_of cs) = Inr ()"
proof (cases "cs = []")
  case True
  have "Validate [slash] = Inr ()" by code_simp
  then show ?thesis using True by (simp add: path_of_def)
next
  case False
  assume a: "list_all clean cs"
  have "path_of cs \<noteq> []" using False by (cases cs) (simp_all add: path_of_def)
  moreover have "\<not> list_ex (\<lambda>f. TrimSpace f = []) cs" "hd cs \<noteq> []"
    using a False by (cases cs; auto simp: clean_def list_all_iff list_ex_iff)+
  ultimately show ?thesis using a False path_of_trimmed[OF a] Split_path_of[OF False a]
    by (cases cs) (auto simp: Validate_def Let_def)
qed

lemma DropTail_path_of:
  assumes "list_all clean (cs @ [c])"
  shows "DropTail (path_of (cs @ [c])) = Inr (path_of cs)"
proof -
  have sp: "Split slash (path_of (cs @ [c])) = [] # cs @ [c]" using Split_path_of[OF _ assms] by simp
  have cl: "list_all clean cs" using assms by simp
  show ?thesis
  proof (cases "cs = []")
    case True
    then show ?thesis using sp Validate_path_of[of "[]"] by (simp add: DropTail_def NewDataPath_def path_of_def)
  next
    case False
    then show ?thesis using sp Validate_path_of[OF cl]
      by (simp add: DropTail_def Let_def NewDataPath_def butlast_append path_of_def)
  qed
qed

lemma path_of_inj:
  assumes "list_all clean cs" and "list_all clean ds" and "path_of cs = path_of ds"
  shows "cs = ds"
proof -
  have sl: "Split slash (path_of es) = (if es = [] then [[], []] else [] # es)" if "list_all clean es" for es
    using Split_path_of[OF _ that] by (simp add: path_of_def)
  have nb: "es \<noteq> [[]]" if "list_all clean es" for es using that by (auto simp: clean_def)
  have "(if cs = [] then [[], []] else [] # cs) = (if ds = [] then [[], []] else [] # ds)"
    using sl[OF assms(1)] sl[OF assms(2)] assms(3) by simp
  then show ?thesis using nb[OF assms(1)] nb[OF assms(2)] by (auto split: if_splits)
qed

text \<open>The scopes from a path up to the root, and the first of them that has a match.\<close>

fun scope_chain :: "string list \<Rightarrow> string list \<Rightarrow> string list" where
  "scope_chain r cs = map (\<lambda>k. path_of (r @ take k cs)) (rev [0..<Suc (length cs)])"

fun nearest :: "'v plane \<Rightarrow> ('v sdatum \<Rightarrow> bool) \<Rightarrow> string list \<Rightarrow> 'v sdatum option" where
  "nearest p finder [] = None"
| "nearest p finder (q # qs) =
     (case map_of (pl_scopes p) q of
        Some vv \<Rightarrow> (case find_in finder vv of Some d \<Rightarrow> Some d | None \<Rightarrow> nearest p finder qs)
      | None \<Rightarrow> nearest p finder qs)"

lemma scope_chain_snoc: "scope_chain r (cs @ [c]) = path_of (r @ cs @ [c]) # scope_chain r cs"
  by (auto intro!: map_cong)

lemma getData_loop_nearest:
  assumes "pl_root p = path_of r"
  shows "list_all clean (r @ cs) \<Longrightarrow> length cs < n \<Longrightarrow>
     getData_loop n p finder (path_of (r @ cs)) =
       Some (case nearest p finder (scope_chain r cs) of Some d \<Rightarrow> Inr d | None \<Rightarrow> Inl notFoundErr)"
proof (induction cs arbitrary: n rule: rev_induct)
  case Nil
  then obtain m where "n = Suc m" by (cases n) auto
  then show ?case using assms by (auto split: option.split)
next
  case (snoc c cs)
  obtain m where n: "n = Suc m" using snoc.prems(2) by (cases n) auto
  have ne: "path_of (r @ cs @ [c]) \<noteq> pl_root p"
    using path_of_inj[of "r @ cs @ [c]" r] snoc.prems(1) assms by auto
  have dt: "DropTail (path_of (r @ cs @ [c])) = Inr (path_of (r @ cs))"
    using DropTail_path_of[of "r @ cs" c] snoc.prems(1) by simp
  have IH: "getData_loop m p finder (path_of (r @ cs)) =
       Some (case nearest p finder (scope_chain r cs) of Some d \<Rightarrow> Inr d | None \<Rightarrow> Inl notFoundErr)"
    using snoc.IH[of m] snoc.prems n by simp
  show ?case unfolding scope_chain_snoc n using ne dt IH by (auto simp del: scope_chain.simps split: option.split)
qed

text \<open>
  Resolution is lexical: on well-formed paths, looking a name up from a scope returns
  the datum of that name in the nearest enclosing scope that is open and has it, and an error when
  no scope up to the root has it.
\<close>

theorem scope_lookup_nearest:
  assumes "pl_root p = path_of r" and "list_all clean (r @ cs)" and "TrimSpace name \<noteq> []"
    and "pl_rt p = None \<or> path_of (r @ cs) \<noteq> pl_rtPath p"
    and "checkContained p (path_of (r @ cs)) = Inr ()"
  shows "GetData p (path_of (r @ cs)) name =
     Some (case nearest p (\<lambda>d. dt_name d = TrimSpace name) (scope_chain r cs) of
             Some d \<Rightarrow> Inr d | None \<Rightarrow> Inl notFoundErr)"
proof -
  have "length cs < length (Split slash (path_of (r @ cs)))"
  proof (cases "r @ cs = []")
    case False
    then show ?thesis using Split_path_of[OF False assms(2)] by simp
  qed (simp add: path_of_def)
  then have "getData p (path_of (r @ cs)) (\<lambda>d. dt_name d = TrimSpace name) =
     Some (case nearest p (\<lambda>d. dt_name d = TrimSpace name) (scope_chain r cs) of
             Some d \<Rightarrow> Inr d | None \<Rightarrow> Inl notFoundErr)"
    unfolding getData_def by (rule getData_loop_nearest[OF assms(1,2)])
  then show ?thesis using assms(3-5) by (auto simp: GetData_def Let_def simp del: scope_chain.simps split: option.split)
qed

lemma sample_paths: "list_all clean ([] @ [''sub''])" "path_of ([] @ [''sub'']) = ''/sub''" "TrimSpace ''x'' = ''x''"
  by code_simp+

theorem scope_lookup_nearest_witness:
  "GetData sample_plane (path_of ([] @ [''sub''])) ''x'' =
     Some (case nearest sample_plane (\<lambda>d. dt_name d = TrimSpace ''x'') (scope_chain [] [''sub'']) of
             Some d \<Rightarrow> Inr d | None \<Rightarrow> Inl notFoundErr)"
  by (rule scope_lookup_nearest)
    (use sample_paths sample_plane_contained in \<open>simp_all add: sample_plane_def path_of_def\<close>)

section \<open>The scopes form a tree\<close>

text \<open>The planes an instance can have: created, then changed by the plane's own operations.\<close>

inductive plane_reach :: "('v \<Rightarrow> 'v \<Rightarrow> bool) \<Rightarrow> 'v plane \<Rightarrow> bool" for deq where
  new: "Scope_New root rt = Inr p \<Longrightarrow> plane_reach deq p"
| opn: "plane_reach deq p \<Longrightarrow> OpenScope p path = Inr p' \<Longrightarrow> plane_reach deq p'"
| cls: "plane_reach deq p \<Longrightarrow> CloseScope p path = Inr p' \<Longrightarrow> plane_reach deq p'"
| com: "plane_reach deq p \<Longrightarrow> Scope_Commit deq p pt dd = Inr (p', chs) \<Longrightarrow> plane_reach deq p'"

definition in_runtime :: "'v plane \<Rightarrow> string \<Rightarrow> bool" where
  "in_runtime p path \<longleftrightarrow> path = pl_rtPath p \<or> prefix (pl_rtPath p @ [slash]) path"

definition tree_inv :: "'v plane \<Rightarrow> bool" where
  "tree_inv p \<longleftrightarrow>
     plane_ok p \<and> opened p (pl_root p) \<and>
     (\<forall>path. opened p path \<longrightarrow> \<not> in_runtime p path) \<and>
     (\<forall>path. opened p path \<longrightarrow> path \<noteq> pl_root p \<longrightarrow> (\<exists>parent. DropTail path = Inr parent \<and> opened p parent))"

lemma DropTail_below:
  assumes "DropTail q = Inr path" and "path \<noteq> [slash]"
  shows "prefix (path @ [slash]) q"
proof -
  have "length (Split slash q) \<noteq> 1" using assms(1) by (auto simp: DropTail_def)
  moreover have "length (Split slash q) \<noteq> 2"
  proof
    assume two: "length (Split slash q) = 2"
    then obtain a b where ab: "Split slash q = [a, b]" by (auto simp: numeral_2_eq_2 length_Suc_conv)
    then have "a \<noteq> []" "path = a" "Validate a = Inr ()"
      using assms by (auto simp: DropTail_def NewDataPath_def split: if_splits sum.splits)
    moreover have "slash \<notin> set a" using Split_sep_free[of a slash q] ab by simp
    ultimately show False using Validate_slash by blast
  qed
  moreover have "length (Split slash q) \<noteq> 0" by simp
  ultimately have more: "2 < length (Split slash q)" by linarith
  have "Split slash path = butlast (Split slash q)" by (rule DropTail_Split[OF assms(1) more])
  then have "Split slash q = Split slash path @ [last (Split slash q)]"
    using append_butlast_last_id[OF Split_neq] by metis
  then have "q = path @ slash # last (Split slash q)"
    using Join_Split[of slash q] Join_Split[of slash path] Join_snoc[of "Split slash path" slash] Split_neq by metis
  then show ?thesis by (metis prefixI append_Cons append_Nil append_assoc)
qed

lemma Scope_New_tree: "Scope_New root rt = Inr p \<Longrightarrow> tree_inv p"
proof -
  assume n: "Scope_New root rt = Inr p"
  then obtain u where v: "Validate root = Inr u" by (auto simp: Scope_New_def split: sum.splits)
  have t: "TrimSpace RuntimeVarsSegment = RuntimeVarsSegment" "RuntimeVarsSegment \<noteq> []" by code_simp+
  obtain rp where rp: "Append root RuntimeVarsSegment = Inr rp"
    and p: "p = \<lparr>pl_scopes = [(root, [])], pl_rt = rt, pl_root = root, pl_rtPath = rp\<rparr>"
    using n v by (auto simp: Scope_New_def split: sum.splits)
  have "length root < length rp"
    using rp t v by (auto simp: Append_def Let_def split: if_splits dest!: NewDataPathD)
  then have "\<not> in_runtime p root" using p prefix_length_le[of "rp @ [slash]" root] by (auto simp: in_runtime_def)
  then show ?thesis using p v by (auto simp: tree_inv_def plane_ok_def opened_def)
qed

lemma OpenScope_tree:
  assumes "tree_inv p" and "OpenScope p path = Inr p'"
  shows "tree_inv p'"
proof -
  obtain parent where d: "DropTail path = Inr parent" "has_key parent (pl_scopes p)" "\<not> has_key path (pl_scopes p)"
    and w: "checkWritable p path = Inr ()"
    and p': "p' = p\<lparr>pl_scopes := AList.update path [] (pl_scopes p)\<rparr>"
    using assms(2) by (auto simp: OpenScope_def split: sum.splits if_splits)
  have "\<not> in_runtime p path" using w by (auto simp: checkWritable_def in_runtime_def split: if_splits)
  then show ?thesis using assms(1) d p' unfolding tree_inv_def
    by (auto simp: opened_def plane_ok_def in_runtime_def)
qed

lemma has_key_delete: "has_key k (AList.delete j m) \<longleftrightarrow> k \<noteq> j \<and> has_key k m"
  by (auto simp: has_key_map_of delete_conv')

lemma CloseScope_tree:
  assumes "tree_inv p" and "CloseScope p path = Inr p'"
  shows "tree_inv p'"
proof -
  have c: "path \<noteq> pl_root p" "checkContained p path = Inr ()"
    and leaf: "\<And>q vv. (q, vv) \<in> set (pl_scopes p) \<Longrightarrow> \<not> prefix (path @ [slash]) q"
    and p': "p' = p\<lparr>pl_scopes := AList.delete path (pl_scopes p)\<rparr>"
    using assms(2) by (auto simp: CloseScope_def list_ex_iff split: sum.splits if_splits)
  have "path \<noteq> [slash]"
  proof
    assume s: "path = [slash]"
    then have "prefix (pl_root p @ [slash]) [slash]"
      using c by (auto simp: checkContained_def split: sum.splits if_splits)
    then have "pl_root p = []" by (cases "pl_root p") (auto simp: prefix_def)
    then show False using assms(1) Validate_slash[of "[]"] by (auto simp: tree_inv_def plane_ok_def)
  qed
  then have "parent \<noteq> path" if "opened p q" "DropTail q = Inr parent" for q parent
    using DropTail_below[of q path] leaf that by (auto simp: opened_def has_key_def)
  then show ?thesis using assms(1) c(1) p' unfolding tree_inv_def
    by (auto simp: opened_def plane_ok_def in_runtime_def has_key_delete)
qed

lemma has_key_of_map_of: "map_of m k = Some v \<Longrightarrow> has_key k m"
  by (simp add: has_key_map_of)

lemma Scope_Commit_shape:
  assumes "Scope_Commit deq p pt dd = Inr (p', chs)"
  shows "p' = p \<or> (\<exists>vv nn. map_of (pl_scopes p) pt = Some vv \<and> batchNames dd = Inr nn \<and>
           p' = p\<lparr>pl_scopes := AList.update pt (fst (commit_loop deq vv nn)) (pl_scopes p)\<rparr> \<and>
           chs = snd (commit_loop deq vv nn))"
  using assms by (auto simp: Scope_Commit_def split: sum.splits if_splits option.splits prod.splits)

lemma Scope_Commit_tree:
  assumes "tree_inv p" and "Scope_Commit deq p pt dd = Inr (p', chs)"
  shows "tree_inv p'"
proof -
  have "opened p' = opened p" "pl_root p' = pl_root p" "pl_rtPath p' = pl_rtPath p"
    using Scope_Commit_shape[OF assms(2)] has_key_of_map_of by (auto simp: opened_def fun_eq_iff)
  then show ?thesis using assms(1) by (auto simp: tree_inv_def plane_ok_def in_runtime_def)
qed

text \<open>
  Claim C40. The open scopes always form a tree: in every plane reached from a new one by opening
  and closing scopes and committing data, the root is open, every other open scope hangs below
  an open parent, and no scope is open at or under the reserved runtime subtree.
\<close>

theorem scope_tree_invariant:
  assumes "plane_reach deq p"
  shows "opened p (pl_root p) \<and>
     (\<forall>path. opened p path \<longrightarrow> \<not> in_runtime p path \<and>
        (path = pl_root p \<or> (\<exists>parent. DropTail path = Inr parent \<and> opened p parent)))"
proof -
  from assms have "tree_inv p"
    by (induction rule: plane_reach.induct)
      (blast intro: Scope_New_tree OpenScope_tree CloseScope_tree Scope_Commit_tree)+
  then show ?thesis unfolding tree_inv_def by blast
qed

lemma sample_new:
  "(Scope_New ''/'' None :: nat plane result) =
     Inr \<lparr>pl_scopes = [(''/'', [])], pl_rt = None, pl_root = ''/'', pl_rtPath = ''/RUNTIME''\<rparr>"
proof -
  have "Validate ''/'' = Inr ()" "Append ''/'' RuntimeVarsSegment = Inr ''/RUNTIME''" by code_simp+
  then show ?thesis by (simp add: Scope_New_def)
qed

theorem scope_tree_invariant_witness:
  "opened (\<lparr>pl_scopes = [(''/'', [])], pl_rt = None, pl_root = ''/'', pl_rtPath = ''/RUNTIME''\<rparr> :: nat plane) ''/''"
  using scope_tree_invariant[where deq = "(=)", OF plane_reach.new[OF sample_new]] by simp

section \<open>Commits\<close>

lemma commit_loop_lookup:
  "map_of (fst (commit_loop deq vv nn)) n = (case map_of (rev nn) n of Some d \<Rightarrow> Some d | None \<Rightarrow> map_of vv n)"
proof (induction deq vv nn rule: commit_loop.induct)
  case (2 deq vv name d rest)
  then show ?case by (auto simp: Let_def update_conv' map_add_def split: prod.splits option.splits)
qed simp

lemma commit_loop_distinct: "distinct (map fst vv) \<Longrightarrow> distinct (map fst (fst (commit_loop deq vv nn)))"
  by (induction deq vv nn rule: commit_loop.induct) (auto simp: Let_def distinct_update split: prod.splits)

lemma commit_loop_in: "(k, d) \<in> set (fst (commit_loop deq vv nn)) \<Longrightarrow> (k, d) \<in> set vv \<or> (k, d) \<in> set nn"
proof (induction deq vv nn rule: commit_loop.induct)
  case (2 deq vv name d' rest)
  then have "(k, d) \<in> set (AList.update name d' vv) \<or> (k, d) \<in> set rest"
    by (auto simp: Let_def split: prod.splits)
  moreover have "(k, d) \<in> set vv \<or> (k, d) = (name, d')" if "(k, d) \<in> set (AList.update name d' vv)"
    using that by (induction vv) (auto split: if_splits)
  ultimately show ?case by auto
qed simp

definition book_ok :: "'v book \<Rightarrow> bool" where
  "book_ok vv \<longleftrightarrow> distinct (map fst vv) \<and> (\<forall>(k, d)\<in>set vv. dt_name d = k)"

lemma find_in_name: "book_ok vv \<Longrightarrow> find_in (\<lambda>d. dt_name d = n) vv = map_of vv n"
  by (induction vv) (auto simp: book_ok_def find_in_def)

lemma batchNames_names:
  "batchNames dd = Inr nn \<Longrightarrow> (k, d) \<in> set nn \<Longrightarrow> Some d \<in> set dd \<and> k = TrimSpace (dt_name d) \<and> k \<noteq> []"
proof (induction dd arbitrary: nn)
  case (Cons x dd)
  obtain d' nn' where x: "x = Some d'" "TrimSpace (dt_name d') \<noteq> []" "batchNames dd = Inr nn'"
    "nn = (TrimSpace (dt_name d'), d') # nn'"
    using Cons.prems(1) by (cases x) (auto simp: Let_def split: if_splits sum.splits)
  then show ?case using Cons.IH[OF x(3)] Cons.prems(2) by auto
qed simp

lemma commit_loop_book_ok:
  assumes "book_ok vv" and "\<And>k d. (k, d) \<in> set nn \<Longrightarrow> dt_name d = k"
  shows "book_ok (fst (commit_loop deq vv nn))"
  using assms commit_loop_distinct[of vv deq nn] commit_loop_in[of _ _ deq vv nn] by (fastforce simp: book_ok_def)

text \<open>
  A commit is atomic and visible: when a batch is committed to a scope, every other
  scope keeps its data, and reading a name from that scope afterwards returns the last datum of
  the batch with that name, or what the scope held before if the batch has none. The names are
  those of the data, which their constructors trim.
\<close>

theorem scope_commit_visible:
  assumes "Scope_Commit deq p pt dd = Inr (p', chs)" and "batchNames dd = Inr nn" and "dd \<noteq> []"
    and "map_of (pl_scopes p) pt = Some vv" and "book_ok vv"
    and "\<And>d. Some d \<in> set dd \<Longrightarrow> TrimSpace (dt_name d) = dt_name d"
    and "TrimSpace n = n" and "map_of (rev nn) n = Some d \<or> map_of (rev nn) n = None \<and> map_of vv n = Some d" and "n \<noteq> []"
  shows "GetData p' pt n = Some (Inr d) \<and>
         (\<forall>q. q \<noteq> pt \<longrightarrow> map_of (pl_scopes p') q = map_of (pl_scopes p) q)"
proof -
  define vv' where "vv' = fst (commit_loop deq vv nn)"
  have cc: "checkContained p pt = Inr ()" and cw: "checkWritable p pt = Inr ()"
    and p': "p' = p\<lparr>pl_scopes := AList.update pt vv' (pl_scopes p)\<rparr>"
    using assms(1-4) by (auto simp: Scope_Commit_def vv'_def split: sum.splits if_splits prod.splits)
  have ok: "book_ok vv'" unfolding vv'_def
    by (rule commit_loop_book_ok[OF assms(5)]) (use batchNames_names[OF assms(2)] assms(6) in metis)
  have "map_of vv' n = Some d" using assms(8) by (auto simp: vv'_def commit_loop_lookup)
  then have f: "find_in (\<lambda>d. dt_name d = n) vv' = Some d" using find_in_name[OF ok] by simp
  have m: "map_of (pl_scopes p') pt = Some vv'" using p' by (simp add: update_conv')
  have "checkContained p' pt = Inr ()" using cc p' by (auto simp: checkContained_def split: sum.splits if_splits)
  moreover have "pt \<noteq> pl_rtPath p'" using cw p' by (auto simp: checkWritable_def split: if_splits)
  moreover have "getData p' pt (\<lambda>d. dt_name d = n) = Some (Inr d)"
    using m f by (cases "Split slash pt") (simp_all add: getData_def)
  ultimately have "GetData p' pt n = Some (Inr d)" using assms(7,9) by (auto simp: GetData_def Let_def split: option.split)
  then show ?thesis using p' by (simp add: update_conv')
qed

definition sample_datum :: "nat sdatum" where
  "sample_datum = \<lparr>dt_name = ''x'', dt_idef = None, dt_value = Scalar 7, dt_ready = True\<rparr>"

lemma sample_batch: "batchNames [Some sample_datum] = Inr [(''x'', sample_datum)]"
  using sample_paths(3) by (simp add: sample_datum_def Let_def)

lemma sample_commit:
  "Scope_Commit (=) sample_plane ''/'' [Some sample_datum] =
     Inr (sample_plane\<lparr>pl_scopes := [(''/'', [(''x'', sample_datum)]), (''/sub'', [])]\<rparr>, [Change ''x'' ValueAdded])"
proof -
  have "checkContained sample_plane ''/'' = Inr ()" "checkWritable sample_plane ''/'' = Inr ()" by code_simp+
  then show ?thesis using sample_batch
    by (simp add: Scope_Commit_def) (simp add: sample_plane_def sample_datum_def DiffValues_def)
qed

theorem scope_commit_visible_witness:
  "GetData (sample_plane\<lparr>pl_scopes := [(''/'', [(''x'', sample_datum)]), (''/sub'', [])]\<rparr>) ''/'' ''x'' =
     Some (Inr sample_datum)"
  using scope_commit_visible[OF sample_commit sample_batch, of "[]" "''x''" sample_datum] sample_paths(3)
  by (simp add: sample_plane_def sample_datum_def book_ok_def)

end
