(* ===== verification/Data_Frame.thy ===== *)
theory Data_Frame
  imports Data_Scope
begin

text \<open>
  The execution frame of one node (\<^verbatim>\<open>src/internal/scope/frame.go\<close>): the working set with its inputs,
  outputs, properties and puts, resolution that looks in the frame before the plane, and the
  all-or-nothing commit. The plane is passed explicitly; a frame is used by one execution only.
  \<^verbatim>\<open>ResolvePath\<close> of \<^verbatim>\<open>src/pkg/model/data/path.go\<close> is here too. The instantiation of a definition (clone and
  wrap) and the id generated for a path result are parameters.

  The lemmas show that a frame writes to the plane at most once, with what it held at its commit,
  and that a discarded frame never writes.
\<close>

datatype frameState = frameOpen | frameCommitted | frameDiscarded

record 'v frame =
  fr_inputs :: "(string \<times> 'v sdatum) list"
  fr_outputs :: "(string \<times> 'v sdatum) list"
  fr_props :: "(string \<times> 'v sdatum) list"
  fr_puts :: "(string \<times> 'v sdatum) list"
  fr_at :: string
  fr_trackID :: string
  fr_nodeID :: string
  fr_state :: frameState

section \<open>Life cycle\<close>

definition NewFrame :: "string \<Rightarrow> string \<Rightarrow> string \<Rightarrow> 'v plane option \<Rightarrow> 'v frame result" where
  "NewFrame trackID nodeID pt p =
     (let tid = TrimSpace trackID; nid = TrimSpace nodeID
      in if tid = [] \<or> nid = [] then Inl (AppError EmptyNotAllowed ''NewFrame: empty track id or node id isn't allowed'')
         else (case p of
                 None \<Rightarrow> Inl (AppError EmptyNotAllowed ''NewFrame: a nil Scope isn't allowed'')
               | Some pl \<Rightarrow>
                   (case checkContained pl pt of
                      Inl e \<Rightarrow> Inl e
                    | Inr _ \<Rightarrow>
                        (if \<not> opened pl pt then Inl (AppError ObjectNotFound ''NewFrame: container scope %q isn't open'')
                         else Inr \<lparr>fr_inputs = [], fr_outputs = [], fr_props = [], fr_puts = [], fr_at = pt,
                                   fr_trackID = tid, fr_nodeID = nid, fr_state = frameOpen\<rparr>))))"

definition checkOpen :: "'v frame \<Rightarrow> unit result" where
  "checkOpen f =
     (if fr_state f \<noteq> frameOpen then Inl (AppError InvalidState ''%s: the frame of node %q on track %q is sealed'')
      else Inr ())"

text \<open>
  The loop of \<^verbatim>\<open>instantiateParams\<close>: an error in the middle leaves the instances built so far in
  the destination map.
\<close>

fun instantiate_loop :: "('v sdatum \<Rightarrow> 'v sdatum result) \<Rightarrow> 'v sdatum option list \<Rightarrow> (string \<times> 'v sdatum) list \<Rightarrow>
    (string \<times> 'v sdatum) list \<times> unit result" where
  "instantiate_loop inst [] dst = (dst, Inr ())"
| "instantiate_loop inst (None # defs) dst =
     (dst, Inl (AppError EmptyNotAllowed ''%s: a nil parameter isn't allowed (index %d)''))"
| "instantiate_loop inst (Some d # defs) dst =
     (if has_key (dt_name d) dst then (dst, Inl (AppError DuplicateObject ''%s: duplicate parameter name %q''))
      else (case inst d of
              Inl e \<Rightarrow> (dst, Inl (AppError OperationFailed ''%s: couldn't instantiate parameter %q''))
            | Inr i \<Rightarrow> instantiate_loop inst defs (AList.update (dt_name d) i dst)))"

definition InstantiateInputs :: "('v sdatum \<Rightarrow> 'v sdatum result) \<Rightarrow> 'v frame \<Rightarrow> 'v sdatum option list \<Rightarrow> 'v frame \<times> unit result" where
  "InstantiateInputs inst f defs =
     (case checkOpen f of
        Inl e \<Rightarrow> (f, Inl e)
      | Inr _ \<Rightarrow> (let (m, r) = instantiate_loop inst defs (fr_inputs f) in (f\<lparr>fr_inputs := m\<rparr>, r)))"

definition InstantiateOutputs :: "('v sdatum \<Rightarrow> 'v sdatum result) \<Rightarrow> 'v frame \<Rightarrow> 'v sdatum option list \<Rightarrow> 'v frame \<times> unit result" where
  "InstantiateOutputs inst f defs =
     (case checkOpen f of
        Inl e \<Rightarrow> (f, Inl e)
      | Inr _ \<Rightarrow> (let (m, r) = instantiate_loop inst defs (fr_outputs f) in (f\<lparr>fr_outputs := m\<rparr>, r)))"

text \<open>\<^verbatim>\<open>LoadProperties\<close> overwrites a repeated name.\<close>

fun properties_loop :: "('v sdatum \<Rightarrow> 'v sdatum result) \<Rightarrow> 'v sdatum option list \<Rightarrow> (string \<times> 'v sdatum) list \<Rightarrow>
    (string \<times> 'v sdatum) list \<times> unit result" where
  "properties_loop inst [] dst = (dst, Inr ())"
| "properties_loop inst (None # defs) dst =
     (dst, Inl (AppError EmptyNotAllowed ''LoadProperties: a nil property isn't allowed (index %d)''))"
| "properties_loop inst (Some d # defs) dst =
     (case inst d of
        Inl e \<Rightarrow> (dst, Inl (AppError OperationFailed ''LoadProperties: couldn't instantiate property %q''))
      | Inr i \<Rightarrow> properties_loop inst defs (AList.update (dt_name d) i dst))"

definition LoadProperties :: "('v sdatum \<Rightarrow> 'v sdatum result) \<Rightarrow> 'v frame \<Rightarrow> 'v sdatum option list \<Rightarrow> 'v frame \<times> unit result" where
  "LoadProperties inst f defs =
     (case checkOpen f of
        Inl e \<Rightarrow> (f, Inl e)
      | Inr _ \<Rightarrow> (let (m, r) = properties_loop inst defs (fr_props f) in (f\<lparr>fr_props := m\<rparr>, r)))"

definition Put :: "'v frame \<Rightarrow> 'v sdatum option list \<Rightarrow> 'v frame \<times> unit result" where
  "Put f dd =
     (case checkOpen f of
        Inl e \<Rightarrow> (f, Inl e)
      | Inr _ \<Rightarrow>
          (case batchNames dd of
             Inl e \<Rightarrow> (f, Inl e)
           | Inr nn \<Rightarrow> (f\<lparr>fr_puts := foldl (\<lambda>m (n, d). AList.update n d m) (fr_puts f) nn\<rparr>, Inr ())))"

definition frame_batch :: "'v frame \<Rightarrow> 'v sdatum option list" where
  "frame_batch f = map (Some \<circ> snd) (fr_outputs f) @ map (Some \<circ> snd) (fr_puts f)"

definition Frame_Commit :: "('v \<Rightarrow> 'v \<Rightarrow> bool) \<Rightarrow> 'v plane \<Rightarrow> 'v frame \<Rightarrow> 'v plane \<times> 'v frame \<times> change list result" where
  "Frame_Commit deq p f =
     (case checkOpen f of
        Inl e \<Rightarrow> (p, f, Inl e)
      | Inr _ \<Rightarrow>
          (case Scope_Commit deq p (fr_at f) (frame_batch f) of
             Inl e \<Rightarrow> (p, f, Inl (AppError OperationFailed ''Commit: frame of node %q on track %q failed to commit''))
           | Inr (p', changes) \<Rightarrow> (p', f\<lparr>fr_state := frameCommitted\<rparr>, Inr changes)))"

definition Discard :: "'v frame \<Rightarrow> 'v frame" where
  "Discard f = (if fr_state f = frameOpen then f\<lparr>fr_state := frameDiscarded\<rparr> else f)"

section \<open>Resolution\<close>

definition lookup :: "'v frame \<Rightarrow> ('v sdatum \<Rightarrow> bool) \<Rightarrow> 'v sdatum option" where
  "lookup f finder =
     (case find_in finder (fr_inputs f) of
        Some d \<Rightarrow> Some d
      | None \<Rightarrow>
          (case find_in finder (fr_props f) of
             Some d \<Rightarrow> Some d
           | None \<Rightarrow> find_in finder (fr_puts f)))"

definition resolveHead :: "'v plane \<Rightarrow> 'v frame \<Rightarrow> string \<Rightarrow> 'v sdatum result option" where
  "resolveHead p f name =
     (case lookup f (\<lambda>d. dt_name d = name) of
        Some d \<Rightarrow> Some (Inr d)
      | None \<Rightarrow> GetData p (fr_at f) name)"

definition ResolvePath :: "string \<Rightarrow> string \<Rightarrow> (string \<Rightarrow> 'v sdatum result option) \<Rightarrow> 'v sdatum result option" where
  "ResolvePath gid name head_of =
     (case SplitPath name of
        Inl e \<Rightarrow> Some (Inl e)
      | Inr (head, steps) \<Rightarrow>
          (case head_of head of
             None \<Rightarrow> None
           | Some (Inl e) \<Rightarrow> Some (Inl e)
           | Some (Inr d) \<Rightarrow>
               (if steps = [] then Some (Inr d)
                else if \<not> dt_ready d then
                  Some (Inl (AppError InvalidParameter ''cannot navigate %q: %q is not in Ready state''))
                else (case WalkSteps (dt_value d) steps of
                        Inl e \<Rightarrow> Some (Inl e)
                      | Inr leaf \<Rightarrow>
                          Some (Inr \<lparr>dt_name = name, dt_idef = Some gid, dt_value = leaf, dt_ready = True\<rparr>)))))"

definition GetSource :: "'v plane \<Rightarrow> string \<Rightarrow> string \<Rightarrow> 'v sdatum result" where
  "GetSource p source addr =
     (case pl_rt p of
        Some rt \<Rightarrow> if source = RuntimeVarsSegment then rt addr
                   else Inl (AppError ObjectNotFound ''GetSource: unknown data source %q'')
      | None \<Rightarrow> Inl (AppError ObjectNotFound ''GetSource: unknown data source %q''))"

definition Frame_GetData :: "string \<Rightarrow> 'v plane \<Rightarrow> 'v frame \<Rightarrow> string \<Rightarrow> 'v sdatum result option" where
  "Frame_GetData gid p f name =
     (let n = TrimSpace name
      in if n = [] then Some (Inl (AppError EmptyNotAllowed ''GetData: an empty data name isn't allowed''))
         else if slash \<in> set n then
           Some (GetSource p (takeWhile (\<lambda>c. c \<noteq> slash) n) (tl (dropWhile (\<lambda>c. c \<noteq> slash) n)))
         else ResolvePath gid n (resolveHead p f))"

definition Frame_GetDataByID :: "'v plane \<Rightarrow> 'v frame \<Rightarrow> string \<Rightarrow> 'v sdatum result option" where
  "Frame_GetDataByID p f idef =
     (let i = TrimSpace idef
      in if i = [] then Some (Inl (AppError EmptyNotAllowed ''GetDataByID: an empty ItemDefinition id isn't allowed''))
         else (case lookup f (\<lambda>d. dt_idef d = Some i) of
                 Some d \<Rightarrow> Some (Inr d)
               | None \<Rightarrow> GetDataByID p (fr_at f) i))"

section \<open>A frame writes at most once\<close>

datatype 'v frame_op =
    FInputs "'v sdatum option list" | FOutputs "'v sdatum option list" | FProps "'v sdatum option list"
  | FPut "'v sdatum option list" | FCommit | FDiscard

fun frame_step :: "('v \<Rightarrow> 'v \<Rightarrow> bool) \<Rightarrow> ('v sdatum \<Rightarrow> 'v sdatum result) \<Rightarrow> 'v plane \<times> 'v frame \<Rightarrow> 'v frame_op \<Rightarrow>
    'v plane \<times> 'v frame" where
  "frame_step deq inst (p, f) (FInputs ds) = (p, fst (InstantiateInputs inst f ds))"
| "frame_step deq inst (p, f) (FOutputs ds) = (p, fst (InstantiateOutputs inst f ds))"
| "frame_step deq inst (p, f) (FProps ds) = (p, fst (LoadProperties inst f ds))"
| "frame_step deq inst (p, f) (FPut ds) = (p, fst (Put f ds))"
| "frame_step deq inst (p, f) FCommit = (let (p', f', _) = Frame_Commit deq p f in (p', f'))"
| "frame_step deq inst (p, f) FDiscard = (p, Discard f)"

abbreviation frame_run :: "('v \<Rightarrow> 'v \<Rightarrow> bool) \<Rightarrow> ('v sdatum \<Rightarrow> 'v sdatum result) \<Rightarrow> 'v plane \<times> 'v frame \<Rightarrow>
    'v frame_op list \<Rightarrow> 'v plane \<times> 'v frame" where
  "frame_run deq inst \<equiv> foldl (frame_step deq inst)"

lemma sealed_step: "fr_state f \<noteq> frameOpen \<Longrightarrow> frame_step deq inst (p, f) op = (p, f)"
  by (cases op) (auto simp: InstantiateInputs_def InstantiateOutputs_def LoadProperties_def Put_def Frame_Commit_def
      Discard_def checkOpen_def)

lemma sealed_run: "fr_state f \<noteq> frameOpen \<Longrightarrow> frame_run deq inst (p, f) ops = (p, f)"
  by (induction ops) (auto simp: sealed_step)

lemma open_step:
  assumes "frame_step deq inst (p, f) op = (p', f')"
  shows "p' = p \<or> (op = FCommit \<and> fr_state f' = frameCommitted \<and>
           (\<exists>chs. Scope_Commit deq p (fr_at f) (frame_batch f) = Inr (p', chs)))"
  using assms by (cases op) (auto simp: Frame_Commit_def split: sum.splits prod.splits)

lemma fr_at_step: "frame_step deq inst (p, f) op = (p', f') \<Longrightarrow> fr_at f' = fr_at f"
  by (cases op) (auto simp: InstantiateInputs_def InstantiateOutputs_def LoadProperties_def Put_def Frame_Commit_def
      Discard_def split: sum.splits prod.splits)

text \<open>
  A frame writes to the data plane at most once and all at once: after any sequence of
  frame operations the plane is either untouched or the result of committing, as one batch into
  the frame's scope, the outputs and puts the frame held at one of its commit calls; nothing the
  frame does after that, or after it is discarded, reaches the plane.
\<close>

theorem frame_writes_once:
  "fst (frame_run deq inst (p, f) ops) = p \<or>
   (\<exists>pre post f'. ops = pre @ FCommit # post \<and> frame_run deq inst (p, f) pre = (p, f') \<and>
      (\<exists>chs. Scope_Commit deq p (fr_at f) (frame_batch f') = Inr (fst (frame_run deq inst (p, f) ops), chs)))"
proof (induction ops arbitrary: f)
  case (Cons op ops)
  obtain p1 f1 where s: "frame_step deq inst (p, f) op = (p1, f1)" by fastforce
  from open_step[OF s] show ?case
  proof
    assume "p1 = p"
    then have run: "frame_run deq inst (p, f) (op # os) = frame_run deq inst (p, f1) os" for os using s by simp
    from Cons.IH[of f1] show ?thesis
    proof (elim disjE exE conjE)
      assume "fst (frame_run deq inst (p, f1) ops) = p"
      then show ?thesis using run[of ops] by simp
    next
      fix pre post f' chs
      assume a: "ops = pre @ FCommit # post" "frame_run deq inst (p, f1) pre = (p, f')"
        "Scope_Commit deq p (fr_at f1) (frame_batch f') = Inr (fst (frame_run deq inst (p, f1) ops), chs)"
      have "op # ops = (op # pre) @ FCommit # post" using a(1) by simp
      then show ?thesis using a(2,3) run[of pre] run[of ops] fr_at_step[OF s] by metis
    qed
  next
    assume c: "op = FCommit \<and> fr_state f1 = frameCommitted \<and> (\<exists>chs. Scope_Commit deq p (fr_at f) (frame_batch f) = Inr (p1, chs))"
    then have "frame_run deq inst (p, f) (op # ops) = (p1, f1)"
      using s sealed_run[of f1 deq inst p1 ops] by (simp del: frame_step.simps)
    then show ?thesis using c by (intro disjI2 exI[of _ "[]"] exI[of _ ops] exI[of _ f]) auto
  qed
qed simp


section \<open>Keys that the frame cannot address\<close>

lemma escape_key_slash: "slash \<in> set (escape_key k) \<longleftrightarrow> slash \<in> set k"
  by (induction k rule: escape_key.induct) auto

lemma source_part_bracket:
  assumes "slash \<notin> set h"
  shows "CHR ''['' \<in> set (takeWhile (\<lambda>c. c \<noteq> slash) (h @ CHR ''['' # r))"
  using assms by (induction h) auto

text \<open>
  A map entry whose key contains a slash cannot be read through a frame. The path text that
  addresses it is a well-formed structural path, which \<^verbatim>\<open>SplitPath\<close> splits into the datum's name and
  the key, but \<^verbatim>\<open>Frame.GetData\<close> first cuts the text at its first slash and takes what stands before
  it for a source segment, so the read ends in the unknown data source error whatever the frame
  and the plane hold.
\<close>

theorem frame_slash_key_unreadable:
  assumes "legal_name h" and "slash \<in> set k" and "TrimSpace (h @ KeyLabel k) = h @ KeyLabel k"
  shows "SplitPath (h @ KeyLabel k) = Inr (h, [key_step k]) \<and>
         Frame_GetData gid p f (h @ KeyLabel k) =
           Some (Inl (AppError ObjectNotFound ''GetSource: unknown data source %q''))"
proof -
  let ?n = "h @ KeyLabel k"
  have "slash \<notin> set h" using assms(1)
    by (auto simp: legal_name_def CheckName_def reservedNameChars_def list_all_iff split: if_splits)
  then have "CHR ''['' \<in> set (takeWhile (\<lambda>c. c \<noteq> slash) ?n)"
    unfolding KeyLabel_def by (simp add: source_part_bracket)
  moreover have "CHR ''['' \<notin> set RuntimeVarsSegment" by (simp add: RuntimeVarsSegment_def)
  ultimately have src: "takeWhile (\<lambda>c. c \<noteq> slash) ?n \<noteq> RuntimeVarsSegment" by metis
  have sl: "slash \<in> set ?n" using assms(2) by (simp add: KeyLabel_def escape_key_slash)
  then have ne: "?n \<noteq> []" by force
  have k: "k \<noteq> []" using assms(2) by auto
  then have "SplitPath ?n = Inr (h, [key_step k])"
    using SplitPath_render[OF assms(1), of "[key_step k]"] by (simp add: render_simps render_steps_def)
  then show ?thesis
    unfolding Frame_GetData_def GetSource_def Let_def assms(3) using src sl ne
    by (simp split: option.split del: takeWhile_eq_Nil_iff)
qed

definition sample_frame :: "nat frame" where
  "sample_frame = \<lparr>fr_inputs = [], fr_outputs = [], fr_props = [], fr_puts = [], fr_at = [slash], fr_trackID = ''t'',
     fr_nodeID = ''n'', fr_state = frameOpen\<rparr>"

theorem frame_slash_key_unreadable_witness:
  "SplitPath (''m'' @ KeyLabel ''a/b'') = Inr (''m'', [key_step ''a/b'']) \<and>
   Frame_GetData ''g'' sample_plane sample_frame (''m'' @ KeyLabel ''a/b'') =
     Some (Inl (AppError ObjectNotFound ''GetSource: unknown data source %q''))"
proof (rule frame_slash_key_unreadable)
  show "legal_name ''m''" by (simp add: legal_name_def CheckName_def reservedNameChars_def)
  show "TrimSpace (''m'' @ KeyLabel ''a/b'') = ''m'' @ KeyLabel ''a/b''" by code_simp
qed simp

end
