(* ===== verification/Instance_Correlation.thy ===== *)
theory Instance_Correlation
  imports Data_Scope
begin

text \<open>
  Message correlation: the derivation of a conversation key from a message payload
  (\<^verbatim>\<open>src/pkg/model/msgflow/correlation.go\<close>), and the key book of an instance with the rules a received
  message is accepted by (\<^verbatim>\<open>src/internal/instance/correlation.go\<close>).

  The expression engine is a parameter, an argument of the derivation: it maps a retrieval
  expression and a data source to an error, to no value (\<open>None\<close>), or to a value whose content may
  be nil (\<open>Some None\<close>). So is \<open>sh\<close>, the text that \<^verbatim>\<open>fmt.Sprintf\<close> with verb \<^verbatim>\<open>v\<close> prints of a value. A
  payload is a Go \<^verbatim>\<open>any\<close>, nil being \<open>None\<close>.
\<close>

section \<open>Messages and correlation keys\<close>

record message =
  m_name :: string
  m_item :: "string option"

record 'e retrieval =
  re_path :: 'e
  re_ref :: "message option"

record 'e corr_property =
  cp_name :: string
  cp_exprs :: "'e retrieval list"

record 'e corr_key =
  ck_name :: string
  ck_props :: "'e corr_property list"

type_synonym ('e, 'p, 'r) engine = "'e \<Rightarrow> (string \<Rightarrow> 'p option sdatum result) \<Rightarrow> 'r option option result"

definition keySeparator :: char where
  "keySeparator = CHR 0x1F"

section \<open>Building a datum\<close>

definition Trim_blanks :: "string \<Rightarrow> string" where
  "Trim_blanks s = rev (dropWhile (\<lambda>c. c = CHR '' '') (rev (dropWhile (\<lambda>c. c = CHR '' '') s)))"

definition WithID :: "string \<Rightarrow> string result" where
  "WithID i =
     (let t = Trim_blanks i
      in if t = [] then Inl (AppError EmptyNotAllowed ''empty id isn't allowed (omit WithID to set autogenerated Id)'')
         else Inr t)"

definition NewParameter :: "string \<Rightarrow> string \<Rightarrow> 'v val \<Rightarrow> 'v sdatum result" where
  "NewParameter name item v =
     (let n = TrimSpace name
      in if n = [] then Inl (AppError Unclassified ''name shouldn't be empty'')
         else (case CheckName n of
                 Inl e \<Rightarrow> Inl e
               | Inr _ \<Rightarrow> Inr \<lparr>dt_name = n, dt_idef = Some item, dt_value = v, dt_ready = True\<rparr>))"

definition ReadyValueParameter :: "string \<Rightarrow> 'v val \<Rightarrow> string \<Rightarrow> 'v sdatum result" where
  "ReadyValueParameter name v i =
     (case WithID i of Inl e \<Rightarrow> Inl e | Inr item \<Rightarrow> NewParameter name item v)"

section \<open>Key derivation\<close>

definition payloadSource_Find :: "string \<Rightarrow> 'p option sdatum \<Rightarrow> string \<Rightarrow> 'p option sdatum result" where
  "payloadSource_Find sname datum name =
     (if name = sname then Inr datum
      else Inl (AppError ObjectNotFound ''correlation payload source: %q isn't found''))"

definition retrievalExprFor :: "'e corr_property \<Rightarrow> message \<Rightarrow> 'e retrieval option" where
  "retrievalExprFor prop msg =
     find (\<lambda>e. case re_ref e of None \<Rightarrow> False | Some m \<Rightarrow> m_name m = m_name msg) (cp_exprs prop)"

text \<open>One turn of the loop: the partial key of a property, \<open>None\<close> when it cannot be populated.\<close>

definition partial_key :: "('e, 'p, 'r) engine \<Rightarrow> ('r \<Rightarrow> string) \<Rightarrow> message \<Rightarrow> (string \<Rightarrow> 'p option sdatum result) \<Rightarrow>
    'e corr_property \<Rightarrow> string option result" where
  "partial_key eng sh msg src prop =
     (case retrievalExprFor prop msg of
        None \<Rightarrow> Inr None
      | Some e \<Rightarrow>
          (case eng (re_path e) src of
             Inl _ \<Rightarrow> Inl (AppError OperationFailed ''DeriveKey: property %q evaluation failed'')
           | Inr None \<Rightarrow> Inr None
           | Inr (Some None) \<Rightarrow> Inr None
           | Inr (Some (Some raw)) \<Rightarrow> Inr (Some (sh raw))))"

fun derive_parts :: "('e, 'p, 'r) engine \<Rightarrow> ('r \<Rightarrow> string) \<Rightarrow> message \<Rightarrow> (string \<Rightarrow> 'p option sdatum result) \<Rightarrow>
    'e corr_property list \<Rightarrow> string list option result" where
  "derive_parts eng sh msg src [] = Inr (Some [])"
| "derive_parts eng sh msg src (p # ps) =
     (case partial_key eng sh msg src p of
        Inl e \<Rightarrow> Inl e
      | Inr None \<Rightarrow> Inr None
      | Inr (Some part) \<Rightarrow>
          (case derive_parts eng sh msg src ps of
             Inl e \<Rightarrow> Inl e
           | Inr None \<Rightarrow> Inr None
           | Inr (Some parts) \<Rightarrow> Inr (Some (part # parts))))"

definition DeriveKey :: "('e, 'p, 'r) engine option \<Rightarrow> ('r \<Rightarrow> string) \<Rightarrow> 'e corr_key option \<Rightarrow> message option \<Rightarrow> 'p option \<Rightarrow>
    string option result" where
  "DeriveKey engine sh key msg payload =
     (case (engine, key, msg) of
        (Some eng, Some k, Some m) \<Rightarrow>
          (case m_item m of
             None \<Rightarrow> Inl (AppError EmptyNotAllowed ''DeriveKey: message %q has no item to read'')
           | Some item \<Rightarrow>
               (case ReadyValueParameter item (Scalar payload) item of
                  Inl _ \<Rightarrow> Inl (AppError OperationFailed ''DeriveKey: couldn't build payload datum'')
                | Inr datum \<Rightarrow>
                    (case derive_parts eng sh m (payloadSource_Find item datum) (ck_props k) of
                       Inl e \<Rightarrow> Inl e
                     | Inr None \<Rightarrow> Inr None
                     | Inr (Some parts) \<Rightarrow> Inr (Some (Join keySeparator parts)))))
      | _ \<Rightarrow> Inl (AppError InvalidParameter ''DeriveKey: engine, key and message are all required''))"

definition MissingKeyProperties :: "'e corr_key option \<Rightarrow> message option \<Rightarrow> string list" where
  "MissingKeyProperties key msg =
     (case key of
        None \<Rightarrow> []
      | Some k \<Rightarrow>
          map cp_name (filter (\<lambda>p. case msg of None \<Rightarrow> True | Some m \<Rightarrow> retrievalExprFor p m = None) (ck_props k)))"

section \<open>The key book of an instance\<close>

type_synonym key_book = "(string \<times> string) list"

text \<open>
  A received event: whether its definition carries a message at all, the message, and its items'
  payloads. The nodes of the process as the definitions of each, message triggers marked.
\<close>

record 'p event_def =
  ed_id :: string
  ed_isMessage :: bool
  ed_message :: "message option"
  ed_items :: "'p option list"

definition associate :: "key_book \<Rightarrow> string \<Rightarrow> string \<Rightarrow> key_book \<times> bool" where
  "associate held name v =
     (if name = [] \<or> v = [] then (held, False)
      else if has_key name held then (held, False)
      else (AList.update name v held, True))"

text \<open>The calls \<^verbatim>\<open>AddEventKey(eDefID, key)\<close> made to the event producer, if it has that capability.\<close>

definition extendReceivers :: "bool \<Rightarrow> (bool \<times> string) list list \<Rightarrow> string \<Rightarrow> (string \<times> string) list" where
  "extendReceivers adder nodes v =
     (if adder then concat (map (\<lambda>defs. map (\<lambda>d. (snd d, v)) (filter fst defs)) nodes) else [])"

text \<open>The first pass: the derived keys, or \<open>None\<close> when one contradicts a held key.\<close>

fun derive_pass :: "('e corr_key \<Rightarrow> string option result) \<Rightarrow> key_book \<Rightarrow> 'e corr_key list \<Rightarrow> key_book \<Rightarrow> key_book option" where
  "derive_pass derive held [] derived = Some derived"
| "derive_pass derive held (k # ks) derived =
     (case derive k of
        Inl _ \<Rightarrow> derive_pass derive held ks derived
      | Inr None \<Rightarrow> derive_pass derive held ks derived
      | Inr (Some v) \<Rightarrow>
          (if has_key (ck_name k) held \<and> map_of held (ck_name k) \<noteq> Some v then None
           else derive_pass derive held ks (AList.update (ck_name k) v derived)))"

fun associate_pass :: "bool \<Rightarrow> (bool \<times> string) list list \<Rightarrow> key_book \<Rightarrow> key_book \<Rightarrow> key_book \<times> (string \<times> string) list" where
  "associate_pass adder nodes held [] = (held, [])"
| "associate_pass adder nodes held ((n, v) # ds) =
     (let (held1, added) = associate held n v;
          (held2, calls) = associate_pass adder nodes held1 ds
      in (held2, (if added then extendReceivers adder nodes v else []) @ calls))"

text \<open>
  The decision on a received message: whether it mismatches, the key book after it, and the calls
  made to extend the parked receivers.
\<close>

definition validateAndAssociate :: "('e, 'p, 'r) engine option \<Rightarrow> ('r \<Rightarrow> string) \<Rightarrow> 'e corr_key list \<Rightarrow> bool \<Rightarrow>
    (bool \<times> string) list list \<Rightarrow> key_book \<Rightarrow> 'p event_def \<Rightarrow> bool \<times> key_book \<times> (string \<times> string) list" where
  "validateAndAssociate eng sh keys adder nodes held ed =
     (if keys = [] \<or> \<not> ed_isMessage ed then (False, held, [])
      else let payload = (case ed_items ed of [] \<Rightarrow> None | p # _ \<Rightarrow> p)
           in (case derive_pass (\<lambda>k. DeriveKey eng sh (Some k) (ed_message ed) payload) held keys [] of
                 None \<Rightarrow> (True, held, [])
               | Some derived \<Rightarrow>
                   (let (held', calls) = associate_pass adder nodes held derived in (False, held', calls))))"

definition corr_values :: "key_book \<Rightarrow> string list" where
  "corr_values held = map snd held"

definition restoreKeys :: "key_book \<Rightarrow> key_book \<Rightarrow> key_book" where
  "restoreKeys held rec_keys = foldl (\<lambda>h (k, v). AList.update k v h) held rec_keys"

section \<open>Derived keys are unambiguous\<close>

lemma derive_parts_nth:
  assumes "derive_parts eng sh msg src ps = Inr (Some parts)"
  shows "length parts = length ps \<and> (\<forall>i < length ps. partial_key eng sh msg src (ps ! i) = Inr (Some (parts ! i)))"
  using assms
proof (induction ps arbitrary: parts)
  case (Cons p ps)
  then obtain part rest where "partial_key eng sh msg src p = Inr (Some part)"
    "derive_parts eng sh msg src ps = Inr (Some rest)" "parts = part # rest"
    by (auto split: sum.splits option.splits)
  then show ?case using Cons.IH[of rest] by (auto simp: nth_Cons split: nat.split)
qed simp

lemma partial_key_sep:
  "partial_key eng sh msg src p = Inr (Some part) \<Longrightarrow> (\<And>r. c \<notin> set (sh r)) \<Longrightarrow> c \<notin> set part"
  by (auto simp: partial_key_def split: option.splits sum.splits)

lemma Join_inj:
  assumes "length xs = length ys" and "\<And>s. s \<in> set xs \<union> set ys \<Longrightarrow> c \<notin> set s" and "Join c xs = Join c ys"
  shows "xs = ys"
proof (cases "xs = []")
  case False
  then have ne: "ys \<noteq> []" using assms(1) by auto
  have "Split c (Join c xs) = xs" using Split_Join[OF False] assms(2) by blast
  moreover have "Split c (Join c ys) = ys" using Split_Join[OF ne] assms(2) by blast
  ultimately show ?thesis using assms(3) by metis
qed (use assms(1) in simp)

lemma DeriveKey_parts:
  assumes "DeriveKey (Some eng) sh (Some key) (Some msg) p = Inr (Some k)"
  shows "\<exists>src parts. derive_parts eng sh msg src (ck_props key) = Inr (Some parts) \<and> k = Join keySeparator parts \<and>
           (\<exists>item datum. m_item msg = Some item \<and> ReadyValueParameter item (Scalar p) item = Inr datum \<and>
              src = payloadSource_Find item datum)"
proof -
  obtain item where i: "m_item msg = Some item" using assms by (cases "m_item msg") (simp_all add: DeriveKey_def)
  obtain datum where d: "ReadyValueParameter item (Scalar p) item = Inr datum"
    using assms i by (cases "ReadyValueParameter item (Scalar p) item") (simp_all add: DeriveKey_def)
  obtain r where r: "derive_parts eng sh msg (payloadSource_Find item datum) (ck_props key) = Inr r"
    using assms i d by (cases "derive_parts eng sh msg (payloadSource_Find item datum) (ck_props key)") (simp_all add: DeriveKey_def)
  then show ?thesis using assms i d by (cases r) (auto simp: DeriveKey_def)
qed

text \<open>The data source a message's payload is read through.\<close>

definition payload_src :: "message \<Rightarrow> 'p option \<Rightarrow> string \<Rightarrow> 'p option sdatum result" where
  "payload_src msg p =
     (case m_item msg of
        None \<Rightarrow> (\<lambda>_. Inl (AppError EmptyNotAllowed []))
      | Some item \<Rightarrow>
          (case ReadyValueParameter item (Scalar p) item of
             Inl e \<Rightarrow> (\<lambda>_. Inl e)
           | Inr datum \<Rightarrow> payloadSource_Find item datum))"

text \<open>
  Two messages get the same composite correlation key only if they agree on every
  partial key, provided no printed value contains the separator character. So a message is never
  routed to a conversation because its partial keys run together differently.
\<close>

theorem correlation_key_unambiguous:
  assumes "\<And>r. keySeparator \<notin> set (sh r)"
    and "DeriveKey (Some eng) sh (Some key) (Some msg) p = Inr (Some k)"
    and "DeriveKey (Some eng) sh (Some key) (Some msg') p' = Inr (Some k)"
    and "prop \<in> set (ck_props key)"
  shows "partial_key eng sh msg (payload_src msg p) prop = partial_key eng sh msg' (payload_src msg' p') prop"
proof -
  obtain parts where a: "derive_parts eng sh msg (payload_src msg p) (ck_props key) = Inr (Some parts)"
    "k = Join keySeparator parts" using DeriveKey_parts[OF assms(2)] by (auto simp: payload_src_def)
  obtain parts' where b: "derive_parts eng sh msg' (payload_src msg' p') (ck_props key) = Inr (Some parts')"
    "k = Join keySeparator parts'" using DeriveKey_parts[OF assms(3)] by (auto simp: payload_src_def)
  note na = derive_parts_nth[OF a(1)] and nb = derive_parts_nth[OF b(1)]
  have "keySeparator \<notin> set s" if s: "s \<in> set parts \<union> set parts'" for s
  proof -
    obtain m src p where "partial_key eng sh m src p = Inr (Some s)"
      using s na nb unfolding Un_iff in_set_conv_nth by metis
    then show ?thesis using partial_key_sep assms(1) by fast
  qed
  then have "parts = parts'" using Join_inj[of parts parts' keySeparator] na nb a(2) b(2) by simp
  then show ?thesis using na nb assms(4) by (metis in_set_conv_nth)
qed

definition sample_key :: "nat corr_key" where
  "sample_key = \<lparr>ck_name = ''order'', ck_props =
     [\<lparr>cp_name = ''a'', cp_exprs = [\<lparr>re_path = 0, re_ref = Some \<lparr>m_name = ''m'', m_item = Some ''it''\<rparr>\<rparr>]\<rparr>,
      \<lparr>cp_name = ''b'', cp_exprs = [\<lparr>re_path = 1, re_ref = Some \<lparr>m_name = ''m'', m_item = Some ''it''\<rparr>\<rparr>]\<rparr>]\<rparr>"

definition sample_msg :: message where
  "sample_msg = \<lparr>m_name = ''m'', m_item = Some ''it''\<rparr>"

text \<open>An engine whose expression number 0 or 1 selects a component of a payload pair.\<close>

definition sample_engine :: "(nat, string \<times> string, string) engine" where
  "sample_engine e src =
     (case src ''it'' of
        Inl er \<Rightarrow> Inl er
      | Inr d \<Rightarrow> (case dt_value d of
                    Scalar (Some (x, y)) \<Rightarrow> Inr (Some (Some (if e = 0 then x else y)))
                  | _ \<Rightarrow> Inr None))"

lemma sample_item: "ReadyValueParameter ''it'' v ''it'' = Inr \<lparr>dt_name = ''it'', dt_idef = Some ''it'', dt_value = v, dt_ready = True\<rparr>"
proof -
  have "TrimSpace ''it'' = ''it''" by code_simp
  then show ?thesis
    by (simp add: ReadyValueParameter_def WithID_def Trim_blanks_def NewParameter_def CheckName_def reservedNameChars_def Let_def)
qed

lemma sample_derive:
  "DeriveKey (Some sample_engine) sh (Some sample_key) (Some sample_msg) (Some (x, y)) =
     Inr (Some (sh x @ keySeparator # sh y))"
  by (simp add: DeriveKey_def sample_msg_def sample_key_def sample_item partial_key_def retrievalExprFor_def
      sample_engine_def payloadSource_Find_def)

lemma sample_sh: "keySeparator \<notin> set (filter (\<lambda>c. c \<noteq> keySeparator) r)"
  by simp

theorem correlation_key_unambiguous_witness:
  "partial_key sample_engine (filter (\<lambda>c. c \<noteq> keySeparator)) sample_msg (payload_src sample_msg (Some (''7'', ''x'')))
     (hd (ck_props sample_key)) =
   partial_key sample_engine (filter (\<lambda>c. c \<noteq> keySeparator)) sample_msg (payload_src sample_msg (Some (''7'', ''x'')))
     (hd (ck_props sample_key))"
  by (rule correlation_key_unambiguous[OF sample_sh sample_derive sample_derive]) (simp add: sample_key_def)

text \<open>
  The proviso is not idle: the separator is a character a payload text may contain, and then two
  different pairs of partial keys give the same composite key.
\<close>

lemma composite_key_collision:
  "DeriveKey (Some sample_engine) id (Some sample_key) (Some sample_msg) (Some (''a'' @ [keySeparator] @ ''b'', ''c'')) =
   DeriveKey (Some sample_engine) id (Some sample_key) (Some sample_msg) (Some (''a'', ''b'' @ [keySeparator] @ ''c''))"
  by (simp add: sample_derive)

text \<open>A key derived at run time has every property covered: the static check is its counterpart.\<close>

lemma DeriveKey_covered:
  assumes "DeriveKey (Some eng) sh (Some key) (Some msg) p = Inr (Some k)"
  shows "MissingKeyProperties (Some key) (Some msg) = []"
proof -
  obtain src parts where d: "derive_parts eng sh msg src (ck_props key) = Inr (Some parts)"
    using DeriveKey_parts[OF assms] by blast
  have "retrievalExprFor q msg \<noteq> None" if q: "q \<in> set (ck_props key)" for q
  proof -
    obtain i where "i < length (ck_props key)" "q = ck_props key ! i" using q by (auto simp: in_set_conv_nth)
    then have "partial_key eng sh msg src q = Inr (Some (parts ! i))" using derive_parts_nth[OF d] by simp
    then show ?thesis by (cases "retrievalExprFor q msg") (simp_all add: partial_key_def)
  qed
  then show ?thesis by (auto simp: MissingKeyProperties_def filter_empty_conv)
qed

section \<open>The conversation of an instance\<close>

text \<open>What happens to the key book: a keyed send of a track, a received message.\<close>

datatype 'p corr_op = KeyedSend string string | Received "'p event_def"

fun corr_step :: "('e, 'p, 'r) engine option \<Rightarrow> ('r \<Rightarrow> string) \<Rightarrow> 'e corr_key list \<Rightarrow> bool \<Rightarrow> (bool \<times> string) list list \<Rightarrow>
    key_book \<Rightarrow> 'p corr_op \<Rightarrow> key_book" where
  "corr_step eng sh keys adder nodes held (KeyedSend n v) = fst (associate held n v)"
| "corr_step eng sh keys adder nodes held (Received ed) = fst (snd (validateAndAssociate eng sh keys adder nodes held ed))"

definition payload_of :: "'p event_def \<Rightarrow> 'p option" where
  "payload_of ed = (case ed_items ed of [] \<Rightarrow> None | p # _ \<Rightarrow> p)"

lemma has_key_iff: "has_key k m \<longleftrightarrow> (\<exists>v. map_of m k = Some v)"
  by (simp add: has_key_map_of)

lemma associate_mono: "map_of held n = Some v \<Longrightarrow> map_of (fst (associate held m w)) n = Some v"
  by (auto simp: associate_def has_key_iff update_conv')

lemma associate_pass_mono: "map_of held n = Some v \<Longrightarrow> map_of (fst (associate_pass adder nodes held ds)) n = Some v"
proof (induction adder nodes held ds rule: associate_pass.induct)
  case (2 adder nodes held m w ds)
  then show ?case using associate_mono[of held n v m w] by (auto simp: Let_def split: prod.split)
qed simp

lemma validate_mono: "map_of held n = Some v \<Longrightarrow> map_of (fst (snd (validateAndAssociate eng sh keys adder nodes held ed))) n = Some v"
  by (auto simp: validateAndAssociate_def Let_def split: option.split prod.split dest: associate_pass_mono[of held n v adder nodes])

lemma corr_run_mono:
  "map_of held n = Some v \<Longrightarrow> map_of (foldl (corr_step eng sh keys adder nodes) held ops) n = Some v"
proof (induction ops arbitrary: held)
  case (Cons op ops)
  then show ?case by (cases op) (simp_all add: associate_mono validate_mono)
qed simp

lemma associate_pass_learns:
  assumes "distinct (map fst ds)" and "(n, v) \<in> set ds" and "n \<noteq> []" and "v \<noteq> []"
    and "has_key n held \<Longrightarrow> map_of held n = Some v"
  shows "map_of (fst (associate_pass adder nodes held ds)) n = Some v"
  using assms
proof (induction adder nodes held ds rule: associate_pass.induct)
  case (2 adder nodes held m w ds)
  obtain h b where h: "associate held m w = (h, b)" by fastforce
  show ?case
  proof (cases "n = m")
    case True
    then have "w = v" using 2(2,3) by force
    then have "map_of h n = Some v" using True h 2(4-6) by (auto simp: associate_def update_conv' split: if_splits)
    then show ?thesis using h associate_pass_mono[of h n v adder nodes ds] by (auto simp: Let_def split: prod.split)
  next
    case False
    then have "(n, v) \<in> set ds" using 2(3) by simp
    moreover have "has_key n h \<Longrightarrow> map_of h n = Some v"
      using 2(6) h False by (auto simp: associate_def update_conv' has_key_iff split: if_splits)
    ultimately have "map_of (fst (associate_pass adder nodes h ds)) n = Some v"
      using 2(1)[OF h[symmetric] refl] 2(2,4,5) by simp
    then show ?thesis using h by (auto simp: Let_def split: prod.split)
  qed
qed simp

lemma derive_pass_Some:
  assumes "derive_pass f held ks d = Some d'" and "distinct (map ck_name ks)" and "distinct (map fst d)"
  shows "distinct (map fst d') \<and> (\<forall>n. n \<notin> ck_name ` set ks \<longrightarrow> map_of d' n = map_of d n) \<and>
         (\<forall>k\<in>set ks. \<forall>v. f k = Inr (Some v) \<longrightarrow>
            map_of d' (ck_name k) = Some v \<and> (has_key (ck_name k) held \<longrightarrow> map_of held (ck_name k) = Some v))"
  using assms
proof (induction f held ks d rule: derive_pass.induct)
  case (2 f held k ks d)
  show ?case
  proof (cases "\<exists>v. f k = Inr (Some v)")
    case True
    then obtain v where v: "f k = Inr (Some v)" by blast
    then have rec: "derive_pass f held ks (AList.update (ck_name k) v d) = Some d'"
      and held: "has_key (ck_name k) held \<longrightarrow> map_of held (ck_name k) = Some v"
      using 2(4) by (auto split: if_splits)
    have "distinct (map fst (AList.update (ck_name k) v d))" using 2(6) by (simp add: distinct_update)
    then show ?thesis using 2(3)[OF v refl _ rec] 2(5) v held 2(4) by (auto simp: update_conv' split: if_splits)
  next
    case False
    then have "derive_pass f held ks d = Some d'" using 2(4) by (auto split: sum.splits option.splits)
    then show ?thesis using 2(1,2)[OF _ _ ] False 2(5,6) by (cases "f k"; cases "projr (f k)") auto
  qed
qed simp

lemma derive_pass_None:
  "derive_pass f held ks d = None \<Longrightarrow>
     \<exists>k\<in>set ks. \<exists>v h. f k = Inr (Some v) \<and> map_of held (ck_name k) = Some h \<and> h \<noteq> v"
proof (induction f held ks d rule: derive_pass.induct)
  case (2 f held k ks d)
  show ?case
  proof (cases "\<exists>v. f k = Inr (Some v) \<and> has_key (ck_name k) held \<and> map_of held (ck_name k) \<noteq> Some v")
    case True
    then obtain v h where "f k = Inr (Some v)" "map_of held (ck_name k) = Some h" "h \<noteq> v"
      by (auto simp: has_key_iff)
    then show ?thesis by auto
  next
    case False
    then show ?thesis using 2 by (auto split: sum.splits option.splits if_splits)
  qed
qed simp

text \<open>
  Claim C18. The conversation of an instance is consistent. A key value, once held, never changes,
  whatever sends and messages follow. A received message is rejected only when one of its derived
  keys contradicts a held one, and then it leaves the key book and the subscriptions as they were;
  when it is accepted, the instance afterwards holds every non-empty key the message derives, with
  the derived value.
\<close>

theorem conversation_consistent:
  assumes "distinct (map ck_name keys)" and "[] \<notin> ck_name ` set keys" and "ed_isMessage ed"
    and "held = foldl (corr_step eng sh keys adder nodes) held0 ops"
    and "validateAndAssociate eng sh keys adder nodes held ed = (mismatch, held', calls)"
  shows "(\<forall>n v. map_of held0 n = Some v \<longrightarrow> map_of held' n = Some v) \<and>
    (if mismatch
     then held' = held \<and> calls = [] \<and>
          (\<exists>k\<in>set keys. \<exists>v h. DeriveKey eng sh (Some k) (ed_message ed) (payload_of ed) = Inr (Some v) \<and>
             map_of held (ck_name k) = Some h \<and> h \<noteq> v)
     else (\<forall>k\<in>set keys. \<forall>v. DeriveKey eng sh (Some k) (ed_message ed) (payload_of ed) = Inr (Some v) \<longrightarrow> v \<noteq> [] \<longrightarrow>
             map_of held' (ck_name k) = Some v))"
proof -
  let ?f = "\<lambda>k. DeriveKey eng sh (Some k) (ed_message ed) (payload_of ed)"
  have mono: "map_of held0 n = Some v \<Longrightarrow> map_of held' n = Some v" for n v
    using corr_run_mono[of held0 n v eng sh keys adder nodes ops] assms(4,5)
      validate_mono[of held n v eng sh keys adder nodes ed] by simp
  show ?thesis
  proof (cases "derive_pass ?f held keys []")
    case None
    then have "keys \<noteq> []" by auto
    then have "mismatch" "held' = held" "calls = []"
      using assms(3,5) None by (auto simp: validateAndAssociate_def payload_of_def Let_def)
    then show ?thesis using mono derive_pass_None[OF None] by auto
  next
    case (Some d)
    note ds = derive_pass_Some[OF Some assms(1)]
    have nm: "\<not> mismatch" using assms(3,5) Some
      by (auto simp: validateAndAssociate_def payload_of_def Let_def split: if_splits prod.splits)
    have "map_of held' (ck_name k) = Some v" if k: "k \<in> set keys" "?f k = Inr (Some v)" "v \<noteq> []" for k v
    proof -
      have "keys \<noteq> []" using k(1) by auto
      then have "held' = fst (associate_pass adder nodes held d)"
        using assms(3,5) Some by (auto simp: validateAndAssociate_def payload_of_def Let_def split: prod.splits)
      moreover have "ck_name k \<noteq> []" using assms(2) k(1) by force
      ultimately show ?thesis
        using associate_pass_learns[of d "ck_name k" v held adder nodes] ds k by (auto dest: map_of_SomeD)
    qed
    then show ?thesis using mono nm by auto
  qed
qed

definition sample_event :: "(string \<times> string) event_def" where
  "sample_event = \<lparr>ed_id = ''d'', ed_isMessage = True, ed_message = Some sample_msg, ed_items = [Some (''7'', ''x'')]\<rparr>"

lemma sample_validate:
  "validateAndAssociate (Some sample_engine) id [sample_key] True [[(True, ''d'')]] [] sample_event =
     (False, [(''order'', ''7'' @ keySeparator # ''x'')], [(''d'', ''7'' @ keySeparator # ''x'')])"
  by (simp add: validateAndAssociate_def sample_event_def sample_derive associate_def extendReceivers_def)
    (simp add: sample_key_def)

theorem conversation_consistent_witness:
  "map_of [(''order'', ''7'' @ keySeparator # ''x'')] (ck_name sample_key) = Some (''7'' @ keySeparator # ''x'')"
proof -
  have "\<forall>k\<in>set [sample_key]. \<forall>v. DeriveKey (Some sample_engine) id (Some k) (ed_message sample_event) (payload_of sample_event) =
      Inr (Some v) \<longrightarrow> v \<noteq> [] \<longrightarrow> map_of [(''order'', ''7'' @ keySeparator # ''x'')] (ck_name k) = Some v"
    using conversation_consistent[OF _ _ _ _ sample_validate, of "[]" "[]"]
    by (simp add: sample_event_def) (simp add: sample_key_def)
  then show ?thesis using sample_derive[of id "''7''" "''x''"] by (simp add: sample_event_def payload_of_def)
qed

end
