(* ===== verification/Instance_State.thy ===== *)
theory Instance_State
  imports Complex_Join Data_Frame Instance_Correlation
begin

text \<open>
  The state of a process instance at run time: the tracks (one per token), the registries of the
  single-writer event loop, and the stop of an instance. Sources: \<^verbatim>\<open>src/internal/instance/track.go\<close>,
  \<^verbatim>\<open>token.go\<close>, \<^verbatim>\<open>projection.go\<close>, \<^verbatim>\<open>lifecycle.go\<close>, \<^verbatim>\<open>event.go\<close>, \<^verbatim>\<open>activation.go\<close> and the state and stop part of
  \<^verbatim>\<open>loop.go\<close>.

  A track is named by its id and a node by its node id. Of the registries whose entries other
  components own (tasks, jobs, calls, scopes, handlers, groups, sweeps) only the keys are kept.
  Calls to collaborators outside the instance are entries of the log \<open>ls_log\<close>.

  A Go channel is its buffered content and whether it is closed. A send that Go would block on,
  or that would panic, is recorded in \<open>ls_loop\<close>, the status of the loop goroutine.
\<close>

section \<open>Tracks and tokens\<close>

datatype trackState =
    TrackCreated | TrackReady | TrackExecutingStep | TrackProcessStepResults | TrackWaitForEvent
  | TrackAwaitingMerge | TrackAwaitSync | TrackMerged | TrackEnded | TrackCanceled | TrackFailed
  | TrackDehydrated | TrackIncident

datatype TokenState = TokenInvalid | TokenAlive | TokenWaitForEvent | TokenConsumed | TokenIncident

definition TokenState_Validate :: "TokenState \<Rightarrow> unit result" where
  "TokenState_Validate ts =
     (if ts = TokenInvalid then Inl (AppError InvalidParameter ''invalid token state: %d'') else Inr ())"

fun tokenStateFor :: "trackState \<Rightarrow> TokenState" where
  "tokenStateFor TrackCreated = TokenAlive"
| "tokenStateFor TrackReady = TokenAlive"
| "tokenStateFor TrackExecutingStep = TokenAlive"
| "tokenStateFor TrackProcessStepResults = TokenAlive"
| "tokenStateFor TrackAwaitingMerge = TokenAlive"
| "tokenStateFor TrackAwaitSync = TokenAlive"
| "tokenStateFor TrackWaitForEvent = TokenWaitForEvent"
| "tokenStateFor TrackEnded = TokenConsumed"
| "tokenStateFor TrackMerged = TokenConsumed"
| "tokenStateFor TrackCanceled = TokenConsumed"
| "tokenStateFor TrackFailed = TokenConsumed"
| "tokenStateFor TrackIncident = TokenIncident"
| "tokenStateFor _ = TokenInvalid"

definition liveTrackStates :: "trackState \<Rightarrow> bool" where
  "liveTrackStates s \<longleftrightarrow>
     s \<in> {TrackCreated, TrackReady, TrackExecutingStep, TrackProcessStepResults, TrackWaitForEvent,
          TrackAwaitingMerge, TrackAwaitSync, TrackDehydrated}"

datatype trackEventKind = evEnded | evAwaiting | evFailed | evDehydrated

definition trackEndKind :: "trackState \<Rightarrow> trackEventKind" where
  "trackEndKind s =
     (if s = TrackDehydrated then evDehydrated
      else if s = TrackAwaitingMerge then evAwaiting
      else if s = TrackFailed then evFailed
      else evEnded)"

text \<open>An event that a track's goroutine is handing to the loop; the channel has no buffer, so the
  goroutine waits until the loop takes it.\<close>

datatype emission = EmWaiting | EmParked | EmEnd trackEventKind

record 'c cond_def =
  cd_id :: string
  cd_cond :: 'c
  cd_lister :: "string list option"

record ('c, 'p) track =
  tk_state :: trackState
  tk_node :: node_id
  tk_hist :: "(node_id \<times> trackState) list"
  tk_scopePath :: string
  tk_msgDefIDs :: "string list"
  tk_condDefs :: "'c cond_def list"
  tk_held :: bool
  tk_stopIt :: bool
  tk_ctxDone :: bool
  tk_evtCh :: "'p event_def list"
  tk_evtClosed :: bool
  tk_dehydrateClosed :: bool
  tk_parkCh :: nat
  tk_mergedInto :: "track_id option"
  tk_emit :: "emission option"

definition eventBufferDepth :: nat where
  "eventBufferDepth = 1"

section \<open>The loop's registries\<close>

datatype State = Created | Active | Completed | Terminating | Terminated | Dehydrated

datatype loopStatus = LoopRunning | LoopBlocked | LoopPanicked

record 'c condWatch =
  cw_ptr :: nat
  cw_track :: track_id
  cw_node :: "node_id option"
  cw_def :: "'c cond_def"
  cw_handler :: "node_id option"
  cw_handlerPath :: string
  cw_deps :: "string list"
  cw_last :: bool
  cw_boundary :: bool

text \<open>The log of calls to collaborators.\<close>

datatype call =
    ReleaseWaits track_id | WithdrawTask string | TerminateChild string | DisarmHandlers string
  | AddEventKey string string

record ('c, 'p) loop_state =
  ls_tracks :: "(track_id \<times> ('c, 'p) track) list"
  ls_waiting :: "track_id list"
  ls_msgIdx :: "(string \<times> track_id) list"
  ls_position :: "(track_id \<times> node_id) list"
  ls_parked :: "(track_id \<times> node_id) list"
  ls_watchers :: "(track_id \<times> bool list) list"
  ls_tasks :: "string list"
  ls_jobs :: "string list"
  ls_calls :: "string list"
  ls_scopeHandlers :: "string list"
  ls_scopeInterrupted :: "string list"
  ls_scopes :: "string list"
  ls_miGroups :: "string list"
  ls_sweeps :: "string list"
  ls_conds :: "'c condWatch list"
  ls_active :: int
  ls_stopping :: bool
  ls_dehydrating :: bool
  ls_state :: State
  ls_lastErr :: "app_error option"
  ls_keys :: key_book
  ls_log :: "call list"
  ls_loop :: loopStatus
  ls_nextPtr :: nat

text \<open>Update one track.\<close>

definition upd_track :: "track_id \<Rightarrow> (('c, 'p) track \<Rightarrow> ('c, 'p) track) \<Rightarrow> ('c, 'p) loop_state \<Rightarrow> ('c, 'p) loop_state" where
  "upd_track t f ls = ls\<lparr>ls_tracks := map (\<lambda>(i, tr). (i, if i = t then f tr else tr)) (ls_tracks ls)\<rparr>"

abbreviation track_of :: "('c, 'p) loop_state \<Rightarrow> track_id \<Rightarrow> ('c, 'p) track option" where
  "track_of ls t \<equiv> map_of (ls_tracks ls) t"

lemma map_of_map_snd: "map_of (map (\<lambda>(i, x). (i, f i x)) m) k = map_option (f k) (map_of m k)"
  by (induction m) auto

lemma track_of_upd [simp]:
  "track_of (upd_track t f ls) i = (if i = t then map_option f (track_of ls t) else track_of ls i)"
  using map_of_map_snd[of "\<lambda>i tr. if i = t then f tr else tr" "ls_tracks ls" i]
  by (simp add: upd_track_def option.map_ident)

lemma upd_track_frame [simp]:
  "ls_waiting (upd_track t f ls) = ls_waiting ls" "ls_msgIdx (upd_track t f ls) = ls_msgIdx ls"
  "ls_position (upd_track t f ls) = ls_position ls" "ls_parked (upd_track t f ls) = ls_parked ls"
  "ls_conds (upd_track t f ls) = ls_conds ls" "ls_stopping (upd_track t f ls) = ls_stopping ls"
  "ls_dehydrating (upd_track t f ls) = ls_dehydrating ls" "ls_loop (upd_track t f ls) = ls_loop ls"
  "ls_active (upd_track t f ls) = ls_active ls" "ls_state (upd_track t f ls) = ls_state ls"
  "ls_watchers (upd_track t f ls) = ls_watchers ls" "ls_keys (upd_track t f ls) = ls_keys ls"
  "map fst (ls_tracks (upd_track t f ls)) = map fst (ls_tracks ls)"
  by (auto simp: upd_track_def)

section \<open>Track operations\<close>

definition updateState :: "trackState \<Rightarrow> ('c, 'p) track \<Rightarrow> ('c, 'p) track" where
  "updateState s tr =
     (if tk_state tr = s then tr
      else tr\<lparr>tk_state := s, tk_hist := (if s \<noteq> TrackExecutingStep then tk_hist tr @ [(tk_node tr, s)] else tk_hist tr)\<rparr>)"

definition Token :: "('c, 'p) track \<Rightarrow> (node_id \<times> TokenState) option" where
  "Token tr = (if tk_hist tr = [] then None else Some (fst (last (tk_hist tr)), tokenStateFor (snd (last (tk_hist tr)))))"

text \<open>The incident views: whether the incident is open, and its node if the process has it.\<close>

definition GetTokens :: "('c, 'p) track list \<Rightarrow> (bool \<times> node_id option) list \<Rightarrow> (node_id \<times> TokenState) list" where
  "GetTokens snap views =
     filter (\<lambda>(n, s). s = TokenAlive \<or> s = TokenWaitForEvent) (List.map_filter Token snap) @
     List.map_filter (\<lambda>(opn, node). if opn then map_option (\<lambda>n. (n, TokenIncident)) node else None) views"

text \<open>\<^verbatim>\<open>releaseHolds\<close> swaps the flag and asks the holders, if there are any, to withdraw the waits.\<close>

definition releaseHolds :: "bool \<Rightarrow> track_id \<Rightarrow> ('c, 'p) loop_state \<Rightarrow> ('c, 'p) loop_state" where
  "releaseHolds holders t ls =
     (case track_of ls t of
        None \<Rightarrow> ls
      | Some tr \<Rightarrow>
          (let ls' = upd_track t (\<lambda>tr. tr\<lparr>tk_held := False\<rparr>) ls
           in if tk_held tr \<and> holders then ls'\<lparr>ls_log := ls_log ls' @ [ReleaseWaits t]\<rparr> else ls'))"

section \<open>Stopping an instance\<close>

definition drop_registries :: "('c, 'p) loop_state \<Rightarrow> ('c, 'p) loop_state" where
  "drop_registries ls =
     ls\<lparr>ls_waiting := [], ls_msgIdx := [], ls_conds := [], ls_scopes := [], ls_scopeInterrupted := [],
        ls_position := [], ls_parked := [], ls_tasks := [], ls_jobs := [], ls_calls := [], ls_scopeHandlers := [],
        ls_log := ls_log ls @ map WithdrawTask (ls_tasks ls) @ map TerminateChild (ls_calls ls) @
                  map DisarmHandlers (ls_scopeHandlers ls)\<rparr>"

text \<open>The body of the loop over the tracks: withdraw the holds, stop, cancel, close the event channel.\<close>

definition stop_track :: "bool \<Rightarrow> track_id \<Rightarrow> ('c, 'p) loop_state \<Rightarrow> ('c, 'p) loop_state" where
  "stop_track holders t ls =
     upd_track t (\<lambda>tr. tr\<lparr>tk_stopIt := True, tk_ctxDone := True, tk_evtClosed := True\<rparr>) (releaseHolds holders t ls)"

definition stopAll :: "bool \<Rightarrow> ('c, 'p) loop_state \<Rightarrow> ('c, 'p) loop_state" where
  "stopAll holders ls =
     (if ls_stopping ls then ls
      else drop_registries (fold (stop_track holders) (map fst (ls_tracks ls))
             (ls\<lparr>ls_stopping := True, ls_state := Terminating\<rparr>)))"

text \<open>\<^verbatim>\<open>fail\<close> records the error and cancels the instance context, the parent of every track's.\<close>

definition inst_fail :: "app_error \<Rightarrow> ('c, 'p) loop_state \<Rightarrow> ('c, 'p) loop_state" where
  "inst_fail e ls =
     ls\<lparr>ls_lastErr := Some e, ls_tracks := map (\<lambda>(i, tr). (i, tr\<lparr>tk_ctxDone := True\<rparr>)) (ls_tracks ls)\<rparr>"

definition failFromTrack :: "bool \<Rightarrow> app_error option \<Rightarrow> ('c, 'p) loop_state \<Rightarrow> ('c, 'p) loop_state" where
  "failFromTrack holders lastErr ls =
     stopAll holders
       (inst_fail (case lastErr of None \<Rightarrow> AppError OperationFailed ''track %s failed'' | Some e \<Rightarrow> e) ls)"

definition failInvariant :: "bool \<Rightarrow> string \<Rightarrow> ('c, 'p) loop_state \<Rightarrow> ('c, 'p) loop_state" where
  "failInvariant holders msg ls = stopAll holders (inst_fail (AppError BrokenInvariant msg) ls)"

definition settleFinalState :: "bool \<Rightarrow> ('c, 'p) loop_state \<Rightarrow> ('c, 'p) loop_state" where
  "settleFinalState stopping ls = ls\<lparr>ls_state := (if stopping then Terminated else Completed)\<rparr>"

text \<open>The start of an instance: only a created one runs, and only under a context.\<close>

definition Run :: "bool \<Rightarrow> ('c, 'p) loop_state \<Rightarrow> ('c, 'p) loop_state result" where
  "Run hasCtx ls =
     (if \<not> hasCtx then Inl (AppError EmptyNotAllowed ''empty context for instance'')
      else if ls_state ls \<noteq> Created then Inl (AppError InvalidState ''invalid instance state to run'')
      else Inr (ls\<lparr>ls_state := Active\<rparr>))"

section \<open>What stopping does\<close>

lemma releaseHolds_frame [simp]:
  "ls_waiting (releaseHolds h t ls) = ls_waiting ls" "ls_msgIdx (releaseHolds h t ls) = ls_msgIdx ls"
  "ls_conds (releaseHolds h t ls) = ls_conds ls" "ls_stopping (releaseHolds h t ls) = ls_stopping ls"
  "ls_dehydrating (releaseHolds h t ls) = ls_dehydrating ls" "ls_loop (releaseHolds h t ls) = ls_loop ls"
  "ls_position (releaseHolds h t ls) = ls_position ls" "ls_parked (releaseHolds h t ls) = ls_parked ls"
  "ls_state (releaseHolds h t ls) = ls_state ls" "ls_active (releaseHolds h t ls) = ls_active ls"
  "map fst (ls_tracks (releaseHolds h t ls)) = map fst (ls_tracks ls)"
  by (auto simp: releaseHolds_def Let_def split: option.split)

lemma track_of_releaseHolds [simp]:
  "track_of (releaseHolds h t ls) i = (if i = t then map_option (\<lambda>tr. tr\<lparr>tk_held := False\<rparr>) (track_of ls t) else track_of ls i)"
  by (auto simp: releaseHolds_def Let_def split: option.split)

lemma stop_track_frame [simp]:
  "ls_stopping (stop_track h t ls) = ls_stopping ls" "ls_loop (stop_track h t ls) = ls_loop ls"
  "ls_dehydrating (stop_track h t ls) = ls_dehydrating ls" "ls_state (stop_track h t ls) = ls_state ls"
  "ls_active (stop_track h t ls) = ls_active ls"
  "map fst (ls_tracks (stop_track h t ls)) = map fst (ls_tracks ls)"
  by (simp_all add: stop_track_def)

lemma stop_fold_frame [simp]:
  "ls_stopping (fold (stop_track h) ts ls) = ls_stopping ls" "ls_loop (fold (stop_track h) ts ls) = ls_loop ls"
  "ls_dehydrating (fold (stop_track h) ts ls) = ls_dehydrating ls" "ls_state (fold (stop_track h) ts ls) = ls_state ls"
  "ls_active (fold (stop_track h) ts ls) = ls_active ls"
  "map fst (ls_tracks (fold (stop_track h) ts ls)) = map fst (ls_tracks ls)"
  by (induction ts arbitrary: ls) simp_all

definition stopped :: "('c, 'p) track \<Rightarrow> ('c, 'p) track" where
  "stopped tr = tr\<lparr>tk_held := False, tk_stopIt := True, tk_ctxDone := True, tk_evtClosed := True\<rparr>"

lemma track_of_stop_fold:
  "track_of (fold (stop_track h) ts ls) i = (if i \<in> set ts then map_option stopped (track_of ls i) else track_of ls i)"
proof (induction ts arbitrary: ls)
  case (Cons t ts)
  have "track_of (stop_track h t ls) i = (if i = t then map_option stopped (track_of ls t) else track_of ls i)"
    by (cases "track_of ls t") (simp_all add: stop_track_def stopped_def)
  moreover have "stopped (stopped tr) = stopped tr" for tr :: "('a, 'b) track" by (simp add: stopped_def)
  ultimately show ?case by (auto simp: Cons option.map_comp comp_def)
qed simp

lemma track_of_in_keys: "track_of ls i = Some tr \<Longrightarrow> i \<in> set (map fst (ls_tracks ls))"
  by (metis has_key_def has_key_map_of option.distinct(1))

lemma stopAll_frame [simp]:
  "ls_loop (stopAll h ls) = ls_loop ls" "ls_dehydrating (stopAll h ls) = ls_dehydrating ls"
  "ls_stopping (stopAll h ls)" "ls_active (stopAll h ls) = ls_active ls"
  "map fst (ls_tracks (stopAll h ls)) = map fst (ls_tracks ls)"
  by (simp_all add: stopAll_def drop_registries_def)

lemma track_of_stopAll:
  "track_of (stopAll h ls) i = (if ls_stopping ls then track_of ls i else map_option stopped (track_of ls i))"
  by (cases "track_of ls i")
    (auto simp: stopAll_def drop_registries_def track_of_stop_fold dest: track_of_in_keys)

lemma stopAll_empties:
  "\<not> ls_stopping ls \<Longrightarrow> ls_waiting (stopAll h ls) = []" "\<not> ls_stopping ls \<Longrightarrow> ls_msgIdx (stopAll h ls) = []"
  "\<not> ls_stopping ls \<Longrightarrow> ls_conds (stopAll h ls) = []" "\<not> ls_stopping ls \<Longrightarrow> ls_position (stopAll h ls) = []"
  "\<not> ls_stopping ls \<Longrightarrow> ls_parked (stopAll h ls) = []" "\<not> ls_stopping ls \<Longrightarrow> ls_state (stopAll h ls) = Terminating"
  by (simp_all add: stopAll_def drop_registries_def)

lemma stopAll_id: "ls_stopping ls \<Longrightarrow> stopAll h ls = ls"
  by (simp add: stopAll_def)

lemma inst_fail_frame [simp]:
  "ls_waiting (inst_fail e ls) = ls_waiting ls" "ls_msgIdx (inst_fail e ls) = ls_msgIdx ls"
  "ls_conds (inst_fail e ls) = ls_conds ls" "ls_stopping (inst_fail e ls) = ls_stopping ls"
  "ls_dehydrating (inst_fail e ls) = ls_dehydrating ls" "ls_loop (inst_fail e ls) = ls_loop ls"
  "ls_position (inst_fail e ls) = ls_position ls" "ls_parked (inst_fail e ls) = ls_parked ls"
  "map fst (ls_tracks (inst_fail e ls)) = map fst (ls_tracks ls)"
  by (auto simp: inst_fail_def)

lemma track_of_inst_fail [simp]:
  "track_of (inst_fail e ls) i = map_option (\<lambda>tr. tr\<lparr>tk_ctxDone := True\<rparr>) (track_of ls i)"
  using map_of_map_snd[of "\<lambda>i tr. tr\<lparr>tk_ctxDone := True\<rparr>" "ls_tracks ls" i] by (simp add: inst_fail_def)

section \<open>The token projection\<close>

text \<open>
  Every live track shows a token at its node, in the projection that \<^verbatim>\<open>GetTokens\<close> returns, with
  one exception: a track whose wait was released to an engine holder is live, and the comment on
  \<^verbatim>\<open>TrackDehydrated\<close> says that its token projects Alive at the wait node, but its token projects
  Invalid and is left out.
\<close>

theorem live_token_visible:
  assumes "liveTrackStates s" and "s \<noteq> TrackExecutingStep" and "tk_state tr \<noteq> s" and "updateState s tr \<in> set snap"
  shows "(tk_node tr, tokenStateFor s) \<in> set (GetTokens snap views) \<longleftrightarrow> s \<noteq> TrackDehydrated"
proof -
  have tok: "Token (updateState s tr) = Some (tk_node tr, tokenStateFor s)"
    using assms(2,3) by (simp add: Token_def updateState_def)
  have in_filter: "x \<in> set (List.map_filter Token snap)" if "Token tr' = Some x" "tr' \<in> set snap" for x tr'
    using that by (auto simp: List.map_filter_def image_iff)
  show ?thesis
  proof (cases "s = TrackDehydrated")
    case True
    then show ?thesis by (auto simp: GetTokens_def List.map_filter_def split: if_splits)
  next
    case False
    then have "tokenStateFor s = TokenAlive \<or> tokenStateFor s = TokenWaitForEvent"
      using assms(1) by (auto simp: liveTrackStates_def)
    then show ?thesis using in_filter[OF tok assms(4)] False by (auto simp: GetTokens_def)
  qed
qed

definition sample_track :: "(unit, unit) track" where
  "sample_track = \<lparr>tk_state = TrackReady, tk_node = ''catch'', tk_hist = [], tk_scopePath = ''/'', tk_msgDefIDs = [],
     tk_condDefs = [], tk_held = False, tk_stopIt = False, tk_ctxDone = False, tk_evtCh = [], tk_evtClosed = False,
     tk_dehydrateClosed = False, tk_parkCh = 0, tk_mergedInto = None, tk_emit = None\<rparr>"

theorem live_token_visible_witness:
  "(''catch'', tokenStateFor TrackDehydrated) \<in> set (GetTokens [updateState TrackDehydrated sample_track] []) \<longleftrightarrow> False"
  using live_token_visible[of TrackDehydrated sample_track "[updateState TrackDehydrated sample_track]" "[]"]
  by (simp add: sample_track_def liveTrackStates_def)

end
