(* ===== verification/Instance_Waits.thy ===== *)
theory Instance_Waits
  imports Instance_State
begin

text \<open>
  The wait plane of the instance loop: tracks parked for an event, the delivery of events to them,
  the conditional subscriptions, and the release of a fully idle instance's goroutines
  (dehydration). Sources: \<^verbatim>\<open>src/internal/instance/loop.go\<close>, \<^verbatim>\<open>conditional.go\<close>, and the parked side of a
  track's goroutine in \<^verbatim>\<open>track.go\<close> (\<^verbatim>\<open>awaitTrigger\<close>).

  The loop applies one event at a time; tracks, hub and engine holders run beside it and hand it
  events over an unbuffered channel. The inductive relation \<open>wait_step\<close> is that interleaving.
  Two operations that belong to other components, the firing of a boundary event and of an event
  sub-process handler, are arguments of the functions that call them.
\<close>

section \<open>What the loop consults\<close>

record ('c, 'e, 'p, 'r, 'v) loop_env =
  le_engine :: "('e, 'p, 'r) engine option"
  le_show :: "'r \<Rightarrow> string"
  le_keys :: "'e corr_key list"
  le_adder :: bool
  le_nodes :: "(bool \<times> string) list list"
  le_plane :: "'v plane"
  le_eval :: "'c \<Rightarrow> 'v plane \<Rightarrow> 'v frame \<Rightarrow> bool option result"
  le_holders :: bool
  le_cpOwner :: string
  le_pinned :: bool
  le_dehydratable :: "node_id \<Rightarrow> bool"

section \<open>Conditional subscriptions\<close>

definition condDeps :: "'c cond_def \<Rightarrow> string list" where
  "condDeps d = (case cd_lister d of None \<Rightarrow> [] | Some deps \<Rightarrow> deps)"

definition condDue :: "string list \<Rightarrow> change list \<Rightarrow> bool" where
  "condDue deps changes \<longleftrightarrow>
     deps = [] \<or>
     list_ex (\<lambda>dep. list_ex (\<lambda>c. case PathsOverlap dep (ch_path c) of Inl _ \<Rightarrow> True | Inr ov \<Rightarrow> ov) changes) deps"

definition evalCondition :: "('c, 'e, 'p, 'r, 'v) loop_env \<Rightarrow> 'c cond_def \<Rightarrow> string \<Rightarrow> bool result" where
  "evalCondition env d pt =
     (case NewFrame ''cond-eval'' (cd_id d) pt (Some (le_plane env)) of
        Inl e \<Rightarrow> Inl e
      | Inr f \<Rightarrow>
          (case le_eval env (cd_cond d) (le_plane env) f of
             Inl e \<Rightarrow> Inl e
           | Inr None \<Rightarrow> Inl (AppError TypeCastingError ''condition evaluated to a non-boolean value'')
           | Inr (Some b) \<Rightarrow> Inr b))"

text \<open>A watch with a handler is evaluated at the scope it guards, the others at their track's scope.\<close>

definition watch_path :: "('c, 'p) loop_state \<Rightarrow> 'c condWatch \<Rightarrow> string" where
  "watch_path ls w =
     (case cw_handler w of
        Some _ \<Rightarrow> cw_handlerPath w
      | None \<Rightarrow> (case track_of ls (cw_track w) of None \<Rightarrow> [] | Some tr \<Rightarrow> tk_scopePath tr))"

definition cond_failed :: "('c, 'e, 'p, 'r, 'v) loop_env \<Rightarrow> ('c, 'p) loop_state \<Rightarrow> ('c, 'p) loop_state" where
  "cond_failed env ls = stopAll (le_holders env) (inst_fail (AppError OperationFailed ''conditional evaluation failed'') ls)"

definition evalCondWatch :: "('c, 'e, 'p, 'r, 'v) loop_env \<Rightarrow> 'c condWatch \<Rightarrow> ('c, 'p) loop_state \<Rightarrow> ('c, 'p) loop_state \<times> bool option" where
  "evalCondWatch env w ls =
     (case evalCondition env (cw_def w) (watch_path ls w) of
        Inl _ \<Rightarrow> (cond_failed env ls, None)
      | Inr b \<Rightarrow> (ls, Some b))"

definition condArmed :: "'c condWatch \<Rightarrow> ('c, 'p) loop_state \<Rightarrow> bool" where
  "condArmed w ls \<longleftrightarrow> list_ex (\<lambda>c. cw_ptr c = cw_ptr w) (ls_conds ls)"

definition clearConds :: "track_id \<Rightarrow> ('c, 'p) loop_state \<Rightarrow> ('c, 'p) loop_state" where
  "clearConds t ls = ls\<lparr>ls_conds := filter (\<lambda>w. cw_handler w \<noteq> None \<or> cw_track w \<noteq> t) (ls_conds ls)\<rparr>"

definition clearCondBoundaries :: "track_id \<Rightarrow> ('c, 'p) loop_state \<Rightarrow> ('c, 'p) loop_state" where
  "clearCondBoundaries t ls = ls\<lparr>ls_conds := filter (\<lambda>w. \<not> cw_boundary w \<or> cw_track w \<noteq> t) (ls_conds ls)\<rparr>"

definition clearCondScopeHandlers :: "string \<Rightarrow> ('c, 'p) loop_state \<Rightarrow> ('c, 'p) loop_state" where
  "clearCondScopeHandlers path ls =
     ls\<lparr>ls_conds := filter (\<lambda>w. \<not> (cw_handler w \<noteq> None \<and> cw_handlerPath w = path)) (ls_conds ls)\<rparr>"

section \<open>Parking and delivery\<close>

definition clearMsgIdx :: "track_id \<Rightarrow> ('c, 'p) loop_state \<Rightarrow> ('c, 'p) loop_state" where
  "clearMsgIdx t ls = ls\<lparr>ls_msgIdx := filter (\<lambda>e. snd e \<noteq> t) (ls_msgIdx ls)\<rparr>"

definition flipNotParked :: "track_id \<Rightarrow> ('c, 'p) loop_state \<Rightarrow> ('c, 'p) loop_state" where
  "flipNotParked t ls = clearConds t (clearMsgIdx t (ls\<lparr>ls_waiting := removeAll t (ls_waiting ls)\<rparr>))"

text \<open>
  The send \<^verbatim>\<open>tr.evtCh <- ev.eDef\<close> of the loop goroutine: on a closed channel Go panics, on a full
  one it blocks.
\<close>

definition send_evt :: "track_id \<Rightarrow> 'p event_def \<Rightarrow> ('c, 'p) loop_state \<Rightarrow> ('c, 'p) loop_state" where
  "send_evt t ed ls =
     (case track_of ls t of
        None \<Rightarrow> ls
      | Some tr \<Rightarrow>
          (if tk_evtClosed tr then ls\<lparr>ls_loop := LoopPanicked\<rparr>
           else if length (tk_evtCh tr) \<ge> eventBufferDepth then ls\<lparr>ls_loop := LoopBlocked\<rparr>
           else upd_track t (\<lambda>tr. tr\<lparr>tk_evtCh := tk_evtCh tr @ [ed]\<rparr>) ls))"

text \<open>\<open>trk\<close> is the track the event carries; a message carries none.\<close>

definition dispatchToParked :: "('c, 'e, 'p, 'r, 'v) loop_env \<Rightarrow> track_id option \<Rightarrow> 'p event_def \<Rightarrow>
    ('c, 'p) loop_state \<Rightarrow> ('c, 'p) loop_state" where
  "dispatchToParked env trk ed ls =
     (case (case trk of Some t \<Rightarrow> Some t | None \<Rightarrow> map_of (ls_msgIdx ls) (ed_id ed)) of
        None \<Rightarrow> ls
      | Some t \<Rightarrow>
          (if t \<notin> set (ls_waiting ls) then ls
           else case trk of
                  Some _ \<Rightarrow> send_evt t ed (flipNotParked t ls)
                | None \<Rightarrow>
                    (case validateAndAssociate (le_engine env) (le_show env) (le_keys env) (le_adder env) (le_nodes env)
                            (ls_keys ls) ed of
                       (mismatch, keys', adds) \<Rightarrow>
                         (let ls1 = ls\<lparr>ls_keys := keys', ls_log := ls_log ls @ map (\<lambda>(d, k). AddEventKey d k) adds\<rparr>
                          in if mismatch then ls1 else send_evt t ed (flipNotParked t ls1)))))"

definition cond_event :: "'c cond_def \<Rightarrow> 'p event_def" where
  "cond_event d = \<lparr>ed_id = cd_id d, ed_isMessage = False, ed_message = None, ed_items = []\<rparr>"

text \<open>
  The fire of a watch: a handler watch fires its event sub-process (\<open>fsh\<close>), a boundary watch its
  boundary event (\<open>fb\<close>), a catch watch delivers to its parked track.
\<close>

definition fireCondWatch :: "('c condWatch \<Rightarrow> ('c, 'p) loop_state \<Rightarrow> ('c, 'p) loop_state) \<Rightarrow>
    ('c condWatch \<Rightarrow> ('c, 'p) loop_state \<Rightarrow> ('c, 'p) loop_state) \<Rightarrow> ('c, 'e, 'p, 'r, 'v) loop_env \<Rightarrow> 'c condWatch \<Rightarrow>
    ('c, 'p) loop_state \<Rightarrow> ('c, 'p) loop_state" where
  "fireCondWatch fsh fb env w ls =
     (if cw_handler w \<noteq> None then fsh w ls
      else if cw_boundary w then fb w ls
      else dispatchToParked env (Some (cw_track w)) (cond_event (cw_def w)) ls)"

definition set_last :: "nat \<Rightarrow> bool \<Rightarrow> ('c, 'p) loop_state \<Rightarrow> ('c, 'p) loop_state" where
  "set_last ptr b ls = ls\<lparr>ls_conds := map (\<lambda>w. if cw_ptr w = ptr then w\<lparr>cw_last := b\<rparr> else w) (ls_conds ls)\<rparr>"

text \<open>
  Arming stops at the first condition that is already true, or at a failed evaluation. The watch
  armed here is a catch watch, so its fire reaches neither of the other two targets.
\<close>

fun armConditionalsAt :: "('c, 'e, 'p, 'r, 'v) loop_env \<Rightarrow> track_id \<Rightarrow> node_id option \<Rightarrow> 'c cond_def list \<Rightarrow>
    ('c, 'p) loop_state \<Rightarrow> ('c, 'p) loop_state" where
  "armConditionalsAt env t node [] ls = ls"
| "armConditionalsAt env t node (d # ds) ls =
     (let w = \<lparr>cw_ptr = ls_nextPtr ls, cw_track = t, cw_node = node, cw_def = d, cw_handler = None, cw_handlerPath = [],
               cw_deps = condDeps d, cw_last = False, cw_boundary = False\<rparr>;
          ls1 = ls\<lparr>ls_conds := ls_conds ls @ [w], ls_nextPtr := Suc (ls_nextPtr ls)\<rparr>
      in case evalCondWatch env w ls1 of
           (ls2, None) \<Rightarrow> ls2
         | (ls2, Some val) \<Rightarrow>
             (let ls3 = set_last (cw_ptr w) val ls2
              in if val then fireCondWatch (\<lambda>w ls. ls) (\<lambda>w ls. ls) env w ls3
                 else armConditionalsAt env t node ds ls3))"

definition onWaiting :: "('c, 'e, 'p, 'r, 'v) loop_env \<Rightarrow> track_id \<Rightarrow> node_id option \<Rightarrow> string list \<Rightarrow>
    ('c, 'p) loop_state \<Rightarrow> ('c, 'p) loop_state" where
  "onWaiting env t node msgDefIDs ls =
     (if ls_stopping ls then ls
      else let ls1 = ls\<lparr>ls_waiting := List.insert t (ls_waiting ls),
                        ls_msgIdx := fold (\<lambda>i m. AList.update i t m) msgDefIDs (ls_msgIdx ls)\<rparr>
           in armConditionalsAt env t node (case track_of ls t of None \<Rightarrow> [] | Some tr \<Rightarrow> tk_condDefs tr) ls1)"

section \<open>The sweep after a commit\<close>

text \<open>
  The first loop: each due watch is evaluated against the committed data and its edge state
  advanced; the watches that went from false to true are collected, in arming order. A failed
  evaluation stops the sweep.
\<close>

fun sweep_eval :: "('c, 'e, 'p, 'r, 'v) loop_env \<Rightarrow> ('c, 'p) loop_state \<Rightarrow> change list \<Rightarrow> 'c condWatch list \<Rightarrow>
    ('c condWatch list \<times> 'c condWatch list) option" where
  "sweep_eval env ls changes [] = Some ([], [])"
| "sweep_eval env ls changes (w # ws) =
     (if \<not> condDue (cw_deps w) changes
      then (case sweep_eval env ls changes ws of None \<Rightarrow> None | Some (ws', fires) \<Rightarrow> Some (w # ws', fires))
      else (case evalCondition env (cw_def w) (watch_path ls w) of
              Inl _ \<Rightarrow> None
            | Inr val \<Rightarrow>
                (case sweep_eval env ls changes ws of
                   None \<Rightarrow> None
                 | Some (ws', fires) \<Rightarrow>
                     Some (w\<lparr>cw_last := val\<rparr> # ws', (if \<not> cw_last w \<and> val then w # fires else fires)))))"

fun sweep_fires :: "('c condWatch \<Rightarrow> ('c, 'p) loop_state \<Rightarrow> ('c, 'p) loop_state) \<Rightarrow>
    ('c condWatch \<Rightarrow> ('c, 'p) loop_state \<Rightarrow> ('c, 'p) loop_state) \<Rightarrow> ('c, 'e, 'p, 'r, 'v) loop_env \<Rightarrow> 'c condWatch list \<Rightarrow>
    ('c, 'p) loop_state \<Rightarrow> ('c, 'p) loop_state" where
  "sweep_fires fsh fb env [] ls = ls"
| "sweep_fires fsh fb env (w # ws) ls =
     sweep_fires fsh fb env ws (if condArmed w ls then fireCondWatch fsh fb env w ls else ls)"

definition sweepConditionals :: "('c condWatch \<Rightarrow> ('c, 'p) loop_state \<Rightarrow> ('c, 'p) loop_state) \<Rightarrow>
    ('c condWatch \<Rightarrow> ('c, 'p) loop_state \<Rightarrow> ('c, 'p) loop_state) \<Rightarrow> ('c, 'e, 'p, 'r, 'v) loop_env \<Rightarrow> change list \<Rightarrow>
    ('c, 'p) loop_state \<Rightarrow> ('c, 'p) loop_state" where
  "sweepConditionals fsh fb env changes ls =
     (if ls_stopping ls \<or> ls_conds ls = [] then ls
      else (case sweep_eval env ls changes (ls_conds ls) of
              None \<Rightarrow> cond_failed env ls
            | Some (ws', fires) \<Rightarrow> sweep_fires fsh fb env fires (ls\<lparr>ls_conds := ws'\<rparr>)))"

section \<open>Dehydration\<close>

definition boundariesHeld :: "track_id \<Rightarrow> ('c, 'p) loop_state \<Rightarrow> bool" where
  "boundariesHeld t ls = list_all id (case map_of (ls_watchers ls) t of None \<Rightarrow> [] | Some hs \<Rightarrow> hs)"

definition waitReleasable :: "('c, 'e, 'p, 'r, 'v) loop_env \<Rightarrow> ('c, 'p) track \<Rightarrow> bool" where
  "waitReleasable env tr \<longleftrightarrow> le_dehydratable env (tk_node tr) \<and> tk_held tr"

text \<open>The loop over the tracks: \<open>None\<close> disqualifies the instance.\<close>

fun dehydratable_loop :: "('c, 'e, 'p, 'r, 'v) loop_env \<Rightarrow> ('c, 'p) loop_state \<Rightarrow> (track_id \<times> ('c, 'p) track) list \<Rightarrow>
    track_id list option" where
  "dehydratable_loop env ls [] = Some []"
| "dehydratable_loop env ls ((t, tr) # ts) =
     (if tk_state tr = TrackWaitForEvent
      then (if t \<notin> set (ls_waiting ls) \<or> \<not> boundariesHeld t ls \<or> \<not> waitReleasable env tr then None
            else map_option (Cons t) (dehydratable_loop env ls ts))
      else if tk_state tr = TrackDehydrated then dehydratable_loop env ls ts
      else if \<not> liveTrackStates (tk_state tr) then dehydratable_loop env ls ts
      else None)"

definition dehydratableParked :: "('c, 'e, 'p, 'r, 'v) loop_env \<Rightarrow> ('c, 'p) loop_state \<Rightarrow> track_id list" where
  "dehydratableParked env ls = (case dehydratable_loop env ls (ls_tracks ls) of None \<Rightarrow> [] | Some ts \<Rightarrow> ts)"

definition dehydrateTrack :: "track_id \<Rightarrow> ('c, 'p) loop_state \<Rightarrow> ('c, 'p) loop_state" where
  "dehydrateTrack t = upd_track t (\<lambda>tr. tr\<lparr>tk_dehydrateClosed := True\<rparr>)"

definition maybeDehydrate :: "('c, 'e, 'p, 'r, 'v) loop_env \<Rightarrow> ('c, 'p) loop_state \<Rightarrow> ('c, 'p) loop_state" where
  "maybeDehydrate env ls =
     (if le_cpOwner env = [] \<or> ls_dehydrating ls \<or> ls_stopping ls \<or> le_pinned env then ls
      else if ls_calls ls \<noteq> [] \<or> ls_miGroups ls \<noteq> [] \<or> ls_sweeps ls \<noteq> [] then ls
      else (case dehydratableParked env ls of
              [] \<Rightarrow> ls
            | ts \<Rightarrow> fold dehydrateTrack ts (ls\<lparr>ls_dehydrating := True\<rparr>)))"

definition applyDehydrated :: "('c, 'p) loop_state \<Rightarrow> ('c, 'p) loop_state" where
  "applyDehydrated ls = ls\<lparr>ls_active := ls_active ls - 1\<rparr>"

section \<open>The parked goroutine\<close>

text \<open>
  The select of \<^verbatim>\<open>awaitTrigger\<close>: Go picks any of the ready cases. The outcome of \<^verbatim>\<open>deliver\<close> is the
  node's: accepted, refused by the node, or failed while unregistering.
\<close>

datatype select_case = SelCtx | SelDehydrate | SelEvent

datatype deliver_outcome = Delivered | Refused | UnregisterFailed

fun select_ready :: "select_case \<Rightarrow> ('c, 'p) track \<Rightarrow> bool" where
  "select_ready SelCtx tr = tk_ctxDone tr"
| "select_ready SelDehydrate tr = tk_dehydrateClosed tr"
| "select_ready SelEvent tr = (tk_evtCh tr \<noteq> [] \<or> tk_evtClosed tr)"

text \<open>The goroutine returns in state \<open>s\<close> and reports its end.\<close>

definition run_returns :: "trackState \<Rightarrow> ('c, 'p) track \<Rightarrow> ('c, 'p) track" where
  "run_returns s tr = (updateState s tr)\<lparr>tk_emit := Some (EmEnd (trackEndKind s))\<rparr>"

definition awaitTrigger :: "bool \<Rightarrow> select_case \<Rightarrow> deliver_outcome \<Rightarrow> track_id \<Rightarrow> ('c, 'p) loop_state \<Rightarrow> ('c, 'p) loop_state" where
  "awaitTrigger holders sel out t ls =
     (case sel of
        SelCtx \<Rightarrow> upd_track t (run_returns TrackCanceled) ls
      | SelDehydrate \<Rightarrow> upd_track t (run_returns TrackDehydrated) ls
      | SelEvent \<Rightarrow>
          (case track_of ls t of
             None \<Rightarrow> ls
           | Some tr \<Rightarrow>
               (if tk_evtCh tr = [] then upd_track t (run_returns TrackCanceled) ls
                else let ls1 = upd_track t (\<lambda>tr. tr\<lparr>tk_evtCh := tl (tk_evtCh tr)\<rparr>) ls
                     in (case out of
                           Refused \<Rightarrow> upd_track t (run_returns TrackFailed) ls1
                         | UnregisterFailed \<Rightarrow> upd_track t (run_returns TrackFailed) (releaseHolds holders t ls1)
                         | Delivered \<Rightarrow> upd_track t (updateState TrackReady) (releaseHolds holders t ls1)))))"

section \<open>The interleaving\<close>

definition running :: "('c, 'p) track \<Rightarrow> bool" where
  "running tr \<longleftrightarrow> tk_state tr \<in> {TrackReady, TrackExecutingStep, TrackProcessStepResults} \<and> tk_emit tr = None"

text \<open>
  One step of the loop, of a track's goroutine, or of its surroundings. The environment the loop
  consults (data, holders, pins) may be a different one of \<open>envs\<close> at each step.
  \<^item> \<open>parks\<close>: a running track reaches a catch node, declares the wait and offers it to the loop;
  \<^item> \<open>takes_wait\<close>: the loop takes the offer; \<open>holds\<close>: the track's waits found engine holders;
  \<^item> \<open>delivers\<close>: the hub or a holder hands a fired event to the loop, with or without a track;
  \<^item> \<open>commits\<close>: a track's commit makes the loop sweep the conditionals;
  \<^item> \<open>awaits\<close>: a parked goroutine takes one ready case of its select;
  \<^item> \<open>takes_dehydrated\<close>: the loop accounts for a released goroutine;
  \<^item> \<open>cancels\<close>: an interrupting boundary cancels one track; \<open>stops\<close>: the instance is stopped.
\<close>

inductive wait_step :: "('c, 'e, 'p, 'r, 'v) loop_env set \<Rightarrow> ('c, 'p) loop_state \<Rightarrow> ('c, 'p) loop_state \<Rightarrow> bool" for envs where
  parks: "track_of ls t = Some tr \<Longrightarrow> running tr \<Longrightarrow>
     wait_step envs ls (upd_track t (\<lambda>tr. updateState TrackWaitForEvent
       (tr\<lparr>tk_node := n, tk_msgDefIDs := ids, tk_condDefs := ds, tk_emit := Some EmWaiting\<rparr>)) ls)"
| takes_wait: "ls_loop ls = LoopRunning \<Longrightarrow> env \<in> envs \<Longrightarrow> track_of ls t = Some tr \<Longrightarrow> tk_emit tr = Some EmWaiting \<Longrightarrow>
     wait_step envs ls (maybeDehydrate env (onWaiting env t (Some (tk_node tr)) (tk_msgDefIDs tr)
       (upd_track t (\<lambda>tr. tr\<lparr>tk_emit := None\<rparr>) ls)))"
| holds: "track_of ls t = Some tr \<Longrightarrow> tk_state tr = TrackWaitForEvent \<Longrightarrow> tk_emit tr = None \<Longrightarrow>
     wait_step envs ls (upd_track t (\<lambda>tr. tr\<lparr>tk_held := True\<rparr>) ls)"
| delivers: "ls_loop ls = LoopRunning \<Longrightarrow> env \<in> envs \<Longrightarrow>
     wait_step envs ls (maybeDehydrate env (dispatchToParked env trk ed ls))"
| commits: "ls_loop ls = LoopRunning \<Longrightarrow> env \<in> envs \<Longrightarrow>
     wait_step envs ls (maybeDehydrate env (sweepConditionals fsh fb env chs ls))"
| awaits: "track_of ls t = Some tr \<Longrightarrow> tk_state tr = TrackWaitForEvent \<Longrightarrow> tk_emit tr = None \<Longrightarrow> select_ready sel tr \<Longrightarrow>
     wait_step envs ls (awaitTrigger holders sel out t ls)"
| takes_dehydrated: "ls_loop ls = LoopRunning \<Longrightarrow> env \<in> envs \<Longrightarrow> track_of ls t = Some tr \<Longrightarrow>
     tk_emit tr = Some (EmEnd evDehydrated) \<Longrightarrow>
     wait_step envs ls (maybeDehydrate env (applyDehydrated (upd_track t (\<lambda>tr. tr\<lparr>tk_emit := None\<rparr>) ls)))"
| cancels: "wait_step envs ls (upd_track t (\<lambda>tr. tr\<lparr>tk_ctxDone := True\<rparr>) ls)"
| stops: "ls_loop ls = LoopRunning \<Longrightarrow> wait_step envs ls (stopAll holders ls)"

definition wait_init :: "('c, 'p) loop_state \<Rightarrow> bool" where
  "wait_init ls \<longleftrightarrow>
     ls_loop ls = LoopRunning \<and> ls_waiting ls = [] \<and> ls_msgIdx ls = [] \<and> ls_conds ls = [] \<and> \<not> ls_stopping ls \<and>
     list_all (\<lambda>(t, tr). tk_state tr = TrackReady \<and> tk_evtCh tr = [] \<and> \<not> tk_evtClosed tr \<and> \<not> tk_dehydrateClosed tr \<and>
                 tk_emit tr = None) (ls_tracks ls)"

inductive wait_reach :: "('c, 'e, 'p, 'r, 'v) loop_env set \<Rightarrow> ('c, 'p) loop_state \<Rightarrow> bool" for envs where
  reach_init: "wait_init ls \<Longrightarrow> wait_reach envs ls"
| reach_step: "wait_reach envs ls \<Longrightarrow> wait_step envs ls ls' \<Longrightarrow> wait_reach envs ls'"

section \<open>The invariant of the wait plane\<close>

definition track_ok :: "('c, 'p) loop_state \<Rightarrow> track_id \<Rightarrow> ('c, 'p) track \<Rightarrow> bool" where
  "track_ok ls t tr \<longleftrightarrow>
     length (tk_evtCh tr) \<le> 1 \<and> (tk_evtClosed tr \<longrightarrow> ls_stopping ls) \<and>
     (t \<in> set (ls_waiting ls) \<longrightarrow> tk_evtCh tr = []) \<and>
     (running tr \<or> tk_emit tr = Some EmWaiting \<longrightarrow> tk_evtCh tr = [] \<and> t \<notin> set (ls_waiting ls)) \<and>
     (tk_emit tr = Some EmWaiting \<longrightarrow> tk_state tr = TrackWaitForEvent) \<and>
     (tk_emit tr = Some (EmEnd evDehydrated) \<longrightarrow> tk_state tr = TrackDehydrated)"

definition wait_ok :: "('c, 'p) loop_state \<Rightarrow> bool" where
  "wait_ok ls \<longleftrightarrow>
     ls_loop ls = LoopRunning \<and> (ls_stopping ls \<longrightarrow> ls_waiting ls = []) \<and>
     snd ` set (ls_msgIdx ls) \<subseteq> set (ls_waiting ls) \<and>
     (\<forall>w\<in>set (ls_conds ls). cw_handler w = None \<and> \<not> cw_boundary w \<and> cw_track w \<in> set (ls_waiting ls)) \<and>
     (\<forall>t tr. track_of ls t = Some tr \<longrightarrow> track_ok ls t tr)"

lemma wait_okD:
  assumes "wait_ok ls"
  shows "ls_loop ls = LoopRunning" and "ls_stopping ls \<Longrightarrow> ls_waiting ls = []"
    and "e \<in> set (ls_msgIdx ls) \<Longrightarrow> snd e \<in> set (ls_waiting ls)"
    and "w \<in> set (ls_conds ls) \<Longrightarrow> cw_handler w = None \<and> \<not> cw_boundary w \<and> cw_track w \<in> set (ls_waiting ls)"
    and "track_of ls t = Some tr \<Longrightarrow> track_ok ls t tr"
  using assms by (auto simp: wait_ok_def)

lemma flipNotParked_frame [simp]:
  "ls_loop (flipNotParked t ls) = ls_loop ls" "ls_stopping (flipNotParked t ls) = ls_stopping ls"
  "ls_tracks (flipNotParked t ls) = ls_tracks ls" "ls_dehydrating (flipNotParked t ls) = ls_dehydrating ls"
  "set (ls_waiting (flipNotParked t ls)) = set (ls_waiting ls) - {t}"
  "ls_msgIdx (flipNotParked t ls) = filter (\<lambda>e. snd e \<noteq> t) (ls_msgIdx ls)"
  "ls_conds (flipNotParked t ls) = filter (\<lambda>w. cw_handler w \<noteq> None \<or> cw_track w \<noteq> t) (ls_conds ls)"
  by (auto simp: flipNotParked_def clearConds_def clearMsgIdx_def)

lemma wait_okI:
  assumes "ls_loop ls = LoopRunning" and "ls_stopping ls \<Longrightarrow> ls_waiting ls = []"
    and "\<And>e. e \<in> set (ls_msgIdx ls) \<Longrightarrow> snd e \<in> set (ls_waiting ls)"
    and "\<And>w. w \<in> set (ls_conds ls) \<Longrightarrow> cw_handler w = None \<and> \<not> cw_boundary w \<and> cw_track w \<in> set (ls_waiting ls)"
    and "\<And>t tr. track_of ls t = Some tr \<Longrightarrow> track_ok ls t tr"
  shows "wait_ok ls"
  using assms unfolding wait_ok_def by blast

lemma track_ok_cong:
  "ls_stopping ls' = ls_stopping ls \<Longrightarrow> set (ls_waiting ls') = set (ls_waiting ls) \<Longrightarrow> track_ok ls' t tr = track_ok ls t tr"
  by (simp add: track_ok_def)

lemma flipNotParked_ok:
  assumes "wait_ok ls" shows "wait_ok (flipNotParked t ls)"
proof (rule wait_okI)
  show "ls_waiting (flipNotParked t ls) = []" if "ls_stopping (flipNotParked t ls)"
    using wait_okD(2)[OF assms] that by (simp add: flipNotParked_def clearConds_def clearMsgIdx_def)
  show "track_ok (flipNotParked t ls) i tr" if "track_of (flipNotParked t ls) i = Some tr" for i tr
    using wait_okD(5)[OF assms, of i tr] that by (simp add: track_ok_def)
qed (use wait_okD(1,3,4)[OF assms] in \<open>auto\<close>)

lemma wait_ok_tracks:
  assumes "wait_ok ls" and "ls_loop ls' = ls_loop ls" and "ls_stopping ls' = ls_stopping ls"
    and "ls_waiting ls' = ls_waiting ls" and "ls_msgIdx ls' = ls_msgIdx ls" and "ls_conds ls' = ls_conds ls"
    and "\<And>t tr. track_of ls' t = Some tr \<Longrightarrow> track_ok ls t tr"
  shows "wait_ok ls'"
proof (rule wait_okI)
  show "ls_loop ls' = LoopRunning" using wait_okD(1)[OF assms(1)] assms(2) by simp
  show "ls_waiting ls' = []" if "ls_stopping ls'" using wait_okD(2)[OF assms(1)] that assms(3,4) by simp
  show "snd e \<in> set (ls_waiting ls')" if "e \<in> set (ls_msgIdx ls')" for e
    using wait_okD(3)[OF assms(1), of e] that assms(4,5) by simp
  show "cw_handler w = None \<and> \<not> cw_boundary w \<and> cw_track w \<in> set (ls_waiting ls')" if "w \<in> set (ls_conds ls')" for w
    using wait_okD(4)[OF assms(1), of w] that assms(4,6) by simp
  show "track_ok ls' t tr" if "track_of ls' t = Some tr" for t tr
    using assms(7)[OF that] track_ok_cong[of ls' ls t tr] assms(3,4) by simp
qed

lemma wait_ok_same:
  assumes "wait_ok ls" and "ls_loop ls' = ls_loop ls" and "ls_stopping ls' = ls_stopping ls"
    and "ls_waiting ls' = ls_waiting ls" and "ls_msgIdx ls' = ls_msgIdx ls" and "ls_conds ls' = ls_conds ls"
    and "ls_tracks ls' = ls_tracks ls"
  shows "wait_ok ls'"
proof (rule wait_ok_tracks[OF assms(1-6)])
  show "track_ok ls t tr" if "track_of ls' t = Some tr" for t tr
    using that wait_okD(5)[OF assms(1), of t tr] assms(7) by simp
qed

text \<open>Changing one track keeps the invariant if the changed track meets it.\<close>

lemma wait_ok_upd:
  assumes "wait_ok ls" and "\<And>tr. track_of ls t = Some tr \<Longrightarrow> track_ok ls t tr \<Longrightarrow> track_ok ls t (f tr)"
  shows "wait_ok (upd_track t f ls)"
proof (rule wait_ok_tracks[OF assms(1)])
  fix i tr
  assume i: "track_of (upd_track t f ls) i = Some tr"
  show "track_ok ls i tr"
  proof (cases "i = t")
    case True
    then obtain tr0 where "track_of ls t = Some tr0" "tr = f tr0" using i by auto
    then show ?thesis using assms(2) wait_okD(5)[OF assms(1)] True by blast
  next
    case False
    then have "track_of ls i = Some tr" using i by simp
    then show ?thesis by (rule wait_okD(5)[OF assms(1)])
  qed
qed simp_all

lemma send_evt_ok:
  assumes "wait_ok ls" and "t \<in> set (ls_waiting ls)"
  shows "wait_ok (send_evt t ed (flipNotParked t ls))"
proof (cases "track_of ls t")
  case None
  then show ?thesis using flipNotParked_ok[OF assms(1)] by (simp add: send_evt_def)
next
  case (Some tr)
  have "\<not> ls_stopping ls" using wait_okD(2)[OF assms(1)] assms(2) by auto
  then have tr: "tk_evtCh tr = []" "\<not> tk_evtClosed tr" "\<not> running tr" "tk_emit tr \<noteq> Some EmWaiting"
    using wait_okD(5)[OF assms(1) Some] assms(2) by (auto simp: track_ok_def)
  then have eq: "send_evt t ed (flipNotParked t ls) =
      upd_track t (\<lambda>tr. tr\<lparr>tk_evtCh := tk_evtCh tr @ [ed]\<rparr>) (flipNotParked t ls)"
    using Some by (simp add: send_evt_def eventBufferDepth_def)
  show ?thesis unfolding eq
    by (rule wait_ok_upd[OF flipNotParked_ok[OF assms(1)]]) (use Some tr in \<open>simp add: track_ok_def running_def\<close>)
qed

lemma wait_ok_keys: "wait_ok ls \<Longrightarrow> wait_ok (ls\<lparr>ls_keys := k, ls_log := l\<rparr>)"
  by (erule wait_ok_same) simp_all

lemma dispatchToParked_ok: "wait_ok ls \<Longrightarrow> wait_ok (dispatchToParked env trk ed ls)"
  unfolding dispatchToParked_def
  by (auto simp: Let_def send_evt_ok intro!: wait_ok_keys send_evt_ok split: option.split prod.split)

lemma stopAll_ok:
  assumes "wait_ok ls" shows "wait_ok (stopAll h ls)"
proof (cases "ls_stopping ls")
  case True
  then show ?thesis using assms by (simp add: stopAll_id)
next
  case False
  note e = stopAll_empties[OF False]
  show ?thesis
  proof (rule wait_okI)
    show "track_ok (stopAll h ls) i tr" if i: "track_of (stopAll h ls) i = Some tr" for i tr
    proof -
      obtain tr0 where "track_of ls i = Some tr0" "tr = stopped tr0" using i False by (auto simp: track_of_stopAll)
      then show ?thesis using wait_okD(5)[OF assms, of i tr0] e by (auto simp: track_ok_def stopped_def running_def)
    qed
  qed (use e wait_okD(1)[OF assms] in simp_all)
qed

lemma inst_fail_ok:
  assumes "wait_ok ls" shows "wait_ok (inst_fail e ls)"
proof (rule wait_ok_tracks[OF assms])
  fix i tr
  assume "track_of (inst_fail e ls) i = Some tr"
  then obtain tr0 where "track_of ls i = Some tr0" "tr = tr0\<lparr>tk_ctxDone := True\<rparr>" by auto
  then show "track_ok ls i tr" using wait_okD(5)[OF assms, of i tr0] by (simp add: track_ok_def running_def)
qed simp_all

lemma cond_failed_ok: "wait_ok ls \<Longrightarrow> wait_ok (cond_failed env ls)"
  by (simp add: cond_failed_def stopAll_ok inst_fail_ok)

lemma wait_ok_conds:
  assumes "wait_ok ls"
    and "\<And>w. w \<in> set ws \<Longrightarrow> cw_handler w = None \<and> \<not> cw_boundary w \<and> cw_track w \<in> set (ls_waiting ls)"
  shows "wait_ok (ls\<lparr>ls_conds := ws\<rparr>)"
proof (rule wait_okI)
  show "track_ok (ls\<lparr>ls_conds := ws\<rparr>) t tr" if "track_of (ls\<lparr>ls_conds := ws\<rparr>) t = Some tr" for t tr
    using wait_okD(5)[OF assms(1), of t tr] that by (simp add: track_ok_def)
  show "snd e \<in> set (ls_waiting (ls\<lparr>ls_conds := ws\<rparr>))" if "e \<in> set (ls_msgIdx (ls\<lparr>ls_conds := ws\<rparr>))" for e
    using wait_okD(3)[OF assms(1), of e] that by simp
qed (use assms(2) wait_okD(1,2)[OF assms(1)] in simp_all)

lemma set_last_ok:
  assumes "wait_ok ls" shows "wait_ok (set_last p b ls)"
  unfolding set_last_def by (rule wait_ok_conds[OF assms]) (use wait_okD(4)[OF assms] in auto)

lemma armConditionalsAt_ok:
  "wait_ok ls \<Longrightarrow> t \<in> set (ls_waiting ls) \<Longrightarrow> wait_ok (armConditionalsAt env t node ds ls)"
proof (induction ds arbitrary: ls)
  case (Cons d ds)
  let ?w = "\<lparr>cw_ptr = ls_nextPtr ls, cw_track = t, cw_node = node, cw_def = d, cw_handler = None, cw_handlerPath = [],
     cw_deps = condDeps d, cw_last = False, cw_boundary = False\<rparr>"
  let ?ls = "ls\<lparr>ls_conds := ls_conds ls @ [?w], ls_nextPtr := Suc (ls_nextPtr ls)\<rparr>"
  have "wait_ok (ls\<lparr>ls_conds := ls_conds ls @ [?w]\<rparr>)"
    by (rule wait_ok_conds[OF Cons.prems(1)]) (use wait_okD(4)[OF Cons.prems(1)] Cons.prems(2) in auto)
  then have ok: "wait_ok ?ls" by (rule wait_ok_same) simp_all
  show ?case
  proof (cases "evalCondition env d (watch_path ?ls ?w)")
    case (Inl e)
    then show ?thesis using cond_failed_ok[OF ok, of env] by (simp add: evalCondWatch_def Let_def)
  next
    case (Inr val)
    note sl = set_last_ok[OF ok, of "ls_nextPtr ls" val]
    have "wait_ok (armConditionalsAt env t node ds (set_last (ls_nextPtr ls) val ?ls))"
      by (rule Cons.IH[OF sl]) (simp add: set_last_def Cons.prems(2))
    then show ?thesis using Inr dispatchToParked_ok[OF sl, of env "Some t" "cond_event d"]
      by (cases val) (simp_all add: evalCondWatch_def fireCondWatch_def Let_def)
  qed
qed simp

lemma onWaiting_ok:
  assumes "wait_ok ls" and "\<And>tr. track_of ls t = Some tr \<Longrightarrow> tk_evtCh tr = [] \<and> tk_emit tr \<noteq> Some EmWaiting \<and> \<not> running tr"
  shows "wait_ok (onWaiting env t node ids ls)"
proof (cases "ls_stopping ls")
  case False
  let ?ls = "ls\<lparr>ls_waiting := List.insert t (ls_waiting ls), ls_msgIdx := fold (\<lambda>i m. AList.update i t m) ids (ls_msgIdx ls)\<rparr>"
  have idx: "snd e = t \<or> e \<in> set m" if "e \<in> set (fold (\<lambda>i m. AList.update i t m) ids m)" for e and m :: "(string \<times> track_id) list"
    using that
  proof (induction ids arbitrary: m)
    case (Cons i ids)
    from Cons.IH[of "AList.update i t m"] Cons.prems consider "snd e = t" | "e \<in> set (AList.update i t m)" by auto
    then show ?case
    proof cases
      case 2
      then show ?thesis by (induction m) (auto split: if_splits)
    qed simp
  qed simp
  have "wait_ok ?ls"
  proof (rule wait_okI)
    show "track_ok ?ls i tr" if "track_of ?ls i = Some tr" for i tr
      using wait_okD(5)[OF assms(1), of i tr] that assms(2)[of tr] False by (auto simp: track_ok_def)
    show "snd e \<in> set (ls_waiting ?ls)" if "e \<in> set (ls_msgIdx ?ls)" for e
      using idx[of e "ls_msgIdx ls"] wait_okD(3)[OF assms(1), of e] that by auto
    show "cw_handler w = None \<and> \<not> cw_boundary w \<and> cw_track w \<in> set (ls_waiting ?ls)" if "w \<in> set (ls_conds ?ls)" for w
      using wait_okD(4)[OF assms(1), of w] that by auto
  qed (use wait_okD(1)[OF assms(1)] False in simp_all)
  then have "wait_ok (armConditionalsAt env t node ds ?ls)" for ds by (rule armConditionalsAt_ok) simp
  then show ?thesis using False by (simp add: onWaiting_def Let_def)
qed (use assms(1) in \<open>simp add: onWaiting_def\<close>)

lemma sweep_eval_conds:
  "sweep_eval env ls changes ws = Some (ws', fires) \<Longrightarrow>
     set fires \<subseteq> set ws \<and> (\<forall>w'\<in>set ws'. \<exists>w\<in>set ws. \<exists>b. w' = w\<lparr>cw_last := b\<rparr>)"
proof (induction ws arbitrary: ws' fires)
  case (Cons w ws)
  have self: "\<exists>b. w = w\<lparr>cw_last := b\<rparr>" by (rule exI[of _ "cw_last w"]) simp
  show ?case
  proof (cases "condDue (cw_deps w) changes")
    case True
    then obtain val ws0 f0 where "sweep_eval env ls changes ws = Some (ws0, f0)" "ws' = w\<lparr>cw_last := val\<rparr> # ws0"
      "fires = f0 \<or> fires = w # f0"
      using Cons.prems by (fastforce split: sum.splits option.splits if_splits)
    with Cons.IH[of ws0 f0] show ?thesis by auto
  next
    case False
    then obtain ws0 where "sweep_eval env ls changes ws = Some (ws0, fires)" "ws' = w # ws0"
      using Cons.prems by (auto split: option.splits)
    with Cons.IH[of ws0 fires] self show ?thesis by auto
  qed
qed simp

lemma sweep_fires_ok:
  "wait_ok ls \<Longrightarrow> (\<And>w. w \<in> set ws \<Longrightarrow> cw_handler w = None \<and> \<not> cw_boundary w) \<Longrightarrow> wait_ok (sweep_fires fsh fb env ws ls)"
proof (induction ws arbitrary: ls)
  case (Cons w ws)
  have "wait_ok (if condArmed w ls then fireCondWatch fsh fb env w ls else ls)"
    using Cons.prems(1) Cons.prems(2)[of w] dispatchToParked_ok[OF Cons.prems(1), of env "Some (cw_track w)" "cond_event (cw_def w)"]
    by (simp add: fireCondWatch_def)
  from Cons.IH[OF this] Cons.prems(2) show ?case by simp
qed simp

lemma sweepConditionals_ok:
  assumes "wait_ok ls" shows "wait_ok (sweepConditionals fsh fb env chs ls)"
proof (cases "ls_stopping ls \<or> ls_conds ls = []")
  case True
  then show ?thesis using assms by (auto simp: sweepConditionals_def)
next
  case False
  show ?thesis
  proof (cases "sweep_eval env ls chs (ls_conds ls)")
    case None
    then show ?thesis using False cond_failed_ok[OF assms] by (simp add: sweepConditionals_def)
  next
    case (Some p)
    then obtain ws' fires where p: "sweep_eval env ls chs (ls_conds ls) = Some (ws', fires)" by (cases p) auto
    note sc = sweep_eval_conds[OF p]
    have "wait_ok (ls\<lparr>ls_conds := ws'\<rparr>)"
    proof (rule wait_ok_conds[OF assms])
      fix w assume "w \<in> set ws'"
      then obtain w0 b where "w0 \<in> set (ls_conds ls)" "w = w0\<lparr>cw_last := b\<rparr>" using sc by blast
      then show "cw_handler w = None \<and> \<not> cw_boundary w \<and> cw_track w \<in> set (ls_waiting ls)"
        using wait_okD(4)[OF assms, of w0] by simp
    qed
    then have "wait_ok (sweep_fires fsh fb env fires (ls\<lparr>ls_conds := ws'\<rparr>))"
      by (rule sweep_fires_ok) (use sc wait_okD(4)[OF assms] in blast)
    then show ?thesis using False p by (simp add: sweepConditionals_def)
  qed
qed

lemma dehydrate_fold_ok: "wait_ok ls \<Longrightarrow> wait_ok (fold dehydrateTrack ts ls)"
proof (induction ts arbitrary: ls)
  case (Cons t ts)
  have "wait_ok (dehydrateTrack t ls)" unfolding dehydrateTrack_def
    by (rule wait_ok_upd[OF Cons.prems]) (simp add: track_ok_def running_def)
  then show ?case using Cons.IH by simp
qed simp

lemma maybeDehydrate_ok:
  assumes "wait_ok ls" shows "wait_ok (maybeDehydrate env ls)"
proof -
  have "wait_ok (ls\<lparr>ls_dehydrating := True\<rparr>)" using assms by (rule wait_ok_same) simp_all
  then have "wait_ok (fold dehydrateTrack (dehydratableParked env ls) (ls\<lparr>ls_dehydrating := True\<rparr>))" by (rule dehydrate_fold_ok)
  then show ?thesis using assms by (cases "dehydratableParked env ls") (simp_all add: maybeDehydrate_def)
qed

lemma run_returns_simps [simp]:
  "tk_evtCh (run_returns s tr) = tk_evtCh tr" "tk_evtClosed (run_returns s tr) = tk_evtClosed tr"
  "tk_emit (run_returns s tr) = Some (EmEnd (trackEndKind s))" "\<not> running (run_returns s tr)"
  "tk_state (run_returns s tr) = s"
  by (simp_all add: run_returns_def updateState_def running_def)

lemma track_ok_returns: "track_ok ls t tr \<Longrightarrow> track_ok ls t (run_returns s tr)"
  by (simp add: track_ok_def trackEndKind_def)

lemma releaseHolds_ok:
  assumes "wait_ok ls" shows "wait_ok (releaseHolds h t ls)"
proof -
  have "wait_ok (upd_track t (\<lambda>tr. tr\<lparr>tk_held := False\<rparr>) ls)"
    by (rule wait_ok_upd[OF assms]) (simp add: track_ok_def running_def)
  moreover from this have "wait_ok ((upd_track t (\<lambda>tr. tr\<lparr>tk_held := False\<rparr>) ls)\<lparr>ls_log := l\<rparr>)" for l
    by (rule wait_ok_same) simp_all
  ultimately show ?thesis using assms by (simp add: releaseHolds_def Let_def split: option.split)
qed

lemma awaitTrigger_ok:
  assumes "wait_ok ls" and "track_of ls t = Some tr" and "tk_state tr = TrackWaitForEvent" and "tk_emit tr = None"
  shows "wait_ok (awaitTrigger h sel out t ls)"
proof -
  have ret: "wait_ok (upd_track t (run_returns s) ls')" if "wait_ok ls'" for s and ls' :: "('a, 'b) loop_state"
    by (rule wait_ok_upd[OF that]) (rule track_ok_returns)
  let ?ls1 = "upd_track t (\<lambda>tr. tr\<lparr>tk_evtCh := tl (tk_evtCh tr)\<rparr>) ls"
  have pop: "wait_ok ?ls1" by (rule wait_ok_upd[OF assms(1)]) (auto simp: track_ok_def running_def)
  have del: "wait_ok (upd_track t (updateState TrackReady) (releaseHolds h t ?ls1))" if ne: "tk_evtCh tr \<noteq> []"
  proof (rule wait_ok_upd[OF releaseHolds_ok[OF pop]])
    fix tr' assume tr': "track_of (releaseHolds h t ?ls1) t = Some tr'" "track_ok (releaseHolds h t ?ls1) t tr'"
    have "t \<notin> set (ls_waiting ls)" "length (tk_evtCh tr) \<le> 1"
      using wait_okD(5)[OF assms(1,2)] ne by (auto simp: track_ok_def)
    moreover have "tk_evtCh tr' = tl (tk_evtCh tr)" "tk_emit tr' = None" using tr'(1) assms(2,4) by auto
    ultimately show "track_ok (releaseHolds h t ?ls1) t (updateState TrackReady tr')"
      using tr'(2) ne by (cases "tk_evtCh tr") (simp_all add: track_ok_def updateState_def)
  qed
  show ?thesis
  proof (cases sel)
    case SelEvent
    show ?thesis
    proof (cases "tk_evtCh tr = []")
      case False
      then show ?thesis using SelEvent assms(2) del ret[OF pop] ret[OF releaseHolds_ok[OF pop]]
        by (cases out) (simp_all add: awaitTrigger_def)
    qed (use SelEvent assms(2) ret[OF assms(1)] in \<open>simp add: awaitTrigger_def\<close>)
  qed (use ret[OF assms(1)] in \<open>simp_all add: awaitTrigger_def\<close>)
qed

lemma onWaiting_takes_ok:
  assumes "wait_ok ls" and "track_of ls t = Some tr" and "tk_emit tr = Some EmWaiting"
  shows "wait_ok (onWaiting env t node ids (upd_track t (\<lambda>tr. tr\<lparr>tk_emit := None\<rparr>) ls))"
proof (rule onWaiting_ok)
  have ok: "tk_evtCh tr = [] \<and> tk_state tr = TrackWaitForEvent"
    using wait_okD(5)[OF assms(1,2)] assms(3) by (simp add: track_ok_def)
  show "wait_ok (upd_track t (\<lambda>tr. tr\<lparr>tk_emit := None\<rparr>) ls)"
    by (rule wait_ok_upd[OF assms(1)]) (use ok assms(2,3) in \<open>auto simp: track_ok_def running_def\<close>)
  show "tk_evtCh tr' = [] \<and> tk_emit tr' \<noteq> Some EmWaiting \<and> \<not> running tr'"
    if "track_of (upd_track t (\<lambda>tr. tr\<lparr>tk_emit := None\<rparr>) ls) t = Some tr'" for tr'
    using that ok assms(2) by (auto simp: running_def)
qed

lemma wait_step_ok:
  assumes "wait_step envs ls ls'" and "wait_ok ls" shows "wait_ok ls'"
  using assms
proof (induction rule: wait_step.induct)
  case (parks ls t tr n ids ds)
  show ?case by (rule wait_ok_upd[OF parks(3)]) (use parks(1,2) in \<open>simp add: track_ok_def running_def updateState_def\<close>)
next
  case (takes_wait ls env t tr)
  show ?case by (rule maybeDehydrate_ok, rule onWaiting_takes_ok[OF takes_wait(5,3,4)])
next
  case (holds ls t tr)
  show ?case by (rule wait_ok_upd[OF holds(4)]) (simp add: track_ok_def running_def)
next
  case (takes_dehydrated ls env t tr)
  have "wait_ok (upd_track t (\<lambda>tr. tr\<lparr>tk_emit := None\<rparr>) ls)"
    by (rule wait_ok_upd[OF takes_dehydrated(5)]) (use takes_dehydrated(3,4) in \<open>simp add: track_ok_def running_def\<close>)
  then show ?case unfolding applyDehydrated_def by (intro maybeDehydrate_ok) (erule wait_ok_same, simp_all)
next
  case (cancels ls t)
  show ?case by (rule wait_ok_upd[OF cancels]) (simp add: track_ok_def running_def)
qed (simp_all add: maybeDehydrate_ok dispatchToParked_ok sweepConditionals_ok awaitTrigger_ok stopAll_ok)

lemma wait_init_ok: "wait_init ls \<Longrightarrow> wait_ok ls"
  unfolding wait_init_def
  by (rule wait_okI) (auto simp: track_ok_def list_all_iff dest!: map_of_SomeD)

lemma wait_reach_ok: "wait_reach envs ls \<Longrightarrow> wait_ok ls"
  by (induction rule: wait_reach.induct) (auto intro: wait_init_ok wait_step_ok)

section \<open>What the wait plane guarantees\<close>


text \<open>A run of one track that waits at a catch event which the engine holds.\<close>

definition sample_env :: "(unit, unit, unit, unit, nat) loop_env" where
  "sample_env = \<lparr>le_engine = None, le_show = (\<lambda>_. []), le_keys = [], le_adder = False, le_nodes = [], le_plane = sample_plane,
     le_eval = (\<lambda>_ _ _. Inr (Some False)), le_holders = True, le_cpOwner = ''node1'', le_pinned = False,
     le_dehydratable = (\<lambda>n. n = ''catch'')\<rparr>"

definition sample_start :: "(unit, unit) loop_state" where
  "sample_start = \<lparr>ls_tracks = [(''t1'', sample_track)], ls_waiting = [], ls_msgIdx = [], ls_position = [], ls_parked = [],
     ls_watchers = [], ls_tasks = [], ls_jobs = [], ls_calls = [], ls_scopeHandlers = [], ls_scopeInterrupted = [],
     ls_scopes = [], ls_miGroups = [], ls_sweeps = [], ls_conds = [], ls_active = 1, ls_stopping = False,
     ls_dehydrating = False, ls_state = Active, ls_lastErr = None, ls_keys = [], ls_log = [], ls_loop = LoopRunning,
     ls_nextPtr = 0\<rparr>"

definition sample_fired :: "unit event_def" where
  "sample_fired = \<lparr>ed_id = ''sig'', ed_isMessage = False, ed_message = None, ed_items = []\<rparr>"

definition sample_parked :: "(unit, unit) loop_state" where
  "sample_parked = sample_start\<lparr>ls_tracks := [(''t1'', sample_track\<lparr>tk_state := TrackWaitForEvent,
     tk_hist := [(''catch'', TrackWaitForEvent)], tk_held := True\<rparr>)], ls_waiting := [''t1'']\<rparr>"

lemmas sample_run = sample_parked_def sample_start_def sample_track_def upd_track_def updateState_def running_def

lemma sample_parked_reach: "wait_reach {sample_env} sample_parked"
proof -
  define s1 where "s1 = upd_track ''t1'' (\<lambda>tr. updateState TrackWaitForEvent (tr\<lparr>tk_node := ''catch'', tk_msgDefIDs := [],
    tk_condDefs := [], tk_emit := Some EmWaiting\<rparr>)) sample_start"
  define s2 where "s2 = upd_track ''t1'' (\<lambda>tr. tr\<lparr>tk_emit := None\<rparr>) s1\<lparr>ls_waiting := [''t1'']\<rparr>"
  have "wait_reach {sample_env} sample_start"
    by (rule reach_init) (simp add: wait_init_def sample_start_def sample_track_def)
  moreover have "wait_step {sample_env} sample_start s1"
    unfolding s1_def by (rule parks[of _ _ sample_track]) (simp_all add: sample_run)
  moreover have "wait_step {sample_env} s1 (maybeDehydrate sample_env (onWaiting sample_env ''t1''
      (Some ''catch'') [] (upd_track ''t1'' (\<lambda>tr. tr\<lparr>tk_emit := None\<rparr>) s1)))"
    using takes_wait[of s1 sample_env "{sample_env}" "''t1''"] by (simp add: s1_def sample_run)
  moreover have "maybeDehydrate sample_env (onWaiting sample_env ''t1'' (Some ''catch'') []
      (upd_track ''t1'' (\<lambda>tr. tr\<lparr>tk_emit := None\<rparr>) s1)) = s2"
    by (simp add: s1_def s2_def sample_run onWaiting_def Let_def maybeDehydrate_def dehydratableParked_def
        boundariesHeld_def waitReleasable_def sample_env_def)
  moreover have "wait_step {sample_env} s2 (upd_track ''t1'' (\<lambda>tr. tr\<lparr>tk_held := True\<rparr>) s2)"
    using holds[of s2 "''t1''" _ "{sample_env}"] by (simp add: s1_def s2_def sample_run)
  moreover have "upd_track ''t1'' (\<lambda>tr. tr\<lparr>tk_held := True\<rparr>) s2 = sample_parked"
    by (simp add: s1_def s2_def sample_run)
  ultimately show ?thesis by (metis reach_step)
qed


text \<open>
  Claim C17. A parked track is resumed by exactly one event: the first event dispatched to it is put
  into its channel and clears every registration of the wait (the waiting mark, the message index,
  its conditional watches), and whatever is dispatched to it afterwards changes nothing.
\<close>

theorem parked_track_one_event:
  assumes "wait_reach envs ls" and "track_of ls t = Some tr" and "t \<in> set (ls_waiting ls)"
    and ls'_def: "ls' = dispatchToParked env (Some t) ed ls"
  shows "(\<exists>tr'. track_of ls' t = Some tr' \<and> tk_evtCh tr' = [ed]) \<and> t \<notin> set (ls_waiting ls')
    \<and> (\<forall>i. map_of (ls_msgIdx ls') i \<noteq> Some t) \<and> (\<forall>w\<in>set (ls_conds ls'). cw_track w \<noteq> t)
    \<and> dispatchToParked env2 (Some t) ed2 ls' = ls'"
proof -
  note ok = wait_reach_ok[OF assms(1)]
  have "\<not> ls_stopping ls" using wait_okD(2)[OF ok] assms(3) by auto
  then have "tk_evtCh tr = []" "\<not> tk_evtClosed tr" using wait_okD(5)[OF ok assms(2)] assms(3) by (auto simp: track_ok_def)
  then have eq: "ls' = upd_track t (\<lambda>tr. tr\<lparr>tk_evtCh := tk_evtCh tr @ [ed]\<rparr>) (flipNotParked t ls)"
    using assms(2,3) by (simp add: ls'_def dispatchToParked_def send_evt_def eventBufferDepth_def)
  have out: "t \<notin> set (ls_waiting ls')" by (simp add: eq)
  moreover have "\<forall>i. map_of (ls_msgIdx ls') i \<noteq> Some t" by (auto simp: eq dest!: map_of_SomeD)
  moreover have "\<forall>w\<in>set (ls_conds ls'). cw_track w \<noteq> t" using wait_okD(4)[OF ok] by (auto simp: eq)
  moreover have "\<exists>tr'. track_of ls' t = Some tr' \<and> tk_evtCh tr' = [ed]"
    using assms(2) \<open>tk_evtCh tr = []\<close> by (simp add: eq)
  moreover have "dispatchToParked env2 (Some t) ed2 ls' = ls'" using out by (simp add: dispatchToParked_def)
  ultimately show ?thesis by blast
qed

theorem parked_track_one_event_witness:
  "dispatchToParked sample_env (Some ''t1'') sample_fired (dispatchToParked sample_env (Some ''t1'') sample_fired sample_parked) =
   dispatchToParked sample_env (Some ''t1'') sample_fired sample_parked"
proof -
  have "track_of sample_parked ''t1'' = Some (snd (hd (ls_tracks sample_parked)))" "''t1'' \<in> set (ls_waiting sample_parked)"
    by (simp_all add: sample_parked_def)
  from parked_track_one_event[OF sample_parked_reach this refl] show ?thesis by blast
qed

lemma dehydratable_loopD:
  "dehydratable_loop env ls ts = Some ps \<Longrightarrow> (t, tr) \<in> set ts \<Longrightarrow> liveTrackStates (tk_state tr) \<Longrightarrow>
     tk_state tr = TrackDehydrated \<or>
     tk_state tr = TrackWaitForEvent \<and> t \<in> set ps \<and> t \<in> set (ls_waiting ls) \<and> boundariesHeld t ls \<and> waitReleasable env tr"
  by (induction ts arbitrary: ps) (auto split: if_splits)

text \<open>
  The loop decides to release an instance only when it is fully idle: at the moment it sets
  \<^verbatim>\<open>dehydrating\<close>, every live track is either already released or parked on a wait that the engine
  holds and that its node lets go, has no trigger on its way, and has all its boundary arms held;
  checkpointing is on, nobody pins the instance, and no call, group or sweep is open.
\<close>

theorem dehydrate_only_idle:
  assumes "wait_reach envs ls" and "\<not> ls_dehydrating ls" and "ls_dehydrating (maybeDehydrate env ls)"
    and "track_of ls t = Some tr" and "liveTrackStates (tk_state tr)"
  shows "le_cpOwner env \<noteq> [] \<and> \<not> le_pinned env \<and> \<not> ls_stopping ls \<and> ls_calls ls = [] \<and> ls_miGroups ls = [] \<and> ls_sweeps ls = []
    \<and> (tk_state tr = TrackDehydrated \<or>
       tk_state tr = TrackWaitForEvent \<and> t \<in> set (ls_waiting ls) \<and> tk_evtCh tr = [] \<and> tk_held tr \<and>
       le_dehydratable env (tk_node tr) \<and> boundariesHeld t ls)"
proof -
  have "track_ok ls t tr" by (rule wait_okD(5)[OF wait_reach_ok[OF assms(1)] assms(4)])
  then have free: "t \<in> set (ls_waiting ls) \<Longrightarrow> tk_evtCh tr = []" by (simp add: track_ok_def)
  have guards: "le_cpOwner env \<noteq> []" "\<not> le_pinned env" "\<not> ls_stopping ls" "ls_calls ls = []" "ls_miGroups ls = []"
    "ls_sweeps ls = []" and ne: "dehydratableParked env ls \<noteq> []"
    using assms(2,3) by (auto simp: maybeDehydrate_def split: if_splits)
  from ne obtain ps where "dehydratable_loop env ls (ls_tracks ls) = Some ps"
    by (auto simp: dehydratableParked_def split: option.splits)
  from dehydratable_loopD[OF this map_of_SomeD[OF assms(4)] assms(5)] free guards show ?thesis
    by (auto simp: waitReleasable_def)
qed

theorem dehydrate_only_idle_witness:
  "tk_state sample_track \<noteq> TrackWaitForEvent \<and> ls_dehydrating (maybeDehydrate sample_env sample_parked) \<and>
   boundariesHeld ''t1'' sample_parked"
proof -
  have d: "\<not> ls_dehydrating sample_parked" "ls_dehydrating (maybeDehydrate sample_env sample_parked)"
    by (simp_all add: sample_run maybeDehydrate_def dehydratableParked_def boundariesHeld_def waitReleasable_def
        sample_env_def dehydrateTrack_def)
  have t: "track_of sample_parked ''t1'' = Some (snd (hd (ls_tracks sample_parked)))"
    "liveTrackStates (tk_state (snd (hd (ls_tracks sample_parked))))"
    by (simp_all add: sample_parked_def liveTrackStates_def)
  from dehydrate_only_idle[OF sample_parked_reach d t] d show ?thesis by (simp add: sample_run)
qed

section \<open>The window in which a trigger is lost\<close>

text \<open>Nothing takes an event out of the channel of a released track.\<close>

definition stranded :: "track_id \<Rightarrow> 'p event_def \<Rightarrow> ('c, 'p) loop_state \<Rightarrow> bool" where
  "stranded t ed ls \<longleftrightarrow> (\<exists>tr. track_of ls t = Some tr \<and> tk_state tr = TrackDehydrated \<and> (\<exists>rest. tk_evtCh tr = ed # rest))"

lemma stranded_tracks:
  "stranded t ed ls \<Longrightarrow> ls_tracks ls' = ls_tracks ls \<Longrightarrow> stranded t ed ls'"
  by (simp add: stranded_def)

lemma stranded_upd:
  assumes "stranded t ed ls"
    and "\<And>tr. track_of ls t = Some tr \<Longrightarrow> tk_state tr = TrackDehydrated \<Longrightarrow> i = t \<Longrightarrow>
           tk_state (f tr) = TrackDehydrated \<and> (\<exists>rest. tk_evtCh (f tr) = tk_evtCh tr @ rest)"
  shows "stranded t ed (upd_track i f ls)"
  using assms by (cases "i = t") (fastforce simp: stranded_def)+

lemma stranded_send: "stranded t ed ls \<Longrightarrow> stranded t ed (send_evt i e ls)"
  unfolding send_evt_def
  by (auto split: option.split intro!: stranded_upd elim: stranded_tracks)

lemma stranded_dispatch: "stranded t ed ls \<Longrightarrow> stranded t ed (dispatchToParked env trk e ls)"
proof -
  assume st: "stranded t ed ls"
  have "stranded t ed (send_evt i e (flipNotParked i (ls\<lparr>ls_keys := k, ls_log := l\<rparr>)))"
    "stranded t ed (send_evt i e (flipNotParked i ls))" "stranded t ed (ls\<lparr>ls_keys := k, ls_log := l\<rparr>)" for i k l
    using st by (auto intro!: stranded_send elim: stranded_tracks)
  then show ?thesis using st by (simp add: dispatchToParked_def Let_def split: option.split prod.split)
qed

lemma stranded_stopAll: "stranded t ed ls \<Longrightarrow> stranded t ed (stopAll h ls)"
  by (auto simp: stranded_def track_of_stopAll stopped_def)

lemma stranded_cond_failed: "stranded t ed ls \<Longrightarrow> stranded t ed (cond_failed env ls)"
  unfolding cond_failed_def by (rule stranded_stopAll) (auto simp: stranded_def)

lemma stranded_arm: "stranded t ed ls \<Longrightarrow> stranded t ed (armConditionalsAt env i node ds ls)"
proof (induction ds arbitrary: ls)
  case (Cons d ds)
  have conds: "stranded t ed (ls\<lparr>ls_conds := ws, ls_nextPtr := p\<rparr>)" for ws p using Cons.prems by (rule stranded_tracks) simp
  have last: "stranded t ed (set_last q b (ls\<lparr>ls_conds := ws, ls_nextPtr := p\<rparr>))" for ws p q b
    by (rule stranded_tracks[OF conds]) (simp add: set_last_def)
  show ?case
    by (auto simp: evalCondWatch_def Let_def fireCondWatch_def split: sum.split
        intro!: Cons.IH last stranded_cond_failed conds stranded_dispatch)
qed simp

lemma stranded_onWaiting: "stranded t ed ls \<Longrightarrow> stranded t ed (onWaiting env i node ids ls)"
  by (auto simp: onWaiting_def Let_def intro!: stranded_arm elim: stranded_tracks)

lemma stranded_fires:
  "stranded t ed ls \<Longrightarrow> (\<And>w. w \<in> set ws \<Longrightarrow> cw_handler w = None \<and> \<not> cw_boundary w) \<Longrightarrow>
     stranded t ed (sweep_fires fsh fb env ws ls)"
proof (induction ws arbitrary: ls)
  case (Cons w ws)
  have "stranded t ed (if condArmed w ls then fireCondWatch fsh fb env w ls else ls)"
    using Cons.prems(1) Cons.prems(2)[of w] stranded_dispatch[OF Cons.prems(1), of env "Some (cw_track w)" "cond_event (cw_def w)"]
    by (simp add: fireCondWatch_def)
  from Cons.IH[OF this] Cons.prems(2) show ?case by simp
qed simp

lemma stranded_sweep:
  assumes "wait_ok ls" and "stranded t ed ls" shows "stranded t ed (sweepConditionals fsh fb env chs ls)"
proof (cases "sweep_eval env ls chs (ls_conds ls)")
  case None
  then show ?thesis using assms(2) stranded_cond_failed[OF assms(2), of env] by (simp add: sweepConditionals_def)
next
  case (Some p)
  then obtain ws' fires where p: "sweep_eval env ls chs (ls_conds ls) = Some (ws', fires)" by (cases p) auto
  have "stranded t ed (sweep_fires fsh fb env fires (ls\<lparr>ls_conds := ws'\<rparr>))"
  proof (rule stranded_fires)
    show "stranded t ed (ls\<lparr>ls_conds := ws'\<rparr>)" using assms(2) by (rule stranded_tracks) simp
    show "cw_handler w = None \<and> \<not> cw_boundary w" if "w \<in> set fires" for w
      using wait_okD(4)[OF assms(1), of w] sweep_eval_conds[OF p] that by blast
  qed
  then show ?thesis using assms(2) p by (simp add: sweepConditionals_def)
qed

lemma stranded_dehydrate: "stranded t ed ls \<Longrightarrow> stranded t ed (maybeDehydrate env ls)"
proof -
  have fold: "stranded t ed ls \<Longrightarrow> stranded t ed (fold dehydrateTrack ts ls)" for ts ls
    by (induction ts arbitrary: ls) (simp_all add: dehydrateTrack_def stranded_upd)
  assume st: "stranded t ed ls"
  then have "stranded t ed (ls\<lparr>ls_dehydrating := True\<rparr>)" by (rule stranded_tracks) simp
  from fold[OF this, of "dehydratableParked env ls"] st show ?thesis
    by (cases "dehydratableParked env ls") (simp_all add: maybeDehydrate_def)
qed

lemma stranded_await:
  assumes "stranded t ed ls" and "track_of ls i = Some tr" and "tk_state tr = TrackWaitForEvent"
  shows "stranded t ed (awaitTrigger h sel out i ls)"
proof -
  have ne: "i \<noteq> t" using assms by (auto simp: stranded_def)
  then have up: "stranded t ed ls' \<Longrightarrow> stranded t ed (upd_track i f ls')" for f and ls' :: "('b, 'a) loop_state"
    by (rule_tac stranded_upd) auto
  have rel: "stranded t ed ls' \<Longrightarrow> stranded t ed (releaseHolds h i ls')" for ls' :: "('b, 'a) loop_state"
    using ne by (simp add: stranded_def)
  show ?thesis using assms(1,2) by (cases sel; cases out) (simp_all add: awaitTrigger_def Let_def up rel)
qed

lemma stranded_step:
  assumes "wait_step envs ls ls'" and "wait_ok ls" and "stranded t ed ls" shows "stranded t ed ls'"
  using assms
proof (induction rule: wait_step.induct)
  case (parks ls i tr n ids ds)
  then show ?case by (intro stranded_upd) (auto simp: running_def)
next
  case (takes_wait ls env i tr)
  have "stranded t ed (upd_track i (\<lambda>tr. tr\<lparr>tk_emit := None\<rparr>) ls)" using takes_wait by (intro stranded_upd) auto
  then show ?case by (intro stranded_dehydrate stranded_onWaiting)
next
  case (holds ls i tr)
  then show ?case by (intro stranded_upd) auto
next
  case (takes_dehydrated ls env i tr)
  have "stranded t ed (upd_track i (\<lambda>tr. tr\<lparr>tk_emit := None\<rparr>) ls)" using takes_dehydrated by (intro stranded_upd) auto
  then show ?case unfolding applyDehydrated_def by (intro stranded_dehydrate) (erule stranded_tracks, simp)
next
  case (cancels ls i)
  then show ?case by (intro stranded_upd) auto
next
  case (awaits ls i tr sel holders out)
  show ?case by (rule stranded_await[OF awaits(6,1,2)])
qed (simp_all add: stranded_dehydrate stranded_dispatch stranded_sweep stranded_stopAll)

lemma stranded_forever:
  "(wait_step envs)\<^sup>*\<^sup>* ls ls' \<Longrightarrow> wait_ok ls \<Longrightarrow> stranded t ed ls \<Longrightarrow> wait_ok ls' \<and> stranded t ed ls'"
  by (induction rule: rtranclp_induct) (auto intro: wait_step_ok stranded_step)

text \<open>
  A trigger that races the release of an instance can be lost: there is a run in which the
  loop has decided to release the instance, then takes a fired signal for a parked track (so the
  caller of \<^verbatim>\<open>offer\<close> is told that it was applied) and puts it into the track's channel, while the
  track's goroutine picks the release; the event then stays unread whatever happens next. The
  comment on \<^verbatim>\<open>offer\<close> says that a trigger racing the cut is never lost; \<^verbatim>\<open>handleTaskRequest\<close> refuses
  requests while \<^verbatim>\<open>dehydrating\<close> is set for this very reason, \<^verbatim>\<open>dispatchToParked\<close> does not.
\<close>

theorem dehydration_window_loses_trigger:
  "\<exists>ls. wait_reach {sample_env} ls \<and> ls_dehydrating ls \<and>
     (let taken = dispatchToParked sample_env (Some ''t1'') sample_fired ls;
          lost = awaitTrigger True SelDehydrate Delivered ''t1'' taken
      in (\<exists>tr. track_of taken ''t1'' = Some tr \<and> tk_evtCh tr = [sample_fired]) \<and> wait_reach {sample_env} lost \<and>
         Collect ((wait_step {sample_env})\<^sup>*\<^sup>* lost) \<subseteq> Collect (stranded ''t1'' sample_fired))"
proof -
  define s1 where "s1 = maybeDehydrate sample_env sample_parked"
  define s2 where "s2 = dispatchToParked sample_env (Some ''t1'') sample_fired s1"
  define s3 where "s3 = awaitTrigger True SelDehydrate Delivered ''t1'' s2"
  have sweep: "sweepConditionals fsh fb sample_env [] sample_parked = sample_parked" for fsh fb
    by (simp add: sweepConditionals_def sample_run)
  have "wait_step {sample_env} sample_parked s1"
    using commits[of sample_parked sample_env "{sample_env}" "\<lambda>w ls. ls" "\<lambda>w ls. ls" "[]"] unfolding sweep s1_def
    by (simp add: sample_run)
  with sample_parked_reach have r1: "wait_reach {sample_env} s1" by (rule reach_step)
  have s1: "s1 = sample_parked\<lparr>ls_dehydrating := True, ls_tracks := [(''t1'', (snd (hd (ls_tracks sample_parked)))\<lparr>tk_dehydrateClosed := True\<rparr>)]\<rparr>"
    by (simp add: s1_def sample_run maybeDehydrate_def dehydratableParked_def boundariesHeld_def waitReleasable_def
        sample_env_def dehydrateTrack_def)
  have s2: "s2 = flipNotParked ''t1'' s1\<lparr>ls_tracks := [(''t1'', (snd (hd (ls_tracks s1)))\<lparr>tk_evtCh := [sample_fired]\<rparr>)]\<rparr>"
    by (simp add: s2_def s1 sample_run dispatchToParked_def send_evt_def eventBufferDepth_def flipNotParked_def
        clearConds_def clearMsgIdx_def)
  have "maybeDehydrate sample_env s2 = s2" by (simp add: maybeDehydrate_def s2 s1)
  moreover have "wait_step {sample_env} s1 (maybeDehydrate sample_env s2)"
    unfolding s2_def by (rule delivers) (simp_all add: s1 sample_run)
  ultimately have r2: "wait_reach {sample_env} s2" using r1 reach_step by metis
  have tr2: "track_of s2 ''t1'' = Some (snd (hd (ls_tracks s2)))" "tk_evtCh (snd (hd (ls_tracks s2))) = [sample_fired]"
    "tk_state (snd (hd (ls_tracks s2))) = TrackWaitForEvent" "tk_emit (snd (hd (ls_tracks s2))) = None"
    "tk_dehydrateClosed (snd (hd (ls_tracks s2)))"
    by (simp_all add: s2 s1 sample_run)
  have "wait_step {sample_env} s2 s3" unfolding s3_def by (rule awaits[OF tr2(1)]) (use tr2 in simp_all)
  with r2 have r3: "wait_reach {sample_env} s3" by (rule reach_step)
  have "stranded ''t1'' sample_fired s3" using tr2 by (simp add: s3_def awaitTrigger_def stranded_def)
  then have "stranded ''t1'' sample_fired ls'" if "(wait_step {sample_env})\<^sup>*\<^sup>* s3 ls'" for ls'
    using stranded_forever[OF that wait_reach_ok[OF r3]] by blast
  moreover have "ls_dehydrating s1" by (simp add: s1)
  ultimately show ?thesis using r1 r3 tr2(1,2) unfolding Let_def
    by (intro exI[of _ s1]) (auto simp flip: s2_def s3_def)
qed

end
