(* ===== verification/Instance_Joins.thy ===== *)
theory Instance_Joins
  imports Instance_State
begin

text \<open>
  The join plane of the instance loop (\<^verbatim>\<open>src/internal/instance/loop.go\<close>): the tokens' positions, the
  tracks parked at reachability joins, the recheck of those joins and their fire. The gateways'
  own state is that of \<open>Gateway_Joins\<close> and \<open>Complex_Join\<close>; here the loop drives them against the
  live positions.

  The state of the plane is a pair: the join nodes by id, and the loop's state. The flow graph,
  the evaluation of guards (\<^verbatim>\<open>guardEval\<close>) and the presence of engine holders are arguments.
\<close>

section \<open>The plane\<close>

datatype 'x joinNode = ReachabilityJoin "'x InclusiveGateway" | ActivationJoin "'x ComplexGateway"

type_synonym ('x, 'c, 'p) join_plane = "(node_id \<times> 'x joinNode) list \<times> ('c, 'p) loop_state"

definition clearPosition :: "track_id \<Rightarrow> ('c, 'p) loop_state \<Rightarrow> ('c, 'p) loop_state" where
  "clearPosition t ls = ls\<lparr>ls_position := AList.delete t (ls_position ls), ls_parked := AList.delete t (ls_parked ls)\<rparr>"

text \<open>The moved track is no longer parked; the rest of that handler belongs to other components.\<close>

definition move_position :: "track_id \<Rightarrow> node_id \<Rightarrow> ('c, 'p) loop_state \<Rightarrow> ('c, 'p) loop_state" where
  "move_position t n ls =
     ls\<lparr>ls_position := AList.update t n (ls_position ls), ls_parked := AList.delete t (ls_parked ls)\<rparr>"

text \<open>The send \<^verbatim>\<open>parkCh <- struct{}{}\<close> on the channel of one slot.\<close>

definition signal_park :: "track_id \<Rightarrow> ('c, 'p) loop_state \<Rightarrow> ('c, 'p) loop_state" where
  "signal_park t ls =
     (case track_of ls t of
        None \<Rightarrow> ls
      | Some tr \<Rightarrow>
          (if tk_parkCh tr \<ge> 1 then ls\<lparr>ls_loop := LoopBlocked\<rparr>
           else upd_track t (\<lambda>tr. tr\<lparr>tk_parkCh := Suc (tk_parkCh tr)\<rparr>) ls))"

fun applyMerged :: "track_id \<Rightarrow> track_id list \<Rightarrow> ('c, 'p) loop_state \<Rightarrow> ('c, 'p) loop_state" where
  "applyMerged survivor [] ls = ls"
| "applyMerged survivor (i # ids) ls =
     applyMerged survivor ids
       (case track_of ls i of
          None \<Rightarrow> ls
        | Some _ \<Rightarrow>
            signal_park i (clearPosition i
              (upd_track i (\<lambda>m. updateState TrackMerged (m\<lparr>tk_mergedInto := Some survivor\<rparr>)) ls)))"

definition fireOrJoin :: "track_id \<Rightarrow> track_id list \<Rightarrow> ('c, 'p) loop_state \<Rightarrow> ('c, 'p) loop_state" where
  "fireOrJoin survivorID merged ls =
     (case track_of ls survivorID of
        None \<Rightarrow> ls
      | Some _ \<Rightarrow> signal_park survivorID (applyMerged survivorID merged ls))"

definition recheckJoin :: "'x graph \<Rightarrow> ('x \<Rightarrow> bool result) \<Rightarrow> bool \<Rightarrow> node_id \<Rightarrow> ('x, 'c, 'p) join_plane \<Rightarrow>
    ('x, 'c, 'p) join_plane" where
  "recheckJoin g guardEval holders node st =
     (case st of
        (joins, ls) \<Rightarrow>
          (case joinPositions (Some node) (ls_position ls) (ls_parked ls) of
             (occupied, inTransit) \<Rightarrow>
               (if inTransit then st
                else (case map_of joins node of
                        None \<Rightarrow> st
                      | Some (ActivationJoin j) \<Rightarrow>
                          (case Complex_Recheck guardEval (fixedFlowChecker g occupied) j of
                             (j', dec) \<Rightarrow>
                               (AList.update node (ActivationJoin j') joins,
                                case dec of
                                  Inl e \<Rightarrow> stopAll holders (inst_fail e ls)
                                | Inr d \<Rightarrow>
                                    (if dc_Aborted d
                                     then stopAll holders (inst_fail
                                            (AppError InvalidState ''complex gateway activation rule is unsatisfiable'') ls)
                                     else if dc_Fired d then fireOrJoin (dc_Survivor d) (dc_Merged d) ls
                                     else ls)))
                      | Some (ReachabilityJoin j) \<Rightarrow>
                          (case Inclusive_Recheck (fixedFlowChecker g occupied) j of
                             (j', complete, survivor, merged) \<Rightarrow>
                               (AList.update node (ReachabilityJoin j') joins,
                                if complete then fireOrJoin survivor merged ls else ls))))))"

text \<open>
  The range over the map \<^verbatim>\<open>ls.parked\<close>: \<open>es\<close> are its entries in the order Go yields them. An entry
  removed before it is reached is not produced.
\<close>

fun recheck_loop :: "'x graph \<Rightarrow> ('x \<Rightarrow> bool result) \<Rightarrow> bool \<Rightarrow> node_id list \<Rightarrow> (track_id \<times> node_id) list \<Rightarrow>
    ('x, 'c, 'p) join_plane \<Rightarrow> ('x, 'c, 'p) join_plane" where
  "recheck_loop g guardEval holders seen [] st = st"
| "recheck_loop g guardEval holders seen ((t, node) # es) st =
     (if \<not> has_key t (ls_parked (snd st)) \<or> node \<in> set seen then recheck_loop g guardEval holders seen es st
      else recheck_loop g guardEval holders (node # seen) es (recheckJoin g guardEval holders node st))"

definition recheckAwaitingJoins :: "'x graph \<Rightarrow> ('x \<Rightarrow> bool result) \<Rightarrow> bool \<Rightarrow> (track_id \<times> node_id) list \<Rightarrow>
    ('x, 'c, 'p) join_plane \<Rightarrow> ('x, 'c, 'p) join_plane" where
  "recheckAwaitingJoins g guardEval holders es st = recheck_loop g guardEval holders [] es st"

definition recheckParked :: "'x graph \<Rightarrow> ('x \<Rightarrow> bool result) \<Rightarrow> bool \<Rightarrow> track_id \<Rightarrow> ('x, 'c, 'p) join_plane \<Rightarrow>
    ('x, 'c, 'p) join_plane" where
  "recheckParked g guardEval holders t st =
     (case st of
        (joins, ls) \<Rightarrow>
          (case map_of (ls_parked ls) t of
             None \<Rightarrow> st
           | Some node \<Rightarrow>
               (case map_of joins node of
                  Some (ReachabilityJoin j) \<Rightarrow>
                    (if IsTrailing j t
                     then (joins, signal_park t (clearPosition t (upd_track t (updateState TrackMerged) ls)))
                     else recheckJoin g guardEval holders node st)
                | _ \<Rightarrow> recheckJoin g guardEval holders node st)))"

definition applyParked :: "'x graph \<Rightarrow> ('x \<Rightarrow> bool result) \<Rightarrow> bool \<Rightarrow> track_id \<Rightarrow> node_id \<Rightarrow> ('x, 'c, 'p) join_plane \<Rightarrow>
    ('x, 'c, 'p) join_plane" where
  "applyParked g guardEval holders t node st =
     (case st of
        (joins, ls) \<Rightarrow>
          (if ls_stopping ls then st
           else if \<not> has_key t (ls_position ls) then st
           else recheckParked g guardEval holders t (joins, ls\<lparr>ls_parked := AList.update t node (ls_parked ls)\<rparr>)))"

section \<open>When a join is due\<close>

definition in_transit :: "node_id \<Rightarrow> ('c, 'p) loop_state \<Rightarrow> bool" where
  "in_transit n ls = snd (joinPositions (Some n) (ls_position ls) (ls_parked ls))"

definition occupied_nodes :: "('c, 'p) loop_state \<Rightarrow> node_id set" where
  "occupied_nodes ls = snd ` set (ls_position ls)"

fun join_due :: "'x graph \<Rightarrow> ('x \<Rightarrow> bool result) \<Rightarrow> node_id set \<Rightarrow> 'x joinNode \<Rightarrow> bool" where
  "join_due g guardEval occ (ReachabilityJoin j) =
     fst (snd (Inclusive_Recheck (fixedFlowChecker g (\<lambda>n. n \<in> occ)) j))"
| "join_due g guardEval occ (ActivationJoin j) =
     (case snd (Complex_Recheck guardEval (fixedFlowChecker g (\<lambda>n. n \<in> occ)) j) of
        Inl _ \<Rightarrow> True
      | Inr d \<Rightarrow> dc_Aborted d \<or> dc_Fired d)"

text \<open>A join node is due when no token is just arriving at it and its own recheck would decide.\<close>

definition due :: "'x graph \<Rightarrow> ('x \<Rightarrow> bool result) \<Rightarrow> node_id \<Rightarrow> ('x, 'c, 'p) join_plane \<Rightarrow> bool" where
  "due g guardEval n st \<longleftrightarrow>
     \<not> in_transit n (snd st) \<and>
     (case map_of (fst st) n of None \<Rightarrow> False | Some j \<Rightarrow> join_due g guardEval (occupied_nodes (snd st)) j)"

fun join_order :: "'x joinNode \<Rightarrow> track_id list" where
  "join_order (ReachabilityJoin j) = ig_order j"
| "join_order (ActivationJoin j) = cg_order j"

fun join_fired :: "'x joinNode \<Rightarrow> bool" where
  "join_fired (ReachabilityJoin j) = ig_fired j"
| "join_fired (ActivationJoin j) = cg_fired j"

text \<open>A token recorded at a join that has not fired sits on that join.\<close>

definition join_ok :: "('x, 'c, 'p) join_plane \<Rightarrow> bool" where
  "join_ok st \<longleftrightarrow>
     distinct (map fst (ls_position (snd st))) \<and> (ls_stopping (snd st) \<longrightarrow> ls_parked (snd st) = []) \<and>
     (\<forall>n j. \<not> ls_stopping (snd st) \<longrightarrow> map_of (fst st) n = Some j \<longrightarrow> \<not> join_fired j \<longrightarrow>
        (\<forall>t\<in>set (join_order j). map_of (ls_position (snd st)) t = Some n))"

section \<open>What firing a join does to the positions\<close>

lemma delete_filter: "AList.delete k m = filter (\<lambda>e. fst e \<noteq> k) m"
  unfolding AList.delete_eq by (rule filter_cong) auto

lemma signal_park_frame [simp]:
  "ls_position (signal_park t ls) = ls_position ls" "ls_parked (signal_park t ls) = ls_parked ls"
  "ls_stopping (signal_park t ls) = ls_stopping ls" "track_of (signal_park t ls) i = None \<longleftrightarrow> track_of ls i = None"
  by (auto simp: signal_park_def split: option.split)

lemma clearPosition_frame [simp]:
  "ls_position (clearPosition t ls) = filter (\<lambda>e. fst e \<noteq> t) (ls_position ls)"
  "ls_parked (clearPosition t ls) = filter (\<lambda>e. fst e \<noteq> t) (ls_parked ls)"
  "ls_stopping (clearPosition t ls) = ls_stopping ls" "ls_tracks (clearPosition t ls) = ls_tracks ls"
  "ls_loop (clearPosition t ls) = ls_loop ls"
  by (simp_all add: clearPosition_def delete_filter)

definition known :: "('c, 'p) loop_state \<Rightarrow> track_id list \<Rightarrow> track_id set" where
  "known ls ids = {i \<in> set ids. track_of ls i \<noteq> None}"

lemma applyMerged_frame:
  "ls_position (applyMerged s ids ls) = filter (\<lambda>e. fst e \<notin> known ls ids) (ls_position ls)
   \<and> ls_parked (applyMerged s ids ls) = filter (\<lambda>e. fst e \<notin> known ls ids) (ls_parked ls)
   \<and> ls_stopping (applyMerged s ids ls) = ls_stopping ls"
proof (induction ids arbitrary: ls)
  case (Cons i ids)
  show ?case
  proof (cases "track_of ls i")
    case None
    then have "known ls (i # ids) = known ls ids" by (auto simp: known_def)
    then show ?thesis using Cons[of ls] None by simp
  next
    case (Some tr)
    let ?ls = "signal_park i (clearPosition i (upd_track i (\<lambda>m. updateState TrackMerged (m\<lparr>tk_mergedInto := Some s\<rparr>)) ls))"
    have "track_of ?ls j = None \<longleftrightarrow> track_of ls j = None" for j using Some by simp
    then have "known ls (i # ids) = insert i (known ?ls ids)" using Some by (auto simp: known_def)
    then show ?thesis using Cons[of ?ls] Some by (auto intro!: filter_cong)
  qed
qed (simp add: known_def)

text \<open>Firing a join keeps the set of occupied nodes: the survivor stays where the others leave.\<close>

lemma fire_keeps_occupied:
  assumes "distinct (map fst pos)" and "\<forall>t\<in>M. map_of pos t = Some n" and "map_of pos s = Some n" and "s \<notin> M"
  shows "snd ` set (filter (\<lambda>e. fst e \<notin> M) pos) = snd ` set pos"
proof -
  have "(s, n) \<in> set (filter (\<lambda>e. fst e \<notin> M) pos)" using assms(3,4) by (auto dest: map_of_SomeD)
  moreover have "x = n" if "(t, x) \<in> set pos" "t \<in> M" for t x
    using assms(1,2) that by (metis map_of_eq_Some_iff option.inject)
  ultimately show ?thesis by (force simp: image_iff)
qed

lemma fire_keeps_transit:
  assumes "distinct (map fst (ls_position ls))" and "\<forall>t\<in>M. map_of (ls_position ls) t = Some n" and "m \<noteq> n"
    and "ls_position ls' = filter (\<lambda>e. fst e \<notin> M) (ls_position ls)" and "ls_parked ls' = filter (\<lambda>e. fst e \<notin> M) (ls_parked ls)"
  shows "in_transit m ls' = in_transit m ls"
proof -
  have "x = n" if "(t, x) \<in> set (ls_position ls)" "t \<in> M" for t x
    using assms(1,2) that by (metis map_of_eq_Some_iff option.inject)
  then have out: "t \<notin> M" if "(t, m) \<in> set (ls_position ls)" for t using assms(3) that by blast
  have "(t, m) \<in> set (ls_position ls') \<and> \<not> has_key t (ls_parked ls') \<longleftrightarrow>
        (t, m) \<in> set (ls_position ls) \<and> \<not> has_key t (ls_parked ls)" for t
    using out[of t] unfolding assms(4,5) has_key_def by auto
  then show ?thesis by (auto simp: in_transit_def joinPositions_def list_ex_iff)
qed

lemma Inclusive_Recheck_result:
  assumes "Inclusive_Recheck fc j = (j', c, s, m)"
  shows "if c then \<not> ig_fired j \<and> j' = j\<lparr>ig_fired := True\<rparr> \<and> s \<in> set (ig_order j) \<and> set m = set (ig_order j) - {s}
         else j' = j"
  using assms by (auto simp: Inclusive_Recheck_def Let_def absorb_filter split: list.splits if_splits)

lemma Complex_Recheck_result:
  assumes "Complex_Recheck ge fc j = (j', Inr d)"
  shows "if dc_Fired d then \<not> cg_fired j \<and> j' = j\<lparr>cg_fired := True\<rparr> \<and> dc_Survivor d \<in> set (cg_order j)
           \<and> set (dc_Merged d) = set (cg_order j) - {dc_Survivor d} \<and> \<not> dc_Aborted d
         else j' = j"
  using assms
  by (auto simp: Complex_Recheck_def decide_def no_decision_def Let_def absorb_filter
      split: if_splits sum.splits prod.splits)

lemma Complex_Recheck_error: "Complex_Recheck ge fc j = (j', Inl e) \<Longrightarrow> j' = j"
  by (auto simp: Complex_Recheck_def decide_def Let_def split: if_splits sum.splits prod.splits)

lemma fired_not_due: "join_fired j \<Longrightarrow> \<not> join_due g ge occ j"
  by (cases j) (auto simp: Inclusive_Recheck_def Complex_Recheck_def no_decision_def split: list.split)

section \<open>One pass is enough\<close>

text \<open>
  What a recheck of the node \<open>n\<close> leaves behind: \<open>n\<close> is not due, and unless the instance was stopped,
  nothing another join looks at has changed.
\<close>

definition settled :: "'x graph \<Rightarrow> ('x \<Rightarrow> bool result) \<Rightarrow> node_id \<Rightarrow> ('x, 'c, 'p) join_plane \<Rightarrow> ('x, 'c, 'p) join_plane \<Rightarrow> bool" where
  "settled g ge n st st' \<longleftrightarrow>
     join_ok st' \<and> set (ls_parked (snd st')) \<subseteq> set (ls_parked (snd st)) \<and>
     (ls_parked (snd st') = [] \<or>
      \<not> due g ge n st' \<and> occupied_nodes (snd st') = occupied_nodes (snd st) \<and>
      (\<forall>m. m \<noteq> n \<longrightarrow> map_of (fst st') m = map_of (fst st) m \<and> in_transit m (snd st') = in_transit m (snd st)))"

lemma join_okD:
  assumes "join_ok (joins, ls)"
  shows "distinct (map fst (ls_position ls))" and "ls_stopping ls \<Longrightarrow> ls_parked ls = []"
    and "\<not> ls_stopping ls \<Longrightarrow> map_of joins n = Some j \<Longrightarrow> \<not> join_fired j \<Longrightarrow> t \<in> set (join_order j) \<Longrightarrow>
      map_of (ls_position ls) t = Some n"
  using assms by (auto simp: join_ok_def)

lemma join_okI:
  assumes "distinct (map fst (ls_position ls))" and "ls_stopping ls \<Longrightarrow> ls_parked ls = []"
    and "\<And>n j t. \<not> ls_stopping ls \<Longrightarrow> map_of joins n = Some j \<Longrightarrow> \<not> join_fired j \<Longrightarrow> t \<in> set (join_order j) \<Longrightarrow>
      map_of (ls_position ls) t = Some n"
  shows "join_ok (joins, ls)"
  using assms by (auto simp: join_ok_def)

lemma settled_stopped:
  "join_ok st' \<Longrightarrow> ls_parked (snd st') = [] \<Longrightarrow> settled g ge n st st'"
  by (simp add: settled_def)

lemma fireOrJoin_frame:
  obtains M where "M \<subseteq> set m" "ls_position (fireOrJoin s m ls) = filter (\<lambda>e. fst e \<notin> M) (ls_position ls)"
    "ls_parked (fireOrJoin s m ls) = filter (\<lambda>e. fst e \<notin> M) (ls_parked ls)" "ls_stopping (fireOrJoin s m ls) = ls_stopping ls"
proof (rule that)
  show "(if track_of ls s = None then {} else known ls m) \<subseteq> set m" by (auto simp: known_def)
qed (use applyMerged_frame[of s m ls] in \<open>auto simp: fireOrJoin_def split: option.split\<close>)

lemma map_of_filter_fst: "map_of (filter (\<lambda>e. fst e \<notin> M) m) t = (if t \<in> M then None else map_of m t)"
  by (induction m) auto

lemma fireOrJoin_settles:
  assumes ok: "join_ok (joins, ls)" and j: "map_of joins n = Some j" "\<not> join_fired j" "join_fired j'"
    and s: "s \<in> set (join_order j)" and m: "set m = set (join_order j) - {s}"
  shows "settled g ge n (joins, ls) (AList.update n j' joins, fireOrJoin s m ls)"
proof -
  obtain M where M: "M \<subseteq> set m" and pos: "ls_position (fireOrJoin s m ls) = filter (\<lambda>e. fst e \<notin> M) (ls_position ls)"
    and par: "ls_parked (fireOrJoin s m ls) = filter (\<lambda>e. fst e \<notin> M) (ls_parked ls)"
    and st: "ls_stopping (fireOrJoin s m ls) = ls_stopping ls"
    by (rule fireOrJoin_frame)
  let ?ls = "fireOrJoin s m ls"
  note d = join_okD(1)[OF ok]
  have d': "distinct (map fst (ls_position ?ls))" unfolding pos by (rule distinct_map_filter[OF d])
  show ?thesis
  proof (cases "ls_stopping ls")
    case True
    then have "ls_parked ?ls = []" using join_okD(2)[OF ok] by (simp add: par)
    then show ?thesis using True st d' by (intro settled_stopped join_okI) simp_all
  next
    case False
    note at = join_okD(3)[OF ok False j(1,2)]
    have Mn: "\<forall>t\<in>M. map_of (ls_position ls) t = Some n" "s \<notin> M" using at m M by auto
    have "join_ok (AList.update n j' joins, ?ls)"
    proof (rule join_okI[OF d'])
      fix k jk t
      assume "map_of (AList.update n j' joins) k = Some jk" "\<not> join_fired jk" "t \<in> set (join_order jk)"
      then have k: "k \<noteq> n" and jk: "map_of (ls_position ls) t = Some k"
        using j(3) join_okD(3)[OF ok False] by (auto simp: update_conv' split: if_splits)
      then show "map_of (ls_position ?ls) t = Some k" using Mn(1) unfolding pos map_of_filter_fst by auto
    qed (use False st in simp)
    moreover have "\<not> due g ge n (AList.update n j' joins, ?ls)"
      using fired_not_due[OF j(3)] by (simp add: due_def update_conv')
    moreover have "occupied_nodes ?ls = occupied_nodes ls"
      unfolding occupied_nodes_def pos by (rule fire_keeps_occupied[OF d Mn(1) at[OF s] Mn(2)])
    moreover have "in_transit k ?ls = in_transit k ls" if "k \<noteq> n" for k
      by (rule fire_keeps_transit[OF d Mn(1) that pos par])
    ultimately show ?thesis unfolding settled_def by (auto simp: par update_conv')
  qed
qed

lemma settled_same:
  assumes "join_ok (joins, ls)" and "map_of joins n = Some j" and "\<not> due g ge n (joins, ls)"
  shows "settled g ge n (joins, ls) (AList.update n j joins, ls)"
proof -
  have eq: "map_of (AList.update n j joins) = map_of joins" using assms(2) by (auto simp: update_conv')
  show ?thesis using assms(1,3) unfolding settled_def join_ok_def due_def fst_conv snd_conv eq by blast
qed

lemma settled_stop:
  assumes "join_ok (joins, ls)"
  shows "settled g ge n (joins, ls) (AList.update n j joins, stopAll h (inst_fail e ls))"
proof (rule settled_stopped)
  show "ls_parked (snd (AList.update n j joins, stopAll h (inst_fail e ls))) = []"
    using join_okD(2)[OF assms] by (cases "ls_stopping ls") (simp_all add: stopAll_id stopAll_empties)
  then show "join_ok (AList.update n j joins, stopAll h (inst_fail e ls))"
    using join_okD(1)[OF assms] by (intro join_okI; cases "ls_stopping ls") (simp_all add: stopAll_id stopAll_empties)
qed

lemma recheckJoin_settles:
  assumes ok: "join_ok (joins, ls)"
  shows "settled g ge n (joins, ls) (recheckJoin g ge h n (joins, ls))"
proof (cases "in_transit n ls")
  case True
  then obtain occ where "joinPositions (Some n) (ls_position ls) (ls_parked ls) = (occ, True)"
    unfolding in_transit_def by (metis (full_types) prod.collapse)
  then have "recheckJoin g ge h n (joins, ls) = (joins, ls)" by (simp add: recheckJoin_def)
  then show ?thesis using ok True by (simp add: settled_def due_def)
next
  case False
  let ?fc = "fixedFlowChecker g (\<lambda>n. n \<in> occupied_nodes ls)"
  have jp: "joinPositions (Some n) (ls_position ls) (ls_parked ls) = (\<lambda>n. n \<in> occupied_nodes ls, False)"
    using False by (simp add: in_transit_def joinPositions_def occupied_nodes_def)
  show ?thesis
  proof (cases "map_of joins n")
    case None
    then show ?thesis using ok jp by (simp add: recheckJoin_def settled_def due_def)
  next
    case (Some j)
    have same: "settled g ge n (joins, ls) (AList.update n j joins, ls)" if "\<not> join_due g ge (occupied_nodes ls) j"
      by (rule settled_same[OF ok Some]) (simp add: due_def Some that)
    show ?thesis
    proof (cases j)
      case (ReachabilityJoin ig)
      obtain ig' c s m where r: "Inclusive_Recheck ?fc ig = (ig', c, s, m)" by (metis prod_cases4)
      note res = Inclusive_Recheck_result[OF r]
      have eq: "recheckJoin g ge h n (joins, ls) = (AList.update n (ReachabilityJoin ig') joins, if c then fireOrJoin s m ls else ls)"
        using Some ReachabilityJoin r by (simp add: recheckJoin_def jp)
      show ?thesis
      proof (cases c)
        case True
        show ?thesis unfolding eq using True res ReachabilityJoin
          by (simp, intro fireOrJoin_settles[OF ok Some]) simp_all
      next
        case False
        then show ?thesis using same res r ReachabilityJoin unfolding eq by simp
      qed
    next
      case (ActivationJoin cg)
      obtain cg' dec where r: "Complex_Recheck ge ?fc cg = (cg', dec)" by (metis surj_pair)
      show ?thesis
      proof (cases dec)
        case (Inl e)
        then show ?thesis using Some ActivationJoin r settled_stop[OF ok] by (simp add: recheckJoin_def jp)
      next
        case (Inr d)
        note res = Complex_Recheck_result[OF r[unfolded Inr]]
        show ?thesis
        proof (cases "dc_Fired d")
          case True
          have "settled g ge n (joins, ls) (AList.update n (ActivationJoin cg') joins, fireOrJoin (dc_Survivor d) (dc_Merged d) ls)"
            by (rule fireOrJoin_settles[OF ok Some]) (use True res ActivationJoin in simp_all)
          then show ?thesis using Some ActivationJoin r Inr True res by (simp add: recheckJoin_def jp)
        next
          case False
          show ?thesis
          proof (cases "dc_Aborted d")
            case True
            then show ?thesis using Some ActivationJoin r Inr settled_stop[OF ok] by (simp add: recheckJoin_def jp)
          next
            case nab: False
            then show ?thesis using Some ActivationJoin r Inr False res same by (simp add: recheckJoin_def jp)
          qed
        qed
      qed
    qed
  qed
qed

lemma settled_other:
  assumes "settled g ge n st st'" and "ls_parked (snd st') \<noteq> []" and "\<not> due g ge m st"
  shows "\<not> due g ge m st'"
proof (cases "m = n")
  case False
  then have eq: "occupied_nodes (snd st') = occupied_nodes (snd st)" "map_of (fst st') m = map_of (fst st) m"
    "in_transit m (snd st') = in_transit m (snd st)"
    using assms(1,2) by (auto simp: settled_def)
  show ?thesis using assms(3) unfolding due_def eq .
qed (use assms in \<open>auto simp: settled_def\<close>)

lemma recheck_loop_clears:
  assumes "join_ok st" and "\<forall>n\<in>set seen. \<not> due g ge n st" and "(t, n) \<in> set (ls_parked (snd (recheck_loop g ge h seen es st)))"
    and "set (ls_parked (snd st)) \<subseteq> set es \<union> {e. snd e \<in> set seen}"
  shows "\<not> due g ge n (recheck_loop g ge h seen es st)"
  using assms
proof (induction es arbitrary: seen st)
  case Nil
  then show ?case by auto
next
  case (Cons e es)
  obtain u k where e: "e = (u, k)" by (cases e)
  show ?case
  proof (cases "\<not> has_key u (ls_parked (snd st)) \<or> k \<in> set seen")
    case True
    have "set (ls_parked (snd st)) \<subseteq> set es \<union> {e. snd e \<in> set seen}"
      using Cons.prems(4) True by (force simp: e has_key_def image_iff)
    then show ?thesis using Cons.IH[OF Cons.prems(1,2)] Cons.prems(3) True by (simp add: e)
  next
    case False
    let ?st = "recheckJoin g ge h k st"
    have se: "settled g ge k st ?st" using recheckJoin_settles[of "fst st" "snd st"] Cons.prems(1) by simp
    have eq: "recheck_loop g ge h seen (e # es) st = recheck_loop g ge h (k # seen) es ?st" using False by (simp add: e)
    have ok: "join_ok ?st" using se by (simp add: settled_def)
    show ?thesis
    proof (cases "ls_parked (snd ?st) = []")
      case True
      have "recheck_loop g ge h (k # seen) es ?st = ?st" using True by (induction es) auto
      then show ?thesis using Cons.prems(3) True unfolding eq by simp
    next
      case ne: False
      have "\<forall>m\<in>set (k # seen). \<not> due g ge m ?st"
        using se ne settled_other[OF se ne] Cons.prems(2) by (auto simp: settled_def)
      moreover have "set (ls_parked (snd ?st)) \<subseteq> set es \<union> {e. snd e \<in> set (k # seen)}"
        using se Cons.prems(4) by (auto simp: settled_def e)
      ultimately show ?thesis using Cons.IH[OF ok] Cons.prems(3) unfolding eq by blast
    qed
  qed
qed

section \<open>What the join plane guarantees\<close>


lemma signal_park_track:
  "track_of ls t = Some tr \<Longrightarrow> tk_parkCh tr = 0 \<Longrightarrow>
     signal_park t ls = upd_track t (\<lambda>tr. tr\<lparr>tk_parkCh := Suc (tk_parkCh tr)\<rparr>) ls"
  by (simp add: signal_park_def)

definition merged_into :: "track_id \<Rightarrow> ('c, 'p) track \<Rightarrow> ('c, 'p) track" where
  "merged_into s m = (updateState TrackMerged (m\<lparr>tk_mergedInto := Some s\<rparr>))\<lparr>tk_parkCh := 1\<rparr>"

lemma applyMerged_tracks:
  assumes "distinct ids" and "\<forall>i\<in>set ids. \<exists>tr. track_of ls i = Some tr \<and> tk_parkCh tr = 0"
  shows "track_of (applyMerged s ids ls) i = (if i \<in> set ids then map_option (merged_into s) (track_of ls i) else track_of ls i)
    \<and> ls_loop (applyMerged s ids ls) = ls_loop ls"
  using assms
proof (induction ids arbitrary: ls)
  case (Cons k ids)
  obtain tr where tr: "track_of ls k = Some tr" "tk_parkCh tr = 0" using Cons.prems(2) by auto
  let ?f = "\<lambda>m. updateState TrackMerged (m\<lparr>tk_mergedInto := Some s\<rparr>)"
  let ?ls0 = "clearPosition k (upd_track k ?f ls)"
  have f: "track_of ?ls0 k = Some (?f tr)" "tk_parkCh (?f tr) = 0" using tr by (simp_all add: updateState_def)
  let ?ls = "upd_track k (\<lambda>tr. tr\<lparr>tk_parkCh := Suc (tk_parkCh tr)\<rparr>) ?ls0"
  have eq: "applyMerged s (k # ids) ls = applyMerged s ids ?ls" using tr(1) signal_park_track[OF f] by simp
  have k: "track_of ?ls j = (if j = k then Some (merged_into s tr) else track_of ls j)" for j
    using tr by (simp add: merged_into_def updateState_def)
  have pre: "\<forall>i\<in>set ids. \<exists>tr. track_of ?ls i = Some tr \<and> tk_parkCh tr = 0"
    using Cons.prems unfolding k by auto
  have "track_of (applyMerged s ids ?ls) i = (if i \<in> set ids then map_option (merged_into s) (track_of ?ls i) else track_of ?ls i)
      \<and> ls_loop (applyMerged s ids ?ls) = ls_loop ?ls"
    by (rule Cons.IH) (use Cons.prems(1) pre in simp_all)
  then show ?case unfolding eq k using Cons.prems(1) tr by auto
qed simp

text \<open>
  A join that fires resumes exactly one token: the survivor is signalled and keeps its
  state and its position, every other recorded track is merged into it, signalled, and taken out of
  the positions and the parked tracks, nothing else is touched, and no signal blocks the loop.
\<close>

theorem join_fire_resumes_one:
  assumes "distinct (s # m)" and "\<forall>i\<in>set (s # m). \<exists>tr. track_of ls i = Some tr \<and> tk_parkCh tr = 0"
    and "ls' = fireOrJoin s m ls"
  shows "track_of ls' i =
      (if i = s then map_option (\<lambda>tr. tr\<lparr>tk_parkCh := 1\<rparr>) (track_of ls i)
       else if i \<in> set m then map_option (merged_into s) (track_of ls i)
       else track_of ls i)
    \<and> map_of (ls_position ls') i = (if i \<in> set m then None else map_of (ls_position ls) i)
    \<and> map_of (ls_parked ls') i = (if i \<in> set m then None else map_of (ls_parked ls) i)
    \<and> ls_loop ls' = ls_loop ls"
proof -
  obtain tr where tr: "track_of ls s = Some tr" "tk_parkCh tr = 0" using assms(2) by auto
  have pre: "distinct m" "\<forall>i\<in>set m. \<exists>tr. track_of ls i = Some tr \<and> tk_parkCh tr = 0" "s \<notin> set m" using assms(1,2) by auto
  note am = applyMerged_tracks[OF pre(1,2), of s]
  have s: "track_of (applyMerged s m ls) s = Some tr" using am[of s] tr pre(3) by simp
  have eq: "ls' = upd_track s (\<lambda>tr. tr\<lparr>tk_parkCh := Suc (tk_parkCh tr)\<rparr>) (applyMerged s m ls)"
    using tr(1) signal_park_track[OF s tr(2)] by (simp add: assms(3) fireOrJoin_def)
  have kn: "known ls m = set m" using pre(2) by (auto simp: known_def)
  note fr = applyMerged_frame[of s m ls, unfolded kn]
  show ?thesis using am[of i] s tr fr pre(3) by (auto simp: eq map_of_filter_fst)
qed

text \<open>
  An OR-join \<open>j\<close> that has \<open>t1\<close> parked and waits for a token on the flow from \<open>b\<close>; \<open>t2\<close> is at \<open>n\<close>.
\<close>

definition ex_loop :: "node_id \<Rightarrow> (unit, unit) loop_state" where
  "ex_loop n = \<lparr>ls_tracks = [(''t1'', sample_track\<lparr>tk_state := TrackAwaitSync\<rparr>), (''t2'', sample_track)], ls_waiting = [],
     ls_msgIdx = [], ls_position = [(''t1'', ''j''), (''t2'', n)], ls_parked = [(''t1'', ''j'')],
     ls_watchers = [], ls_tasks = [], ls_jobs = [], ls_calls = [], ls_scopeHandlers = [], ls_scopeInterrupted = [],
     ls_scopes = [], ls_miGroups = [], ls_sweeps = [], ls_conds = [], ls_active = 2, ls_stopping = False,
     ls_dehydrating = False, ls_state = Active, ls_lastErr = None, ls_keys = [], ls_log = [], ls_loop = LoopRunning,
     ls_nextPtr = 0\<rparr>"

definition ex_plane :: "node_id \<Rightarrow> (bool, unit, unit) join_plane" where
  "ex_plane n = ([(''j'', ReachabilityJoin ex_inc)], ex_loop n)"

lemma ex_plane_ok: "join_ok (ex_plane n)"
  by (simp add: join_ok_def ex_plane_def ex_loop_def ex_inc_def)

lemma ex_due: "due [] Inr ''j'' (ex_plane ''z'')" "\<not> due [] Inr ''j'' (ex_plane ''b'')"
  by code_simp+


theorem join_fire_resumes_one_witness:
  "map_of (ls_position (fireOrJoin ''t1'' [''t2''] (ex_loop ''j''))) ''t2'' = None \<and>
   ls_loop (fireOrJoin ''t1'' [''t2''] (ex_loop ''j'')) = LoopRunning"
  using join_fire_resumes_one[of "''t1''" "[''t2'']" "ex_loop ''j''" _ "''t2''", OF _ _ refl]
  by (simp add: ex_loop_def sample_track_def)

text \<open>
  A token that moves away from the paths to a join makes the join due just as its end does, but the
  handler of the move does not recheck the parked joins: the join goes on holding its parked track
  until some other token ends, merges or parks.
\<close>

theorem moving_away_not_rechecked:
  "\<exists>(st :: (bool, unit, unit) join_plane) t n. join_ok st \<and> \<not> due [] Inr ''j'' st \<and>
     (let st' = (fst st, move_position t n (snd st))
      in join_ok st' \<and> due [] Inr ''j'' st' \<and> ls_parked (snd st') = [(''t1'', ''j'')])"
proof (intro exI conjI)
  have mv: "(fst (ex_plane ''b''), move_position ''t2'' ''z'' (snd (ex_plane ''b''))) = ex_plane ''z''"
    by (simp add: ex_plane_def move_position_def ex_loop_def)
  show "join_ok (ex_plane ''b'')" "\<not> due [] Inr ''j'' (ex_plane ''b'')" by (rule ex_plane_ok ex_due(2))+
  show "let st' = (fst (ex_plane ''b''), move_position ''t2'' ''z'' (snd (ex_plane ''b'')))
        in join_ok st' \<and> due [] Inr ''j'' st' \<and> ls_parked (snd st') = [(''t1'', ''j'')]"
    unfolding mv Let_def using ex_plane_ok ex_due(1) by (simp add: ex_plane_def ex_loop_def)
qed

end
