(* ===== verification/Store_Repo.thy ===== *)
theory Store_Repo
  imports Gobpm_Prelude "HOL-Library.Word" "HOL-Library.List_Lexorder" "HOL-Library.Char_ord"
begin

text \<open>
  The instance-checkpoint store (\<^verbatim>\<open>src/pkg/repository/repository.go\<close>) and its in-memory
  implementation (\<^verbatim>\<open>memrepo/memrepo.go\<close>): records under compare-and-set versions, ownership leases,
  the registry of engine groups, and the bounded set of terminal records.

  Every operation runs under the store's mutex, so it is one step on the store. A Go \<^verbatim>\<open>time.Time\<close> is
  the number of nanoseconds of its instant, \<^verbatim>\<open>int64\<close> a 64-bit word, the payload is opaque.
\<close>

section \<open>Records\<close>

datatype Status = StatusActive | StatusCompleted | StatusTerminated | StatusSuspended | StatusActiveIncidents

definition IsTerminal :: "Status \<Rightarrow> bool" where
  "IsTerminal s \<longleftrightarrow> s = StatusCompleted \<or> s = StatusTerminated"

record Lease =
  le_Expiry :: int
  le_Owner :: string
  le_Incarnation :: "64 word"

definition Expired :: "Lease \<Rightarrow> int \<Rightarrow> bool" where
  "Expired l now \<longleftrightarrow> le_Owner l = [] \<or> \<not> now < le_Expiry l"

record 'b InstanceRecord =
  ir_ID :: string
  ir_Payload :: 'b
  ir_Group :: string
  ir_Tenant :: string
  ir_Lease :: Lease
  ir_RecVersion :: "64 word"
  ir_Status :: Status

section \<open>The in-memory store\<close>

record 'b Repo =
  rp_records :: "(string \<times> 'b InstanceRecord) list"
  rp_groups :: "string list"
  rp_termSet :: "string list"
  rp_termOrder :: "string list"
  rp_maxTerminal :: int

definition Repo_New :: "int \<Rightarrow> 'b Repo" where
  "Repo_New maxTerminal =
     \<lparr>rp_records = [], rp_groups = [], rp_termSet = [], rp_termOrder = [], rp_maxTerminal = maxTerminal\<rparr>"

fun removeFirst :: "string list \<Rightarrow> string \<Rightarrow> string list" where
  "removeFirst [] v = []"
| "removeFirst (x # s) v = (if x = v then s else x # removeFirst s v)"

text \<open>The loop of \<^verbatim>\<open>evictTerminalLocked\<close> over the order in which records became terminal.\<close>

fun evict_loop :: "string list \<Rightarrow> 'b Repo \<Rightarrow> 'b Repo" where
  "evict_loop [] r = r\<lparr>rp_termOrder := []\<rparr>"
| "evict_loop (oldest # order) r =
     (if int (length (oldest # order)) > rp_maxTerminal r
      then evict_loop order (r\<lparr>rp_termSet := removeAll oldest (rp_termSet r),
                               rp_records := AList.delete oldest (rp_records r)\<rparr>)
      else r\<lparr>rp_termOrder := oldest # order\<rparr>)"

definition evictTerminalLocked :: "'b Repo \<Rightarrow> 'b Repo" where
  "evictTerminalLocked r = (if rp_maxTerminal r \<le> 0 then r else evict_loop (rp_termOrder r) r)"

definition Save :: "'b InstanceRecord \<Rightarrow> 'b Repo \<Rightarrow> 'b Repo \<times> unit result" where
  "Save rec r =
     (if ir_ID rec = [] then (r, Inl (AppError EmptyNotAllowed ''Save: a record needs an ID''))
      else if ir_Group rec = [] then (r, Inl (AppError EmptyNotAllowed ''Save: a record needs an engine group''))
      else if ir_Group rec \<notin> set (rp_groups r)
      then (r, Inl (AppError ObjectNotFound ''Save: engine group %q isn't registered''))
      else if (case map_of (rp_records r) (ir_ID rec) of None \<Rightarrow> False | Some cur \<Rightarrow> ir_RecVersion cur \<noteq> ir_RecVersion rec)
      then (r, Inl (AppError ConcurrentUpdate ''Save: the record changed under the writer''))
      else
        (let r1 = r\<lparr>rp_records := AList.update (ir_ID rec) (rec\<lparr>ir_RecVersion := ir_RecVersion rec + 1\<rparr>) (rp_records r)\<rparr>
         in (if IsTerminal (ir_Status rec)
             then (if ir_ID rec \<notin> set (rp_termSet r1)
                   then evictTerminalLocked (r1\<lparr>rp_termSet := ir_ID rec # rp_termSet r1,
                                                rp_termOrder := rp_termOrder r1 @ [ir_ID rec]\<rparr>)
                   else r1)
             else if ir_ID rec \<in> set (rp_termSet r1)
             then r1\<lparr>rp_termSet := removeAll (ir_ID rec) (rp_termSet r1),
                     rp_termOrder := removeFirst (rp_termOrder r1) (ir_ID rec)\<rparr>
             else r1, Inr ())))"

definition Load :: "string \<Rightarrow> 'b Repo \<Rightarrow> 'b InstanceRecord option" where
  "Load i r = map_of (rp_records r) i"

definition Delete :: "string \<Rightarrow> 'b Repo \<Rightarrow> 'b Repo" where
  "Delete i r =
     (let r1 = r\<lparr>rp_records := AList.delete i (rp_records r)\<rparr>
      in if i \<in> set (rp_termSet r1)
         then r1\<lparr>rp_termSet := removeAll i (rp_termSet r1), rp_termOrder := removeFirst (rp_termOrder r1) i\<rparr>
         else r1)"

definition claimable :: "string \<Rightarrow> int \<Rightarrow> 'b InstanceRecord \<Rightarrow> bool" where
  "claimable grp now rec \<longleftrightarrow>
     ir_Group rec = grp \<and> \<not> IsTerminal (ir_Status rec) \<and> ir_Status rec \<noteq> StatusSuspended \<and> Expired (ir_Lease rec) now"

definition ListInFlight :: "string \<Rightarrow> int \<Rightarrow> 'b Repo \<Rightarrow> string list result" where
  "ListInFlight grp now r =
     (if grp = [] then Inl (AppError EmptyNotAllowed ''ListInFlight: an engine group is required'')
      else Inr (sort (map fst (filter (\<lambda>(i, rec). claimable grp now rec) (rp_records r)))))"

definition RegisterGroup :: "string \<Rightarrow> 'b Repo \<Rightarrow> 'b Repo \<times> unit result" where
  "RegisterGroup grp r =
     (if grp = [] then (r, Inl (AppError EmptyNotAllowed ''RegisterGroup: an engine group is required''))
      else (r\<lparr>rp_groups := List.insert grp (rp_groups r)\<rparr>, Inr ()))"

definition GroupExists :: "string \<Rightarrow> 'b Repo \<Rightarrow> bool result" where
  "GroupExists grp r =
     (if grp = [] then Inl (AppError EmptyNotAllowed ''GroupExists: an engine group is required'')
      else Inr (grp \<in> set (rp_groups r)))"

section \<open>The invariant\<close>

text \<open>
  The eviction ledger lists every terminal record once, nothing else, and never more than the cap.
\<close>

definition repo_ok :: "'b Repo \<Rightarrow> bool" where
  "repo_ok r \<longleftrightarrow>
     distinct (map fst (rp_records r)) \<and> distinct (rp_termOrder r) \<and> set (rp_termSet r) = set (rp_termOrder r) \<and>
     set (rp_termOrder r) = {i. \<exists>rec. map_of (rp_records r) i = Some rec \<and> IsTerminal (ir_Status rec)} \<and>
     (0 < rp_maxTerminal r \<longrightarrow> int (length (rp_termOrder r)) \<le> rp_maxTerminal r) \<and>
     (\<forall>i rec. map_of (rp_records r) i = Some rec \<longrightarrow> ir_ID rec = i \<and> ir_Group rec \<in> set (rp_groups r))"

lemma removeFirst_set: "distinct s \<Longrightarrow> set (removeFirst s v) = set s - {v}"
  by (induction s) auto

lemma removeFirst_distinct: "distinct s \<Longrightarrow> distinct (removeFirst s v)"
  by (induction s) (auto simp: removeFirst_set)

lemma removeFirst_length: "length (removeFirst s v) \<le> length s"
  by (induction s) auto

lemma map_of_delete [simp]: "map_of (AList.delete k m) i = (if i = k then None else map_of m i)"
  by (simp add: delete_conv')

text \<open>What eviction keeps: the newest part of the ledger, and every record outside the rest.\<close>

definition without :: "string list \<Rightarrow> 'b Repo \<Rightarrow> 'b Repo" where
  "without gone r = r\<lparr>rp_termSet := filter (\<lambda>x. x \<notin> set gone) (rp_termSet r),
     rp_records := filter (\<lambda>e. fst e \<notin> set gone) (rp_records r)\<rparr>"

lemma without_Cons:
  "without gone (r\<lparr>rp_termSet := removeAll x (rp_termSet r), rp_records := AList.delete x (rp_records r)\<rparr>) = without (x # gone) r"
proof -
  have "AList.delete x m = filter (\<lambda>e. fst e \<noteq> x) m" for m :: "(string \<times> 'a InstanceRecord) list"
    unfolding AList.delete_eq by (rule filter_cong) auto
  moreover have "removeAll x xs = filter (\<lambda>y. y \<noteq> x) xs" for xs by (induction xs) auto
  ultimately show ?thesis by (simp add: without_def)
qed

lemma evict_loop_eq:
  assumes "0 < rp_maxTerminal r"
  shows "evict_loop order r =
    (without (take (length order - nat (rp_maxTerminal r)) order) r)
      \<lparr>rp_termOrder := drop (length order - nat (rp_maxTerminal r)) order\<rparr>"
  using assms
proof (induction order arbitrary: r)
  case (Cons old order)
  show ?case
  proof (cases "int (length (old # order)) > rp_maxTerminal r")
    case True
    then have k: "length (old # order) - nat (rp_maxTerminal r) = Suc (length order - nat (rp_maxTerminal r))" by auto
    show ?thesis using True Cons.IH Cons.prems unfolding k by (simp add: without_Cons)
  next
    case False
    then have "length (old # order) - nat (rp_maxTerminal r) = 0" by auto
    then show ?thesis using False by (simp add: without_def)
  qed
qed (simp add: without_def)

lemma map_of_without: "map_of (rp_records (without gone r)) i = (if i \<in> set gone then None else map_of (rp_records r) i)"
proof -
  have "map_of (filter (\<lambda>e. fst e \<notin> M) m) i = (if i \<in> M then None else map_of m i)" for M and m :: "(string \<times> 'a InstanceRecord) list"
    by (induction m) auto
  then show ?thesis by (simp add: without_def)
qed

definition terminal_ids :: "'b Repo \<Rightarrow> string set" where
  "terminal_ids r = {i. \<exists>rec. map_of (rp_records r) i = Some rec \<and> IsTerminal (ir_Status rec)}"

text \<open>The invariant without the cap, which holds between the append and the eviction.\<close>

definition ledger_ok :: "'b Repo \<Rightarrow> bool" where
  "ledger_ok r \<longleftrightarrow>
     distinct (map fst (rp_records r)) \<and> distinct (rp_termOrder r) \<and> set (rp_termSet r) = set (rp_termOrder r) \<and>
     set (rp_termOrder r) = terminal_ids r \<and>
     (\<forall>i rec. map_of (rp_records r) i = Some rec \<longrightarrow> ir_ID rec = i \<and> ir_Group rec \<in> set (rp_groups r))"

lemma repo_ok_ledger: "repo_ok r \<longleftrightarrow> ledger_ok r \<and> (0 < rp_maxTerminal r \<longrightarrow> int (length (rp_termOrder r)) \<le> rp_maxTerminal r)"
  by (auto simp: repo_ok_def ledger_ok_def terminal_ids_def)

lemma evict_ok:
  assumes "ledger_ok r" shows "repo_ok (evictTerminalLocked r)"
proof (cases "rp_maxTerminal r \<le> 0")
  case True
  then show ?thesis using assms by (simp add: evictTerminalLocked_def repo_ok_ledger)
next
  case False
  let ?k = "length (rp_termOrder r) - nat (rp_maxTerminal r)"
  let ?gone = "take ?k (rp_termOrder r)" and ?kept = "drop ?k (rp_termOrder r)"
  have eq: "evictTerminalLocked r = (without ?gone r)\<lparr>rp_termOrder := ?kept\<rparr>"
    using False evict_loop_eq[of r "rp_termOrder r"] by (simp add: evictTerminalLocked_def)
  have split: "set (rp_termOrder r) = set ?gone \<union> set ?kept" "set ?gone \<inter> set ?kept = {}"
    using assms append_take_drop_id[of ?k "rp_termOrder r"] unfolding ledger_ok_def
    by (metis set_append, metis distinct_append)
  have "terminal_ids (without ?gone r) = terminal_ids r - set ?gone"
    by (auto simp: terminal_ids_def map_of_without)
  moreover have "terminal_ids ((without ?gone r)\<lparr>rp_termOrder := ?kept\<rparr>) = terminal_ids (without ?gone r)"
    by (simp add: terminal_ids_def)
  ultimately have "set ?kept = terminal_ids ((without ?gone r)\<lparr>rp_termOrder := ?kept\<rparr>)"
    using assms split by (auto simp: ledger_ok_def)
  moreover have "int (length ?kept) \<le> rp_maxTerminal r" using False by simp
  moreover have "set (rp_termSet (without ?gone r)) = set ?kept"
    using assms split by (auto simp: ledger_ok_def without_def)
  moreover have "distinct (map fst (rp_records (without ?gone r)))" "rp_groups (without ?gone r) = rp_groups r"
    "rp_maxTerminal (without ?gone r) = rp_maxTerminal r"
    using assms by (simp_all add: ledger_ok_def without_def distinct_map_filter)
  moreover have "ir_ID rec = i \<and> ir_Group rec \<in> set (rp_groups r)" if "map_of (rp_records (without ?gone r)) i = Some rec" for i rec
    using that assms by (auto simp: map_of_without ledger_ok_def split: if_splits)
  moreover have "distinct ?kept" using assms by (simp add: ledger_ok_def)
  ultimately show ?thesis unfolding eq repo_ok_ledger ledger_ok_def by simp
qed

lemma ledger_okD:
  assumes "ledger_ok r"
  shows "distinct (map fst (rp_records r))" and "distinct (rp_termOrder r)" and "set (rp_termSet r) = set (rp_termOrder r)"
    and "set (rp_termOrder r) = terminal_ids r"
    and "map_of (rp_records r) i = Some rec \<Longrightarrow> ir_ID rec = i \<and> ir_Group rec \<in> set (rp_groups r)"
  using assms by (auto simp: ledger_ok_def)

lemma Save_cases:
  obtains (refused) e where "Save rec r = (r, Inl e)"
  | (stored) r1 where "ir_ID rec \<noteq> []" "ir_Group rec \<in> set (rp_groups r)"
      "r1 = r\<lparr>rp_records := AList.update (ir_ID rec) (rec\<lparr>ir_RecVersion := ir_RecVersion rec + 1\<rparr>) (rp_records r)\<rparr>"
      "\<And>cur. map_of (rp_records r) (ir_ID rec) = Some cur \<Longrightarrow> ir_RecVersion cur = ir_RecVersion rec"
      "Save rec r =
        (if IsTerminal (ir_Status rec)
         then (if ir_ID rec \<notin> set (rp_termSet r)
               then evictTerminalLocked (r1\<lparr>rp_termSet := ir_ID rec # rp_termSet r, rp_termOrder := rp_termOrder r @ [ir_ID rec]\<rparr>)
               else r1)
         else if ir_ID rec \<in> set (rp_termSet r)
         then r1\<lparr>rp_termSet := removeAll (ir_ID rec) (rp_termSet r), rp_termOrder := removeFirst (rp_termOrder r) (ir_ID rec)\<rparr>
         else r1, Inr ())"
proof (cases "ir_ID rec = [] \<or> ir_Group rec \<notin> set (rp_groups r) \<or> ir_Group rec = [] \<or>
    (case map_of (rp_records r) (ir_ID rec) of None \<Rightarrow> False | Some cur \<Rightarrow> ir_RecVersion cur \<noteq> ir_RecVersion rec)")
  case True
  then have "\<exists>e. Save rec r = (r, Inl e)" by (auto simp: Save_def)
  then show ?thesis using refused by blast
next
  case False
  then have "\<And>cur. map_of (rp_records r) (ir_ID rec) = Some cur \<Longrightarrow> ir_RecVersion cur = ir_RecVersion rec" by auto
  moreover have "ir_ID rec \<noteq> []" "ir_Group rec \<in> set (rp_groups r)" using False by auto
  ultimately show ?thesis by (intro stored[OF _ _ refl]) (use False in \<open>simp_all add: Save_def Let_def\<close>)
qed

lemma Save_ok:
  assumes "repo_ok r" shows "repo_ok (fst (Save rec r))"
proof (cases rule: Save_cases[of rec r])
  case (refused e)
  then show ?thesis using assms by simp
next
  case (stored r1)
  let ?i = "ir_ID rec"
  have led: "ledger_ok r" and cap: "0 < rp_maxTerminal r \<Longrightarrow> int (length (rp_termOrder r)) \<le> rp_maxTerminal r"
    using assms by (auto simp: repo_ok_ledger)
  note ok = ledger_okD[OF led]
  have m: "map_of (rp_records r1) = (map_of (rp_records r))(?i \<mapsto> rec\<lparr>ir_RecVersion := ir_RecVersion rec + 1\<rparr>)"
    by (simp add: stored(3) update_conv')
  have dist: "distinct (map fst (rp_records r1))" using ok(1) by (simp add: stored(3) distinct_update)
  have own: "ir_ID v = i \<and> ir_Group v \<in> set (rp_groups r)" if "map_of (rp_records r1) i = Some v" for i v
    using that stored(2) ok(5)[of i v] by (auto simp: m split: if_splits)
  have tids: "terminal_ids r1 = (if IsTerminal (ir_Status rec) then insert ?i (terminal_ids r) else terminal_ids r - {?i})"
    by (auto simp: terminal_ids_def m)
  have ids: "terminal_ids (r1\<lparr>rp_termSet := a, rp_termOrder := b\<rparr>) = terminal_ids r1" for a b by (simp add: terminal_ids_def)
  have fr: "rp_groups r1 = rp_groups r" "rp_maxTerminal r1 = rp_maxTerminal r" "rp_termOrder r1 = rp_termOrder r"
    "rp_termSet r1 = rp_termSet r" by (simp_all add: stored(3))
  show ?thesis
  proof (cases "IsTerminal (ir_Status rec)")
    case True
    show ?thesis
    proof (cases "?i \<in> set (rp_termSet r)")
      case tracked: True
      then show ?thesis unfolding stored(5) using True ok cap dist own tids fr
        by (auto simp: repo_ok_ledger ledger_ok_def insert_absorb)
    next
      case untracked: False
      have "ledger_ok (r1\<lparr>rp_termSet := ?i # rp_termSet r, rp_termOrder := rp_termOrder r @ [?i]\<rparr>)"
        unfolding ledger_ok_def ids using True untracked ok dist own tids fr by auto
      from evict_ok[OF this] show ?thesis unfolding stored(5) using True untracked by simp
    qed
  next
    case False
    show ?thesis
    proof (cases "?i \<in> set (rp_termSet r)")
      case True
      have "int (length (removeFirst (rp_termOrder r) ?i)) \<le> rp_maxTerminal r" if "0 < rp_maxTerminal r"
        using cap[OF that] removeFirst_length[of "rp_termOrder r" ?i] by linarith
      then show ?thesis unfolding stored(5) repo_ok_ledger ledger_ok_def
        using True False ok dist own tids fr ids by (simp add: removeFirst_set removeFirst_distinct)
    next
      case untracked: False
      then have "terminal_ids r - {?i} = terminal_ids r" using ok(3,4) by auto
      then show ?thesis unfolding stored(5) using untracked False ok cap dist own tids fr by (simp add: repo_ok_ledger ledger_ok_def)
    qed
  qed
qed

lemma Delete_ok:
  assumes "repo_ok r" shows "repo_ok (Delete i r)"
proof -
  have led: "ledger_ok r" and cap: "0 < rp_maxTerminal r \<Longrightarrow> int (length (rp_termOrder r)) \<le> rp_maxTerminal r"
    using assms by (auto simp: repo_ok_ledger)
  note ok = ledger_okD[OF led]
  let ?r1 = "r\<lparr>rp_records := AList.delete i (rp_records r)\<rparr>"
  have tids: "terminal_ids (?r1\<lparr>rp_termSet := a, rp_termOrder := b\<rparr>) = terminal_ids r - {i}" "terminal_ids ?r1 = terminal_ids r - {i}" for a b
    by (auto simp: terminal_ids_def)
  have dist: "distinct (map fst (AList.delete i (rp_records r)))" using ok(1) by (simp add: distinct_delete)
  show ?thesis
  proof (cases "i \<in> set (rp_termSet r)")
    case True
    have "int (length (removeFirst (rp_termOrder r) i)) \<le> rp_maxTerminal r" if "0 < rp_maxTerminal r"
      using cap[OF that] removeFirst_length[of "rp_termOrder r" i] by linarith
    then show ?thesis using True ok dist tids unfolding Delete_def Let_def repo_ok_ledger ledger_ok_def
      by (simp add: removeFirst_set removeFirst_distinct)
  next
    case False
    then have "terminal_ids r - {i} = terminal_ids r" using ok(3,4) by auto
    then show ?thesis using False ok cap dist tids unfolding Delete_def Let_def repo_ok_ledger ledger_ok_def by simp
  qed
qed

lemma RegisterGroup_ok: "repo_ok r \<Longrightarrow> repo_ok (fst (RegisterGroup g r))"
  by (auto simp: RegisterGroup_def repo_ok_def)

section \<open>The contract of a checkpoint store\<close>

text \<open>
  The fencing that \<^verbatim>\<open>repository.Repository\<close> promises its callers: a successful save advances the stored
  version past the one the writer read, and a writer whose version is not the stored one is refused
  without effect.
\<close>

locale checkpoint_store =
  fixes save :: "'r \<Rightarrow> 's \<Rightarrow> 's \<times> unit result"
    and load :: "string \<Rightarrow> 's \<Rightarrow> 'r option"
    and inv :: "'s \<Rightarrow> bool"
    and rid :: "'r \<Rightarrow> string"
    and ver :: "'r \<Rightarrow> 64 word"
  assumes save_inv: "inv s \<Longrightarrow> inv (fst (save r s))"
    and save_advances: "inv s \<Longrightarrow> save r s = (s', Inr ()) \<Longrightarrow> \<exists>c. load (rid r) s' = Some c \<and> ver c = ver r + 1"
    and save_fences: "load (rid r) s = Some c \<Longrightarrow> ver c \<noteq> ver r \<Longrightarrow> \<exists>e. save r s = (s, Inl e)"
begin

text \<open>Of two writers that read the same version, the second is refused.\<close>

lemma one_winner:
  assumes "inv s" and "save a s = (s', Inr ())" and "rid b = rid a" and "ver b = ver a"
  shows "\<exists>e. save b s' = (s', Inl e)"
proof -
  obtain c where "load (rid b) s' = Some c" "ver c = ver b + 1" using save_advances[OF assms(1,2)] assms(3,4) by auto
  moreover have "ver b + 1 \<noteq> ver b" by simp
  ultimately show ?thesis using save_fences by simp
qed

text \<open>The winner may go on: its own next save, at the version it got back, is not fenced off.\<close>

lemma winner_reads_back:
  assumes "inv s" and "save a s = (s', Inr ())"
  shows "\<exists>c. load (rid a) s' = Some c \<and> ver c \<noteq> ver a"
  using save_advances[OF assms] by auto

end

lemma Save_loads:
  assumes "repo_ok r" and "Save rec r = (r', Inr ())"
  shows "Load (ir_ID rec) r' = Some (rec\<lparr>ir_RecVersion := ir_RecVersion rec + 1\<rparr>)"
    and "Load j r = Some c \<Longrightarrow> \<not> IsTerminal (ir_Status c) \<Longrightarrow> j \<noteq> ir_ID rec \<Longrightarrow> Load j r' = Some c"
proof -
  have led: "ledger_ok r" using assms(1) by (simp add: repo_ok_ledger)
  note ok = ledger_okD[OF led]
  have "Load (ir_ID rec) r' = Some (rec\<lparr>ir_RecVersion := ir_RecVersion rec + 1\<rparr>) \<and>
    (Load j r = Some c \<longrightarrow> \<not> IsTerminal (ir_Status c) \<longrightarrow> j \<noteq> ir_ID rec \<longrightarrow> Load j r' = Some c)"
  proof (cases rule: Save_cases[of rec r])
    case (refused e)
    then show ?thesis using assms(2) by simp
  next
    case (stored r1)
    let ?i = "ir_ID rec"
    have m: "map_of (rp_records r1) = (map_of (rp_records r))(?i \<mapsto> rec\<lparr>ir_RecVersion := ir_RecVersion rec + 1\<rparr>)"
      by (simp add: stored(3) update_conv')
    show ?thesis
    proof (cases "IsTerminal (ir_Status rec) \<and> ?i \<notin> set (rp_termSet r) \<and> 0 < rp_maxTerminal r")
      case False
      then have "rp_records r' = rp_records r1"
        using stored(3,5) assms(2) by (auto simp: evictTerminalLocked_def split: if_splits)
      then show ?thesis using m by (simp add: Load_def)
    next
      case True
      let ?o = "rp_termOrder r @ [?i]" and ?r = "r1\<lparr>rp_termSet := ?i # rp_termSet r, rp_termOrder := rp_termOrder r @ [?i]\<rparr>"
      have mx: "rp_maxTerminal ?r = rp_maxTerminal r" "rp_records ?r = rp_records r1" by (simp_all add: stored(3))
      have "r' = evict_loop ?o ?r" using stored(5) assms(2) True mx(1) by (simp add: evictTerminalLocked_def)
      then have r': "rp_records r' = rp_records (without (take (length ?o - nat (rp_maxTerminal r)) ?o) ?r)"
        using evict_loop_eq[of ?r ?o] True mx(1) by simp
      have gone: "set (take (length ?o - nat (rp_maxTerminal r)) ?o) \<subseteq> set (rp_termOrder r)"
        using True by (auto dest: in_set_takeD)
      have "?i \<notin> set (rp_termOrder r)" using True ok(3) by auto
      moreover have "j \<notin> set (rp_termOrder r)" if "map_of (rp_records r) j = Some c" "\<not> IsTerminal (ir_Status c)"
        using that ok(4) by (auto simp: terminal_ids_def)
      ultimately show ?thesis using gone by (auto simp: Load_def r' map_of_without mx(2) m)
    qed
  qed
  then show "Load (ir_ID rec) r' = Some (rec\<lparr>ir_RecVersion := ir_RecVersion rec + 1\<rparr>)"
    and "Load j r = Some c \<Longrightarrow> \<not> IsTerminal (ir_Status c) \<Longrightarrow> j \<noteq> ir_ID rec \<Longrightarrow> Load j r' = Some c"
    by blast+
qed

interpretation memrepo: checkpoint_store Save Load repo_ok ir_ID ir_RecVersion
proof (unfold_locales, goal_cases)
  case (1 s r)
  then show ?case by (rule Save_ok)
next
  case (2 s r s')
  from Save_loads(1)[OF 2] show ?case by simp
next
  case (3 r s c)
  then show ?case by (auto simp: Save_def Load_def)
qed

section \<open>What the in-memory store guarantees\<close>

inductive repo_reach :: "'b Repo \<Rightarrow> bool" where
  new: "repo_reach (Repo_New n)"
| save: "repo_reach r \<Longrightarrow> repo_reach (fst (Save rec r))"
| del: "repo_reach r \<Longrightarrow> repo_reach (Delete i r)"
| reg: "repo_reach r \<Longrightarrow> repo_reach (fst (RegisterGroup g r))"

lemma repo_reach_ok: "repo_reach r \<Longrightarrow> repo_ok r"
proof (induction rule: repo_reach.induct)
  case (new n)
  then show ?case by (auto simp: repo_ok_def Repo_New_def)
qed (simp_all add: Save_ok Delete_ok RegisterGroup_ok)

text \<open>
  Claim C20. Compare-and-set fences concurrent engines: in every reachable store, when two engines save
  the same instance at the version both have read, the first save wins and its record is what a load
  then returns, one version on, and the second is refused and changes nothing.
\<close>

theorem memrepo_one_winner:
  assumes "repo_reach r" and "Save a r = (r', Inr ())" and "ir_ID b = ir_ID a" and "ir_RecVersion b = ir_RecVersion a"
  shows "(\<exists>e. Save b r' = (r', Inl e)) \<and> Load (ir_ID a) r' = Some (a\<lparr>ir_RecVersion := ir_RecVersion a + 1\<rparr>)"
  using memrepo.one_winner[OF repo_reach_ok[OF assms(1)] assms(2-4)] Save_loads(1)[OF repo_reach_ok[OF assms(1)] assms(2)]
  by blast

text \<open>
  Under any sequence of saves, deletes and registrations the store never holds more terminal
  records than its cap, and making room never costs a running instance its checkpoint: a save leaves
  every non-terminal record of the other instances as it was.
\<close>

theorem memrepo_bounded_keeps_active:
  assumes "repo_reach r"
  shows "(0 < rp_maxTerminal r \<longrightarrow> int (card (terminal_ids r)) \<le> rp_maxTerminal r)
    \<and> (\<forall>rec j c. Load j r = Some c \<longrightarrow> \<not> IsTerminal (ir_Status c) \<longrightarrow> j \<noteq> ir_ID rec \<longrightarrow>
          Load j (fst (Save rec r)) = Some c)"
proof (intro conjI impI allI)
  note ok = repo_reach_ok[OF assms]
  then have led: "ledger_ok r" by (simp add: repo_ok_ledger)
  show "int (card (terminal_ids r)) \<le> rp_maxTerminal r" if "0 < rp_maxTerminal r"
    using ok that ledger_okD(2,4)[OF led] by (metis distinct_card repo_ok_ledger)
  fix rec c :: "'a InstanceRecord" and j
  assume a: "Load j r = Some c" "\<not> IsTerminal (ir_Status c)" "j \<noteq> ir_ID rec"
  show "Load j (fst (Save rec r)) = Some c"
  proof (cases rule: Save_cases[of rec r])
    case (refused e)
    then show ?thesis using a(1) by simp
  next
    case (stored r1)
    then have "Save rec r = (fst (Save rec r), Inr ())" by simp
    from Save_loads(2)[OF ok this a] show ?thesis .
  qed
qed

text \<open>
  The recovery listing of an engine group names exactly the instances of that group that are
  in flight, not suspended and under no live lease, each once and in ascending order.
\<close>

theorem memrepo_lists_claimable:
  assumes "repo_reach r" and "ListInFlight grp now r = Inr ids"
  shows "sorted ids \<and> distinct ids \<and> set ids = {i. \<exists>rec. Load i r = Some rec \<and> claimable grp now rec}"
proof -
  have d: "distinct (map fst (rp_records r))" using repo_reach_ok[OF assms(1)] by (simp add: repo_ok_def)
  have ids: "ids = sort (map fst (filter (\<lambda>(i, rec). claimable grp now rec) (rp_records r)))"
    using assms(2) by (auto simp: ListInFlight_def split: if_splits)
  have "set ids = fst ` {e \<in> set (rp_records r). claimable grp now (snd e)}" by (auto simp: ids)
  then show ?thesis using d by (auto simp: ids Load_def distinct_map_filter map_of_eq_Some_iff image_iff)
qed

text \<open>
  The doc of \<^verbatim>\<open>Save\<close> says that version 0 creates and that any other mismatch fails. The check is made only
  against a stored record: where there is none, every version is accepted, so a writer that still
  holds an old version brings back an instance that was deleted (or evicted) under it.
\<close>

lemma stale_save_recreates:
  assumes "Load (ir_ID rec) r = None" and "ir_ID rec \<noteq> []" and "ir_Group rec \<noteq> []" and "ir_Group rec \<in> set (rp_groups r)"
  shows "snd (Save rec r) = Inr ()"
  using assms by (simp add: Save_def Load_def Let_def)

definition sample_rec :: "string \<Rightarrow> 64 word \<Rightarrow> nat InstanceRecord" where
  "sample_rec i v = \<lparr>ir_ID = i, ir_Payload = 7, ir_Group = ''g'', ir_Tenant = [], ir_Lease = \<lparr>le_Expiry = 0, le_Owner = [], le_Incarnation = 0\<rparr>,
     ir_RecVersion = v, ir_Status = StatusActive\<rparr>"

definition sample_repo :: "nat Repo" where
  "sample_repo = fst (Save (sample_rec ''i1'' 0) (fst (RegisterGroup ''g'' (Repo_New 1))))"

lemma sample_repo_reach: "repo_reach sample_repo"
  unfolding sample_repo_def by (intro repo_reach.intros)

theorem memrepo_one_winner_witness:
  "\<exists>e. Save (sample_rec ''i1'' 1) (fst (Save (sample_rec ''i1'' 1) sample_repo)) = (fst (Save (sample_rec ''i1'' 1) sample_repo), Inl e)"
proof -
  have "snd (Save (sample_rec ''i1'' 1) sample_repo) = Inr ()" by code_simp
  then have "Save (sample_rec ''i1'' 1) sample_repo = (fst (Save (sample_rec ''i1'' 1) sample_repo), Inr ())"
    by (metis prod.collapse)
  from memrepo_one_winner[OF sample_repo_reach this, of "sample_rec ''i1'' 1"] show ?thesis by simp
qed

theorem memrepo_bounded_keeps_active_witness:
  "Load ''i1'' (fst (Save (sample_rec ''i2'' 0) sample_repo)) = Some (sample_rec ''i1'' 1)"
proof -
  have "Load ''i1'' sample_repo = Some (sample_rec ''i1'' 1)" by code_simp
  moreover have "\<not> IsTerminal (ir_Status (sample_rec ''i1'' 1))" "''i1'' \<noteq> ir_ID (sample_rec ''i2'' 0)" by code_simp+
  ultimately show ?thesis using memrepo_bounded_keeps_active[OF sample_repo_reach] by blast
qed

theorem memrepo_lists_claimable_witness: "{i. \<exists>rec. Load i sample_repo = Some rec \<and> claimable ''g'' 5 rec} = {''i1''}"
proof -
  have "ListInFlight ''g'' 5 sample_repo = Inr [''i1'']" by code_simp
  from memrepo_lists_claimable[OF sample_repo_reach this] show ?thesis by simp
qed

end
