(* ===== verification/Iso_Duration.thy ===== *)
theory Iso_Duration
  imports Go_Strings "HOL-Library.Word"
begin

text \<open>
  The ISO 8601 texts of timer definitions (\<^verbatim>\<open>src/pkg/iso8601\<close>): durations, bounded repetitions and
  date-times. A \<^verbatim>\<open>time.Duration\<close> is a signed 64-bit number of nanoseconds, so its arithmetic wraps.
  \<^verbatim>\<open>time.Parse\<close> is a parameter of \<open>ParseDateTime\<close>.
\<close>

section \<open>Cutting strings\<close>

definition Cut :: "char \<Rightarrow> string \<Rightarrow> string \<times> string \<times> bool" where
  "Cut c s = (if c \<in> set s then (takeWhile (\<lambda>x. x \<noteq> c) s, tl (dropWhile (\<lambda>x. x \<noteq> c) s), True) else (s, [], False))"

definition CutPrefix :: "string \<Rightarrow> string \<Rightarrow> string \<times> bool" where
  "CutPrefix p s = (if prefix p s then (drop (length p) s, True) else (s, False))"

lemma Cut_at: "c \<notin> set a \<Longrightarrow> Cut c (a @ c # b) = (a, b, True)"
  by (induction a) (auto simp: Cut_def)

lemma Cut_none: "c \<notin> set s \<Longrightarrow> Cut c s = (s, [], False)"
  by (simp add: Cut_def)

section \<open>Durations\<close>

type_synonym Duration = "64 word"

definition Second :: int where
  "Second = 1000000000"

type_synonym unit_def = "char \<times> int"

definition dateUnits :: "unit_def list" where
  "dateUnits = [(CHR ''W'', 7 * 24 * 3600 * Second), (CHR ''D'', 24 * 3600 * Second)]"

definition timeUnits :: "unit_def list" where
  "timeUnits = [(CHR ''H'', 3600 * Second), (CHR ''M'', 60 * Second), (CHR ''S'', Second)]"

definition iso_error :: "string \<Rightarrow> app_error" where
  "iso_error m = AppError Unclassified (''iso8601: '' @ m)"

definition parseCount :: "string \<Rightarrow> int result" where
  "parseCount digits =
     (if CHR ''.'' \<in> set digits \<or> CHR '','' \<in> set digits then Inl (iso_error ''fractional component'')
      else (case Atoi digits of
              None \<Rightarrow> Inl (iso_error ''no valid number'')
            | Some n \<Rightarrow> (if n < 0 then Inl (iso_error ''negative component'') else Inr n)))"

fun section_loop :: "unit_def list \<Rightarrow> string \<Rightarrow> Duration \<Rightarrow> (Duration \<times> string) result" where
  "section_loop [] rest dur = Inr (dur, rest)"
| "section_loop ((sfx, span) # us) rest dur =
     (case Cut sfx rest of
        (before, after, found) \<Rightarrow>
          (if \<not> found then section_loop us rest dur
           else (case parseCount before of
                   Inl e \<Rightarrow> Inl e
                 | Inr n \<Rightarrow> section_loop us after (dur + word_of_int n * word_of_int span))))"

definition parseSection :: "string \<Rightarrow> unit_def list \<Rightarrow> Duration result" where
  "parseSection sect units =
     (case section_loop units sect 0 of
        Inl e \<Rightarrow> Inl e
      | Inr (dur, rest) \<Rightarrow> (if rest \<noteq> [] then Inl (iso_error ''unparsed components'') else Inr dur))"

definition parseDatePart :: "string \<Rightarrow> Duration result" where
  "parseDatePart datePart =
     (if datePart = [] then Inr 0
      else if CHR ''Y'' \<in> set datePart \<or> CHR ''M'' \<in> set datePart then Inl (iso_error ''calendar designator'')
      else if CHR ''W'' \<in> set datePart \<and> last datePart \<noteq> CHR ''W'' then Inl (iso_error ''week form combined'')
      else parseSection datePart dateUnits)"

definition ParseDuration :: "string \<Rightarrow> Duration result" where
  "ParseDuration s =
     (case CutPrefix ''P'' s of
        (body, ok) \<Rightarrow>
          (if \<not> ok \<or> body = [] then Inl (iso_error ''not a duration'')
           else (case Cut (CHR ''T'') body of
                   (datePart, timePart, hasT) \<Rightarrow>
                     (if hasT \<and> timePart = [] then Inl (iso_error ''T with no time components'')
                      else (case parseDatePart datePart of
                              Inl e \<Rightarrow> Inl e
                            | Inr dur \<Rightarrow>
                                (case parseSection timePart timeUnits of
                                   Inl e \<Rightarrow> Inl e
                                 | Inr timeSpan \<Rightarrow>
                                     (if sint (dur + timeSpan) \<le> 0 then Inl (iso_error ''zero-length duration'')
                                      else Inr (dur + timeSpan))))))))"

section \<open>Repetitions and date-times\<close>

record Repeat =
  re_Interval :: Duration
  re_Count :: int

definition ParseRepeat :: "string \<Rightarrow> Repeat result" where
  "ParseRepeat s =
     (case CutPrefix ''R'' s of
        (body, ok) \<Rightarrow>
          (if \<not> ok then Inl (iso_error ''not a repeating interval'')
           else (case Cut (CHR ''/'') body of
                   (digits, durPart, found) \<Rightarrow>
                     (if \<not> found then Inl (iso_error ''no / separating the count'')
                      else if digits = [] then Inl (iso_error ''unbounded recurrence'')
                      else (case Atoi digits of
                              None \<Rightarrow> Inl (iso_error ''no valid repetition count'')
                            | Some count \<Rightarrow>
                                (if count < 1 then Inl (iso_error ''must fire at least once'')
                                 else (case ParseDuration durPart of
                                         Inl e \<Rightarrow> Inl e
                                       | Inr interval \<Rightarrow> Inr \<lparr>re_Interval = interval, re_Count = count\<rparr>)))))))"

datatype layout = RFC3339 | dateOnly

definition ParseDateTime :: "(layout \<Rightarrow> string \<Rightarrow> 't option) \<Rightarrow> string \<Rightarrow> 't result" where
  "ParseDateTime time_Parse s =
     (if s = [] then Inl (iso_error ''empty date-time'')
      else (case time_Parse RFC3339 s of
              Some t \<Rightarrow> Inr t
            | None \<Rightarrow> (case time_Parse dateOnly s of
                         Some t \<Rightarrow> Inr t
                       | None \<Rightarrow> Inl (iso_error ''not a date-time''))))"

section \<open>Writing durations\<close>

text \<open>A section is written from one optional count per unit.\<close>

fun render_section :: "(unit_def \<times> nat option) list \<Rightarrow> string" where
  "render_section [] = []"
| "render_section ((u, None) # cs) = render_section cs"
| "render_section ((u, Some n) # cs) = Itoa n @ fst u # render_section cs"

fun section_total :: "(unit_def \<times> nat option) list \<Rightarrow> int" where
  "section_total [] = 0"
| "section_total ((u, None) # cs) = section_total cs"
| "section_total ((u, Some n) # cs) = int n * snd u + section_total cs"

lemma Itoa_digit: "x \<in> set (Itoa n) \<Longrightarrow> is_digit x"
  using Itoa_digits[of n] by (simp add: list_all_iff)

lemma parseCount_Itoa: "n < 2 ^ 63 \<Longrightarrow> parseCount (Itoa n) = Inr (int n)"
proof -
  have "CHR ''.'' \<notin> set (Itoa n)" "CHR '','' \<notin> set (Itoa n)"
    using Itoa_digit[of "CHR ''.''" n] Itoa_digit[of "CHR '',''" n] by (auto simp: is_digit_def byte_def)
  then show "n < 2 ^ 63 \<Longrightarrow> ?thesis" by (simp add: parseCount_def Atoi_Itoa)
qed

lemma render_chars: "x \<in> set (render_section cs) \<Longrightarrow> is_digit x \<or> x \<in> fst ` fst ` set cs"
  by (induction cs rule: render_section.induct) (auto dest: Itoa_digit)

lemma section_loop_render:
  assumes "distinct (map (fst \<circ> fst) cs)" and "\<forall>u\<in>fst ` set cs. \<not> is_digit (fst u)"
    and "\<forall>c\<in>set cs. \<forall>n. snd c = Some n \<longrightarrow> n < 2 ^ 63"
  shows "section_loop (map fst cs) (render_section cs) dur = Inr (dur + word_of_int (section_total cs), [])"
  using assms
proof (induction cs arbitrary: dur rule: render_section.induct)
  case (2 u cs)
  obtain c sp where u: "u = (c, sp)" by (cases u)
  have "c \<notin> set (render_section cs)" using 2(2,3) render_chars[of c cs] by (force simp: u)
  then show ?case using 2 by (simp add: u Cut_none)
next
  case (3 u n cs)
  obtain c sp where u: "u = (c, sp)" by (cases u)
  have "c \<notin> set (Itoa n)" using 3(3) Itoa_digit[of c n] by (auto simp: u)
  then have "Cut c (Itoa n @ c # render_section cs) = (Itoa n, render_section cs, True)" by (rule Cut_at)
  moreover have "parseCount (Itoa n) = Inr (int n)" using 3(4) by (intro parseCount_Itoa) auto
  ultimately show ?case using 3 by (simp add: u add.assoc)
qed simp

text \<open>
  The text of a duration: days, and an optional time part of hours, minutes and seconds.
\<close>

definition date_counts :: "nat option \<Rightarrow> (unit_def \<times> nat option) list" where
  "date_counts d = zip dateUnits [None, d]"

definition time_counts :: "nat option \<Rightarrow> nat option \<Rightarrow> nat option \<Rightarrow> (unit_def \<times> nat option) list" where
  "time_counts h m s = zip timeUnits [h, m, s]"

definition render_duration :: "nat option \<Rightarrow> nat option \<Rightarrow> nat option \<Rightarrow> nat option \<Rightarrow> string" where
  "render_duration d h m s =
     ''P'' @ render_section (date_counts d) @
     (if h = None \<and> m = None \<and> s = None then [] else ''T'' @ render_section (time_counts h m s))"

definition nanoseconds :: "nat option \<Rightarrow> nat option \<Rightarrow> nat option \<Rightarrow> nat option \<Rightarrow> int" where
  "nanoseconds d h m s = section_total (date_counts d) + section_total (time_counts h m s)"

lemma letters_not_digits: "\<not> is_digit (CHR ''W'')" "\<not> is_digit (CHR ''D'')" "\<not> is_digit (CHR ''H'')" "\<not> is_digit (CHR ''M'')"
  "\<not> is_digit (CHR ''S'')" "\<not> is_digit (CHR ''T'')" "\<not> is_digit (CHR ''Y'')"
  by (simp_all add: is_digit_def byte_def)

lemma section_total_nonneg: "\<forall>u\<in>fst ` set cs. 0 \<le> snd u \<Longrightarrow> 0 \<le> section_total cs"
  by (induction cs rule: section_total.induct) auto

lemma section_total_bound:
  assumes "\<forall>u\<in>fst ` set cs. 1 \<le> snd u" and "section_total cs < 2 ^ 63" and "(u, Some n) \<in> set cs"
  shows "n < 2 ^ 63"
proof -
  have "int n \<le> section_total cs"
    using assms(1,3)
  proof (induction cs rule: section_total.induct)
    case (3 v k cs)
    have nn: "0 \<le> section_total cs" using 3(2) by (intro section_total_nonneg) force
    have "int k * 1 \<le> int k * snd v" using 3(2) by (intro mult_left_mono) auto
    moreover have "int n \<le> section_total cs" if "(u, Some n) \<in> set cs" using 3(1) 3(2) that by simp
    moreover have "0 \<le> int k * snd v" using 3(2) by (intro mult_nonneg_nonneg) auto
    ultimately show ?case using 3(3) nn by auto
  qed auto
  then have "int n < 2 ^ 63" using assms(2) by linarith
  then show ?thesis by (metis of_nat_less_iff of_nat_numeral of_nat_power)
qed

lemma units_ok:
  "distinct (map (fst \<circ> fst) (date_counts d))" "distinct (map (fst \<circ> fst) (time_counts h m s))"
  "\<forall>u\<in>fst ` set (date_counts d). \<not> is_digit (fst u) \<and> 1 \<le> snd u"
  "\<forall>u\<in>fst ` set (time_counts h m s). \<not> is_digit (fst u) \<and> 1 \<le> snd u"
  "map fst (date_counts d) = dateUnits" "map fst (time_counts h m s) = timeUnits"
  by (simp_all add: date_counts_def time_counts_def dateUnits_def timeUnits_def Second_def letters_not_digits)

lemma parseSection_render:
  assumes "map fst cs = us" and "distinct (map (fst \<circ> fst) cs)" and "\<forall>u\<in>fst ` set cs. \<not> is_digit (fst u) \<and> 1 \<le> snd u"
    and "section_total cs < 2 ^ 63"
  shows "parseSection (render_section cs) us = Inr (word_of_int (section_total cs))"
proof -
  have "n < 2 ^ 63" if "c \<in> set cs" "snd c = Some n" for c n
    using section_total_bound[of cs "fst c" n] assms(3,4) that by (metis prod.collapse)
  then show ?thesis using section_loop_render[of cs 0] assms(1-3) by (simp add: parseSection_def)
qed

lemma parseDatePart_render:
  assumes "section_total (date_counts d) < 2 ^ 63"
  shows "parseDatePart (render_section (date_counts d)) = Inr (word_of_int (section_total (date_counts d)))"
proof (cases d)
  case None
  then show ?thesis by (simp add: parseDatePart_def date_counts_def dateUnits_def)
next
  case (Some n)
  have r: "render_section (date_counts d) = Itoa n @ ''D''" by (simp add: Some date_counts_def dateUnits_def)
  have "CHR ''Y'' \<notin> set (Itoa n)" "CHR ''M'' \<notin> set (Itoa n)" "CHR ''W'' \<notin> set (Itoa n)"
    using Itoa_digit letters_not_digits by blast+
  then show ?thesis using parseSection_render[OF units_ok(5,1,3) assms] unfolding r by (simp add: parseDatePart_def)
qed

lemma sint_small: "0 < t \<Longrightarrow> t < 2 ^ 63 \<Longrightarrow> sint (word_of_int t :: 64 word) = t"
  by (simp add: sint_sbintrunc' signed_take_bit_int_eq_self)

text \<open>
  Claim C32. Every duration that fits is read back exactly: the text written from days, hours, minutes
  and seconds (any of them left out, not all), with a positive total below \<^verbatim>\<open>2^63\<close> nanoseconds, parses
  to that total; with a repetition count in front it parses to that
  count and that total.
\<close>

theorem duration_roundtrip:
  assumes "0 < nanoseconds d h m s" and "nanoseconds d h m s < 2 ^ 63" and "0 < n" and "n < 2 ^ 63"
  shows "ParseDuration (render_duration d h m s) = Inr (word_of_int (nanoseconds d h m s))
    \<and> ParseRepeat (''R'' @ Itoa n @ ''/'' @ render_duration d h m s) =
        Inr \<lparr>re_Interval = word_of_int (nanoseconds d h m s), re_Count = int n\<rparr>"
proof -
  let ?dc = "date_counts d" and ?tc = "time_counts h m s"
  have nn: "0 \<le> section_total ?dc" "0 \<le> section_total ?tc"
    using units_ok(3)[of d] units_ok(4)[of h m s] by (auto intro!: section_total_nonneg)
  then have lim: "section_total ?dc < 2 ^ 63" "section_total ?tc < 2 ^ 63" using assms(2) by (auto simp: nanoseconds_def)
  have dp: "parseDatePart (render_section ?dc) = Inr (word_of_int (section_total ?dc))" by (rule parseDatePart_render[OF lim(1)])
  have tp: "parseSection (render_section ?tc) timeUnits = Inr (word_of_int (section_total ?tc))"
    by (rule parseSection_render[OF units_ok(6,2,4) lim(2)])
  have noT: "CHR ''T'' \<notin> set (render_section ?dc)"
    using render_chars[of "CHR ''T''" ?dc] letters_not_digits by (auto simp: date_counts_def dateUnits_def)
  have sum: "word_of_int (section_total ?dc) + word_of_int (section_total ?tc) = (word_of_int (nanoseconds d h m s) :: 64 word)"
    by (simp add: nanoseconds_def)
  have pos: "\<not> sint (word_of_int (nanoseconds d h m s) :: 64 word) \<le> 0" using sint_small[OF assms(1,2)] assms(1) by simp
  have dur: "ParseDuration (render_duration d h m s) = Inr (word_of_int (nanoseconds d h m s))"
  proof (cases "h = None \<and> m = None \<and> s = None")
    case True
    then have tc: "render_section ?tc = []" by (simp add: time_counts_def timeUnits_def)
    have "render_section ?dc \<noteq> []"
      using assms(1) True by (cases d) (auto simp: nanoseconds_def date_counts_def time_counts_def dateUnits_def timeUnits_def)
    then show ?thesis
      using True Cut_none[OF noT] dp tp sum pos unfolding tc by (simp add: ParseDuration_def render_duration_def CutPrefix_def)
  next
    case False
    have "render_section ?tc \<noteq> []" using False by (cases h; cases m; cases s) (auto simp: time_counts_def timeUnits_def)
    moreover have "render_duration d h m s = ''P'' @ render_section ?dc @ ''T'' @ render_section ?tc"
      by (simp only: render_duration_def if_not_P[OF False])
    ultimately show ?thesis
      using Cut_at[OF noT, of "render_section ?tc"] dp tp sum pos by (simp add: ParseDuration_def CutPrefix_def)
  qed
  have "CHR ''/'' \<notin> set (Itoa n)" using Itoa_digit[of "CHR ''/''" n] by (auto simp: is_digit_def byte_def)
  from Cut_at[OF this, of "render_duration d h m s"] dur Itoa_digits[of n] Atoi_Itoa[OF assms(4)] assms(3)
  show ?thesis by (simp add: ParseRepeat_def CutPrefix_def)
qed

theorem duration_roundtrip_witness:
  "ParseDuration (render_duration (Some 1) (Some 2) None (Some 30)) = Inr (word_of_int (nanoseconds (Some 1) (Some 2) None (Some 30)))
   \<and> render_duration (Some 1) (Some 2) None (Some 30) = ''P1DT2H30S''"
proof -
  have "0 < nanoseconds (Some 1) (Some 2) None (Some 30)" "nanoseconds (Some 1) (Some 2) None (Some 30) < 2 ^ 63"
    by code_simp+
  moreover have "render_duration (Some 1) (Some 2) None (Some 30) = ''P1DT2H30S''" by code_simp
  ultimately show ?thesis using duration_roundtrip[of "Some 1" "Some 2" None "Some 30" 3] by simp
qed

text \<open>
  The product of a count and its unit is not checked for overflow: there are day counts whose
  duration exceeds 64 bits and wraps to a small positive number, which is returned as a success.
  \<^verbatim>\<open>P213504D\<close>, 584 years, parses to less than 26 minutes.
\<close>

theorem duration_overflow_accepted:
  "\<exists>dur. ParseDuration ''P213504D'' = Inr dur \<and> sint dur < 26 * 60 * Second \<and> nanoseconds (Some 213504) None None None > 2 ^ 63"
proof (intro exI conjI)
  have "Atoi ''213504'' = Some 213504" by (simp add: Atoi_def digits_val_def byte_def is_digit_def)
  then show "ParseDuration ''P213504D'' = Inr (1526290448384 :: 64 word)"
    by (simp add: ParseDuration_def CutPrefix_def Cut_def parseDatePart_def parseSection_def dateUnits_def timeUnits_def
        parseCount_def Second_def sint_sbintrunc')
  show "sint (1526290448384 :: 64 word) < 26 * 60 * Second" by (simp add: Second_def)
  show "nanoseconds (Some 213504) None None None > 2 ^ 63"
    by (simp add: nanoseconds_def date_counts_def time_counts_def dateUnits_def timeUnits_def Second_def)
qed

text \<open>A signed count is accepted although the doc says that any malformed input is rejected.\<close>

lemma signed_count_accepted: "ParseDuration ''P+5D'' = ParseDuration ''P5D''"
  by (simp add: ParseDuration_def CutPrefix_def Cut_def parseDatePart_def parseSection_def dateUnits_def timeUnits_def
      parseCount_def Atoi_def digits_val_def byte_def is_digit_def)

end
