(* ===== verification/Msg_Broker.thy ===== *)
theory Msg_Broker
  imports Gobpm_Prelude "HOL-Library.Multiset"
begin

text \<open>
  The in-memory message broker (\<^verbatim>\<open>src/pkg/messaging/membroker/membroker.go\<close>, contract in
  \<^verbatim>\<open>messaging/messagebroker.go\<close>): subscriptions with a key set and a buffered channel, most-specific
  routing, and the bounded inbox of undelivered messages.

  Every operation runs under the broker's mutex and is one step. A subscription is a Go pointer:
  \<open>bk_heap\<close> holds every subscription ever made, \<open>bk_subs\<close> the pointers of those registered, in order;
  a handle outlives its registration. A channel is its buffered content. \<open>receive\<close> is the consumer's
  side of the channel.
\<close>

section \<open>Envelopes and subscriptions\<close>

record 'm Envelope =
  en_Payload :: 'm
  en_Name :: string
  en_CorrelationKey :: string

record 'm subscription =
  sb_ch :: "'m Envelope list"
  sb_keys :: "string list"
  sb_name :: string

definition subBuffer :: nat where
  "subBuffer = 16"

definition keyed :: "'m subscription \<Rightarrow> bool" where
  "keyed s \<longleftrightarrow> length (sb_keys s) > 0"

definition matches :: "'m subscription \<Rightarrow> 'm Envelope \<Rightarrow> bool" where
  "matches s e \<longleftrightarrow>
     sb_name s = en_Name e \<and> (\<not> keyed s \<or> en_CorrelationKey e \<noteq> [] \<and> en_CorrelationKey e \<in> set (sb_keys s))"

definition trySend :: "'m subscription \<Rightarrow> 'm Envelope \<Rightarrow> 'm subscription option" where
  "trySend s e = (if length (sb_ch s) < subBuffer then Some (s\<lparr>sb_ch := sb_ch s @ [e]\<rparr>) else None)"

definition keySet :: "string list \<Rightarrow> string list" where
  "keySet keys = remdups (filter (\<lambda>k. k \<noteq> []) keys)"

section \<open>The broker\<close>

record 'm Broker =
  bk_inbox :: "'m Envelope list"
  bk_heap :: "(nat \<times> 'm subscription) list"
  bk_subs :: "nat list"
  bk_maxInbox :: int

definition Broker_New :: "int \<Rightarrow> 'm Broker" where
  "Broker_New maxInbox = \<lparr>bk_inbox = [], bk_heap = [], bk_subs = [], bk_maxInbox = maxInbox\<rparr>"

definition evictInboxLocked :: "'m Broker \<Rightarrow> 'm Broker" where
  "evictInboxLocked b =
     (if bk_maxInbox b \<le> 0 then b
      else b\<lparr>bk_inbox := drop (length (bk_inbox b) - nat (bk_maxInbox b)) (bk_inbox b)\<rparr>)"

definition bufferLocked :: "'m Envelope \<Rightarrow> 'm Broker \<Rightarrow> 'm Broker" where
  "bufferLocked msg b = evictInboxLocked (b\<lparr>bk_inbox := bk_inbox b @ [msg]\<rparr>)"

text \<open>
  One of the two loops of \<^verbatim>\<open>Publish\<close>: the first registered subscription that \<open>sel\<close> selects, that matches
  and whose channel takes the message; also whether any was selected and matched.
\<close>

fun route :: "('m subscription \<Rightarrow> bool) \<Rightarrow> 'm Envelope \<Rightarrow> (nat \<times> 'm subscription) list \<Rightarrow> nat list \<Rightarrow>
    (nat \<times> 'm subscription) list option \<times> bool" where
  "route sel msg heap [] = (None, False)"
| "route sel msg heap (p # ps) =
     (case map_of heap p of
        None \<Rightarrow> route sel msg heap ps
      | Some s \<Rightarrow>
          (if \<not> sel s \<or> \<not> matches s msg then route sel msg heap ps
           else (case trySend s msg of
                   Some s' \<Rightarrow> (Some (AList.update p s' heap), True)
                 | None \<Rightarrow> (fst (route sel msg heap ps), True))))"

definition Publish :: "bool \<Rightarrow> 'm Envelope \<Rightarrow> 'm Broker \<Rightarrow> 'm Broker result" where
  "Publish ctxErr msg b =
     (if ctxErr then Inl (AppError Unclassified ''context'')
      else (case route keyed msg (bk_heap b) (bk_subs b) of
              (Some heap, _) \<Rightarrow> Inr (b\<lparr>bk_heap := heap\<rparr>)
            | (None, keyedMatched) \<Rightarrow>
                (if keyedMatched then Inr (bufferLocked msg b)
                 else (case route (\<lambda>s. \<not> keyed s) msg (bk_heap b) (bk_subs b) of
                         (Some heap, _) \<Rightarrow> Inr (b\<lparr>bk_heap := heap\<rparr>)
                       | (None, _) \<Rightarrow> Inr (bufferLocked msg b)))))"

fun drain_loop :: "'m subscription \<Rightarrow> 'm Envelope list \<Rightarrow> 'm subscription \<times> 'm Envelope list" where
  "drain_loop s [] = (s, [])"
| "drain_loop s (e # es) =
     (case (if matches s e then trySend s e else None) of
        Some s' \<Rightarrow> drain_loop s' es
      | None \<Rightarrow> (case drain_loop s es of (s', kept) \<Rightarrow> (s', e # kept)))"

definition drainInboxLocked :: "nat \<Rightarrow> 'm subscription \<Rightarrow> 'm Broker \<Rightarrow> 'm Broker" where
  "drainInboxLocked p s b =
     (case drain_loop s (bk_inbox b) of
        (s', kept) \<Rightarrow> b\<lparr>bk_inbox := kept, bk_heap := AList.update p s' (bk_heap b)\<rparr>)"

text \<open>A new subscription gets a pointer that no other has.\<close>

definition fresh_ptr :: "'m Broker \<Rightarrow> nat" where
  "fresh_ptr b = Suc (foldr max (map fst (bk_heap b)) 0)"

definition Subscribe :: "bool \<Rightarrow> string \<Rightarrow> string list \<Rightarrow> 'm Broker \<Rightarrow> ('m Broker \<times> nat) result" where
  "Subscribe ctxErr name keys b =
     (if ctxErr then Inl (AppError Unclassified ''context'')
      else let p = fresh_ptr b;
               b' = drainInboxLocked p \<lparr>sb_ch = [], sb_keys = keySet keys, sb_name = name\<rparr> b
           in Inr (b'\<lparr>bk_subs := bk_subs b' @ [p]\<rparr>, p))"

definition AddKey :: "nat \<Rightarrow> string \<Rightarrow> 'm Broker \<Rightarrow> 'm Broker result" where
  "AddKey p key b =
     (if key = [] then Inl (AppError EmptyNotAllowed ''membroker.AddKey: an empty correlation key isn't allowed'')
      else (case map_of (bk_heap b) p of
              None \<Rightarrow> Inr b
            | Some s \<Rightarrow> Inr (drainInboxLocked p (s\<lparr>sb_keys := List.insert key (sb_keys s)\<rparr>) b)))"

definition Unsubscribe :: "nat \<Rightarrow> 'm Broker \<Rightarrow> 'm Broker" where
  "Unsubscribe p b = b\<lparr>bk_subs := remove1 p (bk_subs b)\<rparr>"

text \<open>The consumer takes the next envelope of its channel.\<close>

definition receive :: "nat \<Rightarrow> 'm Broker \<Rightarrow> ('m Envelope \<times> 'm Broker) option" where
  "receive p b =
     (case map_of (bk_heap b) p of
        None \<Rightarrow> None
      | Some s \<Rightarrow>
          (case sb_ch s of
             [] \<Rightarrow> None
           | e # ch \<Rightarrow> Some (e, b\<lparr>bk_heap := AList.update p (s\<lparr>sb_ch := ch\<rparr>) (bk_heap b)\<rparr>)))"

section \<open>Conservation\<close>

text \<open>What the broker holds: the inbox and the content of every channel.\<close>

definition chans :: "(nat \<times> 'm subscription) list \<Rightarrow> 'm Envelope multiset" where
  "chans heap = sum_list (map (\<lambda>(p, s). mset (sb_ch s)) heap)"

definition held :: "'m Broker \<Rightarrow> 'm Envelope multiset" where
  "held b = mset (bk_inbox b) + chans (bk_heap b)"

lemma chans_update_new: "\<not> has_key p heap \<Longrightarrow> chans (AList.update p s heap) = chans heap + mset (sb_ch s)"
  by (simp add: chans_def update_new_append)

lemma chans_update:
  assumes "distinct (map fst heap)" and "map_of heap p = Some s"
  shows "chans (AList.update p s' heap) + mset (sb_ch s) = chans heap + mset (sb_ch s')"
  using assms
proof (induction heap)
  case (Cons e heap)
  obtain q t where e: "e = (q, t)" by (cases e)
  show ?case
  proof (cases "q = p")
    case False
    then show ?thesis using Cons by (simp add: e chans_def)
  qed (use Cons.prems in \<open>simp add: e chans_def\<close>)
qed simp

lemma trySend_ch: "trySend s e = Some s' \<Longrightarrow> mset (sb_ch s') = mset (sb_ch s) + {#e#} \<and> sb_keys s' = sb_keys s \<and> sb_name s' = sb_name s \<and>
    length (sb_ch s') \<le> subBuffer"
  by (auto simp: trySend_def split: if_splits)

lemma drain_loop_conserves:
  "drain_loop s es = (s', kept) \<Longrightarrow> mset (sb_ch s') + mset kept = mset (sb_ch s) + mset es \<and> length kept \<le> length es \<and>
     (length (sb_ch s) \<le> subBuffer \<longrightarrow> length (sb_ch s') \<le> subBuffer)"
proof (induction es arbitrary: s kept)
  case (Cons e es)
  show ?case
  proof (cases "if matches s e then trySend s e else None")
    case None
    then obtain k where "drain_loop s es = (s', k)" "kept = e # k" using Cons.prems by (auto split: prod.splits)
    then show ?thesis using Cons.IH[of s k] by simp
  next
    case (Some t)
    then have t: "trySend s e = Some t" "drain_loop t es = (s', kept)" using Cons.prems by (auto split: if_splits)
    then show ?thesis using Cons.IH[OF t(2)] trySend_ch[OF t(1)] by auto
  qed
qed simp

lemma route_Some:
  "route sel msg heap ps = (Some heap', mt) \<Longrightarrow>
     \<exists>p s. p \<in> set ps \<and> map_of heap p = Some s \<and> sel s \<and> matches s msg \<and> length (sb_ch s) < subBuffer \<and>
       heap' = AList.update p (s\<lparr>sb_ch := sb_ch s @ [msg]\<rparr>) heap"
proof (induction ps arbitrary: mt)
  case (Cons p ps)
  show ?case
  proof (cases "\<exists>s. map_of heap p = Some s \<and> sel s \<and> matches s msg \<and> length (sb_ch s) < subBuffer")
    case True
    then show ?thesis using Cons.prems by (auto simp: trySend_def)
  next
    case False
    then obtain mt' where "route sel msg heap ps = (Some heap', mt')"
      using Cons.prems by (cases "route sel msg heap ps") (auto simp: trySend_def split: if_splits option.splits)
    then show ?thesis using Cons.IH[of mt'] by auto
  qed
qed simp

lemma route_None:
  assumes "route sel msg heap ps = (None, mt)" and "p \<in> set ps" and "map_of heap p = Some s" and "sel s" and "matches s msg"
  shows "mt \<and> subBuffer \<le> length (sb_ch s)"
  using assms(1,2)
proof (induction ps arbitrary: mt)
  case (Cons q ps)
  obtain r m where r: "route sel msg heap ps = (r, m)" by (cases "route sel msg heap ps")
  then show ?case using Cons assms(3-) by (auto simp: trySend_def split: if_splits option.splits)
qed simp

section \<open>The broker's invariant\<close>

definition broker_ok :: "'m Broker \<Rightarrow> bool" where
  "broker_ok b \<longleftrightarrow>
     distinct (map fst (bk_heap b)) \<and> distinct (bk_subs b) \<and> set (bk_subs b) \<subseteq> fst ` set (bk_heap b) \<and>
     list_all (\<lambda>(p, s). length (sb_ch s) \<le> subBuffer) (bk_heap b) \<and>
     (bk_maxInbox b > 0 \<longrightarrow> int (length (bk_inbox b)) \<le> bk_maxInbox b)"

lemma fresh_ptr_fresh: "fresh_ptr b \<notin> fst ` set (bk_heap b)"
proof
  assume "fresh_ptr b \<in> fst ` set (bk_heap b)"
  then have "fresh_ptr b \<le> foldr max (map fst (bk_heap b)) 0" using foldr_max_ge[of _ "bk_heap b" fst] by (auto simp: foldr_map comp_def)
  then show False by (simp add: fresh_ptr_def)
qed

lemma list_all_update:
  "list_all P heap \<Longrightarrow> P (p, s) \<Longrightarrow> list_all P (AList.update p s heap)"
  by (induction heap) auto

lemma evictInboxLocked_simps [simp]:
  "bk_heap (evictInboxLocked b) = bk_heap b" "bk_subs (evictInboxLocked b) = bk_subs b"
  "bk_maxInbox (evictInboxLocked b) = bk_maxInbox b"
  by (simp_all add: evictInboxLocked_def)

lemma mset_drop_subset: "mset (drop n xs) \<subseteq># mset xs"
  by (metis append_take_drop_id mset_append mset_subset_eq_add_right)

lemma bufferLocked_held:
  "held (bufferLocked msg b) \<subseteq># held b + {#msg#}"
  "bk_maxInbox b \<le> 0 \<Longrightarrow> held (bufferLocked msg b) = held b + {#msg#}"
proof -
  have "mset (bk_inbox (bufferLocked msg b)) \<subseteq># mset (bk_inbox b @ [msg])"
    by (simp add: bufferLocked_def evictInboxLocked_def mset_drop_subset del: mset_append drop_append)
  then show "held (bufferLocked msg b) \<subseteq># held b + {#msg#}"
    by (simp add: held_def bufferLocked_def)
qed (simp add: held_def bufferLocked_def evictInboxLocked_def)

lemma bufferLocked_ok: "broker_ok b \<Longrightarrow> broker_ok (bufferLocked msg b)"
  by (auto simp: broker_ok_def bufferLocked_def evictInboxLocked_def)

lemma route_update_ok:
  assumes "broker_ok b" and "route sel msg (bk_heap b) (bk_subs b) = (Some heap', mt)"
  shows "broker_ok (b\<lparr>bk_heap := heap'\<rparr>)" "held (b\<lparr>bk_heap := heap'\<rparr>) = held b + {#msg#}"
proof -
  obtain p s where p: "p \<in> set (bk_subs b)" "map_of (bk_heap b) p = Some s" "length (sb_ch s) < subBuffer"
    and h: "heap' = AList.update p (s\<lparr>sb_ch := sb_ch s @ [msg]\<rparr>) (bk_heap b)"
    using route_Some[OF assms(2)] by blast
  have d: "distinct (map fst (bk_heap b))" using assms(1) by (simp add: broker_ok_def)
  show "broker_ok (b\<lparr>bk_heap := heap'\<rparr>)"
    using assms(1) p(3) by (auto simp: broker_ok_def h dom_update distinct_update intro!: list_all_update)
  show "held (b\<lparr>bk_heap := heap'\<rparr>) = held b + {#msg#}"
    using chans_update[OF d p(2), of "s\<lparr>sb_ch := sb_ch s @ [msg]\<rparr>"] by (simp add: h held_def)
qed

lemma Publish_ok:
  assumes "broker_ok b" and "Publish c msg b = Inr b'"
  shows "broker_ok b' \<and> bk_maxInbox b' = bk_maxInbox b \<and> held b' \<subseteq># held b + {#msg#} \<and>
    (bk_maxInbox b \<le> 0 \<longrightarrow> held b' = held b + {#msg#})"
proof -
  consider (routed) sel heap' mt where "route sel msg (bk_heap b) (bk_subs b) = (Some heap', mt)" "b' = b\<lparr>bk_heap := heap'\<rparr>"
    | (buffered) "b' = bufferLocked msg b"
    using assms(2) by (auto simp: Publish_def split: if_splits prod.splits option.splits)
  then show ?thesis
  proof cases
    case routed
    then show ?thesis using route_update_ok[OF assms(1) routed(1)] by simp
  next
    case buffered
    then show ?thesis using bufferLocked_held(1)[of msg b] bufferLocked_held(2)[of b msg] bufferLocked_ok[OF assms(1), of msg]
      by (simp add: bufferLocked_def)
  qed
qed

lemma drainInboxLocked_simps [simp]:
  "bk_subs (drainInboxLocked p s b) = bk_subs b" "bk_maxInbox (drainInboxLocked p s b) = bk_maxInbox b"
  "fst ` set (bk_heap (drainInboxLocked p s b)) = insert p (fst ` set (bk_heap b))"
  by (simp_all add: drainInboxLocked_def dom_update split: prod.splits)

lemma drainInboxLocked_ok:
  assumes "broker_ok b" and "length (sb_ch s) \<le> subBuffer"
  shows "broker_ok (drainInboxLocked p s b)"
proof -
  obtain s' kept where d: "drain_loop s (bk_inbox b) = (s', kept)" by (cases "drain_loop s (bk_inbox b)")
  note c = drain_loop_conserves[OF d]
  then show ?thesis using assms
    by (auto simp: broker_ok_def drainInboxLocked_def d dom_update distinct_update intro!: list_all_update)
qed

lemma drainInboxLocked_held:
  assumes "distinct (map fst (bk_heap b))"
    and "map_of (bk_heap b) p = None \<and> sb_ch s = [] \<or> (\<exists>t. map_of (bk_heap b) p = Some t \<and> sb_ch s = sb_ch t)"
  shows "held (drainInboxLocked p s b) = held b"
proof -
  obtain s' kept where d: "drain_loop s (bk_inbox b) = (s', kept)" by (cases "drain_loop s (bk_inbox b)")
  have c: "mset (sb_ch s') + mset kept = mset (sb_ch s) + mset (bk_inbox b)" using drain_loop_conserves[OF d] by simp
  have "chans (AList.update p s' (bk_heap b)) + mset (sb_ch s) = chans (bk_heap b) + mset (sb_ch s')"
    using assms(2)
  proof
    assume "map_of (bk_heap b) p = None \<and> sb_ch s = []"
    then show ?thesis by (simp add: chans_update_new has_key_map_of)
  next
    assume "\<exists>t. map_of (bk_heap b) p = Some t \<and> sb_ch s = sb_ch t"
    then show ?thesis using chans_update[OF assms(1)] by metis
  qed
  then have "chans (AList.update p s' (bk_heap b)) + mset (sb_ch s) + mset kept = chans (bk_heap b) + (mset (sb_ch s') + mset kept)"
    by (simp add: add.assoc)
  then have "(chans (AList.update p s' (bk_heap b)) + mset kept) + mset (sb_ch s) = (chans (bk_heap b) + mset (bk_inbox b)) + mset (sb_ch s)"
    unfolding c by (simp only: ac_simps)
  then have "chans (AList.update p s' (bk_heap b)) + mset kept = chans (bk_heap b) + mset (bk_inbox b)"
    by (simp only: add_right_cancel)
  then show ?thesis by (simp add: held_def drainInboxLocked_def d add.commute)
qed

lemma Subscribe_ok:
  assumes "broker_ok b" and "Subscribe c name keys b = Inr (b', p)"
  shows "broker_ok b' \<and> bk_maxInbox b' = bk_maxInbox b \<and> held b' = held b"
proof -
  let ?s = "\<lparr>sb_ch = [], sb_keys = keySet keys, sb_name = name\<rparr> :: 'a subscription"
  let ?d = "drainInboxLocked (fresh_ptr b) ?s b"
  have b': "b' = ?d\<lparr>bk_subs := bk_subs b @ [fresh_ptr b]\<rparr>"
    using assms(2) by (auto simp: Subscribe_def Let_def split: if_splits)
  have n: "map_of (bk_heap b) (fresh_ptr b) = None" using fresh_ptr_fresh[of b] by (simp add: map_of_eq_None_iff)
  have d: "broker_ok ?d" by (rule drainInboxLocked_ok[OF assms(1)]) simp
  have "fresh_ptr b \<notin> set (bk_subs b)" using assms(1) fresh_ptr_fresh[of b] by (auto simp: broker_ok_def)
  moreover have "held b' = held ?d" by (simp add: b' held_def)
  moreover have "held ?d = held b" by (rule drainInboxLocked_held) (use assms(1) n in \<open>simp_all add: broker_ok_def\<close>)
  ultimately show ?thesis using d by (simp add: b' broker_ok_def)
qed

lemma AddKey_ok:
  assumes "broker_ok b" and "AddKey p key b = Inr b'"
  shows "broker_ok b' \<and> bk_maxInbox b' = bk_maxInbox b \<and> held b' = held b"
proof (cases "map_of (bk_heap b) p")
  case None
  then show ?thesis using assms by (simp add: AddKey_def split: if_splits)
next
  case (Some s)
  have b': "b' = drainInboxLocked p (s\<lparr>sb_keys := List.insert key (sb_keys s)\<rparr>) b"
    using assms(2) Some by (simp add: AddKey_def split: if_splits)
  have "length (sb_ch s) \<le> subBuffer" using assms(1) map_of_SomeD[OF Some] by (auto simp: broker_ok_def list_all_iff)
  then show ?thesis using drainInboxLocked_ok[OF assms(1)] drainInboxLocked_held[of b p] assms(1) Some
    by (simp add: b' broker_ok_def)
qed

lemma Unsubscribe_ok:
  "broker_ok b \<Longrightarrow> broker_ok (Unsubscribe p b) \<and> bk_maxInbox (Unsubscribe p b) = bk_maxInbox b \<and> held (Unsubscribe p b) = held b"
  using set_remove1_subset[of p "bk_subs b"] by (auto simp: Unsubscribe_def broker_ok_def held_def)

lemma receive_ok:
  assumes "broker_ok b" and "receive p b = Some (e, b')"
  shows "broker_ok b' \<and> bk_maxInbox b' = bk_maxInbox b \<and> held b = held b' + {#e#}"
proof -
  obtain s ch where s: "map_of (bk_heap b) p = Some s" "sb_ch s = e # ch"
    and b': "b' = b\<lparr>bk_heap := AList.update p (s\<lparr>sb_ch := ch\<rparr>) (bk_heap b)\<rparr>"
    using assms(2) by (auto simp: receive_def split: option.splits list.splits)
  have d: "distinct (map fst (bk_heap b))" using assms(1) by (simp add: broker_ok_def)
  have "length (sb_ch s) \<le> subBuffer" using assms(1) map_of_SomeD[OF s(1)] by (auto simp: broker_ok_def list_all_iff)
  then have "broker_ok b'" using assms(1) s by (auto simp: broker_ok_def b' dom_update distinct_update intro!: list_all_update)
  then show ?thesis using chans_update[OF d s(1), of "s\<lparr>sb_ch := ch\<rparr>"] s(2) by (simp add: b' held_def)
qed

lemmas broker_step_oks = Publish_ok Subscribe_ok AddKey_ok receive_ok

section \<open>Every history\<close>

text \<open>
  The histories of a broker created with inbox cap \<open>cap\<close>: the messages successfully published so far,
  those the consumers received, and the state. The operations that end in an error change nothing.
\<close>

inductive broker_run :: "int \<Rightarrow> 'm Envelope multiset \<Rightarrow> 'm Envelope multiset \<Rightarrow> 'm Broker \<Rightarrow> bool" for cap where
  new: "broker_run cap {#} {#} (Broker_New cap)"
| publish: "broker_run cap pub rcv b \<Longrightarrow> Publish c msg b = Inr b' \<Longrightarrow> broker_run cap (pub + {#msg#}) rcv b'"
| subscribe: "broker_run cap pub rcv b \<Longrightarrow> Subscribe c name keys b = Inr (b', p) \<Longrightarrow> broker_run cap pub rcv b'"
| addkey: "broker_run cap pub rcv b \<Longrightarrow> AddKey p key b = Inr b' \<Longrightarrow> broker_run cap pub rcv b'"
| unsubscribe: "broker_run cap pub rcv b \<Longrightarrow> broker_run cap pub rcv (Unsubscribe p b)"
| receive: "broker_run cap pub rcv b \<Longrightarrow> receive p b = Some (e, b') \<Longrightarrow> broker_run cap pub (rcv + {#e#}) b'"

lemma broker_run_inv:
  "broker_run cap pub rcv b \<Longrightarrow>
     broker_ok b \<and> bk_maxInbox b = cap \<and> rcv + held b \<subseteq># pub \<and> (cap \<le> 0 \<longrightarrow> rcv + held b = pub)"
proof (induction rule: broker_run.induct)
  case new
  then show ?case by (simp add: Broker_New_def broker_ok_def held_def chans_def)
next
  case (publish pub rcv b c msg b')
  note p = Publish_ok[OF _ publish.hyps(2)]
  have "rcv + held b' \<subseteq># rcv + (held b + {#msg#})" using p publish.IH by (intro subset_mset.add_mono) auto
  also have "\<dots> \<subseteq># pub + {#msg#}" using publish.IH by (simp add: ac_simps)
  finally show ?case using p publish.IH by (auto simp: ac_simps)
next
  case (subscribe pub rcv b c name keys b' p)
  then show ?case using Subscribe_ok by metis
next
  case (addkey pub rcv b p key b')
  then show ?case using AddKey_ok by metis
next
  case (unsubscribe pub rcv b p)
  then show ?case using Unsubscribe_ok by metis
next
  case (receive pub rcv b p e b')
  then show ?case using receive_ok[OF _ receive.hyps(2)] by (simp add: ac_simps)
qed

text \<open>
  Claim C21. The broker delivers at most once and within its bounds: in every history, what the consumers
  received together with what the broker still holds (inbox and channels) is part of what was
  published, as multisets, so no message is duplicated or invented; without an inbox cap nothing
  is lost either; with a cap the inbox never exceeds it; no channel exceeds its buffer of 16.
\<close>
theorem broker_conserves:
  assumes "broker_run cap pub rcv b"
  shows "rcv + held b \<subseteq># pub \<and> (cap \<le> 0 \<longrightarrow> rcv + held b = pub) \<and>
    (cap > 0 \<longrightarrow> int (length (bk_inbox b)) \<le> cap) \<and>
    list_all (\<lambda>(p, s). length (sb_ch s) \<le> 16) (bk_heap b)"
  using broker_run_inv[OF assms] by (auto simp: broker_ok_def subBuffer_def)

abbreviation envA :: "nat Envelope" where
  "envA \<equiv> \<lparr>en_Payload = 1, en_Name = ''m'', en_CorrelationKey = ''k''\<rparr>"

definition broker_full :: "nat Broker" where
  "broker_full = \<lparr>bk_inbox = [], bk_heap = [(1, \<lparr>sb_ch = replicate 16 envA, sb_keys = [''k''], sb_name = ''m''\<rparr>)],
     bk_subs = [1], bk_maxInbox = 1\<rparr>"

theorem broker_conserves_witness:
  "bk_inbox (bufferLocked envA (bufferLocked envA (Broker_New 1))) = [envA] \<and>
   {#} + held (bufferLocked envA (bufferLocked envA (Broker_New 1))) \<subseteq># {#envA, envA#}"
proof -
  have p: "Publish False envA (Broker_New 1) = Inr (bufferLocked envA (Broker_New 1))"
    "Publish False envA (bufferLocked envA (Broker_New 1)) = Inr (bufferLocked envA (bufferLocked envA (Broker_New 1)))"
    by (simp_all add: Publish_def Broker_New_def bufferLocked_def evictInboxLocked_def)
  have "broker_run 1 ({#} + {#envA#} + {#envA#}) {#} (bufferLocked envA (bufferLocked envA (Broker_New 1)))"
    by (rule broker_run.publish[OF broker_run.publish[OF broker_run.new p(1)] p(2)])
  from broker_conserves[OF this] show ?thesis
    by (simp add: Broker_New_def bufferLocked_def evictInboxLocked_def)
qed

section \<open>Most-specific routing\<close>

text \<open>
  Routing is most-specific: a message that some registered keyed subscription claims is never handed
  to a wildcard subscription by \<^verbatim>\<open>Publish\<close>. Either one of the claiming subscriptions gets it, at the
  end of its channel, and nothing else changes; or every claiming channel is full and it is buffered.
\<close>
theorem publish_most_specific:
  assumes "p \<in> set (bk_subs b)" and "map_of (bk_heap b) p = Some s" and "keyed s" and "matches s msg"
  shows "(\<exists>q t. q \<in> set (bk_subs b) \<and> map_of (bk_heap b) q = Some t \<and> keyed t \<and> matches t msg \<and>
        Publish False msg b = Inr (b\<lparr>bk_heap := AList.update q (t\<lparr>sb_ch := sb_ch t @ [msg]\<rparr>) (bk_heap b)\<rparr>)) \<or>
     Publish False msg b = Inr (bufferLocked msg b) \<and>
     (\<forall>q t. q \<in> set (bk_subs b) \<and> map_of (bk_heap b) q = Some t \<and> keyed t \<and> matches t msg \<longrightarrow> 16 \<le> length (sb_ch t))"
proof (cases "route keyed msg (bk_heap b) (bk_subs b)")
  case (Pair r mt)
  show ?thesis
  proof (cases r)
    case None
    note n = route_None[OF Pair[unfolded None]]
    have "mt" using n[OF assms] by simp
    then show ?thesis using n Pair None by (intro disjI2 conjI) (auto simp: Publish_def subBuffer_def)
  next
    case (Some heap')
    then show ?thesis using route_Some[OF Pair[unfolded Some]] Pair by (auto simp: Publish_def)
  qed
qed

theorem publish_most_specific_witness:
  "Publish False envA broker_full = Inr (bufferLocked envA broker_full)"
proof -
  have "\<forall>q t. \<not> (q \<in> set (bk_subs broker_full) \<and> map_of (bk_heap broker_full) q = Some t \<and>
      Publish False envA broker_full = Inr (broker_full\<lparr>bk_heap := AList.update q (t\<lparr>sb_ch := sb_ch t @ [envA]\<rparr>) (bk_heap broker_full)\<rparr>))"
    by (simp add: Publish_def broker_full_def keyed_def matches_def trySend_def subBuffer_def bufferLocked_def evictInboxLocked_def)
  then show ?thesis
    using publish_most_specific[of 1 broker_full "\<lparr>sb_ch = replicate 16 envA, sb_keys = [''k''], sb_name = ''m''\<rparr>" envA]
    by (simp add: broker_full_def keyed_def matches_def)
qed

text \<open>
  The inbox is not: a message buffered for a keyed subscription whose channel was full goes to the next
  wildcard subscription of that name, which the comment of \<^verbatim>\<open>Publish\<close> says never happens.
\<close>
lemma wildcard_drains_claimed:
  "\<exists>b1 b2. Publish False envA broker_full = Inr b1 \<and> Subscribe False ''m'' [] b1 = Inr (b2, 2) \<and>
     map_of (bk_heap b2) 2 = Some \<lparr>sb_ch = [envA], sb_keys = [], sb_name = ''m''\<rparr> \<and> bk_inbox b2 = []"
  by (simp add: Publish_def broker_full_def keyed_def matches_def trySend_def subBuffer_def bufferLocked_def
      evictInboxLocked_def Subscribe_def drainInboxLocked_def fresh_ptr_def keySet_def Let_def)

text \<open>
  A message that waits in the inbox for a full channel is not delivered when the consumer frees it:
  the next message published overtakes it.
\<close>
lemma inbox_overtaken:
  "\<exists>b1 b2 b3. Publish False envA broker_full = Inr b1 \<and> receive 1 b1 = Some (envA, b2) \<and>
     Publish False (envA\<lparr>en_Payload := 2\<rparr>) b2 = Inr b3 \<and> bk_inbox b3 = [envA] \<and>
     map_option (last \<circ> sb_ch) (map_of (bk_heap b3) 1) = Some (envA\<lparr>en_Payload := 2\<rparr>)"
  by (simp add: Publish_def broker_full_def keyed_def matches_def trySend_def subBuffer_def bufferLocked_def
      evictInboxLocked_def receive_def eval_nat_numeral)

text \<open>A handle that was unsubscribed still takes messages out of the inbox through \<^verbatim>\<open>AddKey\<close>, into a channel
  the broker no longer serves.\<close>
lemma addkey_after_unsubscribe_drains:
  "\<exists>b1 b2 b3. Subscribe False ''m'' [''j''] (Broker_New 0) = Inr (b1, 1) \<and> Publish False envA (Unsubscribe 1 b1) = Inr b2 \<and>
     bk_inbox b2 = [envA] \<and> AddKey 1 ''k'' b2 = Inr b3 \<and> bk_inbox b3 = [] \<and> bk_subs b3 = []"
  by (simp add: Publish_def Broker_New_def keyed_def matches_def trySend_def subBuffer_def bufferLocked_def Unsubscribe_def
      evictInboxLocked_def Subscribe_def AddKey_def drainInboxLocked_def fresh_ptr_def keySet_def Let_def)

end
