(* ===== verification/Job_Policy.thy ===== *)
theory Job_Policy
  imports Data_Setpath Data_Frame Instance_Correlation "HOL-Library.Word"
begin

text \<open>
  The outcome policy of a job handed to an external worker (\<^verbatim>\<open>src/pkg/tasks\<close>): retry policies
  (\<^verbatim>\<open>retrypolicy.go\<close>), the rule list that classifies a fault (\<^verbatim>\<open>errormapper.go\<close>), the mapping of a
  worker's output (\<^verbatim>\<open>outputmapping.go\<close>), trust modes (\<^verbatim>\<open>trustmode.go\<close>), job ids, outcomes and worker
  errors.

  A \<^verbatim>\<open>time.Duration\<close> is a 64-bit word of nanoseconds read by \<open>sint\<close>. The expression engine, the
  reading of a value as a bool, the random source and generated ids are parameters. A
  \<open>None\<close> result is a Go panic.
\<close>

section \<open>Retry policies\<close>

type_synonym Duration64 = "64 word"

text \<open>The verdict: the backoff and whether to retry.\<close>

type_synonym retry_verdict = "(Duration64 \<times> bool) option"

definition noRetry_Retry :: "int \<Rightarrow> retry_verdict" where
  "noRetry_Retry attempt = Some (0, False)"

record fixedDelay =
  fd_delay :: Duration64
  fd_maxAttempts :: int

definition fixedDelay_Retry :: "fixedDelay \<Rightarrow> int \<Rightarrow> retry_verdict" where
  "fixedDelay_Retry f attempt = (if attempt \<ge> fd_maxAttempts f then Some (0, False) else Some (fd_delay f, True))"

record exponentialBackoff =
  eb_base :: Duration64
  eb_maxBackoff :: Duration64
  eb_maxAttempts :: int
  eb_jitter :: bool

text \<open>
  A negative shift count panics, and so does \<^verbatim>\<open>rand.Int64N\<close> on an argument that is not positive;
  \<open>rnd n\<close> stands for its result, documented to lie in \<open>[0, n)\<close>. The division \<^verbatim>\<open>d/2\<close> truncates.
\<close>

definition half_duration :: "Duration64 \<Rightarrow> Duration64" where
  "half_duration d = word_of_int (sgn (sint d) * (\<bar>sint d\<bar> div 2))"

definition capped_backoff :: "exponentialBackoff \<Rightarrow> nat \<Rightarrow> Duration64" where
  "capped_backoff e n =
     (let d = push_bit n (eb_base e)
      in if sint d \<le> 0 \<or> sint d > sint (eb_maxBackoff e) then eb_maxBackoff e else d)"

definition exponentialBackoff_Retry :: "(int \<Rightarrow> int) \<Rightarrow> exponentialBackoff \<Rightarrow> int \<Rightarrow> retry_verdict" where
  "exponentialBackoff_Retry rnd e attempt =
     (if attempt \<ge> eb_maxAttempts e then Some (0, False)
      else if attempt - 1 < 0 then None
      else
        let d = capped_backoff e (nat (attempt - 1))
        in if eb_jitter e
           then (let n = sint (half_duration d) + 1
                 in if n \<le> 0 then None else Some (half_duration d + word_of_int (rnd n), True))
           else Some (d, True))"

definition DefaultRetryPolicy :: exponentialBackoff where
  "DefaultRetryPolicy = \<lparr>eb_base = 500000000, eb_maxBackoff = 30000000000, eb_maxAttempts = 3, eb_jitter = True\<rparr>"

text \<open>The interface \<^verbatim>\<open>RetryPolicy\<close>: the three policies of the package, or one of the embedder's.\<close>

datatype 'c RetryPolicy =
    NoRetry | FixedDelay fixedDelay | ExponentialBackoff exponentialBackoff
  | CustomRetry "int \<Rightarrow> 'c \<Rightarrow> Duration64 \<times> bool"

fun Retry :: "(int \<Rightarrow> int) \<Rightarrow> 'c RetryPolicy \<Rightarrow> int \<Rightarrow> 'c \<Rightarrow> retry_verdict" where
  "Retry rnd NoRetry attempt cause = noRetry_Retry attempt"
| "Retry rnd (FixedDelay f) attempt cause = fixedDelay_Retry f attempt"
| "Retry rnd (ExponentialBackoff e) attempt cause = exponentialBackoff_Retry rnd e attempt"
| "Retry rnd (CustomRetry f) attempt cause = Some (f attempt cause)"

section \<open>Classifying a fault\<close>

text \<open>An item definition: its id and the value of its structure.\<close>

type_synonym 'v item = "string \<times> 'v val"

record ('v, 'c) Fault =
  ft_Body :: "'v item option"
  ft_Cause :: 'c
  ft_Code :: string

datatype 'v MappedOutcome = BpmnError string string | StatusOutcome "'v val" | Technical

record ('x, 'v) Rule =
  ru_BodyClause :: "'x option"
  ru_Yield :: "'v MappedOutcome option"
  ru_Code :: string

type_synonym ('x, 'v) expr_engine = "'x \<Rightarrow> (string \<Rightarrow> 'v sdatum result) \<Rightarrow> 'v val result"

definition NewRuleMapper :: "('x, 'v) Rule list \<Rightarrow> ('x, 'v) Rule list result" where
  "NewRuleMapper rules =
     (if list_ex (\<lambda>r. ru_Yield r = None) rules
      then Inl (AppError EmptyNotAllowed ''NewRuleMapper: rule %d has a nil Yield'')
      else Inr rules)"

text \<open>The transient source of a fault; \<open>gid\<close> are the ids generated for its item definitions, \<open>str\<close> makes a string value.\<close>

definition faultSource_head :: "string \<Rightarrow> (string \<Rightarrow> 'v) \<Rightarrow> 'v item option \<Rightarrow> string \<Rightarrow> string \<Rightarrow> 'v sdatum result" where
  "faultSource_head gid str body code head =
     (if head = ''code'' then
        (case NewParameter ''code'' gid (Scalar (str code)) of
           Inl _ \<Rightarrow> Inl (AppError OperationFailed ''faultSource: couldn't build %q datum'')
         | Inr d \<Rightarrow> Inr d)
      else if head = ''body'' then
        (case body of
           None \<Rightarrow> Inl (AppError ObjectNotFound ''faultSource: the fault carries no body'')
         | Some (i, v) \<Rightarrow>
             (case NewParameter ''body'' i v of
                Inl _ \<Rightarrow> Inl (AppError OperationFailed ''faultSource: couldn't build %q datum'')
              | Inr d \<Rightarrow> Inr d))
      else Inl (AppError ObjectNotFound ''faultSource: no datum %q (only code, body)''))"

definition faultSource_Find :: "string \<Rightarrow> (string \<Rightarrow> 'v) \<Rightarrow> 'v item option \<Rightarrow> string \<Rightarrow> string \<Rightarrow> 'v sdatum result" where
  "faultSource_Find gid str body code name =
     (case ResolvePath gid name (\<lambda>h. Some (faultSource_head gid str body code h)) of
        Some r \<Rightarrow> r
      | None \<Rightarrow> Inl (AppError BrokenInvariant ''''))"

fun classify_rules :: "('x, 'v) expr_engine \<Rightarrow> ('v val \<Rightarrow> bool option) \<Rightarrow> (string \<Rightarrow> 'v sdatum result) \<Rightarrow> string \<Rightarrow>
    ('x, 'v) Rule list \<Rightarrow> 'v MappedOutcome option result" where
  "classify_rules ee as_bool src code [] = Inr (Some Technical)"
| "classify_rules ee as_bool src code (r # rs) =
     (if ru_Code r \<noteq> [] \<and> ru_Code r \<noteq> code then classify_rules ee as_bool src code rs
      else (case ru_BodyClause r of
              None \<Rightarrow> Inr (ru_Yield r)
            | Some clause \<Rightarrow>
                (case ee clause src of
                   Inl _ \<Rightarrow> Inl (AppError OperationFailed ''ErrorMapper: body clause evaluation failed'')
                 | Inr v \<Rightarrow> (if as_bool v = Some True then Inr (ru_Yield r)
                             else classify_rules ee as_bool src code rs))))"

definition RuleMapper_Classify :: "string \<Rightarrow> (string \<Rightarrow> 'v) \<Rightarrow> ('x, 'v) expr_engine \<Rightarrow> ('v val \<Rightarrow> bool option) \<Rightarrow>
    ('x, 'v) Rule list \<Rightarrow> ('v, 'c) Fault \<Rightarrow> 'v MappedOutcome option result" where
  "RuleMapper_Classify gid str ee as_bool rules f =
     classify_rules ee as_bool (faultSource_Find gid str (ft_Body f) (ft_Code f)) (ft_Code f) rules"

section \<open>Mapping the output\<close>

record 'x OutputRule =
  or_Path :: 'x
  or_Var :: string
  or_Required :: bool

record 'x outputHead =
  oh_rules :: "'x OutputRule list"
  oh_hasPlain :: bool

text \<open>\<^verbatim>\<open>groupByHead\<close>: the heads in the order of their first rule, each with its rules.\<close>

fun groupByHead_loop :: "'x OutputRule list \<Rightarrow> (string \<times> 'x outputHead) list \<Rightarrow> (string \<times> 'x outputHead) list result" where
  "groupByHead_loop [] heads = Inr heads"
| "groupByHead_loop (r # rs) heads =
     (case SplitPath (or_Var r) of
        Inl e \<Rightarrow> Inl e
      | Inr (head, steps) \<Rightarrow>
          (let h = (case map_of heads head of Some h \<Rightarrow> h | None \<Rightarrow> \<lparr>oh_rules = [], oh_hasPlain = False\<rparr>)
           in groupByHead_loop rs
                (AList.update head \<lparr>oh_rules = oh_rules h @ [r], oh_hasPlain = (oh_hasPlain h \<or> steps = [])\<rparr> heads)))"

definition groupByHead :: "'x OutputRule list \<Rightarrow> (string \<times> 'x outputHead) list result" where
  "groupByHead rules = groupByHead_loop rules []"

definition evalRule :: "('x, 'v) expr_engine \<Rightarrow> (string \<Rightarrow> 'v sdatum result) \<Rightarrow> 'x OutputRule \<Rightarrow> 'v val option result" where
  "evalRule ee src r =
     (case ee (or_Path r) src of
        Inr v \<Rightarrow> Inr (Some v)
      | Inl _ \<Rightarrow>
          (if or_Required r then Inl (AppError OperationFailed ''output mapping: required path for %q not satisfied'')
           else Inr None))"

definition outputDatum :: "string \<Rightarrow> string \<Rightarrow> 'v val \<Rightarrow> 'v sdatum result" where
  "outputDatum gid name v =
     (case NewParameter name gid v of
        Inl _ \<Rightarrow> Inl (AppError OperationFailed ''couldn't build mapped output datum %q'')
      | Inr d \<Rightarrow> Inr d)"

definition below_head :: "string \<Rightarrow> string \<Rightarrow> string" where
  "below_head head var =
     (let rest = drop (length head) var in if rest \<noteq> [] \<and> hd rest = CHR ''.'' then tl rest else rest)"

text \<open>The loop of \<^verbatim>\<open>assembleHead\<close> over the structural rules of one head: the record and whether anything was written.\<close>

fun assemble_loop :: "('x, 'v) expr_engine \<Rightarrow> (string \<Rightarrow> 'v sdatum result) \<Rightarrow> string \<Rightarrow> 'x OutputRule list \<Rightarrow> 'v val \<Rightarrow> bool \<Rightarrow>
    ('v val \<times> bool) result option" where
  "assemble_loop ee src head [] rec wrote = Some (Inr (rec, wrote))"
| "assemble_loop ee src head (r # rs) rec wrote =
     (case evalRule ee src r of
        Inl e \<Rightarrow> Some (Inl e)
      | Inr None \<Rightarrow> assemble_loop ee src head rs rec wrote
      | Inr (Some v) \<Rightarrow>
          (case SetPath rec (below_head head (or_Var r)) v of
             (rec', Done) \<Rightarrow> assemble_loop ee src head rs rec' True
           | (_, Failed _) \<Rightarrow> Some (Inl (AppError OperationFailed ''output mapping: cannot set %q''))
           | (_, Panic) \<Rightarrow> None))"

definition assembleHead :: "string \<Rightarrow> ('x, 'v) expr_engine \<Rightarrow> (string \<Rightarrow> 'v sdatum result) \<Rightarrow> string \<Rightarrow> 'x outputHead \<Rightarrow>
    'v sdatum option result option" where
  "assembleHead gid ee src head h =
     (if oh_hasPlain h \<and> length (oh_rules h) > 1
      then Some (Inl (AppError OperationFailed ''output mapping: head %q mixes a whole-value and a structural rule''))
      else if oh_hasPlain h then
        Some (case evalRule ee src (oh_rules h ! 0) of
                Inl e \<Rightarrow> Inl e
              | Inr None \<Rightarrow> Inr None
              | Inr (Some v) \<Rightarrow> (case outputDatum gid head v of Inl e \<Rightarrow> Inl e | Inr d \<Rightarrow> Inr (Some d)))
      else
        (case assemble_loop ee src head (oh_rules h) (Rec []) False of
           None \<Rightarrow> None
         | Some (Inl e) \<Rightarrow> Some (Inl e)
         | Some (Inr (rec, wrote)) \<Rightarrow>
             Some (if \<not> wrote then Inr None
                   else (case outputDatum gid head rec of Inl e \<Rightarrow> Inl e | Inr d \<Rightarrow> Inr (Some d)))))"

fun mapping_loop :: "string \<Rightarrow> ('x, 'v) expr_engine \<Rightarrow> (string \<Rightarrow> 'v sdatum result) \<Rightarrow> (string \<times> 'x outputHead) list \<Rightarrow>
    'v sdatum list result option" where
  "mapping_loop gid ee src [] = Some (Inr [])"
| "mapping_loop gid ee src ((head, h) # hs) =
     (case assembleHead gid ee src head h of
        None \<Rightarrow> None
      | Some (Inl e) \<Rightarrow> Some (Inl e)
      | Some (Inr d) \<Rightarrow>
          (case mapping_loop gid ee src hs of
             Some (Inr ds) \<Rightarrow> Some (Inr (case d of None \<Rightarrow> ds | Some x \<Rightarrow> x # ds))
           | other \<Rightarrow> other))"

definition ApplyOutputMapping :: "string \<Rightarrow> (string \<Rightarrow> 'v) \<Rightarrow> ('x, 'v) expr_engine \<Rightarrow> 'x OutputRule list \<Rightarrow> 'v item \<Rightarrow>
    'v sdatum list result option" where
  "ApplyOutputMapping gid str ee rules body =
     (case groupByHead rules of
        Inl e \<Rightarrow> Some (Inl e)
      | Inr heads \<Rightarrow> mapping_loop gid ee (faultSource_Find gid str (Some body) []) heads)"

section \<open>Trust, job ids, outcomes\<close>

datatype TrustMode = trustUnset | WorkerTrusted | EngineAuthoritative

definition TrustMode_Resolve :: "TrustMode \<Rightarrow> TrustMode \<Rightarrow> TrustMode" where
  "TrustMode_Resolve m fallback = (if m = trustUnset then fallback else m)"

definition jobIDSep :: char where
  "jobIDSep = CHR ''|''"

definition MakeJobID :: "string \<Rightarrow> string \<Rightarrow> string" where
  "MakeJobID generated instanceID = instanceID @ jobIDSep # generated"

definition JobID_InstanceID :: "string \<Rightarrow> string" where
  "JobID_InstanceID j = takeWhile (\<lambda>c. c \<noteq> jobIDSep) j"

text \<open>The interface \<^verbatim>\<open>ErrorMapper\<close>: the rule list, or one of the embedder's.\<close>

datatype ('x, 'v, 'c) ErrorMapper =
    RuleMapper "('x, 'v) Rule list"
  | CustomMapper "('x, 'v) expr_engine \<Rightarrow> ('v, 'c) Fault \<Rightarrow> 'v MappedOutcome option result"

record ('x, 'v, 'c) Policy =
  po_ErrorMapper :: "('x, 'v, 'c) ErrorMapper option"
  po_RetryPolicy :: "'c RetryPolicy option"
  po_OutputMapping :: "'x OutputRule list"
  po_Trust :: TrustMode

text \<open>The outcome a report carries; the constructor is its \<^verbatim>\<open>OutcomeKind\<close>.\<close>

datatype ('v, 'c) WorkerOutcome =
    OutcomeComplete string "'v sdatum list"
  | OutcomeBpmnError string string string
  | OutcomeStatus string "'v val"
  | OutcomeFault string "('v, 'c) Fault"

fun outcome_job :: "('v, 'c) WorkerOutcome \<Rightarrow> string" where
  "outcome_job (OutcomeComplete j _) = j"
| "outcome_job (OutcomeBpmnError j _ _) = j"
| "outcome_job (OutcomeStatus j _) = j"
| "outcome_job (OutcomeFault j _) = j"

fun is_fault :: "('v, 'c) WorkerOutcome \<Rightarrow> bool" where
  "is_fault (OutcomeFault _ _) = True"
| "is_fault _ = False"

record 'v WorkerError =
  we_Status :: "'v val option"
  we_BpmnErrorCode :: string
  we_Message :: string

section \<open>The backoff\<close>

lemma sint_nonneg_small: "0 \<le> t \<Longrightarrow> t < 2 ^ 63 \<Longrightarrow> sint (word_of_int t :: 64 word) = t"
  by (simp add: sint_sbintrunc' signed_take_bit_int_eq_self)

lemma sint_bound64: "sint (w :: 64 word) < 2 ^ 63"
  using sint_lt[of w] by simp

lemma sint_half: "0 \<le> sint d \<Longrightarrow> sint (half_duration d) = sint d div 2"
proof -
  assume d: "0 \<le> sint d"
  have "sgn (sint d) * (\<bar>sint d\<bar> div 2) = sint d div 2" using d by (cases "sint d = 0") (simp_all add: sgn_1_pos)
  moreover have "0 \<le> sint d div 2 \<and> sint d div 2 < 2 ^ 63" using d sint_bound64[of d] by auto
  ultimately show ?thesis unfolding half_duration_def by (simp only: sint_nonneg_small)
qed

lemma capped_backoff_bounds:
  "0 \<le> sint (eb_maxBackoff e) \<Longrightarrow> 0 \<le> sint (capped_backoff e n) \<and> sint (capped_backoff e n) \<le> sint (eb_maxBackoff e)"
  by (simp add: capped_backoff_def Let_def)

lemma capped_backoff_exact:
  assumes "0 < sint (eb_base e)" and "sint (eb_base e) * 2 ^ n \<le> sint (eb_maxBackoff e)"
  shows "sint (capped_backoff e n) = sint (eb_base e) * 2 ^ n"
proof -
  have p: "0 < sint (eb_base e) * 2 ^ n" using assms(1) by simp
  have "push_bit n (eb_base e) = (word_of_int (sint (eb_base e) * 2 ^ n) :: 64 word)"
    by (simp add: push_bit_eq_mult)
  then have "sint (push_bit n (eb_base e)) = sint (eb_base e) * 2 ^ n"
    using p assms(2) sint_bound64[of "eb_maxBackoff e"] by (simp only: sint_nonneg_small)
  then show ?thesis using p assms(2) by (simp add: capped_backoff_def Let_def)
qed

lemma jitter_bounds:
  assumes "0 \<le> sint d" and "0 \<le> r" and "r < sint (half_duration d) + 1"
  shows "sint d div 2 \<le> sint (half_duration d + word_of_int r) \<and> sint (half_duration d + word_of_int r) \<le> sint d"
proof -
  have h: "sint (half_duration d) = sint d div 2" by (rule sint_half[OF assms(1)])
  have le: "sint d div 2 + r \<le> sint d" using assms h by linarith
  have "half_duration d + word_of_int r = (word_of_int (sint d div 2 + r) :: 64 word)"
    by (simp add: h[symmetric])
  moreover have "sint (word_of_int (sint d div 2 + r) :: 64 word) = sint d div 2 + r"
    using assms le sint_bound64[of d] by (intro sint_nonneg_small) auto
  ultimately show ?thesis using le assms(2) by simp
qed

text \<open>
  Claim C25. The exponential policy, with a cap that is not negative and a random source that keeps to its
  documented range, never panics on a positive attempt; it retries exactly below its maximum number
  of attempts; the backoff stays within \<open>[0, maxBackoff]\<close>; it is \<open>base * 2 ^ (attempt - 1)\<close> where that is below the
  cap, and with jitter lies in the upper half of what it would be without.
\<close>
theorem retry_backoff_bounded:
  assumes "\<forall>n>0. 0 \<le> rnd n \<and> rnd n < n" and "0 \<le> sint (eb_maxBackoff e)" and "1 \<le> attempt"
  shows "\<exists>b. exponentialBackoff_Retry rnd e attempt = Some (b, attempt < eb_maxAttempts e) \<and>
    (attempt < eb_maxAttempts e \<longrightarrow>
       0 \<le> sint b \<and> sint b \<le> sint (eb_maxBackoff e) \<and>
       (let n = nat (attempt - 1); d = sint (capped_backoff e n)
        in (if eb_jitter e then d div 2 \<le> sint b \<and> sint b \<le> d else sint b = d) \<and>
           (0 < sint (eb_base e) \<and> sint (eb_base e) * 2 ^ n \<le> sint (eb_maxBackoff e) \<longrightarrow> d = sint (eb_base e) * 2 ^ n)))"
proof (cases "attempt < eb_maxAttempts e")
  case False
  then show ?thesis by (simp add: exponentialBackoff_Retry_def)
next
  case True
  define d where "d = capped_backoff e (nat (attempt - 1))"
  define b where "b = (if eb_jitter e then half_duration d + word_of_int (rnd (sint (half_duration d) + 1)) else d)"
  have cb: "0 \<le> sint d" "sint d \<le> sint (eb_maxBackoff e)" unfolding d_def using capped_backoff_bounds[OF assms(2)] by auto
  have pos: "0 < sint (half_duration d) + 1" using sint_half[OF cb(1)] cb(1) by simp
  have jb: "sint d div 2 \<le> sint (half_duration d + word_of_int (rnd (sint (half_duration d) + 1))) \<and>
      sint (half_duration d + word_of_int (rnd (sint (half_duration d) + 1))) \<le> sint d"
    using spec[OF assms(1), of "sint (half_duration d) + 1"] pos cb(1) by (intro jitter_bounds) auto
  have r: "exponentialBackoff_Retry rnd e attempt = Some (b, True)"
    using True assms(3) pos by (simp add: exponentialBackoff_Retry_def b_def flip: d_def)
  have "if eb_jitter e then sint d div 2 \<le> sint b \<and> sint b \<le> sint d else sint b = sint d" using jb by (simp add: b_def)
  moreover from this have "0 \<le> sint b \<and> sint b \<le> sint (eb_maxBackoff e)" using cb by (auto split: if_splits)
  ultimately show ?thesis using r True capped_backoff_exact[of e "nat (attempt - 1)"]
    by (intro exI[of _ b]) (simp add: d_def Let_def split: if_splits)
qed

theorem retry_backoff_bounded_witness:
  "\<exists>b. exponentialBackoff_Retry (\<lambda>n. n - 1) DefaultRetryPolicy 2 = Some (b, True) \<and> 500000000 \<le> sint b \<and> sint b \<le> 1000000000"
proof -
  have "sint (capped_backoff DefaultRetryPolicy 1) = 1000000000"
    using capped_backoff_exact[of DefaultRetryPolicy 1] by (simp add: DefaultRetryPolicy_def)
  then show ?thesis using retry_backoff_bounded[of "\<lambda>n. n - 1" DefaultRetryPolicy 2]
    by (auto simp: DefaultRetryPolicy_def)
qed

text \<open>
  The guard against overflow of the shift looks at the sign only: a product that wraps around to a
  small positive value passes, so a later attempt may wait almost no time.
\<close>
lemma backoff_shift_overflows:
  "let e = \<lparr>eb_base = 2 ^ 40 + 1, eb_maxBackoff = 2 ^ 50, eb_maxAttempts = 100, eb_jitter = False\<rparr>
   in exponentialBackoff_Retry rnd e 10 = Some (2 ^ 49 + 2 ^ 9, True) \<and>
      exponentialBackoff_Retry rnd e 25 = Some (2 ^ 24, True)"
  by (simp add: exponentialBackoff_Retry_def capped_backoff_def push_bit_eq_mult Let_def sint_sbintrunc' signed_take_bit_int_eq_self_iff)

section \<open>The contract of an output mapping\<close>

lemma groupByHead_loop_spec:
  "groupByHead_loop rs heads = Inr heads' \<Longrightarrow>
     (\<forall>head h. map_of heads head = Some h \<longrightarrow>
        (\<exists>h'. map_of heads' head = Some h' \<and> set (oh_rules h) \<subseteq> set (oh_rules h') \<and> (oh_hasPlain h \<longrightarrow> oh_hasPlain h'))) \<and>
     (\<forall>r\<in>set rs. \<exists>head steps h'. SplitPath (or_Var r) = Inr (head, steps) \<and> map_of heads' head = Some h' \<and>
        r \<in> set (oh_rules h') \<and> (steps = [] \<longrightarrow> oh_hasPlain h'))"
proof (induction rs arbitrary: heads)
  case (Cons r rs)
  obtain head steps where sp: "SplitPath (or_Var r) = Inr (head, steps)"
    using Cons.prems by (cases "SplitPath (or_Var r)") auto
  define h where "h = (case map_of heads head of Some h \<Rightarrow> h | None \<Rightarrow> \<lparr>oh_rules = [], oh_hasPlain = False\<rparr>)"
  define g where "g = \<lparr>oh_rules = oh_rules h @ [r], oh_hasPlain = (oh_hasPlain h \<or> steps = [])\<rparr>"
  have "groupByHead_loop rs (AList.update head g heads) = Inr heads'"
    using Cons.prems sp by (simp add: Let_def g_def h_def)
  note ih = Cons.IH[OF this]
  obtain h' where h': "map_of heads' head = Some h'" "set (oh_rules g) \<subseteq> set (oh_rules h')" "oh_hasPlain g \<longrightarrow> oh_hasPlain h'"
    using spec[OF spec[OF conjunct1[OF ih], of head], of g] by (auto simp: update_conv')
  have "\<exists>k'. map_of heads' x = Some k' \<and> set (oh_rules k) \<subseteq> set (oh_rules k') \<and> (oh_hasPlain k \<longrightarrow> oh_hasPlain k')"
    if "map_of heads x = Some k" for x k
  proof (cases "x = head")
    case True
    then show ?thesis using h' that by (auto simp: g_def h_def)
  next
    case False
    then show ?thesis using ih that by (simp add: update_conv')
  qed
  moreover have "\<exists>head steps h'. SplitPath (or_Var r) = Inr (head, steps) \<and> map_of heads' head = Some h' \<and> r \<in> set (oh_rules h') \<and> (steps = [] \<longrightarrow> oh_hasPlain h')"
    using sp h' by (auto simp: g_def)
  ultimately show ?case using conjunct2[OF ih] by (intro conjI allI impI ballI) (auto simp only: set_simps insert_iff)
qed simp

lemma mapping_loop_member:
  "mapping_loop gid ee src hs = Some (Inr out) \<Longrightarrow> (head, h) \<in> set hs \<Longrightarrow>
     \<exists>d. assembleHead gid ee src head h = Some (Inr d) \<and> (\<forall>x. d = Some x \<longrightarrow> x \<in> set out)"
proof (induction hs arbitrary: out)
  case (Cons p hs)
  obtain k g where p: "p = (k, g)" by (cases p)
  obtain d ds where d: "assembleHead gid ee src k g = Some (Inr d)" "mapping_loop gid ee src hs = Some (Inr ds)"
    and out: "out = (case d of None \<Rightarrow> ds | Some x \<Rightarrow> x # ds)"
    using Cons.prems(1) by (auto simp: p split: option.splits sum.splits)
  show ?case
  proof (cases "(head, h) = p")
    case True
    then show ?thesis using d p out by auto
  next
    case False
    then obtain d' where "assembleHead gid ee src head h = Some (Inr d')" "\<forall>x. d' = Some x \<longrightarrow> x \<in> set ds"
      using Cons.IH[OF d(2)] Cons.prems(2) by auto
    then show ?thesis using out by (cases d) auto
  qed
qed simp

lemma evalRule_ok: "evalRule ee src r = Inr v \<Longrightarrow> (or_Required r \<longrightarrow> (\<exists>x. ee (or_Path r) src = Inr x)) \<and> (\<forall>x. ee (or_Path r) src = Inr x \<longrightarrow> v = Some x)"
  by (auto simp: evalRule_def split: sum.splits if_splits)

lemma assemble_loop_ok:
  "assemble_loop ee src head rs rec w = Some (Inr (rec', w')) \<Longrightarrow>
     (w \<longrightarrow> w') \<and> (\<forall>r\<in>set rs. \<exists>v. evalRule ee src r = Inr v \<and> (v \<noteq> None \<longrightarrow> w'))"
proof (induction rs arbitrary: rec w)
  case (Cons r rs)
  obtain v where v: "evalRule ee src r = Inr v" using Cons.prems by (cases "evalRule ee src r") auto
  show ?case
  proof (cases v)
    case None
    then show ?thesis using Cons.IH[of rec w] Cons.prems v by simp
  next
    case (Some x)
    then obtain rec1 where "assemble_loop ee src head rs rec1 True = Some (Inr (rec', w'))"
      using Cons.prems v by (auto split: prod.splits outcome.splits)
    then show ?thesis using Cons.IH v by auto
  qed
qed simp

lemma outputDatum_ok: "outputDatum gid name v = Inr d \<Longrightarrow> dt_name d = TrimSpace name \<and> dt_value d = v \<and> dt_ready d"
  by (auto simp: outputDatum_def NewParameter_def Let_def split: sum.splits if_splits)

lemma assembleHead_ok:
  assumes "assembleHead gid ee src head h = Some (Inr d)" and "r \<in> set (oh_rules h)"
  shows "\<exists>v. evalRule ee src r = Inr v \<and>
    (\<forall>x. v = Some x \<longrightarrow> (\<exists>y. d = Some y \<and> dt_name y = TrimSpace head \<and> (oh_hasPlain h \<longrightarrow> dt_value y = x)))"
proof (cases "oh_hasPlain h")
  case True
  have "length (oh_rules h) = 1" using assms True by (cases "oh_rules h") (auto simp: assembleHead_def split: if_splits)
  then obtain r0 where "oh_rules h = [r0]" by (metis One_nat_def length_0_conv length_Suc_conv)
  then show ?thesis using assms True outputDatum_ok[of gid head]
    by (auto simp: assembleHead_def split: sum.splits option.splits if_splits)
next
  case False
  then obtain rec w where l: "assemble_loop ee src head (oh_rules h) (Rec []) False = Some (Inr (rec, w))"
    and d: "(if \<not> w then Inr None else (case outputDatum gid head rec of Inl e \<Rightarrow> Inl e | Inr d \<Rightarrow> Inr (Some d))) = Inr d"
    using assms(1) by (auto simp: assembleHead_def split: option.splits sum.splits)
  obtain v where "evalRule ee src r = Inr v" "v \<noteq> None \<longrightarrow> w" using assemble_loop_ok[OF l] assms(2) by auto
  then show ?thesis using d False outputDatum_ok[of gid head] by (auto split: sum.splits if_splits)
qed

text \<open>
  A mapping that succeeds honours its rules: every variable parsed; every required path evaluated; every
  path that evaluated contributes to a datum named by the head of its variable, and a whole-value rule
  is that datum's value.
\<close>
theorem output_mapping_contract:
  assumes "ApplyOutputMapping gid str ee rules body = Some (Inr out)" and "r \<in> set rules"
  shows "\<exists>head steps. SplitPath (or_Var r) = Inr (head, steps) \<and>
    (let ev = ee (or_Path r) (faultSource_Find gid str (Some body) [])
     in (or_Required r \<longrightarrow> (\<exists>x. ev = Inr x)) \<and>
        (\<forall>x. ev = Inr x \<longrightarrow> (\<exists>y. y \<in> set out \<and> dt_name y = TrimSpace head \<and> (steps = [] \<longrightarrow> dt_value y = x))))"
proof -
  let ?src = "faultSource_Find gid str (Some body) []"
  obtain heads where g: "groupByHead rules = Inr heads" and m: "mapping_loop gid ee ?src heads = Some (Inr out)"
    using assms(1) by (auto simp: ApplyOutputMapping_def split: sum.splits)
  obtain head steps h where h: "SplitPath (or_Var r) = Inr (head, steps)" "map_of heads head = Some h" "r \<in> set (oh_rules h)"
    "steps = [] \<longrightarrow> oh_hasPlain h"
    using groupByHead_loop_spec[OF g[unfolded groupByHead_def]] assms(2) by meson
  obtain d where d: "assembleHead gid ee ?src head h = Some (Inr d)" "\<forall>x. d = Some x \<longrightarrow> x \<in> set out"
    using mapping_loop_member[OF m map_of_SomeD[OF h(2)]] by blast
  obtain v where v: "evalRule ee ?src r = Inr v"
    "\<forall>x. v = Some x \<longrightarrow> (\<exists>y. d = Some y \<and> dt_name y = TrimSpace head \<and> (oh_hasPlain h \<longrightarrow> dt_value y = x))"
    using assembleHead_ok[OF d(1) h(3)] by blast
  have "\<exists>y. y \<in> set out \<and> dt_name y = TrimSpace head \<and> (steps = [] \<longrightarrow> dt_value y = x)" if "ee (or_Path r) ?src = Inr x" for x
    using evalRule_ok[OF v(1)] that v(2) d(2) h(4) by metis
  then show ?thesis using h(1) evalRule_ok[OF v(1)] by (simp add: Let_def)
qed

theorem output_mapping_contract_witness:
  "\<exists>out. ApplyOutputMapping ''g'' (\<lambda>_. False) (\<lambda>x src. Inr (Scalar x)) [\<lparr>or_Path = True, or_Var = ''ok'', or_Required = True\<rparr>] (''i'', VNil) =
     Some (Inr out) \<and> (\<exists>y. y \<in> set out \<and> dt_name y = ''ok'' \<and> dt_value y = Scalar True)"
proof -
  let ?r = "\<lparr>or_Path = True, or_Var = ''ok'', or_Required = True\<rparr>"
  let ?ee = "\<lambda>(x :: bool) src. Inr (Scalar x)"
  have s: "SplitPath ''ok'' = Inr (''ok'', [])" by (simp add: SplitPath_def structural_def)
  have t: "TrimSpace ''ok'' = ''ok''" by code_simp
  have "ApplyOutputMapping ''g'' (\<lambda>_. False) ?ee [?r] (''i'', VNil) =
      Some (Inr [\<lparr>dt_name = ''ok'', dt_idef = Some ''g'', dt_value = Scalar True, dt_ready = True\<rparr>])"
    by (simp add: ApplyOutputMapping_def groupByHead_def s assembleHead_def evalRule_def outputDatum_def NewParameter_def t
        CheckName_def reservedNameChars_def Let_def)
  from this output_mapping_contract[OF this, of ?r] show ?thesis using s t by (auto simp: Let_def)
qed

end
