(* ===== verification/Job_Dispatch.thy ===== *)
theory Job_Dispatch
  imports Job_Policy "HOL-Library.Multiset"
begin

text \<open>
  The in-process job dispatcher (\<^verbatim>\<open>src/pkg/tasks/localdispatcher/localdispatcher.go\<close>): a fetch-and-lock
  store of jobs with lock deadlines, retry gates and engine-side classification, and the worker that
  runs a trusted policy in-process.

  Every critical section of the dispatcher's mutex is one step; an operation that leaves the mutex
  in between (\<^verbatim>\<open>Complete\<close>, \<^verbatim>\<open>Fail\<close>) is the sequence of its sections. A Go \<^verbatim>\<open>time.Time\<close> is an integer, the zero
  time is \<open>0\<close>; \<open>now\<close> is what the clock shows in the section. The entries of \<^verbatim>\<open>byTopic\<close> point into \<^verbatim>\<open>byID\<close>
  and are named by the job id. The wake channel is a counter of broadcasts. Logging and facts are left
  out; the answer of the completion sink is the caller's and not the dispatcher's.
\<close>

section \<open>State\<close>

datatype dispErr =
    ErrEmptyJobID | ErrEmptyTopic | ErrDuplicateJob | ErrJobNotFound | ErrNotLockHolder
  | ErrLockExpired | ErrMaxLockExceeded | ErrNoSink | ErrNilWorker | ErrDuplicateWorker

record ('x, 'v, 'c) Job =
  jb_Input :: "'v item option"
  jb_Policy :: "('x, 'v, 'c) Policy option"
  jb_ID :: string
  jb_Topic :: string

record ('x, 'v, 'c) LockedJob =
  lj_Deadline :: int
  lj_Job :: "('x, 'v, 'c) Job"
  lj_WorkerID :: string

record ('x, 'v, 'c) jobEntry =
  je_firstLock :: int
  je_deadline :: int
  je_notBefore :: int
  je_job :: "('x, 'v, 'c) Job"
  je_workerID :: string
  je_attempt :: int

record ('x, 'v, 'c) Dispatcher =
  dp_sink :: bool
  dp_exprEngine :: "('x, 'v) expr_engine option"
  dp_byID :: "(string \<times> ('x, 'v, 'c) jobEntry) list"
  dp_byTopic :: "(string \<times> string list) list"
  dp_workers :: "string list"
  dp_wake :: nat
  dp_maxLock :: int

definition defaultMaxLockDuration :: int where
  "defaultMaxLockDuration = 5 * 60 * 1000000000"

definition Dispatcher_New :: "int \<Rightarrow> ('x, 'v, 'c) Dispatcher" where
  "Dispatcher_New maxLock =
     \<lparr>dp_sink = False, dp_exprEngine = None, dp_byID = [], dp_byTopic = [], dp_workers = [], dp_wake = 0,
      dp_maxLock = (if maxLock \<le> 0 then defaultMaxLockDuration else maxLock)\<rparr>"

definition BindSink :: "bool \<Rightarrow> ('x, 'v, 'c) Dispatcher \<Rightarrow> ('x, 'v, 'c) Dispatcher" where
  "BindSink sink d = d\<lparr>dp_sink := sink\<rparr>"

definition BindExpressionEngine :: "('x, 'v) expr_engine option \<Rightarrow> ('x, 'v, 'c) Dispatcher \<Rightarrow> ('x, 'v, 'c) Dispatcher" where
  "BindExpressionEngine ee d = (if ee = None then d else d\<lparr>dp_exprEngine := ee\<rparr>)"

definition broadcastLocked :: "('x, 'v, 'c) Dispatcher \<Rightarrow> ('x, 'v, 'c) Dispatcher" where
  "broadcastLocked d = d\<lparr>dp_wake := Suc (dp_wake d)\<rparr>"

definition topic_queue :: "('x, 'v, 'c) Dispatcher \<Rightarrow> string \<Rightarrow> string list" where
  "topic_queue d t = (case map_of (dp_byTopic d) t of None \<Rightarrow> [] | Some q \<Rightarrow> q)"

section \<open>Enqueue, fetch, extend\<close>

definition Enqueue :: "('x, 'v, 'c) Job \<Rightarrow> ('x, 'v, 'c) Dispatcher \<Rightarrow> ('x, 'v, 'c) Dispatcher \<times> (dispErr + unit)" where
  "Enqueue job d =
     (if jb_ID job = [] then (d, Inl ErrEmptyJobID)
      else if jb_Topic job = [] then (d, Inl ErrEmptyTopic)
      else if has_key (jb_ID job) (dp_byID d) then (d, Inl ErrDuplicateJob)
      else
        (let e = \<lparr>je_firstLock = 0, je_deadline = 0, je_notBefore = 0, je_job = job, je_workerID = [], je_attempt = 0\<rparr>
         in (broadcastLocked
               (d\<lparr>dp_byID := AList.update (jb_ID job) e (dp_byID d),
                  dp_byTopic := AList.update (jb_Topic job) (topic_queue d (jb_Topic job) @ [jb_ID job]) (dp_byTopic d)\<rparr>),
             Inr ())))"

text \<open>The two guards of the scan: locked and not expired; gated by a retry backoff.\<close>

definition lock_live :: "int \<Rightarrow> ('x, 'v, 'c) jobEntry \<Rightarrow> bool" where
  "lock_live now e \<longleftrightarrow> je_workerID e \<noteq> [] \<and> \<not> now > je_deadline e"

definition gated :: "int \<Rightarrow> ('x, 'v, 'c) jobEntry \<Rightarrow> bool" where
  "gated now e \<longleftrightarrow> je_notBefore e \<noteq> 0 \<and> now < je_notBefore e"

fun lock_scan :: "int \<Rightarrow> (string \<times> ('x, 'v, 'c) jobEntry) list \<Rightarrow> string list \<Rightarrow> int \<Rightarrow> string option \<times> int" where
  "lock_scan now byID [] gate = (None, gate)"
| "lock_scan now byID (j # js) gate =
     (case map_of byID j of
        None \<Rightarrow> lock_scan now byID js gate
      | Some e \<Rightarrow>
          (if lock_live now e then lock_scan now byID js gate
           else if gated now e
           then lock_scan now byID js (if gate = 0 \<or> je_notBefore e < gate then je_notBefore e else gate)
           else (Some j, 0)))"

definition lockNext :: "int \<Rightarrow> string \<Rightarrow> string list \<Rightarrow> int \<Rightarrow> ('x, 'v, 'c) Dispatcher \<Rightarrow>
    ('x, 'v, 'c) Dispatcher \<times> ('x, 'v, 'c) LockedJob option \<times> int" where
  "lockNext now workerID topics lockDuration d =
     (case lock_scan now (dp_byID d) (concat (map (topic_queue d) topics)) 0 of
        (None, gate) \<Rightarrow> (d, None, gate)
      | (Some j, _) \<Rightarrow>
          (case map_of (dp_byID d) j of
             None \<Rightarrow> (d, None, 0)
           | Some e \<Rightarrow>
               (let e' = e\<lparr>je_workerID := workerID, je_firstLock := now, je_deadline := now + lockDuration, je_notBefore := 0\<rparr>
                in (d\<lparr>dp_byID := AList.update j e' (dp_byID d)\<rparr>,
                    Some \<lparr>lj_Deadline = je_deadline e', lj_Job = je_job e', lj_WorkerID = workerID\<rparr>, 0))))"

text \<open>
  A fetcher that found nothing blocks with the broadcast count and the gate it saw; it scans again once
  there was a broadcast, or the timer for the gate has fired.
\<close>

definition fetch_rescans :: "nat \<Rightarrow> int \<Rightarrow> int \<Rightarrow> ('x, 'v, 'c) Dispatcher \<Rightarrow> bool" where
  "fetch_rescans wake gate now d \<longleftrightarrow> dp_wake d \<noteq> wake \<or> gate \<noteq> 0 \<and> now \<ge> gate"

definition heldEntry :: "int \<Rightarrow> string \<Rightarrow> string \<Rightarrow> ('x, 'v, 'c) Dispatcher \<Rightarrow> dispErr + ('x, 'v, 'c) jobEntry" where
  "heldEntry now jobID workerID d =
     (case map_of (dp_byID d) jobID of
        None \<Rightarrow> Inl ErrJobNotFound
      | Some e \<Rightarrow>
          (if je_workerID e \<noteq> workerID then Inl ErrNotLockHolder
           else if now > je_deadline e then Inl ErrLockExpired
           else Inr e))"

definition ExtendLock :: "int \<Rightarrow> int \<Rightarrow> string \<Rightarrow> string \<Rightarrow> int \<Rightarrow> ('x, 'v, 'c) Dispatcher \<Rightarrow>
    ('x, 'v, 'c) Dispatcher \<times> (dispErr + unit)" where
  "ExtendLock now now' jobID workerID newDuration d =
     (case heldEntry now jobID workerID d of
        Inl err \<Rightarrow> (d, Inl err)
      | Inr e \<Rightarrow>
          (let newDeadline = now' + newDuration
           in if newDeadline > je_firstLock e + dp_maxLock d then (d, Inl ErrMaxLockExceeded)
              else (d\<lparr>dp_byID := AList.update jobID (e\<lparr>je_deadline := newDeadline\<rparr>) (dp_byID d)\<rparr>, Inr ())))"

section \<open>Reports\<close>

definition remove_job :: "('x, 'v, 'c) jobEntry \<Rightarrow> ('x, 'v, 'c) Dispatcher \<Rightarrow> ('x, 'v, 'c) Dispatcher" where
  "remove_job e d =
     (let j = jb_ID (je_job e); t = jb_Topic (je_job e)
      in d\<lparr>dp_byID := AList.delete j (dp_byID d),
           dp_byTopic := (if j \<in> set (topic_queue d t)
                          then AList.update t (remove1 j (topic_queue d t)) (dp_byTopic d) else dp_byTopic d)\<rparr>)"

text \<open>On success the outcome is handed to the sink.\<close>

definition report :: "int \<Rightarrow> string \<Rightarrow> string \<Rightarrow> ('v, 'c) WorkerOutcome \<Rightarrow> ('x, 'v, 'c) Dispatcher \<Rightarrow>
    ('x, 'v, 'c) Dispatcher \<times> (dispErr + ('v, 'c) WorkerOutcome)" where
  "report now jobID workerID outcome d =
     (case heldEntry now jobID workerID d of
        Inl err \<Rightarrow> (d, Inl err)
      | Inr e \<Rightarrow> (if \<not> dp_sink d then (d, Inl ErrNoSink) else (remove_job e d, Inr outcome)))"

text \<open>
  What the dispatcher needs of its surroundings: the ids generated for items, the string values, the
  bool reading of a value, the random source; \<open>err_cause\<close> makes a Go error of an application error.
\<close>

record ('v, 'c) disp_env =
  de_gid :: string
  de_str :: "string \<Rightarrow> 'v"
  de_as_bool :: "'v val \<Rightarrow> bool option"
  de_rnd :: "int \<Rightarrow> int"
  de_err_cause :: "app_error \<Rightarrow> 'c"

definition mapOutput :: "('v, 'c) disp_env \<Rightarrow> ('x, 'v) expr_engine option \<Rightarrow> ('x, 'v, 'c) Policy option \<Rightarrow> 'v item option \<Rightarrow>
    'v sdatum list result option" where
  "mapOutput env ee policy output =
     (case output of
        None \<Rightarrow> Some (Inr [])
      | Some (i, v) \<Rightarrow>
          (case (policy, ee) of
             (Some p, Some eng) \<Rightarrow>
               (if po_OutputMapping p \<noteq> []
                then ApplyOutputMapping (de_gid env) (de_str env) eng (po_OutputMapping p) (i, v)
                else Some (case NewParameter i i v of
                             Inl _ \<Rightarrow> Inl (AppError Unclassified ''localdispatcher: couldn't build job output datum %q: %w'')
                           | Inr d \<Rightarrow> Inr [d]))
           | _ \<Rightarrow> Some (case NewParameter i i v of
                          Inl _ \<Rightarrow> Inl (AppError Unclassified ''localdispatcher: couldn't build job output datum %q: %w'')
                        | Inr d \<Rightarrow> Inr [d])))"

fun Classify :: "('v, 'c) disp_env \<Rightarrow> ('x, 'v) expr_engine \<Rightarrow> ('x, 'v, 'c) ErrorMapper \<Rightarrow> ('v, 'c) Fault \<Rightarrow>
    'v MappedOutcome option result" where
  "Classify env ee (RuleMapper rules) f = RuleMapper_Classify (de_gid env) (de_str env) ee (de_as_bool env) rules f"
| "Classify env ee (CustomMapper m) f = m ee f"

definition classify :: "('v, 'c) disp_env \<Rightarrow> string \<Rightarrow> ('x, 'v, 'c) Policy option \<Rightarrow> ('x, 'v) expr_engine option \<Rightarrow>
    ('v, 'c) Fault \<Rightarrow> ('v, 'c) WorkerOutcome" where
  "classify env jobID policy ee fault =
     (case (policy, ee) of
        (Some p, Some eng) \<Rightarrow>
          (case po_ErrorMapper p of
             None \<Rightarrow> OutcomeFault jobID fault
           | Some m \<Rightarrow>
               (case Classify env eng m fault of
                  Inl _ \<Rightarrow> OutcomeFault jobID fault
                | Inr (Some (BpmnError code msg)) \<Rightarrow> OutcomeBpmnError jobID code msg
                | Inr (Some (StatusOutcome v)) \<Rightarrow> OutcomeStatus jobID v
                | Inr _ \<Rightarrow> OutcomeFault jobID fault))
      | _ \<Rightarrow> OutcomeFault jobID fault)"

definition retryDecision :: "('v, 'c) disp_env \<Rightarrow> ('x, 'v, 'c) Policy option \<Rightarrow> int \<Rightarrow> 'c \<Rightarrow> retry_verdict" where
  "retryDecision env policy attempt cause =
     (case policy of
        None \<Rightarrow> Some (0, False)
      | Some p \<Rightarrow> (case po_RetryPolicy p of None \<Rightarrow> Some (0, False) | Some r \<Rightarrow> Retry (de_rnd env) r attempt cause))"

text \<open>
  The critical section of \<^verbatim>\<open>retryOrExhaust\<close>: \<open>Inl (Inl err)\<close> an error, \<open>Inl (Inr ())\<close> re-armed for a later
  fetch, \<open>Inr outcome\<close> exhausted, to be reported; \<open>None\<close> a panic of the policy.
\<close>

definition retry_section :: "('v, 'c) disp_env \<Rightarrow> int \<Rightarrow> int \<Rightarrow> string \<Rightarrow> string \<Rightarrow> ('x, 'v, 'c) Policy option \<Rightarrow> ('v, 'c) Fault \<Rightarrow>
    ('x, 'v, 'c) Dispatcher \<Rightarrow> (('x, 'v, 'c) Dispatcher \<times> ((dispErr + unit) + ('v, 'c) WorkerOutcome)) option" where
  "retry_section env now now' jobID workerID policy fault d =
     (case heldEntry now jobID workerID d of
        Inl err \<Rightarrow> Some (d, Inl (Inl err))
      | Inr e \<Rightarrow>
          (let attempt = je_attempt e + 1
           in case retryDecision env policy attempt (ft_Cause fault) of
                None \<Rightarrow> None
              | Some (backoff, retry) \<Rightarrow>
                  (if retry
                   then Some (broadcastLocked
                          (d\<lparr>dp_byID := AList.update jobID
                               (e\<lparr>je_workerID := [], je_attempt := attempt, je_notBefore := now' + sint backoff\<rparr>) (dp_byID d)\<rparr>),
                          Inl (Inr ()))
                   else Some (d, Inr (OutcomeFault jobID fault)))))"

text \<open>The operations that leave the mutex, run without another one in between; \<open>ts\<close> are the clock readings.\<close>

definition retryOrExhaust :: "('v, 'c) disp_env \<Rightarrow> int \<Rightarrow> int \<Rightarrow> int \<Rightarrow> string \<Rightarrow> string \<Rightarrow> ('x, 'v, 'c) Policy option \<Rightarrow> ('v, 'c) Fault \<Rightarrow>
    ('x, 'v, 'c) Dispatcher \<Rightarrow> (('x, 'v, 'c) Dispatcher \<times> (dispErr + ('v, 'c) WorkerOutcome option)) option" where
  "retryOrExhaust env t1 t2 t3 jobID workerID policy fault d =
     (case retry_section env t1 t2 jobID workerID policy fault d of
        None \<Rightarrow> None
      | Some (d', Inl (Inl err)) \<Rightarrow> Some (d', Inl err)
      | Some (d', Inl (Inr _)) \<Rightarrow> Some (d', Inr None)
      | Some (d', Inr outcome) \<Rightarrow>
          (case report t3 jobID workerID outcome d' of
             (d'', Inl err) \<Rightarrow> Some (d'', Inl err)
           | (d'', Inr o') \<Rightarrow> Some (d'', Inr (Some o'))))"

definition report_lift :: "('x, 'v, 'c) Dispatcher \<times> (dispErr + ('v, 'c) WorkerOutcome) \<Rightarrow>
    ('x, 'v, 'c) Dispatcher \<times> (dispErr + ('v, 'c) WorkerOutcome option)" where
  "report_lift r = (case r of (d, Inl err) \<Rightarrow> (d, Inl err) | (d, Inr outcome) \<Rightarrow> (d, Inr (Some outcome)))"

definition Complete :: "('v, 'c) disp_env \<Rightarrow> int \<Rightarrow> int \<Rightarrow> string \<Rightarrow> string \<Rightarrow> 'v item option \<Rightarrow> ('x, 'v, 'c) Dispatcher \<Rightarrow>
    (('x, 'v, 'c) Dispatcher \<times> (dispErr + ('v, 'c) WorkerOutcome option)) option" where
  "Complete env t1 t2 jobID workerID output d =
     (case heldEntry t1 jobID workerID d of
        Inl err \<Rightarrow> Some (d, Inl err)
      | Inr e \<Rightarrow>
          (case mapOutput env (dp_exprEngine d) (jb_Policy (je_job e)) output of
             None \<Rightarrow> None
           | Some (Inl mapErr) \<Rightarrow>
               Some (report_lift (report t2 jobID workerID
                 (OutcomeFault jobID \<lparr>ft_Body = None, ft_Cause = de_err_cause env mapErr, ft_Code = []\<rparr>) d))
           | Some (Inr res) \<Rightarrow> Some (report_lift (report t2 jobID workerID (OutcomeComplete jobID res) d))))"

definition Fail :: "('v, 'c) disp_env \<Rightarrow> int \<Rightarrow> int \<Rightarrow> int \<Rightarrow> int \<Rightarrow> string \<Rightarrow> string \<Rightarrow> ('v, 'c) Fault \<Rightarrow> ('x, 'v, 'c) Dispatcher \<Rightarrow>
    (('x, 'v, 'c) Dispatcher \<times> (dispErr + ('v, 'c) WorkerOutcome option)) option" where
  "Fail env t1 t2 t3 t4 jobID workerID fault d =
     (case heldEntry t1 jobID workerID d of
        Inl err \<Rightarrow> Some (d, Inl err)
      | Inr e \<Rightarrow>
          (let policy = jb_Policy (je_job e); outcome = classify env jobID policy (dp_exprEngine d) fault
           in if \<not> is_fault outcome then Some (report_lift (report t2 jobID workerID outcome d))
              else retryOrExhaust env t2 t3 t4 jobID workerID policy fault d))"

definition ReportBpmnError :: "int \<Rightarrow> string \<Rightarrow> string \<Rightarrow> string \<Rightarrow> string \<Rightarrow> ('x, 'v, 'c) Dispatcher \<Rightarrow>
    ('x, 'v, 'c) Dispatcher \<times> (dispErr + ('v, 'c) WorkerOutcome)" where
  "ReportBpmnError now jobID workerID code message d = report now jobID workerID (OutcomeBpmnError jobID code message) d"

definition ReportStatus :: "int \<Rightarrow> string \<Rightarrow> string \<Rightarrow> 'v val \<Rightarrow> ('x, 'v, 'c) Dispatcher \<Rightarrow>
    ('x, 'v, 'c) Dispatcher \<times> (dispErr + ('v, 'c) WorkerOutcome)" where
  "ReportStatus now jobID workerID v d = report now jobID workerID (OutcomeStatus jobID v) d"

definition RegisterWorker :: "string \<Rightarrow> bool \<Rightarrow> ('x, 'v, 'c) Dispatcher \<Rightarrow> ('x, 'v, 'c) Dispatcher \<times> (dispErr + unit)" where
  "RegisterWorker topic fn_nil d =
     (if topic = [] then (d, Inl ErrEmptyTopic)
      else if fn_nil then (d, Inl ErrNilWorker)
      else if topic \<in> set (dp_workers d) then (d, Inl ErrDuplicateWorker)
      else (d\<lparr>dp_workers := topic # dp_workers d\<rparr>, Inr ()))"

section \<open>The trusted worker\<close>

text \<open>
  What the worker function returns: an output, or an error with the \<^verbatim>\<open>*WorkerError\<close> that
  \<^verbatim>\<open>errors.As\<close> finds in it. \<open>work n\<close> is the result of the \<open>n\<close>-th call, \<open>clk n\<close> the clock after it, \<open>quit n\<close> whether
  the context ends during the wait that follows.
\<close>

datatype ('v, 'c) work_result = WorkOk "'v item option" | WorkErr 'c "'v WorkerError option"

datatype ('v, 'c) trusted_end = Reported "('v, 'c) WorkerOutcome" | Cancelled | Panicked | OutOfFuel

definition businessVerdict :: "string \<Rightarrow> 'v WorkerError \<Rightarrow> ('v, 'c) WorkerOutcome option" where
  "businessVerdict jobID we =
     (if we_BpmnErrorCode we \<noteq> [] then Some (OutcomeBpmnError jobID (we_BpmnErrorCode we) (we_Message we))
      else (case we_Status we of Some v \<Rightarrow> Some (OutcomeStatus jobID v) | None \<Rightarrow> None))"

fun runTrusted :: "('v, 'c) disp_env \<Rightarrow> ('x, 'v) expr_engine option \<Rightarrow> ('x, 'v, 'c) LockedJob \<Rightarrow> (int \<Rightarrow> ('v, 'c) work_result) \<Rightarrow>
    (int \<Rightarrow> int) \<Rightarrow> (int \<Rightarrow> bool) \<Rightarrow> nat \<Rightarrow> int \<Rightarrow> ('v, 'c) trusted_end" where
  "runTrusted env ee lj work clk quit 0 attempt = OutOfFuel"
| "runTrusted env ee lj work clk quit (Suc fuel) attempt =
     (let j = jb_ID (lj_Job lj); policy = jb_Policy (lj_Job lj)
      in case work attempt of
           WorkOk out \<Rightarrow>
             (case mapOutput env ee policy out of
                None \<Rightarrow> Panicked
              | Some (Inl mapErr) \<Rightarrow>
                  Reported (OutcomeFault j \<lparr>ft_Body = None, ft_Cause = de_err_cause env mapErr, ft_Code = []\<rparr>)
              | Some (Inr res) \<Rightarrow> Reported (OutcomeComplete j res))
         | WorkErr err we \<Rightarrow>
             (case Option.bind we (businessVerdict j) of
                Some verdict \<Rightarrow> Reported verdict
              | None \<Rightarrow>
                  (let outcome = classify env j policy ee \<lparr>ft_Body = None, ft_Cause = err, ft_Code = []\<rparr>
                   in if \<not> is_fault outcome then Reported outcome
                      else (case retryDecision env policy attempt err of
                              None \<Rightarrow> Panicked
                            | Some (backoff, retry) \<Rightarrow>
                                (if \<not> retry \<or> \<not> clk attempt + sint backoff < lj_Deadline lj then Reported outcome
                                 else if quit attempt then Cancelled
                                 else runTrusted env ee lj work clk quit fuel (attempt + 1))))))"

section \<open>The store's invariant\<close>

definition disp_ok :: "('x, 'v, 'c) Dispatcher \<Rightarrow> bool" where
  "disp_ok d \<longleftrightarrow>
     distinct (map fst (dp_byID d)) \<and>
     (\<forall>j e. map_of (dp_byID d) j = Some e \<longrightarrow> jb_ID (je_job e) = j \<and> j \<in> set (topic_queue d (jb_Topic (je_job e)))) \<and>
     (\<forall>t. distinct (topic_queue d t) \<and>
        (\<forall>j. j \<in> set (topic_queue d t) \<longrightarrow> (\<exists>e. map_of (dp_byID d) j = Some e \<and> jb_Topic (je_job e) = t)))"

lemma disp_okD:
  assumes "disp_ok d"
  shows "distinct (map fst (dp_byID d))"
    and "map_of (dp_byID d) j = Some e \<Longrightarrow> jb_ID (je_job e) = j"
    and "map_of (dp_byID d) j = Some e \<Longrightarrow> j \<in> set (topic_queue d (jb_Topic (je_job e)))"
    and "distinct (topic_queue d t)"
    and "j \<in> set (topic_queue d t) \<Longrightarrow> \<exists>e. map_of (dp_byID d) j = Some e \<and> jb_Topic (je_job e) = t"
  using assms unfolding disp_ok_def by blast+

lemma topic_queue_simps [simp]:
  "topic_queue (d\<lparr>dp_byID := m\<rparr>) t = topic_queue d t"
  "topic_queue (d\<lparr>dp_wake := w\<rparr>) t = topic_queue d t"
  "topic_queue (d\<lparr>dp_sink := b\<rparr>) t = topic_queue d t"
  "topic_queue (d\<lparr>dp_exprEngine := ee\<rparr>) t = topic_queue d t"
  "topic_queue (d\<lparr>dp_workers := ws\<rparr>) t = topic_queue d t"
  "topic_queue (d\<lparr>dp_byTopic := AList.update u q n\<rparr>) t = (if t = u then q else topic_queue (d\<lparr>dp_byTopic := n\<rparr>) t)"
  by (simp_all add: topic_queue_def update_conv')

lemma topic_queue_same [simp]: "topic_queue (d\<lparr>dp_byTopic := dp_byTopic d\<rparr>) t = topic_queue d t"
  by (simp add: topic_queue_def)

lemma topic_queue_broadcast [simp]:
  "topic_queue (broadcastLocked d) t = topic_queue d t" "dp_byID (broadcastLocked d) = dp_byID d"
  by (simp_all add: broadcastLocked_def)

text \<open>Replacing an entry by one of the same job keeps the store's shape.\<close>

lemma disp_ok_update:
  assumes "disp_ok d" and "map_of (dp_byID d) j = Some e" and "je_job e' = je_job e"
  shows "disp_ok (d\<lparr>dp_byID := AList.update j e' (dp_byID d)\<rparr>)"
proof -
  note ok = disp_okD[OF assms(1)]
  show ?thesis unfolding disp_ok_def
  proof (intro conjI allI impI)
    show "distinct (map fst (dp_byID (d\<lparr>dp_byID := AList.update j e' (dp_byID d)\<rparr>)))" using ok(1) by (simp add: distinct_update)
  next
    fix i f assume f: "map_of (dp_byID (d\<lparr>dp_byID := AList.update j e' (dp_byID d)\<rparr>)) i = Some f"
    show "jb_ID (je_job f) = i" "i \<in> set (topic_queue (d\<lparr>dp_byID := AList.update j e' (dp_byID d)\<rparr>) (jb_Topic (je_job f)))"
      using f ok(2,3)[of i f] ok(2,3)[OF assms(2)] assms(3) by (auto simp: update_conv' split: if_splits)
  next
    fix t
    show "distinct (topic_queue (d\<lparr>dp_byID := AList.update j e' (dp_byID d)\<rparr>) t)" using ok(4) by simp
    fix i assume "i \<in> set (topic_queue (d\<lparr>dp_byID := AList.update j e' (dp_byID d)\<rparr>) t)"
    then obtain f where "map_of (dp_byID d) i = Some f" "jb_Topic (je_job f) = t" using ok(5) by auto
    then show "\<exists>f. map_of (dp_byID (d\<lparr>dp_byID := AList.update j e' (dp_byID d)\<rparr>)) i = Some f \<and> jb_Topic (je_job f) = t"
      using assms(2,3) by (auto simp: update_conv')
  qed
qed

lemma disp_ok_cong:
  "dp_byID d' = dp_byID d \<Longrightarrow> dp_byTopic d' = dp_byTopic d \<Longrightarrow> disp_ok d' = disp_ok d"
  by (simp add: disp_ok_def topic_queue_def)

lemma disp_ok_broadcast [simp]: "disp_ok (broadcastLocked d) = disp_ok d"
  by (rule disp_ok_cong) (simp_all add: broadcastLocked_def)

lemma update_keeps_keys: "map_of m k = Some v \<Longrightarrow> map fst (AList.update k v' m) = map fst m"
  by (induction m) auto

lemma keys_delete: "map fst (AList.delete k m) = removeAll k (map fst m)"
  by (induction m) auto

lemma Enqueue_ok:
  assumes "disp_ok d" and "Enqueue job d = (d', Inr ())"
  shows "disp_ok d' \<and> map fst (dp_byID d') = map fst (dp_byID d) @ [jb_ID job]"
proof -
  note ok = disp_okD[OF assms(1)]
  let ?e = "\<lparr>je_firstLock = 0, je_deadline = 0, je_notBefore = 0, je_job = job, je_workerID = [], je_attempt = 0\<rparr>"
  let ?t = "jb_Topic job"
  let ?b = "d\<lparr>dp_byID := AList.update (jb_ID job) ?e (dp_byID d), dp_byTopic := AList.update ?t (topic_queue d ?t @ [jb_ID job]) (dp_byTopic d)\<rparr>"
  have new: "\<not> has_key (jb_ID job) (dp_byID d)" and d': "d' = broadcastLocked ?b"
    using assms(2) by (auto simp: Enqueue_def Let_def split: if_splits)
  have none: "map_of (dp_byID d) (jb_ID job) = None" using new by (simp add: has_key_map_of)
  have fresh: "jb_ID job \<notin> set (topic_queue d t)" for t using ok(5)[of "jb_ID job" t] none by auto
  have q: "topic_queue ?b t = (if t = ?t then topic_queue d ?t @ [jb_ID job] else topic_queue d t)" for t
    by (simp add: topic_queue_def update_conv')
  have "disp_ok ?b" unfolding disp_ok_def q
  proof (intro conjI allI impI)
    show "distinct (map fst (dp_byID ?b))" using ok(1) by (simp add: distinct_update)
  next
    fix i f assume "map_of (dp_byID ?b) i = Some f"
    then show "jb_ID (je_job f) = i"
      "i \<in> set (if jb_Topic (je_job f) = ?t then topic_queue d ?t @ [jb_ID job] else topic_queue d (jb_Topic (je_job f)))"
      using ok(2,3)[of i f] by (auto simp: update_conv' split: if_splits)
  next
    fix t
    show "distinct (if t = ?t then topic_queue d ?t @ [jb_ID job] else topic_queue d t)" using ok(4) fresh by simp
    fix i assume "i \<in> set (if t = ?t then topic_queue d ?t @ [jb_ID job] else topic_queue d t)"
    then show "\<exists>f. map_of (dp_byID ?b) i = Some f \<and> jb_Topic (je_job f) = t"
      using ok(5)[of i t] none by (auto simp: update_conv' split: if_splits)
  qed
  then show ?thesis using new by (simp add: d' update_new_append)
qed

lemma heldEntryD:
  "heldEntry now j w d = Inr e \<Longrightarrow> map_of (dp_byID d) j = Some e \<and> je_workerID e = w \<and> now \<le> je_deadline e"
  by (auto simp: heldEntry_def split: option.splits if_splits)

lemma lock_scan_Some:
  "lock_scan now byID js gate = (Some j, g) \<Longrightarrow>
     j \<in> set js \<and> (\<exists>e. map_of byID j = Some e \<and> \<not> lock_live now e \<and> \<not> gated now e) \<and> g = 0"
  by (induction js arbitrary: gate) (auto split: option.splits if_splits)

lemma lock_scan_None:
  "lock_scan now byID js gate = (None, g) \<Longrightarrow> j \<in> set js \<Longrightarrow> map_of byID j = Some e \<Longrightarrow> lock_live now e \<or> gated now e"
  by (induction js arbitrary: gate) (auto split: option.splits if_splits)

lemma lockNext_cases:
  assumes "lockNext now w ts dur d = (d', r, g)"
  obtains (none) "d' = d" "r = None" "\<And>j e. j \<in> set (concat (map (topic_queue d) ts)) \<Longrightarrow> map_of (dp_byID d) j = Some e \<Longrightarrow>
        lock_live now e \<or> gated now e"
  | (locked) j e where "j \<in> set (concat (map (topic_queue d) ts))" "map_of (dp_byID d) j = Some e"
      "\<not> lock_live now e" "\<not> gated now e"
      "d' = d\<lparr>dp_byID := AList.update j (e\<lparr>je_workerID := w, je_firstLock := now, je_deadline := now + dur, je_notBefore := 0\<rparr>) (dp_byID d)\<rparr>"
      "r = Some \<lparr>lj_Deadline = now + dur, lj_Job = je_job e, lj_WorkerID = w\<rparr>"
proof -
  obtain s g' where s: "lock_scan now (dp_byID d) (concat (map (topic_queue d) ts)) 0 = (s, g')"
    by (cases "lock_scan now (dp_byID d) (concat (map (topic_queue d) ts)) 0")
  show thesis
  proof (cases s)
    case None
    then show thesis using none assms s lock_scan_None[OF s[unfolded None]] by (simp add: lockNext_def)
  next
    case (Some j)
    then obtain e where e: "j \<in> set (concat (map (topic_queue d) ts))" "map_of (dp_byID d) j = Some e" "\<not> lock_live now e" "\<not> gated now e"
      using lock_scan_Some[OF s[unfolded Some]] by blast
    then show thesis using locked[OF e] assms s Some by (simp add: lockNext_def Let_def)
  qed
qed

lemma lockNext_ok:
  assumes "disp_ok d" and "lockNext now w ts dur d = (d', r, g)"
  shows "disp_ok d' \<and> map fst (dp_byID d') = map fst (dp_byID d)"
  using assms(2)
proof (cases rule: lockNext_cases)
  case none
  then show ?thesis using assms(1) by simp
next
  case (locked j e)
  then show ?thesis using disp_ok_update[OF assms(1) locked(2)] by (simp add: update_keeps_keys)
qed

lemma ExtendLock_ok:
  assumes "disp_ok d" and "ExtendLock now now' j w dur d = (d', r)"
  shows "disp_ok d' \<and> map fst (dp_byID d') = map fst (dp_byID d)"
proof (cases "heldEntry now j w d")
  case (Inr e)
  note h = heldEntryD[OF Inr]
  show ?thesis using assms(2) Inr h disp_ok_update[OF assms(1), of j e "e\<lparr>je_deadline := now' + dur\<rparr>"] assms(1)
    by (auto simp: ExtendLock_def Let_def update_keeps_keys split: if_splits)
qed (use assms in \<open>simp add: ExtendLock_def\<close>)

lemma retry_section_ok:
  assumes "disp_ok d" and "retry_section env now now' j w p f d = Some (d', r)"
  shows "disp_ok d' \<and> map fst (dp_byID d') = map fst (dp_byID d)"
proof (cases "heldEntry now j w d")
  case (Inr e)
  note h = heldEntryD[OF Inr]
  have "d' = d \<or> (\<exists>a b. d' = broadcastLocked (d\<lparr>dp_byID := AList.update j (e\<lparr>je_workerID := [], je_attempt := a, je_notBefore := b\<rparr>) (dp_byID d)\<rparr>))"
    using assms(2) Inr by (simp add: retry_section_def Let_def split: option.splits if_splits prod.splits) blast+
  then show ?thesis using assms(1) disp_ok_update[OF assms(1)] h by (auto simp: update_keeps_keys)
qed (use assms in \<open>simp add: retry_section_def\<close>)

lemma remove_job_ok:
  assumes "disp_ok d" and "map_of (dp_byID d) j = Some e"
  shows "disp_ok (remove_job e d)" "mset (map fst (dp_byID d)) = mset (map fst (dp_byID (remove_job e d))) + {#j#}"
proof -
  note ok = disp_okD[OF assms(1)]
  let ?t = "jb_Topic (je_job e)"
  let ?r = "remove_job e d"
  have j: "jb_ID (je_job e) = j" "j \<in> set (topic_queue d ?t)" using ok(2,3)[OF assms(2)] by auto
  have q: "topic_queue ?r t = (if t = ?t then remove1 j (topic_queue d ?t) else topic_queue d t)" for t
    using j by (simp add: remove_job_def Let_def topic_queue_def update_conv')
  have b: "dp_byID ?r = AList.delete j (dp_byID d)" using j by (simp add: remove_job_def Let_def)
  have other: "j \<notin> set (topic_queue d t)" if "t \<noteq> ?t" for t using ok(5)[of j t] assms(2) that by auto
  show "disp_ok ?r" unfolding disp_ok_def q b
  proof (intro conjI allI impI)
    show "distinct (map fst (AList.delete j (dp_byID d)))" using ok(1) by (rule distinct_delete)
  next
    fix i f assume "map_of (AList.delete j (dp_byID d)) i = Some f"
    then have "i \<noteq> j" "map_of (dp_byID d) i = Some f" by (auto simp: delete_conv' split: if_splits)
    then show "jb_ID (je_job f) = i"
      "i \<in> set (if jb_Topic (je_job f) = ?t then remove1 j (topic_queue d ?t) else topic_queue d (jb_Topic (je_job f)))"
      using ok(2,3)[of i f] by auto
  next
    fix t
    show "distinct (if t = ?t then remove1 j (topic_queue d ?t) else topic_queue d t)" using ok(4) by simp
    fix i assume i: "i \<in> set (if t = ?t then remove1 j (topic_queue d ?t) else topic_queue d t)"
    then have "i \<noteq> j" "i \<in> set (topic_queue d t)" using ok(4)[of ?t] other by (auto split: if_splits)
    then show "\<exists>f. map_of (AList.delete j (dp_byID d)) i = Some f \<and> jb_Topic (je_job f) = t"
      using ok(5)[of i t] by (auto simp: delete_conv')
  qed
  have "map fst (AList.delete j (dp_byID d)) = removeAll j (map fst (dp_byID d))" by (rule keys_delete)
  also have "\<dots> = remove1 j (map fst (dp_byID d))" using ok(1) by (simp add: distinct_remove1_removeAll)
  finally have k: "map fst (dp_byID ?r) = remove1 j (map fst (dp_byID d))" by (simp add: b)
  have "j \<in> set (map fst (dp_byID d))" using map_of_SomeD[OF assms(2)] by (metis fst_conv image_eqI list.set_map)
  then show "mset (map fst (dp_byID d)) = mset (map fst (dp_byID ?r)) + {#j#}" unfolding k by simp
qed

lemma report_ok:
  assumes "disp_ok d" and "report now j w outcome d = (d', r)"
  shows "disp_ok d' \<and> (r = Inr outcome \<and> mset (map fst (dp_byID d)) = mset (map fst (dp_byID d')) + {#j#} \<or> (\<exists>err. r = Inl err) \<and> d' = d)"
proof (cases "heldEntry now j w d")
  case (Inr e)
  note h = heldEntryD[OF Inr]
  show ?thesis using assms Inr remove_job_ok[OF assms(1), of j e] h by (auto simp: report_def split: if_splits)
qed (use assms in \<open>auto simp: report_def\<close>)

section \<open>Every history\<close>

text \<open>
  The steps of a worker at one time: a fetch, an extension, a report, the retry section of \<^verbatim>\<open>Fail\<close>. The
  fourth argument names the job whose outcome the sink got.
\<close>

inductive worker_step :: "('v, 'c) disp_env \<Rightarrow> int \<Rightarrow> string \<Rightarrow> ('x, 'v, 'c) Dispatcher \<Rightarrow> string option \<Rightarrow> ('x, 'v, 'c) Dispatcher \<Rightarrow> bool"
  for env now w d where
  fetch: "lockNext now w ts dur d = (d', r, g) \<Longrightarrow> worker_step env now w d None d'"
| extend: "ExtendLock now now' j w dur d = (d', er) \<Longrightarrow> worker_step env now w d None d'"
| deliver: "report now j w outcome d = (d', Inr outcome') \<Longrightarrow> worker_step env now w d (Some j) d'"
| refused: "report now j w outcome d = (d', Inl err) \<Longrightarrow> worker_step env now w d None d'"
| retry: "retry_section env now now' j w p f d = Some (d', rr) \<Longrightarrow> worker_step env now w d None d'"

lemma worker_step_ok:
  assumes "worker_step env now w d dlv d'" and "disp_ok d"
  shows "disp_ok d' \<and> mset (map fst (dp_byID d)) = mset (map fst (dp_byID d')) + (case dlv of None \<Rightarrow> {#} | Some j \<Rightarrow> {#j#})"
  using assms(1)
proof cases
  case fetch
  then show ?thesis using lockNext_ok[OF assms(2) fetch(2)] by simp
next
  case extend
  then show ?thesis using ExtendLock_ok[OF assms(2) extend(2)] by simp
next
  case deliver
  then show ?thesis using report_ok[OF assms(2) deliver(2)] by simp
next
  case refused
  then show ?thesis using report_ok[OF assms(2) refused(2)] by auto
next
  case retry
  then show ?thesis using retry_section_ok[OF assms(2) retry(2)] by simp
qed

text \<open>
  The histories of a dispatcher: the clock only moves forward; the engine enqueues and binds, workers of
  any id step in any order. Kept along: the ids enqueued and the ids whose outcome was delivered.
\<close>

inductive disp_run :: "('v, 'c) disp_env \<Rightarrow> int \<Rightarrow> int \<Rightarrow> string multiset \<Rightarrow> string multiset \<Rightarrow> ('x, 'v, 'c) Dispatcher \<Rightarrow> bool"
  for env maxLock where
  new: "disp_run env maxLock now {#} {#} (Dispatcher_New maxLock)"
| tick: "disp_run env maxLock now enq dlv d \<Longrightarrow> now \<le> now' \<Longrightarrow> disp_run env maxLock now' enq dlv d"
| sink: "disp_run env maxLock now enq dlv d \<Longrightarrow> disp_run env maxLock now enq dlv (BindSink b d)"
| engine: "disp_run env maxLock now enq dlv d \<Longrightarrow> disp_run env maxLock now enq dlv (BindExpressionEngine ee d)"
| register: "disp_run env maxLock now enq dlv d \<Longrightarrow> RegisterWorker t fn_nil d = (d', r) \<Longrightarrow> disp_run env maxLock now enq dlv d'"
| enqueue: "disp_run env maxLock now enq dlv d \<Longrightarrow> Enqueue job d = (d', Inr ()) \<Longrightarrow>
    disp_run env maxLock now (enq + {#jb_ID job#}) dlv d'"
| work: "disp_run env maxLock now enq dlv d \<Longrightarrow> worker_step env now w d fin d' \<Longrightarrow>
    disp_run env maxLock now enq (dlv + (case fin of None \<Rightarrow> {#} | Some j \<Rightarrow> {#j#})) d'"

lemma disp_run_ok:
  "disp_run env maxLock now enq dlv d \<Longrightarrow> disp_ok d \<and> enq = dlv + mset (map fst (dp_byID d))"
proof (induction rule: disp_run.induct)
  case (new now)
  then show ?case by (simp add: Dispatcher_New_def disp_ok_def topic_queue_def)
next
  case (sink now enq dlv d b)
  then show ?case using disp_ok_cong[of "BindSink b d" d] by (simp add: BindSink_def)
next
  case (engine now enq dlv d ee)
  then show ?case using disp_ok_cong[of "BindExpressionEngine ee d" d] by (simp add: BindExpressionEngine_def)
next
  case (register now enq dlv d t fn_nil d' r)
  then show ?case using disp_ok_cong[of d' d] by (auto simp: RegisterWorker_def split: if_splits)
next
  case (enqueue now enq dlv d job d')
  then show ?case using Enqueue_ok[OF _ enqueue.hyps(2)] by simp
next
  case (work now enq dlv d w fin d')
  then show ?case using worker_step_ok[OF work.hyps(2)] by (simp add: ac_simps)
qed

text \<open>
  Claim C22. Every job is delivered exactly once or still stored: over any history of enqueues, binds and worker
  steps in any interleaving, the enqueued job ids are, as multisets, those whose outcome the sink got
  and those in the store; retries and lost locks neither lose nor duplicate a job.
\<close>
theorem job_delivered_once:
  assumes "disp_run env maxLock now enq dlv d"
  shows "enq = dlv + mset (map fst (dp_byID d))"
  using disp_run_ok[OF assms] by simp

lemma remove_job_other: "map_of (dp_byID (remove_job e d)) i = (if i = jb_ID (je_job e) then None else map_of (dp_byID d) i)"
  by (simp add: remove_job_def Let_def delete_conv')

text \<open>
  Claim C23. A lock is exclusive: while a worker with a non-empty id holds a job and its deadline has not passed,
  no step of another worker changes the job's entry or delivers its outcome.
\<close>
theorem job_lock_exclusive:
  assumes "disp_run env maxLock now enq dlv d" and "map_of (dp_byID d) j = Some e"
    and "je_workerID e \<noteq> []" and "now \<le> je_deadline e"
    and "worker_step env now w d fin d'" and "w \<noteq> je_workerID e"
  shows "map_of (dp_byID d') j = Some e \<and> fin \<noteq> Some j"
  using assms(5)
proof cases
  case (fetch ts dur r g)
  from fetch(2) show ?thesis
    by (cases rule: lockNext_cases) (use fetch assms(2-4) in \<open>auto simp: update_conv' lock_live_def\<close>)
next
  case (extend now' i dur er)
  then show ?thesis using assms(2,6)
    by (auto simp: ExtendLock_def heldEntry_def Let_def update_conv' split: option.splits if_splits)
next
  case (deliver i outcome outcome')
  then obtain f where f: "map_of (dp_byID d) i = Some f" "je_workerID f = w" "d' = remove_job f d"
    by (auto simp: report_def heldEntry_def split: option.splits if_splits)
  have "jb_ID (je_job f) = i" using disp_run_ok[OF assms(1)] disp_okD(2)[of d i f] f(1) by blast
  then show ?thesis using f assms(2,6) deliver(1) by (auto simp: remove_job_other)
next
  case (refused i outcome err)
  then show ?thesis using assms(2) by (auto simp: report_def split: sum.splits if_splits)
next
  case (retry now' i p f rr)
  then show ?thesis using assms(2,6)
    by (auto simp: retry_section_def heldEntry_def Let_def update_conv' split: option.splits if_splits)
qed

text \<open>
  No stored job is out of reach: when a job's lock is free or expired and its backoff gate has passed, a
  fetch on its topic returns a job of that topic; a fetch returns nothing only when every job of the
  topic is locked or gated.
\<close>
theorem stored_job_fetchable:
  assumes "disp_run env maxLock now enq dlv d" and "map_of (dp_byID d) j = Some e"
    and "\<not> lock_live now e" and "\<not> gated now e"
  shows "\<exists>d' lj. lockNext now w [jb_Topic (je_job e)] dur d = (d', Some lj, 0) \<and>
    jb_Topic (lj_Job lj) = jb_Topic (je_job e) \<and> lj_WorkerID lj = w \<and> lj_Deadline lj = now + dur"
proof -
  have ok: "disp_ok d" using disp_run_ok[OF assms(1)] by simp
  have q: "j \<in> set (topic_queue d (jb_Topic (je_job e)))" by (rule disp_okD(3)[OF ok assms(2)])
  obtain d' r g where l: "lockNext now w [jb_Topic (je_job e)] dur d = (d', r, g)" by (metis prod_cases3)
  then show ?thesis
  proof (cases rule: lockNext_cases)
    case none
    then show ?thesis using none(3)[of j e] q assms(2-4) by simp
  next
    case (locked i f)
    have "jb_Topic (je_job f) = jb_Topic (je_job e)"
      using disp_okD(5)[OF ok, of i "jb_Topic (je_job e)"] locked(1,2) by auto
    moreover have "g = 0" using l locked by (auto simp: lockNext_def Let_def split: option.splits prod.splits)
    ultimately show ?thesis using l locked(6) by simp
  qed
qed

section \<open>The trusted worker returns\<close>

text \<open>The number of attempts a policy allows at most; a policy of the embedder may allow any.\<close>

fun attempts_of :: "'c RetryPolicy \<Rightarrow> int option" where
  "attempts_of NoRetry = Some 1"
| "attempts_of (FixedDelay f) = Some (fd_maxAttempts f)"
| "attempts_of (ExponentialBackoff e) = Some (eb_maxAttempts e)"
| "attempts_of (CustomRetry f) = None"

lemma Retry_bounded:
  "attempts_of r = Some m \<Longrightarrow> Retry rnd r attempt cause = Some (b, True) \<Longrightarrow> attempt < m"
  by (cases r) (auto simp: noRetry_Retry_def fixedDelay_Retry_def exponentialBackoff_Retry_def Let_def split: if_splits)

lemma runTrusted_fuel:
  assumes "jb_Policy (lj_Job lj) = Some p" and "po_RetryPolicy p = Some r" and "attempts_of r = Some m"
    and "0 < fuel" and "m - attempt < int fuel"
  shows "runTrusted env ee lj work clk quit fuel attempt \<noteq> OutOfFuel"
  using assms(4,5)
proof (induction fuel arbitrary: attempt)
  case (Suc fuel)
  have step: "runTrusted env ee lj work clk quit fuel (attempt + 1) \<noteq> OutOfFuel"
    if "retryDecision env (Some p) attempt err = Some (b, True)" for err b
  proof -
    have "attempt < m" using that assms(2) Retry_bounded[OF assms(3)] by (simp add: retryDecision_def)
    then show ?thesis using Suc by (intro Suc.IH) auto
  qed
  then show ?case using assms(1)
    by (auto simp: Let_def split: work_result.splits option.splits sum.splits prod.splits)
qed simp

text \<open>
  Claim C24. A trusted worker always ends: under a policy with \<open>m\<close> attempts the in-process retry loop, started at its first
  attempt, reports a verdict, is cancelled or panics within \<open>m\<close> turns.
\<close>
theorem trusted_worker_returns:
  assumes "jb_Policy (lj_Job lj) = Some p" and "po_RetryPolicy p = Some r" and "attempts_of r = Some m" and "1 \<le> m"
  shows "runTrusted env ee lj work clk quit (nat m) 1 \<noteq> OutOfFuel"
  using assms by (intro runTrusted_fuel[OF assms(1-3)]) auto

section \<open>Concrete runs\<close>

definition sample_denv :: "(bool, unit) disp_env" where
  "sample_denv = \<lparr>de_gid = ''g'', de_str = (\<lambda>_. False), de_as_bool = (\<lambda>v. None), de_rnd = (\<lambda>_. 0), de_err_cause = (\<lambda>_. ())\<rparr>"

definition sample_policy :: "(unit, bool, unit) Policy" where
  "sample_policy = \<lparr>po_ErrorMapper = None, po_RetryPolicy = Some (FixedDelay \<lparr>fd_delay = 1, fd_maxAttempts = 3\<rparr>),
     po_OutputMapping = [], po_Trust = WorkerTrusted\<rparr>"

definition sample_job :: "(unit, bool, unit) Job" where
  "sample_job = \<lparr>jb_Input = None, jb_Policy = Some sample_policy, jb_ID = ''a'', jb_Topic = ''t''\<rparr>"

definition sample_entry :: "(unit, bool, unit) jobEntry" where
  "sample_entry = \<lparr>je_firstLock = 0, je_deadline = 0, je_notBefore = 0, je_job = sample_job, je_workerID = [], je_attempt = 0\<rparr>"

definition sample_disp :: "(unit, bool, unit) Dispatcher" where
  "sample_disp = \<lparr>dp_sink = True, dp_exprEngine = None, dp_byID = [(''a'', sample_entry)], dp_byTopic = [(''t'', [''a''])],
     dp_workers = [], dp_wake = 1, dp_maxLock = 9\<rparr>"

definition locked_disp :: "string \<Rightarrow> (unit, bool, unit) Dispatcher" where
  "locked_disp w = sample_disp\<lparr>dp_byID := [(''a'', sample_entry\<lparr>je_workerID := w, je_firstLock := 10, je_deadline := 15\<rparr>)]\<rparr>"

lemma sample_disp_run: "disp_run sample_denv 9 10 {#''a''#} {#} sample_disp"
proof -
  have "disp_run sample_denv 9 10 ({#} + {#jb_ID sample_job#}) {#} sample_disp"
    by (rule disp_run.enqueue[OF disp_run.sink[OF disp_run.new, of _ _ _ True]])
       (simp add: Enqueue_def BindSink_def Dispatcher_New_def sample_job_def sample_disp_def sample_entry_def
          broadcastLocked_def topic_queue_def)
  then show ?thesis by (simp add: sample_job_def)
qed

lemma sample_lock: "lockNext 10 w [''t''] 5 sample_disp =
    (locked_disp w, Some \<lparr>lj_Deadline = 15, lj_Job = sample_job, lj_WorkerID = w\<rparr>, 0)"
  by (simp add: lockNext_def sample_disp_def locked_disp_def sample_entry_def topic_queue_def lock_live_def gated_def Let_def)

lemma locked_disp_run: "disp_run sample_denv 9 12 {#''a''#} {#} (locked_disp ''w'')"
  using disp_run.tick[OF disp_run.work[OF sample_disp_run worker_step.fetch[OF sample_lock]], of 12 "''w''"] by simp

theorem job_delivered_once_witness: "{#''a''#} = {#} + mset (map fst (dp_byID (locked_disp ''w'')))"
  by (rule job_delivered_once[OF locked_disp_run])

theorem job_lock_exclusive_witness:
  "map_of (dp_byID (fst (lockNext 12 ''v'' [''t''] 5 (locked_disp ''w'')))) ''a'' =
     Some (sample_entry\<lparr>je_workerID := ''w'', je_firstLock := 10, je_deadline := 15\<rparr>)"
proof -
  have "worker_step sample_denv 12 ''v'' (locked_disp ''w'') None (fst (lockNext 12 ''v'' [''t''] 5 (locked_disp ''w'')))"
    by (rule worker_step.fetch[of _ _ "[''t'']" 5]) (simp add: prod_eq_iff)
  from job_lock_exclusive[OF locked_disp_run _ _ _ this, of "''a''"] show ?thesis by (simp add: locked_disp_def)
qed

theorem stored_job_fetchable_witness:
  "\<exists>d' lj. lockNext 10 ''v'' [''t''] 5 sample_disp = (d', Some lj, 0) \<and> jb_Topic (lj_Job lj) = ''t'' \<and>
     lj_WorkerID lj = ''v'' \<and> lj_Deadline lj = 10 + 5"
  using stored_job_fetchable[OF sample_disp_run, of "''a''" sample_entry "''v''" 5]
  by (simp add: sample_disp_def sample_entry_def sample_job_def lock_live_def gated_def)

theorem trusted_worker_returns_witness:
  "runTrusted sample_denv None \<lparr>lj_Deadline = 15, lj_Job = sample_job, lj_WorkerID = ''w''\<rparr>
     (\<lambda>n. WorkErr () None) (\<lambda>n. n) (\<lambda>n. False) (nat 3) 1 \<noteq> OutOfFuel"
  by (rule trusted_worker_returns[where p = sample_policy and r = "FixedDelay \<lparr>fd_delay = 1, fd_maxAttempts = 3\<rparr>"])
     (simp_all add: sample_job_def sample_policy_def)

text \<open>
  The empty worker id reads as unlocked: a worker that fetches with it gets no exclusive lock, the next
  fetch hands the same job out again.
\<close>
lemma empty_worker_shares_job:
  "lockNext 10 [] [''t''] 5 sample_disp = (locked_disp [], Some \<lparr>lj_Deadline = 15, lj_Job = sample_job, lj_WorkerID = []\<rparr>, 0) \<and>
   (\<exists>d'. lockNext 11 ''v'' [''t''] 5 (locked_disp []) = (d', Some \<lparr>lj_Deadline = 16, lj_Job = sample_job, lj_WorkerID = ''v''\<rparr>, 0))"
  by (simp add: sample_lock lockNext_def sample_disp_def locked_disp_def sample_entry_def topic_queue_def lock_live_def gated_def Let_def)

text \<open>And a job re-armed for a retry is completed by a report with the empty id while its old deadline lasts.\<close>
lemma rearmed_job_reported_unlocked:
  "\<exists>d1 d2. retry_section sample_denv 12 12 ''a'' ''w'' (Some sample_policy) \<lparr>ft_Body = None, ft_Cause = (), ft_Code = []\<rparr> (locked_disp ''w'') =
       Some (d1, Inl (Inr ())) \<and>
     report 13 ''a'' [] (OutcomeComplete ''a'' []) d1 = (d2, Inr (OutcomeComplete ''a'' [])) \<and> dp_byID d2 = []"
  by (simp add: retry_section_def report_def heldEntry_def locked_disp_def sample_disp_def sample_entry_def sample_policy_def
      retryDecision_def fixedDelay_Retry_def broadcastLocked_def remove_job_def sample_job_def Let_def)

text \<open>
  A fetcher blocked on a locked job is not woken when the lock expires: it saw no gate, nothing is
  broadcast, and it does not scan again although the job could now be reclaimed.
\<close>
lemma fetcher_sleeps_past_expiry:
  "lockNext 12 ''v'' [''t''] 5 (locked_disp ''w'') = (locked_disp ''w'', None, 0) \<and>
   \<not> fetch_rescans (dp_wake (locked_disp ''w'')) 0 now (locked_disp ''w'') \<and>
   (\<exists>d' lj. lockNext 16 ''v'' [''t''] 5 (locked_disp ''w'') = (d', Some lj, 0))"
  by (simp add: lockNext_def sample_disp_def locked_disp_def sample_entry_def topic_queue_def lock_live_def gated_def Let_def
      fetch_rescans_def)

end
