(* ===== verification/Event_Waiters.thy ===== *)
theory Event_Waiters
  imports Gobpm_Prelude Go_Strings
begin

text \<open>
  The waiters that stand behind a wait (\<^verbatim>\<open>src/internal/eventproc/eventhub/waiters\<close>): timer, message and
  signal. One record holds the fields of all three; \<open>evd_Type\<close> of its event definition tells them apart.

  A processor is named by its id. Time is an integer number of nanoseconds, the zero \<^verbatim>\<open>time.Time\<close> is
  \<open>0\<close>. What the expression engine yields for the timer's expressions, whether the broker subscribes, and
  what a processor answers are parameters. The mutex of a waiter makes each operation one step.
\<close>

section \<open>Event definitions and waiters\<close>

datatype EventTrigger = TriggerTimer | TriggerMessage | TriggerSignal | TriggerOther

record eventDef =
  evd_ID :: string
  evd_Type :: EventTrigger
  evd_signal :: "string option"
  evd_message :: "string option"

datatype EventWaiterState = WSCreated | WSReady | WSRunned | WSEnded | WSStopped | WSFailed

record waiter =
  wt_eDef :: eventDef
  wt_processors :: "string list"
  wt_state :: EventWaiterState
  wt_next :: int
  wt_cyclesLeft :: int
  wt_duration :: int
  wt_hinted :: bool

definition signalName :: "eventDef \<Rightarrow> string option" where
  "signalName d = (if evd_Type d = TriggerSignal then evd_signal d else None)"

definition new_waiter :: "eventDef \<Rightarrow> string \<Rightarrow> waiter" where
  "new_waiter d ep =
     \<lparr>wt_eDef = d, wt_processors = [ep], wt_state = WSReady, wt_next = 0, wt_cyclesLeft = 0, wt_duration = 0, wt_hinted = False\<rparr>"

section \<open>Processors\<close>

definition AddEventProcessor :: "string \<Rightarrow> waiter \<Rightarrow> waiter" where
  "AddEventProcessor ep w = (if ep \<in> set (wt_processors w) then w else w\<lparr>wt_processors := wt_processors w @ [ep]\<rparr>)"

definition RemoveEventProcessor :: "string \<Rightarrow> waiter \<Rightarrow> waiter result" where
  "RemoveEventProcessor ep w =
     (if ep \<notin> set (wt_processors w) then Inl (AppError ObjectNotFound ''event processor isn't registered with the waiter'')
      else Inr (w\<lparr>wt_processors := remove1 ep (wt_processors w)\<rparr>))"

section \<open>The timer\<close>

text \<open>What an expression of the timer evaluates to: an evaluation error, a value of another type (\<open>None\<close>), or the value.\<close>

type_synonym timer_value = "int option result"

record timer_spec =
  ts_Time :: "timer_value option"
  ts_Cycle :: "timer_value option"
  ts_Duration :: "timer_value option"

definition timer_error :: "string \<Rightarrow> 'a result" where
  "timer_error msg = Inl (AppError Unclassified msg)"

fun processExpression :: "int \<Rightarrow> string \<Rightarrow> timer_value \<Rightarrow> waiter \<Rightarrow> waiter result" where
  "processExpression now name (Inl e) w = timer_error ''couldn't evaluate TimerEventDefintion %s value''"
| "processExpression now name (Inr None) w = timer_error ''%s property casting error''"
| "processExpression now name (Inr (Some v)) w =
     (if name = ''Time'' then
        (if v < now then timer_error ''couldn't use past time as a timer'' else Inr (w\<lparr>wt_next := v\<rparr>))
      else if name = ''Cycle'' then
        (if v \<le> 0 then timer_error ''cycle isn't defined'' else Inr (w\<lparr>wt_cyclesLeft := v\<rparr>))
      else
        (if v \<le> 0 then timer_error ''duration isn't defined'' else Inr (w\<lparr>wt_duration := v\<rparr>)))"

fun process_all :: "int \<Rightarrow> (string \<times> timer_value option) list \<Rightarrow> waiter \<Rightarrow> waiter result" where
  "process_all now [] w = Inr w"
| "process_all now ((name, None) # es) w = process_all now es w"
| "process_all now ((name, Some v) # es) w =
     (case processExpression now name v w of Inl e \<Rightarrow> Inl e | Inr w' \<Rightarrow> process_all now es w')"

text \<open>The expressions are the entries of a Go map; the order decides only which of several errors is returned.\<close>

definition parseEDef :: "int \<Rightarrow> timer_spec \<Rightarrow> waiter \<Rightarrow> waiter result" where
  "parseEDef now s w =
     (case process_all now [(''Time'', ts_Time s), (''Cycle'', ts_Cycle s), (''Duration'', ts_Duration s)] w of
        Inl e \<Rightarrow> Inl e
      | Inr w' \<Rightarrow>
          (if ts_Time s = None \<and> ts_Cycle s = None \<and> ts_Duration s = None
           then timer_error ''Timer should have Time, Cycle or Duration expresssion'' else Inr w'))"

text \<open>A restored track hints the recorded deadline and cycle count.\<close>

definition NewTimeWaiter :: "int \<Rightarrow> (int \<times> int) option \<Rightarrow> timer_spec \<Rightarrow> string \<Rightarrow> eventDef \<Rightarrow> waiter result" where
  "NewTimeWaiter now hint s ep d =
     (if evd_Type d \<noteq> TriggerTimer then Inl (AppError TypeCastingError ''not an TimerEventDefinition'')
      else (case hint of
              Some (deadline, cycles) \<Rightarrow> Inr ((new_waiter d ep)\<lparr>wt_next := deadline, wt_cyclesLeft := cycles, wt_hinted := True\<rparr>)
            | None \<Rightarrow>
                (case parseEDef now s (new_waiter d ep) of
                   Inl e \<Rightarrow> Inl (AppError OperationFailed ''TimerEventDefinition parsing failed'')
                 | Inr w \<Rightarrow> Inr w)))"

definition timer_Service :: "int \<Rightarrow> waiter \<Rightarrow> waiter \<times> unit result" where
  "timer_Service now w =
     (if wt_state w \<noteq> WSReady then (w, Inl (AppError InvalidState ''waiter isn't ready to start''))
      else
        (let w1 = w\<lparr>wt_state := WSRunned\<rparr>;
             w2 = (if wt_next w1 \<noteq> 0
                   then (let d = wt_next w1 - now
                         in if wt_hinted w1 then w1\<lparr>wt_duration := (if d \<le> 0 then 1000000 else d)\<rparr>
                            else w1\<lparr>wt_duration := d, wt_cyclesLeft := 0\<rparr>)
                   else w1)
         in if wt_duration w2 \<le> 0 then (w2, Inl (AppError InvalidState ''waiter duration is not positive'')) else (w2, Inr ())))"

text \<open>
  One fire. \<open>answers\<close> are the results of the processors in order, \<open>True\<close> for an error. The flag of the
  result tells whether the hub is told (\<^verbatim>\<open>WaiterFired\<close>).
\<close>

definition processTimerEvent :: "bool list \<Rightarrow> waiter \<Rightarrow> waiter \<times> bool" where
  "processTimerEvent answers w =
     (if list_ex (\<lambda>a. a) (take (length (wt_processors w)) answers) then (w\<lparr>wt_state := WSFailed\<rparr>, False)
      else if wt_cyclesLeft w - 1 \<le> 0
      then (w\<lparr>wt_cyclesLeft := wt_cyclesLeft w - 1, wt_processors := [], wt_state := WSEnded\<rparr>, True)
      else (w\<lparr>wt_cyclesLeft := wt_cyclesLeft w - 1\<rparr>, False))"

text \<open>The times at which a started timer fires when it is neither stopped nor refused: each turn waits \<open>wt_duration\<close> anew.\<close>

function fire_times :: "int \<Rightarrow> waiter \<Rightarrow> int list" where
  "fire_times now w =
     (let w' = fst (processTimerEvent [] w)
      in (now + wt_duration w) # (if wt_state w' = WSRunned then fire_times (now + wt_duration w) w' else []))"
  by auto
termination by (relation "measure (\<lambda>(now, w). nat (wt_cyclesLeft w))") (auto simp: processTimerEvent_def split: if_splits)

declare fire_times.simps [simp del]

definition TimerPlan :: "int \<Rightarrow> timer_spec \<Rightarrow> eventDef \<Rightarrow> (int \<times> int) result" where
  "TimerPlan now s d =
     (if evd_Type d \<noteq> TriggerTimer then Inl (AppError TypeCastingError ''TimerPlan: not a TimerEventDefinition'')
      else (case parseEDef now s (new_waiter d []) of
              Inl e \<Rightarrow> Inl e
            | Inr w \<Rightarrow> Inr (if wt_next w = 0 then now + wt_duration w else wt_next w, wt_cyclesLeft w)))"

section \<open>Messages and signals\<close>

definition message_Service :: "bool \<Rightarrow> waiter \<Rightarrow> waiter \<times> unit result" where
  "message_Service subscribed w =
     (if wt_state w \<noteq> WSReady then (w, Inl (AppError InvalidState ''waiter isn't ready to start''))
      else if \<not> subscribed
      then (w\<lparr>wt_state := WSFailed\<rparr>, Inl (AppError OperationFailed ''couldn't subscribe to the message broker''))
      else (w\<lparr>wt_state := WSRunned\<rparr>, Inr ()))"

definition signal_Service :: "waiter \<Rightarrow> waiter \<times> unit result" where
  "signal_Service w =
     (if wt_state w \<noteq> WSReady then (w, Inl (AppError InvalidState ''waiter isn't ready to start''))
      else (w\<lparr>wt_state := WSRunned\<rparr>, Inr ()))"

text \<open>A message envelope: the definition could be built, and what the processors answered.\<close>

definition processMessageEvent :: "bool \<Rightarrow> bool list \<Rightarrow> waiter \<Rightarrow> waiter" where
  "processMessageEvent built answers w =
     (if \<not> built \<or> list_ex (\<lambda>a. a) (take (length (wt_processors w)) answers) then w\<lparr>wt_state := WSFailed\<rparr> else w)"

section \<open>The interface\<close>

definition Service :: "int \<Rightarrow> bool \<Rightarrow> waiter \<Rightarrow> waiter \<times> unit result" where
  "Service now subscribed w =
     (if evd_Type (wt_eDef w) = TriggerTimer then timer_Service now w
      else if evd_Type (wt_eDef w) = TriggerMessage then message_Service subscribed w
      else signal_Service w)"

definition timer_Stop :: "waiter \<Rightarrow> waiter \<times> unit result" where
  "timer_Stop w =
     (if wt_state w \<noteq> WSRunned then (w, Inl (AppError InvalidState ''couldn't stop not runned waiter''))
      else (w\<lparr>wt_state := WSStopped\<rparr>, Inr ()))"

definition message_Stop :: "waiter \<Rightarrow> waiter \<times> unit result" where
  "message_Stop w =
     (if wt_state w \<noteq> WSRunned then (w, Inl (AppError InvalidState ''couldn't stop a not-runned waiter''))
      else (w\<lparr>wt_state := WSStopped\<rparr>, Inr ()))"

definition signal_Stop :: "waiter \<Rightarrow> waiter \<times> unit result" where
  "signal_Stop w = (w\<lparr>wt_state := WSStopped\<rparr>, Inr ())"

definition Stop :: "waiter \<Rightarrow> waiter \<times> unit result" where
  "Stop w =
     (if evd_Type (wt_eDef w) = TriggerTimer then timer_Stop w
      else if evd_Type (wt_eDef w) = TriggerMessage then message_Stop w
      else signal_Stop w)"

definition NewMessageWaiter :: "string \<Rightarrow> eventDef \<Rightarrow> waiter result" where
  "NewMessageWaiter ep d =
     (if evd_Type d \<noteq> TriggerMessage then Inl (AppError TypeCastingError ''not a MessageEventDefinition'')
      else if evd_message d = None then Inl (AppError EmptyNotAllowed ''MessageEventDefinition has no message'')
      else Inr (new_waiter d ep))"

definition NewSignalWaiter :: "string \<Rightarrow> eventDef \<Rightarrow> waiter result" where
  "NewSignalWaiter ep d =
     (if evd_Type d \<noteq> TriggerSignal then Inl (AppError TypeCastingError ''not a SignalEventDefinition'')
      else if evd_signal d = None then Inl (AppError EmptyNotAllowed ''SignalEventDefinition has no signal'')
      else Inr (new_waiter d ep))"

definition CreateWaiter :: "int \<Rightarrow> (int \<times> int) option \<Rightarrow> timer_spec \<Rightarrow> string \<Rightarrow> eventDef \<Rightarrow> waiter result" where
  "CreateWaiter now hint s ep d =
     (case evd_Type d of
        TriggerTimer \<Rightarrow> NewTimeWaiter now hint s ep d
      | TriggerMessage \<Rightarrow> NewMessageWaiter ep d
      | TriggerSignal \<Rightarrow> NewSignalWaiter ep d
      | TriggerOther \<Rightarrow> Inl (AppError ObjectNotFound ''couldn't find builder for event definition of type %s''))"

definition CreatePersistentWaiter :: "string \<Rightarrow> eventDef \<Rightarrow> waiter result" where
  "CreatePersistentWaiter ep d =
     (case evd_Type d of
        TriggerMessage \<Rightarrow> NewMessageWaiter ep d
      | TriggerSignal \<Rightarrow> NewSignalWaiter ep d
      | _ \<Rightarrow> Inl (AppError InvalidParameter ''only message or signal triggers can back a persistent instance-starter, got %s''))"

section \<open>How often a timer fires\<close>

lemma fire_times_cycles:
  assumes "wt_state w = WSRunned"
  shows "fire_times now w = map (\<lambda>k. now + int (Suc k) * wt_duration w) [0..<nat (max 1 (wt_cyclesLeft w))]"
  using assms
proof (induction "nat (wt_cyclesLeft w)" arbitrary: now w rule: less_induct)
  case less
  show ?case
  proof (cases "wt_cyclesLeft w - 1 \<le> 0")
    case True
    then have "nat (max 1 (wt_cyclesLeft w)) = Suc 0" by simp
    then show ?thesis using True by (subst fire_times.simps) (simp add: processTimerEvent_def)
  next
    case False
    let ?w = "w\<lparr>wt_cyclesLeft := wt_cyclesLeft w - 1\<rparr>"
    have n: "nat (max 1 (wt_cyclesLeft w)) = Suc (nat (max 1 (wt_cyclesLeft w - 1)))" using False by auto
    have "fire_times now w = (now + wt_duration w) # fire_times (now + wt_duration w) ?w"
      using False less.prems by (subst fire_times.simps) (simp add: processTimerEvent_def Let_def)
    also have "fire_times (now + wt_duration w) ?w =
        map (\<lambda>k. now + wt_duration w + int (Suc k) * wt_duration w) [0..<nat (max 1 (wt_cyclesLeft w - 1))]"
      using less.hyps[of ?w "now + wt_duration w"] False less.prems by simp
    finally show ?thesis unfolding n upt_conv_Cons[OF zero_less_Suc] map_Suc_upt[symmetric]
      by (simp add: comp_def algebra_simps)
  qed
qed

text \<open>The value an expression of the definition declares, when it is present and of its type.\<close>

definition declared :: "timer_value option \<Rightarrow> int option" where
  "declared v = (case v of Some (Inr x) \<Rightarrow> x | _ \<Rightarrow> None)"

lemma process_step:
  assumes "process_all now ((name, v) # es) w = Inr w'"
  obtains (absent) "v = None" "process_all now es w = Inr w'"
  | (present) x w1 where "v = Some (Inr (Some x))" "processExpression now name (Inr (Some x)) w = Inr w1" "process_all now es w1 = Inr w'"
proof (cases v)
  case None
  then show thesis using absent assms by simp
next
  case (Some r)
  then obtain w1 where w1: "processExpression now name r w = Inr w1" "process_all now es w1 = Inr w'"
    using assms by (auto split: sum.splits)
  moreover obtain x where "r = Inr (Some x)"
    using w1(1) by (cases r; cases "case r of Inr (Some x) \<Rightarrow> Some x | _ \<Rightarrow> None") (auto simp: timer_error_def split: sum.splits option.splits)
  ultimately show thesis using present Some by simp
qed

lemma parseEDef_fields:
  assumes "parseEDef now s (new_waiter d ep) = Inr w"
  shows "w = (new_waiter d ep)\<lparr>wt_next := (case declared (ts_Time s) of None \<Rightarrow> 0 | Some t \<Rightarrow> t),
      wt_cyclesLeft := (case declared (ts_Cycle s) of None \<Rightarrow> 0 | Some c \<Rightarrow> c),
      wt_duration := (case declared (ts_Duration s) of None \<Rightarrow> 0 | Some x \<Rightarrow> x)\<rparr> \<and>
    (\<forall>t. declared (ts_Time s) = Some t \<longrightarrow> now \<le> t) \<and> (\<forall>c. declared (ts_Cycle s) = Some c \<longrightarrow> 0 < c)"
proof -
  have "process_all now [(''Time'', ts_Time s), (''Cycle'', ts_Cycle s), (''Duration'', ts_Duration s)] (new_waiter d ep) = Inr w"
    using assms by (auto simp: parseEDef_def timer_error_def split: sum.splits if_splits)
  then show ?thesis
    by (elim process_step) (auto simp: declared_def new_waiter_def timer_error_def split: if_splits)
qed

lemma fresh_timer:
  assumes "0 < now" and "NewTimeWaiter now None s ep d = Inr w" and "timer_Service now w = (w', Inr ())"
  shows "wt_state w' = WSRunned \<and>
    (case declared (ts_Time s) of
       Some t \<Rightarrow> wt_duration w' = t - now \<and> wt_cyclesLeft w' = 0
     | None \<Rightarrow> declared (ts_Duration s) = Some (wt_duration w') \<and>
         wt_cyclesLeft w' = (case declared (ts_Cycle s) of None \<Rightarrow> 0 | Some c \<Rightarrow> c))"
proof -
  have "parseEDef now s (new_waiter d ep) = Inr w"
    using assms(2) by (auto simp: NewTimeWaiter_def split: if_splits sum.splits)
  note p = parseEDef_fields[OF this]
  show ?thesis using p assms(1,3) by (auto simp: timer_Service_def Let_def new_waiter_def split: if_splits option.splits)
qed

text \<open>
  A timer that is not restored fires as declared. With an absolute time it fires exactly once, at that
  time; else with a duration, as often as the cycle count says, once without one, one duration apart.
\<close>
theorem timer_fires_as_declared:
  assumes "0 < now" and "NewTimeWaiter now None s ep d = Inr w" and "timer_Service now w = (w', Inr ())"
  shows "case declared (ts_Time s) of
      Some t \<Rightarrow> fire_times now w' = [t]
    | None \<Rightarrow>
        \<exists>dur. declared (ts_Duration s) = Some dur \<and>
          fire_times now w' = map (\<lambda>k. now + int (Suc k) * dur)
            [0..<(case declared (ts_Cycle s) of None \<Rightarrow> 1 | Some c \<Rightarrow> nat c)]"
proof -
  note f = fresh_timer[OF assms]
  have "parseEDef now s (new_waiter d ep) = Inr w"
    using assms(2) by (auto simp: NewTimeWaiter_def split: if_splits sum.splits)
  then have c: "\<And>c. declared (ts_Cycle s) = Some c \<Longrightarrow> max 1 c = c" using parseEDef_fields by force
  have t: "fire_times now w' = map (\<lambda>k. now + int (Suc k) * wt_duration w') [0..<nat (max 1 (wt_cyclesLeft w'))]"
    using f by (intro fire_times_cycles) simp
  show ?thesis
  proof (cases "declared (ts_Time s)")
    case (Some a)
    then show ?thesis using f t by simp
  next
    case None
    then show ?thesis using f t c by (cases "declared (ts_Cycle s)") simp_all
  qed
qed

definition sample_timer :: timer_spec where
  "sample_timer = \<lparr>ts_Time = None, ts_Cycle = Some (Inr (Some 3)), ts_Duration = Some (Inr (Some 10))\<rparr>"

definition timer_def :: eventDef where
  "timer_def = \<lparr>evd_ID = ''t'', evd_Type = TriggerTimer, evd_signal = None, evd_message = None\<rparr>"

theorem timer_fires_as_declared_witness:
  "fire_times 5 ((new_waiter timer_def ''p'')\<lparr>wt_cyclesLeft := 3, wt_duration := 10, wt_state := WSRunned\<rparr>) = [15, 25, 35]"
proof -
  let ?w = "(new_waiter timer_def ''p'')\<lparr>wt_cyclesLeft := 3, wt_duration := 10\<rparr>"
  have "NewTimeWaiter 5 None sample_timer ''p'' timer_def = Inr ?w"
    by (simp add: NewTimeWaiter_def parseEDef_def sample_timer_def timer_def_def new_waiter_def)
  moreover have "timer_Service 5 ?w = (?w\<lparr>wt_state := WSRunned\<rparr>, Inr ())" by (simp add: timer_Service_def new_waiter_def)
  ultimately have "fire_times 5 (?w\<lparr>wt_state := WSRunned\<rparr>) = map (\<lambda>k. 5 + int (Suc k) * 10) [0..<3]"
    using timer_fires_as_declared[of 5 sample_timer "''p''" timer_def ?w "?w\<lparr>wt_state := WSRunned\<rparr>"]
    by (simp add: sample_timer_def declared_def numeral_3_eq_3)
  then show ?thesis by (simp add: numeral_3_eq_3)
qed

text \<open>
  The plan recorded at the park agrees with the waiter: its deadline is the first fire, and its cycle count
  the one the waiter starts with unless an absolute time overrides it.
\<close>
lemma timer_plan_first_fire:
  assumes "0 < now" and "NewTimeWaiter now None s ep d = Inr w" and "timer_Service now w = (w', Inr ())"
    and "TimerPlan now s d = Inr (deadline, cycles)"
  shows "hd (fire_times now w') = deadline"
proof -
  obtain v where v: "parseEDef now s (new_waiter d []) = Inr v" "deadline = (if wt_next v = 0 then now + wt_duration v else wt_next v)"
    using assms(4) by (auto simp: TimerPlan_def split: if_splits sum.splits)
  note p = parseEDef_fields[OF v(1)]
  have "fire_times now w' = (now + wt_duration w') # tl (fire_times now w')" by (subst (1 2) fire_times.simps) (simp add: Let_def)
  then have "hd (fire_times now w') = now + wt_duration w'" by (metis list.sel(1))
  then show ?thesis using fresh_timer[OF assms(1-3)] p v(2) assms(1) by (auto simp: new_waiter_def split: option.splits)
qed

text \<open>
  A restored cyclic timer keeps its cycle count but loses its period: each further turn waits the time
  that was left to the recorded deadline, one millisecond when that has passed.
\<close>
lemma restored_cycle_loses_period:
  "\<exists>w w'. NewTimeWaiter 1000000000 (Some (999, 3)) sample_timer ''p'' timer_def = Inr w \<and>
     timer_Service 1000000000 w = (w', Inr ()) \<and> fire_times 1000000000 w' = [1001000000, 1002000000, 1003000000]"
  by (simp add: NewTimeWaiter_def timer_Service_def timer_def_def new_waiter_def Let_def fire_times_cycles numeral_3_eq_3)

text \<open>A timer whose delivery fails ends without telling the hub, so the dead waiter stays registered.\<close>
lemma failed_timer_not_reported:
  "wt_processors w \<noteq> [] \<Longrightarrow> processTimerEvent [True] w = (w\<lparr>wt_state := WSFailed\<rparr>, False)"
  by (cases "wt_processors w") (simp_all add: processTimerEvent_def)

end
