(* ===== verification/Event_Hub.thy ===== *)
theory Event_Hub
  imports Event_Waiters
begin

text \<open>
  The event hub (\<^verbatim>\<open>src/internal/eventproc/eventhub/eventhub.go\<close>): the registry of waiters by event
  definition and its index of signal waiters by name.

  Waiters are Go pointers into \<open>hb_heap\<close>. What runs under the hub's lock is one step; a registration that
  builds its waiter outside the lock, and an unregistration that stops its waiter after the lock, are two
  steps, and other operations may come between them. Facts and logging are left out.
\<close>

section \<open>The hub\<close>

datatype hubState = hubNotStarted | hubStarted | hubStopped

record EventHub =
  hb_state :: hubState
  hb_waiters :: "(string \<times> nat) list"
  hb_signalIdx :: "(string \<times> nat list) list"
  hb_heap :: "(nat \<times> waiter) list"

definition EventHub_New :: EventHub where
  "EventHub_New = \<lparr>hb_state = hubNotStarted, hb_waiters = [], hb_signalIdx = [], hb_heap = []\<rparr>"

definition Hub_Start :: "EventHub \<Rightarrow> EventHub \<times> unit result" where
  "Hub_Start h =
     (if hb_state h \<noteq> hubNotStarted then (h, Inl (AppError InvalidState ''eventHub is already started or stopped''))
      else (h\<lparr>hb_state := hubStarted\<rparr>, Inr ()))"

definition idx_of :: "EventHub \<Rightarrow> string \<Rightarrow> nat list" where
  "idx_of h n = (case map_of (hb_signalIdx h) n of None \<Rightarrow> [] | Some ps \<Rightarrow> ps)"

definition new_ptr :: "EventHub \<Rightarrow> nat" where
  "new_ptr h = Suc (foldr (\<lambda>q m. max (fst q) m) (hb_heap h) 0)"

definition put_waiter :: "nat \<Rightarrow> waiter \<Rightarrow> EventHub \<Rightarrow> EventHub" where
  "put_waiter p w h = h\<lparr>hb_heap := AList.update p w (hb_heap h)\<rparr>"

section \<open>Registration\<close>

definition joinExistingWaiter :: "string \<Rightarrow> eventDef \<Rightarrow> EventHub \<Rightarrow> EventHub \<times> bool result" where
  "joinExistingWaiter ep d h =
     (if hb_state h = hubStopped then (h, Inl (AppError InvalidState ''event hub is shut down; registration rejected''))
      else (case map_of (hb_waiters h) (evd_ID d) of
              None \<Rightarrow> (h, Inr False)
            | Some p \<Rightarrow>
                (case map_of (hb_heap h) p of
                   None \<Rightarrow> (h, Inr False)
                 | Some w \<Rightarrow> (put_waiter p (AddEventProcessor ep w) h, Inr True))))"

text \<open>
  The slow path outside the lock: build, start. The waiter is at \<open>new_ptr\<close>; nobody else has its pointer
  before it is published.
\<close>

definition build_start :: "waiter result \<Rightarrow> int \<Rightarrow> bool \<Rightarrow> EventHub \<Rightarrow> EventHub \<times> nat result" where
  "build_start built now subscribed h =
     (case built of
        Inl _ \<Rightarrow> (h, Inl (AppError BulidingFailed ''eventWaiter building failed''))
      | Inr w \<Rightarrow>
          (case Service now subscribed w of
             (_, Inl _) \<Rightarrow> (h, Inl (AppError OperationFailed ''failed to start waiter service''))
           | (w', Inr _) \<Rightarrow> (put_waiter (new_ptr h) w' h, Inr (new_ptr h))))"

definition stop_ptr :: "nat \<Rightarrow> EventHub \<Rightarrow> EventHub" where
  "stop_ptr p h = (case map_of (hb_heap h) p of None \<Rightarrow> h | Some w \<Rightarrow> put_waiter p (fst (Stop w)) h)"

definition idx_add :: "eventDef \<Rightarrow> nat \<Rightarrow> EventHub \<Rightarrow> EventHub" where
  "idx_add d p h =
     (case signalName d of
        None \<Rightarrow> h
      | Some n \<Rightarrow> h\<lparr>hb_signalIdx := AList.update n (idx_of h n @ [p]) (hb_signalIdx h)\<rparr>)"

text \<open>A waiter that is not installed is referenced by nobody, so its stop after the unlock is part of the step.\<close>

definition publishWaiter :: "string \<Rightarrow> eventDef \<Rightarrow> nat \<Rightarrow> EventHub \<Rightarrow> EventHub \<times> unit result" where
  "publishWaiter ep d p h =
     (if hb_state h = hubStopped
      then (stop_ptr p h, Inl (AppError InvalidState ''event hub is shut down; registration rejected''))
      else (case map_of (hb_waiters h) (evd_ID d) of
              Some q \<Rightarrow>
                (case map_of (hb_heap h) q of
                   None \<Rightarrow> (stop_ptr p h, Inr ())
                 | Some w \<Rightarrow> (stop_ptr p (put_waiter q (AddEventProcessor ep w) h), Inr ()))
            | None \<Rightarrow> (idx_add d p (h\<lparr>hb_waiters := AList.update (evd_ID d) p (hb_waiters h)\<rparr>), Inr ())))"

text \<open>The whole registration when nothing comes in between.\<close>

definition registerWaiter :: "string \<Rightarrow> eventDef \<Rightarrow> waiter result \<Rightarrow> int \<Rightarrow> bool \<Rightarrow> EventHub \<Rightarrow> EventHub \<times> unit result" where
  "registerWaiter ep d built now subscribed h =
     (case joinExistingWaiter ep d h of
        (h1, Inl e) \<Rightarrow> (h1, Inl e)
      | (h1, Inr True) \<Rightarrow> (h1, Inr ())
      | (h1, Inr False) \<Rightarrow>
          (case build_start built now subscribed h1 of
             (h2, Inl e) \<Rightarrow> (h2, Inl e)
           | (h2, Inr p) \<Rightarrow> publishWaiter ep d p h2))"

definition RegisterEvent :: "int \<Rightarrow> (int \<times> int) option \<Rightarrow> timer_spec \<Rightarrow> bool \<Rightarrow> string \<Rightarrow> eventDef \<Rightarrow> EventHub \<Rightarrow> EventHub \<times> unit result" where
  "RegisterEvent now hint spec subscribed ep d h =
     (if hb_state h \<noteq> hubStarted then (h, Inl (AppError InvalidState ''eventHub isn't started''))
      else registerWaiter ep d (CreateWaiter now hint spec ep d) now subscribed h)"

definition RegisterPersistentEvent :: "int \<Rightarrow> bool \<Rightarrow> string \<Rightarrow> eventDef \<Rightarrow> EventHub \<Rightarrow> EventHub \<times> unit result" where
  "RegisterPersistentEvent now subscribed ep d h =
     (if hb_state h \<noteq> hubStarted then (h, Inl (AppError InvalidState ''eventHub isn't started''))
      else registerWaiter ep d (CreatePersistentWaiter ep d) now subscribed h)"

section \<open>Removal\<close>

definition signalIdxRemove :: "string \<Rightarrow> nat \<Rightarrow> EventHub \<Rightarrow> EventHub" where
  "signalIdxRemove n p h =
     (let ws = remove1 p (idx_of h n)
      in if ws = [] then h\<lparr>hb_signalIdx := AList.delete n (hb_signalIdx h)\<rparr>
         else h\<lparr>hb_signalIdx := AList.update n ws (hb_signalIdx h)\<rparr>)"

definition removeWaiterFromIndex :: "nat \<Rightarrow> EventHub \<Rightarrow> EventHub" where
  "removeWaiterFromIndex p h =
     (case map_of (hb_heap h) p of
        None \<Rightarrow> h
      | Some w \<Rightarrow> (case signalName (wt_eDef w) of None \<Rightarrow> h | Some n \<Rightarrow> signalIdxRemove n p h))"

definition dropWaiterLocked :: "string \<Rightarrow> nat \<Rightarrow> EventHub \<Rightarrow> EventHub" where
  "dropWaiterLocked i p h = (let h' = removeWaiterFromIndex p h in h'\<lparr>hb_waiters := AList.delete i (hb_waiters h')\<rparr>)"

text \<open>The locked part of \<^verbatim>\<open>UnregisterEvent\<close>; the result is the waiter to stop, if its last processor left.\<close>

definition unregister_locked :: "string \<Rightarrow> string \<Rightarrow> EventHub \<Rightarrow> EventHub \<times> nat option result" where
  "unregister_locked ep i h =
     (if hb_state h \<noteq> hubStarted then (h, Inl (AppError InvalidState ''eventHub isn't started''))
      else (case map_of (hb_waiters h) i of
              None \<Rightarrow> (h, Inl (AppError ObjectNotFound ''couldn't find waiter for the event definition''))
            | Some p \<Rightarrow>
                (case map_of (hb_heap h) p of
                   None \<Rightarrow> (h, Inl (AppError ObjectNotFound ''couldn't find waiter for the event definition''))
                 | Some w \<Rightarrow>
                     (case RemoveEventProcessor ep w of
                        Inl _ \<Rightarrow> (h, Inl (AppError ObjectNotFound ''couldn't remove event processor from waiter''))
                      | Inr w' \<Rightarrow>
                          (let h' = put_waiter p w' h
                           in if wt_processors w' = [] then (dropWaiterLocked i p h', Inr (Some p)) else (h', Inr None))))))"

definition remapUnstopped :: "string \<Rightarrow> nat \<Rightarrow> EventHub \<Rightarrow> EventHub" where
  "remapUnstopped i p h =
     (if has_key i (hb_waiters h) then h
      else (case map_of (hb_heap h) p of
              None \<Rightarrow> h
            | Some w \<Rightarrow> idx_add (wt_eDef w) p (h\<lparr>hb_waiters := AList.update i p (hb_waiters h)\<rparr>)))"

text \<open>
  After the unlock: \<^verbatim>\<open>State()\<close> read \<open>WSRunned\<close> (\<open>sawRunning\<close>), then \<^verbatim>\<open>Stop\<close>; the waiter may have moved on in between.
\<close>

definition unregister_stop :: "bool \<Rightarrow> string \<Rightarrow> nat \<Rightarrow> EventHub \<Rightarrow> EventHub \<times> unit result" where
  "unregister_stop sawRunning i p h =
     (case map_of (hb_heap h) p of
        None \<Rightarrow> (h, Inr ())
      | Some w \<Rightarrow>
          (if \<not> sawRunning then (h, Inr ())
           else (case Stop w of
                   (w', Inr _) \<Rightarrow> (put_waiter p w' h, Inr ())
                 | (w', Inl _) \<Rightarrow> (remapUnstopped i p (put_waiter p w' h), Inl (AppError OperationFailed ''waiter stop failed'')))))"

definition RemoveWaiter :: "string \<Rightarrow> EventHub \<Rightarrow> EventHub \<times> unit result" where
  "RemoveWaiter eDefID h =
     (let i = TrimSpace eDefID
      in if i = [] then (h, Inl (AppError EmptyNotAllowed ''event definition id is empty''))
         else (case map_of (hb_waiters h) i of
                 None \<Rightarrow> (h, Inl (AppError ObjectNotFound ''waiter isn't found''))
               | Some p \<Rightarrow> (dropWaiterLocked i p h, Inr ())))"

definition WaiterFired :: "string \<Rightarrow> EventHub \<Rightarrow> EventHub \<times> unit result" where
  "WaiterFired eDefID h =
     (let i = TrimSpace eDefID
      in if i = [] then (h, Inl (AppError EmptyNotAllowed ''event definition id is empty''))
         else (case map_of (hb_waiters h) i of
                 None \<Rightarrow> (h, Inl (AppError ObjectNotFound ''waiter isn't found''))
               | Some p \<Rightarrow>
                   (case map_of (hb_heap h) p of
                      None \<Rightarrow> (h, Inr ())
                    | Some w \<Rightarrow> (if wt_state w = WSEnded \<or> wt_state w = WSFailed then dropWaiterLocked i p h else h, Inr ()))))"

definition Shutdown :: "EventHub \<Rightarrow> EventHub" where
  "Shutdown h =
     (if hb_state h = hubStopped then h
      else fold (stop_ptr \<circ> snd) (hb_waiters h) (h\<lparr>hb_state := hubStopped, hb_waiters := [], hb_signalIdx := []\<rparr>))"

section \<open>Propagation\<close>

text \<open>Whom an event definition reaches: the waiters whose \<^verbatim>\<open>Process\<close> the hub calls.\<close>

definition propagate_targets :: "eventDef \<Rightarrow> EventHub \<Rightarrow> nat list result" where
  "propagate_targets d h =
     (if hb_state h \<noteq> hubStarted then Inl (AppError InvalidState ''eventHub isn't started'')
      else if evd_Type d = TriggerSignal then
        (case signalName d of
           None \<Rightarrow> Inl (AppError TypeCastingError ''not a signal event definition'')
         | Some n \<Rightarrow> Inr (idx_of h n))
      else Inr (case map_of (hb_waiters h) (evd_ID d) of None \<Rightarrow> [] | Some p \<Rightarrow> [p]))"

definition SignalCatchers :: "string \<Rightarrow> EventHub \<Rightarrow> nat" where
  "SignalCatchers n h =
     sum_list (map (\<lambda>p. case map_of (hb_heap h) p of None \<Rightarrow> 1 | Some w \<Rightarrow> length (wt_processors w)) (idx_of h n))"

section \<open>The registry's invariant\<close>

definition hub_ok :: "EventHub \<Rightarrow> bool" where
  "hub_ok h \<longleftrightarrow>
     (\<forall>i p. map_of (hb_waiters h) i = Some p \<longrightarrow> (\<exists>w. map_of (hb_heap h) p = Some w \<and> evd_ID (wt_eDef w) = i)) \<and>
     (\<forall>n. distinct (idx_of h n)) \<and>
     (\<forall>n p. p \<in> set (idx_of h n) \<longleftrightarrow>
        (\<exists>i w. map_of (hb_waiters h) i = Some p \<and> map_of (hb_heap h) p = Some w \<and> signalName (wt_eDef w) = Some n))"

lemma hub_okD:
  assumes "hub_ok h"
  shows "map_of (hb_waiters h) i = Some p \<Longrightarrow> \<exists>w. map_of (hb_heap h) p = Some w \<and> evd_ID (wt_eDef w) = i"
    and "distinct (idx_of h n)"
    and "p \<in> set (idx_of h n) \<longleftrightarrow> (\<exists>i w. map_of (hb_waiters h) i = Some p \<and> map_of (hb_heap h) p = Some w \<and> signalName (wt_eDef w) = Some n)"
  using assms unfolding hub_ok_def by blast+

lemma idx_of_simps [simp]:
  "idx_of (h\<lparr>hb_heap := x\<rparr>) n = idx_of h n" "idx_of (h\<lparr>hb_waiters := m\<rparr>) n = idx_of h n"
  "idx_of (h\<lparr>hb_state := s\<rparr>) n = idx_of h n" "idx_of (put_waiter p w h) n = idx_of h n"
  by (simp_all add: idx_of_def put_waiter_def)

lemma put_waiter_simps [simp]:
  "hb_waiters (put_waiter p w h) = hb_waiters h" "hb_state (put_waiter p w h) = hb_state h"
  "map_of (hb_heap (put_waiter p w h)) q = (if q = p then Some w else map_of (hb_heap h) q)"
  by (simp_all add: put_waiter_def update_conv')

text \<open>A waiter may change anything but its definition.\<close>

lemma hub_ok_put:
  assumes "hub_ok h" and "map_of (hb_heap h) p = Some w" and "wt_eDef w' = wt_eDef w"
  shows "hub_ok (put_waiter p w' h)"
  using assms unfolding hub_ok_def by (auto split: if_splits) (metis option.inject)+

lemma new_ptr_fresh: "map_of (hb_heap h) (new_ptr h) = None"
proof -
  have "new_ptr h \<notin> fst ` set (hb_heap h)"
  proof
    assume "new_ptr h \<in> fst ` set (hb_heap h)"
    then have "new_ptr h \<le> foldr (\<lambda>q m. max (fst q) m) (hb_heap h) 0" using foldr_max_ge[of _ "hb_heap h" fst] by auto
    then show False by (simp add: new_ptr_def)
  qed
  then show ?thesis by (simp add: map_of_eq_None_iff)
qed

lemma hub_ok_put_new: "hub_ok h \<Longrightarrow> map_of (hb_heap h) p = None \<Longrightarrow> hub_ok (put_waiter p w h)"
  unfolding hub_ok_def by (auto split: if_splits) (metis option.distinct(1))+

lemmas Stop_defs = Stop_def timer_Stop_def message_Stop_def signal_Stop_def

lemma Stop_eDef [simp]: "wt_eDef (fst (Stop w)) = wt_eDef w"
  by (simp add: Stop_defs)

lemma stop_ptr_ok: "hub_ok h \<Longrightarrow> hub_ok (stop_ptr p h)"
  by (auto simp: stop_ptr_def split: option.split intro!: hub_ok_put)

lemma AddEventProcessor_eDef [simp]: "wt_eDef (AddEventProcessor ep w) = wt_eDef w"
  by (simp add: AddEventProcessor_def)

lemma idx_add_simps [simp]:
  "hb_waiters (idx_add d p h) = hb_waiters h" "hb_heap (idx_add d p h) = hb_heap h" "hb_state (idx_add d p h) = hb_state h"
  "idx_of (idx_add d p h) n = (if signalName d = Some n then idx_of h n @ [p] else idx_of h n)"
  by (auto simp: idx_add_def idx_of_def update_conv' split: option.split)

text \<open>Installing a started waiter that is registered nowhere keeps the index and the registry in step.\<close>

lemma install_ok:
  assumes "hub_ok h" and "map_of (hb_heap h) p = Some w" and "map_of (hb_waiters h) (evd_ID (wt_eDef w)) = None"
    and "p \<notin> ran (map_of (hb_waiters h))"
  shows "hub_ok (idx_add (wt_eDef w) p (h\<lparr>hb_waiters := AList.update (evd_ID (wt_eDef w)) p (hb_waiters h)\<rparr>))"
proof -
  note ok = hub_okD[OF assms(1)]
  have free: "map_of (hb_waiters h) i \<noteq> Some p" for i using assms(4) by (auto simp: ran_def)
  have new: "p \<notin> set (idx_of h n)" for n using ok(3)[of p n] free by simp
  show ?thesis unfolding hub_ok_def
  proof (intro conjI allI impI)
    fix i q assume "map_of (hb_waiters (idx_add (wt_eDef w) p (h\<lparr>hb_waiters := AList.update (evd_ID (wt_eDef w)) p (hb_waiters h)\<rparr>))) i = Some q"
    then show "\<exists>v. map_of (hb_heap (idx_add (wt_eDef w) p (h\<lparr>hb_waiters := AList.update (evd_ID (wt_eDef w)) p (hb_waiters h)\<rparr>))) q = Some v \<and> evd_ID (wt_eDef v) = i"
      using ok(1)[of i q] assms(2) by (auto simp: update_conv' split: if_splits)
  next
    fix n
    show "distinct (idx_of (idx_add (wt_eDef w) p (h\<lparr>hb_waiters := AList.update (evd_ID (wt_eDef w)) p (hb_waiters h)\<rparr>)) n)"
      using ok(2) new by simp
  next
    fix n q
    show "q \<in> set (idx_of (idx_add (wt_eDef w) p (h\<lparr>hb_waiters := AList.update (evd_ID (wt_eDef w)) p (hb_waiters h)\<rparr>)) n) \<longleftrightarrow>
      (\<exists>i v. map_of (hb_waiters (idx_add (wt_eDef w) p (h\<lparr>hb_waiters := AList.update (evd_ID (wt_eDef w)) p (hb_waiters h)\<rparr>))) i = Some q \<and>
         map_of (hb_heap (idx_add (wt_eDef w) p (h\<lparr>hb_waiters := AList.update (evd_ID (wt_eDef w)) p (hb_waiters h)\<rparr>))) q = Some v \<and>
         signalName (wt_eDef v) = Some n)"
    proof (cases "q = p")
      case True
      then show ?thesis using new[of n] free assms(2) by (auto simp: update_conv')
    next
      case False
      then show ?thesis using ok(3)[of q n] assms(3) by (auto simp: update_conv') (metis option.distinct(1))
    qed
  qed
qed

lemma idx_of_signalIdxRemove: "idx_of (signalIdxRemove n p h) m = (if m = n then remove1 p (idx_of h n) else idx_of h m)"
  by (auto simp: signalIdxRemove_def Let_def idx_of_def update_conv' delete_conv')

lemma signalIdxRemove_frame [simp]:
  "hb_waiters (signalIdxRemove n p h) = hb_waiters h" "hb_heap (signalIdxRemove n p h) = hb_heap h"
  "hb_state (signalIdxRemove n p h) = hb_state h"
  by (simp_all add: signalIdxRemove_def Let_def)

lemma dropWaiterLocked_frame [simp]:
  "hb_waiters (dropWaiterLocked i p h) = AList.delete i (hb_waiters h)" "hb_heap (dropWaiterLocked i p h) = hb_heap h"
  "hb_state (dropWaiterLocked i p h) = hb_state h"
  by (auto simp: dropWaiterLocked_def removeWaiterFromIndex_def Let_def split: option.split)

lemma dropWaiterLocked_idx:
  assumes "map_of (hb_heap h) p = Some w"
  shows "idx_of (dropWaiterLocked i p h) n = (if signalName (wt_eDef w) = Some n then remove1 p (idx_of h n) else idx_of h n)"
  using assms by (auto simp: dropWaiterLocked_def removeWaiterFromIndex_def Let_def idx_of_signalIdxRemove split: option.split)

text \<open>A pointer is registered under one definition only.\<close>

lemma registered_once:
  assumes "hub_ok h" and "map_of (hb_waiters h) i = Some p" and "map_of (hb_waiters h) j = Some p"
  shows "i = j"
  using hub_okD(1)[OF assms(1,2)] hub_okD(1)[OF assms(1,3)] by auto

lemma drop_ok:
  assumes "hub_ok h" and "map_of (hb_waiters h) i = Some p"
  shows "hub_ok (dropWaiterLocked i p h)"
proof -
  note ok = hub_okD[OF assms(1)]
  obtain w where w: "map_of (hb_heap h) p = Some w" "evd_ID (wt_eDef w) = i" using ok(1)[OF assms(2)] by blast
  show ?thesis unfolding hub_ok_def dropWaiterLocked_idx[OF w(1)]
  proof (intro conjI allI impI)
    fix j q assume "map_of (hb_waiters (dropWaiterLocked i p h)) j = Some q"
    then show "\<exists>v. map_of (hb_heap (dropWaiterLocked i p h)) q = Some v \<and> evd_ID (wt_eDef v) = j"
      using ok(1)[of j q] by (simp add: delete_conv' split: if_splits)
  next
    fix n show "distinct (if signalName (wt_eDef w) = Some n then remove1 p (idx_of h n) else idx_of h n)" using ok(2) by simp
  next
    fix n q
    show "q \<in> set (if signalName (wt_eDef w) = Some n then remove1 p (idx_of h n) else idx_of h n) \<longleftrightarrow>
      (\<exists>j v. map_of (hb_waiters (dropWaiterLocked i p h)) j = Some q \<and> map_of (hb_heap (dropWaiterLocked i p h)) q = Some v \<and>
         signalName (wt_eDef v) = Some n)"
    proof (cases "q = p")
      case True
      have "\<not> (\<exists>j. map_of (AList.delete i (hb_waiters h)) j = Some p)"
        using registered_once[OF assms(1,2)] by (auto simp: delete_conv' split: if_splits)
      then show ?thesis using True ok(2)[of n] ok(3)[of p n] w(1) by auto
    next
      case False
      have "(\<exists>j. map_of (AList.delete i (hb_waiters h)) j = Some q) \<longleftrightarrow> (\<exists>j. map_of (hb_waiters h) j = Some q)"
        using assms(2) False by (auto simp: delete_conv' split: if_splits) (metis option.inject)
      then show ?thesis using False ok(3)[of q n] by (auto simp: in_set_remove1)
    qed
  qed
qed

section \<open>Every history\<close>

text \<open>
  The steps of a hub, with the registrations that built and started a waiter but have not published
  it (\<open>pend\<close>) and the unregistrations that still have to stop theirs (\<open>stops\<close>). A waiter's own goroutine moves
  it to a final state, alone or with its processors emptied (\<open>HMove\<close>).
\<close>

type_synonym hub_conf = "EventHub \<times> (nat \<times> string \<times> eventDef) list \<times> (string \<times> nat) list"

datatype hub_label = HStart | HJoin string eventDef "bool result" | HBuild | HPublish string eventDef "unit result"
  | HUnregister string string | HStop string | HRemove string | HFired string | HShutdown | HMove nat

inductive hub_step :: "hub_label \<Rightarrow> hub_conf \<Rightarrow> hub_conf \<Rightarrow> bool" where
  start: "Hub_Start h = (h', r) \<Longrightarrow> hub_step HStart (h, pend, stops) (h', pend, stops)"
| join: "hb_state h = hubStarted \<Longrightarrow> joinExistingWaiter ep d h = (h', rj) \<Longrightarrow>
    hub_step (HJoin ep d rj) (h, pend, stops) (h', pend, stops)"
| build: "built = CreateWaiter now hint spec ep d \<or> built = CreatePersistentWaiter ep d \<Longrightarrow>
    build_start built now sub h = (h', Inr p) \<Longrightarrow> hub_step HBuild (h, pend, stops) (h', (p, ep, d) # pend, stops)"
| publish: "(p, ep, d) \<in> set pend \<Longrightarrow> publishWaiter ep d p h = (h', rp) \<Longrightarrow>
    hub_step (HPublish ep d rp) (h, pend, stops) (h', remove1 (p, ep, d) pend, stops)"
| unregister: "unregister_locked ep i h = (h', ru) \<Longrightarrow>
    hub_step (HUnregister ep i) (h, pend, stops) (h', pend, (case ru of Inr (Some p) \<Rightarrow> [(i, p)] | _ \<Rightarrow> []) @ stops)"
| stop: "(i, p) \<in> set stops \<Longrightarrow> unregister_stop saw i p h = (h', rs) \<Longrightarrow>
    hub_step (HStop i) (h, pend, stops) (h', pend, remove1 (i, p) stops)"
| remove: "RemoveWaiter i h = (h', rr) \<Longrightarrow> hub_step (HRemove i) (h, pend, stops) (h', pend, stops)"
| fired: "WaiterFired i h = (h', rf) \<Longrightarrow> hub_step (HFired i) (h, pend, stops) (h', pend, stops)"
| shutdown: "hub_step HShutdown (h, pend, stops) (Shutdown h, pend, stops)"
| moves: "map_of (hb_heap h) p = Some w \<Longrightarrow> wt_state w = WSRunned \<Longrightarrow>
    st \<in> {WSEnded, WSFailed, WSStopped} \<Longrightarrow> ps = wt_processors w \<or> ps = [] \<Longrightarrow>
    hub_step (HMove p) (h, pend, stops) (put_waiter p (w\<lparr>wt_state := st, wt_processors := ps\<rparr>) h, pend, stops)"

inductive hub_run :: "hub_conf \<Rightarrow> bool" where
  run_new: "hub_run (EventHub_New, [], [])"
| run_step: "hub_run c \<Longrightarrow> hub_step l c c' \<Longrightarrow> hub_run c'"

text \<open>The pointers in flight are registered nowhere and shared by nobody.\<close>

definition flight_ok :: "EventHub \<Rightarrow> (nat \<times> string \<times> eventDef) list \<Rightarrow> (string \<times> nat) list \<Rightarrow> bool" where
  "flight_ok h pend stops \<longleftrightarrow>
     distinct (map fst pend @ map snd stops) \<and>
     (\<forall>p \<in> set (map fst pend @ map snd stops). p \<notin> ran (map_of (hb_waiters h)) \<and> map_of (hb_heap h) p \<noteq> None) \<and>
     (\<forall>p ep d. (p, ep, d) \<in> set pend \<longrightarrow> map_option wt_eDef (map_of (hb_heap h) p) = Some d) \<and>
     (\<forall>i p. (i, p) \<in> set stops \<longrightarrow> map_option (evd_ID \<circ> wt_eDef) (map_of (hb_heap h) p) = Some i)"

definition same_defs :: "EventHub \<Rightarrow> EventHub \<Rightarrow> bool" where
  "same_defs h h' \<longleftrightarrow>
     (\<forall>p d. map_option wt_eDef (map_of (hb_heap h) p) = Some d \<longrightarrow> map_option wt_eDef (map_of (hb_heap h') p) = Some d)"

definition in_flight :: "(nat \<times> string \<times> eventDef) list \<Rightarrow> (string \<times> nat) list \<Rightarrow> nat set" where
  "in_flight pend stops = set (map fst pend @ map snd stops)"

lemma flight_ok_mono:
  assumes "flight_ok h pend stops" and "same_defs h h'"
    and "ran (map_of (hb_waiters h')) \<inter> in_flight pend stops \<subseteq> ran (map_of (hb_waiters h))"
  shows "flight_ok h' pend stops"
proof -
  have d: "map_option wt_eDef (map_of (hb_heap h') p) = Some d" if "map_option wt_eDef (map_of (hb_heap h) p) = Some d" for p d
    using assms(2) that unfolding same_defs_def by blast
  have i: "map_option (evd_ID \<circ> wt_eDef) (map_of (hb_heap h') p) = Some i" if "map_option (evd_ID \<circ> wt_eDef) (map_of (hb_heap h) p) = Some i" for p i
    using that d[of p] by (cases "map_of (hb_heap h) p"; cases "map_of (hb_heap h') p") auto
  have n: "map_of (hb_heap h') p \<noteq> None" if "map_of (hb_heap h) p \<noteq> None" for p
    using that d[of p] by (cases "map_of (hb_heap h) p"; cases "map_of (hb_heap h') p") auto
  show ?thesis using assms(1,3) d i n unfolding flight_ok_def in_flight_def by (meson IntI subsetD)
qed

lemma flight_ok_sub:
  assumes "flight_ok h pend stops" and "set pend' \<subseteq> set pend" and "set stops' \<subseteq> set stops"
    and "distinct (map fst pend' @ map snd stops')"
  shows "flight_ok h pend' stops'"
proof -
  have "set (map fst pend' @ map snd stops') \<subseteq> set (map fst pend @ map snd stops)" using assms(2,3) by auto
  then show ?thesis using assms unfolding flight_ok_def by (meson subsetD)
qed

lemma distinct_remove1_map:
  assumes "distinct (map f xs)"
  shows "distinct (map f (remove1 x xs))" and "x \<in> set xs \<Longrightarrow> f x \<notin> f ` set (remove1 x xs)"
proof -
  have d: "distinct xs" and inj: "inj_on f (set xs)" using assms by (simp_all add: distinct_map)
  show "distinct (map f (remove1 x xs))" using d inj by (simp add: distinct_map inj_on_diff)
  show "f x \<notin> f ` set (remove1 x xs)" if "x \<in> set xs" using that d inj by (auto dest: inj_onD)
qed

lemma same_defs_put:
  "map_of (hb_heap h) p = Some w \<Longrightarrow> wt_eDef w' = wt_eDef w \<Longrightarrow> same_defs h (put_waiter p w' h)"
  by (simp add: same_defs_def option.map_comp)

lemma same_defs_refl [simp]: "same_defs h h"
  by (simp add: same_defs_def)

lemma same_defs_trans: "same_defs h h1 \<Longrightarrow> same_defs h1 h2 \<Longrightarrow> same_defs h h2"
  unfolding same_defs_def by blast

lemma same_defs_stop: "same_defs h (stop_ptr p h)"
  by (auto simp: stop_ptr_def split: option.split intro: same_defs_put)

lemma same_defs_drop: "same_defs h (dropWaiterLocked i p h)"
  by (simp add: same_defs_def)

lemma RemoveEventProcessor_eDef: "RemoveEventProcessor ep w = Inr w' \<Longrightarrow> wt_eDef w' = wt_eDef w"
  by (auto simp: RemoveEventProcessor_def split: if_splits)

lemma ran_delete: "ran (map_of (AList.delete i m)) \<subseteq> ran (map_of m)"
  by (auto simp: ran_def delete_conv' split: if_splits)

lemma ran_update: "ran (map_of (AList.update i p m)) \<subseteq> insert p (ran (map_of m))"
  by (auto simp: ran_def update_conv' split: if_splits)

text \<open>Building and starting a waiter leaves its definition and its one processor alone.\<close>

definition built_for :: "string \<Rightarrow> eventDef \<Rightarrow> waiter \<Rightarrow> bool" where
  "built_for ep d w \<longleftrightarrow> wt_eDef w = d \<and> wt_processors w = [ep]"

lemma processExpression_keeps: "processExpression now name v w = Inr w' \<Longrightarrow> built_for ep d w \<Longrightarrow> built_for ep d w'"
  by (cases "(now, name, v, w)" rule: processExpression.cases) (auto simp: timer_error_def built_for_def split: if_splits)

lemma process_all_keeps: "process_all now es w = Inr w' \<Longrightarrow> built_for ep d w \<Longrightarrow> built_for ep d w'"
  by (induction now es w rule: process_all.induct) (auto split: sum.splits dest: processExpression_keeps)

lemma new_waiter_built: "built_for ep d (new_waiter d ep)"
  by (simp add: built_for_def new_waiter_def)

lemma NewTimeWaiter_built: "NewTimeWaiter now hint spec ep d = Inr w \<Longrightarrow> built_for ep d w"
  using new_waiter_built[of ep d]
  by (auto simp: NewTimeWaiter_def parseEDef_def timer_error_def built_for_def[of ep d "_\<lparr>wt_next := _\<rparr>"]
      split: if_splits option.splits sum.splits dest: process_all_keeps) (auto simp: built_for_def)

lemma CreateWaiter_built: "CreateWaiter now hint spec ep d = Inr w \<Longrightarrow> built_for ep d w"
  by (auto simp: CreateWaiter_def NewMessageWaiter_def NewSignalWaiter_def new_waiter_built dest: NewTimeWaiter_built split: EventTrigger.splits if_splits)

lemma CreatePersistentWaiter_built: "CreatePersistentWaiter ep d = Inr w \<Longrightarrow> built_for ep d w"
  by (auto simp: CreatePersistentWaiter_def NewMessageWaiter_def NewSignalWaiter_def new_waiter_built split: EventTrigger.splits if_splits)

lemma Service_keeps: "Service now sub w = (w', r) \<Longrightarrow> built_for ep d w \<Longrightarrow> built_for ep d w'"
  by (auto simp: Service_def timer_Service_def message_Service_def signal_Service_def Let_def built_for_def split: if_splits)

section \<open>The invariant of every history\<close>

text \<open>A step that keeps the flight lists only has to keep the registry and the definitions.\<close>

definition tame :: "EventHub \<Rightarrow> EventHub \<Rightarrow> bool" where
  "tame h h' \<longleftrightarrow> hub_ok h' \<and> same_defs h h' \<and> ran (map_of (hb_waiters h')) \<subseteq> ran (map_of (hb_waiters h))"

lemma tame_flight: "tame h h' \<Longrightarrow> flight_ok h pend stops \<Longrightarrow> flight_ok h' pend stops"
  unfolding tame_def by (erule conjE)+ (erule flight_ok_mono, assumption, blast)

lemma tame_refl: "hub_ok h \<Longrightarrow> tame h h"
  by (simp add: tame_def)

lemma tame_trans: "tame h h1 \<Longrightarrow> tame h1 h2 \<Longrightarrow> tame h h2"
  unfolding tame_def using same_defs_trans by blast

lemma tame_put: "hub_ok h \<Longrightarrow> map_of (hb_heap h) p = Some w \<Longrightarrow> wt_eDef w' = wt_eDef w \<Longrightarrow> tame h (put_waiter p w' h)"
  by (simp add: tame_def hub_ok_put same_defs_put)

lemma tame_stop: "hub_ok h \<Longrightarrow> tame h (stop_ptr p h)"
  by (auto simp: stop_ptr_def tame_refl split: option.split intro: tame_put)

lemma tame_drop: "hub_ok h \<Longrightarrow> map_of (hb_waiters h) i = Some p \<Longrightarrow> tame h (dropWaiterLocked i p h)"
  by (simp add: tame_def drop_ok same_defs_drop ran_delete)

lemma tame_start: "hub_ok h \<Longrightarrow> Hub_Start h = (h', r) \<Longrightarrow> tame h h'"
  by (auto simp: Hub_Start_def tame_def hub_ok_def same_defs_def split: if_splits)

lemma tame_join: "hub_ok h \<Longrightarrow> joinExistingWaiter ep d h = (h', r) \<Longrightarrow> tame h h'"
  by (auto simp: joinExistingWaiter_def tame_refl tame_put split: if_splits option.splits)

lemma tame_remove: "hub_ok h \<Longrightarrow> RemoveWaiter i h = (h', r) \<Longrightarrow> tame h h'"
  by (auto simp: RemoveWaiter_def Let_def tame_refl tame_drop split: if_splits option.splits)

lemma tame_fired: "hub_ok h \<Longrightarrow> WaiterFired i h = (h', r) \<Longrightarrow> tame h h'"
  by (auto simp: WaiterFired_def Let_def tame_refl tame_drop split: if_splits option.splits)

lemma tame_stops: "hub_ok h \<Longrightarrow> tame h (fold (stop_ptr \<circ> snd) qs h)"
proof (induction qs arbitrary: h)
  case (Cons q qs)
  have "tame h (stop_ptr (snd q) h)" by (rule tame_stop[OF Cons.prems])
  moreover have "hub_ok (stop_ptr (snd q) h)" by (rule stop_ptr_ok[OF Cons.prems])
  ultimately show ?case using tame_trans[OF _ Cons.IH] by simp
qed (simp add: tame_refl)

lemma tame_shutdown:
  assumes "hub_ok h"
  shows "tame h (Shutdown h)"
proof (cases "hb_state h = hubStopped")
  case False
  let ?c = "h\<lparr>hb_state := hubStopped, hb_waiters := [], hb_signalIdx := []\<rparr>"
  have c: "hub_ok ?c" "tame h ?c" by (simp_all add: tame_def hub_ok_def same_defs_def idx_of_def)
  show ?thesis using False tame_trans[OF c(2) tame_stops[OF c(1)]] by (simp add: Shutdown_def)
qed (simp add: Shutdown_def tame_refl assms)

text \<open>A registration in flight has a pointer of its own.\<close>

lemma step_build:
  assumes "hub_ok h" and "flight_ok h pend stops"
    and "built = CreateWaiter now hint spec ep d \<or> built = CreatePersistentWaiter ep d" and "build_start built now sub h = (h', Inr p)"
  shows "hub_ok h' \<and> flight_ok h' ((p, ep, d) # pend) stops"
proof -
  obtain w w' where w: "built = Inr w" "Service now sub w = (w', Inr ())" "p = new_ptr h" "h' = put_waiter p w' h"
    using assms(4) by (auto simp: build_start_def split: sum.splits prod.splits)
  have "built_for ep d w'" using assms(3) w(1,2) CreateWaiter_built CreatePersistentWaiter_built Service_keeps by metis
  then have d: "wt_eDef w' = d" by (simp add: built_for_def)
  have new: "map_of (hb_heap h) p = None" by (simp add: w(3) new_ptr_fresh)
  have ok: "hub_ok h'" unfolding w(4) by (rule hub_ok_put_new[OF assms(1) new])
  have s: "same_defs h h'" using new by (auto simp: same_defs_def w(4))
  have fl: "flight_ok h' pend stops" by (rule flight_ok_mono[OF assms(2) s]) (simp add: w(4))
  have "p \<notin> in_flight pend stops" using assms(2) new unfolding flight_ok_def in_flight_def by blast
  moreover have "p \<notin> ran (map_of (hb_waiters h))" using hub_okD(1)[OF assms(1)] new by (fastforce simp: ran_def)
  ultimately show ?thesis using ok fl d by (auto simp: flight_ok_def in_flight_def w(4))
qed

lemma flight_free:
  assumes "flight_ok h pend stops" and "p \<in> in_flight pend stops"
  shows "p \<notin> ran (map_of (hb_waiters h))"
  using assms unfolding flight_ok_def in_flight_def by blast

lemma flight_pend_free: "flight_ok h pend stops \<Longrightarrow> (p, ep, d) \<in> set pend \<Longrightarrow> p \<notin> ran (map_of (hb_waiters h))"
  by (erule flight_free) (force simp: in_flight_def)

lemma flight_stops_free: "flight_ok h pend stops \<Longrightarrow> (i, p) \<in> set stops \<Longrightarrow> p \<notin> ran (map_of (hb_waiters h))"
  by (erule flight_free) (force simp: in_flight_def)

lemma flight_pend_def:
  assumes "flight_ok h pend stops" and "(p, ep, d) \<in> set pend"
  shows "\<exists>w. map_of (hb_heap h) p = Some w \<and> wt_eDef w = d"
proof -
  have "map_option wt_eDef (map_of (hb_heap h) p) = Some d" using assms unfolding flight_ok_def by blast
  then show ?thesis by auto
qed

lemma flight_stops_def:
  assumes "flight_ok h pend stops" and "(i, p) \<in> set stops"
  shows "\<exists>w. map_of (hb_heap h) p = Some w \<and> evd_ID (wt_eDef w) = i"
proof -
  have "map_option (evd_ID \<circ> wt_eDef) (map_of (hb_heap h) p) = Some i" using assms unfolding flight_ok_def by blast
  then show ?thesis by auto
qed

lemma flight_leave_pend:
  assumes "flight_ok h pend stops" and "(p, ep, d) \<in> set pend"
  shows "flight_ok h (remove1 (p, ep, d) pend) stops" and "p \<notin> in_flight (remove1 (p, ep, d) pend) stops"
proof -
  have dist: "distinct (map fst pend @ map snd stops)" using assms(1) by (simp add: flight_ok_def)
  note r = distinct_remove1_map[of fst pend "(p, ep, d)"]
  have sub: "set (remove1 (p, ep, d) pend) \<subseteq> set pend" by (rule set_remove1_subset)
  show "flight_ok h (remove1 (p, ep, d) pend) stops"
    by (rule flight_ok_sub[OF assms(1) sub]) (use dist r(1) sub in auto)
  have "p \<in> fst ` set pend" using assms(2) by force
  then show "p \<notin> in_flight (remove1 (p, ep, d) pend) stops" using dist r(2) assms(2) by (auto simp: in_flight_def)
qed

lemma flight_leave_stops:
  assumes "flight_ok h pend stops" and "(i, p) \<in> set stops"
  shows "flight_ok h pend (remove1 (i, p) stops)" and "p \<notin> in_flight pend (remove1 (i, p) stops)"
proof -
  have dist: "distinct (map fst pend @ map snd stops)" using assms(1) by (simp add: flight_ok_def)
  note r = distinct_remove1_map[of snd stops "(i, p)"]
  have sub: "set (remove1 (i, p) stops) \<subseteq> set stops" by (rule set_remove1_subset)
  show "flight_ok h pend (remove1 (i, p) stops)"
    by (rule flight_ok_sub[OF assms(1) _ sub]) (use dist r(1) sub in auto)
  have "p \<in> snd ` set stops" using assms(2) by force
  then show "p \<notin> in_flight pend (remove1 (i, p) stops)" using dist r(2) assms(2) by (auto simp: in_flight_def)
qed

lemma stop_ptr_frame [simp]:
  "hb_waiters (stop_ptr p h) = hb_waiters h" "hb_state (stop_ptr p h) = hb_state h" "idx_of (stop_ptr p h) n = idx_of h n"
  by (simp_all add: stop_ptr_def split: option.split)

lemma step_publish:
  assumes ok: "hub_ok h" and fl: "flight_ok h pend stops" and mem: "(p, ep, d) \<in> set pend"
    and pub: "publishWaiter ep d p h = (h', r)"
  shows "hub_ok h' \<and> flight_ok h' (remove1 (p, ep, d) pend) stops"
proof -
  note lv = flight_leave_pend[OF fl mem]
  note free = flight_pend_free[OF fl mem]
  obtain w where w: "map_of (hb_heap h) p = Some w" "wt_eDef w = d" using flight_pend_def[OF fl mem] by blast
  show ?thesis
  proof (cases "hb_state h \<noteq> hubStopped \<and> map_of (hb_waiters h) (evd_ID d) = None")
    case True
    let ?h' = "idx_add d p (h\<lparr>hb_waiters := AList.update (evd_ID d) p (hb_waiters h)\<rparr>)"
    have eq: "h' = ?h'" using pub True by (simp add: publishWaiter_def)
    have "hub_ok h'" using install_ok[OF ok w(1)] True free w(2) eq by simp
    moreover have "flight_ok h' (remove1 (p, ep, d) pend) stops"
      by (rule flight_ok_mono[OF lv(1)]) (use lv(2) ran_update[of "evd_ID d" p "hb_waiters h"] eq in \<open>auto simp: same_defs_def\<close>)
    ultimately show ?thesis by simp
  next
    case False
    have "tame h h'"
    proof (cases "hb_state h = hubStopped")
      case True then show ?thesis using pub tame_stop[OF ok] by (auto simp: publishWaiter_def)
    next
      case False2: False
      then obtain q where q1: "map_of (hb_waiters h) (evd_ID d) = Some q" using False by auto
      then obtain v where "map_of (hb_heap h) q = Some v" using hub_okD(1)[OF ok] by blast
      note q = q1 this
      have t: "tame h (put_waiter q (AddEventProcessor ep v) h)" by (rule tame_put[OF ok q(2)]) simp
      have "h' = stop_ptr p (put_waiter q (AddEventProcessor ep v) h)" using pub False2 q by (simp add: publishWaiter_def)
      then show ?thesis using tame_trans[OF t tame_stop] t by (simp add: tame_def)
    qed
    then show ?thesis using tame_flight lv(1) by (auto simp: tame_def)
  qed
qed

lemma step_unregister:
  assumes ok: "hub_ok h" and fl: "flight_ok h pend stops" and un: "unregister_locked ep i h = (h', r)"
  shows "hub_ok h' \<and> flight_ok h' pend ((case r of Inr (Some p) \<Rightarrow> [(i, p)] | _ \<Rightarrow> []) @ stops)"
proof (cases "\<exists>p. r = Inr (Some p)")
  case False
  have "tame h h'" using un False ok
    by (auto simp: unregister_locked_def Let_def tame_refl split: if_splits option.splits sum.splits
        intro!: tame_put dest: RemoveEventProcessor_eDef)
  then have "hub_ok h' \<and> flight_ok h' pend stops" using fl tame_flight by (auto simp: tame_def)
  moreover have "(case r of Inr (Some p) \<Rightarrow> [(i, p)] | _ \<Rightarrow> []) = []" using False by (auto split: sum.split option.split)
  ultimately show ?thesis by simp
next
  case True
  then obtain p where p: "r = Inr (Some p)" by blast
  obtain w w' where w: "map_of (hb_waiters h) i = Some p" "map_of (hb_heap h) p = Some w" "RemoveEventProcessor ep w = Inr w'"
    "h' = dropWaiterLocked i p (put_waiter p w' h)"
    using un p by (auto simp: unregister_locked_def Let_def split: if_splits option.splits sum.splits)
  note eD = RemoveEventProcessor_eDef[OF w(3)]
  have t1: "tame h (put_waiter p w' h)" by (rule tame_put[OF ok w(2) eD])
  have t2: "tame (put_waiter p w' h) h'" unfolding w(4) by (rule tame_drop) (use t1 w(1) in \<open>simp_all add: tame_def\<close>)
  note t = tame_trans[OF t1 t2]
  have fl': "flight_ok h' pend stops" by (rule tame_flight[OF t fl])
  have "p \<in> ran (map_of (hb_waiters h))" using w(1) by (auto simp: ran_def)
  then have "p \<notin> in_flight pend stops" using fl unfolding flight_ok_def in_flight_def by blast
  moreover have "p \<notin> ran (map_of (hb_waiters h'))"
    using registered_once[OF ok w(1)] by (auto simp: w(4) ran_def delete_conv' split: if_splits)
  moreover have "evd_ID (wt_eDef w') = i" using hub_okD(1)[OF ok w(1)] w(2) eD by simp
  ultimately show ?thesis using t fl' p by (auto simp: tame_def flight_ok_def in_flight_def w(4))
qed

lemma has_key_None: "has_key i m \<longleftrightarrow> map_of m i \<noteq> None"
  by (simp add: has_key_def map_of_eq_None_iff)

lemma step_stop:
  assumes ok: "hub_ok h" and fl: "flight_ok h pend stops" and mem: "(i, p) \<in> set stops"
    and st: "unregister_stop saw i p h = (h', r)"
  shows "hub_ok h' \<and> flight_ok h' pend (remove1 (i, p) stops)"
proof -
  note lv = flight_leave_stops[OF fl mem]
  note free = flight_stops_free[OF fl mem]
  obtain w where w: "map_of (hb_heap h) p = Some w" "evd_ID (wt_eDef w) = i" using flight_stops_def[OF fl mem] by blast
  obtain w' s where s: "Stop w = (w', s)" by (cases "Stop w")
  have eD: "wt_eDef w' = wt_eDef w" using s Stop_eDef[of w] by simp
  let ?m = "put_waiter p w' h"
  have t: "tame h ?m" by (rule tame_put[OF ok w(1) eD])
  show ?thesis
  proof (cases "saw \<and> isl s \<and> map_of (hb_waiters h) i = None")
    case True
    have eq: "h' = idx_add (wt_eDef w') p (?m\<lparr>hb_waiters := AList.update i p (hb_waiters ?m)\<rparr>)"
      using st True w(1) s by (auto simp: unregister_stop_def remapUnstopped_def has_key_None isl_def split: sum.splits)
    have "hub_ok h'" using install_ok[of ?m p w'] t True free w(2) eD eq by (simp add: tame_def)
    moreover have "flight_ok h' pend (remove1 (i, p) stops)"
      by (rule flight_ok_mono[OF tame_flight[OF t lv(1)]]) (use lv(2) ran_update[of i p "hb_waiters h"] eq in \<open>auto simp: same_defs_def\<close>)
    ultimately show ?thesis by simp
  next
    case False
    have "h' = h \<or> h' = ?m"
      using st False w(1) s by (auto simp: unregister_stop_def remapUnstopped_def has_key_None isl_def split: sum.splits if_splits)
    then show ?thesis using t ok tame_flight[OF t lv(1)] lv(1) by (auto simp: tame_def)
  qed
qed

definition conf_ok :: "hub_conf \<Rightarrow> bool" where
  "conf_ok = (\<lambda>(h, pend, stops). hub_ok h \<and> flight_ok h pend stops)"

lemma conf_ok_tame: "tame h h' \<Longrightarrow> conf_ok (h, pend, stops) \<Longrightarrow> conf_ok (h', pend, stops)"
  using tame_flight by (auto simp: conf_ok_def tame_def)

lemma conf_ok_hub: "conf_ok (h, pend, stops) \<Longrightarrow> hub_ok h"
  by (simp add: conf_ok_def)

lemma hub_step_ok: "hub_step l c c' \<Longrightarrow> conf_ok c \<Longrightarrow> conf_ok c'"
proof (induction rule: hub_step.induct)
  case (start h h' r pend stops) then show ?case by (meson conf_ok_tame tame_start conf_ok_hub)
next
  case (join h ep d h' r pend stops) then show ?case by (meson conf_ok_tame tame_join conf_ok_hub)
next
  case (build built now hint spec ep d sub h h' p pend stops)
  then show ?case using step_build[of h pend stops built now hint spec ep d sub h' p] by (simp add: conf_ok_def)
next
  case (publish p ep d pend h h' r stops)
  then show ?case using step_publish[of h pend stops p ep d h' r] by (simp add: conf_ok_def)
next
  case (unregister ep i h h' r pend stops)
  then show ?case using step_unregister[of h pend stops ep i h' r] by (simp add: conf_ok_def)
next
  case (stop i p stops saw h h' r pend)
  then show ?case using step_stop[of h pend stops i p saw h' r] by (simp add: conf_ok_def)
next
  case (remove i h h' r pend stops) then show ?case by (meson conf_ok_tame tame_remove conf_ok_hub)
next
  case (fired i h h' r pend stops) then show ?case by (meson conf_ok_tame tame_fired conf_ok_hub)
next
  case (shutdown h pend stops) then show ?case by (meson conf_ok_tame tame_shutdown conf_ok_hub)
next
  case (moves h p w st ps pend stops)
  then have "tame h (put_waiter p (w\<lparr>wt_state := st, wt_processors := ps\<rparr>) h)" by (intro tame_put) (auto simp: conf_ok_def)
  then show ?case using moves.prems by (rule conf_ok_tame)
qed

lemma hub_run_ok: "hub_run c \<Longrightarrow> conf_ok c"
proof (induction rule: hub_run.induct)
  case run_new
  show ?case by (simp add: conf_ok_def EventHub_New_def hub_ok_def flight_ok_def idx_of_def)
next
  case (run_step c l c') then show ?case using hub_step_ok by blast
qed

section \<open>Properties\<close>

text \<open>
  Claim C26. In every history of the hub, whatever the interleaving of registrations, unregistrations, removals, fires
  and shutdown, the signal index of a name lists exactly the registered waiters whose definition is a signal of
  that name, each once, and a registered waiter is registered under the id of its own definition only: a
  broadcast reaches every waiter of the name, and none twice.
\<close>

theorem hub_index_coherent:
  assumes "hub_run (h, pend, stops)"
  shows "distinct (idx_of h n) \<and> (p \<in> set (idx_of h n) \<longleftrightarrow>
      (\<exists>i w. map_of (hb_waiters h) i = Some p \<and> map_of (hb_heap h) p = Some w \<and> evd_ID (wt_eDef w) = i \<and> signalName (wt_eDef w) = Some n))"
proof -
  have ok: "hub_ok h" using hub_run_ok[OF assms] by (rule conf_ok_hub)
  show ?thesis unfolding hub_okD(3)[OF ok] using hub_okD(1)[OF ok] hub_okD(2)[OF ok] by fastforce
qed

text \<open>A processor has a running waiter of the registry at its service.\<close>

definition serving :: "string \<Rightarrow> string \<Rightarrow> EventHub \<Rightarrow> bool" where
  "serving ep i h \<longleftrightarrow>
     (case map_of (hb_waiters h) i of
        None \<Rightarrow> False
      | Some p \<Rightarrow> (case map_of (hb_heap h) p of None \<Rightarrow> False | Some w \<Rightarrow> wt_state w = WSRunned \<and> ep \<in> set (wt_processors w)))"

definition ends_service :: "hub_label \<Rightarrow> string \<Rightarrow> string \<Rightarrow> EventHub \<Rightarrow> bool" where
  "ends_service l ep i h \<longleftrightarrow>
     l = HUnregister ep i \<or> l = HShutdown \<or> (\<exists>j. l = HRemove j \<and> TrimSpace j = i) \<or>
     (\<exists>p. l = HMove p \<and> map_of (hb_waiters h) i = Some p)"

lemma serving_iff:
  "serving ep i h \<longleftrightarrow> (\<exists>p w. map_of (hb_waiters h) i = Some p \<and> map_of (hb_heap h) p = Some w \<and> wt_state w = WSRunned \<and> ep \<in> set (wt_processors w))"
  by (auto simp: serving_def split: option.split)

lemma serving_put_other: "serving ep i h \<Longrightarrow> map_of (hb_waiters h) i \<noteq> Some q \<Longrightarrow> serving ep i (put_waiter q w h)"
  by (auto simp: serving_iff)

lemma serving_put_same:
  assumes "serving ep i h" and "map_of (hb_heap h) q = Some v" and "wt_state w = wt_state v" and "ep \<in> set (wt_processors v) \<Longrightarrow> ep \<in> set (wt_processors w)"
  shows "serving ep i (put_waiter q w h)"
  using assms by (auto simp: serving_iff)

lemma serving_stop_other: "serving ep i h \<Longrightarrow> map_of (hb_waiters h) i \<noteq> Some q \<Longrightarrow> serving ep i (stop_ptr q h)"
  by (auto simp: stop_ptr_def serving_put_other split: option.split)

lemma serving_drop_other: "serving ep i h \<Longrightarrow> j \<noteq> i \<Longrightarrow> serving ep i (dropWaiterLocked j q h)"
  by (auto simp: serving_iff delete_conv')

lemma serving_install:
  "serving ep i h \<Longrightarrow> map_of ws j = None \<Longrightarrow> ws = hb_waiters h \<Longrightarrow> serving ep i (idx_add d q (h\<lparr>hb_waiters := AList.update j q ws\<rparr>))"
  by (auto simp: serving_iff update_conv')

lemma AddEventProcessor_keeps:
  "wt_state (AddEventProcessor e w) = wt_state w" "ep \<in> set (wt_processors w) \<Longrightarrow> ep \<in> set (wt_processors (AddEventProcessor e w))"
  by (simp_all add: AddEventProcessor_def)

lemma not_ran: "p \<notin> ran m \<Longrightarrow> m i \<noteq> Some p"
  by (auto simp: ran_def)

lemma serving_step:
  assumes st: "hub_step l (h, pend, stops) (h', pend', stops')" and ok: "conf_ok (h, pend, stops)"
    and sv: "serving ep i h" and keep: "\<not> ends_service l ep i h"
  shows "serving ep i h'"
  using st
proof (cases rule: hub_step.cases)
  case (start r) then show ?thesis using sv by (auto simp: Hub_Start_def serving_iff split: if_splits)
next
  case (join ep2 d r)
  then show ?thesis using sv
    by (auto simp: joinExistingWaiter_def split: if_splits option.splits intro!: serving_put_same AddEventProcessor_keeps)
next
  case (build built now hint spec ep2 d sub p)
  obtain w where "h' = put_waiter (new_ptr h) w h" using build by (auto simp: build_start_def split: sum.splits prod.splits)
  then show ?thesis using sv new_ptr_fresh[of h] by (auto simp: serving_iff)
next
  case (publish p ep2 d r)
  have "p \<notin> ran (map_of (hb_waiters h))" using ok publish(4) flight_pend_free by (auto simp: conf_ok_def)
  then have free: "map_of (hb_waiters h) i \<noteq> Some p" by (rule not_ran)
  show ?thesis
  proof (cases "hb_state h = hubStopped \<or> map_of (hb_waiters h) (evd_ID d) = None")
    case True
    then show ?thesis using publish serving_stop_other[OF sv free] serving_install[OF sv]
      by (auto simp: publishWaiter_def split: if_splits)
  next
    case False
    then obtain q where q: "map_of (hb_waiters h) (evd_ID d) = Some q" by auto
    show ?thesis
    proof (cases "map_of (hb_heap h) q")
      case None
      then show ?thesis using publish False q serving_stop_other[OF sv free] by (auto simp: publishWaiter_def)
    next
      case (Some v)
      have "serving ep i (put_waiter q (AddEventProcessor ep2 v) h)"
        by (rule serving_put_same[OF sv Some AddEventProcessor_keeps])
      then show ?thesis using publish False q Some free by (auto simp: publishWaiter_def intro!: serving_stop_other)
    qed
  qed
next
  case (unregister ep2 j r)
  have ne: "j = i \<Longrightarrow> ep2 \<noteq> ep" using keep unregister(1) by (auto simp: ends_service_def)
  show ?thesis
  proof (cases "h' = h")
    case False
    obtain p w w' where w: "map_of (hb_waiters h) j = Some p" "map_of (hb_heap h) p = Some w" "RemoveEventProcessor ep2 w = Inr w'"
      "h' = (if wt_processors w' = [] then dropWaiterLocked j p (put_waiter p w' h) else put_waiter p w' h)"
      using unregister(4) False by (auto simp: unregister_locked_def Let_def split: if_splits option.splits sum.splits)
    have w': "w' = w\<lparr>wt_processors := remove1 ep2 (wt_processors w)\<rparr>" using w(3) by (auto simp: RemoveEventProcessor_def split: if_splits)
    have hb: "hub_ok h" using ok by (rule conf_ok_hub)
    show ?thesis
    proof (cases "j = i")
      case True
      have "serving ep i (put_waiter p w' h)" by (rule serving_put_same[OF sv w(2)]) (use w' ne[OF True] in simp_all)
      moreover have "ep \<in> set (wt_processors w')" using calculation w(1) True by (auto simp: serving_iff)
      ultimately show ?thesis using w(4) by auto
    next
      case False
      have "map_of (hb_waiters h) i \<noteq> Some p" using registered_once[OF hb w(1)] False by blast
      then have "serving ep i (put_waiter p w' h)" by (rule serving_put_other[OF sv])
      then show ?thesis using w(4) serving_drop_other[OF _ False] by simp
    qed
  qed (use sv in simp)
next
  case (stop j p saw r)
  have "p \<notin> ran (map_of (hb_waiters h))" using ok stop(4) flight_stops_free by (auto simp: conf_ok_def)
  then have put: "serving ep i (put_waiter p w h)" for w using serving_put_other[OF sv] not_ran by metis
  then show ?thesis using stop(5) sv
    by (auto simp: unregister_stop_def remapUnstopped_def has_key_None split: option.splits if_splits sum.splits prod.splits
        intro!: serving_install)
next
  case (remove j r)
  then show ?thesis using sv keep
    by (auto simp: RemoveWaiter_def Let_def ends_service_def split: if_splits option.splits intro!: serving_drop_other)
next
  case (fired j r)
  then show ?thesis using sv
    by (auto simp: WaiterFired_def Let_def serving_iff delete_conv' split: if_splits option.splits)
next
  case shutdown then show ?thesis using keep by (simp add: ends_service_def)
next
  case (moves p w st ps)
  then show ?thesis using serving_put_other[OF sv] keep by (auto simp: ends_service_def)
qed


text \<open>A registration that succeeds is listed: its definition has a waiter and the processor is one of that waiter's.\<close>

definition listed :: "string \<Rightarrow> string \<Rightarrow> EventHub \<Rightarrow> bool" where
  "listed ep i h \<longleftrightarrow>
     (case map_of (hb_waiters h) i of
        None \<Rightarrow> False
      | Some p \<Rightarrow> (case map_of (hb_heap h) p of None \<Rightarrow> False | Some w \<Rightarrow> ep \<in> set (wt_processors w)))"

lemma AddEventProcessor_adds: "ep \<in> set (wt_processors (AddEventProcessor ep w))"
  by (simp add: AddEventProcessor_def)

lemma join_listed:
  assumes "joinExistingWaiter ep d h = (h', Inr True)"
  shows "listed ep (evd_ID d) h'"
  using assms by (auto simp: joinExistingWaiter_def listed_def AddEventProcessor_adds split: if_splits option.splits)

text \<open>The publishing half: a waiter of another registration that came first is joined, so nothing is registered twice.\<close>

lemma publish_joins:
  assumes "hub_ok h" and "p \<notin> ran (map_of (hb_waiters h))" and "map_of (hb_waiters h) (evd_ID d) = Some q"
    and "publishWaiter ep d p h = (h', Inr ())"
  shows "listed ep (evd_ID d) h' \<and> map_of (hb_waiters h') (evd_ID d) = Some q"
proof -
  have pq: "p \<noteq> q" using assms(2,3) by (auto simp: ran_def)
  obtain v where v: "map_of (hb_heap h) q = Some v" using hub_okD(1)[OF assms(1,3)] by blast
  have "h' = stop_ptr p (put_waiter q (AddEventProcessor ep v) h)"
    using assms(3,4) v by (auto simp: publishWaiter_def split: if_splits)
  then show ?thesis using assms(3) pq
    by (auto simp: listed_def stop_ptr_def AddEventProcessor_adds split: option.split)
qed

lemma register_listed:
  assumes "registerWaiter ep d built now sub h = (h', Inr ())" and "built = CreateWaiter t hint spec ep d \<or> built = CreatePersistentWaiter ep d"
    and "hub_ok h"
  shows "listed ep (evd_ID d) h'"
proof (cases "snd (joinExistingWaiter ep d h) = Inr True")
  case True
  then have "joinExistingWaiter ep d h = (h', Inr True)" using assms(1)
    by (auto simp: registerWaiter_def split: prod.splits sum.splits bool.splits)
  then show ?thesis by (rule join_listed)
next
  case False
  then have n: "map_of (hb_waiters h) (evd_ID d) = None" and j: "joinExistingWaiter ep d h = (h, Inr False)"
    using assms(1) hub_okD(1)[OF assms(3), of "evd_ID d"]
    by (auto simp: registerWaiter_def joinExistingWaiter_def split: if_splits option.splits)
  obtain w w' where w: "built = Inr w" "Service now sub w = (w', Inr ())"
    and p: "publishWaiter ep d (new_ptr h) (put_waiter (new_ptr h) w' h) = (h', Inr ())"
    using assms(1) j by (auto simp: registerWaiter_def build_start_def split: sum.splits prod.splits)
  have "built_for ep d w'" using assms(2) w CreateWaiter_built CreatePersistentWaiter_built Service_keeps by metis
  then show ?thesis using p n by (auto simp: publishWaiter_def listed_def update_conv' built_for_def split: if_splits)
qed

text \<open>
  The dead waiter of a failed stop comes back: a waiter that fires while its last processor unregisters cannot be
  stopped any more, and is put into the registry again, ended and without processors; the next registration of
  the definition joins it and is told it succeeded.
\<close>

lemma unstopped_dead_waiter_returns:
  assumes "map_of (hb_heap h) p = Some w" and "evd_Type (wt_eDef w) \<in> {TriggerTimer, TriggerMessage}" and "wt_state w = WSEnded"
    and "map_of (hb_waiters h) i = None" and "hb_state h = hubStarted" and "evd_ID d = i"
  shows "let h1 = fst (unregister_stop True i p h) in
           map_of (hb_waiters h1) i = Some p \<and> map_of (hb_heap h1) p = Some w \<and>
           snd (joinExistingWaiter ep d h1) = Inr True \<and> \<not> serving ep i (fst (joinExistingWaiter ep d h1))"
  using assms by (auto simp: unregister_stop_def Stop_defs remapUnstopped_def has_key_None update_conv' joinExistingWaiter_def
      serving_iff AddEventProcessor_def)

section \<open>Witnesses\<close>

definition w_sig :: "string \<Rightarrow> eventDef" where
  "w_sig i = \<lparr>evd_ID = i, evd_Type = TriggerSignal, evd_signal = Some ''go'', evd_message = None\<rparr>"

definition w_spec :: timer_spec where
  "w_spec = \<lparr>ts_Time = None, ts_Cycle = None, ts_Duration = None\<rparr>"

definition w_hub1 :: EventHub where
  "w_hub1 = fst (build_start (CreateWaiter 0 None w_spec ''t1'' (w_sig ''d1'')) 0 True (fst (Hub_Start EventHub_New)))"

definition w_hub2 :: EventHub where
  "w_hub2 = fst (publishWaiter ''t1'' (w_sig ''d1'') 1 w_hub1)"

lemma w_run1: "hub_run (w_hub1, [(1, ''t1'', w_sig ''d1'')], [])"
proof -
  have "hub_run (fst (Hub_Start EventHub_New), [], [])"
    by (rule run_step[OF run_new start[of _ _ "snd (Hub_Start EventHub_New)"]]) simp
  then show ?thesis
    by (rule run_step[OF _ build[of _ 0 None w_spec "''t1''" "w_sig ''d1''" True]]) (rule disjI1[OF refl], code_simp)
qed

lemma w_run2: "hub_run (w_hub2, [], [])"
proof -
  have "hub_step (HPublish ''t1'' (w_sig ''d1'') (Inr ())) (w_hub1, [(1, ''t1'', w_sig ''d1'')], [])
      (w_hub2, remove1 (1, ''t1'', w_sig ''d1'') [(1, ''t1'', w_sig ''d1'')], [])"
    by (rule publish) (simp, code_simp)
  then show ?thesis using run_step[OF w_run1] by simp
qed

theorem hub_index_coherent_witness:
  "hub_run (w_hub2, [], []) \<and> 1 \<in> set (idx_of w_hub2 ''go'') \<and> distinct (idx_of w_hub2 ''go'') \<and>
   map_of (hb_waiters w_hub2) ''d1'' = Some 1"
proof -
  have "map_of (hb_waiters w_hub2) ''d1'' = Some 1" by code_simp
  moreover have "map_option wt_eDef (map_of (hb_heap w_hub2) 1) = Some (w_sig ''d1'')" by code_simp
  moreover have "signalName (w_sig ''d1'') = Some ''go''" "evd_ID (w_sig ''d1'') = ''d1''" by code_simp+
  ultimately show ?thesis using hub_index_coherent[OF w_run2, of "''go''" 1] w_run2 by auto
qed


end
