(* ===== verification/Compensation_Ledger.thy ===== *)
theory Compensation_Ledger
  imports Data_Scope "HOL-Library.Multiset"
begin

text \<open>
  The nodes the loop sees, and the completion ledger
  (\<^verbatim>\<open>src/internal/instance/compensation_ledger.go\<close>): per open scope, the ordered record of the completed
  activities that have a compensation handler. The consumption of its entries by a throw is
  \<^verbatim>\<open>collectCompensation\<close> and \<^verbatim>\<open>extractLedgerEntry\<close> of \<^verbatim>\<open>compensation_watch.go\<close>.

  Node names are left out: they occur in facts and error texts only. A ledger entry is a pointer in the code;
  it is reachable from one ledger, or from one sweep, at a time, so it is a value here.
\<close>

section \<open>Nodes\<close>

text \<open>
  A node as the capability tests of the loop see it. \<open>KSubProcess b\<close> is a sub-process, \<open>b\<close> for an event
  sub-process; its inner nodes are \<open>fn_inner\<close>. \<open>fn_own\<close> is \<^verbatim>\<open>drivesOwnIteration\<close>.
\<close>

datatype trigger = TrCompensation | TrCancel | TrError string | TrEscalation string | TrConditional
  | TrOther string

datatype nodeKind = KSubProcess bool | KCall | KActivity | KGateway | KStart "trigger list" bool | KEvent | KBoundary

record bevent =
  be_triggers :: "trigger list"
  be_cancelActivity :: bool
  be_handler :: "string option"
  be_outgoing :: "string list"

datatype fnode = FNode (fn_ID: string) (fn_kind: nodeKind) (fn_inner: "fnode list") (fn_incoming: nat)
  (fn_outgoing: "string list") (fn_boundaries: "bevent list") (fn_own: bool)

definition is_scopeHost :: "fnode \<Rightarrow> bool" where
  "is_scopeHost n = (case fn_kind n of KSubProcess _ \<Rightarrow> True | _ \<Rightarrow> False)"

definition isEventSubHandler :: "fnode \<Rightarrow> bool" where
  "isEventSubHandler n = (fn_kind n = KSubProcess True)"

definition opensChildScope :: "fnode \<Rightarrow> bool" where
  "opensChildScope n = (case fn_kind n of KSubProcess _ \<Rightarrow> True | KCall \<Rightarrow> True | _ \<Rightarrow> False)"

text \<open>The boundary whose definitions, scanned in order, first show the trigger.\<close>

definition compensationBoundaryHandlerOf :: "fnode \<Rightarrow> string option" where
  "compensationBoundaryHandlerOf n =
     (case find (\<lambda>b. TrCompensation \<in> set (be_triggers b)) (fn_boundaries n) of
        None \<Rightarrow> None
      | Some b \<Rightarrow> be_handler b)"

definition cancelBoundaryOn :: "fnode \<Rightarrow> bevent option" where
  "cancelBoundaryOn n = find (\<lambda>b. TrCancel \<in> set (be_triggers b)) (fn_boundaries n)"

definition errorBoundaryOn :: "fnode \<Rightarrow> string \<Rightarrow> bevent option" where
  "errorBoundaryOn n code = find (\<lambda>b. TrError code \<in> set (be_triggers b)) (fn_boundaries n)"

definition escalationMatches :: "trigger \<Rightarrow> string \<Rightarrow> bool" where
  "escalationMatches d code = (case d of TrEscalation c \<Rightarrow> c = [] \<or> c = code | _ \<Rightarrow> False)"

definition escalationBoundaryOn :: "fnode \<Rightarrow> string \<Rightarrow> bevent option" where
  "escalationBoundaryOn n code = find (\<lambda>b. list_ex (\<lambda>d. escalationMatches d code) (be_triggers b)) (fn_boundaries n)"

text \<open>A handler node is looked up at the top level first, then inside the composites, depth first.\<close>

fun find_node :: "string \<Rightarrow> fnode list \<Rightarrow> fnode option" where
  "find_node i [] = None"
| "find_node i (FNode a k inner c out b w # ns) =
     (if a = i then Some (FNode a k inner c out b w)
      else (case find_node i inner of Some f \<Rightarrow> Some f | None \<Rightarrow> find_node i ns))"

definition compensationNodeByID :: "fnode list \<Rightarrow> string \<Rightarrow> fnode option" where
  "compensationNodeByID nodes i =
     (case find (\<lambda>n. fn_ID n = i) nodes of Some n \<Rightarrow> Some n | None \<Rightarrow> find_node i nodes)"

section \<open>The ledger\<close>

datatype 'd ledgerEntry = LedgerEntry (le_activityID: string) (le_handlerID: string) (le_eventSub: bool)
  (le_snapshot: "'d list") (le_ordinal: nat) (le_folded: "'d ledgerEntry list")

type_synonym 'd ledgers = "(string \<times> 'd ledgerEntry list) list"

definition book_at :: "string \<Rightarrow> 'd ledgers \<Rightarrow> 'd ledgerEntry list" where
  "book_at path ld = (case map_of ld path of None \<Rightarrow> [] | Some b \<Rightarrow> b)"

definition underScope :: "string \<Rightarrow> string \<Rightarrow> bool" where
  "underScope p path \<longleftrightarrow> p = path \<or> length path < length p \<and> take (length path) p = path \<and> p ! length path = slash"

text \<open>The entry without its snapshot and ordinal is completed here: \<open>snap\<close> is the snapshot the code takes or was given.\<close>

definition append_entry :: "string \<Rightarrow> string \<Rightarrow> string \<Rightarrow> bool \<Rightarrow> 'd ledgerEntry list \<Rightarrow> 'd list \<Rightarrow> 'd ledgers \<Rightarrow> 'd ledgers" where
  "append_entry path act h es folded snap ld =
     AList.update path (book_at path ld @ [LedgerEntry act h es snap (length (book_at path ld)) folded]) ld"

definition discard_ledgers :: "string \<Rightarrow> 'd ledgers \<Rightarrow> 'd ledgers" where
  "discard_ledgers path ld = filter (\<lambda>q. \<not> underScope (fst q) path) ld"

fun extractLedgerEntry :: "'d ledgerEntry list \<Rightarrow> string \<Rightarrow> 'd ledgerEntry list \<times> 'd ledgerEntry option" where
  "extractLedgerEntry [] ref = ([], None)"
| "extractLedgerEntry (LedgerEntry a h e s n f # book) ref =
     (if a = ref then (book, Some (LedgerEntry a h e s n f))
      else (case extractLedgerEntry f ref of
              (rest, Some found) \<Rightarrow> (LedgerEntry a h e s n rest # book, Some found)
            | (_, None) \<Rightarrow>
                (case extractLedgerEntry book ref of (rest, r) \<Rightarrow> (LedgerEntry a h e s n f # rest, r))))"

definition collectCompensation :: "string \<Rightarrow> string \<Rightarrow> 'd ledgers \<Rightarrow> 'd ledgers \<times> 'd ledgerEntry list" where
  "collectCompensation path ref ld =
     (if ref = []
      then (AList.delete path ld, filter (\<lambda>le. le_handlerID le \<noteq> []) (rev (book_at path ld)))
      else (case extractLedgerEntry (book_at path ld) ref of
              (rest, found) \<Rightarrow>
                (AList.update path rest ld,
                 (case found of None \<Rightarrow> [] | Some le \<Rightarrow> if le_handlerID le = [] then [] else [le]))))"

section \<open>What a throw consumes\<close>

text \<open>The activities recorded in a forest of entries, parents before their folded children.\<close>

fun recorded :: "'d ledgerEntry list \<Rightarrow> string list" where
  "recorded [] = []"
| "recorded (LedgerEntry a h e s n f # book) = a # recorded f @ recorded book"

lemma recorded_append [simp]: "recorded (xs @ ys) = recorded xs @ recorded ys"
  by (induction xs rule: recorded.induct) auto

lemma extract_none: "extractLedgerEntry book ref = (rest, None) \<Longrightarrow> rest = book \<and> ref \<notin> set (recorded book)"
  by (induction book ref arbitrary: rest rule: extractLedgerEntry.induct)
     (fastforce split: if_splits prod.splits option.splits)+

lemma extract_some:
  assumes "extractLedgerEntry book ref = (rest, Some le)"
  shows "le_activityID le = ref \<and> mset (recorded book) = add_mset ref (mset (recorded (le_folded le))) + mset (recorded rest)"
  using assms
proof (induction book ref arbitrary: rest rule: extractLedgerEntry.induct)
  case (2 a h e s n f book ref)
  show ?case
  proof (cases "a = ref")
    case True
    then show ?thesis using 2 by auto
  next
    case a: False
    obtain r1 o1 where e1: "extractLedgerEntry f ref = (r1, o1)" by fastforce
    obtain r2 o2 where e2: "extractLedgerEntry book ref = (r2, o2)" by fastforce
    show ?thesis
    proof (cases o1)
      case None
      then show ?thesis using 2 a e1 e2 by auto
    next
      case (Some found)
      then show ?thesis using 2 a e1 by auto
    qed
  qed
qed simp

text \<open>
  A targeted throw consumes exactly one recorded completion: the activity it names, with what was folded
  into it, leaves the ledger; every other recorded completion stays, at whatever depth; and a name that was
  never recorded changes nothing.
\<close>

theorem targeted_throw_consumes_one:
  "(case extractLedgerEntry book ref of
      (rest, None) \<Rightarrow> rest = book \<and> ref \<notin> set (recorded book)
    | (rest, Some le) \<Rightarrow> le_activityID le = ref \<and> mset (recorded book) = mset (recorded [le]) + mset (recorded rest))"
proof -
  obtain rest found where x: "extractLedgerEntry book ref = (rest, found)" by fastforce
  show ?thesis
  proof (cases found)
    case None then show ?thesis using extract_none x by auto
  next
    case (Some le)
    then show ?thesis using extract_some[of book ref rest le] x by (cases le) auto
  qed
qed

end
