(* ===== verification/Scope_Runtime.thy ===== *)
theory Scope_Runtime
  imports Compensation_Ledger
begin

text \<open>
  Nested scopes at run time (\<^verbatim>\<open>scope_runtime.go\<close>, \<^verbatim>\<open>scope_handler.go\<close>, \<^verbatim>\<open>compensation_watch.go\<close>,
  \<^verbatim>\<open>transaction.go\<close> and the parts of \<^verbatim>\<open>loop.go\<close> and \<^verbatim>\<open>boundary_watch.go\<close> that call them, all under
  \<^verbatim>\<open>src/internal/instance\<close>): a composite activity opens a data scope and runs its inner tracks in it, the loop
  counts them out, and the drained, terminated, interrupted or cancelled scope decides what its host does next.

  All of it runs on the loop goroutine. Scopes of parallel multi-instances and ad-hoc scopes are left out, as are
  facts other than those of \<open>sfact\<close>. \<open>st_node\<close> is the loop's recorded position of a track.
\<close>

section \<open>State\<close>

record scopeEntry =
  se_ptr :: nat
  se_host :: nat
  se_node :: fnode
  se_parent :: string
  se_queue :: "nat list"
  se_active :: int
  se_aborting :: bool
  se_awaitAttach :: bool
  se_drainPending :: bool

text \<open>
  A track as the scope machinery sees it. \<open>st_live\<close>: its end has not been applied yet, or an open incident holds
  its count. \<open>st_in\<close> is a history variable: the entry, by its pointer, whose counter \<^verbatim>\<open>incScope\<close> incremented for it.
\<close>

record 'd strack =
  st_scopePath :: string
  st_scopeSeg :: string
  st_node :: fnode
  st_live :: bool
  st_in :: "nat option"
  st_stopped :: bool
  st_evtClosed :: bool
  st_compScopeSeed :: "'d list option"
  st_compFrameSeed :: "'d list option"

record 'd compSweep =
  cs_thrower :: "nat option"
  cs_txHost :: "nat option"
  cs_path :: string
  cs_queue :: "'d ledgerEntry list"
  cs_wait :: bool

record scopeHandlerWatch =
  hw_handler :: fnode
  hw_def :: trigger
  hw_path :: string
  hw_interrupting :: bool

datatype sfact = FOpened string | FCompleted string | FCanceled string | FTerminated string | FResumed nat
  | FThrown string | FUnresolved string | FCompensating string nat | FCompensated string nat
  | FEligible string nat | FDiscarded string nat | FFired string

record 'v scope_loop =
  sl_scopes :: "(string \<times> scopeEntry) list"
  sl_ledgers :: "'v sdatum ledgers"
  sl_handlers :: "(string \<times> scopeHandlerWatch list) list"
  sl_interrupted :: "string list"
  sl_sweeps :: "(nat \<times> 'v sdatum compSweep \<times> 'v sdatum ledgerEntry) list"
  sl_tracks :: "(nat \<times> 'v sdatum strack) list"
  sl_waiting :: "nat list"
  sl_plane :: "'v plane"
  sl_active :: int
  sl_stopping :: bool
  sl_lastErr :: "app_error option"
  sl_panicked :: bool
  sl_handlerSeq :: nat
  sl_next :: nat
  sl_log :: "sfact list"

text \<open>
  What the loop gets from elsewhere: the process's top-level nodes, whether a track can be built on a node, the
  cloning and comparison of values, the data objects of a composite and whether the hub accepts a handler's waiter.
\<close>

record 'v scope_env =
  ev_nodes :: "fnode list"
  ev_newTrack :: "fnode \<Rightarrow> app_error option"
  ev_clone :: "'v sdatum \<Rightarrow> 'v sdatum result"
  ev_deq :: "'v \<Rightarrow> 'v \<Rightarrow> bool"
  ev_dataObjects :: "fnode \<Rightarrow> 'v sdatum list"
  ev_register :: "fnode \<Rightarrow> bool"

definition report :: "sfact \<Rightarrow> 'v scope_loop \<Rightarrow> 'v scope_loop" where
  "report f ls = ls\<lparr>sl_log := sl_log ls @ [f]\<rparr>"

definition upd_strack :: "nat \<Rightarrow> ('v sdatum strack \<Rightarrow> 'v sdatum strack) \<Rightarrow> 'v scope_loop \<Rightarrow> 'v scope_loop" where
  "upd_strack i f ls = ls\<lparr>sl_tracks := map (\<lambda>(j, t). (j, if j = i then f t else t)) (sl_tracks ls)\<rparr>"

definition scope_fail :: "app_error \<Rightarrow> 'v scope_loop \<Rightarrow> 'v scope_loop" where
  "scope_fail e ls = ls\<lparr>sl_lastErr := Some e\<rparr>"

definition halt :: "'v scope_loop \<Rightarrow> 'v scope_loop" where
  "halt ls =
     (if sl_stopping ls then ls
      else ls\<lparr>sl_stopping := True, sl_waiting := [], sl_scopes := [], sl_interrupted := [], sl_handlers := [],
              sl_tracks := map (\<lambda>(i, t). (i, t\<lparr>st_stopped := True, st_evtClosed := True\<rparr>)) (sl_tracks ls)\<rparr>)"

definition fail_stop :: "app_error \<Rightarrow> 'v scope_loop \<Rightarrow> 'v scope_loop" where
  "fail_stop e ls = halt (scope_fail e ls)"

text \<open>A delivery to a parked track; a send on a channel that \<^verbatim>\<open>stopAll\<close> closed panics.\<close>

definition flip :: "nat \<Rightarrow> 'v scope_loop \<Rightarrow> 'v scope_loop" where
  "flip i ls = ls\<lparr>sl_waiting := removeAll i (sl_waiting ls)\<rparr>"

definition deliver :: "nat \<Rightarrow> 'v scope_loop \<Rightarrow> 'v scope_loop" where
  "deliver i ls =
     (if i \<notin> set (sl_waiting ls) then ls
      else (case map_of (sl_tracks ls) i of
              None \<Rightarrow> flip i ls
            | Some t \<Rightarrow> if st_evtClosed t then (flip i ls)\<lparr>sl_panicked := True\<rparr> else report (FResumed i) (flip i ls)))"

text \<open>The loop records that a track has entered a node.\<close>

definition move_track :: "nat \<Rightarrow> fnode \<Rightarrow> 'v scope_loop \<Rightarrow> 'v scope_loop" where
  "move_track i n ls = upd_strack i (\<lambda>t. t\<lparr>st_node := n\<rparr>) ls"

definition wait_for :: "nat \<Rightarrow> 'v scope_loop \<Rightarrow> 'v scope_loop" where
  "wait_for i ls = ls\<lparr>sl_waiting := List.insert i (sl_waiting ls)\<rparr>"

section \<open>Entry shapes and handlers\<close>

definition scopeSegment :: "fnode \<Rightarrow> string" where
  "scopeSegment n = ''sp-'' @ fn_ID n"

definition is_start :: "fnode \<Rightarrow> bool" where
  "is_start n = (case fn_kind n of KStart _ _ \<Rightarrow> True | _ \<Rightarrow> False)"

definition is_event :: "fnode \<Rightarrow> bool" where
  "is_event n = (case fn_kind n of KStart _ _ \<Rightarrow> True | KEvent \<Rightarrow> True | KBoundary \<Rightarrow> True | _ \<Rightarrow> False)"

fun scopeSeeds_loop :: "fnode list \<Rightarrow> fnode list \<Rightarrow> fnode list" where
  "scopeSeeds_loop [] flowless = flowless"
| "scopeSeeds_loop (n # ns) flowless =
     (if isEventSubHandler n then scopeSeeds_loop ns flowless
      else if is_start n then [n]
      else if fn_kind n = KBoundary then scopeSeeds_loop ns flowless
      else scopeSeeds_loop ns (if fn_incoming n = 0 \<and> \<not> is_event n then flowless @ [n] else flowless))"

definition scopeSeeds :: "fnode \<Rightarrow> fnode list" where
  "scopeSeeds sh = scopeSeeds_loop (fn_inner sh) []"

definition triggered :: "fnode \<Rightarrow> (trigger \<times> bool) option" where
  "triggered n = (case fn_kind n of KStart [d] intr \<Rightarrow> Some (d, intr) | _ \<Rightarrow> None)"

definition triggeredStartOf :: "fnode \<Rightarrow> (fnode \<times> trigger \<times> bool) option" where
  "triggeredStartOf n =
     (case find (\<lambda>m. triggered m \<noteq> None) (fn_inner n) of
        None \<Rightarrow> None
      | Some m \<Rightarrow> (case triggered m of None \<Rightarrow> None | Some (d, intr) \<Rightarrow> Some (m, d, intr)))"

text \<open>The targets of the fired start: a flow's target is a node of the same composite.\<close>

definition handlerSeeds :: "fnode \<Rightarrow> fnode list" where
  "handlerSeeds sh =
     (case triggeredStartOf sh of
        None \<Rightarrow> []
      | Some (start, _) \<Rightarrow> List.map_filter (\<lambda>i. find (\<lambda>m. fn_ID m = i) (fn_inner sh)) (fn_outgoing start))"

definition seeds_of :: "fnode \<Rightarrow> fnode list" where
  "seeds_of sh = (if isEventSubHandler sh then handlerSeeds sh else scopeSeeds sh)"

fun arm_loop :: "'v scope_env \<Rightarrow> string \<Rightarrow> fnode list \<Rightarrow> scopeHandlerWatch list \<Rightarrow> fnode + scopeHandlerWatch list" where
  "arm_loop env path [] ws = Inr ws"
| "arm_loop env path (n # ns) ws =
     (if \<not> isEventSubHandler n then arm_loop env path ns ws
      else (case triggeredStartOf n of
              None \<Rightarrow> arm_loop env path ns ws
            | Some (_, d, intr) \<Rightarrow>
                (let w = \<lparr>hw_handler = n, hw_def = d, hw_path = path, hw_interrupting = intr\<rparr>;
                     hubless = (case d of TrOther _ \<Rightarrow> False | TrCancel \<Rightarrow> False | _ \<Rightarrow> True)
                 in if hubless \<or> ev_register env n then arm_loop env path ns (ws @ [w]) else Inl n)))"

definition handlers_at :: "string \<Rightarrow> 'v scope_loop \<Rightarrow> scopeHandlerWatch list" where
  "handlers_at path ls = (case map_of (sl_handlers ls) path of None \<Rightarrow> [] | Some ws \<Rightarrow> ws)"

definition armScopeHandlers :: "'v scope_env \<Rightarrow> fnode list \<Rightarrow> string \<Rightarrow> 'v scope_loop \<Rightarrow> 'v scope_loop" where
  "armScopeHandlers env nodes path ls =
     (if sl_stopping ls then ls
      else (case arm_loop env path nodes [] of
              Inl n \<Rightarrow> fail_stop (AppError OperationFailed ''arm event sub-process handler %q failed'') ls
            | Inr ws \<Rightarrow>
                (if ws = [] then ls
                 else ls\<lparr>sl_handlers := AList.update path (handlers_at path ls @ ws) (sl_handlers ls)\<rparr>)))"

definition disarmScopeHandlers :: "string \<Rightarrow> 'v scope_loop \<Rightarrow> 'v scope_loop" where
  "disarmScopeHandlers path ls = ls\<lparr>sl_handlers := AList.delete path (sl_handlers ls)\<rparr>"

definition compensationHandlerAt :: "string \<Rightarrow> 'v scope_loop \<Rightarrow> scopeHandlerWatch option" where
  "compensationHandlerAt path ls = find (\<lambda>w. hw_def w = TrCompensation) (handlers_at path ls)"

definition errorHandlerAt :: "string \<Rightarrow> string \<Rightarrow> 'v scope_loop \<Rightarrow> scopeHandlerWatch option" where
  "errorHandlerAt path code ls = find (\<lambda>w. hw_def w = TrError code) (handlers_at path ls)"

definition escalationHandlerAt :: "string \<Rightarrow> string \<Rightarrow> 'v scope_loop \<Rightarrow> scopeHandlerWatch option" where
  "escalationHandlerAt path code ls = find (\<lambda>w. escalationMatches (hw_def w) code) (handlers_at path ls)"

definition handlerWatchFor :: "string \<Rightarrow> 'v scope_loop \<Rightarrow> scopeHandlerWatch option" where
  "handlerWatchFor i ls = find (\<lambda>w. fn_ID (hw_handler w) = i) (concat (map snd (sl_handlers ls)))"

section \<open>Opening a scope\<close>

definition incScope :: "string \<Rightarrow> 'v scope_loop \<Rightarrow> 'v scope_loop" where
  "incScope path ls =
     (case map_of (sl_scopes ls) path of
        None \<Rightarrow> ls
      | Some e \<Rightarrow> ls\<lparr>sl_scopes := AList.update path (e\<lparr>se_active := se_active e + 1\<rparr>) (sl_scopes ls)\<rparr>)"

definition counter_at :: "string \<Rightarrow> 'v scope_loop \<Rightarrow> nat option" where
  "counter_at path ls = map_option se_ptr (map_of (sl_scopes ls) path)"

text \<open>The registration of a new track on a node: it gets the id \<open>sl_next\<close>.\<close>

definition add_track :: "fnode \<Rightarrow> string \<Rightarrow> string \<Rightarrow> 'v sdatum list option \<Rightarrow> 'v sdatum list option \<Rightarrow> 'v scope_loop \<Rightarrow> 'v scope_loop" where
  "add_track n path seg scopeSeed frameSeed ls =
     (let t = \<lparr>st_scopePath = path, st_scopeSeg = seg, st_node = n, st_live = True, st_in = counter_at path ls,
               st_stopped = sl_stopping ls, st_evtClosed = False, st_compScopeSeed = scopeSeed, st_compFrameSeed = frameSeed\<rparr>
      in incScope path (ls\<lparr>sl_tracks := sl_tracks ls @ [(sl_next ls, t)], sl_next := Suc (sl_next ls),
                            sl_active := sl_active ls + 1\<rparr>))"

definition seed_plane :: "'v scope_env \<Rightarrow> string \<Rightarrow> 'v sdatum list \<Rightarrow> 'v plane \<Rightarrow> 'v plane result" where
  "seed_plane env cpath dd p = (case Scope_Commit (ev_deq env) p cpath (map Some dd) of Inl e \<Rightarrow> Inl e | Inr (p', _) \<Rightarrow> Inr p')"

definition seedDataObjects :: "'v scope_env \<Rightarrow> fnode \<Rightarrow> string \<Rightarrow> 'v plane \<Rightarrow> 'v plane result" where
  "seedDataObjects env n cpath p =
     (if ev_dataObjects env n = [] then Inr p
      else (case seed_plane env cpath (ev_dataObjects env n) p of
              Inl e \<Rightarrow> Inl (AppError OperationFailed ''couldn't seed sub-process data objects into %q'')
            | Inr p' \<Rightarrow> Inr p'))"

text \<open>
  Everything \<^verbatim>\<open>onScopeOpen\<close> does before it seeds the inner tracks. The flag tells whether a fresh scope was
  registered under the path returned, so that seeding goes on.
\<close>

definition open_entry :: "'v scope_env \<Rightarrow> nat \<Rightarrow> fnode \<Rightarrow> 'v scope_loop \<Rightarrow> 'v scope_loop \<times> string option" where
  "open_entry env host n ls =
     (if sl_stopping ls then (ls, None)
      else if \<not> is_scopeHost n then (fail_stop (AppError TypeCastingError ''scope open for a non-composite node %q'') ls, None)
      else (case map_of (sl_tracks ls) host of
              None \<Rightarrow> (ls, None)
            | Some t \<Rightarrow>
                (case Append (st_scopePath t) (if st_scopeSeg t \<noteq> [] then st_scopeSeg t else scopeSegment n) of
                   Inl e \<Rightarrow> (fail_stop e ls, None)
                 | Inr cpath \<Rightarrow>
                     (case map_of (sl_scopes ls) cpath of
                        Some e \<Rightarrow>
                          (if se_host e = host then (wait_for host ls, None)
                           else (ls\<lparr>sl_scopes := AList.update cpath (e\<lparr>se_queue := se_queue e @ [host]\<rparr>) (sl_scopes ls)\<rparr>, None))
                      | None \<Rightarrow>
                          (case OpenScope (sl_plane ls) cpath of
                             Inl e \<Rightarrow> (fail_stop (AppError OperationFailed ''couldn't open scope %q for sub-process %q'') ls, None)
                           | Inr p1 \<Rightarrow>
                               (let ls1 = wait_for host (ls\<lparr>sl_plane := p1\<rparr>)
                                in (case (case st_compScopeSeed t of None \<Rightarrow> Inr p1 | Some dd \<Rightarrow> seed_plane env cpath dd p1) of
                                      Inl e \<Rightarrow> (fail_stop (AppError OperationFailed ''couldn't seed compensation snapshot into %q'') ls1, None)
                                    | Inr p2 \<Rightarrow>
                                        (case seedDataObjects env n cpath p2 of
                                           Inl e \<Rightarrow> (fail_stop e (ls1\<lparr>sl_plane := p2\<rparr>), None)
                                         | Inr p3 \<Rightarrow>
                                             (let entry = \<lparr>se_ptr = sl_next ls, se_host = host, se_node = n, se_parent = st_scopePath t,
                                                           se_queue = [], se_active = 0, se_aborting = False,
                                                           se_awaitAttach = False, se_drainPending = False\<rparr>
                                              in (report (FOpened cpath)
                                                    (ls1\<lparr>sl_plane := p3, sl_next := Suc (sl_next ls),
                                                         sl_scopes := AList.update cpath entry (sl_scopes ls)\<rparr>), Some cpath))))))))))"

text \<open>
  The three mutually recursive operations: a track born on a composite opens its scope from the spawn path, and
  opening a scope spawns its seeds. A composite that drives its own iteration is not parked at birth. A born-parked
  compensation throw starts its sweep as a step of its own (\<open>applyCompensate\<close>).
\<close>

fun height :: "fnode \<Rightarrow> nat" where
  "height (FNode a k inner c out b w) = Suc (foldr (\<lambda>n m. max (height n) m) inner 0)"

definition heights :: "fnode list \<Rightarrow> nat" where
  "heights ns = foldr (\<lambda>n m. max (height n) m) ns 0"

lemma heights_ge: "n \<in> set ns \<Longrightarrow> height n \<le> heights ns"
  unfolding heights_def by (induction ns) auto

lemma heights_simps [simp]: "heights [] = 0" "heights (n # ns) = max (height n) (heights ns)"
  by (simp_all add: heights_def)

lemma height_inner: "height n = Suc (heights (fn_inner n))"
  by (cases n) (simp add: heights_def)

lemma heights_subset: "set ms \<subseteq> set ns \<Longrightarrow> heights ms \<le> heights ns"
  by (induction ms) (auto simp: heights_ge)

lemma scopeSeeds_loop_subset: "set (scopeSeeds_loop ns fl) \<subseteq> set ns \<union> set fl"
proof (induction ns fl rule: scopeSeeds_loop.induct)
  case (2 n ns fl)
  then show ?case
    by (cases "isEventSubHandler n"; cases "is_start n"; cases "fn_kind n = KBoundary"; cases "fn_incoming n = 0 \<and> \<not> is_event n") auto
qed simp

lemma find_set: "find P xs = Some x \<Longrightarrow> x \<in> set xs"
  by (induction xs) (auto split: if_splits)

lemma handlerSeeds_subset: "set (handlerSeeds n) \<subseteq> set (fn_inner n)"
  by (auto simp: handlerSeeds_def map_filter_def dest: find_set split: option.splits)

lemma seeds_of_subset: "set (seeds_of n) \<subseteq> set (fn_inner n)"
  using scopeSeeds_loop_subset[of "fn_inner n" "[]"] handlerSeeds_subset by (auto simp: seeds_of_def scopeSeeds_def)

lemma heights_seeds: "heights (seeds_of n) < height n"
  using heights_subset[OF seeds_of_subset[of n]] by (simp add: height_inner)

function spawn :: "'v scope_env \<Rightarrow> fnode \<Rightarrow> string \<Rightarrow> string \<Rightarrow> 'v sdatum list option \<Rightarrow> 'v sdatum list option \<Rightarrow> 'v scope_loop \<Rightarrow> 'v scope_loop"
  and onScopeOpen :: "'v scope_env \<Rightarrow> nat \<Rightarrow> fnode \<Rightarrow> 'v scope_loop \<Rightarrow> 'v scope_loop"
  and seedScope :: "'v scope_env \<Rightarrow> string \<Rightarrow> fnode list \<Rightarrow> 'v scope_loop \<Rightarrow> 'v scope_loop" where
  "spawn env n path seg scopeSeed frameSeed ls =
     (let ls1 = add_track n path seg scopeSeed frameSeed ls
      in if is_scopeHost n \<and> \<not> fn_own n then onScopeOpen env (sl_next ls) n (wait_for (sl_next ls) ls1) else ls1)"
| "onScopeOpen env host n ls =
     (case open_entry env host n ls of
        (ls1, None) \<Rightarrow> ls1
      | (ls1, Some cpath) \<Rightarrow> armScopeHandlers env (fn_inner n) cpath (seedScope env cpath (seeds_of n) ls1))"
| "seedScope env cpath [] ls = ls"
| "seedScope env cpath (n # ns) ls =
     (case ev_newTrack env n of
        Some e \<Rightarrow> fail_stop (AppError BulidingFailed ''couldn't seed sub-process scope %q'') ls
      | None \<Rightarrow> seedScope env cpath ns (spawn env n cpath [] None None ls))"
  by pat_completeness auto
termination
  by (relation "measures
        [\<lambda>x. case x of Inl (_, n, _) \<Rightarrow> height n | Inr (Inl (_, _, n, _)) \<Rightarrow> height n | Inr (Inr (_, _, ns, _)) \<Rightarrow> heights ns,
         \<lambda>x. case x of Inl _ \<Rightarrow> 1 | Inr (Inl _) \<Rightarrow> 0 | Inr (Inr (_, _, ns, _)) \<Rightarrow> 2 + length ns]")
     (auto simp: heights_seeds max_def)

declare spawn.simps [simp del] onScopeOpen.simps [simp del]

section \<open>The ledger's hooks\<close>

text \<open>\<open>snap\<close> is the snapshot a leaf's completion brings; a composite's is taken here.\<close>

definition appendLedgerEntry :: "'v scope_env \<Rightarrow> string \<Rightarrow> string \<Rightarrow> string \<Rightarrow> bool \<Rightarrow> 'v sdatum ledgerEntry list \<Rightarrow>
    'v sdatum list option \<Rightarrow> 'v scope_loop \<Rightarrow> 'v scope_loop" where
  "appendLedgerEntry env path act h es folded snap ls =
     (case (case snap of Some s \<Rightarrow> Some (Inr s) | None \<Rightarrow> SnapshotAt (ev_clone env) (sl_plane ls) path) of
        Some (Inr s) \<Rightarrow>
          report (FEligible act (length (book_at path (sl_ledgers ls))))
            (ls\<lparr>sl_ledgers := append_entry path act h es folded s (sl_ledgers ls)\<rparr>)
      | _ \<Rightarrow> fail_stop (AppError OperationFailed ''couldn't snapshot %q for the compensation ledger at %q'') ls)"

definition recordLeafCompletion :: "'v scope_env \<Rightarrow> string \<Rightarrow> fnode \<Rightarrow> 'v sdatum list option \<Rightarrow> 'v scope_loop \<Rightarrow> 'v scope_loop" where
  "recordLeafCompletion env path departed snap ls =
     (if opensChildScope departed then ls
      else (case compensationBoundaryHandlerOf departed of
              None \<Rightarrow> ls
            | Some h \<Rightarrow> appendLedgerEntry env path (fn_ID departed) h False [] snap ls))"

definition recordScopeCompletion :: "'v scope_env \<Rightarrow> string \<Rightarrow> scopeEntry \<Rightarrow> 'v scope_loop \<Rightarrow> 'v scope_loop" where
  "recordScopeCompletion env path e ls =
     (if fn_own (se_node e) then ls
      else (let cpath = book_at path (sl_ledgers ls);
                ls1 = ls\<lparr>sl_ledgers := AList.delete path (sl_ledgers ls)\<rparr>;
                act = fn_ID (se_node e)
            in (case compensationHandlerAt path ls of
                  Some w \<Rightarrow> appendLedgerEntry env (se_parent e) act (fn_ID (hw_handler w)) True cpath None ls1
                | None \<Rightarrow>
                    (case compensationBoundaryHandlerOf (se_node e) of
                       Some h \<Rightarrow> appendLedgerEntry env (se_parent e) act h False cpath None ls1
                     | None \<Rightarrow>
                         (if cpath = [] then ls1 else appendLedgerEntry env (se_parent e) act [] False cpath None ls1)))))"

definition discardLedgers :: "string \<Rightarrow> 'v scope_loop \<Rightarrow> 'v scope_loop" where
  "discardLedgers path ls =
     ls\<lparr>sl_ledgers := discard_ledgers path (sl_ledgers ls),
        sl_log := sl_log ls @ concat (map (\<lambda>(p, b). if underScope p path then map (\<lambda>le. FDiscarded (le_activityID le) (le_ordinal le)) b else [])
                                       (sl_ledgers ls))\<rparr>"

section \<open>Closing a scope\<close>

definition stop_tracks :: "(nat \<Rightarrow> 'v sdatum strack \<Rightarrow> bool) \<Rightarrow> 'v scope_loop \<Rightarrow> 'v scope_loop" where
  "stop_tracks sel ls =
     ls\<lparr>sl_tracks := map (\<lambda>(i, t). (i, if sel i t then t\<lparr>st_stopped := True\<rparr> else t)) (sl_tracks ls),
        sl_waiting := filter (\<lambda>i. \<not> (case map_of (sl_tracks ls) i of None \<Rightarrow> False | Some t \<Rightarrow> sel i t)) (sl_waiting ls)\<rparr>"

text \<open>The entries that go, deepest first; a close error is only logged.\<close>

definition drop_entry :: "sfact \<Rightarrow> string \<Rightarrow> 'v scope_loop \<Rightarrow> 'v scope_loop" where
  "drop_entry phase p ls =
     (let ls1 = disarmScopeHandlers p (ls\<lparr>sl_scopes := AList.delete p (sl_scopes ls)\<rparr>)
      in report phase (case CloseScope (sl_plane ls1) p of Inl _ \<Rightarrow> ls1 | Inr pl \<Rightarrow> ls1\<lparr>sl_plane := pl\<rparr>))"

definition deepest_first :: "string list \<Rightarrow> string list" where
  "deepest_first ps = rev (sort_key length ps)"

definition drop_entries :: "(string \<Rightarrow> sfact) \<Rightarrow> (string \<Rightarrow> bool) \<Rightarrow> 'v scope_loop \<Rightarrow> 'v scope_loop" where
  "drop_entries phase sel ls =
     fold (\<lambda>p. drop_entry (phase p) p) (deepest_first (filter sel (map fst (sl_scopes ls)))) ls"

definition cancelScope :: "(string \<Rightarrow> sfact) \<Rightarrow> string \<Rightarrow> 'v scope_loop \<Rightarrow> 'v scope_loop" where
  "cancelScope phase path ls =
     (if \<not> has_key path (sl_scopes ls) then ls
      else drop_entries phase (\<lambda>p. underScope p path)
             (stop_tracks (\<lambda>i t. underScope (st_scopePath t) path) (discardLedgers path ls)))"

definition interruptScopeSiblings :: "string \<Rightarrow> nat \<Rightarrow> string \<Rightarrow> 'v scope_loop \<Rightarrow> 'v scope_loop" where
  "interruptScopeSiblings path keepID keepPrefix ls =
     drop_entries FCanceled (\<lambda>p. length path < length p \<and> underScope p path \<and> \<not> underScope p keepPrefix)
       (stop_tracks (\<lambda>i t. i \<noteq> keepID \<and> \<not> underScope (st_scopePath t) keepPrefix \<and> underScope (st_scopePath t) path) ls)"

text \<open>The host's resume and the reopening for the next queued host; the queue is carried into the fresh entry.\<close>

definition resumeScopeHost :: "'v scope_env \<Rightarrow> string \<Rightarrow> scopeEntry \<Rightarrow> 'v scope_loop \<Rightarrow> 'v scope_loop" where
  "resumeScopeHost env path e ls =
     (let ls1 = deliver (se_host e) ls
      in if fn_own (se_node e) then ls1
         else (case se_queue e of
                 [] \<Rightarrow> ls1
               | next # rest \<Rightarrow>
                   (let ls2 = onScopeOpen env next (se_node e) ls1
                    in if rest = [] then ls2
                       else (case map_of (sl_scopes ls2) path of
                               None \<Rightarrow> ls2
                             | Some fresh \<Rightarrow> ls2\<lparr>sl_scopes := AList.update path (fresh\<lparr>se_queue := rest\<rparr>) (sl_scopes ls2)\<rparr>))))"

definition completeScope :: "'v scope_env \<Rightarrow> string \<Rightarrow> scopeEntry \<Rightarrow> 'v scope_loop \<Rightarrow> 'v scope_loop" where
  "completeScope env path e ls =
     (let ls1 = recordScopeCompletion env path e ls
      in (case CloseScope (sl_plane ls1) path of
            Inl _ \<Rightarrow> fail_stop (AppError OperationFailed ''couldn't close drained scope %q'') ls1
          | Inr pl \<Rightarrow>
              resumeScopeHost env path e
                (report (FCompleted path)
                  (disarmScopeHandlers path (ls1\<lparr>sl_plane := pl, sl_scopes := AList.delete path (sl_scopes ls1)\<rparr>)))))"

definition decScope :: "'v scope_env \<Rightarrow> string \<Rightarrow> 'v scope_loop \<Rightarrow> 'v scope_loop" where
  "decScope env path ls =
     (case map_of (sl_scopes ls) path of
        None \<Rightarrow> ls
      | Some e \<Rightarrow>
          (let e' = e\<lparr>se_active := se_active e - 1\<rparr>;
               ls1 = ls\<lparr>sl_scopes := AList.update path e' (sl_scopes ls)\<rparr>
           in if se_active e' > 0 \<or> se_aborting e' then ls1
              else if se_awaitAttach e'
              then ls\<lparr>sl_scopes := AList.update path (e'\<lparr>se_drainPending := True\<rparr>) (sl_scopes ls)\<rparr>
              else completeScope env path e' ls1))"

definition terminateScope :: "'v scope_env \<Rightarrow> string \<Rightarrow> 'v scope_loop \<Rightarrow> 'v scope_loop" where
  "terminateScope env path ls =
     (case map_of (sl_scopes ls) path of
        None \<Rightarrow> ls
      | Some e \<Rightarrow> resumeScopeHost env path e (cancelScope FTerminated path ls))"

section \<open>Forks and sweeps\<close>

fun spawnForks :: "'v scope_env \<Rightarrow> string \<Rightarrow> fnode list \<Rightarrow> 'v scope_loop \<Rightarrow> 'v scope_loop" where
  "spawnForks env path [] ls = ls"
| "spawnForks env path (n # ns) ls =
     (case ev_newTrack env n of
        Some e \<Rightarrow> fail_stop e ls
      | None \<Rightarrow> spawnForks env path ns (spawn env n path [] None None ls))"

definition targets :: "'v scope_env \<Rightarrow> bevent \<Rightarrow> fnode list" where
  "targets env b = List.map_filter (compensationNodeByID (ev_nodes env)) (be_outgoing b)"

definition scope_path :: "nat \<Rightarrow> 'v scope_loop \<Rightarrow> string" where
  "scope_path i ls = (case map_of (sl_tracks ls) i of None \<Rightarrow> [] | Some t \<Rightarrow> st_scopePath t)"

text \<open>The host's context is cancelled and its wait dropped.\<close>

definition cancel_host :: "nat \<Rightarrow> 'v scope_loop \<Rightarrow> 'v scope_loop" where
  "cancel_host i ls = flip i (upd_strack i (\<lambda>t. t\<lparr>st_stopped := True\<rparr>) ls)"

definition finalizeTransaction :: "'v scope_env \<Rightarrow> string \<Rightarrow> 'v scope_loop \<Rightarrow> 'v scope_loop" where
  "finalizeTransaction env path ls =
     (case map_of (sl_scopes ls) path of
        None \<Rightarrow> ls
      | Some e \<Rightarrow>
          (let ls1 = cancelScope FCanceled path ls;
               ls2 = (case cancelBoundaryOn (se_node e) of
                        None \<Rightarrow> ls1
                      | Some b \<Rightarrow> spawnForks env (scope_path (se_host e) ls1) (targets env b) ls1)
           in cancel_host (se_host e) ls2))"

definition finishSweep :: "'v scope_env \<Rightarrow> 'v sdatum compSweep \<Rightarrow> 'v scope_loop \<Rightarrow> 'v scope_loop" where
  "finishSweep env sw ls =
     (case cs_txHost sw of
        Some _ \<Rightarrow> if sl_stopping ls then ls else finalizeTransaction env (cs_path sw) ls
      | None \<Rightarrow>
          (case cs_thrower sw of
             None \<Rightarrow> ls
           | Some t \<Rightarrow> if sl_stopping ls \<or> \<not> cs_wait sw then ls else deliver t ls))"

definition runNextCompensation :: "'v scope_env \<Rightarrow> 'v sdatum compSweep \<Rightarrow> 'v scope_loop \<Rightarrow> 'v scope_loop" where
  "runNextCompensation env sw ls =
     (if sl_stopping ls then finishSweep env sw ls
      else (case cs_queue sw of
              [] \<Rightarrow> finishSweep env sw ls
            | le # rest \<Rightarrow>
                (case compensationNodeByID (ev_nodes env) (le_handlerID le) of
                   None \<Rightarrow> fail_stop (AppError ObjectNotFound ''compensation handler %q of %q isn't in the instance graph'') ls
                 | Some n \<Rightarrow>
                     (let ls1 = report (FCompensating (le_activityID le) (le_ordinal le)) ls
                      in (case ev_newTrack env n of
                            Some e \<Rightarrow> fail_stop (AppError BulidingFailed ''couldn't start compensation handler %q'') ls1
                          | None \<Rightarrow>
                              spawn env n (cs_path sw) []
                                (if le_eventSub le then Some (le_snapshot le) else None)
                                (if le_eventSub le then None else Some (le_snapshot le))
                                (ls1\<lparr>sl_sweeps := AList.update (sl_next ls1) (sw\<lparr>cs_queue := rest\<rparr>, le) (sl_sweeps ls1)\<rparr>))))))"

definition applyCompensate :: "'v scope_env \<Rightarrow> nat \<Rightarrow> string \<Rightarrow> bool \<Rightarrow> 'v scope_loop \<Rightarrow> 'v scope_loop" where
  "applyCompensate env i ref wait ls =
     (let path = scope_path i ls;
          ls1 = report (FThrown path) (if wait then wait_for i ls else ls);
          (ld, queue) = collectCompensation path ref (sl_ledgers ls1);
          ls2 = ls1\<lparr>sl_ledgers := ld\<rparr>;
          sw = \<lparr>cs_thrower = (if wait then Some i else None), cs_txHost = None, cs_path = path, cs_queue = queue, cs_wait = wait\<rparr>
      in if queue = [] then finishSweep env sw (report (FUnresolved path) ls2)
         else runNextCompensation env sw ls2)"

definition compensationTrackEnded :: "'v scope_env \<Rightarrow> nat \<Rightarrow> bool \<Rightarrow> 'v scope_loop \<Rightarrow> 'v scope_loop" where
  "compensationTrackEnded env i failed ls =
     (case map_of (sl_sweeps ls) i of
        None \<Rightarrow> ls
      | Some (sw, le) \<Rightarrow>
          (let ls1 = ls\<lparr>sl_sweeps := AList.delete i (sl_sweeps ls)\<rparr>
           in if failed then finishSweep env sw ls1
              else runNextCompensation env sw (report (FCompensated (le_activityID le) (le_ordinal le)) ls1)))"

definition cancelTransaction :: "'v scope_env \<Rightarrow> nat \<Rightarrow> 'v scope_loop \<Rightarrow> 'v scope_loop" where
  "cancelTransaction env i ls =
     (let path = scope_path i ls
      in (case map_of (sl_scopes ls) path of
            None \<Rightarrow> ls
          | Some e \<Rightarrow>
              (let ls1 = report (FThrown path) (ls\<lparr>sl_scopes := AList.update path (e\<lparr>se_aborting := True\<rparr>) (sl_scopes ls)\<rparr>);
                   (ld, queue) = collectCompensation path [] (sl_ledgers ls1);
                   ls2 = ls1\<lparr>sl_ledgers := ld\<rparr>;
                   sw = \<lparr>cs_thrower = None, cs_txHost = Some (se_host e), cs_path = path, cs_queue = queue, cs_wait = False\<rparr>
               in if queue = [] then finishSweep env sw ls2 else runNextCompensation env sw ls2)))"

section \<open>Event sub-processes\<close>

text \<open>The data an event carries is committed at the enclosing scope; an event without items commits nothing.\<close>

definition bindEventPayloadAt :: "'v scope_env \<Rightarrow> string \<Rightarrow> 'v sdatum list \<Rightarrow> 'v scope_loop \<Rightarrow> 'v scope_loop result" where
  "bindEventPayloadAt env path items ls =
     (if items = [] then Inr ls
      else (case seed_plane env path items (sl_plane ls) of Inl e \<Rightarrow> Inl e | Inr p \<Rightarrow> Inr (ls\<lparr>sl_plane := p\<rparr>)))"

fun show_nat :: "nat \<Rightarrow> string" where
  "show_nat n = (if n < 10 then [char_of (48 + n)] else show_nat (n div 10) @ [char_of (48 + n mod 10)])"

declare show_nat.simps [simp del]

definition runNonInterruptingHandler :: "'v scope_env \<Rightarrow> scopeHandlerWatch \<Rightarrow> 'v sdatum list \<Rightarrow> 'v scope_loop \<Rightarrow> 'v scope_loop" where
  "runNonInterruptingHandler env w payload ls =
     (case ev_newTrack env (hw_handler w) of
        Some e \<Rightarrow> fail_stop (AppError BulidingFailed ''couldn't start event sub-process %q'') ls
      | None \<Rightarrow>
          (case bindEventPayloadAt env (hw_path w) payload ls of
             Inl e \<Rightarrow> fail_stop e ls
           | Inr ls1 \<Rightarrow>
               (let k = Suc (sl_handlerSeq ls1)
                in spawn env (hw_handler w) (hw_path w) (scopeSegment (hw_handler w) @ ''-'' @ show_nat k) None None
                     (ls1\<lparr>sl_handlerSeq := k\<rparr>))))"

definition runScopeHandler :: "'v scope_env \<Rightarrow> scopeHandlerWatch \<Rightarrow> 'v sdatum list \<Rightarrow> 'v scope_loop \<Rightarrow> 'v scope_loop" where
  "runScopeHandler env w payload ls =
     (let path = hw_path w; ls0 = ls\<lparr>sl_interrupted := List.insert path (sl_interrupted ls)\<rparr>
      in (case Append path (scopeSegment (hw_handler w)) of
            Inl e \<Rightarrow> fail_stop e ls0
          | Inr keep \<Rightarrow>
              (case bindEventPayloadAt env path payload ls0 of
                 Inl e \<Rightarrow> fail_stop e ls0
               | Inr ls1 \<Rightarrow>
                   (case ev_newTrack env (hw_handler w) of
                      Some e \<Rightarrow> fail_stop (AppError BulidingFailed ''couldn't start event sub-process %q'') ls1
                    | None \<Rightarrow>
                        disarmScopeHandlers path
                          (interruptScopeSiblings path (sl_next ls1) keep
                            (spawn env (hw_handler w) path [] None None ls1))))))"

definition fireScopeHandler :: "'v scope_env \<Rightarrow> string \<Rightarrow> 'v sdatum list \<Rightarrow> 'v scope_loop \<Rightarrow> 'v scope_loop" where
  "fireScopeHandler env nodeID payload ls =
     (if sl_stopping ls then ls
      else (case handlerWatchFor nodeID ls of
              None \<Rightarrow> ls
            | Some w \<Rightarrow>
                (if \<not> hw_interrupting w then runNonInterruptingHandler env w payload (report (FFired nodeID) ls)
                 else if hw_path w \<in> set (sl_interrupted ls) then ls
                 else runScopeHandler env w payload (report (FFired nodeID) ls))))"

section \<open>Boundaries on a composite and the error chain\<close>

definition hostChildScope :: "nat \<Rightarrow> 'v scope_loop \<Rightarrow> string option" where
  "hostChildScope i ls =
     (case map_of (sl_tracks ls) i of
        None \<Rightarrow> None
      | Some t \<Rightarrow>
          (if \<not> is_scopeHost (st_node t) then None
           else (case Append (st_scopePath t) (scopeSegment (st_node t)) of Inl _ \<Rightarrow> None | Inr c \<Rightarrow> Some c)))"

definition cancelHostScope :: "nat \<Rightarrow> 'v scope_loop \<Rightarrow> 'v scope_loop" where
  "cancelHostScope i ls = (case hostChildScope i ls of None \<Rightarrow> ls | Some c \<Rightarrow> cancelScope FCanceled c ls)"

text \<open>A boundary that is still armed fires; \<open>b\<close> is the boundary on the host's node.\<close>

definition fireBoundary :: "'v scope_env \<Rightarrow> nat \<Rightarrow> bevent \<Rightarrow> 'v scope_loop \<Rightarrow> 'v scope_loop" where
  "fireBoundary env i b ls =
     (let cpath = hostChildScope i ls;
          spent = (case cpath of None \<Rightarrow> False | Some c \<Rightarrow> c \<in> set (sl_interrupted ls))
      in if be_cancelActivity b \<and> spent then ls
         else (let ls1 = spawnForks env (scope_path i ls) (targets env b) ls
               in if \<not> be_cancelActivity b then ls1
                  else (let ls2 = (case cpath of None \<Rightarrow> ls1 | Some c \<Rightarrow> ls1\<lparr>sl_interrupted := List.insert c (sl_interrupted ls1)\<rparr>)
                        in upd_strack i (\<lambda>t. t\<lparr>st_stopped := True\<rparr>) (cancelHostScope i ls2))))"

definition catch_boundary :: "'v scope_env \<Rightarrow> string \<Rightarrow> scopeEntry \<Rightarrow> bevent \<Rightarrow> 'v scope_loop \<Rightarrow> 'v scope_loop" where
  "catch_boundary env path e b ls =
     (let ls1 = cancelScope FCanceled path ls
      in cancel_host (se_host e) (spawnForks env (scope_path (se_host e) ls1) (targets env b) ls1))"

text \<open>The walk over the enclosing scopes of a failed track. The fuel bounds the number of scopes passed.\<close>

fun error_chain :: "nat \<Rightarrow> 'v scope_env \<Rightarrow> string \<Rightarrow> string \<Rightarrow> 'v scope_loop \<Rightarrow> (bool \<times> 'v scope_loop) option" where
  "error_chain 0 env code path ls = None"
| "error_chain (Suc n) env code path ls =
     (case map_of (sl_scopes ls) path of
        None \<Rightarrow> Some (False, ls)
      | Some e \<Rightarrow>
          (case (errorHandlerAt path code ls, path \<in> set (sl_interrupted ls)) of
             (Some w, False) \<Rightarrow> Some (True, runScopeHandler env w [] (report (FFired (fn_ID (hw_handler w))) ls))
           | _ \<Rightarrow>
               (case errorBoundaryOn (se_node e) code of
                  Some b \<Rightarrow> Some (True, catch_boundary env path e b ls)
                | None \<Rightarrow> error_chain n env code (se_parent e) ls)))"

definition matchErrorScopeChain :: "'v scope_env \<Rightarrow> nat \<Rightarrow> string \<Rightarrow> 'v scope_loop \<Rightarrow> (bool \<times> 'v scope_loop) option" where
  "matchErrorScopeChain env i code ls = error_chain (Suc (length (sl_scopes ls))) env code (scope_path i ls) ls"

definition catchEscalationHandler :: "'v scope_env \<Rightarrow> string \<Rightarrow> string \<Rightarrow> 'v scope_loop \<Rightarrow> bool \<times> 'v scope_loop" where
  "catchEscalationHandler env path code ls =
     (case escalationHandlerAt path code ls of
        None \<Rightarrow> (False, ls)
      | Some w \<Rightarrow>
          (if hw_interrupting w \<and> path \<in> set (sl_interrupted ls) then (False, ls)
           else (True, (if hw_interrupting w then runScopeHandler else runNonInterruptingHandler) env w []
                   (report (FFired (fn_ID (hw_handler w))) ls))))"

definition catchEscalationBoundary :: "'v scope_env \<Rightarrow> string \<Rightarrow> scopeEntry \<Rightarrow> bevent \<Rightarrow> 'v scope_loop \<Rightarrow> 'v scope_loop" where
  "catchEscalationBoundary env path e b ls =
     (if \<not> be_cancelActivity b then spawnForks env (scope_path (se_host e) ls) (targets env b) ls
      else catch_boundary env path e b ls)"

fun escalation_chain :: "nat \<Rightarrow> 'v scope_env \<Rightarrow> string \<Rightarrow> string \<Rightarrow> 'v scope_loop \<Rightarrow> (bool \<times> 'v scope_loop) option" where
  "escalation_chain 0 env code path ls = None"
| "escalation_chain (Suc n) env code path ls =
     (case map_of (sl_scopes ls) path of
        None \<Rightarrow> Some (False, ls)
      | Some e \<Rightarrow>
          (case catchEscalationHandler env path code ls of
             (True, ls1) \<Rightarrow> Some (True, ls1)
           | (False, _) \<Rightarrow>
               (case escalationBoundaryOn (se_node e) code of
                  Some b \<Rightarrow> Some (True, catchEscalationBoundary env path e b ls)
                | None \<Rightarrow> escalation_chain n env code (se_parent e) ls)))"

section \<open>The end of a track\<close>

definition applyEnded :: "'v scope_env \<Rightarrow> nat \<Rightarrow> 'v scope_loop \<Rightarrow> 'v scope_loop" where
  "applyEnded env i ls =
     (let ls1 = compensationTrackEnded env i False ls;
          ls2 = upd_strack i (\<lambda>t. t\<lparr>st_live := False\<rparr>) (ls1\<lparr>sl_active := sl_active ls1 - 1\<rparr>)
      in flip i (decScope env (scope_path i ls1) ls2))"

text \<open>A track that waits at a synchronizing join is counted out of its scope.\<close>

definition applyAwaiting :: "'v scope_env \<Rightarrow> nat \<Rightarrow> 'v scope_loop \<Rightarrow> 'v scope_loop" where
  "applyAwaiting env i ls =
     decScope env (scope_path i ls) (upd_strack i (\<lambda>t. t\<lparr>st_live := False\<rparr>) (ls\<lparr>sl_active := sl_active ls - 1\<rparr>))"

text \<open>
  A looped composite's runner asks for the scope of its next pass. The reply is an error or the path. There is no
  test of \<open>sl_stopping\<close> in the code.
\<close>

definition handleScopeOpen :: "'v scope_env \<Rightarrow> nat \<Rightarrow> fnode \<Rightarrow> 'v scope_loop \<Rightarrow> 'v scope_loop \<times> string result" where
  "handleScopeOpen env host n ls =
     (if \<not> is_scopeHost n then (ls, Inl (AppError TypeCastingError ''scope open requested for a non-composite node %q''))
      else (case Append (scope_path host ls) (scopeSegment n) of
              Inl e \<Rightarrow> (ls, Inl e)
            | Inr cpath \<Rightarrow>
                (case map_of (sl_scopes ls) cpath of
                   Some e \<Rightarrow>
                     (if se_host e = host
                      then (let ls1 = wait_for host ls;
                                e' = e\<lparr>se_awaitAttach := False, se_drainPending := False\<rparr>;
                                ls2 = ls1\<lparr>sl_scopes := AList.update cpath e' (sl_scopes ls1)\<rparr>
                            in (if se_drainPending e then completeScope env cpath e' ls2 else ls2, Inr cpath))
                      else (ls, Inl (AppError OperationFailed ''couldn't open scope %q for composite %q'')))
                 | None \<Rightarrow>
                     (case OpenScope (sl_plane ls) cpath of
                        Inl e \<Rightarrow> (ls, Inl (AppError OperationFailed ''couldn't open scope %q for composite %q''))
                      | Inr p \<Rightarrow>
                          (let entry = \<lparr>se_ptr = sl_next ls, se_host = host, se_node = n, se_parent = scope_path host ls,
                                        se_queue = [], se_active = 0, se_aborting = False,
                                        se_awaitAttach = False, se_drainPending = False\<rparr>;
                               ls1 = report (FOpened cpath) (wait_for host (ls\<lparr>sl_plane := p, sl_next := Suc (sl_next ls),
                                       sl_scopes := AList.update cpath entry (sl_scopes ls)\<rparr>))
                           in (armScopeHandlers env (fn_inner n) cpath (seedScope env cpath (seeds_of n) ls1), Inr cpath))))))"

text \<open>A failure that the chain of enclosing scopes catches: the catch comes first, then the failed track is counted out.\<close>

definition applyFailed_caught :: "'v scope_env \<Rightarrow> nat \<Rightarrow> 'v scope_loop \<Rightarrow> 'v scope_loop" where
  "applyFailed_caught env i ls1 =
     flip i (decScope env (scope_path i ls1)
       (upd_strack i (\<lambda>t. t\<lparr>st_live := False\<rparr>) (ls1\<lparr>sl_active := sl_active ls1 - 1\<rparr>)))"

definition scope_start :: "'v plane \<Rightarrow> 'v scope_loop" where
  "scope_start pl =
     \<lparr>sl_scopes = [], sl_ledgers = [], sl_handlers = [], sl_interrupted = [], sl_sweeps = [], sl_tracks = [], sl_waiting = [],
      sl_plane = pl, sl_active = 0, sl_stopping = False, sl_lastErr = None, sl_panicked = False, sl_handlerSeq = 0, sl_next = 0,
      sl_log = []\<rparr>"

end
