(* ===== verification/Scope_Accounting.thy ===== *)
theory Scope_Accounting
  imports Scope_Runtime
begin

text \<open>
  The accounting of nested scopes: an open scope's counter is the number of live tracks counted into it, its host and
  its queued hosts are live tracks of its parent scope, and the scopes of the data plane are the root and the
  registered ones. From this, a drained scope can always be closed.
\<close>

section \<open>What the accounting depends on\<close>

definition views :: "'v scope_loop \<Rightarrow> (nat \<times> string \<times> bool \<times> nat option) list" where
  "views ls = map (\<lambda>(i, t). (i, st_scopePath t, st_live t, st_in t)) (sl_tracks ls)"

definition counted :: "nat \<Rightarrow> (nat \<times> string \<times> bool \<times> nat option) list \<Rightarrow> nat" where
  "counted p vs = length (filter (\<lambda>(i, pa, l, c). l \<and> c = Some p) vs)"

text \<open>A host, or a queued one, of an entry whose parent scope is \<open>parent\<close>.\<close>

definition stands :: "string \<Rightarrow> (string \<rightharpoonup> scopeEntry) \<Rightarrow> (nat \<times> string \<times> bool \<times> nat option) list \<Rightarrow> string \<Rightarrow> nat \<Rightarrow> bool" where
  "stands root sc vs parent h \<longleftrightarrow>
     (\<exists>ci. map_of vs h = Some (parent, True, ci) \<and>
        (parent = root \<or> (\<exists>e. sc parent = Some e \<and> ci = Some (se_ptr e))))"

definition good :: "(string \<rightharpoonup> scopeEntry) \<Rightarrow> (nat \<times> string \<times> bool \<times> nat option) list \<Rightarrow> 'v plane \<Rightarrow> nat \<Rightarrow> bool" where
  "good sc vs pl nx \<longleftrightarrow>
     distinct (map fst vs) \<and> (\<forall>i v. map_of vs i = Some v \<longrightarrow> i < nx) \<and>
     (\<forall>i pa l p. map_of vs i = Some (pa, l, Some p) \<longrightarrow> p < nx) \<and>
     (\<forall>c e. sc c = Some e \<longrightarrow> se_ptr e < nx) \<and>
     (\<forall>c e. sc c = Some e \<longrightarrow> se_active e = int (counted (se_ptr e) vs)) \<and>
     (\<forall>c e c' e'. sc c = Some e \<longrightarrow> sc c' = Some e' \<longrightarrow> se_ptr e = se_ptr e' \<longrightarrow> c = c') \<and>
     (\<forall>c e h. sc c = Some e \<longrightarrow> h = se_host e \<or> h \<in> set (se_queue e) \<longrightarrow> stands (pl_root pl) sc vs (se_parent e) h) \<and>
     (\<forall>c e. sc c = Some e \<longrightarrow> (\<exists>seg. c = se_parent e @ slash # seg \<and> slash \<notin> set seg)) \<and>
     sc (pl_root pl) = None \<and> (\<forall>x. opened pl x \<longleftrightarrow> x = pl_root pl \<or> sc x \<noteq> None) \<and>
     (\<forall>x. opened pl x \<longrightarrow> checkContained pl x = Inr ()) \<and> pl_root pl \<noteq> [slash] \<and>
     (\<forall>i pa l p c e. map_of vs i = Some (pa, l, Some p) \<longrightarrow> sc c = Some e \<longrightarrow> se_ptr e = p \<longrightarrow> pa = c)"

text \<open>Node ids, and with them the segments of scope paths, have no slash.\<close>

fun wfn :: "fnode \<Rightarrow> bool" where
  "wfn (FNode a k inner c out b w) \<longleftrightarrow> slash \<notin> set a \<and> list_all wfn inner"

definition watches :: "(string \<times> scopeHandlerWatch list) list \<Rightarrow> scopeHandlerWatch set" where
  "watches hs = set (concat (map snd hs))"

lemma watches_update: "watches (AList.update p ws hs) \<subseteq> watches hs \<union> set ws"
  by (induction hs) (auto simp: watches_def)

lemma watches_delete: "watches (AList.delete p hs) \<subseteq> watches hs"
  by (auto simp: watches_def AList.delete_eq)

lemma watches_at: "set (handlers_at p ls) \<subseteq> watches (sl_handlers ls)"
  by (cases "map_of (sl_handlers ls) p") (auto simp: handlers_at_def watches_def dest: map_of_SomeD)

definition wf_loop :: "'v scope_loop \<Rightarrow> bool" where
  "wf_loop ls \<longleftrightarrow>
     distinct (map fst (sl_scopes ls)) \<and>
     (\<forall>c e. map_of (sl_scopes ls) c = Some e \<longrightarrow> wfn (se_node e)) \<and>
     (\<forall>i t. map_of (sl_tracks ls) i = Some t \<longrightarrow> slash \<notin> set (st_scopeSeg t) \<and> wfn (st_node t)) \<and>
     (\<forall>w \<in> watches (sl_handlers ls). wfn (hw_handler w))"

definition scope_inv :: "'v scope_loop \<Rightarrow> bool" where
  "scope_inv ls \<longleftrightarrow> sl_stopping ls \<or> wf_loop ls \<and> good (map_of (sl_scopes ls)) (views ls) (sl_plane ls) (sl_next ls)"

section \<open>Paths\<close>

lemma same_split: "a @ slash # s = b @ slash # t \<Longrightarrow> slash \<notin> set s \<Longrightarrow> slash \<notin> set t \<Longrightarrow> a = b \<and> s = t"
  by (induction a arbitrary: b) (auto simp: append_eq_Cons_conv Cons_eq_append_conv)

lemma underScope_prefix: "underScope p path \<longleftrightarrow> p = path \<or> prefix (path @ [slash]) p"
proof -
  have "length path < length p \<and> take (length path) p = path \<and> p ! length path = slash \<longleftrightarrow> prefix (path @ [slash]) p"
  proof
    assume h: "length path < length p \<and> take (length path) p = path \<and> p ! length path = slash"
    then have "p = path @ p ! length path # drop (Suc (length path)) p" using id_take_nth_drop[of "length path" p] by simp
    then show "prefix (path @ [slash]) p" using h by (metis append.assoc append_Cons append_Nil prefixI)
  next
    assume "prefix (path @ [slash]) p"
    then obtain z where "p = (path @ [slash]) @ z" by (auto elim: prefixE)
    then show "length path < length p \<and> take (length path) p = path \<and> p ! length path = slash" by simp
  qed
  then show ?thesis by (auto simp: underScope_def)
qed

text \<open>A path below \<open>p\<close> whose last segment is cut off is \<open>p\<close> or still below \<open>p\<close>.\<close>

lemma below_parent:
  assumes "prefix (p @ [slash]) (q @ slash # seg)" and "slash \<notin> set seg"
  shows "q = p \<or> prefix (p @ [slash]) q"
proof -
  obtain z where z: "q @ slash # seg = p @ slash # z" using assms(1) by (auto elim: prefixE)
  from z have "(\<exists>us. q = p @ us \<and> us @ slash # seg = slash # z) \<or> (\<exists>us. p = q @ us \<and> slash # seg = us @ slash # z)"
    by (auto simp: append_eq_append_conv2)
  then show ?thesis
  proof
    assume "\<exists>us. q = p @ us \<and> us @ slash # seg = slash # z"
    then show ?thesis by (auto simp: append_eq_Cons_conv)
  next
    assume "\<exists>us. p = q @ us \<and> slash # seg = us @ slash # z"
    then show ?thesis using assms(2) by (auto simp: Cons_eq_append_conv)
  qed
qed

lemma TrimSpace_noslash: "slash \<notin> set s \<Longrightarrow> slash \<notin> set (TrimSpace s)"
  using TrimSpace_subset by blast

lemma Append_shape: "Append p seg = Inr c \<Longrightarrow> p \<noteq> [slash] \<Longrightarrow> c = p @ slash # TrimSpace seg"
  by (auto simp: Append_def Let_def split: if_splits sum.splits dest!: NewDataPathD)

lemma scopeSegment_noslash: "wfn n \<Longrightarrow> slash \<notin> set (scopeSegment n)"
proof -
  assume "wfn n"
  then have "slash \<notin> set (fn_ID n)" by (cases n) simp
  moreover have "slash \<notin> set ''sp-''" by code_simp
  ultimately show ?thesis by (simp add: scopeSegment_def)
qed

section \<open>The accounting, piece by piece\<close>

lemmas good_conj = iffD1[OF good_def]

lemmas goodD =
  good_conj[THEN conjunct1, rule_format]
  good_conj[THEN conjunct2, THEN conjunct1, rule_format]
  good_conj[THEN conjunct2, THEN conjunct2, THEN conjunct1, rule_format]
  good_conj[THEN conjunct2, THEN conjunct2, THEN conjunct2, THEN conjunct1, rule_format]
  good_conj[THEN conjunct2, THEN conjunct2, THEN conjunct2, THEN conjunct2, THEN conjunct1, rule_format]
  good_conj[THEN conjunct2, THEN conjunct2, THEN conjunct2, THEN conjunct2, THEN conjunct2, THEN conjunct1, rule_format]
  good_conj[THEN conjunct2, THEN conjunct2, THEN conjunct2, THEN conjunct2, THEN conjunct2, THEN conjunct2, THEN conjunct1, rule_format]
  good_conj[THEN conjunct2, THEN conjunct2, THEN conjunct2, THEN conjunct2, THEN conjunct2, THEN conjunct2, THEN conjunct2, THEN conjunct1, rule_format]
  good_conj[THEN conjunct2, THEN conjunct2, THEN conjunct2, THEN conjunct2, THEN conjunct2, THEN conjunct2, THEN conjunct2, THEN conjunct2, THEN conjunct1, rule_format]
  good_conj[THEN conjunct2, THEN conjunct2, THEN conjunct2, THEN conjunct2, THEN conjunct2, THEN conjunct2, THEN conjunct2, THEN conjunct2, THEN conjunct2, THEN conjunct1, rule_format]
  good_conj[THEN conjunct2, THEN conjunct2, THEN conjunct2, THEN conjunct2, THEN conjunct2, THEN conjunct2, THEN conjunct2, THEN conjunct2, THEN conjunct2, THEN conjunct2, THEN conjunct1, rule_format]
  good_conj[THEN conjunct2, THEN conjunct2, THEN conjunct2, THEN conjunct2, THEN conjunct2, THEN conjunct2, THEN conjunct2, THEN conjunct2, THEN conjunct2, THEN conjunct2, THEN conjunct2, THEN conjunct1, rule_format]
  good_conj[THEN conjunct2, THEN conjunct2, THEN conjunct2, THEN conjunct2, THEN conjunct2, THEN conjunct2, THEN conjunct2, THEN conjunct2, THEN conjunct2, THEN conjunct2, THEN conjunct2, THEN conjunct2, rule_format]

lemma goodI:
  assumes "distinct (map fst vs)" and "\<And>i v. map_of vs i = Some v \<Longrightarrow> i < nx"
    and "\<And>i pa l p. map_of vs i = Some (pa, l, Some p) \<Longrightarrow> p < nx"
    and "\<And>c e. sc c = Some e \<Longrightarrow> se_ptr e < nx"
    and "\<And>c e. sc c = Some e \<Longrightarrow> se_active e = int (counted (se_ptr e) vs)"
    and "\<And>c e c' e'. sc c = Some e \<Longrightarrow> sc c' = Some e' \<Longrightarrow> se_ptr e = se_ptr e' \<Longrightarrow> c = c'"
    and "\<And>c e h. sc c = Some e \<Longrightarrow> h = se_host e \<or> h \<in> set (se_queue e) \<Longrightarrow> stands (pl_root pl) sc vs (se_parent e) h"
    and "\<And>c e. sc c = Some e \<Longrightarrow> \<exists>seg. c = se_parent e @ slash # seg \<and> slash \<notin> set seg"
    and "sc (pl_root pl) = None" and "\<And>x. opened pl x \<longleftrightarrow> x = pl_root pl \<or> sc x \<noteq> None"
    and "\<And>x. opened pl x \<Longrightarrow> checkContained pl x = Inr ()" and "pl_root pl \<noteq> [slash]"
    and "\<And>i pa l p c e. map_of vs i = Some (pa, l, Some p) \<Longrightarrow> sc c = Some e \<Longrightarrow> se_ptr e = p \<Longrightarrow> pa = c"
  shows "good sc vs pl nx"
  unfolding good_def
  apply (intro conjI allI impI)
  subgoal by (rule assms(1))
  subgoal by (erule assms(2))
  subgoal by (erule assms(3))
  subgoal by (erule assms(4))
  subgoal by (erule assms(5))
  subgoal by (rule assms(6))
  subgoal by (rule assms(7))
  subgoal by (erule assms(8))
  subgoal by (rule assms(9))
  subgoal by (rule assms(10))
  subgoal by (erule assms(11))
  subgoal by (rule assms(12))
  subgoal by (rule assms(13))
  done

lemma counted_pos: "map_of vs h = Some (pa, True, Some p) \<Longrightarrow> 0 < counted p vs"
  using map_of_SomeD[of vs h "(pa, True, Some p)"] by (force simp: counted_def filter_empty_conv)

lemma contained_below_root:
  assumes "good sc vs pl nx" and "sc c = Some e"
  shows "prefix (pl_root pl @ [slash]) c"
proof -
  have "opened pl c" "c \<noteq> pl_root pl" using goodD(9,10)[OF assms(1)] assms(2) by auto
  then show ?thesis using goodD(11)[OF assms(1), of c] goodD(12)[OF assms(1)]
    by (auto simp: checkContained_def split: sum.splits if_splits)
qed

text \<open>A scope with an open scope below it has a live track counted into it.\<close>

lemma open_child_counted:
  assumes g: "good sc vs pl nx" and c: "sc c = Some e"
  shows "sc x = Some ex \<Longrightarrow> prefix (c @ [slash]) x \<Longrightarrow> 0 < counted (se_ptr e) vs"
proof (induction "length x" arbitrary: x ex rule: less_induct)
  case less
  obtain seg where seg: "x = se_parent ex @ slash # seg" "slash \<notin> set seg" using goodD(8)[OF g less.prems(1)] by blast
  have up: "se_parent ex = c \<or> prefix (c @ [slash]) (se_parent ex)" using below_parent less.prems(2) seg by metis
  have st: "stands (pl_root pl) sc vs (se_parent ex) (se_host ex)" using goodD(7)[OF g less.prems(1)] by blast
  have below: "prefix (pl_root pl @ [slash]) c" by (rule contained_below_root[OF g c])
  have "se_parent ex \<noteq> pl_root pl"
  proof
    assume r: "se_parent ex = pl_root pl"
    have "length c \<le> length (pl_root pl)" using up r by (auto dest: prefix_length_le)
    then show False using prefix_length_le[OF below] by simp
  qed
  then obtain ci e' where st': "map_of vs (se_host ex) = Some (se_parent ex, True, Some (se_ptr e'))" "sc (se_parent ex) = Some e'"
    using st by (auto simp: stands_def)
  show ?case
  proof (cases "se_parent ex = c")
    case True
    then show ?thesis using st' c counted_pos by fastforce
  next
    case False
    then show ?thesis using less.hyps[of "se_parent ex" e'] up st'(2) seg(1) by simp
  qed
qed

lemma drained_closes:
  assumes g: "good sc vs pl nx" and c: "sc c = Some e" and z: "counted (se_ptr e) vs = 0"
  shows "\<exists>pl'. CloseScope pl c = Inr pl'"
proof -
  have o: "opened pl c" "c \<noteq> pl_root pl" using goodD(9,10)[OF g] c by auto
  have "\<not> prefix (c @ [slash]) x" if opx: "opened pl x" for x
  proof
    assume pre: "prefix (c @ [slash]) x"
    show False
    proof (cases "x = pl_root pl")
      case True
      then show False using contained_below_root[OF g c] pre by (auto dest!: prefix_length_le)
    next
      case False
      then obtain ex where "sc x = Some ex" using goodD(10)[OF g, of x] opx by auto
      then show False using open_child_counted[OF g c _ pre] z by simp
    qed
  qed
  then show ?thesis using o goodD(11)[OF g o(1)] by (auto simp: CloseScope_def opened_def has_key_def list_ex_iff)
qed

text \<open>A new live track, counted where its path is registered.\<close>

lemma counted_snoc: "counted p (vs @ [(i, pa, l, c)]) = counted p vs + (if l \<and> c = Some p then 1 else 0)"
  by (simp add: counted_def)

lemma stands_snoc: "stands root sc vs pa h \<Longrightarrow> stands root sc (vs @ [(i, v)]) pa h"
  by (auto simp: stands_def map_add_def split: option.split)

lemma stands_bump:
  assumes "stands root sc vs pa h" and "sc path = Some e"
  shows "stands root (sc(path \<mapsto> e\<lparr>se_active := k\<rparr>)) vs pa h"
  using assms by (auto simp: stands_def)

lemma good_add:
  assumes g: "good sc vs pl nx"
  shows "good (case sc path of None \<Rightarrow> sc | Some e \<Rightarrow> sc(path \<mapsto> e\<lparr>se_active := se_active e + 1\<rparr>))
           (vs @ [(nx, path, True, map_option se_ptr (sc path))]) pl (Suc nx)"
proof -
  have new: "map_of vs nx = None" using goodD(2)[OF g, of nx] by (cases "map_of vs nx") auto
  let ?vs = "vs @ [(nx, path, True, map_option se_ptr (sc path))]"
  have keys: "distinct (map fst ?vs)" using goodD(1)[OF g] new by (auto simp: map_of_eq_None_iff)
  have lk: "map_of ?vs i = (if i = nx then Some (path, True, map_option se_ptr (sc path)) else map_of vs i)" for i
    using new by (auto simp: map_add_def split: option.split)
  show ?thesis
  proof (cases "sc path")
    case None
    have cn: "se_active e = int (counted (se_ptr e) ?vs)" if "sc c = Some e" for c e using goodD(5)[OF g that] None by (simp add: counted_snoc)
    have "good sc ?vs pl (Suc nx)"
    proof (rule goodI[OF keys])
      show "i < Suc nx" if "map_of ?vs i = Some v" for i v
        using that goodD(2)[OF g, of i v] lk[of i] by (auto split: if_splits)
      show "p < Suc nx" if "map_of ?vs i = Some (pa, l, Some p)" for i pa l p
        using that goodD(3)[OF g] lk None by (auto split: if_splits intro: less_SucI)
      show "pa = c" if "map_of ?vs i = Some (pa, l, Some p)" "sc c = Some x" "se_ptr x = p" for i pa l p c x
        using that goodD(13)[OF g] lk None by (auto split: if_splits)
      show "se_ptr x < Suc nx" if "sc c = Some x" for c x using goodD(4)[OF g that] by simp
      show "stands (pl_root pl) sc ?vs (se_parent x) h" if "sc c = Some x" "h = se_host x \<or> h \<in> set (se_queue x)" for c x h
        by (rule stands_snoc[OF goodD(7)[OF g that]])
    qed (fact cn goodD(6)[OF g] goodD(8-12)[OF g])+
    then show ?thesis using None by simp
  next
    case (Some e)
    have "good (sc(path \<mapsto> e\<lparr>se_active := se_active e + 1\<rparr>)) ?vs pl (Suc nx)"
    proof (rule goodI)
      show "se_active x = int (counted (se_ptr x) ?vs)" if "(sc(path \<mapsto> e\<lparr>se_active := se_active e + 1\<rparr>)) c = Some x" for c x
      proof (cases "c = path")
        case True then show ?thesis using that goodD(5)[OF g Some] Some by (auto simp: counted_snoc)
      next
        case False
        then have cx: "sc c = Some x" using that by simp
        have "se_ptr x \<noteq> se_ptr e" using goodD(6)[OF g cx Some] False by blast
        then show ?thesis using goodD(5)[OF g cx] Some by (simp add: counted_snoc)
      qed
      show "stands (pl_root pl) (sc(path \<mapsto> e\<lparr>se_active := se_active e + 1\<rparr>)) ?vs (se_parent x) h"
        if "(sc(path \<mapsto> e\<lparr>se_active := se_active e + 1\<rparr>)) c = Some x" "h = se_host x \<or> h \<in> set (se_queue x)" for c x h
        using that goodD(7)[OF g] Some by (auto intro!: stands_snoc stands_bump split: if_splits)
      show "i < Suc nx" if "map_of ?vs i = Some v" for i v
        using that goodD(2)[OF g, of i v] lk[of i] by (auto split: if_splits)
      show "p < Suc nx" if "map_of ?vs i = Some (pa, l, Some p)" for i pa l p
        using that goodD(3)[OF g] goodD(4)[OF g Some] lk Some by (auto split: if_splits intro: less_SucI)
      show "se_ptr x < Suc nx" if "(sc(path \<mapsto> e\<lparr>se_active := se_active e + 1\<rparr>)) c = Some x" for c x
        using that goodD(4)[OF g] Some by (auto split: if_splits intro: less_SucI)
      show "c = c'" if "(sc(path \<mapsto> e\<lparr>se_active := se_active e + 1\<rparr>)) c = Some x"
        "(sc(path \<mapsto> e\<lparr>se_active := se_active e + 1\<rparr>)) c' = Some x'" "se_ptr x = se_ptr x'" for c x c' x'
        using that goodD(6)[OF g] Some by (auto split: if_splits)
      show "\<exists>seg. c = se_parent x @ slash # seg \<and> slash \<notin> set seg"
        if "(sc(path \<mapsto> e\<lparr>se_active := se_active e + 1\<rparr>)) c = Some x" for c x
        using that goodD(8)[OF g] Some by (auto split: if_splits)
      show "pa = c" if h: "map_of ?vs i = Some (pa, l, Some p)" "(sc(path \<mapsto> e\<lparr>se_active := se_active e + 1\<rparr>)) c = Some x" "se_ptr x = p"
        for i pa l p c x
      proof -
        obtain y where y: "sc c = Some y" "se_ptr y = p" using h(2,3) Some by (auto split: if_splits)
        show ?thesis
        proof (cases "i = nx")
          case True
          then show ?thesis using h(1) lk[of i] Some y goodD(6)[OF g Some y(1)] by auto
        next
          case False
          then have "map_of vs i = Some (pa, l, Some p)" using h(1) lk[of i] by simp
          then show ?thesis using goodD(13)[OF g _ y] by blast
        qed
      qed
    qed (use keys goodD(9-12)[OF g] Some in \<open>auto\<close>)
    then show ?thesis using Some by simp
  qed
qed

lemma good_entry:
  assumes g: "good sc vs pl nx" and c: "sc c = Some e"
    and e': "se_ptr e' = se_ptr e" "se_host e' = se_host e" "se_parent e' = se_parent e" "se_active e' = se_active e"
    and q: "\<And>h. h \<in> set (se_queue e') \<Longrightarrow> stands (pl_root pl) sc vs (se_parent e) h"
  shows "good (sc(c \<mapsto> e')) vs pl nx"
proof -
  have st: "stands (pl_root pl) (sc(c \<mapsto> e')) vs pa h" if "stands (pl_root pl) sc vs pa h" for pa h
    using that c e'(1) by (auto simp: stands_def)
  show ?thesis
  proof (rule goodI)
    show "stands (pl_root pl) (sc(c \<mapsto> e')) vs (se_parent x) h"
      if "(sc(c \<mapsto> e')) y = Some x" "h = se_host x \<or> h \<in> set (se_queue x)" for y x h
      using that st goodD(7)[OF g, of y x h] goodD(7)[OF g c, of h] e' q[of h] by (auto split: if_splits)
    have lk: "\<exists>z. sc y = Some z \<and> se_ptr z = se_ptr x" if "(sc(c \<mapsto> e')) y = Some x" for y x
      using that c e'(1) by (auto split: if_splits)
    show "y = y'" if "(sc(c \<mapsto> e')) y = Some x" "(sc(c \<mapsto> e')) y' = Some x'" "se_ptr x = se_ptr x'" for y x y' x'
      using lk[OF that(1)] lk[OF that(2)] that(3) goodD(6)[OF g, of y _ y'] by auto
    show "pa = y" if "map_of vs i = Some (pa, l, Some p)" "(sc(c \<mapsto> e')) y = Some x" "se_ptr x = p" for i pa l p y x
      using that goodD(13)[OF g that(1)] c e'(1) by (auto split: if_splits)
    show "se_ptr x < nx" if "(sc(c \<mapsto> e')) y = Some x" for y x
      using that goodD(4)[OF g, of y x] goodD(4)[OF g c] e'(1) by (auto split: if_splits)
    show "se_active x = int (counted (se_ptr x) vs)" if "(sc(c \<mapsto> e')) y = Some x" for y x
      using that goodD(5)[OF g, of y x] goodD(5)[OF g c] e'(1,4) by (auto split: if_splits)
    show "\<exists>seg. y = se_parent x @ slash # seg \<and> slash \<notin> set seg" if "(sc(c \<mapsto> e')) y = Some x" for y x
      using that goodD(8)[OF g, of y x] goodD(8)[OF g c] e'(3) by (auto split: if_splits)
    show "(sc(c \<mapsto> e')) (pl_root pl) = None" using goodD(9)[OF g] c by auto
    show "opened pl x \<longleftrightarrow> x = pl_root pl \<or> (sc(c \<mapsto> e')) x \<noteq> None" for x using goodD(10)[OF g, of x] c by auto
  qed (fact goodD(1-3)[OF g] goodD(11,12)[OF g])+
qed

lemma good_open:
  assumes g: "good sc vs pl nx" and new: "sc c = None" and st: "stands (pl_root pl) sc vs parent host"
    and c: "c = parent @ slash # seg" "slash \<notin> set seg"
    and pl': "\<And>x. opened pl' x \<longleftrightarrow> opened pl x \<or> x = c" "pl_root pl' = pl_root pl" "\<And>x. checkContained pl' x = checkContained pl x"
    and ct: "checkContained pl c = Inr ()" and cr: "c \<noteq> pl_root pl"
    and e: "se_ptr e = nx" "se_host e = host" "se_parent e = parent" "se_queue e = []" "se_active e = 0"
  shows "good (sc(c \<mapsto> e)) vs pl' (Suc nx)"
proof -
  have none: "counted nx vs = 0"
  proof -
    have "\<not> (l \<and> k = Some nx)" if "(i, pa, l, k) \<in> set vs" for i pa l k
      using goodD(3)[OF g, of i pa l nx] map_of_is_SomeI[OF goodD(1)[OF g] that] by auto
    then show ?thesis by (auto simp: counted_def filter_empty_conv)
  qed
  have st': "stands (pl_root pl') (sc(c \<mapsto> e)) vs pa h" if "stands (pl_root pl) sc vs pa h" for pa h
    using that new pl'(2) by (auto simp: stands_def)
  show ?thesis
  proof (rule goodI)
    show "stands (pl_root pl') (sc(c \<mapsto> e)) vs (se_parent x) h"
      if "(sc(c \<mapsto> e)) y = Some x" "h = se_host x \<or> h \<in> set (se_queue x)" for y x h
      using that st' st goodD(7)[OF g] e by (auto split: if_splits)
    show "y = y'" if "(sc(c \<mapsto> e)) y = Some x" "(sc(c \<mapsto> e)) y' = Some x'" "se_ptr x = se_ptr x'" for y x y' x'
      using that goodD(6)[OF g, of y x y' x'] goodD(4)[OF g, of y x] goodD(4)[OF g, of y' x'] e(1) by (auto split: if_splits)
    show "pa = y" if "map_of vs i = Some (pa, l, Some p)" "(sc(c \<mapsto> e)) y = Some x" "se_ptr x = p" for i pa l p y x
      using that goodD(13)[OF g that(1)] goodD(3)[OF g that(1)] e(1) by (auto split: if_splits)
    show "opened pl' x \<longleftrightarrow> x = pl_root pl' \<or> (sc(c \<mapsto> e)) x \<noteq> None" for x
      using pl'(1,2) goodD(10)[OF g] by auto
    show "checkContained pl' x = Inr ()" if "opened pl' x" for x using that pl' ct goodD(11)[OF g] by auto
    show "(sc(c \<mapsto> e)) (pl_root pl') = None" using goodD(9)[OF g] pl'(2) cr by simp
    show "i < Suc nx" if "map_of vs i = Some v" for i v using goodD(2)[OF g that] by simp
    show "p < Suc nx" if "map_of vs i = Some (pa, l, Some p)" for i pa l p using goodD(3)[OF g that] by simp
    show "se_ptr x < Suc nx" if "(sc(c \<mapsto> e)) y = Some x" for y x using that goodD(4)[OF g, of y x] e(1) by (auto split: if_splits)
    show "se_active x = int (counted (se_ptr x) vs)" if "(sc(c \<mapsto> e)) y = Some x" for y x
      using that goodD(5)[OF g, of y x] none e(1,5) by (auto split: if_splits)
    show "\<exists>s. y = se_parent x @ slash # s \<and> slash \<notin> set s" if "(sc(c \<mapsto> e)) y = Some x" for y x
      using that goodD(8)[OF g, of y x] c e(3) by (auto split: if_splits)
    show "pl_root pl' \<noteq> [slash]" using goodD(12)[OF g] pl'(2) by simp
  qed (fact goodD(1)[OF g])+
qed

text \<open>Dropping a set of scopes that is closed downwards.\<close>

lemma good_drop:
  assumes g: "good sc vs pl nx" and cl: "\<And>c e. sc c = Some e \<Longrightarrow> se_parent e \<in> D \<Longrightarrow> c \<in> D" and r: "pl_root pl \<notin> D"
    and pl': "\<And>x. opened pl' x \<longleftrightarrow> opened pl x \<and> x \<notin> D" "pl_root pl' = pl_root pl" "\<And>x. checkContained pl' x = checkContained pl x"
  shows "good (sc |` (- D)) vs pl' nx"
proof -
  have st: "stands (pl_root pl') (sc |` (- D)) vs pa h" if "stands (pl_root pl) sc vs pa h" "pa \<notin> D" for pa h
    using that pl'(2) by (auto simp: stands_def)
  show ?thesis
  proof (rule goodI)
    show "stands (pl_root pl') (sc |` (- D)) vs (se_parent x) h"
      if "(sc |` (- D)) y = Some x" "h = se_host x \<or> h \<in> set (se_queue x)" for y x h
    proof -
      have y: "y \<notin> D" "sc y = Some x" using that(1) by (auto simp: restrict_map_def split: if_splits)
      show ?thesis using st[OF goodD(7)[OF g y(2) that(2)]] cl[OF y(2)] y(1) by blast
    qed
    show "opened pl' x \<longleftrightarrow> x = pl_root pl' \<or> (sc |` (- D)) x \<noteq> None" for x
      using pl'(1,2) goodD(10)[OF g] r by (auto simp: restrict_map_def)
    show "pa = y" if "map_of vs i = Some (pa, l, Some p)" "(sc |` (- D)) y = Some x" "se_ptr x = p" for i pa l p y x
      using that goodD(13)[OF g that(1)] by (auto simp: restrict_map_def split: if_splits)
    have sub: "sc y = Some x" if "(sc |` (- D)) y = Some x" for y x using that by (auto simp: restrict_map_def split: if_splits)
    show "se_ptr x < nx" if "(sc |` (- D)) y = Some x" for y x by (rule goodD(4)[OF g sub[OF that]])
    show "se_active x = int (counted (se_ptr x) vs)" if "(sc |` (- D)) y = Some x" for y x by (rule goodD(5)[OF g sub[OF that]])
    show "y = y'" if "(sc |` (- D)) y = Some x" "(sc |` (- D)) y' = Some x'" "se_ptr x = se_ptr x'" for y x y' x'
      by (rule goodD(6)[OF g sub[OF that(1)] sub[OF that(2)] that(3)])
    show "\<exists>seg. y = se_parent x @ slash # seg \<and> slash \<notin> set seg" if "(sc |` (- D)) y = Some x" for y x by (rule goodD(8)[OF g sub[OF that]])
    show "(sc |` (- D)) (pl_root pl') = None" using goodD(9)[OF g] pl'(2) by (simp add: restrict_map_def)
    show "checkContained pl' x = Inr ()" if "opened pl' x" for x using that pl' goodD(11)[OF g, of x] by simp
    show "pl_root pl' \<noteq> [slash]" using goodD(12)[OF g] pl'(2) by simp
  qed (fact goodD(1-3)[OF g])+
qed

text \<open>A track that is counted out. It is no host, and its own entry is the one that counted it.\<close>

definition end_view :: "nat \<Rightarrow> (nat \<times> string \<times> bool \<times> nat option) list \<Rightarrow> (nat \<times> string \<times> bool \<times> nat option) list" where
  "end_view i vs = map (\<lambda>(j, pa, l, c). (j, pa, if j = i then False else l, c)) vs"

lemma end_view_keys: "map fst (end_view i vs) = map fst vs"
  by (simp add: end_view_def comp_def case_prod_beta)

lemma map_of_end_view:
  "map_of (end_view i vs) j = (case map_of vs j of None \<Rightarrow> None | Some (pa, l, c) \<Rightarrow> Some (pa, if j = i then False else l, c))"
  unfolding end_view_def by (induction vs) auto

lemma counted_simps: "counted p [] = 0" "counted p ((j, pa, l, c) # vs) = (if l \<and> c = Some p then 1 else 0) + counted p vs"
  by (simp_all add: counted_def)

lemma end_view_simps: "end_view i [] = []" "end_view i ((j, pa, l, c) # vs) = (j, pa, if j = i then False else l, c) # end_view i vs"
  by (simp_all add: end_view_def)

lemma counted_end:
  assumes "distinct (map fst vs)" and "map_of vs i = Some (pa, True, ci)"
  shows "int (counted p (end_view i vs)) = int (counted p vs) - (if ci = Some p then 1 else 0)"
  using assms
proof (induction vs)
  case (Cons v vs)
  obtain j pb l c where v: "v = (j, pb, l, c)" by (cases v)
  show ?case
  proof (cases "j = i")
    case True
    then have "i \<notin> fst ` set vs" using Cons.prems(1) v by simp
    then have "end_view i vs = vs" unfolding end_view_def by (intro map_idI) force
    then show ?thesis using Cons.prems v True by (auto simp: end_view_simps counted_simps)
  next
    case False
    then have "int (counted p (end_view i vs)) = int (counted p vs) - (if ci = Some p then 1 else 0)" using Cons v by auto
    then show ?thesis using v False by (simp add: end_view_simps counted_simps)
  qed
qed simp

lemma good_end:
  assumes g: "good sc vs pl nx" and i: "map_of vs i = Some (pa, True, ci)"
    and host: "\<And>c e. sc c = Some e \<Longrightarrow> i \<noteq> se_host e \<and> i \<notin> set (se_queue e)"
    and own: "\<And>e. sc pa = Some e \<Longrightarrow> ci = Some (se_ptr e)"
  shows "good (case sc pa of None \<Rightarrow> sc | Some e \<Rightarrow> sc(pa \<mapsto> e\<lparr>se_active := se_active e - 1\<rparr>)) (end_view i vs) pl nx"
    (is "good ?sc _ _ _")
proof -
  have lk: "?sc c = Some x \<Longrightarrow> \<exists>y. sc c = Some y \<and> x = y\<lparr>se_active := se_active y - (if c = pa then 1 else 0)\<rparr>" for c x
    by (auto split: option.splits if_splits)
  have dom: "(?sc c = None) = (sc c = None)" for c by (auto split: option.splits)
  have cnt: "se_active x = int (counted (se_ptr x) (end_view i vs))" if x: "?sc c = Some x" for c x
  proof -
    obtain y where y: "sc c = Some y" "x = y\<lparr>se_active := se_active y - (if c = pa then 1 else 0)\<rparr>" using lk[OF x] by blast
    have "c = pa" if "ci = Some (se_ptr y)" using goodD(13)[OF g i[unfolded that] y(1) refl] by simp
    moreover have "ci = Some (se_ptr y)" if "c = pa" using own[of y] y(1) that by simp
    ultimately have "ci = Some (se_ptr y) \<longleftrightarrow> c = pa" by blast
    then show ?thesis using y goodD(5)[OF g y(1)] counted_end[OF goodD(1)[OF g] i] by simp
  qed
  have st: "stands (pl_root pl) ?sc (end_view i vs) pb h" if "stands (pl_root pl) sc vs pb h" "h \<noteq> i" for pb h
    using that by (auto simp: stands_def map_of_end_view split: option.split)
  show ?thesis
  proof (rule goodI)
    show "stands (pl_root pl) ?sc (end_view i vs) (se_parent x) h"
      if hx: "?sc c = Some x" "h = se_host x \<or> h \<in> set (se_queue x)" for c x h
    proof -
      obtain y where y: "sc c = Some y" "x = y\<lparr>se_active := se_active y - (if c = pa then 1 else 0)\<rparr>" using lk[OF hx(1)] by blast
      have "h = se_host y \<or> h \<in> set (se_queue y)" using hx(2) y(2) by simp
      then show ?thesis using st[OF goodD(7)[OF g y(1)]] host[OF y(1)] y(2) by auto
    qed
    show "c = c'" if "?sc c = Some x" "?sc c' = Some x'" "se_ptr x = se_ptr x'" for c x c' x'
      using lk[OF that(1)] lk[OF that(2)] that(3) goodD(6)[OF g] by force
    show "pb = c" if "map_of (end_view i vs) j = Some (pb, l, Some p)" "?sc c = Some x" "se_ptr x = p" for j pb l p c x
      using that(1) lk[OF that(2)] that(3) goodD(13)[OF g] by (auto simp: map_of_end_view split: option.splits)
    show "j < nx" if "map_of (end_view i vs) j = Some v" for j v
      using that goodD(2)[OF g] by (auto simp: map_of_end_view split: option.splits)
    show "p < nx" if "map_of (end_view i vs) j = Some (pb, l, Some p)" for j pb l p
      using that goodD(3)[OF g] by (auto simp: map_of_end_view split: option.splits)
    show "se_ptr x < nx" if "?sc c = Some x" for c x using lk[OF that] goodD(4)[OF g] by auto
    show "\<exists>seg. c = se_parent x @ slash # seg \<and> slash \<notin> set seg" if "?sc c = Some x" for c x
      using lk[OF that] goodD(8)[OF g] by auto
    show "distinct (map fst (end_view i vs))" using goodD(1)[OF g] by (simp add: end_view_keys)
    show "?sc (pl_root pl) = None" using goodD(9)[OF g] dom by simp
    show "opened pl x \<longleftrightarrow> x = pl_root pl \<or> ?sc x \<noteq> None" for x using goodD(10)[OF g] dom by simp
  qed (use cnt goodD(11,12)[OF g] in auto)
qed

end
