(* ===== verification/Scope_Invariants.thy ===== *)
theory Scope_Invariants
  imports Scope_Accounting
begin

text \<open>
  Every operation of the scope machinery keeps the accounting of \<open>Scope_Accounting\<close>; so does every history of the
  loop in which no track left behind by an abandoned scope is counted out of its successor.
\<close>

section \<open>The loop's small operations\<close>

lemma wf_loopD:
  assumes "wf_loop ls"
  shows "distinct (map fst (sl_scopes ls))" and "map_of (sl_scopes ls) c = Some e \<Longrightarrow> wfn (se_node e)"
    and "map_of (sl_tracks ls) i = Some t \<Longrightarrow> slash \<notin> set (st_scopeSeg t) \<and> wfn (st_node t)"
    and "w \<in> watches (sl_handlers ls) \<Longrightarrow> wfn (hw_handler w)"
  using assms unfolding wf_loop_def by blast+

lemma wf_loopI:
  assumes "distinct (map fst (sl_scopes ls))" and "\<And>c e. map_of (sl_scopes ls) c = Some e \<Longrightarrow> wfn (se_node e)"
    and "\<And>i t. map_of (sl_tracks ls) i = Some t \<Longrightarrow> slash \<notin> set (st_scopeSeg t) \<and> wfn (st_node t)"
    and "\<And>w. w \<in> watches (sl_handlers ls) \<Longrightarrow> wfn (hw_handler w)"
  shows "wf_loop ls"
  using assms unfolding wf_loop_def by blast

lemma views_simps [simp]:
  "views (ls\<lparr>sl_scopes := a\<rparr>) = views ls" "views (ls\<lparr>sl_ledgers := b\<rparr>) = views ls" "views (ls\<lparr>sl_handlers := c\<rparr>) = views ls"
  "views (ls\<lparr>sl_interrupted := d\<rparr>) = views ls" "views (ls\<lparr>sl_sweeps := f\<rparr>) = views ls" "views (ls\<lparr>sl_waiting := g\<rparr>) = views ls"
  "views (ls\<lparr>sl_plane := h\<rparr>) = views ls" "views (ls\<lparr>sl_active := i\<rparr>) = views ls" "views (ls\<lparr>sl_panicked := j\<rparr>) = views ls"
  "views (ls\<lparr>sl_handlerSeq := k\<rparr>) = views ls" "views (ls\<lparr>sl_next := l\<rparr>) = views ls" "views (ls\<lparr>sl_log := m\<rparr>) = views ls"
  by (simp_all add: views_def)

lemma wf_loop_simps [simp]:
  "wf_loop (ls\<lparr>sl_ledgers := b\<rparr>) = wf_loop ls" "wf_loop (ls\<lparr>sl_interrupted := d\<rparr>) = wf_loop ls"
  "wf_loop (ls\<lparr>sl_sweeps := f\<rparr>) = wf_loop ls" "wf_loop (ls\<lparr>sl_waiting := g\<rparr>) = wf_loop ls"
  "wf_loop (ls\<lparr>sl_plane := h\<rparr>) = wf_loop ls" "wf_loop (ls\<lparr>sl_active := i\<rparr>) = wf_loop ls" "wf_loop (ls\<lparr>sl_panicked := j\<rparr>) = wf_loop ls"
  "wf_loop (ls\<lparr>sl_handlerSeq := k\<rparr>) = wf_loop ls" "wf_loop (ls\<lparr>sl_next := l\<rparr>) = wf_loop ls" "wf_loop (ls\<lparr>sl_log := m\<rparr>) = wf_loop ls"
  by (simp_all add: wf_loop_def)

text \<open>Operations that touch neither the registry, the tracks' accounting, the plane nor the counter of names.\<close>

definition same_core :: "'v scope_loop \<Rightarrow> 'v scope_loop \<Rightarrow> bool" where
  "same_core ls ls' \<longleftrightarrow>
     sl_stopping ls' = sl_stopping ls \<and> sl_scopes ls' = sl_scopes ls \<and> views ls' = views ls \<and> sl_plane ls' = sl_plane ls \<and>
     sl_next ls' = sl_next ls \<and> (wf_loop ls \<longrightarrow> wf_loop ls')"

lemma same_coreD: "same_core ls ls' \<Longrightarrow> scope_inv ls \<Longrightarrow> scope_inv ls'"
  by (auto simp: same_core_def scope_inv_def)

lemma same_core_trans: "same_core a b \<Longrightarrow> same_core b c \<Longrightarrow> same_core a c"
  by (auto simp: same_core_def)

lemma same_core_refl [simp]: "same_core ls ls"
  by (simp add: same_core_def)

lemma same_core_report [simp]: "same_core ls (report f ls)"
  by (simp add: same_core_def report_def)

lemma same_core_flip [simp]: "same_core ls (flip i ls)"
  by (simp add: same_core_def flip_def)

lemma same_core_wait [simp]: "same_core ls (wait_for i ls)"
  by (simp add: same_core_def wait_for_def)

lemma same_core_deliver [simp]: "same_core ls (deliver i ls)"
  by (auto simp: same_core_def deliver_def flip_def report_def split: option.split)

lemma same_core_disarm [simp]: "same_core ls (disarmScopeHandlers p ls)"
  using watches_delete[of p "sl_handlers ls"] by (auto simp: same_core_def disarmScopeHandlers_def wf_loop_def)

lemma same_core_discard [simp]: "same_core ls (discardLedgers p ls)"
  by (simp add: same_core_def discardLedgers_def)

lemma map_of_apsnd: "map_of (map (\<lambda>(i, t). (i, f i t)) xs) k = map_option (f k) (map_of xs k)"
  by (induction xs) auto

lemma views_map:
  assumes "\<And>i t. st_scopePath (f i t) = st_scopePath t \<and> st_live (f i t) = st_live t \<and> st_in (f i t) = st_in t"
  shows "map (\<lambda>(i, t). (i, st_scopePath t, st_live t, st_in t)) (map (\<lambda>(i, t). (i, f i t)) ts) =
         map (\<lambda>(i, t). (i, st_scopePath t, st_live t, st_in t)) ts"
  using assms by auto

lemma same_core_stop_tracks [simp]: "same_core ls (stop_tracks sel ls)"
proof -
  have "views (stop_tracks sel ls) = views ls" unfolding stop_tracks_def views_def by (simp del: map_map) (rule views_map, simp)
  moreover have "wf_loop ls \<longrightarrow> wf_loop (stop_tracks sel ls)" by (auto simp: wf_loop_def stop_tracks_def map_of_apsnd)
  ultimately show ?thesis by (simp add: same_core_def stop_tracks_def)
qed

lemma same_core_stopped [simp]: "same_core ls (upd_strack i (\<lambda>t. t\<lparr>st_stopped := True\<rparr>) ls)"
proof -
  have "views (upd_strack i (\<lambda>t. t\<lparr>st_stopped := True\<rparr>) ls) = views ls" unfolding upd_strack_def views_def by (simp del: map_map) (rule views_map, simp)
  moreover have "wf_loop ls \<longrightarrow> wf_loop (upd_strack i (\<lambda>t. t\<lparr>st_stopped := True\<rparr>) ls)" by (auto simp: wf_loop_def upd_strack_def map_of_apsnd)
  ultimately show ?thesis by (simp add: same_core_def upd_strack_def)
qed

lemma move_inv:
  assumes "scope_inv ls" and "wfn n"
  shows "scope_inv (move_track i n ls)"
proof -
  have "views (move_track i n ls) = views ls" unfolding move_track_def upd_strack_def views_def by (simp del: map_map) (rule views_map, simp)
  moreover have "wf_loop ls \<Longrightarrow> wf_loop (move_track i n ls)" using assms(2) by (auto simp: wf_loop_def move_track_def upd_strack_def map_of_apsnd)
  ultimately show ?thesis using assms(1) by (auto simp: scope_inv_def move_track_def upd_strack_def)
qed

lemma same_core_cancel_host [simp]: "same_core ls (cancel_host i ls)"
  unfolding cancel_host_def by (rule same_core_trans[OF same_core_stopped same_core_flip])

lemma halted [simp]: "sl_stopping (halt ls)" "sl_stopping (fail_stop e ls)"
  by (simp_all add: halt_def fail_stop_def)

lemma stopping_inv: "sl_stopping ls \<Longrightarrow> scope_inv ls"
  by (simp add: scope_inv_def)

section \<open>Opening\<close>

lemma checkContained_root: "pl_root p = pl_root q \<Longrightarrow> checkContained p x = checkContained q x"
  by (simp add: checkContained_def)

lemma root_slash: "good sc vs pl nx \<Longrightarrow> slash \<in> set (pl_root pl)"
  using goodD(11)[of sc vs pl nx "pl_root pl"] goodD(10)[of sc vs pl nx "pl_root pl"] Validate_slash
  by (fastforce simp: checkContained_def split: sum.splits)

lemma DropTail_cut:
  assumes "DropTail (p @ slash # s) = Inr q" and "slash \<notin> set s" and "slash \<in> set p"
  shows "q = p"
proof -
  have sp: "Split slash (p @ slash # s) = Split slash p @ [s]" using assms(2) by (simp add: Split_append Split_no_sep)
  have "2 < length (Split slash (p @ slash # s))" using slash_Split2[OF assms(3)] sp by simp
  from DropTail_Split[OF assms(1) this] have "Split slash q = Split slash p" using sp by simp
  then show ?thesis using Join_Split by metis
qed

text \<open>What a successful opening in the data plane means for the path of the host.\<close>

lemma open_shape:
  assumes g: "good sc vs pl nx" and ap: "Append p seg = Inr c" and seg: "slash \<notin> set seg" and op: "OpenScope pl c = Inr pl'"
  shows "c = p @ slash # TrimSpace seg" and "opened pl p" and "checkContained pl c = Inr ()" and "c \<noteq> pl_root pl"
    and "\<And>x. opened pl' x \<longleftrightarrow> opened pl x \<or> x = c" and "pl_root pl' = pl_root pl"
proof -
  obtain u where ct: "checkContained pl c = Inr u" and nk: "\<not> has_key c (pl_scopes pl)"
    and par: "\<exists>q. DropTail c = Inr q \<and> has_key q (pl_scopes pl)" and pl': "pl' = pl\<lparr>pl_scopes := AList.update c [] (pl_scopes pl)\<rparr>"
    using op by (auto simp: OpenScope_def split: sum.splits if_splits)
  show ct': "checkContained pl c = Inr ()" using ct by simp
  show cr: "c \<noteq> pl_root pl" using nk goodD(10)[OF g, of "pl_root pl"] by (auto simp: opened_def)
  show "opened pl' x \<longleftrightarrow> opened pl x \<or> x = c" for x using pl' by (auto simp: opened_def)
  show "pl_root pl' = pl_root pl" using pl' by simp
  have tr: "slash \<notin> set (TrimSpace seg)" by (rule TrimSpace_noslash[OF seg])
  have ps: "p \<noteq> [slash]"
  proof
    assume "p = [slash]"
    then have c: "c = slash # TrimSpace seg" using ap by (auto simp: Append_def Let_def split: if_splits sum.splits dest!: NewDataPathD)
    have "prefix (pl_root pl @ [slash]) c" using ct' cr goodD(12)[OF g] by (auto simp: checkContained_def split: sum.splits if_splits)
    then show False using c tr root_slash[OF g] by (cases "pl_root pl") (auto elim!: prefixE)
  qed
  show c: "c = p @ slash # TrimSpace seg" by (rule Append_shape[OF ap ps])
  have "slash \<in> set p" using ap Validate_slash[of p] by (auto simp: Append_def Let_def split: if_splits sum.splits)
  then show "opened pl p" using par DropTail_cut[of p "TrimSpace seg"] c tr by (auto simp: opened_def)
qed

lemma seed_plane_keeps:
  assumes "seed_plane env c dd p = Inr p'"
  shows "\<And>x. opened p' x \<longleftrightarrow> opened p x" and "pl_root p' = pl_root p"
proof -
  obtain chs where "Scope_Commit (ev_deq env) p c (map Some dd) = Inr (p', chs)"
    using assms by (auto simp: seed_plane_def split: sum.splits)
  from Scope_Commit_shape[OF this] show "\<And>x. opened p' x \<longleftrightarrow> opened p x" "pl_root p' = pl_root p"
    using has_key_of_map_of by (auto simp: opened_def)
qed

lemma seedDataObjects_keeps:
  assumes "seedDataObjects env n c p = Inr p'"
  shows "\<And>x. opened p' x \<longleftrightarrow> opened p x" and "pl_root p' = pl_root p"
proof -
  have "p' = p \<or> seed_plane env c (ev_dataObjects env n) p = Inr p'"
    using assms by (auto simp: seedDataObjects_def split: if_splits sum.splits)
  then show "\<And>x. opened p' x \<longleftrightarrow> opened p x" "pl_root p' = pl_root p" using seed_plane_keeps by blast+
qed

text \<open>A track that may host a scope: live, and counted by the entry that is registered at its path, if any.\<close>

definition fit :: "nat \<Rightarrow> 'v scope_loop \<Rightarrow> bool" where
  "fit i ls \<longleftrightarrow>
     (\<forall>t. map_of (sl_tracks ls) i = Some t \<longrightarrow>
        st_live t \<and> (\<forall>e. map_of (sl_scopes ls) (st_scopePath t) = Some e \<longrightarrow> st_in t = Some (se_ptr e)))"

lemma map_of_views: "map_of (views ls) i = map_option (\<lambda>t. (st_scopePath t, st_live t, st_in t)) (map_of (sl_tracks ls) i)"
  unfolding views_def by (rule map_of_apsnd)

lemma fit_stands:
  assumes g: "good (map_of (sl_scopes ls)) (views ls) (sl_plane ls) nx" and f: "fit i ls"
    and t: "map_of (sl_tracks ls) i = Some t" and o: "opened (sl_plane ls) (st_scopePath t)"
  shows "stands (pl_root (sl_plane ls)) (map_of (sl_scopes ls)) (views ls) (st_scopePath t) i"
  using f t o goodD(10)[OF g, of "st_scopePath t"] by (auto simp: fit_def stands_def map_of_views)

lemma wf_loop_scopes:
  assumes "wf_loop ls" and "distinct (map fst m)" and "\<And>x. x \<in> ran (map_of m) \<Longrightarrow> x \<in> ran (map_of (sl_scopes ls)) \<or> wfn (se_node x)"
  shows "wf_loop (ls\<lparr>sl_scopes := m\<rparr>)"
proof -
  have "wfn (se_node x)" if "map_of m c = Some x" for c x
    using assms(3)[OF ranI[of "map_of m" c x, OF that]] assms(1) by (auto simp: wf_loop_def ran_def)
  then show ?thesis using assms(1,2) by (simp add: wf_loop_def)
qed

lemma ran_update_val: "x \<in> ran (map_of (AList.update c e m)) \<Longrightarrow> x = e \<or> x \<in> ran (map_of m)"
  by (auto simp: ran_def update_conv' split: if_splits)

lemma wf_update: "wf_loop ls \<Longrightarrow> wfn (se_node e) \<Longrightarrow> wf_loop (ls\<lparr>sl_scopes := AList.update c e (sl_scopes ls)\<rparr>)"
  by (rule wf_loop_scopes) (auto simp: wf_loop_def distinct_update dest!: ran_update_val)

lemma queue_inv:
  assumes i: "scope_inv ls" "\<not> sl_stopping ls" and f: "fit host ls" and t: "map_of (sl_tracks ls) host = Some t"
    and ap: "Append (st_scopePath t) seg = Inr c" and seg: "slash \<notin> set seg" and c: "map_of (sl_scopes ls) c = Some e"
  shows "scope_inv (ls\<lparr>sl_scopes := AList.update c (e\<lparr>se_queue := se_queue e @ [host]\<rparr>) (sl_scopes ls)\<rparr>)"
proof -
  have w: "wf_loop ls" and g: "good (map_of (sl_scopes ls)) (views ls) (sl_plane ls) (sl_next ls)" using i by (auto simp: scope_inv_def)
  have tr: "slash \<notin> set (TrimSpace seg)" by (rule TrimSpace_noslash[OF seg])
  obtain sg where sg: "c = se_parent e @ slash # sg" "slash \<notin> set sg" using goodD(8)[OF g c] by blast
  have op: "opened (sl_plane ls) (se_parent e)" using goodD(7)[OF g c] goodD(10)[OF g] by (auto simp: stands_def)
  have ne: "se_parent e \<noteq> []"
  proof
    assume n: "se_parent e = []"
    then have "map_of (sl_scopes ls) [] \<noteq> None" using op goodD(10)[OF g, of "[]"] root_slash[OF g] by auto
    then show False using goodD(8)[OF g, of "[]"] by fastforce
  qed
  have "st_scopePath t \<noteq> [slash]"
  proof
    assume "st_scopePath t = [slash]"
    then have "c = slash # TrimSpace seg" using ap by (auto simp: Append_def Let_def split: if_splits sum.splits dest!: NewDataPathD)
    then have "TrimSpace seg = tl (se_parent e) @ slash # sg" using sg(1) ne by (cases "se_parent e") auto
    then show False using tr by simp
  qed
  then have "se_parent e = st_scopePath t" using same_split[of "se_parent e" sg "st_scopePath t"] Append_shape[OF ap] sg tr by simp
  then have "good ((map_of (sl_scopes ls))(c \<mapsto> e\<lparr>se_queue := se_queue e @ [host]\<rparr>)) (views ls) (sl_plane ls) (sl_next ls)"
    using op fit_stands[OF g f t] goodD(7)[OF g c] by (intro good_entry[OF g c]) auto
  moreover have "wf_loop (ls\<lparr>sl_scopes := AList.update c (e\<lparr>se_queue := se_queue e @ [host]\<rparr>) (sl_scopes ls)\<rparr>)"
    by (rule wf_update[OF w]) (use w c in \<open>auto simp: wf_loop_def\<close>)
  ultimately show ?thesis using i(2) by (simp add: scope_inv_def update_conv')
qed

lemma open_inv:
  assumes i: "scope_inv ls" "\<not> sl_stopping ls" and f: "fit host ls" and t: "map_of (sl_tracks ls) host = Some t"
    and ap: "Append (st_scopePath t) seg = Inr c" and seg: "slash \<notin> set seg" and new: "map_of (sl_scopes ls) c = None"
    and op: "OpenScope (sl_plane ls) c = Inr p1" and p: "\<And>x. opened p x \<longleftrightarrow> opened p1 x" "pl_root p = pl_root p1"
    and e: "se_ptr e = sl_next ls" "se_host e = host" "se_parent e = st_scopePath t" "se_queue e = []" "se_active e = 0" "wfn (se_node e)"
  shows "scope_inv (ls\<lparr>sl_plane := p, sl_next := Suc (sl_next ls), sl_scopes := AList.update c e (sl_scopes ls)\<rparr>)"
proof -
  have w: "wf_loop ls" and g: "good (map_of (sl_scopes ls)) (views ls) (sl_plane ls) (sl_next ls)" using i by (auto simp: scope_inv_def)
  note sh = open_shape[OF g ap seg op]
  have "good ((map_of (sl_scopes ls))(c \<mapsto> e)) (views ls) p (Suc (sl_next ls))"
  proof (rule good_open[OF g new fit_stands[OF g f t sh(2)] sh(1) TrimSpace_noslash[OF seg] _ _ _ sh(3,4) e(1-5)])
    show "opened p x \<longleftrightarrow> opened (sl_plane ls) x \<or> x = c" for x using p sh(5) by simp
    show "pl_root p = pl_root (sl_plane ls)" using p sh(6) by simp
    then show "checkContained p x = checkContained (sl_plane ls) x" for x by (rule checkContained_root)
  qed
  moreover have "wf_loop (ls\<lparr>sl_scopes := AList.update c e (sl_scopes ls)\<rparr>)"
    by (rule wf_update[OF w e(6)])
  ultimately show ?thesis using i(2) by (simp add: scope_inv_def update_conv' wf_loop_def)
qed

lemma open_entry_cases:
  obtains (keep) "fst (open_entry env host n ls) = ls"
  | (stop) "sl_stopping (fst (open_entry env host n ls))"
  | (own) "fst (open_entry env host n ls) = wait_for host ls"
  | (queue) t c e where "\<not> sl_stopping ls" "map_of (sl_tracks ls) host = Some t"
      "Append (st_scopePath t) (if st_scopeSeg t \<noteq> [] then st_scopeSeg t else scopeSegment n) = Inr c" "map_of (sl_scopes ls) c = Some e"
      "fst (open_entry env host n ls) = ls\<lparr>sl_scopes := AList.update c (e\<lparr>se_queue := se_queue e @ [host]\<rparr>) (sl_scopes ls)\<rparr>"
  | (new) t c p1 p3 where "\<not> sl_stopping ls" "map_of (sl_tracks ls) host = Some t"
      "Append (st_scopePath t) (if st_scopeSeg t \<noteq> [] then st_scopeSeg t else scopeSegment n) = Inr c" "map_of (sl_scopes ls) c = None"
      "OpenScope (sl_plane ls) c = Inr p1" "\<And>x. opened p3 x \<longleftrightarrow> opened p1 x" "pl_root p3 = pl_root p1"
      "fst (open_entry env host n ls) = report (FOpened c) (wait_for host (ls\<lparr>sl_plane := p3, sl_next := Suc (sl_next ls),
         sl_scopes := AList.update c \<lparr>se_ptr = sl_next ls, se_host = host, se_node = n, se_parent = st_scopePath t, se_queue = [], se_active = 0,
           se_aborting = False, se_awaitAttach = False, se_drainPending = False\<rparr> (sl_scopes ls)\<rparr>))"
proof (cases "sl_stopping ls \<or> \<not> is_scopeHost n \<or> map_of (sl_tracks ls) host = None")
  case True
  note c = True
  show thesis
  proof (cases "sl_stopping ls \<or> is_scopeHost n")
    case True
    show thesis by (rule keep) (use c True in \<open>auto simp: open_entry_def\<close>)
  next
    case False
    show thesis by (rule stop) (use False in \<open>simp add: open_entry_def\<close>)
  qed
next
  case False
  then obtain t where t: "map_of (sl_tracks ls) host = Some t" by auto
  have ns: "\<not> sl_stopping ls" and sh: "is_scopeHost n" using False by auto
  note st = ns sh t
  show thesis
  proof (cases "Append (st_scopePath t) (if st_scopeSeg t \<noteq> [] then st_scopeSeg t else scopeSegment n)")
    case (Inl e) show thesis by (rule stop) (simp only: open_entry_def st Inl if_False if_True not_True_eq_False option.case sum.case fst_conv halted)
  next
    case ap: (Inr c)
    show thesis
    proof (cases "map_of (sl_scopes ls) c")
      case (Some e)
      note r = open_entry_def st ap Some if_False if_True not_True_eq_False option.case sum.case fst_conv
      show thesis
      proof (cases "se_host e = host")
        case True show thesis by (rule own) (simp only: r True refl)
      next
        case False show thesis by (rule queue[OF ns t ap Some]) (simp only: r False fst_conv if_False)
      qed
    next
      case nw: None
      note r = open_entry_def st ap nw if_False if_True not_True_eq_False option.case sum.case fst_conv Let_def halted
      show thesis
      proof (cases "OpenScope (sl_plane ls) c")
        case (Inl e) show thesis by (rule stop) (simp only: r Inl)
      next
        case op: (Inr p1)
        show thesis
        proof (cases "case st_compScopeSeed t of None \<Rightarrow> Inr p1 | Some dd \<Rightarrow> seed_plane env c dd p1")
          case (Inl e) show thesis by (rule stop) (simp only: r op Inl)
        next
          case p2: (Inr p2)
          have k2: "(\<forall>x. opened p2 x \<longleftrightarrow> opened p1 x) \<and> pl_root p2 = pl_root p1"
          proof (cases "st_compScopeSeed t")
            case None then show ?thesis using p2 by simp
          next
            case (Some dd)
            then have "seed_plane env c dd p1 = Inr p2" using p2 by simp
            then show ?thesis using seed_plane_keeps by blast
          qed
          show thesis
          proof (cases "seedDataObjects env n c p2")
            case (Inl e) show thesis by (rule stop) (simp only: r op p2 Inl)
          next
            case p3: (Inr p3)
            show thesis
            proof (rule new[OF ns t ap nw op])
              show "opened p3 x \<longleftrightarrow> opened p1 x" for x using seedDataObjects_keeps(1)[OF p3] k2 by simp
              show "pl_root p3 = pl_root p1" using seedDataObjects_keeps(2)[OF p3] k2 by simp
            qed (simp only: r op p2 p3, cases ls, simp add: wait_for_def)
          qed
        qed
      qed
    qed
  qed
qed

lemma open_entry_inv:
  assumes i: "scope_inv ls" and f: "fit host ls" and n: "wfn n"
  shows "scope_inv (fst (open_entry env host n ls))"
proof -
  have seg: "slash \<notin> set (if st_scopeSeg t \<noteq> [] then st_scopeSeg t else scopeSegment n)"
    if "\<not> sl_stopping ls" "map_of (sl_tracks ls) host = Some t" for t
    using i that scopeSegment_noslash[OF n] wf_loopD(3)[of ls host t] by (auto simp: scope_inv_def)
  show ?thesis
  proof (cases rule: open_entry_cases[of env host n ls])
    case keep then show ?thesis using i by simp
  next
    case stop then show ?thesis by (rule stopping_inv)
  next
    case own then show ?thesis using same_coreD[OF same_core_wait i] by simp
  next
    case (queue t c e)
    then show ?thesis using queue_inv[OF i queue(1) f queue(2,3) seg queue(4)] by simp
  next
    case (new t c p1 p3)
    let ?e = "\<lparr>se_ptr = sl_next ls, se_host = host, se_node = n, se_parent = st_scopePath t, se_queue = [], se_active = 0,
                     se_aborting = False, se_awaitAttach = False, se_drainPending = False\<rparr>"
    have "scope_inv (ls\<lparr>sl_plane := p3, sl_next := Suc (sl_next ls), sl_scopes := AList.update c ?e (sl_scopes ls)\<rparr>)"
      by (rule open_inv[OF i new(1) f new(2,3) seg[OF new(1,2)] new(4,5)]) (use new(6,7) n in simp_all)
    from same_coreD[OF same_core_report same_coreD[OF same_core_wait this]] show ?thesis by (simp only: new(8))
  qed
qed

lemma views_snoc: "views (ls\<lparr>sl_tracks := sl_tracks ls @ [(i, t)]\<rparr>) = views ls @ [(i, st_scopePath t, st_live t, st_in t)]"
  by (simp add: views_def)

lemma add_track_stopping [simp]: "sl_stopping (add_track n path seg a b ls) = sl_stopping ls"
  by (simp add: add_track_def incScope_def Let_def split: option.split)

lemma add_track_inv:
  assumes i: "scope_inv ls" and n: "wfn n" and seg: "slash \<notin> set seg"
  shows "scope_inv (add_track n path seg a b ls)"
proof (cases "sl_stopping ls")
  case False
  then have w: "wf_loop ls" and g: "good (map_of (sl_scopes ls)) (views ls) (sl_plane ls) (sl_next ls)" using i by (auto simp: scope_inv_def)
  have "views (add_track n path seg a b ls) = views ls @ [(sl_next ls, path, True, map_option se_ptr (map_of (sl_scopes ls) path))]"
    by (auto simp: add_track_def incScope_def Let_def views_def counter_at_def split: option.split)
  moreover have "map_of (sl_scopes (add_track n path seg a b ls)) =
      (case map_of (sl_scopes ls) path of None \<Rightarrow> map_of (sl_scopes ls) | Some e \<Rightarrow> (map_of (sl_scopes ls))(path \<mapsto> e\<lparr>se_active := se_active e + 1\<rparr>))"
    by (auto simp: add_track_def incScope_def Let_def update_conv' split: option.split)
  moreover have "sl_plane (add_track n path seg a b ls) = sl_plane ls" "sl_next (add_track n path seg a b ls) = Suc (sl_next ls)"
    by (auto simp: add_track_def incScope_def Let_def split: option.split)
  moreover have "wf_loop (add_track n path seg a b ls)"
  proof -
    have inc: "wf_loop (incScope path l)" if "wf_loop l" for l :: "'a scope_loop"
      using that wf_loopD(2)[OF that, of path] by (auto simp: incScope_def split: option.split intro!: wf_update)
    show ?thesis unfolding add_track_def Let_def
      by (rule inc, rule wf_loopI) (use wf_loopD[OF w] n seg in \<open>auto simp: map_add_def split: option.splits if_splits\<close>)
  qed
  ultimately show ?thesis using good_add[OF g, of path] by (simp add: scope_inv_def)
qed (simp add: stopping_inv)

lemma add_track_fit:
  assumes i: "scope_inv ls" "\<not> sl_stopping ls"
  shows "fit (sl_next ls) (add_track n path seg a b ls)"
proof -
  have "good (map_of (sl_scopes ls)) (views ls) (sl_plane ls) (sl_next ls)" using i by (auto simp: scope_inv_def)
  from goodD(2)[OF this, of "sl_next ls"] have "map_of (sl_tracks ls) (sl_next ls) = None"
    by (cases "map_of (sl_tracks ls) (sl_next ls)") (auto simp: map_of_views)
  then show ?thesis
    by (auto simp: fit_def add_track_def incScope_def Let_def counter_at_def update_conv' map_add_def split: option.splits)
qed

lemma open_entry_stopping: "sl_stopping ls \<Longrightarrow> open_entry env host n ls = (ls, None)"
  by (simp add: open_entry_def)

lemma arm_stopping: "sl_stopping ls \<Longrightarrow> sl_stopping (armScopeHandlers env nodes path ls)"
  by (simp add: armScopeHandlers_def)

lemma spawn_stopping:
  "sl_stopping ls \<Longrightarrow> sl_stopping (spawn env n path seg a b ls)"
  "sl_stopping ls \<Longrightarrow> sl_stopping (onScopeOpen env host n ls)"
  "sl_stopping ls \<Longrightarrow> sl_stopping (seedScope env cpath ns ls)"
proof (induction env n path seg a b ls and env host n ls and env cpath ns ls rule: spawn_onScopeOpen_seedScope.induct)
  case (1 env n path seg a b ls)
  then show ?case by (simp add: spawn.simps Let_def wait_for_def)
next
  case (2 env host n ls)
  then show ?case by (simp add: onScopeOpen.simps open_entry_stopping)
qed (auto split: option.split)

lemma arm_loop_wf: "arm_loop env path ns ws = Inr ws' \<Longrightarrow> list_all wfn ns \<Longrightarrow> (\<forall>w\<in>set ws. wfn (hw_handler w)) \<Longrightarrow> \<forall>w\<in>set ws'. wfn (hw_handler w)"
  by (induction env path ns ws rule: arm_loop.induct) (auto simp: Let_def split: if_splits option.splits prod.splits)

lemma arm_inv:
  assumes "scope_inv ls" and "list_all wfn nodes"
  shows "scope_inv (armScopeHandlers env nodes path ls)"
proof (cases "sl_stopping ls")
  case True then show ?thesis by (simp add: stopping_inv arm_stopping)
next
  case False
  show ?thesis
  proof (cases "arm_loop env path nodes []")
    case (Inl n) then show ?thesis using False by (simp add: armScopeHandlers_def stopping_inv)
  next
    case (Inr ws)
    have ws: "\<forall>w\<in>set ws. wfn (hw_handler w)" using arm_loop_wf[OF Inr assms(2)] by simp
    have "same_core ls (ls\<lparr>sl_handlers := AList.update path (handlers_at path ls @ ws) (sl_handlers ls)\<rparr>)"
    proof -
      have "wfn (hw_handler w)" if "w \<in> watches (AList.update path (handlers_at path ls @ ws) (sl_handlers ls))" "wf_loop ls" for w
        using that ws wf_loopD(4)[OF that(2), of w] watches_update[of path "handlers_at path ls @ ws" "sl_handlers ls"] watches_at[of path ls]
        by (auto simp: subset_iff)
      then show ?thesis by (simp add: same_core_def wf_loop_def)
    qed
    then show ?thesis using False Inr assms(1) same_coreD by (auto simp: armScopeHandlers_def)
  qed
qed

lemma wfn_inner: "wfn n \<Longrightarrow> list_all wfn (fn_inner n)"
  by (cases n) simp

lemma wfn_seeds: "wfn n \<Longrightarrow> list_all wfn (seeds_of n)"
  using seeds_of_subset[of n] wfn_inner[of n] by (auto simp: list_all_iff)

lemma fit_wait: "fit i (wait_for j ls) = fit i ls"
  by (simp add: fit_def wait_for_def)

lemma spawn_inv:
  "scope_inv ls \<Longrightarrow> wfn n \<Longrightarrow> slash \<notin> set seg \<Longrightarrow> scope_inv (spawn env n path seg a b ls)"
  "scope_inv ls \<Longrightarrow> fit host ls \<Longrightarrow> wfn n \<Longrightarrow> scope_inv (onScopeOpen env host n ls)"
  "scope_inv ls \<Longrightarrow> list_all wfn ns \<Longrightarrow> scope_inv (seedScope env cpath ns ls)"
proof (induction env n path seg a b ls and env host n ls and env cpath ns ls rule: spawn_onScopeOpen_seedScope.induct)
  case (1 env n path seg a b ls)
  have at: "scope_inv (add_track n path seg a b ls)" by (rule add_track_inv[OF 1(2,3,4)])
  show ?case
  proof (cases "sl_stopping ls")
    case True then show ?thesis by (intro stopping_inv spawn_stopping(1))
  next
    case False
    have "fit (sl_next ls) (wait_for (sl_next ls) (add_track n path seg a b ls))"
      using add_track_fit[OF 1(2) False] by (simp add: fit_wait)
    then show ?thesis using 1(1)[OF refl] at same_coreD[OF same_core_wait at] 1(3) by (simp add: spawn.simps Let_def)
  qed
next
  case (2 env host n ls)
  have oe: "scope_inv (fst (open_entry env host n ls))" by (rule open_entry_inv[OF 2(2,3,4)])
  show ?case
  proof (cases "open_entry env host n ls")
    case (Pair ls1 r)
    show ?thesis
    proof (cases r)
      case None then show ?thesis using Pair oe by (simp add: onScopeOpen.simps)
    next
      case (Some cpath)
      have "scope_inv (seedScope env cpath (seeds_of n) ls1)" using 2(1)[OF Pair[symmetric] Some] oe Pair wfn_seeds[OF 2(4)] by simp
      then show ?thesis using Pair Some arm_inv wfn_inner[OF 2(4)] by (simp add: onScopeOpen.simps)
    qed
  qed
next
  case (4 env cpath n ns ls)
  then show ?case by (auto simp: stopping_inv split: option.split)
qed simp

section \<open>Dropping\<close>

lemma CloseScope_ok:
  assumes "opened pl p" and "p \<noteq> pl_root pl" and "checkContained pl p = Inr ()" and "\<And>x. opened pl x \<Longrightarrow> \<not> prefix (p @ [slash]) x"
  shows "CloseScope pl p = Inr (pl\<lparr>pl_scopes := AList.delete p (pl_scopes pl)\<rparr>)"
  using assms by (auto simp: CloseScope_def opened_def has_key_def list_ex_iff)

lemma opened_delete: "opened (pl\<lparr>pl_scopes := AList.delete p (pl_scopes pl)\<rparr>) x \<longleftrightarrow> opened pl x \<and> x \<noteq> p"
  by (auto simp: opened_def has_key_delete)

lemma drop_entry_core:
  "views (drop_entry f p ls) = views ls" "sl_next (drop_entry f p ls) = sl_next ls" "sl_stopping (drop_entry f p ls) = sl_stopping ls"
  "sl_scopes (drop_entry f p ls) = AList.delete p (sl_scopes ls)" "sl_tracks (drop_entry f p ls) = sl_tracks ls"
  "sl_handlers (drop_entry f p ls) = AList.delete p (sl_handlers ls)"
  by (auto simp: drop_entry_def disarmScopeHandlers_def report_def Let_def split: sum.split)

lemma drop_entry_wf: "wf_loop ls \<Longrightarrow> wf_loop (drop_entry f p ls)"
  using watches_delete[of p "sl_handlers ls"] wf_loopD[of ls]
  by (intro wf_loopI) (auto simp only: drop_entry_core delete_conv' distinct_delete fun_upd_def split: if_splits)

lemma drop_entry_plane:
  "sl_plane (drop_entry f p ls) = (case CloseScope (sl_plane ls) p of Inl _ \<Rightarrow> sl_plane ls | Inr pl \<Rightarrow> pl)"
  by (auto simp: drop_entry_def disarmScopeHandlers_def report_def Let_def split: sum.split)

text \<open>Deepest first, every close succeeds.\<close>

lemma fold_drop:
  assumes "sorted_wrt (\<lambda>a b. length b \<le> length a) ps" and "distinct ps"
    and "\<And>p. p \<in> set ps \<Longrightarrow> opened (sl_plane ls) p \<and> p \<noteq> pl_root (sl_plane ls) \<and> checkContained (sl_plane ls) p = Inr ()"
    and "\<And>p x. p \<in> set ps \<Longrightarrow> opened (sl_plane ls) x \<Longrightarrow> prefix (p @ [slash]) x \<Longrightarrow> x \<in> set ps"
  shows "(\<forall>x. opened (sl_plane (fold (\<lambda>p. drop_entry (f p) p) ps ls)) x \<longleftrightarrow> opened (sl_plane ls) x \<and> x \<notin> set ps) \<and>
         pl_root (sl_plane (fold (\<lambda>p. drop_entry (f p) p) ps ls)) = pl_root (sl_plane ls)"
  using assms
proof (induction ps arbitrary: ls)
  case (Cons p ps)
  have "\<not> prefix (p @ [slash]) x" if "opened (sl_plane ls) x" for x
  proof
    assume pre: "prefix (p @ [slash]) x"
    have "x \<in> set (p # ps)" using Cons.prems(4)[of p x] that pre by simp
    then have "length x \<le> length p" using Cons.prems(1) by auto
    then show False using prefix_length_le[OF pre] by simp
  qed
  then have cl: "CloseScope (sl_plane ls) p = Inr ((sl_plane ls)\<lparr>pl_scopes := AList.delete p (pl_scopes (sl_plane ls))\<rparr>)"
    using Cons.prems(3)[of p] by (intro CloseScope_ok) auto
  let ?m = "drop_entry (f p) p ls"
  have pl: "sl_plane ?m = (sl_plane ls)\<lparr>pl_scopes := AList.delete p (pl_scopes (sl_plane ls))\<rparr>" by (simp add: drop_entry_plane cl)
  have "(\<forall>x. opened (sl_plane (fold (\<lambda>p. drop_entry (f p) p) ps ?m)) x \<longleftrightarrow> opened (sl_plane ?m) x \<and> x \<notin> set ps) \<and>
        pl_root (sl_plane (fold (\<lambda>p. drop_entry (f p) p) ps ?m)) = pl_root (sl_plane ?m)"
  proof (rule Cons.IH)
    have cc: "checkContained (sl_plane ?m) q = checkContained (sl_plane ls) q" for q by (rule checkContained_root) (simp add: pl)
    show "opened (sl_plane ?m) q \<and> q \<noteq> pl_root (sl_plane ?m) \<and> checkContained (sl_plane ?m) q = Inr ()" if "q \<in> set ps" for q
      using Cons.prems(2) Cons.prems(3)[of q] that by (simp only: cc) (auto simp: pl opened_delete)
    show "x \<in> set ps" if "q \<in> set ps" "opened (sl_plane ?m) x" "prefix (q @ [slash]) x" for q x
      using Cons.prems(4)[of q x] that by (auto simp: pl opened_delete)
  qed (use Cons.prems(1,2) in auto)
  then show ?case by (auto simp: pl opened_delete)
qed simp

lemma deepest_first_sorted: "sorted_wrt (\<lambda>a b. length b \<le> length a) (deepest_first ps)" "set (deepest_first ps) = set ps"
  "distinct ps \<Longrightarrow> distinct (deepest_first ps)"
proof -
  have "sorted (map length (sort_key length ps))" by simp
  then show "sorted_wrt (\<lambda>a b. length b \<le> length a) (deepest_first ps)"
    by (simp add: deepest_first_def sorted_wrt_rev sorted_wrt_map[symmetric])
qed (simp_all add: deepest_first_def)

lemma fold_drop_core:
  "views (fold (\<lambda>p. drop_entry (f p) p) ps ls) = views ls \<and> sl_next (fold (\<lambda>p. drop_entry (f p) p) ps ls) = sl_next ls \<and>
   sl_stopping (fold (\<lambda>p. drop_entry (f p) p) ps ls) = sl_stopping ls \<and>
   map_of (sl_scopes (fold (\<lambda>p. drop_entry (f p) p) ps ls)) = map_of (sl_scopes ls) |` (- set ps) \<and>
   (wf_loop ls \<longrightarrow> wf_loop (fold (\<lambda>p. drop_entry (f p) p) ps ls))"
proof (induction ps arbitrary: ls)
  case (Cons p ps)
  show ?case using Cons.IH[of "drop_entry (f p) p ls"] drop_entry_core[where f = "f p" and p = p and ls = ls] drop_entry_wf[of ls "f p" p]
    by (auto simp: delete_conv' restrict_map_def fun_eq_iff)
qed (simp add: restrict_map_def)

lemma drop_entries_stopping [simp]: "sl_stopping (drop_entries f sel ls) = sl_stopping ls"
  using fold_drop_core by (auto simp: drop_entries_def)

text \<open>The selected scopes are closed downwards along paths.\<close>

lemma drop_entries_inv:
  assumes i: "scope_inv ls"
    and cl: "\<And>p x. sel p \<Longrightarrow> prefix (p @ [slash]) x \<Longrightarrow> has_key p (sl_scopes ls) \<Longrightarrow> has_key x (sl_scopes ls) \<Longrightarrow> sel x"
  shows "scope_inv (drop_entries f sel ls)"
proof (cases "sl_stopping ls")
  case True then show ?thesis by (simp add: stopping_inv)
next
  case False
  then have w: "wf_loop ls" and g: "good (map_of (sl_scopes ls)) (views ls) (sl_plane ls) (sl_next ls)" using i by (auto simp: scope_inv_def)
  let ?ks = "filter sel (map fst (sl_scopes ls))"
  let ?ps = "deepest_first ?ks"
  have d: "distinct ?ps" using w by (intro deepest_first_sorted(3)) (simp add: wf_loop_def)
  have st: "set ?ps = {p. sel p \<and> has_key p (sl_scopes ls)}" by (auto simp: deepest_first_sorted(2) has_key_def)
  have en: "has_key p (sl_scopes ls) \<longleftrightarrow> map_of (sl_scopes ls) p \<noteq> None" for p by (simp add: has_key_map_of)
  have pl: "(\<forall>x. opened (sl_plane (fold (\<lambda>p. drop_entry (f p) p) ?ps ls)) x \<longleftrightarrow> opened (sl_plane ls) x \<and> x \<notin> set ?ps) \<and>
      pl_root (sl_plane (fold (\<lambda>p. drop_entry (f p) p) ?ps ls)) = pl_root (sl_plane ls)"
  proof (rule fold_drop[OF deepest_first_sorted(1) d])
    show "opened (sl_plane ls) p \<and> p \<noteq> pl_root (sl_plane ls) \<and> checkContained (sl_plane ls) p = Inr ()" if "p \<in> set ?ps" for p
      using that st en goodD(9,10,11)[OF g] by auto
    show "x \<in> set ?ps" if h: "p \<in> set ?ps" "opened (sl_plane ls) x" "prefix (p @ [slash]) x" for p x
    proof -
      have kp: "sel p" "has_key p (sl_scopes ls)" using h(1) st by auto
      obtain ep where ep: "map_of (sl_scopes ls) p = Some ep" using kp(2) en by auto
      have "x \<noteq> pl_root (sl_plane ls)" using h(3) contained_below_root[OF g ep] by (auto dest!: prefix_length_le)
      then have "has_key x (sl_scopes ls)" using h(2) goodD(10)[OF g, of x] en by auto
      then show ?thesis using cl[OF kp(1) h(3) kp(2)] st by auto
    qed
  qed
  have "good (map_of (sl_scopes ls) |` (- set ?ps)) (views ls) (sl_plane (fold (\<lambda>p. drop_entry (f p) p) ?ps ls)) (sl_next ls)"
  proof (rule good_drop[OF g])
    show "c \<in> set ?ps" if h: "map_of (sl_scopes ls) c = Some e" "se_parent e \<in> set ?ps" for c e
    proof -
      have kp: "sel (se_parent e)" "has_key (se_parent e) (sl_scopes ls)" "has_key c (sl_scopes ls)" using h st en by auto
      obtain seg where seg: "c = se_parent e @ slash # seg" using goodD(8)[OF g h(1)] by blast
      have "prefix (se_parent e @ [slash]) (se_parent e @ slash # seg)" by (rule prefixI[of _ _ seg]) simp
      then have "prefix (se_parent e @ [slash]) c" using seg by simp
      then show ?thesis using cl[OF kp(1) _ kp(2,3)] kp(3) st by simp
    qed
    show "pl_root (sl_plane ls) \<notin> set ?ps" using goodD(9)[OF g] st en by auto
    show "checkContained (sl_plane (fold (\<lambda>p. drop_entry (f p) p) ?ps ls)) x = checkContained (sl_plane ls) x" for x
      by (rule checkContained_root) (use pl in blast)
  qed (use pl in blast)+
  then show ?thesis using fold_drop_core[of f ?ps ls] w False by (simp add: scope_inv_def drop_entries_def)
qed

lemma cancelScope_stopping [simp]: "sl_stopping (cancelScope f path ls) = sl_stopping ls"
  by (simp add: cancelScope_def stop_tracks_def discardLedgers_def)

lemma cancelScope_inv:
  assumes "scope_inv ls"
  shows "scope_inv (cancelScope f path ls)"
proof -
  have "scope_inv (stop_tracks (\<lambda>i t. underScope (st_scopePath t) path) (discardLedgers path ls))"
    by (rule same_coreD[OF same_core_stop_tracks same_coreD[OF same_core_discard assms]])
  then have "scope_inv (drop_entries f (\<lambda>p. underScope p path) (stop_tracks (\<lambda>i t. underScope (st_scopePath t) path) (discardLedgers path ls)))"
    by (rule drop_entries_inv) (auto simp: underScope_prefix dest: prefix_order.trans append_prefixD)
  then show ?thesis using assms by (simp add: cancelScope_def)
qed

lemma interrupt_inv:
  assumes i: "scope_inv ls" and keep: "keep = path @ slash # seg" "slash \<notin> set seg"
  shows "scope_inv (interruptScopeSiblings path k keep ls)"
  unfolding interruptScopeSiblings_def
proof (rule drop_entries_inv)
  show "scope_inv (stop_tracks (\<lambda>i t. i \<noteq> k \<and> \<not> underScope (st_scopePath t) keep \<and> underScope (st_scopePath t) path) ls)"
    by (rule same_coreD[OF same_core_stop_tracks i])
  fix p x assume p: "length path < length p \<and> underScope p path \<and> \<not> underScope p keep" and x: "prefix (p @ [slash]) x"
  have pp: "prefix (path @ [slash]) p" using p by (auto simp: underScope_prefix)
  have xp: "prefix (path @ [slash]) x" using pp x by (meson append_prefixD prefix_order.trans)
  have "\<not> underScope x keep"
  proof
    assume "underScope x keep"
    then have "prefix keep x" by (auto simp: underScope_prefix dest: append_prefixD)
    moreover have "prefix p x" using x by (rule append_prefixD)
    ultimately consider "prefix p keep" | "prefix keep p" using prefix_same_cases by blast
    then show False
    proof cases
      case 1
      show False
      proof (cases "p = keep")
        case True then show False using p by (simp add: underScope_def)
      next
        case False
        then have "prefix (p @ [slash]) keep" using 1 x \<open>prefix keep x\<close>
          by (metis append_one_prefix linorder_not_less nth_append_length prefix_length_less prefix_length_prefix prefix_order.le_neq_trans
              length_append_singleton Suc_leI)
        then have "prefix (p @ [slash]) (path @ slash # seg)" using keep(1) by simp
        then have "path = p \<or> prefix (p @ [slash]) path" using below_parent keep(2) by blast
        then show False using p by (auto dest!: prefix_length_le)
      qed
    next
      case 2
      then have "p = keep \<or> prefix (keep @ [slash]) p"
      proof (cases "p = keep")
        case False
        then show ?thesis using 2 \<open>underScope x keep\<close> \<open>prefix p x\<close>
          by (metis (no_types, lifting) Suc_leI length_append_singleton prefix_length_prefix prefix_order.antisym_conv2 prefix_length_less
              underScope_prefix prefix_order.less_le_not_le)
      qed simp
      then show False using p by (auto simp: underScope_prefix)
    qed
  qed
  then show "length path < length x \<and> underScope x path \<and> \<not> underScope x keep"
    using xp by (auto simp: underScope_prefix dest: prefix_length_le)
qed

section \<open>What spawning leaves alone\<close>

definition grows :: "'v scope_loop \<Rightarrow> 'v scope_loop \<Rightarrow> bool" where
  "grows ls ls' \<longleftrightarrow>
     sl_stopping ls' \<or>
     (\<forall>i v. map_of (views ls) i = Some v \<longrightarrow> map_of (views ls') i = Some v) \<and>
     (\<forall>c e. map_of (sl_scopes ls) c = Some e \<longrightarrow> (\<exists>e'. map_of (sl_scopes ls') c = Some e' \<and> se_ptr e' = se_ptr e)) \<and>
     pl_root (sl_plane ls') = pl_root (sl_plane ls)"

lemma grows_refl [simp]: "grows ls ls"
  by (simp add: grows_def)

lemma grows_trans: "grows a b \<Longrightarrow> grows b c \<Longrightarrow> (sl_stopping b \<Longrightarrow> sl_stopping c) \<Longrightarrow> grows a c"
  unfolding grows_def by (metis (no_types, lifting))

lemma same_core_grows: "same_core ls ls' \<Longrightarrow> grows ls ls'"
  by (auto simp: same_core_def grows_def)

lemma grows_stop: "sl_stopping ls' \<Longrightarrow> grows ls ls'"
  by (simp add: grows_def)

lemma add_track_grows: "grows ls (add_track n path seg a b ls)"
  by (auto simp: grows_def add_track_def incScope_def Let_def views_def update_conv' map_add_def split: option.split)

lemma OpenScope_root: "OpenScope p c = Inr p' \<Longrightarrow> pl_root p' = pl_root p"
  by (auto simp: OpenScope_def split: sum.splits if_splits)

lemma open_entry_grows: "grows ls (fst (open_entry env host n ls))"
proof (cases rule: open_entry_cases[of env host n ls])
  case (queue t c e) then show ?thesis by (auto simp: grows_def update_conv')
next
  case (new t c p1 p3)
  then show ?thesis using OpenScope_root[OF new(5)] by (auto simp: grows_def update_conv' wait_for_def report_def views_def)
qed (simp_all add: grows_stop same_core_grows)

lemma arm_grows: "grows ls (armScopeHandlers env nodes path ls)"
  by (auto simp: armScopeHandlers_def grows_def split: sum.splits)

lemma spawn_grows:
  "grows ls (spawn env n path seg a b ls)" "grows ls (onScopeOpen env host n ls)" "grows ls (seedScope env cpath ns ls)"
proof (induction env n path seg a b ls and env host n ls and env cpath ns ls rule: spawn_onScopeOpen_seedScope.induct)
  case (1 env n path seg a b ls)
  let ?w = "wait_for (sl_next ls) (add_track n path seg a b ls)"
  have w: "grows ls ?w" by (rule grows_trans[OF add_track_grows same_core_grows[OF same_core_wait]]) (simp add: wait_for_def)
  show ?case
  proof (cases "is_scopeHost n \<and> \<not> fn_own n")
    case True
    have "grows ?w (onScopeOpen env (sl_next ls) n ?w)" using 1[OF refl True] by simp
    then show ?thesis using True grows_trans[OF w _ spawn_stopping(2)] by (simp add: spawn.simps Let_def)
  next
    case False then show ?thesis by (auto simp: spawn.simps Let_def add_track_grows)
  qed
next
  case (2 env host n ls)
  show ?case
  proof (cases "open_entry env host n ls")
    case (Pair ls1 r)
    have o: "grows ls ls1" using open_entry_grows[of ls env host n] Pair by simp
    show ?thesis
    proof (cases r)
      case None then show ?thesis using Pair o by (simp add: onScopeOpen.simps)
    next
      case (Some cpath)
      have "grows ls1 (seedScope env cpath (seeds_of n) ls1)" using 2[OF Pair[symmetric] Some] .
      then have "grows ls (seedScope env cpath (seeds_of n) ls1)" by (rule grows_trans[OF o]) (rule spawn_stopping(3))
      then show ?thesis using Pair Some grows_trans[OF _ arm_grows arm_stopping] by (simp add: onScopeOpen.simps)
    qed
  qed
next
  case (4 env cpath n ns ls)
  show ?case
  proof (cases "ev_newTrack env n")
    case None
    then show ?thesis using grows_trans[OF 4(1)[OF None] 4(2)[OF None] spawn_stopping(3)] by simp
  qed (simp add: grows_stop)
qed simp

lemma stands_grows:
  assumes "grows ls ls'" and "\<not> sl_stopping ls'"
    and "stands (pl_root (sl_plane ls)) (map_of (sl_scopes ls)) (views ls) pa h"
  shows "stands (pl_root (sl_plane ls')) (map_of (sl_scopes ls')) (views ls') pa h"
  using assms unfolding stands_def grows_def by metis

lemma stands_fit:
  assumes g: "good (map_of (sl_scopes ls)) (views ls) (sl_plane ls) nx"
    and s: "stands (pl_root (sl_plane ls)) (map_of (sl_scopes ls)) (views ls) pa h"
  shows "fit h ls"
  using s goodD(9)[OF g] by (auto simp: stands_def fit_def map_of_views)

section \<open>Resuming and completing\<close>

text \<open>The hosts still queued on an entry that has left the registry.\<close>

definition queued_stand :: "scopeEntry \<Rightarrow> 'v scope_loop \<Rightarrow> bool" where
  "queued_stand e ls \<longleftrightarrow>
     (\<forall>h \<in> set (se_queue e). stands (pl_root (sl_plane ls)) (map_of (sl_scopes ls)) (views ls) (se_parent e) h)"

lemma resume_stopping: "sl_stopping ls \<Longrightarrow> sl_stopping (resumeScopeHost env path e ls)"
proof -
  assume s: "sl_stopping ls"
  have d: "sl_stopping (deliver (se_host e) ls)" using s same_core_deliver[of ls] by (auto simp: same_core_def)
  then have "sl_stopping (onScopeOpen env h (se_node e) (deliver (se_host e) ls))" for h by (rule spawn_stopping(2))
  then show ?thesis using d by (auto simp: resumeScopeHost_def Let_def split: list.split option.split)
qed

lemma resume_inv:
  assumes i: "scope_inv ls" and e: "wfn (se_node e)" "\<exists>seg. path = se_parent e @ slash # seg \<and> slash \<notin> set seg" and q: "queued_stand e ls"
  shows "scope_inv (resumeScopeHost env path e ls)"
proof (cases "sl_stopping ls")
  case True then show ?thesis by (intro stopping_inv resume_stopping)
next
  case ns: False
  let ?d = "deliver (se_host e) ls"
  have d: "scope_inv ?d" by (rule same_coreD[OF same_core_deliver i])
  show ?thesis
  proof (cases "fn_own (se_node e) \<or> se_queue e = []")
    case True then show ?thesis using d by (auto simp: resumeScopeHost_def Let_def split: list.split)
  next
    case False
    then obtain next1 rest where qs: "se_queue e = next1 # rest" by (cases "se_queue e") auto
    have gr: "grows ls ?d" by (rule same_core_grows[OF same_core_deliver])
    have nd: "\<not> sl_stopping ?d" using ns same_core_deliver[of ls "se_host e"] by (simp add: same_core_def)
    then have gd: "good (map_of (sl_scopes ?d)) (views ?d) (sl_plane ?d) (sl_next ?d)" using d by (simp add: scope_inv_def)
    have st: "stands (pl_root (sl_plane ?d)) (map_of (sl_scopes ?d)) (views ?d) (se_parent e) h" if "h \<in> set (se_queue e)" for h
      using q that by (intro stands_grows[OF gr nd]) (simp add: queued_stand_def)
    let ?o = "onScopeOpen env next1 (se_node e) ?d"
    have o: "scope_inv ?o" by (rule spawn_inv(2)[OF d stands_fit[OF gd st] e(1)]) (simp add: qs)
    have "scope_inv (?o\<lparr>sl_scopes := AList.update path (fresh\<lparr>se_queue := rest\<rparr>) (sl_scopes ?o)\<rparr>)"
      if fr: "map_of (sl_scopes ?o) path = Some fresh" for fresh
    proof (cases "sl_stopping ?o")
      case no: False
      then have go: "good (map_of (sl_scopes ?o)) (views ?o) (sl_plane ?o) (sl_next ?o)" and wo: "wf_loop ?o" using o by (auto simp: scope_inv_def)
      have "se_parent fresh = se_parent e" using goodD(8)[OF go fr] e(2) same_split by metis
      then have "good ((map_of (sl_scopes ?o))(path \<mapsto> fresh\<lparr>se_queue := rest\<rparr>)) (views ?o) (sl_plane ?o) (sl_next ?o)"
        using stands_grows[OF spawn_grows(2) no st] qs by (intro good_entry[OF go fr]) auto
      moreover have "wf_loop (?o\<lparr>sl_scopes := AList.update path (fresh\<lparr>se_queue := rest\<rparr>) (sl_scopes ?o)\<rparr>)"
        by (rule wf_update[OF wo]) (use wo fr in \<open>auto simp: wf_loop_def\<close>)
      ultimately show ?thesis by (simp add: scope_inv_def update_conv')
    qed (simp add: stopping_inv)
    then show ?thesis using False qs o by (auto simp: resumeScopeHost_def Let_def split: option.split)
  qed
qed

lemma appendLedgerEntry_core:
  "sl_stopping (appendLedgerEntry env p act h es fo snap ls) \<or> same_core ls (appendLedgerEntry env p act h es fo snap ls)"
  by (auto simp: appendLedgerEntry_def same_core_def report_def split: option.splits sum.splits)

lemma recordScope_core:
  "sl_stopping (recordScopeCompletion env p e ls) \<or> same_core ls (recordScopeCompletion env p e ls)"
proof -
  have d: "same_core ls (ls\<lparr>sl_ledgers := AList.delete p (sl_ledgers ls)\<rparr>)" by (simp add: same_core_def)
  show ?thesis unfolding recordScopeCompletion_def Let_def
    using appendLedgerEntry_core same_core_trans[OF d] d by (auto split: option.split) blast+
qed

lemma recordLeaf_inv:
  assumes i: "scope_inv ls"
  shows "scope_inv (recordLeafCompletion env path n snap ls)"
proof -
  have "scope_inv (appendLedgerEntry env path (fn_ID n) h False [] snap ls)" for h
    using appendLedgerEntry_core[of env path "fn_ID n" h False "[]" snap ls] stopping_inv same_coreD[OF _ i] by blast
  then show ?thesis using i by (simp add: recordLeafCompletion_def split: option.split)
qed

lemma CloseScope_shape: "CloseScope pl p = Inr pl' \<Longrightarrow> pl' = pl\<lparr>pl_scopes := AList.delete p (pl_scopes pl)\<rparr>"
  by (auto simp: CloseScope_def split: sum.splits if_splits)

lemma completeScope_stopping: "sl_stopping ls \<Longrightarrow> sl_stopping (completeScope env path e ls)"
proof -
  assume s: "sl_stopping ls"
  have r: "sl_stopping (recordScopeCompletion env path e ls)" using recordScope_core[of env path e ls] s by (auto simp: same_core_def)
  show ?thesis unfolding completeScope_def Let_def
    by (auto split: sum.split intro!: resume_stopping simp: report_def disarmScopeHandlers_def r)
qed

lemma stands_drop:
  "stands root sc vs pa h \<Longrightarrow> pa \<notin> D \<Longrightarrow> stands root (sc |` (- D)) vs pa h"
  by (auto simp: stands_def)

lemma completeScope_inv:
  assumes i: "scope_inv ls" and e: "map_of (sl_scopes ls) path = Some e" and z: "se_active e \<le> 0"
  shows "scope_inv (completeScope env path e ls)"
proof (cases "sl_stopping ls \<or> sl_stopping (recordScopeCompletion env path e ls)")
  case True
  let ?r = "recordScopeCompletion env path e ls"
  have r: "sl_stopping ?r" using True recordScope_core[of env path e ls] by (auto simp: same_core_def)
  then have "sl_stopping (completeScope env path e ls)" unfolding completeScope_def Let_def
    by (auto split: sum.split intro!: resume_stopping simp: report_def disarmScopeHandlers_def)
  then show ?thesis by (rule stopping_inv)
next
  case False
  let ?r = "recordScopeCompletion env path e ls"
  have sc: "same_core ls ?r" using False recordScope_core[of env path e ls] by blast
  have r: "scope_inv ?r" by (rule same_coreD[OF sc i])
  then have g: "good (map_of (sl_scopes ?r)) (views ?r) (sl_plane ?r) (sl_next ?r)" and w: "wf_loop ?r" using False by (auto simp: scope_inv_def)
  have e': "map_of (sl_scopes ?r) path = Some e" using e sc by (simp add: same_core_def)
  have c0: "counted (se_ptr e) (views ?r) = 0" using goodD(5)[OF g e'] z by simp
  obtain pl where pl: "CloseScope (sl_plane ?r) path = Inr pl" using drained_closes[OF g e' c0] by blast
  have pls: "opened pl x \<longleftrightarrow> opened (sl_plane ?r) x \<and> x \<noteq> path" "pl_root pl = pl_root (sl_plane ?r)" for x
    using CloseScope_shape[OF pl] by (simp_all add: opened_delete)
  let ?m = "?r\<lparr>sl_plane := pl, sl_scopes := AList.delete path (sl_scopes ?r)\<rparr>"
  obtain seg where seg: "path = se_parent e @ slash # seg" "slash \<notin> set seg" using goodD(8)[OF g e'] by blast
  have gm: "good (map_of (sl_scopes ?r) |` (- {path})) (views ?r) pl (sl_next ?r)"
  proof (rule good_drop[OF g])
    show "c \<in> {path}" if h: "map_of (sl_scopes ?r) c = Some ec" "se_parent ec \<in> {path}" for c ec
    proof -
      obtain sg where "c = path @ slash # sg" using goodD(8)[OF g h(1)] h(2) by auto
      then have "prefix (path @ [slash]) c" by (auto intro: prefixI[of _ _ sg])
      then show ?thesis using open_child_counted[OF g e' h(1)] c0 by simp
    qed
    show "pl_root (sl_plane ?r) \<notin> {path}" using goodD(9)[OF g] e' by auto
    show "checkContained pl x = checkContained (sl_plane ?r) x" for x by (rule checkContained_root[OF pls(2)])
  qed (use pls in auto)
  moreover have md: "map_of (AList.delete path (sl_scopes ?r)) = map_of (sl_scopes ?r) |` (- {path})"
    by (auto simp: delete_conv' restrict_map_def fun_eq_iff)
  moreover have "wf_loop (?r\<lparr>sl_scopes := AList.delete path (sl_scopes ?r)\<rparr>)"
    using w by (auto simp: wf_loop_def delete_conv' distinct_delete split: if_splits)
  ultimately have m: "scope_inv ?m" by (simp add: scope_inv_def wf_loop_def)
  let ?n = "report (FCompleted path) (disarmScopeHandlers path ?m)"
  have n: "scope_inv ?n" by (rule same_coreD[OF same_core_report same_coreD[OF same_core_disarm m]])
  have "queued_stand e ?n" unfolding queued_stand_def
  proof
    fix h assume h: "h \<in> set (se_queue e)"
    have "stands (pl_root (sl_plane ?r)) (map_of (sl_scopes ?r) |` (- {path})) (views ?r) (se_parent e) h"
      by (rule stands_drop[OF goodD(7)[OF g e']]) (use h seg in auto)
    then show "stands (pl_root (sl_plane ?n)) (map_of (sl_scopes ?n)) (views ?n) (se_parent e) h"
      using pls(2) by (simp add: report_def disarmScopeHandlers_def md)
  qed
  then have "scope_inv (resumeScopeHost env path e ?n)"
    using n seg w e' by (intro resume_inv) (auto simp: wf_loop_def)
  then show ?thesis using pl by (simp add: completeScope_def Let_def)
qed

lemma cancelScope_frame:
  "views (cancelScope f path ls) = views ls"
  "map_of (sl_scopes (cancelScope f path ls)) c =
     (if has_key path (sl_scopes ls) \<and> underScope c path then None else map_of (sl_scopes ls) c)"
proof -
  let ?s = "stop_tracks (\<lambda>i t. underScope (st_scopePath t) path) (discardLedgers path ls)"
  have sc: "same_core ls ?s" by (rule same_core_trans[OF same_core_discard same_core_stop_tracks])
  note fd = fold_drop_core[of f "deepest_first (filter (\<lambda>p. underScope p path) (map fst (sl_scopes ?s)))" ?s]
  show "views (cancelScope f path ls) = views ls" using fd sc by (auto simp: cancelScope_def drop_entries_def same_core_def)
  have "c \<notin> fst ` set (sl_scopes ls) \<Longrightarrow> map_of (sl_scopes ls) c = None" by (simp add: map_of_eq_None_iff)
  then show "map_of (sl_scopes (cancelScope f path ls)) c =
      (if has_key path (sl_scopes ls) \<and> underScope c path then None else map_of (sl_scopes ls) c)"
    using fd sc by (auto simp: cancelScope_def drop_entries_def same_core_def restrict_map_def deepest_first_sorted(2))
qed

lemma CloseScope_root: "CloseScope p c = Inr p' \<Longrightarrow> pl_root p' = pl_root p"
  by (auto simp: CloseScope_def split: sum.splits if_splits)

lemma cancelScope_root: "pl_root (sl_plane (cancelScope f path ls)) = pl_root (sl_plane ls)"
proof -
  have "pl_root (sl_plane (fold (\<lambda>p. drop_entry (f p) p) ps l)) = pl_root (sl_plane l)" for ps and l :: "'a scope_loop"
    by (induction ps arbitrary: l) (auto simp: drop_entry_plane CloseScope_root split: sum.split)
  then show ?thesis by (simp add: cancelScope_def drop_entries_def stop_tracks_def discardLedgers_def)
qed

lemma terminateScope_inv:
  assumes i: "scope_inv ls"
  shows "scope_inv (terminateScope env path ls)"
proof (cases "map_of (sl_scopes ls) path")
  case None then show ?thesis using i by (simp add: terminateScope_def)
next
  case (Some e)
  show ?thesis
  proof (cases "sl_stopping ls")
    case True then show ?thesis using Some by (simp add: terminateScope_def stopping_inv resume_stopping)
  next
    case False
    then have g: "good (map_of (sl_scopes ls)) (views ls) (sl_plane ls) (sl_next ls)" and w: "wf_loop ls" using i by (auto simp: scope_inv_def)
    obtain seg where seg: "path = se_parent e @ slash # seg" "slash \<notin> set seg" using goodD(8)[OF g Some] by blast
    have up: "\<not> underScope (se_parent e) path" using seg(1) by (auto simp: underScope_prefix dest!: prefix_length_le)
    have "queued_stand e (cancelScope FTerminated path ls)"
      using goodD(7)[OF g Some] up by (auto simp: queued_stand_def stands_def cancelScope_frame cancelScope_root)
    then show ?thesis using Some resume_inv[OF cancelScope_inv[OF i]] seg w by (auto simp: terminateScope_def wf_loop_def)
  qed
qed

section \<open>Forks and sweeps\<close>

definition wf_env :: "'v scope_env \<Rightarrow> bool" where
  "wf_env env \<longleftrightarrow> list_all wfn (ev_nodes env)"

lemma find_node_wf: "find_node i ns = Some n \<Longrightarrow> list_all wfn ns \<Longrightarrow> wfn n"
  by (induction i ns rule: find_node.induct) (auto split: if_splits option.splits)

lemma compNode_wf:
  assumes "wf_env env" and "compensationNodeByID (ev_nodes env) i = Some n"
  shows "wfn n"
proof (cases "find (\<lambda>n. fn_ID n = i) (ev_nodes env)")
  case None
  then have "find_node i (ev_nodes env) = Some n" using assms(2) by (simp add: compensationNodeByID_def)
  then show ?thesis using find_node_wf assms(1) by (auto simp: wf_env_def)
next
  case (Some m)
  then have "n \<in> set (ev_nodes env)" using assms(2) find_set by (auto simp: compensationNodeByID_def)
  then show ?thesis using assms(1) by (simp add: wf_env_def list_all_iff)
qed

lemma targets_wf: "wf_env env \<Longrightarrow> list_all wfn (targets env b)"
  by (auto simp: targets_def map_filter_def list_all_iff dest: compNode_wf)

lemma spawnForks_inv: "scope_inv ls \<Longrightarrow> list_all wfn ns \<Longrightarrow> scope_inv (spawnForks env path ns ls)"
  by (induction env path ns ls rule: spawnForks.induct) (auto simp: stopping_inv spawn_inv(1) split: option.split)

lemma spawnForks_stopping: "sl_stopping ls \<Longrightarrow> sl_stopping (spawnForks env path ns ls)"
  by (induction env path ns ls rule: spawnForks.induct) (auto simp: spawn_stopping(1) split: option.split)

lemma finalize_inv: "scope_inv ls \<Longrightarrow> wf_env env \<Longrightarrow> scope_inv (finalizeTransaction env path ls)"
  unfolding finalizeTransaction_def Let_def
  by (auto split: option.split intro!: same_coreD[OF same_core_cancel_host] spawnForks_inv cancelScope_inv targets_wf)

lemma finishSweep_inv: "scope_inv ls \<Longrightarrow> wf_env env \<Longrightarrow> scope_inv (finishSweep env sw ls)"
  by (auto simp: finishSweep_def finalize_inv same_coreD[OF same_core_deliver] split: option.split)

lemma inv_sweeps [simp]: "scope_inv (ls\<lparr>sl_sweeps := x\<rparr>) = scope_inv ls" "scope_inv (ls\<lparr>sl_ledgers := y\<rparr>) = scope_inv ls"
  by (auto simp: scope_inv_def)

lemma runNext_inv: "scope_inv ls \<Longrightarrow> wf_env env \<Longrightarrow> scope_inv (runNextCompensation env sw ls)"
  by (auto simp: runNextCompensation_def Let_def finishSweep_inv stopping_inv same_coreD[OF same_core_report] compNode_wf
      split: list.split option.split intro!: spawn_inv(1))

lemma applyCompensate_inv: "scope_inv ls \<Longrightarrow> wf_env env \<Longrightarrow> scope_inv (applyCompensate env i ref wait ls)"
  by (auto simp: applyCompensate_def Let_def same_coreD[OF same_core_report] same_coreD[OF same_core_wait]
      split: prod.split intro!: finishSweep_inv runNext_inv)

lemma compEnded_inv: "scope_inv ls \<Longrightarrow> wf_env env \<Longrightarrow> scope_inv (compensationTrackEnded env i failed ls)"
  by (auto simp: compensationTrackEnded_def Let_def same_coreD[OF same_core_report]
      split: prod.split option.split intro!: finishSweep_inv runNext_inv)

lemma entry_flag_inv:
  assumes i: "scope_inv ls" and c: "map_of (sl_scopes ls) c = Some e"
    and e': "se_ptr e' = se_ptr e" "se_host e' = se_host e" "se_parent e' = se_parent e" "se_active e' = se_active e"
      "se_queue e' = se_queue e" "se_node e' = se_node e"
  shows "scope_inv (ls\<lparr>sl_scopes := AList.update c e' (sl_scopes ls)\<rparr>)"
proof (cases "sl_stopping ls")
  case False
  then have g: "good (map_of (sl_scopes ls)) (views ls) (sl_plane ls) (sl_next ls)" and w: "wf_loop ls" using i by (auto simp: scope_inv_def)
  have "good ((map_of (sl_scopes ls))(c \<mapsto> e')) (views ls) (sl_plane ls) (sl_next ls)"
    using goodD(7)[OF g c] e' by (intro good_entry[OF g c]) auto
  moreover have "wf_loop (ls\<lparr>sl_scopes := AList.update c e' (sl_scopes ls)\<rparr>)"
    by (rule wf_update[OF w]) (use w c e'(6) in \<open>auto simp: wf_loop_def\<close>)
  ultimately show ?thesis by (simp add: scope_inv_def update_conv')
qed (simp add: stopping_inv)

lemma cancelTransaction_inv: "scope_inv ls \<Longrightarrow> wf_env env \<Longrightarrow> scope_inv (cancelTransaction env i ls)"
  by (auto simp: cancelTransaction_def Let_def same_coreD[OF same_core_report] entry_flag_inv
      split: prod.split option.split intro!: finishSweep_inv runNext_inv)

section \<open>The end of a track\<close>

text \<open>
  The track is live, is neither the host of an open scope nor queued for one, and the entry registered at its path, if
  there is one, is the entry that counted it.
\<close>

definition leaves_tidily :: "nat \<Rightarrow> 'v scope_loop \<Rightarrow> bool" where
  "leaves_tidily i ls \<longleftrightarrow>
     map_of (sl_tracks ls) i \<noteq> None \<and> fit i ls \<and>
     (\<forall>c e. map_of (sl_scopes ls) c = Some e \<longrightarrow> i \<noteq> se_host e \<and> i \<notin> set (se_queue e))"

lemma views_ended: "views (upd_strack i (\<lambda>t. t\<lparr>st_live := False\<rparr>) ls) = end_view i (views ls)"
  by (auto simp: upd_strack_def views_def end_view_def)

lemma ended_frame:
  "sl_scopes (upd_strack i f ls) = sl_scopes ls" "sl_plane (upd_strack i f ls) = sl_plane ls" "sl_next (upd_strack i f ls) = sl_next ls"
  "sl_stopping (upd_strack i f ls) = sl_stopping ls"
  by (simp_all add: upd_strack_def)

lemma decScope_stopping: "sl_stopping ls \<Longrightarrow> sl_stopping (decScope env p ls)"
  by (auto simp: decScope_def Let_def completeScope_stopping split: option.split)

lemma end_inv:
  assumes i: "scope_inv ls" and lt: "leaves_tidily i ls"
  shows "scope_inv (decScope env (scope_path i ls) (upd_strack i (\<lambda>t. t\<lparr>st_live := False\<rparr>) (ls\<lparr>sl_active := k\<rparr>)))"
    (is "scope_inv (decScope env ?p ?u)")
proof (cases "sl_stopping ls")
  case True then show ?thesis by (intro stopping_inv decScope_stopping) (simp add: ended_frame)
next
  case False
  then have g: "good (map_of (sl_scopes ls)) (views ls) (sl_plane ls) (sl_next ls)" and w: "wf_loop ls" using i by (auto simp: scope_inv_def)
  obtain t where t: "map_of (sl_tracks ls) i = Some t" using lt by (auto simp: leaves_tidily_def)
  have p: "?p = st_scopePath t" using t by (simp add: scope_path_def)
  have v: "map_of (views ls) i = Some (?p, True, st_in t)" using lt t p by (auto simp: leaves_tidily_def fit_def map_of_views)
  have vu: "views ?u = end_view i (views ls)" using views_ended[of i "ls\<lparr>sl_active := k\<rparr>"] by simp
  have ge: "good (case map_of (sl_scopes ls) ?p of None \<Rightarrow> map_of (sl_scopes ls)
        | Some e \<Rightarrow> (map_of (sl_scopes ls))(?p \<mapsto> e\<lparr>se_active := se_active e - 1\<rparr>)) (end_view i (views ls)) (sl_plane ls) (sl_next ls)"
    by (rule good_end[OF g v]) (use lt t p in \<open>auto simp: leaves_tidily_def fit_def\<close>)
  have wu: "wf_loop ?u" using w by (auto simp: wf_loop_def upd_strack_def map_of_apsnd)
  show ?thesis
  proof (cases "map_of (sl_scopes ls) ?p")
    case None
    then show ?thesis using ge wu vu by (simp add: decScope_def scope_inv_def ended_frame)
  next
    case (Some e)
    let ?e = "e\<lparr>se_active := se_active e - 1\<rparr>"
    let ?m = "?u\<lparr>sl_scopes := AList.update ?p ?e (sl_scopes ?u)\<rparr>"
    have "wf_loop ?m" by (rule wf_update[OF wu]) (use w Some in \<open>auto simp: wf_loop_def\<close>)
    then have m: "scope_inv ?m" using ge Some vu by (simp add: scope_inv_def ended_frame update_conv')
    have lk: "map_of (sl_scopes ?m) ?p = Some ?e" by (simp add: update_conv')
    have "scope_inv (completeScope env ?p ?e ?m)" if "se_active ?e \<le> 0" by (rule completeScope_inv[OF m lk that])
    moreover have "scope_inv (?m\<lparr>sl_scopes := AList.update ?p (?e\<lparr>se_drainPending := True\<rparr>) (sl_scopes ?m)\<rparr>)"
      by (rule entry_flag_inv[OF m lk]) simp_all
    moreover have "AList.update ?p x (AList.update ?p y l) = AList.update ?p x l" for x y :: scopeEntry and l
      by (induction l) auto
    ultimately show ?thesis using m Some by (auto simp: decScope_def Let_def ended_frame)
  qed
qed

lemma grows_scope_path:
  assumes "grows ls ls'" and "\<not> sl_stopping ls'" and "map_of (sl_tracks ls) i \<noteq> None"
  shows "scope_path i ls' = scope_path i ls"
proof -
  obtain t where t: "map_of (sl_tracks ls) i = Some t" using assms(3) by auto
  then have "map_of (views ls') i = Some (st_scopePath t, st_live t, st_in t)" using assms(1,2) by (auto simp: grows_def map_of_views)
  then show ?thesis using t by (auto simp: scope_path_def map_of_views)
qed

section \<open>Handlers, boundaries and the chains\<close>

lemma inv_plane:
  assumes i: "scope_inv ls" and p: "\<And>x. opened p x \<longleftrightarrow> opened (sl_plane ls) x" "pl_root p = pl_root (sl_plane ls)"
  shows "scope_inv (ls\<lparr>sl_plane := p\<rparr>)"
proof -
  have "good sc vs p nx" if "good sc vs (sl_plane ls) nx" for sc vs nx
    using that p checkContained_root[OF p(2)] unfolding good_def by simp
  then show ?thesis using i by (auto simp: scope_inv_def)
qed

lemma bind_inv: "bindEventPayloadAt env path items ls = Inr ls' \<Longrightarrow> scope_inv ls \<Longrightarrow> scope_inv ls'"
  using inv_plane[OF _ seed_plane_keeps] by (cases "items = []"; cases "seed_plane env path items (sl_plane ls)") (auto simp: bindEventPayloadAt_def)

lemma bind_frame:
  "bindEventPayloadAt env path items ls = Inr ls' \<Longrightarrow> sl_next ls' = sl_next ls \<and> sl_stopping ls' = sl_stopping ls"
  by (auto simp: bindEventPayloadAt_def split: if_splits sum.splits)

lemma digit_noslash:
  assumes "k < (10 :: nat)"
  shows "(char_of (48 + k) :: char) \<noteq> slash"
proof
  assume "char_of (48 + k) = slash"
  then have "of_char (char_of (48 + k) :: char) = (of_char slash :: nat)" by simp
  then show False using assms by simp
qed

lemma show_nat_noslash: "slash \<notin> set (show_nat k)"
proof (induction k rule: show_nat.induct)
  case (1 n)
  then show ?case using digit_noslash[of n] digit_noslash[of "n mod 10"] by (subst show_nat.simps) auto
qed

lemma inv_seq [simp]: "scope_inv (ls\<lparr>sl_handlerSeq := k\<rparr>) = scope_inv ls" "scope_inv (ls\<lparr>sl_interrupted := x\<rparr>) = scope_inv ls"
  by (auto simp: scope_inv_def)

lemma runNonInterrupting_inv:
  assumes i: "scope_inv ls" and w: "wfn (hw_handler w)"
  shows "scope_inv (runNonInterruptingHandler env w payload ls)"
proof -
  have "slash \<notin> set (scopeSegment (hw_handler w) @ ''-'' @ show_nat k)" for k
    using scopeSegment_noslash[OF w] show_nat_noslash[of k] by auto
  then show ?thesis using i w
    by (auto simp: runNonInterruptingHandler_def stopping_inv Let_def split: option.split sum.split intro!: spawn_inv(1) dest: bind_inv)
qed

lemma interrupt_root_inv:
  assumes i: "scope_inv ls" and s: "s \<noteq> []" "slash \<notin> set s"
  shows "scope_inv (interruptScopeSiblings [slash] k (slash # s) ls)"
  unfolding interruptScopeSiblings_def
proof (rule drop_entries_inv)
  show "scope_inv (stop_tracks (\<lambda>i t. i \<noteq> k \<and> \<not> underScope (st_scopePath t) (slash # s) \<and> underScope (st_scopePath t) [slash]) ls)"
    by (rule same_coreD[OF same_core_stop_tracks i])
  fix p x assume p: "length [slash] < length p \<and> underScope p [slash] \<and> \<not> underScope p (slash # s)" and x: "prefix (p @ [slash]) x"
  have "prefix [slash, slash] p" using p by (auto simp: underScope_prefix)
  then have x2: "prefix [slash, slash] x" using x by (meson append_prefixD prefix_order.trans)
  obtain a r where "s = a # r" "a \<noteq> slash" using s by (cases s) auto
  then have "\<not> underScope x (slash # s)" using x2 by (auto simp: underScope_prefix prefix_def)
  then show "length [slash] < length x \<and> underScope x [slash] \<and> \<not> underScope x (slash # s)"
    using x2 by (auto simp: underScope_prefix dest: prefix_length_le)
qed

lemma runScopeHandler_inv:
  assumes i: "scope_inv ls" and w: "wfn (hw_handler w)"
  shows "scope_inv (runScopeHandler env w payload ls)"
proof -
  let ?p = "hw_path w" and ?l = "ls\<lparr>sl_interrupted := List.insert (hw_path w) (sl_interrupted ls)\<rparr>"
  have s: "scope_inv (spawn env (hw_handler w) ?p [] None None l)" if "bindEventPayloadAt env ?p payload ?l = Inr l" for l
    by (rule spawn_inv(1)[OF bind_inv[OF that] w]) (use i in simp_all)
  have nt: "slash \<notin> set (TrimSpace (scopeSegment (hw_handler w)))" by (rule TrimSpace_noslash[OF scopeSegment_noslash[OF w]])
  have it: "scope_inv (interruptScopeSiblings ?p k keep m)" if "scope_inv m" "Append ?p (scopeSegment (hw_handler w)) = Inr keep" for m keep k
  proof (cases "?p = [slash]")
    case True
    have "keep = slash # TrimSpace (scopeSegment (hw_handler w))" "TrimSpace (scopeSegment (hw_handler w)) \<noteq> []"
      using that(2) True by (auto simp: Append_def Let_def split: if_splits sum.splits dest!: NewDataPathD)
    then show ?thesis using True interrupt_root_inv[OF that(1)] nt by simp
  next
    case False
    then show ?thesis using interrupt_inv[OF that(1) Append_shape[OF that(2) False] nt] by simp
  qed
  show ?thesis unfolding runScopeHandler_def Let_def
    by (auto split: sum.split option.split simp: stopping_inv intro!: same_coreD[OF same_core_disarm] it s)
qed

lemma find_in: "find P xs = Some x \<Longrightarrow> x \<in> set xs"
  by (auto simp: find_Some_iff)

lemma fireScopeHandler_inv:
  assumes i: "scope_inv ls"
  shows "scope_inv (fireScopeHandler env n payload ls)"
proof (cases "handlerWatchFor n ls")
  case (Some w)
  have "w \<in> watches (sl_handlers ls)" using find_in[OF Some[unfolded handlerWatchFor_def]] by (auto simp: watches_def)
  then show ?thesis using i Some runNonInterrupting_inv[OF same_coreD[OF same_core_report i]] runScopeHandler_inv[OF same_coreD[OF same_core_report i]]
    by (auto simp: fireScopeHandler_def scope_inv_def[of ls] wf_loop_def stopping_inv)
qed (use i in \<open>simp add: fireScopeHandler_def\<close>)

lemma fireBoundary_inv: "scope_inv ls \<Longrightarrow> wf_env env \<Longrightarrow> scope_inv (fireBoundary env i b ls)"
  unfolding fireBoundary_def cancelHostScope_def Let_def
  by (auto split: option.split intro!: same_coreD[OF same_core_stopped] cancelScope_inv spawnForks_inv targets_wf)

lemma catch_boundary_inv: "scope_inv ls \<Longrightarrow> wf_env env \<Longrightarrow> scope_inv (catch_boundary env path e b ls)"
  unfolding catch_boundary_def Let_def
  by (intro same_coreD[OF same_core_cancel_host] spawnForks_inv cancelScope_inv targets_wf)

lemma chain_handler_wf:
  assumes "scope_inv ls" and "\<not> sl_stopping ls" and "find q (handlers_at path ls) = Some w"
  shows "wfn (hw_handler w)"
proof -
  have "w \<in> set (handlers_at path ls)" using assms(3) by (rule find_in)
  then show ?thesis using assms(1,2) watches_at by (fastforce simp: scope_inv_def wf_loop_def)
qed

lemma error_chain_inv:
  assumes "error_chain n env code path ls = Some (b, ls')" and "scope_inv ls" and "\<not> sl_stopping ls" and "wf_env env"
  shows "scope_inv ls'"
  using assms
proof (induction n arbitrary: path)
  case (Suc n)
  show ?case
  proof (cases "map_of (sl_scopes ls) path")
    case None then show ?thesis using Suc.prems by simp
  next
    case (Some e)
    show ?thesis
    proof (cases "errorHandlerAt path code ls \<noteq> None \<and> path \<notin> set (sl_interrupted ls)")
      case True
      then obtain w where w: "errorHandlerAt path code ls = Some w" by auto
      have "wfn (hw_handler w)" using chain_handler_wf[OF Suc.prems(2,3)] w by (auto simp: errorHandlerAt_def)
      then have "scope_inv (runScopeHandler env w [] (report (FFired (fn_ID (hw_handler w))) ls))"
        by (rule runScopeHandler_inv[OF same_coreD[OF same_core_report Suc.prems(2)]])
      then show ?thesis using Suc.prems(1) Some True w by auto
    next
      case False
      have k: "error_chain (Suc n) env code path ls = (case errorBoundaryOn (se_node e) code of
          Some b \<Rightarrow> Some (True, catch_boundary env path e b ls) | None \<Rightarrow> error_chain n env code (se_parent e) ls)"
        using Some False by (cases "errorHandlerAt path code ls") auto
      show ?thesis
      proof (cases "errorBoundaryOn (se_node e) code")
        case None
        then show ?thesis using Suc.IH[of "se_parent e"] Suc.prems k by simp
      next
        case (Some b1)
        then show ?thesis using Suc.prems(1,2,4) k catch_boundary_inv by auto
      qed
    qed
  qed
qed simp

lemma escalation_chain_inv:
  assumes "escalation_chain n env code path ls = Some (b, ls')" and "scope_inv ls" and "\<not> sl_stopping ls" and "wf_env env"
  shows "scope_inv ls'"
  using assms
proof (induction n env code path ls rule: escalation_chain.induct)
  case (2 n env code path ls)
  obtain c lc where c: "catchEscalationHandler env path code ls = (c, lc)" by fastforce
  have lc: "scope_inv lc" if ct: c
  proof -
    obtain w where w: "escalationHandlerAt path code ls = Some w" using c ct by (auto simp: catchEscalationHandler_def split: option.splits)
    have "wfn (hw_handler w)" using chain_handler_wf[OF 2(3,4)] w by (auto simp: escalationHandlerAt_def)
    then show ?thesis using c ct w runScopeHandler_inv[OF same_coreD[OF same_core_report 2(3)]]
        runNonInterrupting_inv[OF same_coreD[OF same_core_report 2(3)]]
      by (auto simp: catchEscalationHandler_def split: if_splits)
  qed
  have cb: "scope_inv (catchEscalationBoundary env path e b1 ls)" for e b1
    using 2(3,5) catch_boundary_inv spawnForks_inv[OF 2(3) targets_wf[OF 2(5)]] by (auto simp: catchEscalationBoundary_def)
  show ?case
  proof (cases "map_of (sl_scopes ls) path")
    case None then show ?thesis using 2 by simp
  next
    case (Some e)
    show ?thesis
    proof (cases c)
      case True then show ?thesis using 2(2) Some c lc by simp
    next
      case False
      then show ?thesis using 2(1)[OF Some c[symmetric]] 2(2-5) Some c cb by (auto split: option.splits)
    qed
  qed
qed simp

text \<open>The walk up the scopes ends: a parent's path is shorter, so no scope is passed twice.\<close>

lemma error_chain_total:
  assumes g: "good (map_of (sl_scopes ls)) (views ls) (sl_plane ls) nx"
  shows "card {c. has_key c (sl_scopes ls) \<and> length c \<le> length path} < n \<Longrightarrow> error_chain n env code path ls \<noteq> None"
proof (induction n arbitrary: path)
  case (Suc n)
  let ?S = "\<lambda>p. {c. has_key c (sl_scopes ls) \<and> length c \<le> length p}"
  have fin: "finite (?S p)" for p by (rule finite_subset[of _ "fst ` set (sl_scopes ls)"]) (auto simp: has_key_def)
  show ?case
  proof (cases "map_of (sl_scopes ls) path")
    case (Some e)
    obtain seg where "path = se_parent e @ slash # seg" using goodD(8)[OF g Some] by blast
    then have "?S (se_parent e) \<subset> ?S path" using Some by (auto simp: has_key_map_of psubset_eq set_eq_iff intro!: exI[of _ path])
    then have "card (?S (se_parent e)) < card (?S path)" by (rule psubset_card_mono[OF fin])
    then have "error_chain n env code (se_parent e) ls \<noteq> None" using Suc by auto
    then show ?thesis using Some by (auto split: option.split bool.split prod.split)
  qed simp
qed simp

section \<open>Histories\<close>

text \<open>
  The loop applies one event at a time. The premises of \<open>opens\<close>, \<open>ended\<close>, \<open>awaiting\<close> and \<open>caught\<close> say that the track concerned is not
  one that an abandoned scope left behind: the entry now registered at its path is the one that counted it. A host
  parked for its scope does not end by itself.
\<close>

inductive scope_run :: "'v scope_env \<Rightarrow> 'v scope_loop \<Rightarrow> bool" for env where
  start: "Scope_New root rt = Inr pl \<Longrightarrow> root \<noteq> [slash] \<Longrightarrow> list_all wfn ns \<Longrightarrow> scope_run env (spawnForks env root ns (scope_start pl))"
| arm: "scope_run env ls \<Longrightarrow> scope_run env (armScopeHandlers env (ev_nodes env) (pl_root (sl_plane ls)) ls)"
| fork: "scope_run env ls \<Longrightarrow> list_all wfn ns \<Longrightarrow> scope_run env (spawnForks env (scope_path i ls) ns ls)"
| moves: "scope_run env ls \<Longrightarrow> wfn n \<Longrightarrow> scope_run env (move_track i n ls)"
| opens: "scope_run env ls \<Longrightarrow> fit i ls \<Longrightarrow> wfn n \<Longrightarrow> scope_run env (onScopeOpen env i n ls)"
| leaf: "scope_run env ls \<Longrightarrow> scope_run env (recordLeafCompletion env (scope_path i ls) n snap ls)"
| ended: "scope_run env ls \<Longrightarrow> leaves_tidily i (compensationTrackEnded env i False ls) \<Longrightarrow> scope_run env (applyEnded env i ls)"
| awaiting: "scope_run env ls \<Longrightarrow> leaves_tidily i ls \<Longrightarrow> scope_run env (applyAwaiting env i ls)"
| caught: "scope_run env ls \<Longrightarrow> \<not> sl_stopping ls \<Longrightarrow> matchErrorScopeChain env i code ls = Some (True, ls1) \<Longrightarrow> leaves_tidily i ls1 \<Longrightarrow>
    scope_run env (applyFailed_caught env i ls1)"
| failed: "scope_run env ls \<Longrightarrow> scope_run env (fail_stop e (compensationTrackEnded env i True ls))"
| terminate: "scope_run env ls \<Longrightarrow> scope_run env (terminateScope env (scope_path i ls) ls)"
| compensate: "scope_run env ls \<Longrightarrow> scope_run env (applyCompensate env i ref wait ls)"
| cancelTx: "scope_run env ls \<Longrightarrow> scope_run env (cancelTransaction env i ls)"
| fire: "scope_run env ls \<Longrightarrow> scope_run env (fireScopeHandler env n payload ls)"
| boundary: "scope_run env ls \<Longrightarrow> scope_run env (fireBoundary env i b ls)"
| escalate: "scope_run env ls \<Longrightarrow> \<not> sl_stopping ls \<Longrightarrow> escalation_chain k env code (scope_path i ls) ls = Some (b, ls1) \<Longrightarrow> scope_run env ls1"
| stop: "scope_run env ls \<Longrightarrow> scope_run env (halt ls)"

lemma start_inv:
  assumes "Scope_New root rt = Inr pl" and "root \<noteq> [slash]"
  shows "scope_inv (scope_start pl)"
proof -
  have o: "opened pl x \<longleftrightarrow> x = pl_root pl" "pl_root pl = root" for x
    using assms(1) by (auto simp: Scope_New_def opened_def split: sum.splits)
  have "Validate root = Inr ()" using assms(1) by (auto simp: Scope_New_def split: sum.splits)
  then show ?thesis using o assms(2) by (auto simp: scope_inv_def wf_loop_def good_def scope_start_def views_def checkContained_def watches_def)
qed

lemma scope_run_inv: "scope_run env ls \<Longrightarrow> wf_env env \<Longrightarrow> scope_inv ls"
proof (induction rule: scope_run.induct)
  case (start root rt pl ns)
  then show ?case by (intro spawnForks_inv start_inv)
next
  case (arm ls) then show ?case by (intro arm_inv) (auto simp: wf_env_def)
next
  case (ended ls i)
  have "scope_inv (compensationTrackEnded env i False ls)" using ended compEnded_inv by blast
  then show ?case using end_inv[OF _ ended.hyps(2)] by (simp add: applyEnded_def Let_def same_coreD[OF same_core_flip])
next
  case (awaiting ls i)
  then show ?case using end_inv[OF _ awaiting.hyps(2)] by (simp add: applyAwaiting_def)
next
  case (caught ls i code ls1)
  have "scope_inv ls1" using error_chain_inv[OF caught.hyps(3)[unfolded matchErrorScopeChain_def] caught.IH[OF caught.prems] caught.hyps(2) caught.prems] .
  then show ?case using end_inv[OF _ caught.hyps(4)] by (simp add: applyFailed_caught_def same_coreD[OF same_core_flip])
qed (auto intro: move_inv spawnForks_inv spawn_inv(2) recordLeaf_inv terminateScope_inv applyCompensate_inv cancelTransaction_inv
    fireScopeHandler_inv fireBoundary_inv stopping_inv escalation_chain_inv)

end
