(* ===== verification/Scope_Properties.thy ===== *)
theory Scope_Properties
  imports Scope_Invariants
begin

text \<open>
  What the scope machinery guarantees: the accounting of open scopes, the close of a drained one, the walk of an
  error up the scopes and the order of compensation.
\<close>

section \<open>A process to evaluate on\<close>

text \<open>A sub-process with a start and a task, and an Error boundary whose flow leads back to the sub-process.\<close>

definition demo_task :: fnode where
  "demo_task = FNode ''T'' KActivity [] 1 [] [] False"

definition demo_start :: fnode where
  "demo_start = FNode ''B'' (KStart [] False) [] 0 [''T''] [] False"

definition demo_sub :: fnode where
  "demo_sub = FNode ''S'' (KSubProcess False) [demo_start, demo_task] 0 []
     [\<lparr>be_triggers = [TrError ''retry''], be_cancelActivity = True, be_handler = None, be_outgoing = [''S'']\<rparr>] False"

definition demo_env :: "nat scope_env" where
  "demo_env = \<lparr>ev_nodes = [demo_sub], ev_newTrack = (\<lambda>_. None), ev_clone = Inr, ev_deq = (=), ev_dataObjects = (\<lambda>_. []),
               ev_register = (\<lambda>_. True)\<rparr>"

definition demo_plane :: "nat plane" where
  "demo_plane = \<lparr>pl_scopes = [(''/p'', [])], pl_rt = None, pl_root = ''/p'', pl_rtPath = slash # CHR ''p'' # slash # RuntimeVarsSegment\<rparr>"

definition demo_loop :: "nat scope_loop" where
  "demo_loop = spawnForks demo_env ''/p'' [demo_sub] (scope_start demo_plane)"

lemma demo_new: "Scope_New ''/p'' None = Inr demo_plane"
proof -
  have "Validate ''/p'' = Inr ()" "Append ''/p'' RuntimeVarsSegment = Inr (slash # CHR ''p'' # slash # RuntimeVarsSegment)" by code_simp+
  then show ?thesis by (simp add: Scope_New_def demo_plane_def)
qed

lemma demo_wf: "wf_env demo_env" "list_all wfn [demo_sub]"
  by code_simp+

lemma demo_run: "scope_run demo_env demo_loop"
  unfolding demo_loop_def by (rule scope_run.start[OF demo_new _ demo_wf(2)]) simp

definition demo_entry :: scopeEntry where
  "demo_entry = \<lparr>se_ptr = 1, se_host = 0, se_node = demo_sub, se_parent = ''/p'', se_queue = [], se_active = 1,
     se_aborting = False, se_awaitAttach = False, se_drainPending = False\<rparr>"

text \<open>Evaluation of the loop on a concrete process: the paths first, then the operations.\<close>

lemmas scope_eval = spawn.simps onScopeOpen.simps open_entry_def add_track_def scope_start_def incScope_def counter_at_def is_scopeHost_def
  isEventSubHandler_def scopeSegment_def Let_def wait_for_def seedDataObjects_def armScopeHandlers_def report_def seeds_of_def scopeSeeds_def
  is_start_def is_event_def OpenScope_def has_key_def

lemma demo_append: "Append ''/p'' ''sp-S'' = Inr ''/p/sp-S''"
  by code_simp

lemma demo_append_hollow: "Append ''/p'' ''sp-H'' = Inr ''/p/sp-H''"
  by code_simp

lemma demo_tail: "DropTail ''/p/sp-S'' = Inr ''/p''"
  by code_simp

lemma demo_tail_hollow: "DropTail ''/p/sp-H'' = Inr ''/p''"
  by code_simp

lemmas demo_paths = demo_append demo_append_hollow demo_tail demo_tail_hollow

lemma demo_contained:
  "checkContained (demo_plane\<lparr>pl_scopes := xs\<rparr>) ''/p/sp-S'' = Inr ()" "checkContained (demo_plane\<lparr>pl_scopes := xs\<rparr>) ''/p/sp-H'' = Inr ()"
  "checkWritable (demo_plane\<lparr>pl_scopes := xs\<rparr>) ''/p/sp-S'' = Inr ()" "checkWritable (demo_plane\<lparr>pl_scopes := xs\<rparr>) ''/p/sp-H'' = Inr ()"
proof -
  have v: "Validate ''/p/sp-S'' = Inr ()" "Validate ''/p/sp-H'' = Inr ()" by code_simp+
  show "checkContained (demo_plane\<lparr>pl_scopes := xs\<rparr>) ''/p/sp-S'' = Inr ()" "checkContained (demo_plane\<lparr>pl_scopes := xs\<rparr>) ''/p/sp-H'' = Inr ()"
    by (simp_all add: checkContained_def v demo_plane_def)
  show "checkWritable (demo_plane\<lparr>pl_scopes := xs\<rparr>) ''/p/sp-S'' = Inr ()" "checkWritable (demo_plane\<lparr>pl_scopes := xs\<rparr>) ''/p/sp-H'' = Inr ()"
    by (simp_all add: checkWritable_def demo_plane_def RuntimeVarsSegment_def)
qed

lemmas demo_eval = demo_paths demo_contained[unfolded demo_plane_def plane.simps] demo_env_def demo_plane_def demo_sub_def demo_start_def demo_task_def

lemma demo_loop_eq:
  "demo_loop = (scope_start demo_plane)\<lparr>
     sl_scopes := [(''/p/sp-S'', demo_entry)],
     sl_tracks := [(0, \<lparr>st_scopePath = ''/p'', st_scopeSeg = [], st_node = demo_sub, st_live = True, st_in = None, st_stopped = False,
                        st_evtClosed = False, st_compScopeSeed = None, st_compFrameSeed = None\<rparr>),
                   (2, \<lparr>st_scopePath = ''/p/sp-S'', st_scopeSeg = [], st_node = demo_start, st_live = True, st_in = Some 1, st_stopped = False,
                        st_evtClosed = False, st_compScopeSeed = None, st_compFrameSeed = None\<rparr>)],
     sl_waiting := [0], sl_plane := demo_plane\<lparr>pl_scopes := [(''/p'', []), (''/p/sp-S'', [])]\<rparr>, sl_active := 2, sl_next := 3,
     sl_log := [FOpened ''/p/sp-S'']\<rparr>"
  by (simp add: demo_loop_def demo_entry_def scope_eval demo_eval eval_nat_numeral)

lemma demo_lookup: "\<not> sl_stopping demo_loop" "map_of (sl_scopes demo_loop) ''/p/sp-S'' = Some demo_entry"
  by (simp_all add: demo_loop_eq scope_start_def)

section \<open>The accounting of open scopes\<close>

lemma run_good:
  assumes "scope_run env ls" and "wf_env env" and "\<not> sl_stopping ls"
  shows "good (map_of (sl_scopes ls)) (views ls) (sl_plane ls) (sl_next ls)"
  using scope_run_inv[OF assms(1,2)] assms(3) by (simp add: scope_inv_def)

lemma counted_tracks: "counted p (views ls) = length (filter (\<lambda>(i, t). st_live t \<and> st_in t = Some p) (sl_tracks ls))"
  by (simp add: counted_def views_def filter_map comp_def case_prod_unfold)




text \<open>The scope of the demonstration with its only inner task merged into another track, so that nothing is counted in it.\<close>

definition demo_hollow :: fnode where
  "demo_hollow = FNode ''H'' (KSubProcess False) [] 0 [] [] False"

definition demo_drained :: "nat scope_loop" where
  "demo_drained = spawnForks demo_env ''/p'' [demo_hollow] (scope_start demo_plane)"

definition demo_hollow_entry :: scopeEntry where
  "demo_hollow_entry = \<lparr>se_ptr = 1, se_host = 0, se_node = demo_hollow, se_parent = ''/p'', se_queue = [], se_active = 0,
     se_aborting = False, se_awaitAttach = False, se_drainPending = False\<rparr>"


section \<open>Errors on their way up\<close>

text \<open>The walk of an error up the enclosing scopes always comes to an answer, and at the root the answer is no.\<close>

theorem error_walk_answers:
  assumes "scope_run env ls" and "wf_env env" and "\<not> sl_stopping ls"
  shows "\<exists>b ls'. matchErrorScopeChain env i code ls = Some (b, ls')"
proof -
  note g = run_good[OF assms]
  let ?p = "scope_path i ls"
  have "card {c. has_key c (sl_scopes ls) \<and> length c \<le> length ?p} \<le> card (fst ` set (sl_scopes ls))"
    by (rule card_mono) (auto simp: has_key_def)
  also have "\<dots> \<le> length (sl_scopes ls)" by (metis card_length length_map set_map)
  finally have "error_chain (Suc (length (sl_scopes ls))) env code ?p ls \<noteq> None"
    by (intro error_chain_total[OF g]) simp
  then show ?thesis by (auto simp: matchErrorScopeChain_def)
qed

theorem error_walk_answers_witness: "\<exists>b ls'. matchErrorScopeChain demo_env 2 ''other'' demo_loop = Some (b, ls')"
  by (rule error_walk_answers[OF demo_run demo_wf(1) demo_lookup(1)])

text \<open>
  An Error event sub-process of the process itself is armed at the root path, but the walk ends at the first path
  that has no scope entry, and the root never has one: an error thrown at the top level is not caught by it.
\<close>

theorem top_level_error_handler_not_reached:
  assumes "scope_run env ls" and "wf_env env" and "\<not> sl_stopping ls" and "scope_path i ls = pl_root (sl_plane ls)"
  shows "matchErrorScopeChain env i code ls = Some (False, ls)"
  using goodD(9)[OF run_good[OF assms(1-3)]] assms(4) by (simp add: matchErrorScopeChain_def)

definition demo_catch :: fnode where
  "demo_catch = FNode ''E'' (KSubProcess True) [FNode ''ES'' (KStart [TrError ''boom''] True) [] 0 [] [] False] 0 [] [] False"

definition catch_env :: "nat scope_env" where
  "catch_env = demo_env\<lparr>ev_nodes := [demo_task, demo_catch]\<rparr>"

definition catch_loop :: "nat scope_loop" where
  "catch_loop = armScopeHandlers catch_env (ev_nodes catch_env) ''/p'' (spawnForks catch_env ''/p'' [demo_task] (scope_start demo_plane))"

theorem top_level_error_handler_not_reached_witness:
  "errorHandlerAt ''/p'' ''boom'' catch_loop \<noteq> None \<and> matchErrorScopeChain catch_env 0 ''boom'' catch_loop = Some (False, catch_loop)"
proof -
  have w: "wf_env catch_env" "list_all wfn [demo_task]" by code_simp+
  have "scope_run catch_env (spawnForks catch_env ''/p'' [demo_task] (scope_start demo_plane))"
    by (rule scope_run.start[OF demo_new _ w(2)]) simp
  moreover have "pl_root (sl_plane (spawnForks catch_env ''/p'' [demo_task] (scope_start demo_plane))) = ''/p''" by code_simp
  ultimately have r: "scope_run catch_env catch_loop" using scope_run.arm by (fastforce simp: catch_loop_def)
  have n: "\<not> sl_stopping catch_loop" and p: "scope_path 0 catch_loop = pl_root (sl_plane catch_loop)"
    and h: "errorHandlerAt ''/p'' ''boom'' catch_loop \<noteq> None" by code_simp+
  show ?thesis using top_level_error_handler_not_reached[OF r w(1) n p] h by simp
qed

lemmas cancel_eval = cancelScope_def discardLedgers_def discard_ledgers_def stop_tracks_def drop_entries_def deepest_first_def drop_entry_def
  disarmScopeHandlers_def CloseScope_def underScope_def cancel_host_def flip_def upd_strack_def scope_path_def

lemmas complete_eval = decScope_def completeScope_def recordScopeCompletion_def compensationHandlerAt_def compensationBoundaryHandlerOf_def
  handlers_at_def resumeScopeHost_def deliver_def book_at_def

definition retried_loop :: "nat scope_loop" where
  "retried_loop = (scope_start demo_plane)\<lparr>
     sl_scopes := [(''/p/sp-S'', demo_entry\<lparr>se_ptr := 4, se_host := 3\<rparr>)],
     sl_tracks := [(0, \<lparr>st_scopePath = ''/p'', st_scopeSeg = [], st_node = demo_sub, st_live = True, st_in = None, st_stopped = True,
                        st_evtClosed = False, st_compScopeSeed = None, st_compFrameSeed = None\<rparr>),
                   (2, \<lparr>st_scopePath = ''/p/sp-S'', st_scopeSeg = [], st_node = demo_start, st_live = True, st_in = Some 1, st_stopped = True,
                        st_evtClosed = False, st_compScopeSeed = None, st_compFrameSeed = None\<rparr>),
                   (3, \<lparr>st_scopePath = ''/p'', st_scopeSeg = [], st_node = demo_sub, st_live = True, st_in = None, st_stopped = False,
                        st_evtClosed = False, st_compScopeSeed = None, st_compFrameSeed = None\<rparr>),
                   (5, \<lparr>st_scopePath = ''/p/sp-S'', st_scopeSeg = [], st_node = demo_start, st_live = True, st_in = Some 4, st_stopped = False,
                        st_evtClosed = False, st_compScopeSeed = None, st_compFrameSeed = None\<rparr>)],
     sl_waiting := [3], sl_plane := demo_plane\<lparr>pl_scopes := [(''/p'', []), (''/p/sp-S'', [])]\<rparr>, sl_active := 4, sl_next := 6,
     sl_log := [FOpened ''/p/sp-S'', FCanceled ''/p/sp-S'', FOpened ''/p/sp-S'']\<rparr>"

lemma demo_retry: "matchErrorScopeChain demo_env 2 ''retry'' demo_loop = Some (True, retried_loop)"
  by (simp add: matchErrorScopeChain_def demo_loop_eq retried_loop_def demo_entry_def errorHandlerAt_def handlers_at_def errorBoundaryOn_def
      catch_boundary_def cancel_eval targets_def compensationNodeByID_def map_filter_simps scope_eval demo_eval eval_nat_numeral)


section \<open>The order of compensation\<close>

text \<open>
  The events of a sweep: the handler tracks end one after the other. A handler that is no composite gets one track, so the
  handlers' tracks are numbered from the one that the throw starts.
\<close>

definition handlers_end :: "'v scope_env \<Rightarrow> nat list \<Rightarrow> 'v scope_loop \<Rightarrow> 'v scope_loop" where
  "handlers_end env is ls = fold (\<lambda>i. compensationTrackEnded env i False) is ls"

definition leaf_handlers :: "'v scope_env \<Rightarrow> 'd ledgerEntry list \<Rightarrow> bool" where
  "leaf_handlers env q \<longleftrightarrow>
     list_all (\<lambda>le. case compensationNodeByID (ev_nodes env) (le_handlerID le) of
                      None \<Rightarrow> False | Some n \<Rightarrow> \<not> is_scopeHost n \<and> ev_newTrack env n = None) q"

definition comp_log :: "'d ledgerEntry list \<Rightarrow> sfact list" where
  "comp_log q = concat (map (\<lambda>le. [FCompensating (le_activityID le) (le_ordinal le), FCompensated (le_activityID le) (le_ordinal le)]) q)"

lemma spawn_leaf: "\<not> is_scopeHost n \<Longrightarrow> spawn env n path seg a b ls = add_track n path seg a b ls"
  by (simp add: spawn.simps Let_def)

lemma add_track_frame [simp]:
  "sl_log (add_track n path seg a b ls) = sl_log ls" "sl_next (add_track n path seg a b ls) = Suc (sl_next ls)"
  "sl_sweeps (add_track n path seg a b ls) = sl_sweeps ls" "sl_waiting (add_track n path seg a b ls) = sl_waiting ls"
  "sl_ledgers (add_track n path seg a b ls) = sl_ledgers ls"
  by (auto simp: add_track_def incScope_def Let_def split: option.split)

lemma add_track_tracks:
  "map_of (sl_tracks ls) i = Some t \<Longrightarrow> map_of (sl_tracks (add_track n path seg a b ls)) i = Some t"
  by (auto simp: add_track_def incScope_def Let_def map_add_def split: option.split)

lemma sweep_order:
  assumes "leaf_handlers env (cs_queue sw)" and "\<not> sl_stopping ls" and "cs_txHost sw = None" and "cs_thrower sw = Some i" and "cs_wait sw"
    and "i \<in> set (sl_waiting ls)" and "map_of (sl_tracks ls) i = Some t" and "\<not> st_evtClosed t"
  shows "let ls' = handlers_end env [sl_next ls ..< sl_next ls + length (cs_queue sw)] (runNextCompensation env sw ls)
         in sl_log ls' = sl_log ls @ comp_log (cs_queue sw) @ [FResumed i] \<and> sl_ledgers ls' = sl_ledgers ls \<and> i \<notin> set (sl_waiting ls')"
  using assms
proof (induction "cs_queue sw" arbitrary: sw ls)
  case Nil
  then show ?case
    by (simp add: handlers_end_def comp_log_def runNextCompensation_def finishSweep_def deliver_def report_def flip_def)
next
  case (Cons le q)
  obtain n where n: "compensationNodeByID (ev_nodes env) (le_handlerID le) = Some n" "\<not> is_scopeHost n" "ev_newTrack env n = None"
    using Cons.prems(1) Cons.hyps(2)[symmetric] by (auto simp: leaf_handlers_def split: option.splits)
  let ?sw = "sw\<lparr>cs_queue := q\<rparr>"
  define l1 where "l1 = runNextCompensation env sw ls"
  have l1: "l1 = add_track n (cs_path sw) [] (if le_eventSub le then Some (le_snapshot le) else None)
      (if le_eventSub le then None else Some (le_snapshot le))
      (ls\<lparr>sl_log := sl_log ls @ [FCompensating (le_activityID le) (le_ordinal le)],
          sl_sweeps := AList.update (sl_next ls) (?sw, le) (sl_sweeps ls)\<rparr>)"
    using Cons.prems(2) Cons.hyps(2)[symmetric] n by (cases ls) (simp add: l1_def runNextCompensation_def report_def spawn_leaf)
  define l2 where "l2 = report (FCompensated (le_activityID le) (le_ordinal le)) (l1\<lparr>sl_sweeps := AList.delete (sl_next ls) (sl_sweeps l1)\<rparr>)"
  have e: "compensationTrackEnded env (sl_next ls) False l1 = runNextCompensation env ?sw l2"
    by (simp add: compensationTrackEnded_def l1 l2_def update_conv')
  have f: "sl_next l2 = Suc (sl_next ls)" "\<not> sl_stopping l2" "sl_waiting l2 = sl_waiting ls" "sl_ledgers l2 = sl_ledgers ls"
    "sl_log l2 = sl_log ls @ [FCompensating (le_activityID le) (le_ordinal le), FCompensated (le_activityID le) (le_ordinal le)]"
    using Cons.prems(2) by (simp_all add: l2_def l1 report_def)
  have t: "map_of (sl_tracks l2) i = Some t"
    unfolding l2_def report_def using add_track_tracks[of "ls\<lparr>sl_log := _, sl_sweeps := _\<rparr>" i t] Cons.prems(7) by (simp add: l1)
  have ih: "let ls' = handlers_end env [sl_next l2 ..< sl_next l2 + length (cs_queue ?sw)] (runNextCompensation env ?sw l2)
         in sl_log ls' = sl_log l2 @ comp_log (cs_queue ?sw) @ [FResumed i] \<and> sl_ledgers ls' = sl_ledgers l2 \<and> i \<notin> set (sl_waiting ls')"
    by (rule Cons.hyps(1)) (use Cons.prems Cons.hyps(2)[symmetric] f t in \<open>simp_all add: leaf_handlers_def\<close>)
  have "handlers_end env [sl_next ls ..< sl_next ls + length (cs_queue sw)] l1 =
        handlers_end env [sl_next l2 ..< sl_next l2 + length (cs_queue ?sw)] (runNextCompensation env ?sw l2)"
  proof -
    have "[sl_next ls ..< sl_next ls + length (cs_queue sw)] = sl_next ls # [Suc (sl_next ls) ..< sl_next ls + length (cs_queue sw)]"
      using Cons.hyps(2)[symmetric] by (intro upt_conv_Cons) simp
    moreover have "sl_next ls + length (cs_queue sw) = Suc (sl_next ls) + length q" using Cons.hyps(2)[symmetric] by simp
    ultimately show ?thesis by (simp only: handlers_end_def e f fold_simps) simp
  qed
  then show ?case using ih Cons.hyps(2)[symmetric] by (simp add: l1_def[symmetric] Let_def f comp_log_def)
qed

text \<open>
  Claim C6. A compensation thrown at a whole scope by a waiting thrower: the handlers of the recorded activities run one after the other, the
  last completed activity first; then the thrower goes on. The scope's ledger is consumed.
\<close>

theorem compensation_reverse_order:
  assumes "\<not> sl_stopping ls" and "map_of (sl_tracks ls) i = Some t" and "\<not> st_evtClosed t"
    and "q = filter (\<lambda>le. le_handlerID le \<noteq> []) (rev (book_at (st_scopePath t) (sl_ledgers ls)))" and "q \<noteq> []" and "leaf_handlers env q"
  shows "let ls' = handlers_end env [sl_next ls ..< sl_next ls + length q] (applyCompensate env i [] True ls)
         in sl_log ls' = sl_log ls @ FThrown (st_scopePath t) # comp_log q @ [FResumed i] \<and>
            book_at (st_scopePath t) (sl_ledgers ls') = [] \<and> i \<notin> set (sl_waiting ls')"
proof -
  let ?p = "st_scopePath t"
  let ?sw = "\<lparr>cs_thrower = Some i, cs_txHost = None, cs_path = ?p, cs_queue = q, cs_wait = True\<rparr>"
  let ?l = "(report (FThrown ?p) (wait_for i ls))\<lparr>sl_ledgers := AList.delete ?p (sl_ledgers ls)\<rparr>"
  have a: "applyCompensate env i [] True ls = runNextCompensation env ?sw ?l"
    using assms(2,4,5) by (simp add: applyCompensate_def scope_path_def collectCompensation_def report_def wait_for_def Let_def)
  have "let ls' = handlers_end env [sl_next ?l ..< sl_next ?l + length (cs_queue ?sw)] (runNextCompensation env ?sw ?l)
         in sl_log ls' = sl_log ?l @ comp_log (cs_queue ?sw) @ [FResumed i] \<and> sl_ledgers ls' = sl_ledgers ?l \<and> i \<notin> set (sl_waiting ls')"
    by (rule sweep_order) (use assms in \<open>simp_all add: report_def wait_for_def\<close>)
  then show ?thesis by (simp add: a Let_def report_def wait_for_def book_at_def delete_conv')
qed

definition comp_env :: "nat scope_env" where
  "comp_env = demo_env\<lparr>ev_nodes := [FNode ''undoA'' KActivity [] 0 [] [] False, FNode ''undoB'' KActivity [] 0 [] [] False]\<rparr>"

definition comp_loop :: "nat scope_loop" where
  "comp_loop = (spawnForks comp_env ''/p'' [demo_task] (scope_start demo_plane))
     \<lparr>sl_ledgers := append_entry ''/p'' ''B'' ''undoB'' False [] [] (append_entry ''/p'' ''A'' ''undoA'' False [] [] [])\<rparr>"

theorem compensation_reverse_order_witness:
  "sl_log (handlers_end comp_env [1 ..< 3] (applyCompensate comp_env 0 [] True comp_loop)) =
   [FThrown ''/p'', FCompensating ''B'' 1, FCompensated ''B'' 1, FCompensating ''A'' 0, FCompensated ''A'' 0, FResumed 0]"
proof -
  let ?q = "[LedgerEntry ''B'' ''undoB'' False [] 1 [], LedgerEntry ''A'' ''undoA'' False [] 0 []] :: nat sdatum ledgerEntry list"
  let ?t = "\<lparr>st_scopePath = ''/p'', st_scopeSeg = [], st_node = demo_task, st_live = True, st_in = None, st_stopped = False,
             st_evtClosed = False, st_compScopeSeed = None, st_compFrameSeed = None\<rparr> :: nat sdatum strack"
  have c: "sl_stopping comp_loop = False" "map_of (sl_tracks comp_loop) 0 = Some ?t" "sl_next comp_loop = 1" "sl_log comp_loop = []"
    "filter (\<lambda>le. le_handlerID le \<noteq> []) (rev (book_at ''/p'' (sl_ledgers comp_loop))) = ?q"
    by (simp_all add: comp_loop_def comp_env_def demo_env_def demo_task_def scope_eval append_entry_def book_at_def)
  have l: "leaf_handlers comp_env ?q"
    by (simp add: leaf_handlers_def comp_env_def demo_env_def compensationNodeByID_def is_scopeHost_def)
  have "let ls' = handlers_end comp_env [sl_next comp_loop ..< sl_next comp_loop + length ?q] (applyCompensate comp_env 0 [] True comp_loop)
        in sl_log ls' = sl_log comp_loop @ FThrown (st_scopePath ?t) # comp_log ?q @ [FResumed 0] \<and>
           book_at (st_scopePath ?t) (sl_ledgers ls') = [] \<and> 0 \<notin> set (sl_waiting ls')"
    by (rule compensation_reverse_order) (use c l in simp_all)
  then show ?thesis by (simp add: c comp_log_def Let_def eval_nat_numeral)
qed

end
