(* ===== verification/Decision_Table.thy ===== *)
theory Decision_Table
  imports Lite_Eval Go_Strings
begin

text \<open>
  The decision table engine (\<^verbatim>\<open>src/adapters/dtable\<close>): conditions over process data, rules as rows of a grid,
  hit policies, and the registry of tables with its deployment.

  A datum's value is one of the Go types the comparisons know, nil, or another value (\<open>DOther\<close>), for which
  \<^verbatim>\<open>reflect.DeepEqual\<close> is the parameter \<open>deq\<close>. A condition returns a verdict or an error in Go, and every caller ignores
  the verdict when there is an error, so it is a sum here; the flag of an error tells whether \<^verbatim>\<open>ErrAbsent\<close> is in its
  chain. \<^verbatim>\<open>json.Unmarshal\<close> is a parameter of the decoder.
\<close>

section \<open>Conditions\<close>

datatype 'o dval = DNil | DInt int | DInt64 int | DFloat float64 | DStr string | DOther 'o

datatype 'a dres = DVal 'a | DErr app_error bool | DPanic

type_synonym 'o dreader = "string \<Rightarrow> 'o dval result"
type_synonym 'o cond = "'o dreader \<Rightarrow> bool dres"
type_synonym 'o row = "(string \<times> 'o dval) list"

fun dbind :: "'a dres \<Rightarrow> ('a \<Rightarrow> 'b dres) \<Rightarrow> 'b dres" where
  "dbind (DVal x) f = f x"
| "dbind (DErr e a) f = DErr e a"
| "dbind DPanic f = DPanic"

definition condValue :: "string \<Rightarrow> 'o dreader \<Rightarrow> 'o dval dres" where
  "condValue datum r =
     (case r datum of
        Inl _ \<Rightarrow> DErr (AppError ObjectNotFound ''couldn't read condition datum'') True
      | Inr v \<Rightarrow> DVal v)"

definition dt_order :: "('a \<Rightarrow> 'a \<Rightarrow> bool) \<Rightarrow> 'a \<Rightarrow> 'a \<Rightarrow> int" where
  "dt_order lt a b = (if lt a b then - 1 else if lt b a then 1 else 0)"

text \<open>For the mismatch error the code asks both dynamic types for their names; the type of nil has no methods.\<close>

definition dt_compare :: "'o dval \<Rightarrow> 'o dval \<Rightarrow> int dres" where
  "dt_compare got want =
     (case (got, want) of
        (DInt a, DInt b) \<Rightarrow> DVal (dt_order (<) a b)
      | (DInt64 a, DInt64 b) \<Rightarrow> DVal (dt_order (<) a b)
      | (DFloat a, DFloat b) \<Rightarrow> DVal (dt_order flt a b)
      | (DStr a, DStr b) \<Rightarrow> DVal (dt_order str_less a b)
      | (DNil, _) \<Rightarrow> DPanic
      | (_, DNil) \<Rightarrow> DPanic
      | _ \<Rightarrow> DErr (AppError TypeCastingError ''condition operands aren't comparable'') False)"

definition condErr :: "'a dres \<Rightarrow> 'a dres" where
  "condErr x = (case x of DErr _ a \<Rightarrow> DErr (AppError OperationFailed ''condition evaluation failed'') a | _ \<Rightarrow> x)"

definition dt_ordered :: "string \<Rightarrow> 'o dval \<Rightarrow> int list \<Rightarrow> 'o cond" where
  "dt_ordered datum than accept r =
     dbind (condValue datum r) (\<lambda>got. dbind (condErr (dt_compare got than)) (\<lambda>c. DVal (c \<in> set accept)))"

definition deep_eq :: "('o \<Rightarrow> 'o \<Rightarrow> bool) \<Rightarrow> 'o dval \<Rightarrow> 'o dval \<Rightarrow> bool" where
  "deep_eq deq x y =
     (case (x, y) of
        (DNil, DNil) \<Rightarrow> True
      | (DInt a, DInt b) \<Rightarrow> a = b
      | (DInt64 a, DInt64 b) \<Rightarrow> a = b
      | (DFloat a, DFloat b) \<Rightarrow> feq a b
      | (DStr a, DStr b) \<Rightarrow> a = b
      | (DOther a, DOther b) \<Rightarrow> deq a b
      | _ \<Rightarrow> False)"

definition cEq :: "('o \<Rightarrow> 'o \<Rightarrow> bool) \<Rightarrow> string \<Rightarrow> 'o dval \<Rightarrow> 'o cond" where
  "cEq deq datum want r = dbind (condValue datum r) (\<lambda>got. DVal (deep_eq deq got want))"

definition cNE :: "('o \<Rightarrow> 'o \<Rightarrow> bool) \<Rightarrow> string \<Rightarrow> 'o dval \<Rightarrow> 'o cond" where
  "cNE deq datum want r = dbind (cEq deq datum want r) (\<lambda>ok. DVal (\<not> ok))"

definition cGT :: "string \<Rightarrow> 'o dval \<Rightarrow> 'o cond" where
  "cGT datum than = dt_ordered datum than [1]"

definition cGE :: "string \<Rightarrow> 'o dval \<Rightarrow> 'o cond" where
  "cGE datum than = dt_ordered datum than [1, 0]"

definition cLT :: "string \<Rightarrow> 'o dval \<Rightarrow> 'o cond" where
  "cLT datum than = dt_ordered datum than [- 1]"

definition cLE :: "string \<Rightarrow> 'o dval \<Rightarrow> 'o cond" where
  "cLE datum than = dt_ordered datum than [- 1, 0]"

definition cBetween :: "string \<Rightarrow> 'o dval \<Rightarrow> 'o dval \<Rightarrow> 'o cond" where
  "cBetween datum lo hi r = dbind (cGE datum lo r) (\<lambda>ok. if ok then cLE datum hi r else DVal False)"

definition cIn :: "('o \<Rightarrow> 'o \<Rightarrow> bool) \<Rightarrow> string \<Rightarrow> 'o dval list \<Rightarrow> 'o cond" where
  "cIn deq datum wants r = dbind (condValue datum r) (\<lambda>got. DVal (list_ex (deep_eq deq got) wants))"

definition cAny :: "'o cond" where
  "cAny r = DVal True"

definition cPred :: "'o cond option \<Rightarrow> 'o cond" where
  "cPred fn = (case fn of None \<Rightarrow> (\<lambda>r. DErr (AppError EmptyNotAllowed ''Pred: a nil predicate isn't allowed'') False) | Some c \<Rightarrow> c)"

definition cIfPresent :: "'o cond option \<Rightarrow> 'o cond" where
  "cIfPresent fn =
     (case fn of
        None \<Rightarrow> cPred None
      | Some c \<Rightarrow> (\<lambda>r. case c r of DErr e True \<Rightarrow> DVal False | x \<Rightarrow> x))"

section \<open>Rules\<close>

record 'o rule =
  ru_Matches :: "'o dreader \<Rightarrow> bool dres"
  ru_Yield :: "'o dreader \<Rightarrow> 'o row dres"

fun fRule_Matches :: "'o cond list \<Rightarrow> 'o dreader \<Rightarrow> bool dres" where
  "fRule_Matches [] r = DVal True"
| "fRule_Matches (c # cs) r = dbind (c r) (\<lambda>ok. if ok then fRule_Matches cs r else DVal False)"

text \<open>The builder keeps its cells, or the error of a nil cell until it is finished.\<close>

definition ruleR :: "'o cond option list \<Rightarrow> 'o cond list result" where
  "ruleR conds =
     (if list_ex Option.is_none conds then Inl (AppError EmptyNotAllowed ''R: a nil Condition isn't allowed (cell %d)'') else Inr (map the conds))"

definition ruleThen :: "'o cond list result \<Rightarrow> 'o row \<Rightarrow> 'o rule result" where
  "ruleThen b out =
     (case b of
        Inl e \<Rightarrow> Inl e
      | Inr conds \<Rightarrow>
          (if out = [] then Inl (AppError EmptyNotAllowed ''Then: an empty output row isn't allowed'')
           else Inr \<lparr>ru_Matches = fRule_Matches conds, ru_Yield = (\<lambda>r. DVal out)\<rparr>))"

definition ruleThenF :: "'o cond list result \<Rightarrow> ('o dreader \<Rightarrow> 'o row dres) option \<Rightarrow> 'o rule result" where
  "ruleThenF b f =
     (case b of
        Inl e \<Rightarrow> Inl e
      | Inr conds \<Rightarrow>
          (case f of
             None \<Rightarrow> Inl (AppError EmptyNotAllowed ''ThenF: a nil YieldFunc isn't allowed'')
           | Some y \<Rightarrow> Inr \<lparr>ru_Matches = fRule_Matches conds, ru_Yield = y\<rparr>))"

section \<open>Tables and the engine\<close>

datatype resolver = RUnique | RAll | RAny

text \<open>The resolution and whether the scan stops at the first match, by the name of the policy.\<close>

definition resolvers :: "string \<Rightarrow> (resolver \<times> bool) option" where
  "resolvers = map_of [(''UNIQUE'', (RUnique, False)), (''FIRST'', (RAll, True)), (''ANY'', (RAny, False)),
     (''RULE ORDER'', (RAll, False)), (''COLLECT'', (RAll, False))]"

record 'o dtable =
  tb_name :: string
  tb_policy :: string
  tb_rules :: "'o rule list"

definition NewTable :: "string \<Rightarrow> string \<Rightarrow> 'o rule option list \<Rightarrow> 'o dtable result" where
  "NewTable name policy rr =
     (let n = TrimSpace name
      in if n = [] then Inl (AppError EmptyNotAllowed ''NewTable: an empty table name isn't allowed'')
         else if resolvers policy = None then Inl (AppError InvalidParameter ''NewTable: unknown hit policy'')
         else if rr = [] then Inl (AppError EmptyNotAllowed ''NewTable: a table needs at least one rule'')
         else if list_ex Option.is_none rr then Inl (AppError EmptyNotAllowed ''NewTable: a nil Rule isn't allowed (rule %d)'')
         else Inr \<lparr>tb_name = n, tb_policy = policy, tb_rules = map the rr\<rparr>)"

definition ruleErr :: "string \<Rightarrow> 'a dres \<Rightarrow> 'a dres" where
  "ruleErr phase x = (case x of DErr _ a \<Rightarrow> DErr (AppError OperationFailed (''rule '' @ phase @ '' failed'')) a | _ \<Rightarrow> x)"

fun dt_scan :: "bool \<Rightarrow> nat \<Rightarrow> 'o rule list \<Rightarrow> 'o dreader \<Rightarrow> (nat \<times> 'o row) list dres" where
  "dt_scan short i [] r = DVal []"
| "dt_scan short i (ru # rs) r =
     dbind (ruleErr ''match'' (ru_Matches ru r)) (\<lambda>hit.
       if \<not> hit then dt_scan short (Suc i) rs r
       else dbind (ruleErr ''yield'' (ru_Yield ru r)) (\<lambda>row.
              if short then DVal [(i, row)]
              else dbind (dt_scan short (Suc i) rs r) (\<lambda>mm. DVal ((i, row) # mm))))"

text \<open>Rows agree when they have the same columns with deeply equal values.\<close>

definition rows_agree :: "('o \<Rightarrow> 'o \<Rightarrow> bool) \<Rightarrow> 'o row \<Rightarrow> 'o row \<Rightarrow> bool" where
  "rows_agree deq a b \<longleftrightarrow>
     list_all (\<lambda>k. has_key k b) (map fst a) \<and>
     list_all (\<lambda>k. case (map_of a k, map_of b k) of (Some x, Some y) \<Rightarrow> deep_eq deq x y | _ \<Rightarrow> False) (map fst b)"

definition dt_resolve :: "('o \<Rightarrow> 'o \<Rightarrow> bool) \<Rightarrow> resolver \<Rightarrow> (nat \<times> 'o row) list \<Rightarrow> 'o row list result" where
  "dt_resolve deq k mm =
     (case k of
        RAll \<Rightarrow> Inr (map snd mm)
      | RUnique \<Rightarrow>
          (if length mm > 1 then Inl (AppError InvalidState ''UNIQUE hit policy violated: rules %d and %d both match'')
           else Inr [snd (hd mm)])
      | RAny \<Rightarrow>
          (if list_all (\<lambda>m. rows_agree deq (snd (hd mm)) (snd m)) (tl mm) then Inr [snd (hd mm)]
           else Inl (AppError InvalidState ''ANY hit policy violated: rules %d and %d disagree'')))"

type_synonym 'o dtengine = "(string \<times> 'o dtable) list"

definition Register :: "'o dtable option \<Rightarrow> 'o dtengine \<Rightarrow> 'o dtengine result" where
  "Register t e =
     (case t of
        None \<Rightarrow> Inl (AppError EmptyNotAllowed ''Register: a nil Table isn't allowed'')
      | Some t \<Rightarrow>
          (if has_key (tb_name t) e then Inl (AppError DuplicateObject ''Register: table is already registered'')
           else Inr (AList.update (tb_name t) t e)))"

definition DT_Evaluate :: "('o \<Rightarrow> 'o \<Rightarrow> bool) \<Rightarrow> 'o dtengine \<Rightarrow> string \<Rightarrow> 'o dreader option \<Rightarrow> 'o row list dres" where
  "DT_Evaluate deq e ref r =
     (if ref = [] then DErr (AppError EmptyNotAllowed ''Evaluate: an empty decision reference isn't allowed'') False
      else (case r of
              None \<Rightarrow> DErr (AppError EmptyNotAllowed ''Evaluate: a nil DataReader isn't allowed'') False
            | Some rd \<Rightarrow>
                (case map_of e ref of
                   None \<Rightarrow> DErr (AppError ObjectNotFound ''Evaluate: decision table isn't registered'') False
                 | Some t \<Rightarrow>
                     (case resolvers (tb_policy t) of
                        None \<Rightarrow> dbind (dt_scan False 0 (tb_rules t) rd) (\<lambda>mm. if mm = [] then DVal [] else DPanic)
                      | Some (k, short) \<Rightarrow>
                          dbind (dt_scan short 0 (tb_rules t) rd) (\<lambda>mm.
                            if mm = [] then DVal []
                            else (case dt_resolve deq k mm of
                                    Inl _ \<Rightarrow> DErr (AppError OperationFailed ''decision resolution failed'') False
                                  | Inr rows \<Rightarrow> DVal rows))))))"

section \<open>Deployment\<close>

record 'o vocabulary =
  vc_conds :: "(string \<times> 'o cond) list"
  vc_yields :: "(string \<times> ('o dreader \<Rightarrow> 'o row dres)) list"

definition AddCondition :: "string \<Rightarrow> 'o cond option \<Rightarrow> 'o vocabulary \<Rightarrow> 'o vocabulary result" where
  "AddCondition name c v =
     (let n = TrimSpace name
      in if n = [] then Inl (AppError EmptyNotAllowed ''AddCondition: an empty name isn't allowed'')
         else (case c of
                 None \<Rightarrow> Inl (AppError EmptyNotAllowed ''AddCondition: a nil Condition isn't allowed'')
               | Some f \<Rightarrow>
                   (if has_key n (vc_conds v) then Inl (AppError DuplicateObject ''AddCondition: name is already registered'')
                    else Inr (v\<lparr>vc_conds := AList.update n f (vc_conds v)\<rparr>))))"

definition AddYield :: "string \<Rightarrow> ('o dreader \<Rightarrow> 'o row dres) option \<Rightarrow> 'o vocabulary \<Rightarrow> 'o vocabulary result" where
  "AddYield name y v =
     (let n = TrimSpace name
      in if n = [] then Inl (AppError EmptyNotAllowed ''AddYield: an empty name isn't allowed'')
         else (case y of
                 None \<Rightarrow> Inl (AppError EmptyNotAllowed ''AddYield: a nil YieldFunc isn't allowed'')
               | Some f \<Rightarrow>
                   (if has_key n (vc_yields v) then Inl (AppError DuplicateObject ''AddYield: name is already registered'')
                    else Inr (v\<lparr>vc_yields := AList.update n f (vc_yields v)\<rparr>))))"

record 'o jsonRule =
  jr_Then :: "'o row"
  jr_ThenFn :: string
  jr_When :: "string list"

record 'o jsonTable =
  jt_Name :: string
  jt_HitPolicy :: string
  jt_Rules :: "'o jsonRule list"

definition decodeErr :: "string \<Rightarrow> app_error" where
  "decodeErr msg = AppError InvalidObject (''JSONDecoder: '' @ msg)"

fun when_cells :: "'o vocabulary \<Rightarrow> string list \<Rightarrow> 'o cond list result" where
  "when_cells v [] = Inr []"
| "when_cells v (n # ns) =
     (case map_of (vc_conds v) n of
        None \<Rightarrow> Inl (decodeErr ''unresolved condition name'')
      | Some c \<Rightarrow> (case when_cells v ns of Inl e \<Rightarrow> Inl e | Inr cs \<Rightarrow> Inr (c # cs)))"

definition decodeRule :: "'o vocabulary \<Rightarrow> 'o jsonRule \<Rightarrow> 'o rule result" where
  "decodeRule v jr =
     (case when_cells v (jr_When jr) of
        Inl e \<Rightarrow> Inl e
      | Inr conds \<Rightarrow>
          (if jr_Then jr \<noteq> [] \<and> jr_ThenFn jr \<noteq> [] then Inl (decodeErr ''a rule carries either then or thenFn, not both'')
           else if jr_ThenFn jr \<noteq> []
           then (case map_of (vc_yields v) (jr_ThenFn jr) of
                   None \<Rightarrow> Inl (decodeErr ''unresolved yield name'')
                 | Some f \<Rightarrow> ruleThenF (ruleR (map Some conds)) (Some f))
           else if jr_Then jr \<noteq> [] then ruleThen (ruleR (map Some conds)) (jr_Then jr)
           else Inl (decodeErr ''a rule needs then or thenFn'')))"

fun decode_rules :: "'o vocabulary \<Rightarrow> 'o jsonRule list \<Rightarrow> 'o rule list result" where
  "decode_rules v [] = Inr []"
| "decode_rules v (jr # jrs) =
     (case decodeRule v jr of
        Inl e \<Rightarrow> Inl e
      | Inr ru \<Rightarrow> (case decode_rules v jrs of Inl e \<Rightarrow> Inl e | Inr rs \<Rightarrow> Inr (ru # rs)))"

definition JSON_Decode :: "(string \<Rightarrow> 'o jsonTable result) \<Rightarrow> 'o vocabulary \<Rightarrow> string \<Rightarrow> 'o dtable result" where
  "JSON_Decode unmarshal v text =
     (case unmarshal text of
        Inl _ \<Rightarrow> Inl (AppError OperationFailed ''JSONDecoder: malformed definition'')
      | Inr jt \<Rightarrow>
          (case decode_rules v (jt_Rules jt) of
             Inl e \<Rightarrow> Inl e
           | Inr rs \<Rightarrow> NewTable (jt_Name jt) (jt_HitPolicy jt) (map Some rs)))"

definition Deploy :: "(string \<Rightarrow> 'o dtable result) option \<Rightarrow> string \<Rightarrow> 'o dtengine \<Rightarrow> 'o dtengine result" where
  "Deploy decoder text e =
     (case decoder of
        None \<Rightarrow> Inl (AppError InvalidState ''Deploy: no definition decoder is configured (construct the engine with WithDecoder)'')
      | Some dec \<Rightarrow>
          (if text = [] then Inl (AppError EmptyNotAllowed ''Deploy: an empty definition isn't allowed'')
           else (case dec text of
                   Inl _ \<Rightarrow> Inl (AppError OperationFailed ''Deploy: definition decoding failed'')
                 | Inr t \<Rightarrow> Inr (AList.update (tb_name t) t e))))"

section \<open>What a decision returns\<close>

text \<open>Every rule answers: its match is decided, and a matching rule yields a row.\<close>

definition answering :: "'o rule \<Rightarrow> 'o dreader \<Rightarrow> bool" where
  "answering ru r = (case ru_Matches ru r of DVal hit \<Rightarrow> \<not> hit \<or> (case ru_Yield ru r of DVal _ \<Rightarrow> True | _ \<Rightarrow> False) | _ \<Rightarrow> False)"

definition yielded :: "'o rule \<Rightarrow> 'o dreader \<Rightarrow> 'o row" where
  "yielded ru r = (case ru_Yield ru r of DVal row \<Rightarrow> row | _ \<Rightarrow> [])"

definition hit_rows :: "'o rule list \<Rightarrow> 'o dreader \<Rightarrow> 'o row list" where
  "hit_rows rs r = map (\<lambda>ru. yielded ru r) (filter (\<lambda>ru. ru_Matches ru r = DVal True) rs)"

lemma hit_rows_simps [simp]:
  "hit_rows [] r = []"
  "hit_rows (ru # rs) r = (if ru_Matches ru r = DVal True then yielded ru r # hit_rows rs r else hit_rows rs r)"
  by (simp_all add: hit_rows_def)

lemma answering_cases:
  assumes "answering ru r"
  obtains (miss) "ru_Matches ru r = DVal False" | (hit) row where "ru_Matches ru r = DVal True" "ru_Yield ru r = DVal row"
  using assms by (auto simp: answering_def split: dres.splits)

lemma scan_rows:
  assumes "list_all (\<lambda>ru. answering ru r) rs"
  shows "\<exists>mm. dt_scan short i rs r = DVal mm \<and> map snd mm = (if short then take 1 (hit_rows rs r) else hit_rows rs r)"
  using assms
proof (induction rs arbitrary: i)
  case (Cons ru rs)
  obtain mm where mm: "dt_scan short (Suc i) rs r = DVal mm" "map snd mm = (if short then take 1 (hit_rows rs r) else hit_rows rs r)"
    using Cons by auto
  from Cons.prems have "answering ru r" by simp
  then show ?case
  proof (cases rule: answering_cases)
    case miss then show ?thesis using mm by (auto simp: ruleErr_def)
  next
    case (hit row) then show ?thesis using mm by (auto simp: ruleErr_def yielded_def)
  qed
qed auto

text \<open>
  Claim C14. What a decision returns, by its hit policy, when every rule answers: FIRST the first matching row, UNIQUE the only one or an error,
  ANY the first when all agree or an error, the other policies every matching row in rule order; no match is the empty result.
\<close>

theorem decision_by_policy:
  assumes "ref \<noteq> []" and "map_of e ref = Some t" and "list_all (\<lambda>ru. answering ru r) (tb_rules t)"
    and "tb_policy t \<in> {''UNIQUE'', ''FIRST'', ''ANY'', ''RULE ORDER'', ''COLLECT''}"
  shows "DT_Evaluate deq e ref (Some r) =
    (let rows = hit_rows (tb_rules t) r; contradiction = DErr (AppError OperationFailed ''decision resolution failed'') False
     in if tb_policy t = ''FIRST'' then DVal (take 1 rows)
        else if tb_policy t = ''UNIQUE'' then (if length rows \<le> 1 then DVal rows else contradiction)
        else if tb_policy t = ''ANY'' then (if list_all (rows_agree deq (hd rows)) (tl rows) then DVal (take 1 rows) else contradiction)
        else DVal rows)"
proof -
  obtain mm where mm: "dt_scan False 0 (tb_rules t) r = DVal mm" "map snd mm = hit_rows (tb_rules t) r"
    using scan_rows[OF assms(3), of False 0] by auto
  obtain m1 where m1: "dt_scan True 0 (tb_rules t) r = DVal m1" "map snd m1 = take 1 (hit_rows (tb_rules t) r)"
    using scan_rows[OF assms(3), of True 0] by auto
  have len: "length mm = length (hit_rows (tb_rules t) r)" and nil: "mm = [] \<longleftrightarrow> hit_rows (tb_rules t) r = []" using mm(2)
    by (auto dest: arg_cong[of _ _ length])
  have hd: "snd (hd mm) = hd (hit_rows (tb_rules t) r)" "map snd (tl mm) = tl (hit_rows (tb_rules t) r)" if "mm \<noteq> []"
    using that mm(2) by (metis hd_map, metis map_tl)
  have tk: "mm \<noteq> [] \<Longrightarrow> [snd (hd mm)] = take 1 (hit_rows (tb_rules t) r)" using mm(2)[symmetric] by (cases mm) auto
  have all: "list_all (\<lambda>m. rows_agree deq (snd (hd mm)) (snd m)) (tl mm) = list_all (rows_agree deq (hd (hit_rows (tb_rules t) r))) (tl (hit_rows (tb_rules t) r))"
    if "mm \<noteq> []" using hd[OF that] by (metis (no_types, lifting) list.pred_map list.pred_cong comp_apply)
  show ?thesis
  proof (cases "mm = []")
    case True
    then have "hit_rows (tb_rules t) r = []" "m1 = []" using nil m1(2) by auto
    then show ?thesis using assms(1,2,4) mm m1 True by (auto simp: DT_Evaluate_def resolvers_def)
  next
    case False
    have u: "length (hit_rows (tb_rules t) r) \<le> 1 \<Longrightarrow> hit_rows (tb_rules t) r = [snd (hd mm)]"
      using False mm(2)[symmetric] by (cases mm) auto
    have m1n: "m1 \<noteq> []" using m1(2) False nil by auto
    from assms(4) consider "tb_policy t = ''UNIQUE''" | "tb_policy t = ''FIRST''" | "tb_policy t = ''ANY''"
      | "tb_policy t = ''RULE ORDER''" | "tb_policy t = ''COLLECT''" by blast
    then show ?thesis
    proof cases
      case 1 then show ?thesis using assms(1,2) mm len u False by (auto simp: DT_Evaluate_def resolvers_def dt_resolve_def not_le)
    next
      case 2 then show ?thesis using assms(1,2) m1 m1n by (auto simp: DT_Evaluate_def resolvers_def dt_resolve_def)
    next
      case 3 then show ?thesis using assms(1,2) mm(1) False all tk by (auto simp: DT_Evaluate_def resolvers_def dt_resolve_def)
    next
      case 4 then show ?thesis using assms(1,2) mm False by (auto simp: DT_Evaluate_def resolvers_def dt_resolve_def)
    next
      case 5 then show ?thesis using assms(1,2) mm False by (auto simp: DT_Evaluate_def resolvers_def dt_resolve_def)
    qed
  qed
qed

definition sample_rule :: "int \<Rightarrow> string \<Rightarrow> nat rule" where
  "sample_rule k s = \<lparr>ru_Matches = fRule_Matches [cGE ''x'' (DInt k)], ru_Yield = (\<lambda>r. DVal [(''grade'', DStr s)])\<rparr>"

definition sample_table :: "string \<Rightarrow> nat dtable" where
  "sample_table p = \<lparr>tb_name = ''d'', tb_policy = p, tb_rules = [sample_rule 90 ''a'', sample_rule 50 ''b'', sample_rule 0 ''c'']\<rparr>"

definition sample_reader :: "nat dreader" where
  "sample_reader d = (if d = ''x'' then Inr (DInt 60) else Inl (AppError ObjectNotFound d))"

theorem decision_by_policy_witness:
  "DT_Evaluate (=) [(''d'', sample_table ''FIRST'')] ''d'' (Some sample_reader) = DVal [[(''grade'', DStr ''b'')]]"
proof -
  have v: "ru_Matches (sample_rule k s) sample_reader = DVal (k \<le> 60)" "ru_Yield (sample_rule k s) sample_reader = DVal [(''grade'', DStr s)]" for k s
    by (auto simp: sample_rule_def cGE_def dt_ordered_def condValue_def sample_reader_def dt_compare_def condErr_def dt_order_def)
  have a: "list_all (\<lambda>ru. answering ru sample_reader) (tb_rules (sample_table ''FIRST''))"
    by (simp add: sample_table_def answering_def v)
  have h: "hit_rows (tb_rules (sample_table ''FIRST'')) sample_reader = [[(''grade'', DStr ''b'')], [(''grade'', DStr ''c'')]]"
    by (simp add: sample_table_def v yielded_def)
  have "DT_Evaluate (=) [(''d'', sample_table ''FIRST'')] ''d'' (Some sample_reader) =
    (let rows = hit_rows (tb_rules (sample_table ''FIRST'')) sample_reader;
         contradiction = DErr (AppError OperationFailed ''decision resolution failed'') False
     in if tb_policy (sample_table ''FIRST'') = ''FIRST'' then DVal (take 1 rows)
        else if tb_policy (sample_table ''FIRST'') = ''UNIQUE'' then (if length rows \<le> 1 then DVal rows else contradiction)
        else if tb_policy (sample_table ''FIRST'') = ''ANY'' then (if list_all (rows_agree (=) (hd rows)) (tl rows) then DVal (take 1 rows) else contradiction)
        else DVal rows)"
    by (rule decision_by_policy[OF _ _ a]) (simp_all add: sample_table_def)
  then show ?thesis by (simp add: h) (simp add: sample_table_def)
qed

lemma scan_short_prefix:
  "dt_scan False i rs r = DVal mm \<Longrightarrow> dt_scan True i rs r = DVal (take 1 mm)"
proof (induction rs arbitrary: i mm)
  case (Cons ru rs)
  show ?case
  proof (cases "ru_Matches ru r")
    case (DVal hit)
    show ?thesis
    proof (cases hit)
      case False then show ?thesis using Cons DVal by (simp add: ruleErr_def)
    next
      case True
      then show ?thesis using Cons.prems DVal
        by (cases "ru_Yield ru r"; cases "dt_scan False (Suc i) rs r") (auto simp: ruleErr_def)
    qed
  qed (use Cons.prems in \<open>auto simp: ruleErr_def\<close>)
qed simp

text \<open>
  Claim C15. FIRST refines RULE ORDER: where the latter succeeds, FIRST returns its first row. The converse fails, since FIRST does not look at the rules
  after its hit.
\<close>

theorem first_refines_rule_order:
  assumes "DT_Evaluate deq [(ref, t\<lparr>tb_policy := ''RULE ORDER''\<rparr>)] ref (Some r) = DVal rows"
  shows "DT_Evaluate deq [(ref, t\<lparr>tb_policy := ''FIRST''\<rparr>)] ref (Some r) = DVal (take 1 rows)"
proof -
  have ref: "ref \<noteq> []" using assms by (auto simp: DT_Evaluate_def)
  obtain mm where mm: "dt_scan False 0 (tb_rules t) r = DVal mm" "rows = map snd mm"
    using assms ref by (cases "dt_scan False 0 (tb_rules t) r") (auto simp: DT_Evaluate_def resolvers_def dt_resolve_def split: if_splits)
  then show ?thesis using ref scan_short_prefix[OF mm(1)]
    by (auto simp: DT_Evaluate_def resolvers_def dt_resolve_def take_map)
qed

theorem first_refines_rule_order_witness:
  "DT_Evaluate (=) [(''d'', (sample_table ''COLLECT'')\<lparr>tb_policy := ''FIRST''\<rparr>)] ''d'' (Some (\<lambda>_. Inr (DInt 95))) = DVal [[(''grade'', DStr ''a'')]]"
proof -
  have "DT_Evaluate (=) [(''d'', (sample_table ''COLLECT'')\<lparr>tb_policy := ''RULE ORDER''\<rparr>)] ''d'' (Some (\<lambda>_. Inr (DInt 95))) =
      DVal [[(''grade'', DStr ''a'')], [(''grade'', DStr ''b'')], [(''grade'', DStr ''c'')]]"
    by (simp add: DT_Evaluate_def resolvers_def sample_table_def sample_rule_def cGE_def dt_ordered_def condValue_def dt_compare_def condErr_def
        dt_order_def ruleErr_def dt_resolve_def)
  from first_refines_rule_order[OF this] show ?thesis by simp
qed

section \<open>Deployment and registration\<close>

lemma when_cells_names: "when_cells v ns = Inr cs \<Longrightarrow> map (map_of (vc_conds v)) ns = map Some cs"
  by (induction ns arbitrary: cs) (auto split: option.splits sum.splits)

text \<open>
  A deployed rule does what its grid row says: it matches by exactly the named conditions in their order, and it yields the row's
  literals or what the named functor computes; every name was in the vocabulary, and the row had one of the two outputs, not both.
\<close>

theorem decoded_rule_faithful:
  assumes "decodeRule v jr = Inr ru"
  shows "\<exists>cs. map (map_of (vc_conds v)) (jr_When jr) = map Some cs \<and> ru_Matches ru = fRule_Matches cs \<and>
    (jr_ThenFn jr = [] \<and> jr_Then jr \<noteq> [] \<and> ru_Yield ru = (\<lambda>r. DVal (jr_Then jr)) \<or>
     jr_Then jr = [] \<and> jr_ThenFn jr \<noteq> [] \<and> map_of (vc_yields v) (jr_ThenFn jr) = Some (ru_Yield ru))"
proof -
  obtain cs where cs: "when_cells v (jr_When jr) = Inr cs" using assms by (auto simp: decodeRule_def split: sum.splits)
  have "ruleR (map Some cs) = Inr cs" by (auto simp: ruleR_def comp_def list_ex_iff)
  then show ?thesis using assms cs when_cells_names[OF cs]
    by (auto simp: decodeRule_def ruleThen_def ruleThenF_def split: if_splits option.splits)
qed

definition sample_vocabulary :: "nat vocabulary" where
  "sample_vocabulary = \<lparr>vc_conds = [(''big'', cGT ''x'' (DInt 9))], vc_yields = []\<rparr>"

definition sample_grid_row :: "nat jsonRule" where
  "sample_grid_row = \<lparr>jr_Then = [(''y'', DStr ''z'')], jr_ThenFn = [], jr_When = [''big'']\<rparr>"

definition sample_decoded :: "nat rule" where
  "sample_decoded = \<lparr>ru_Matches = fRule_Matches [cGT ''x'' (DInt 9)], ru_Yield = (\<lambda>r. DVal [(''y'', DStr ''z'')])\<rparr>"

theorem decoded_rule_faithful_witness:
  "decodeRule sample_vocabulary sample_grid_row = Inr sample_decoded \<and>
   (\<exists>cs. map (map_of (vc_conds sample_vocabulary)) (jr_When sample_grid_row) = map Some cs \<and> ru_Matches sample_decoded = fRule_Matches cs)"
proof -
  have d: "decodeRule sample_vocabulary sample_grid_row = Inr sample_decoded"
    by (simp add: decodeRule_def ruleR_def ruleThen_def sample_vocabulary_def sample_grid_row_def sample_decoded_def)
  from decoded_rule_faithful[OF this] d show ?thesis by blast
qed

text \<open>Registration never replaces a table; a deployment replaces exactly the table of its name.\<close>

theorem register_keeps_tables:
  assumes "Register (Some t) e = Inr e'"
  shows "map_of e (tb_name t) = None \<and> map_of e' = (map_of e)(tb_name t \<mapsto> t)"
  using assms by (auto simp: Register_def update_conv' has_key_map_of split: if_splits)

section \<open>Two operands the comparisons mishandle\<close>

text \<open>A datum that is not a number lies between any two bounds: neither side of the three-way comparison holds, which reads as equal.\<close>

theorem nan_in_every_range:
  assumes "r datum = Inr (DFloat NaN)"
  shows "cBetween datum (DFloat lo) (DFloat hi) r = DVal True"
proof -
  have "flt NaN x = False" "flt x NaN = False" for x by (cases x; simp)+
  then show ?thesis using assms
    by (simp add: cBetween_def cGE_def cLE_def dt_ordered_def condValue_def dt_compare_def condErr_def dt_order_def)
qed

theorem nan_in_every_range_witness:
  "cBetween ''x'' (DFloat (fofint 1)) (DFloat (fofint 2)) (\<lambda>_. Inr (DFloat NaN) :: nat dval result) = DVal True"
  by (rule nan_in_every_range) simp

text \<open>A comparison with a nil value panics while it names the types for its error; \<^verbatim>\<open>IfPresent\<close> does not prevent it.\<close>

theorem nil_comparison_panics:
  assumes "r datum = Inr DNil"
  shows "cIfPresent (Some (cGT datum than)) r = DPanic"
  using assms by (simp add: cIfPresent_def cGT_def dt_ordered_def condValue_def dt_compare_def condErr_def split: dval.split)

theorem nil_comparison_panics_witness:
  "cIfPresent (Some (cGT ''x'' (DInt 1))) (\<lambda>_. Inr DNil :: nat dval result) = DPanic"
  by (rule nil_comparison_panics) simp

end
