(* ===== verification/Iteration_Loops.thy ===== *)
theory Iteration_Loops
  imports Data_Array
begin

text \<open>
  Standard loops (\<^verbatim>\<open>std_loop.go\<close> and \<^verbatim>\<open>runCompositeLoop\<close> of \<^verbatim>\<open>scope_decorator.go\<close>, under \<^verbatim>\<open>src/internal/instance\<close>), on a leaf activity and
  on a composite one.

  A decorator runs on the host's own goroutine. What it calls there is a parameter: committing a datum at the host's scope, evaluating an
  expression, executing the node, opening a scope at the loop and waiting for its drain. They act on a state \<open>'s\<close>, the process data as
  the host sees it. A loop that need not end gets fuel, one unit for each pass.
\<close>

section \<open>Standard loops\<close>

record standardLoop =
  sl_TestBefore :: bool
  sl_LoopMaximum :: "int option"

record ('s, 'f) loop_ops =
  lo_bindLoopCounterAt :: "nat \<Rightarrow> 's \<Rightarrow> 's result"
  lo_cond :: "'s \<Rightarrow> bool result"
  lo_executeNode :: "'s \<Rightarrow> ('s \<times> 'f list option) result"
  lo_pass :: "'s \<Rightarrow> 's result"
  lo_Outgoing :: "'f list"

text \<open>The evaluation of a boolean expression in a transient frame at the host's scope.\<close>

definition evalBool :: "string \<Rightarrow> ('s \<Rightarrow> 'r result) \<Rightarrow> ('r \<Rightarrow> 'v result) \<Rightarrow> ('v \<Rightarrow> bool option) \<Rightarrow> 's \<Rightarrow> bool result" where
  "evalBool what openFrameAt evaluate as_bool s =
     (case openFrameAt s of
        Inl e \<Rightarrow> Inl e
      | Inr fr \<Rightarrow>
          (case evaluate fr of
             Inl e \<Rightarrow> Inl e
           | Inr v \<Rightarrow> (case as_bool v of None \<Rightarrow> Inl (AppError TypeCastingError (what @ '' evaluated to a non-boolean value'')) | Some b \<Rightarrow> Inr b)))"

definition at_maximum :: "standardLoop \<Rightarrow> nat \<Rightarrow> bool" where
  "at_maximum sl c = (case sl_LoopMaximum sl of None \<Rightarrow> False | Some m \<Rightarrow> int c \<ge> m)"

definition loop_test :: "('s, 'f) loop_ops \<Rightarrow> standardLoop \<Rightarrow> nat \<Rightarrow> 's \<Rightarrow> bool result" where
  "loop_test ops sl c s = (if sl_TestBefore sl \<or> c > 0 then lo_cond ops s else Inr True)"

text \<open>The result is the number of passes, the state and the flows of the last pass.\<close>

fun std_loop :: "nat \<Rightarrow> ('s, 'f) loop_ops \<Rightarrow> standardLoop \<Rightarrow> nat \<Rightarrow> 's \<Rightarrow> 'f list option \<Rightarrow> (nat \<times> 's \<times> 'f list option) result option" where
  "std_loop 0 ops sl c s nf = None"
| "std_loop (Suc k) ops sl c s nf =
     (case lo_bindLoopCounterAt ops c s of
        Inl e \<Rightarrow> Some (Inl e)
      | Inr s1 \<Rightarrow>
          (case loop_test ops sl c s1 of
             Inl e \<Rightarrow> Some (Inl e)
           | Inr cont \<Rightarrow>
               (if \<not> cont then Some (Inr (c, s1, nf))
                else (case lo_executeNode ops s1 of
                        Inl e \<Rightarrow> Some (Inl e)
                      | Inr (s2, flows) \<Rightarrow>
                          (if at_maximum sl (Suc c) then Some (Inr (Suc c, s2, flows))
                           else std_loop k ops sl (Suc c) s2 flows)))))"

definition runStandardLoop :: "nat \<Rightarrow> ('s, 'f) loop_ops \<Rightarrow> standardLoop \<Rightarrow> 's \<Rightarrow> (nat \<times> 's \<times> 'f list) result option" where
  "runStandardLoop k ops sl s =
     (case std_loop k ops sl 0 s None of
        None \<Rightarrow> None
      | Some (Inl e) \<Rightarrow> Some (Inl e)
      | Some (Inr (c, s', nf)) \<Rightarrow> Some (Inr (c, s', case nf of None \<Rightarrow> lo_Outgoing ops | Some f \<Rightarrow> f)))"

text \<open>The composite's loop: each pass opens the child scope and waits for its drain. \<open>first\<close> is the restored pass.\<close>

fun comp_loop :: "nat \<Rightarrow> ('s, 'f) loop_ops \<Rightarrow> standardLoop \<Rightarrow> nat \<Rightarrow> 's \<Rightarrow> (nat \<times> 's) result option" where
  "comp_loop 0 ops sl c s = None"
| "comp_loop (Suc k) ops sl c s =
     (case lo_bindLoopCounterAt ops c s of
        Inl e \<Rightarrow> Some (Inl e)
      | Inr s1 \<Rightarrow>
          (case loop_test ops sl c s1 of
             Inl e \<Rightarrow> Some (Inl e)
           | Inr cont \<Rightarrow>
               (if \<not> cont then Some (Inr (c, s1))
                else (case lo_pass ops s1 of
                        Inl e \<Rightarrow> Some (Inl e)
                      | Inr s2 \<Rightarrow>
                          (if at_maximum sl (Suc c) then Some (Inr (Suc c, s2))
                           else comp_loop k ops sl (Suc c) s2)))))"

definition runCompositeLoop :: "nat \<Rightarrow> ('s, 'f) loop_ops \<Rightarrow> standardLoop \<Rightarrow> nat option \<Rightarrow> 's \<Rightarrow> (nat \<times> ('s \<times> 'f list option) result) result option" where
  "runCompositeLoop k ops sl seed s =
     (case comp_loop k ops sl (case seed of None \<Rightarrow> 0 | Some c \<Rightarrow> c) s of
        None \<Rightarrow> None
      | Some (Inl e) \<Rightarrow> Some (Inl e)
      | Some (Inr (c, s')) \<Rightarrow> Some (Inr (c, lo_executeNode ops s')))"

section \<open>What a standard loop does\<close>

text \<open>
  The passes as a chain: \<open>ran ops sl c s t nf\<close> says that from \<open>s\<close> the body ran \<open>c\<close> times, each time with its
  ordinal published and with the test passed where there is one, and ended in \<open>t\<close>.
\<close>

inductive ran :: "('s, 'f) loop_ops \<Rightarrow> standardLoop \<Rightarrow> nat \<Rightarrow> 's \<Rightarrow> 's \<Rightarrow> 'f list option \<Rightarrow> bool" for ops sl where
  none: "ran ops sl 0 s s None"
| pass: "ran ops sl c s t nf \<Longrightarrow> lo_bindLoopCounterAt ops c t = Inr t1 \<Longrightarrow> loop_test ops sl c t1 = Inr True \<Longrightarrow>
    lo_executeNode ops t1 = Inr (u, flows) \<Longrightarrow> ran ops sl (Suc c) s u flows"

lemma std_loop_ran:
  assumes "std_loop k ops sl c t nf = Some (Inr (c', s', nf'))" and "ran ops sl c s t nf"
  shows "\<exists>u. ran ops sl c' s u nf' \<and>
    (lo_bindLoopCounterAt ops c' u = Inr s' \<and> loop_test ops sl c' s' = Inr False \<or> s' = u \<and> 0 < c' \<and> at_maximum sl c')"
  using assms
proof (induction k ops sl c t nf rule: std_loop.induct)
  case (2 k ops sl c t nf)
  obtain t1 where t1: "lo_bindLoopCounterAt ops c t = Inr t1" using "2.prems" by (auto split: sum.splits)
  obtain cont where cont: "loop_test ops sl c t1 = Inr cont" using "2.prems" t1 by (auto split: sum.splits)
  show ?case
  proof (cases cont)
    case False then show ?thesis using "2.prems" t1 cont by auto
  next
    case True
    then obtain u flows where u: "lo_executeNode ops t1 = Inr (u, flows)" using "2.prems" t1 cont by (auto split: sum.splits)
    have r: "ran ops sl (Suc c) s u flows" using ran.pass[OF "2.prems"(2) t1 _ u] cont True by simp
    show ?thesis
    proof (cases "at_maximum sl (Suc c)")
      case mx: True then show ?thesis using "2.prems"(1) t1 cont True u r by auto
    next
      case False
      then show ?thesis using "2.IH"[OF t1 cont _ u refl False] "2.prems"(1) t1 cont True u r by simp
    qed
  qed
qed simp

text \<open>
  A loop ends either because its test says so, on the state with the next ordinal published, or because the maximum is reached; the
  body ran exactly as often as the ordinals say, and every run but the first of a post-tested loop passed the test. A loop that
  never ran its body still follows the activity's outgoing flows.
\<close>

theorem standard_loop_exact:
  assumes "runStandardLoop k ops sl s = Some (Inr (c, s', flows))"
  shows "\<exists>u nf. ran ops sl c s u nf \<and> flows = (case nf of None \<Rightarrow> lo_Outgoing ops | Some f \<Rightarrow> f) \<and>
    (lo_bindLoopCounterAt ops c u = Inr s' \<and> loop_test ops sl c s' = Inr False \<or> s' = u \<and> 0 < c \<and> at_maximum sl c)"
proof -
  obtain nf where l: "std_loop k ops sl 0 s None = Some (Inr (c, s', nf))" and f: "flows = (case nf of None \<Rightarrow> lo_Outgoing ops | Some f \<Rightarrow> f)"
    using assms by (auto simp: runStandardLoop_def split: option.splits sum.splits prod.splits)
  show ?thesis using std_loop_ran[OF l ran.none] f by blast
qed

definition count_ops :: "nat \<Rightarrow> (nat, string) loop_ops" where
  "count_ops lim = \<lparr>lo_bindLoopCounterAt = (\<lambda>c s. Inr s), lo_cond = (\<lambda>s. Inr (s < lim)), lo_executeNode = (\<lambda>s. Inr (Suc s, Some [''out''])),
     lo_pass = (\<lambda>s. Inr (Suc s)), lo_Outgoing = [''out'']\<rparr>"

theorem standard_loop_exact_witness:
  "runStandardLoop 9 (count_ops 3) \<lparr>sl_TestBefore = True, sl_LoopMaximum = None\<rparr> 0 = Some (Inr (3, 3, [''out''])) \<and>
   (\<exists>u nf. ran (count_ops 3) \<lparr>sl_TestBefore = True, sl_LoopMaximum = None\<rparr> 3 0 u nf)"
proof -
  have r: "runStandardLoop 9 (count_ops 3) \<lparr>sl_TestBefore = True, sl_LoopMaximum = None\<rparr> 0 = Some (Inr (3, 3, [''out'']))"
    by code_simp
  from standard_loop_exact[OF this] r show ?thesis by blast
qed

lemma std_loop_max:
  assumes "sl_LoopMaximum sl = Some m" and "int c < m" and "nat m - c \<le> k"
  shows "\<exists>r. std_loop k ops sl c s nf = Some r \<and> (\<forall>c' s' nf'. r = Inr (c', s', nf') \<longrightarrow> int c' \<le> m)"
  using assms
proof (induction k arbitrary: c s nf)
  case (Suc k)
  show ?case
  proof (cases "lo_bindLoopCounterAt ops c s")
    case (Inr s1)
    show ?thesis
    proof (cases "loop_test ops sl c s1")
      case t: (Inr cont)
      show ?thesis
      proof (cases "lo_executeNode ops s1")
        case (Inl e) then show ?thesis using \<open>lo_bindLoopCounterAt ops c s = Inr s1\<close> t Suc.prems by auto
      next
        case (Inr r)
        obtain s2 flows where r: "r = (s2, flows)" by fastforce
        show ?thesis
        proof (cases "at_maximum sl (Suc c)")
          case True
          then show ?thesis using \<open>lo_bindLoopCounterAt ops c s = Inr s1\<close> t Inr r Suc.prems by auto
        next
          case False
          then have "int (Suc c) < m" using Suc.prems(1) by (simp add: at_maximum_def)
          then show ?thesis using Suc.IH[of "Suc c" s2 flows] Suc.prems \<open>lo_bindLoopCounterAt ops c s = Inr s1\<close> t Inr r False by auto
        qed
      qed
    qed (use Inr in auto)
  qed auto
qed auto

text \<open>A loop with a (positive) maximum always returns, after at most that many passes.\<close>

theorem standard_loop_bounded:
  assumes "sl_LoopMaximum sl = Some m" and "0 < m"
  shows "\<exists>r. runStandardLoop (nat m) ops sl s = Some r \<and> (\<forall>c s' flows. r = Inr (c, s', flows) \<longrightarrow> int c \<le> m)"
proof -
  obtain r where r: "std_loop (nat m) ops sl 0 s None = Some r" "\<forall>c' s' nf'. r = Inr (c', s', nf') \<longrightarrow> int c' \<le> m"
    using std_loop_max[OF assms(1), of 0 "nat m" ops s None] assms(2) by auto
  then show ?thesis by (cases r) (auto simp: runStandardLoop_def split: prod.splits)
qed

theorem standard_loop_bounded_witness:
  "\<exists>r. runStandardLoop 2 (count_ops 5) \<lparr>sl_TestBefore = False, sl_LoopMaximum = Some 2\<rparr> 0 = Some r \<and>
     (\<forall>c s' flows. r = Inr (c, s', flows) \<longrightarrow> int c \<le> 2)"
  using standard_loop_bounded[of "\<lparr>sl_TestBefore = False, sl_LoopMaximum = Some 2\<rparr>" 2 "count_ops 5" 0] by simp

lemma comp_loop_max:
  assumes "sl_LoopMaximum sl = Some m" and "int c < m" and "nat m - c \<le> k"
  shows "\<exists>r. comp_loop k ops sl c s = Some r \<and> (\<forall>c' s'. r = Inr (c', s') \<longrightarrow> int c' \<le> m)"
  using assms
proof (induction k arbitrary: c s)
  case (Suc k)
  have IH: "at_maximum sl (Suc c) \<or> (\<exists>r. comp_loop k ops sl (Suc c) s2 = Some r \<and> (\<forall>c' s'. r = Inr (c', s') \<longrightarrow> int c' \<le> m))" for s2
  proof (cases "at_maximum sl (Suc c)")
    case False
    then have "int (Suc c) < m" using Suc.prems(1) by (simp add: at_maximum_def)
    moreover have "nat m - Suc c \<le> k" using Suc.prems(3) by linarith
    ultimately show ?thesis using Suc.IH[of "Suc c" s2] Suc.prems(1) by blast
  qed simp
  show ?case using Suc.prems IH by (fastforce split: sum.split)
qed auto

text \<open>A fresh composite loop keeps to its maximum too.\<close>

theorem composite_loop_bounded:
  assumes "sl_LoopMaximum sl = Some m" and "0 < m"
  shows "\<exists>r. runCompositeLoop (nat m) ops sl None s = Some r \<and> (\<forall>c x. r = Inr (c, x) \<longrightarrow> int c \<le> m)"
proof -
  obtain r where "comp_loop (nat m) ops sl 0 s = Some r" "\<forall>c' s'. r = Inr (c', s') \<longrightarrow> int c' \<le> m"
    using comp_loop_max[OF assms(1), of 0 "nat m" ops s] assms(2) by auto
  then show ?thesis by (cases r) (auto simp: runCompositeLoop_def split: prod.splits)
qed

theorem composite_loop_bounded_witness:
  "\<exists>r. runCompositeLoop 2 (count_ops 5) \<lparr>sl_TestBefore = False, sl_LoopMaximum = Some 2\<rparr> None 0 = Some r \<and>
     (\<forall>c x. r = Inr (c, x) \<longrightarrow> int c \<le> 2)"
  using composite_loop_bounded[of "\<lparr>sl_TestBefore = False, sl_LoopMaximum = Some 2\<rparr>" 2 "count_ops 5" 0] by simp

text \<open>
  A restored one does not: the maximum is tested after a pass only, so a host recorded with all its passes completed runs one pass
  more when the condition still holds.
\<close>

theorem restored_loop_overruns:
  "runCompositeLoop 9 (count_ops 9) \<lparr>sl_TestBefore = True, sl_LoopMaximum = Some 2\<rparr> (Some 2) 2 = Some (Inr (3, Inr (4, Some [''out''])))"
  by code_simp

end
