(* ===== verification/Iteration_MI.thy ===== *)
theory Iteration_MI
  imports Iteration_Loops
begin

text \<open>
  Multi-instance activities (\<^verbatim>\<open>mi.go\<close>, \<^verbatim>\<open>mi_behavior.go\<close>, \<^verbatim>\<open>mi_parallel.go\<close> under \<^verbatim>\<open>src/internal/instance\<close>): the sequential decorator with its
  output staging, and the barrier between the loop and the runner of a parallel one.

  The parameters are as in \<open>Iteration_Loops\<close>. An element of the staging collection has the Go type \<^verbatim>\<open>any\<close>; nil is \<open>None\<close>. A pass of the
  sequential decorator opens the child scope and waits for its drain, at which the loop reads the output item; the value read is part of
  the pass's result.
\<close>

section \<open>Sequential multi-instances\<close>

datatype MIBehavior = BehaviorNone | BehaviorOne | BehaviorAll | BehaviorComplex

datatype 'v mi_value = MInt int | MElem 'v

type_synonym 'v miBinding = "string \<times> 'v mi_value"

record ('s, 'v, 'e) mi_char =
  mi_Cardinality :: "('s \<Rightarrow> int option result) option"
  mi_CompletionCondition :: "('s \<Rightarrow> bool result) option"
  mi_LoopDataInput :: "'s \<Rightarrow> 'v list option result"
  mi_InputDataItem :: string
  mi_LoopDataOutputRef :: string
  mi_Behavior :: MIBehavior
  mi_NoneEvent :: 'e
  mi_OneEvent :: 'e
  mi_Complex :: "(('s \<Rightarrow> bool result) \<times> 'e list) list"

record ('s, 'v, 'e) mi_ops =
  mo_bind :: "'v miBinding list \<Rightarrow> 's \<Rightarrow> 's result"
  mo_pass :: "nat \<Rightarrow> 's \<Rightarrow> ('s \<times> 'v option) result"
  mo_Propagate :: "'e \<Rightarrow> 's \<Rightarrow> 's result"
  mo_note :: "'s \<Rightarrow> 's result"
  mo_publish :: "'v option list \<Rightarrow> 's \<Rightarrow> 's result"

record 'v miState =
  ms_collection :: "'v list option"
  ms_staging :: "'v option arr option"
  ms_inputItem :: string
  ms_n :: int
  ms_completed :: nat

text \<open>The number of instances, and the collection they are split from.\<close>

definition resolveActivation :: "('s, 'v, 'e) mi_char \<Rightarrow> 's \<Rightarrow> (int \<times> 'v list option) result" where
  "resolveActivation mi s =
     (case mi_Cardinality mi of
        Some expr \<Rightarrow>
          (case expr s of
             Inl e \<Rightarrow> Inl e
           | Inr None \<Rightarrow> Inl (AppError TypeCastingError ''Multi-Instance cardinality evaluated to a non-integer value'')
           | Inr (Some n) \<Rightarrow> Inr (n, None))
      | None \<Rightarrow>
          (case mi_LoopDataInput mi s of
             Inl e \<Rightarrow> Inl e
           | Inr None \<Rightarrow> Inl (AppError TypeCastingError ''Multi-Instance loopDataInputRef %q is not a collection'')
           | Inr (Some xs) \<Rightarrow> Inr (int (length xs), Some xs)))"

definition counters :: "int \<Rightarrow> int \<Rightarrow> int \<Rightarrow> 'v miBinding list" where
  "counters n completed terminated =
     [(''numberOfInstances'', MInt n), (''numberOfActiveInstances'', MInt (n - completed - terminated)),
      (''numberOfCompletedInstances'', MInt completed), (''numberOfTerminatedInstances'', MInt terminated)]"

definition bindMICounters :: "('s, 'v, 'e) mi_ops \<Rightarrow> int \<Rightarrow> int \<Rightarrow> int \<Rightarrow> 's \<Rightarrow> 's result" where
  "bindMICounters ops n completed terminated s = mo_bind ops (counters n completed terminated) s"

definition bindInstance :: "('s, 'v, 'e) mi_ops \<Rightarrow> 'v miState \<Rightarrow> nat \<Rightarrow> 's \<Rightarrow> 's result" where
  "bindInstance ops st i s =
     (let binds = [(''loopCounter'', MInt (int i)), (''numberOfInstances'', MInt (ms_n st)), (''numberOfActiveInstances'', MInt 1),
                   (''numberOfCompletedInstances'', MInt (int (ms_completed st)))]
      in (case ms_collection st of
            None \<Rightarrow> mo_bind ops binds s
          | Some xs \<Rightarrow>
              (if i < length xs then mo_bind ops (binds @ [(ms_inputItem st, MElem (xs ! i))]) s
               else Inl (AppError OutOfRangeError ''index %d is out of range (max index: %d)''))))"

text \<open>A nil value fails the type assertion of \<^verbatim>\<open>SetAt\<close>, and its message asks the nil value for its type: the loop panics.\<close>

datatype 'a mres = MOk 'a | MErr app_error | MPanic

definition stage :: "'v miState \<Rightarrow> nat \<Rightarrow> 'v option \<Rightarrow> 'v miState mres" where
  "stage st i v =
     (case ms_staging st of
        None \<Rightarrow> MOk st
      | Some a \<Rightarrow>
          (case Array_SetAt a (Some (int i)) (map_option Some v) of
             (a', AOk _) \<Rightarrow> MOk (st\<lparr>ms_staging := Some a'\<rparr>)
           | (a', AErr e) \<Rightarrow> MErr e
           | (a', AEOF) \<Rightarrow> MPanic
           | (a', APanic) \<Rightarrow> MPanic))"

fun throw_all :: "('s, 'v, 'e) mi_ops \<Rightarrow> 'e list \<Rightarrow> 's \<Rightarrow> 's result" where
  "throw_all ops [] s = Inr s"
| "throw_all ops (d # ds) s = (case mo_Propagate ops d s of Inl e \<Rightarrow> Inl e | Inr s1 \<Rightarrow> throw_all ops ds s1)"

fun throwComplexBehavior :: "('s, 'v, 'e) mi_ops \<Rightarrow> (('s \<Rightarrow> bool result) \<times> 'e list) list \<Rightarrow> 's \<Rightarrow> 's result" where
  "throwComplexBehavior ops [] s = Inr s"
| "throwComplexBehavior ops ((cond, ds) # cbds) s =
     (case cond s of
        Inl e \<Rightarrow> Inl e
      | Inr met \<Rightarrow>
          (if \<not> met then throwComplexBehavior ops cbds s
           else (case throw_all ops ds s of Inl e \<Rightarrow> Inl e | Inr s1 \<Rightarrow> throwComplexBehavior ops cbds s1)))"

definition throwMIBehavior :: "('s, 'v, 'e) mi_ops \<Rightarrow> ('s, 'v, 'e) mi_char \<Rightarrow> nat \<Rightarrow> 's \<Rightarrow> 's result" where
  "throwMIBehavior ops mi completed s =
     (case mi_Behavior mi of
        BehaviorNone \<Rightarrow> mo_Propagate ops (mi_NoneEvent mi) s
      | BehaviorOne \<Rightarrow> if completed = 1 then mo_Propagate ops (mi_OneEvent mi) s else Inr s
      | BehaviorComplex \<Rightarrow> throwComplexBehavior ops (mi_Complex mi) s
      | BehaviorAll \<Rightarrow> Inr s)"

definition completion_stop :: "('s, 'v, 'e) mi_char \<Rightarrow> int \<Rightarrow> nat \<Rightarrow> 's \<Rightarrow> bool result" where
  "completion_stop mi n completed s =
     (case mi_CompletionCondition mi of
        Some c \<Rightarrow> if int completed < n then c s else Inr False
      | None \<Rightarrow> Inr False)"

text \<open>
  The passes of the sequential decorator. The list returned with the state is a record of the output items that the passes drained
  with; the code does not keep it.
\<close>

function mi_seq :: "('s, 'v, 'e) mi_ops \<Rightarrow> ('s, 'v, 'e) mi_char \<Rightarrow> nat \<Rightarrow> 'v miState \<Rightarrow> 's \<Rightarrow> 'v option list \<Rightarrow>
    ('v miState \<times> 's \<times> 'v option list) mres" where
  "mi_seq ops mi i st s outs =
     (if \<not> int i < ms_n st then MOk (st, s, outs)
      else (case bindInstance ops st i s of
              Inl e \<Rightarrow> MErr e
            | Inr s1 \<Rightarrow>
                (case mo_pass ops i s1 of
                   Inl e \<Rightarrow> MErr e
                 | Inr (s2, out) \<Rightarrow>
                     (case stage st i out of
                        MErr e \<Rightarrow> MErr e
                      | MPanic \<Rightarrow> MPanic
                      | MOk st1 \<Rightarrow>
                          (let done1 = Suc (ms_completed st); st2 = st1\<lparr>ms_completed := done1, ms_n := ms_n st\<rparr>
                           in (case completion_stop mi (ms_n st) done1 s2 of
                                 Inl e \<Rightarrow> MErr e
                               | Inr stop \<Rightarrow>
                                   (case bindMICounters ops (ms_n st) (int done1) 0 s2 of
                                      Inl e \<Rightarrow> MErr e
                                    | Inr s3 \<Rightarrow>
                                        (case throwMIBehavior ops mi done1 s3 of
                                           Inl e \<Rightarrow> MErr e
                                         | Inr s4 \<Rightarrow>
                                             (if stop
                                              then (case mo_note ops s4 of Inl e \<Rightarrow> MErr e | Inr s5 \<Rightarrow> MOk (st2, s5, outs @ [out]))
                                              else mi_seq ops mi (Suc i) st2 s4 (outs @ [out]))))))))))"
  by pat_completeness auto
termination
  by (relation "measure (\<lambda>(ops, mi, i, st, s, outs). nat (ms_n st) - i)") auto

declare mi_seq.simps [simp del]

text \<open>
  A position recorded in a checkpoint. \<^verbatim>\<open>DecodeValue\<close> is a parameter: \<open>mr_Staging\<close> is what it gives for the recorded staging, \<open>Inr None\<close> when
  that is not a collection, a nil element being \<open>None\<close> and a wrapped scalar its raw value. The completed count is a natural number, as the
  loop's mirror counts it.
\<close>

record 'v MIRecord =
  mr_Staging :: "'v option list option result option"
  mr_N :: int
  mr_Completed :: nat
  mr_ConditionMet :: bool

fun seed_elements :: "'v option arr \<Rightarrow> nat \<Rightarrow> 'v option list \<Rightarrow> 'v option arr mres" where
  "seed_elements a i [] = MOk a"
| "seed_elements a i (None # els) = seed_elements a (Suc i) els"
| "seed_elements a i (Some v # els) =
     (case Array_SetAt a (Some (int i)) (Some (Some v)) of
        (a', AOk _) \<Rightarrow> seed_elements a' (Suc i) els
      | (a', AErr e) \<Rightarrow> MErr e
      | (a', AEOF) \<Rightarrow> MPanic
      | (a', APanic) \<Rightarrow> MPanic)"

definition seedStaging :: "'v option arr \<Rightarrow> 'v option list option result \<Rightarrow> 'v option arr mres" where
  "seedStaging a raw =
     (case raw of
        Inl e \<Rightarrow> MErr e
      | Inr None \<Rightarrow> MErr (AppError InvalidState ''restored Multi-Instance staging isn't a collection'')
      | Inr (Some els) \<Rightarrow> seed_elements a 0 els)"

definition seedSequentialStart :: "('s, 'v, 'e) mi_ops \<Rightarrow> ('s, 'v, 'e) mi_char \<Rightarrow> 'v MIRecord \<Rightarrow> int \<Rightarrow> 's \<Rightarrow> (nat \<times> 's) result" where
  "seedSequentialStart ops mi seed n s =
     (let start = mr_Completed seed
      in if start = 0 \<or> int start \<ge> n then Inr (start, s)
         else if mr_ConditionMet seed then Inr (nat n, s)
         else (case mi_CompletionCondition mi of
                 None \<Rightarrow> Inr (start, s)
               | Some c \<Rightarrow>
                   (case bindMICounters ops n (int start) 0 s of
                      Inl e \<Rightarrow> Inl e
                    | Inr s1 \<Rightarrow>
                        (case c s1 of
                           Inl e \<Rightarrow> Inl e
                         | Inr met \<Rightarrow> Inr (if met then nat n else start, s1)))))"

definition frozen_count :: "'v MIRecord option \<Rightarrow> int \<Rightarrow> 'v list option \<Rightarrow> int result" where
  "frozen_count seed n col =
     (case seed of
        Some r \<Rightarrow>
          (if mr_N r > 0 then
             (case col of
                Some xs \<Rightarrow>
                  (if int (length xs) < mr_N r
                   then Inl (AppError InvalidState ''restored Multi-Instance %q: the input collection holds %d items, the recorded activation froze %d'')
                   else Inr (mr_N r))
              | None \<Rightarrow> Inr (mr_N r))
           else Inr n)
      | None \<Rightarrow> Inr n)"

definition initial_staging :: "('s, 'v, 'e) mi_char \<Rightarrow> 'v MIRecord option \<Rightarrow> 'v option arr option mres" where
  "initial_staging mi seed =
     (if mi_LoopDataOutputRef mi = [] then MOk None
      else (case Option.bind seed mr_Staging of
              None \<Rightarrow> MOk (Some (NewArray True []))
            | Some raw \<Rightarrow>
                (case seedStaging (NewArray True []) raw of
                   MOk a \<Rightarrow> MOk (Some a)
                 | MErr e \<Rightarrow> MErr e
                 | MPanic \<Rightarrow> MPanic)))"

definition prepareSequential :: "('s, 'v, 'e) mi_ops \<Rightarrow> ('s, 'v, 'e) mi_char \<Rightarrow> 'v MIRecord option \<Rightarrow> 's \<Rightarrow> ('v miState \<times> nat \<times> 's) mres" where
  "prepareSequential ops mi seed s =
     (case resolveActivation mi s of
        Inl e \<Rightarrow> MErr e
      | Inr (n0, col) \<Rightarrow>
          (case frozen_count seed n0 col of
             Inl e \<Rightarrow> MErr e
           | Inr n \<Rightarrow>
               (case initial_staging mi seed of
                  MErr e \<Rightarrow> MErr e
                | MPanic \<Rightarrow> MPanic
                | MOk stg \<Rightarrow>
                    (let st = \<lparr>ms_collection = col, ms_staging = stg, ms_inputItem = mi_InputDataItem mi, ms_n = n, ms_completed = 0\<rparr>
                     in (case seed of
                           None \<Rightarrow> MOk (st, 0, s)
                         | Some r \<Rightarrow>
                             (if n \<le> 0 then MOk (st, 0, s)
                              else (case seedSequentialStart ops mi r n s of
                                      Inl e \<Rightarrow> MErr e
                                    | Inr (start, s1) \<Rightarrow> MOk (st\<lparr>ms_completed := mr_Completed r\<rparr>, start, s1))))))))"

definition publishOutput :: "('s, 'v, 'e) mi_ops \<Rightarrow> 'v miState \<Rightarrow> 's \<Rightarrow> 's result" where
  "publishOutput ops st s = (case ms_staging st of None \<Rightarrow> Inr s | Some a \<Rightarrow> mo_publish ops (a_elements a) s)"

text \<open>
  The result is the final position and data, before the host's own node is executed for its outgoing flow. The record of the outputs
  starts from the recorded ones.
\<close>

definition seed_outputs :: "'v miState \<Rightarrow> 'v option list" where
  "seed_outputs st = (case ms_staging st of Some a \<Rightarrow> a_elements a | None \<Rightarrow> replicate (ms_completed st) None)"

definition runMISequential :: "('s, 'v, 'e) mi_ops \<Rightarrow> ('s, 'v, 'e) mi_char \<Rightarrow> 'v MIRecord option \<Rightarrow> 's \<Rightarrow>
    ('v miState \<times> 's \<times> 'v option list) mres" where
  "runMISequential ops mi seed s =
     (case prepareSequential ops mi seed s of
        MErr e \<Rightarrow> MErr e
      | MPanic \<Rightarrow> MPanic
      | MOk (st, start, s0) \<Rightarrow>
          (if ms_n st \<le> 0 then MOk (st, s0, [])
           else (case mi_seq ops mi start st s0 (seed_outputs st) of
                   MErr e \<Rightarrow> MErr e
                 | MPanic \<Rightarrow> MPanic
                 | MOk (st1, s1, outs) \<Rightarrow>
                     (case publishOutput ops st1 s1 of Inl e \<Rightarrow> MErr e | Inr s2 \<Rightarrow> MOk (st1, s2, outs)))))"

section \<open>What a sequential multi-instance does\<close>

definition staged :: "'v miState \<Rightarrow> 'v option list \<Rightarrow> bool" where
  "staged st outs \<longleftrightarrow> length outs = ms_completed st \<and> (\<forall>a. ms_staging st = Some a \<longrightarrow> a_elements a = outs \<and> a_iface a)"

lemma stage_appends:
  assumes "stage st (ms_completed st) v = MOk st'" and "staged st outs"
  shows "staged (st'\<lparr>ms_completed := Suc (ms_completed st), ms_n := k\<rparr>) (outs @ [v]) \<and> (ms_staging st \<noteq> None \<longrightarrow> v \<noteq> None) \<and>
    ms_collection st' = ms_collection st \<and> ms_n st' = ms_n st"
proof (cases "ms_staging st")
  case None then show ?thesis using assms by (auto simp: stage_def staged_def)
next
  case (Some a)
  show ?thesis
  proof (cases v)
    case None then show ?thesis using assms Some by (auto simp: stage_def staged_def Array_SetAt_def checkValue_def)
  next
    case (Some x)
    then show ?thesis using assms \<open>ms_staging st = Some a\<close>
      by (auto simp: stage_def staged_def Array_SetAt_def checkValue_def setAt_def AddT_def Let_def split: if_splits)
  qed
qed

lemma mi_seq_staged:
  assumes "mi_seq ops mi i st s outs = MOk (st', s', outs')" and "staged st outs" and "i = ms_completed st" and "int i \<le> ms_n st"
  shows "staged st' outs' \<and> ms_n st' = ms_n st \<and> int (ms_completed st') \<le> ms_n st \<and>
    (mi_CompletionCondition mi = None \<longrightarrow> int (ms_completed st') = ms_n st) \<and> (ms_staging st' \<noteq> None \<longleftrightarrow> ms_staging st \<noteq> None)"
  using assms
proof (induction ops mi i st s outs rule: mi_seq.induct)
  case (1 ops mi i st s outs)
  show ?case
  proof (cases "int i < ms_n st")
    case False then show ?thesis using "1.prems" by (simp add: mi_seq.simps)
  next
    case lt: True
    obtain s1 where s1: "bindInstance ops st i s = Inr s1" using "1.prems"(1) lt by (subst (asm) mi_seq.simps) (auto split: sum.splits)
    obtain s2 out where s2: "mo_pass ops i s1 = Inr (s2, out)" using "1.prems"(1) lt s1 by (subst (asm) mi_seq.simps) (auto split: sum.splits)
    obtain st1 where st1: "stage st i out = MOk st1" using "1.prems"(1) lt s1 s2 by (subst (asm) mi_seq.simps) (auto split: mres.splits)
    define st2 where "st2 = st1\<lparr>ms_completed := Suc (ms_completed st), ms_n := ms_n st\<rparr>"
    obtain stop where stop: "completion_stop mi (ms_n st) (Suc (ms_completed st)) s2 = Inr stop"
      using "1.prems"(1) lt s1 s2 st1 by (subst (asm) mi_seq.simps) (auto simp: Let_def split: sum.splits)
    obtain s3 where s3: "bindMICounters ops (ms_n st) (int (Suc (ms_completed st))) 0 s2 = Inr s3"
      using "1.prems"(1) lt s1 s2 st1 stop by (subst (asm) mi_seq.simps) (auto simp: Let_def split: sum.splits)
    obtain s4 where s4: "throwMIBehavior ops mi (Suc (ms_completed st)) s3 = Inr s4"
      using "1.prems"(1) lt s1 s2 st1 stop s3 by (subst (asm) mi_seq.simps) (auto simp: Let_def split: sum.splits)
    have g: "staged st2 (outs @ [out])" "ms_n st2 = ms_n st" "ms_completed st2 = Suc (ms_completed st)"
      using stage_appends[of st out st1 outs "ms_n st"] st1 "1.prems"(2,3) by (auto simp: st2_def)
    have sg: "ms_staging st2 \<noteq> None \<longleftrightarrow> ms_staging st \<noteq> None"
      using st1 by (auto simp: st2_def stage_def split: option.splits prod.splits ares.splits)
    show ?thesis
    proof (cases stop)
      case True
      then have "st' = st2" "outs' = outs @ [out]"
        using "1.prems"(1) lt s1 s2 st1 stop s3 s4 by (subst (asm) mi_seq.simps, auto simp: Let_def st2_def split: sum.splits)+
      moreover have "mi_CompletionCondition mi \<noteq> None" using stop True by (auto simp: completion_stop_def split: option.splits)
      ultimately show ?thesis using g sg lt "1.prems"(3) by auto
    next
      case False
      have "mi_seq ops mi (Suc i) st2 s4 (outs @ [out]) = MOk (st', s', outs')"
        using "1.prems"(1) lt s1 s2 st1 stop s3 s4 False by (subst (asm) mi_seq.simps) (auto simp: Let_def st2_def split: sum.splits)
      moreover have "staged st2 (outs @ [out])" "Suc i = ms_completed st2" "int (Suc i) \<le> ms_n st2" using g lt "1.prems"(3) by auto
      ultimately show ?thesis
        using "1.IH"[OF _ s1 s2 _ st1 refl st2_def stop s3 s4] lt False g(2) sg by auto
    qed
  qed
qed

lemma seed_elements_appends:
  assumes "seed_elements a i els = MOk a'" and "a_iface a" and "length (a_elements a) = i" and "None \<notin> set els"
  shows "a_elements a' = a_elements a @ els \<and> a_iface a'"
  using assms
proof (induction a i els rule: seed_elements.induct)
  case (3 a i v els)
  then obtain a1 u where a1: "Array_SetAt a (Some (int i)) (Some (Some v)) = (a1, AOk u)" by (auto split: prod.splits ares.splits)
  then have "a_elements a1 = a_elements a @ [Some v]" "a_iface a1"
    using "3.prems"(2,3) by (auto simp: Array_SetAt_def checkValue_def setAt_def AddT_def Let_def split: if_splits)
  then show ?case using "3.IH"[OF a1[symmetric] refl] "3.prems" a1 by simp
qed auto

text \<open>The position a run starts from: fresh, or the recorded one.\<close>

lemma prepare_position:
  assumes p: "prepareSequential ops mi seed s = MOk (st, start, s0)" and pos: "0 < ms_n st"
    and seed: "\<forall>r. seed = Some r \<longrightarrow> int (mr_Completed r) \<le> mr_N r \<and>
      (mi_LoopDataOutputRef mi \<noteq> [] \<longrightarrow> (\<exists>els. mr_Staging r = Some (Inr (Some els)) \<and> None \<notin> set els \<and> length els = mr_Completed r))"
    and n: "seed \<noteq> None \<longrightarrow> 0 < mr_N (the seed)"
  shows "staged st (seed_outputs st) \<and> int (ms_completed st) \<le> ms_n st \<and> (ms_staging st \<noteq> None \<longleftrightarrow> mi_LoopDataOutputRef mi \<noteq> []) \<and>
    (start = ms_completed st \<or> int start = ms_n st \<and> mi_CompletionCondition mi \<noteq> None \<or>
     int start = ms_n st \<and> (\<exists>r. seed = Some r \<and> mr_ConditionMet r))"
proof -
  obtain n0 col where a: "resolveActivation mi s = Inr (n0, col)" using p by (auto simp: prepareSequential_def split: sum.splits)
  obtain k where k: "frozen_count seed n0 col = Inr k" using p a by (auto simp: prepareSequential_def split: sum.splits)
  obtain stg where g: "initial_staging mi seed = MOk stg" using p a k by (auto simp: prepareSequential_def split: mres.splits)
  have stn: "ms_n st = k" "ms_staging st = stg" "ms_completed st = (case seed of None \<Rightarrow> 0 | Some r \<Rightarrow> mr_Completed r)"
    using p pos by (auto simp: prepareSequential_def a k g Let_def split: option.splits if_splits sum.splits)
  have ref: "stg \<noteq> None \<longleftrightarrow> mi_LoopDataOutputRef mi \<noteq> []" using g by (auto simp: initial_staging_def split: if_splits option.splits mres.splits)
  have els: "length (a_elements b) = ms_completed st \<and> a_iface b" if b: "stg = Some b" for b
  proof (cases seed)
    case None then show ?thesis using g b stn(3) by (auto simp: initial_staging_def NewArray_def split: if_splits)
  next
    case (Some r)
    then obtain es where e: "mr_Staging r = Some (Inr (Some es))" "None \<notin> set es" "length es = mr_Completed r" using seed ref b by auto
    then have "seed_elements (NewArray True []) 0 es = MOk b"
      using g b Some by (auto simp: initial_staging_def seedStaging_def split: if_splits mres.splits)
    from seed_elements_appends[OF this] show ?thesis using e stn(3) Some by (simp add: NewArray_def)
  qed
  have le: "int (ms_completed st) \<le> k" using seed n stn k pos by (auto simp: frozen_count_def split: option.splits if_splits)
  have "start = ms_completed st \<or> int start = k \<and> (mi_CompletionCondition mi \<noteq> None \<or> (\<exists>r. seed = Some r \<and> mr_ConditionMet r))"
    using p pos stn(1,3) by (auto simp: prepareSequential_def a k g Let_def seedSequentialStart_def split: option.splits if_splits sum.splits)
  then show ?thesis using els ref le stn by (auto simp: staged_def seed_outputs_def split: option.splits)
qed


definition demo_mi :: "(nat list, nat, string) mi_char" where
  "demo_mi = \<lparr>mi_Cardinality = Some (\<lambda>s. Inr (Some 3)), mi_CompletionCondition = None, mi_LoopDataInput = (\<lambda>s. Inr None),
     mi_InputDataItem = ''item'', mi_LoopDataOutputRef = ''outs'', mi_Behavior = BehaviorAll, mi_NoneEvent = [], mi_OneEvent = [], mi_Complex = []\<rparr>"

definition demo_mi_ops :: "(nat list, nat, string) mi_ops" where
  "demo_mi_ops = \<lparr>mo_bind = (\<lambda>b s. Inr s), mo_pass = (\<lambda>i s. Inr (i # s, Some (10 * i))), mo_Propagate = (\<lambda>e s. Inr s), mo_note = Inr,
     mo_publish = (\<lambda>xs s. Inr s)\<rparr>"

definition demo_mi_end :: "nat miState" where
  "demo_mi_end = \<lparr>ms_collection = None, ms_staging = Some \<lparr>a_elements = [Some 0, Some 10, Some 20], a_index = 0, a_iface = True\<rparr>,
     ms_inputItem = ''item'', ms_n = 3, ms_completed = 3\<rparr>"

definition demo_record :: "nat MIRecord" where
  "demo_record = \<lparr>mr_Staging = Some (Inr (Some [Some 0])), mr_N = 3, mr_Completed = 1, mr_ConditionMet = False\<rparr>"


lemma fresh_run: "runMISequential demo_mi_ops demo_mi None [] = MOk (demo_mi_end, [2, 1, 0], [Some 0, Some 10, Some 20])"
  by code_simp

text \<open>
  The completion condition is evaluated against the counts bound at the start of a pass in a run, and against the counts after it in a
  restore: with the condition that one instance has completed, a run makes two passes, and a run restored after its first pass makes
  no other.
\<close>

definition count_mi_ops :: "(int, nat, string) mi_ops" where
  "count_mi_ops =
     \<lparr>mo_bind = (\<lambda>b s. Inr (case map_of b ''numberOfCompletedInstances'' of Some (MInt k) \<Rightarrow> k | _ \<Rightarrow> s)),
      mo_pass = (\<lambda>i s. Inr (s, Some i)), mo_Propagate = (\<lambda>e s. Inr s), mo_note = Inr, mo_publish = (\<lambda>xs s. Inr s)\<rparr>"

definition count_mi :: "(int, nat, string) mi_char" where
  "count_mi = \<lparr>mi_Cardinality = Some (\<lambda>s. Inr (Some 3)), mi_CompletionCondition = Some (\<lambda>s. Inr (s \<ge> 1)), mi_LoopDataInput = (\<lambda>s. Inr None),
     mi_InputDataItem = ''item'', mi_LoopDataOutputRef = ''outs'', mi_Behavior = BehaviorAll, mi_NoneEvent = [], mi_OneEvent = [], mi_Complex = []\<rparr>"

definition run_outputs :: "('v miState \<times> 's \<times> 'v option list) mres \<Rightarrow> 'v option list option" where
  "run_outputs r = (case r of MOk (st, s, outs) \<Rightarrow> Some outs | _ \<Rightarrow> None)"

theorem restored_condition_differs:
  "run_outputs (runMISequential count_mi_ops count_mi None 0) = Some [Some 0, Some 1] \<and>
   run_outputs (runMISequential count_mi_ops count_mi (Some demo_record) 1) = Some [Some 0]"
  by (rule conjI) code_simp+

text \<open>An instance whose output item has no value makes the loop panic while it stages the item.\<close>

theorem nil_output_panics:
  assumes "ms_staging st = Some a" and "a_iface a"
  shows "stage st i None = MPanic"
  using assms by (simp add: stage_def Array_SetAt_def checkValue_def)

theorem nil_output_panics_witness: "stage demo_mi_end 1 None = MPanic"
  by (rule nil_output_panics[of _ "\<lparr>a_elements = [Some 0, Some 10, Some 20], a_index = 0, a_iface = True\<rparr>"]) (simp_all add: demo_mi_end_def)

section \<open>The barrier of a parallel multi-instance\<close>

text \<open>
  The group at the loop and the runner's position. \<open>pg_waiting\<close> is the host's entry in the loop's \<^verbatim>\<open>waiting\<close> registry, \<open>pg_inbox\<close> tells
  whether a drain is in the host's channel of capacity one. An open instance is named by its ordinal. \<open>pg_drained\<close> is a record of the
  drains, with the output item captured by each; the code keeps the staged items only. \<open>Finished t cancel\<close> is the runner past the barrier,
  with the number of terminated instances and whether the completion condition ended the group.
\<close>

datatype runner = Awaiting | AtBarrier | Finished nat bool

record 'v par_mi =
  pg_n :: nat
  pg_open :: "nat list"
  pg_staging :: "'v option list option"
  pg_pending :: nat
  pg_waiting :: bool
  pg_inbox :: bool
  pg_completed :: nat
  pg_runner :: runner
  pg_drained :: "(nat \<times> 'v option) list"

definition handleFanOut :: "('s, 'v, 'e) mi_char \<Rightarrow> nat \<Rightarrow> 'v par_mi" where
  "handleFanOut mi n =
     \<lparr>pg_n = n, pg_open = [0 ..< n], pg_staging = (if mi_LoopDataOutputRef mi \<noteq> [] then Some (replicate n None) else None), pg_pending = 0,
      pg_waiting = True, pg_inbox = False, pg_completed = 0, pg_runner = Awaiting, pg_drained = []\<rparr>"

text \<open>\<open>rd\<close> is what reading the output item in the instance's scope gives; the slot captured is returned with the group.\<close>

definition captureParallelOutput :: "nat \<Rightarrow> 'v option result \<Rightarrow> 'v par_mi \<Rightarrow> ('v par_mi \<times> 'v option) mres" where
  "captureParallelOutput i rd g =
     (case pg_staging g of
        None \<Rightarrow> MOk (g, None)
      | Some xs \<Rightarrow>
          (case rd of
             Inl e \<Rightarrow> MErr e
           | Inr None \<Rightarrow> MPanic
           | Inr (Some v) \<Rightarrow> MOk (g\<lparr>pg_staging := Some (xs[i := Some v])\<rparr>, Some v)))"

text \<open>The drain of instance \<open>i\<close>: capture, leave the open set, deliver or count as pending.\<close>

definition drain_instance :: "nat \<Rightarrow> 'v option result \<Rightarrow> 'v par_mi \<Rightarrow> 'v par_mi mres" where
  "drain_instance i rd g =
     (case captureParallelOutput i rd g of
        MErr e \<Rightarrow> MErr e
      | MPanic \<Rightarrow> MPanic
      | MOk (g0, slot) \<Rightarrow>
          (let g1 = g0\<lparr>pg_open := removeAll i (pg_open g), pg_drained := pg_drained g @ [(i, slot)]\<rparr>
           in MOk (if pg_waiting g then g1\<lparr>pg_waiting := False, pg_inbox := True\<rparr> else g1\<lparr>pg_pending := Suc (pg_pending g)\<rparr>)))"

definition receive_drain :: "'v par_mi \<Rightarrow> 'v par_mi" where
  "receive_drain g = g\<lparr>pg_inbox := False, pg_completed := Suc (pg_completed g), pg_runner := AtBarrier\<rparr>"

definition handleReArm :: "'v par_mi \<Rightarrow> 'v par_mi" where
  "handleReArm g =
     (if pg_pending g > 0 then g\<lparr>pg_pending := pg_pending g - 1, pg_waiting := False, pg_inbox := True, pg_runner := Awaiting\<rparr>
      else g\<lparr>pg_waiting := True, pg_runner := Awaiting\<rparr>)"

definition cancelOpenInstances :: "'v par_mi \<Rightarrow> 'v par_mi \<times> nat" where
  "cancelOpenInstances g = (g\<lparr>pg_open := []\<rparr>, length (pg_open g))"

definition handleComplete :: "('s, 'v, 'e) mi_ops \<Rightarrow> bool \<Rightarrow> 'v par_mi \<Rightarrow> 's \<Rightarrow> ('v par_mi \<times> nat \<times> 's) result" where
  "handleComplete ops cancel g s =
     (let (g1, terminated) = (if cancel then cancelOpenInstances g else (g, 0))
      in (case pg_staging g1 of
            None \<Rightarrow> Inr (g1, terminated, s)
          | Some xs \<Rightarrow> (case mo_publish ops xs s of Inl e \<Rightarrow> Inl e | Inr s1 \<Rightarrow> Inr (g1, terminated, s1))))"

definition parallelBarrierStep :: "('s, 'v, 'e) mi_ops \<Rightarrow> ('s, 'v, 'e) mi_char \<Rightarrow> 'v par_mi \<Rightarrow> 's \<Rightarrow> ('v par_mi \<times> 's) result" where
  "parallelBarrierStep ops mi g s =
     (case bindMICounters ops (int (pg_n g)) (int (pg_completed g)) 0 s of
        Inl e \<Rightarrow> Inl e
      | Inr s1 \<Rightarrow>
          (case throwMIBehavior ops mi (pg_completed g) s1 of
             Inl e \<Rightarrow> Inl e
           | Inr s2 \<Rightarrow>
               (case completion_stop mi (int (pg_n g)) (pg_completed g) s2 of
                  Inl e \<Rightarrow> Inl e
                | Inr met \<Rightarrow>
                    (if met then
                       (case handleComplete ops True g s2 of
                          Inl e \<Rightarrow> Inl e
                        | Inr (g1, terminated, s3) \<Rightarrow>
                            (case bindMICounters ops (int (pg_n g)) (int (pg_completed g)) (int terminated) s3 of
                               Inl e \<Rightarrow> Inl e
                             | Inr s4 \<Rightarrow> Inr (g1\<lparr>pg_runner := Finished terminated True\<rparr>, s4)))
                     else if pg_completed g = pg_n g then
                       (case handleComplete ops False g s2 of
                          Inl e \<Rightarrow> Inl e
                        | Inr (g1, terminated, s3) \<Rightarrow> Inr (g1\<lparr>pg_runner := Finished terminated False\<rparr>, s3))
                     else Inr (handleReArm g, s2)))))"

text \<open>
  The interleavings of the runner with the drains of its instances, from the fan-out of \<open>n\<close> of them. The data the barrier step works on
  is arbitrary: other tracks write to it.
\<close>

inductive par_run :: "('s, 'v, 'e) mi_ops \<Rightarrow> ('s, 'v, 'e) mi_char \<Rightarrow> nat \<Rightarrow> 'v par_mi \<Rightarrow> bool" for ops mi n where
  fan_out: "0 < n \<Longrightarrow> par_run ops mi n (handleFanOut mi n)"
| drain: "par_run ops mi n g \<Longrightarrow> i \<in> set (pg_open g) \<Longrightarrow> drain_instance i rd g = MOk g' \<Longrightarrow> par_run ops mi n g'"
| receive: "par_run ops mi n g \<Longrightarrow> pg_runner g = Awaiting \<Longrightarrow> pg_inbox g \<Longrightarrow> par_run ops mi n (receive_drain g)"
| barrier: "par_run ops mi n g \<Longrightarrow> pg_runner g = AtBarrier \<Longrightarrow> parallelBarrierStep ops mi g s = Inr (g', s') \<Longrightarrow> par_run ops mi n g'"

definition slot_of :: "'v par_mi \<Rightarrow> nat \<Rightarrow> 'v option" where
  "slot_of g i = Option.bind (map_of (pg_drained g) i) id"

definition staging_ok :: "bool \<Rightarrow> 'v par_mi \<Rightarrow> bool" where
  "staging_ok outputs g \<longleftrightarrow>
     pg_staging g = (if outputs then Some (map (slot_of g) [0 ..< pg_n g]) else None) \<and>
     (outputs \<longrightarrow> (\<forall>p \<in> set (pg_drained g). snd p \<noteq> None))"

definition instances_ok :: "nat \<Rightarrow> 'v par_mi \<Rightarrow> bool" where
  "instances_ok n g \<longleftrightarrow>
     pg_n g = n \<and> distinct (pg_open g) \<and> distinct (map fst (pg_drained g)) \<and> set (pg_open g) \<inter> fst ` set (pg_drained g) = {} \<and>
     fst ` set (pg_drained g) \<subseteq> {..< n} \<and> set (pg_open g) \<subseteq> {..< n}"

definition barrier_ok :: "nat \<Rightarrow> 'v par_mi \<Rightarrow> bool" where
  "barrier_ok n g \<longleftrightarrow>
     length (pg_drained g) = pg_completed g + (if pg_inbox g then 1 else 0) + pg_pending g \<and>
     (case pg_runner g of
        Awaiting \<Rightarrow> pg_waiting g = (\<not> pg_inbox g) \<and> (pg_waiting g \<longrightarrow> pg_pending g = 0) \<and> pg_completed g < n \<and>
          length (pg_drained g) + length (pg_open g) = n
      | AtBarrier \<Rightarrow> \<not> pg_waiting g \<and> \<not> pg_inbox g \<and> length (pg_drained g) + length (pg_open g) = n
      | Finished t cancel \<Rightarrow> \<not> pg_waiting g \<and> \<not> pg_inbox g \<and> pg_open g = [] \<and> length (pg_drained g) + t = n \<and>
          (\<not> cancel \<longrightarrow> t = 0 \<and> pg_completed g = n))"

definition par_ok :: "('s, 'v, 'e) mi_char \<Rightarrow> nat \<Rightarrow> 'v par_mi \<Rightarrow> bool" where
  "par_ok mi n g \<longleftrightarrow> instances_ok n g \<and> staging_ok (mi_LoopDataOutputRef mi \<noteq> []) g \<and> barrier_ok n g"

lemma drain_fields:
  assumes "drain_instance i rd g = MOk g'"
  obtains slot where "pg_n g' = pg_n g" "pg_open g' = removeAll i (pg_open g)" "pg_drained g' = pg_drained g @ [(i, slot)]"
    "pg_completed g' = pg_completed g" "pg_runner g' = pg_runner g"
    "pg_staging g' = map_option (\<lambda>xs. xs[i := slot]) (pg_staging g)" "pg_staging g \<noteq> None \<longrightarrow> slot \<noteq> None"
    "pg_waiting g' = False" "pg_inbox g' = (pg_inbox g \<or> pg_waiting g)"
    "pg_pending g' = (if pg_waiting g then pg_pending g else Suc (pg_pending g))"
proof -
  obtain g0 slot where c: "captureParallelOutput i rd g = MOk (g0, slot)"
    using assms by (auto simp: drain_instance_def split: mres.splits)
  have "pg_staging g0 = map_option (\<lambda>xs. xs[i := slot]) (pg_staging g)" "pg_staging g \<noteq> None \<longrightarrow> slot \<noteq> None"
    "pg_n g0 = pg_n g" "pg_pending g0 = pg_pending g" "pg_completed g0 = pg_completed g" "pg_runner g0 = pg_runner g"
    "pg_inbox g0 = pg_inbox g" "pg_waiting g0 = pg_waiting g"
    using c by (auto simp: captureParallelOutput_def split: option.splits sum.splits)
  then show thesis using assms c that[of slot] by (auto simp: drain_instance_def Let_def)
qed

lemma instances_ok_drain:
  assumes "instances_ok n g" "i \<in> set (pg_open g)" "drain_instance i rd g = MOk g'"
  shows "instances_ok n g'"
  using assms(3)
  by (rule drain_fields) (use assms(1,2) in \<open>auto simp: instances_ok_def distinct_removeAll\<close>)

lemma map_of_snoc:
  assumes "i \<notin> fst ` set al"
  shows "map_of (al @ [(i, v)]) j = (if j = i then Some v else map_of al j)"
proof -
  have "map_of al i = None" using assms by (simp add: map_of_eq_None_iff)
  then show ?thesis by (auto simp: map_add_def split: option.split)
qed

lemma staging_ok_drain:
  assumes ok: "instances_ok n g" "staging_ok outputs g" and i: "i \<in> set (pg_open g)" and d: "drain_instance i rd g = MOk g'"
  shows "staging_ok outputs g'"
proof -
  obtain slot where f: "pg_n g' = pg_n g" "pg_drained g' = pg_drained g @ [(i, slot)]"
    "pg_staging g' = map_option (\<lambda>xs. xs[i := slot]) (pg_staging g)" "pg_staging g \<noteq> None \<longrightarrow> slot \<noteq> None"
    using d by (rule drain_fields)
  have nf: "i \<notin> fst ` set (pg_drained g)" "i < pg_n g" using ok(1) i by (auto simp: instances_ok_def)
  have "slot_of g' j = (if j = i then slot else slot_of g j)" for j
    by (simp add: slot_of_def f(2) map_of_snoc[OF nf(1)] del: map_of_append)
  then have "(map (slot_of g) [0 ..< pg_n g])[i := slot] = map (slot_of g') [0 ..< pg_n g]"
    by (intro nth_equalityI) (auto simp: nth_list_update)
  then show ?thesis using ok(2) f by (auto simp: staging_ok_def)
qed

lemma barrier_ok_drain:
  assumes ok: "instances_ok n g" "barrier_ok n g" and i: "i \<in> set (pg_open g)" and d: "drain_instance i rd g = MOk g'"
  shows "barrier_ok n g'"
proof -
  obtain slot where f: "pg_open g' = removeAll i (pg_open g)" "pg_drained g' = pg_drained g @ [(i, slot)]"
    "pg_completed g' = pg_completed g" "pg_runner g' = pg_runner g" "pg_waiting g' = False" "pg_inbox g' = (pg_inbox g \<or> pg_waiting g)"
    "pg_pending g' = (if pg_waiting g then pg_pending g else Suc (pg_pending g))"
    using d by (rule drain_fields)
  have "length (pg_open g) = Suc (length (remove1 i (pg_open g)))"
    using i length_pos_if_in_set[OF i] by (simp add: length_remove1)
  then have len: "length (pg_open g) = Suc (length (removeAll i (pg_open g)))"
    using ok(1) by (simp add: instances_ok_def distinct_remove1_removeAll)
  have ne: "pg_open g \<noteq> []" using i by auto
  show ?thesis using ok(2) f len ne unfolding barrier_ok_def by (auto split: runner.splits if_splits)
qed

lemma par_ok_drain:
  "par_ok mi n g \<Longrightarrow> i \<in> set (pg_open g) \<Longrightarrow> drain_instance i rd g = MOk g' \<Longrightarrow> par_ok mi n g'"
  using instances_ok_drain staging_ok_drain barrier_ok_drain unfolding par_ok_def by metis

text \<open>What the barrier step leaves, in terms of the group alone.\<close>

lemma barrier_step_cases:
  assumes "parallelBarrierStep ops mi g s = Inr (g', s')"
  obtains (early) "pg_completed g < pg_n g" "mi_CompletionCondition mi \<noteq> None"
      "g' = g\<lparr>pg_open := [], pg_runner := Finished (length (pg_open g)) True\<rparr>"
      "\<exists>s1. bindMICounters ops (int (pg_n g)) (int (pg_completed g)) (int (length (pg_open g))) s1 = Inr s'"
    | (complete) "pg_completed g = pg_n g" "g' = g\<lparr>pg_runner := Finished 0 False\<rparr>"
    | (rearm) "pg_completed g \<noteq> pg_n g" "g' = handleReArm g"
proof -
  obtain s1 where s1: "bindMICounters ops (int (pg_n g)) (int (pg_completed g)) 0 s = Inr s1"
    using assms by (auto simp: parallelBarrierStep_def split: sum.splits)
  obtain s2 where s2: "throwMIBehavior ops mi (pg_completed g) s1 = Inr s2"
    using assms s1 by (auto simp: parallelBarrierStep_def split: sum.splits)
  obtain met where met: "completion_stop mi (int (pg_n g)) (pg_completed g) s2 = Inr met"
    using assms s1 s2 by (auto simp: parallelBarrierStep_def split: sum.splits)
  note ok = s1 s2 met
  show thesis
  proof (cases met)
    case True
    then have "pg_completed g < pg_n g" "mi_CompletionCondition mi \<noteq> None"
      using met by (auto simp: completion_stop_def split: option.splits if_splits)
    moreover obtain g1 t s3 where hc: "handleComplete ops True g s2 = Inr (g1, t, s3)" "g' = g1\<lparr>pg_runner := Finished t True\<rparr>"
        "bindMICounters ops (int (pg_n g)) (int (pg_completed g)) (int t) s3 = Inr s'"
      using assms True by (simp add: parallelBarrierStep_def ok split: sum.splits prod.splits)
    moreover have "g1 = g\<lparr>pg_open := []\<rparr>" "t = length (pg_open g)"
      using hc(1) by (auto simp: handleComplete_def cancelOpenInstances_def split: option.splits sum.splits)
    ultimately show ?thesis by (intro early) auto
  next
    case False
    show ?thesis
    proof (cases "pg_completed g = pg_n g")
      case True
      then have "(case handleComplete ops False g s2 of
          Inl e \<Rightarrow> Inl e
        | Inr (g1, terminated, s3) \<Rightarrow> Inr (g1\<lparr>pg_runner := Finished terminated False\<rparr>, s3)) = Inr (g', s')"
        using assms False ok by (simp add: parallelBarrierStep_def)
      then obtain g1 t s3 where hc: "handleComplete ops False g s2 = Inr (g1, t, s3)" "g' = g1\<lparr>pg_runner := Finished t False\<rparr>"
        by (auto split: sum.splits prod.splits)
      moreover have "g1 = g" "t = 0" using hc(1) by (auto simp: handleComplete_def split: option.splits sum.splits)
      ultimately show ?thesis using True by (intro complete) auto
    next
      case nc: False
      then show ?thesis using assms False by (intro rearm) (auto simp: parallelBarrierStep_def ok)
    qed
  qed
qed

lemma par_ok_barrier:
  assumes ok: "par_ok mi n g" and "pg_runner g = AtBarrier" and b: "parallelBarrierStep ops mi g s = Inr (g', s')"
  shows "par_ok mi n g'"
  using b
proof (cases rule: barrier_step_cases)
  case early
  then show ?thesis using assms by (auto simp: par_ok_def instances_ok_def staging_ok_def barrier_ok_def slot_of_def)
next
  case complete
  then show ?thesis using assms by (auto simp: par_ok_def instances_ok_def staging_ok_def barrier_ok_def slot_of_def)
next
  case rearm
  then show ?thesis using assms by (auto simp: par_ok_def instances_ok_def staging_ok_def barrier_ok_def slot_of_def handleReArm_def)
qed

lemma par_run_ok: "par_run ops mi n g \<Longrightarrow> par_ok mi n g"
proof (induction rule: par_run.induct)
  case fan_out
  have "slot_of (handleFanOut mi n) = (\<lambda>_. None)" by (rule ext) (simp add: slot_of_def handleFanOut_def)
  moreover have "pg_n (handleFanOut mi n) = n" "pg_drained (handleFanOut mi n) = []"
      "pg_staging (handleFanOut mi n) = (if mi_LoopDataOutputRef mi \<noteq> [] then Some (replicate n None) else None)"
    by (simp_all add: handleFanOut_def)
  ultimately have "staging_ok (mi_LoopDataOutputRef mi \<noteq> []) (handleFanOut mi n)" by (simp add: staging_ok_def map_replicate_const)
  moreover have "instances_ok n (handleFanOut mi n)" by (auto simp: instances_ok_def handleFanOut_def)
  moreover have "barrier_ok n (handleFanOut mi n)" using fan_out by (simp add: barrier_ok_def handleFanOut_def)
  ultimately show ?case by (simp add: par_ok_def)
next
  case (drain g i rd g') then show ?case by (metis par_ok_drain)
next
  case (receive g)
  then show ?case by (auto simp: par_ok_def instances_ok_def staging_ok_def barrier_ok_def slot_of_def receive_drain_def)
next
  case (barrier g s g' s') then show ?case by (metis par_ok_barrier)
qed

text \<open>
  Claim C12. The barrier of a parallel multi-instance: it ends, unless its completion condition ended it early, only when every instance has
  drained, each once, and then the published collection holds the output of every instance at its ordinal.
\<close>

theorem parallel_barrier_complete:
  assumes "par_run ops mi n g" and "pg_runner g = Finished t False"
  shows "pg_completed g = n \<and> pg_open g = [] \<and> distinct (map fst (pg_drained g)) \<and> fst ` set (pg_drained g) = {..< n} \<and>
    (mi_LoopDataOutputRef mi \<noteq> [] \<longrightarrow>
      pg_staging g = Some (map (slot_of g) [0 ..< n]) \<and> (\<forall>i < n. \<exists>v. (i, Some v) \<in> set (pg_drained g) \<and> slot_of g i = Some v))"
proof -
  have ok: "instances_ok n g" "staging_ok (mi_LoopDataOutputRef mi \<noteq> []) g" "barrier_ok n g" using par_run_ok[OF assms(1)] by (auto simp: par_ok_def)
  then have d: "distinct (map fst (pg_drained g))" "length (pg_drained g) = n" "fst ` set (pg_drained g) \<subseteq> {..< n}" "pg_n g = n"
    using assms(2) by (auto simp: instances_ok_def barrier_ok_def)
  have "card (fst ` set (pg_drained g)) = n" using distinct_card[OF d(1)] d(2) by simp
  then have all: "fst ` set (pg_drained g) = {..< n}" using d(3) by (intro card_subset_eq) auto
  have "\<exists>v. (i, Some v) \<in> set (pg_drained g) \<and> slot_of g i = Some v" if o: "mi_LoopDataOutputRef mi \<noteq> []" and i: "i < n" for i
  proof -
    have "i \<in> fst ` set (pg_drained g)" using all i by simp
    then obtain u where u: "(i, u) \<in> set (pg_drained g)" by auto
    then have "u \<noteq> None" using ok(2) o unfolding staging_ok_def by fastforce
    moreover have "slot_of g i = u" using map_of_is_SomeI[OF d(1) u] by (simp add: slot_of_def)
    ultimately show ?thesis using u by auto
  qed
  moreover have "mi_LoopDataOutputRef mi \<noteq> [] \<longrightarrow> pg_staging g = Some (map (slot_of g) [0 ..< n])"
    using ok(2) d(4) by (simp add: staging_ok_def)
  moreover have "pg_completed g = n" "pg_open g = []" using ok(3) assms(2) by (simp_all add: barrier_ok_def)
  ultimately show ?thesis using all d(1) by blast
qed

text \<open>Claim C13. Once every instance has drained, the runner can always go on: no drain is lost between the loop and the channel of capacity one.\<close>

theorem parallel_barrier_not_stuck:
  assumes "par_run ops mi n g" and "pg_open g = []" and "pg_runner g = Awaiting"
  shows "pg_inbox g"
  using par_run_ok[OF assms(1)] assms(2,3) by (auto simp: par_ok_def barrier_ok_def)

text \<open>
  When the completion condition ends the group early, the drains that had not been delivered yet are counted neither as completed nor
  as terminated: the \<^verbatim>\<open>numberOfActiveInstances\<close> bound last is their number, although nothing is active any more.
\<close>

theorem early_completion_miscounts:
  assumes "par_run ops mi n g" and "pg_runner g = AtBarrier" and "parallelBarrierStep ops mi g s = Inr (g', s')" and "pg_runner g' = Finished t True"
  shows "pg_open g' = [] \<and> (\<exists>s1 bs. mo_bind ops bs s1 = Inr s' \<and> (''numberOfActiveInstances'', MInt (int (pg_pending g))) \<in> set bs)"
  using assms(3)
proof (cases rule: barrier_step_cases)
  case early
  have b: "barrier_ok n g" "pg_n g = n" using par_run_ok[OF assms(1)] by (auto simp: par_ok_def instances_ok_def)
  then have "int (pg_n g) - int (pg_completed g) - int (length (pg_open g)) = int (pg_pending g)"
    using assms(2) by (auto simp: barrier_ok_def)
  then have "(''numberOfActiveInstances'', MInt (int (pg_pending g))) \<in> set (counters (int (pg_n g)) (int (pg_completed g)) (int (length (pg_open g))))"
    by (simp add: counters_def)
  then show ?thesis using early by (auto simp: bindMICounters_def)
next
  case complete
  then show ?thesis using assms(4) by simp
next
  case rearm
  then show ?thesis using assms(4) by (simp add: handleReArm_def split: if_splits)
qed

definition par_two :: "nat par_mi" where
  "par_two = \<lparr>pg_n = 2, pg_open = [], pg_staging = Some [Some 7, Some 8], pg_pending = 0, pg_waiting = False, pg_inbox = True, pg_completed = 1,
     pg_runner = Awaiting, pg_drained = [(1, Some 8), (0, Some 7)]\<rparr>"

lemma par_two_run: "par_run demo_mi_ops demo_mi 2 par_two"
proof -
  let ?g1 = "par_two\<lparr>pg_open := [0], pg_staging := Some [None, Some 8], pg_completed := 0, pg_drained := [(1, Some 8)]\<rparr>"
  have "par_run demo_mi_ops demo_mi 2 ?g1"
  proof (rule par_run.drain[where g = "handleFanOut demo_mi 2" and i = 1 and rd = "Inr (Some 8)"])
    show "par_run demo_mi_ops demo_mi 2 (handleFanOut demo_mi 2)" by (rule par_run.fan_out) simp
    show "drain_instance 1 (Inr (Some 8)) (handleFanOut demo_mi 2) = MOk ?g1" by code_simp
  qed code_simp+
  then have "par_run demo_mi_ops demo_mi 2 (receive_drain ?g1)" by (rule par_run.receive) code_simp+
  then have "par_run demo_mi_ops demo_mi 2 (handleReArm (receive_drain ?g1))"
  proof (rule par_run.barrier)
    show "parallelBarrierStep demo_mi_ops demo_mi (receive_drain ?g1) [] = Inr (handleReArm (receive_drain ?g1), [])" by code_simp
  qed code_simp
  then show ?thesis
  proof (rule par_run.drain[where i = 0 and rd = "Inr (Some 7)"])
    show "drain_instance 0 (Inr (Some 7)) (handleReArm (receive_drain ?g1)) = MOk par_two" by code_simp
  qed code_simp
qed

definition par_demo :: "nat par_mi" where
  "par_demo = (receive_drain par_two)\<lparr>pg_runner := Finished 0 False\<rparr>"

theorem parallel_barrier_complete_witness:
  "pg_runner par_demo = Finished 0 False \<and> pg_completed par_demo = 2 \<and> pg_staging par_demo = Some [Some 7, Some 8]"
proof -
  have "par_run demo_mi_ops demo_mi 2 (receive_drain par_two)" by (rule par_run.receive[OF par_two_run]) code_simp+
  then have r: "par_run demo_mi_ops demo_mi 2 par_demo"
  proof (rule par_run.barrier)
    show "parallelBarrierStep demo_mi_ops demo_mi (receive_drain par_two) [] = Inr (par_demo, [])" by code_simp
  qed code_simp
  have f: "pg_runner par_demo = Finished 0 False" by code_simp
  have "map (slot_of par_demo) [0 ..< 2] = [Some 7, Some 8]" "mi_LoopDataOutputRef demo_mi \<noteq> []" by code_simp+
  then show ?thesis using parallel_barrier_complete[OF r f] f by simp
qed

theorem parallel_barrier_not_stuck_witness: "pg_open par_two = [] \<and> pg_inbox par_two"
proof -
  have "pg_open par_two = []" "pg_runner par_two = Awaiting" by code_simp+
  then show ?thesis using parallel_barrier_not_stuck[OF par_two_run] by simp
qed

text \<open>Three instances, a condition that always holds, and a second drain before the runner has taken the first.\<close>

definition early_mi :: "(nat list, nat, string) mi_char" where
  "early_mi = demo_mi\<lparr>mi_CompletionCondition := Some (\<lambda>s. Inr True)\<rparr>"

definition par_early :: "nat par_mi" where
  "par_early = \<lparr>pg_n = 3, pg_open = [2], pg_staging = Some [Some 7, Some 8, None], pg_pending = 1, pg_waiting = False, pg_inbox = False,
     pg_completed = 1, pg_runner = AtBarrier, pg_drained = [(0, Some 7), (1, Some 8)]\<rparr>"

lemma par_early_run: "par_run demo_mi_ops early_mi 3 par_early"
proof -
  let ?g2 = "par_early\<lparr>pg_inbox := True, pg_completed := 0, pg_runner := Awaiting\<rparr>"
  let ?g1 = "?g2\<lparr>pg_open := [1, 2], pg_staging := Some [Some 7, None, None], pg_pending := 0, pg_drained := [(0, Some 7)]\<rparr>"
  have "par_run demo_mi_ops early_mi 3 ?g1"
  proof (rule par_run.drain[where g = "handleFanOut early_mi 3" and i = 0 and rd = "Inr (Some 7)"])
    show "par_run demo_mi_ops early_mi 3 (handleFanOut early_mi 3)" by (rule par_run.fan_out) simp
    show "drain_instance 0 (Inr (Some 7)) (handleFanOut early_mi 3) = MOk ?g1" by code_simp
  qed code_simp+
  then have "par_run demo_mi_ops early_mi 3 ?g2"
  proof (rule par_run.drain[where i = 1 and rd = "Inr (Some 8)"])
    show "drain_instance 1 (Inr (Some 8)) ?g1 = MOk ?g2" by code_simp
  qed code_simp
  then have "par_run demo_mi_ops early_mi 3 (receive_drain ?g2)" by (rule par_run.receive) code_simp+
  moreover have "receive_drain ?g2 = par_early" by (simp add: receive_drain_def par_early_def)
  ultimately show ?thesis by simp
qed

theorem early_completion_miscounts_witness:
  "\<exists>s1 bs. mo_bind demo_mi_ops bs s1 = Inr [] \<and> (''numberOfActiveInstances'', MInt 1) \<in> set bs"
proof -
  let ?g = "par_early\<lparr>pg_open := [], pg_runner := Finished 1 True\<rparr>"
  have b: "parallelBarrierStep demo_mi_ops early_mi par_early [] = Inr (?g, [])" by code_simp
  have f: "pg_runner par_early = AtBarrier" "pg_runner ?g = Finished 1 True" "pg_pending par_early = 1" by (simp_all add: par_early_def)
  show ?thesis using early_completion_miscounts[OF par_early_run f(1) b f(2)] f(3) by simp
qed

end
