(* ===== verification/Incidents.thy ===== *)
theory Incidents
  imports Gobpm_Prelude
begin

text \<open>
  Incidents (\<^verbatim>\<open>src/internal/instance/incident.go\<close> and the incident branches of \<^verbatim>\<open>loop.go\<close>): the durable record of a failure that the process
  model did not handle, its automatic and manual retries, its close, and the pin by which it keeps its scope open.

  Ids come from a generator that never repeats; they are natural numbers here, \<open>il_next\<close> being the next one. Instants are nanoseconds, and
  \<open>None\<close> is the zero time. Facts, logging and the read projection are left out. A scope is its drain counter; what happens at its
  completion beyond the removal of its entry belongs to \<open>Scope_Runtime\<close>, and the model notes who was still in the scope. \<open>il_pins\<close> is a
  record, kept beside the code's state, of the incidents whose scope counter is still up for a failed track.
\<close>

section \<open>Data\<close>

datatype incidentState = incidentOpen | incidentRetryScheduled | incidentResolved | incidentDeadLettered | incidentOvertaken

definition incidentStates :: "incidentState list" where
  "incidentStates = [incidentOpen, incidentRetryScheduled, incidentResolved, incidentDeadLettered, incidentOvertaken]"

fun incidentState_String :: "incidentState \<Rightarrow> string" where
  "incidentState_String incidentOpen = ''open''"
| "incidentState_String incidentRetryScheduled = ''retry-scheduled''"
| "incidentState_String incidentResolved = ''resolved''"
| "incidentState_String incidentDeadLettered = ''dead-lettered''"
| "incidentState_String incidentOvertaken = ''overtaken''"

definition incidentStateFromName :: "string \<Rightarrow> incidentState option" where
  "incidentStateFromName = map_of (map (\<lambda>st. (incidentState_String st, st)) incidentStates)"

definition state_open :: "incidentState \<Rightarrow> bool" where
  "state_open s \<longleftrightarrow> s = incidentOpen \<or> s = incidentRetryScheduled"

text \<open>A node: its id and name, the nodes its outgoing flows lead to, by id, and its inner nodes.\<close>

datatype inode = INode (nd_ID: string) (nd_Name: string) (nd_Outgoing: "string list") (nd_Nodes: "inode list")

record 'd incident =
  ic_id :: nat
  ic_nodeID :: string
  ic_nodeName :: string
  ic_trackID :: nat
  ic_scopePath :: string
  ic_scopeSeg :: string
  ic_cause :: string
  ic_causeClass :: string
  ic_prev :: "nat list"
  ic_node :: "inode option"
  ic_data :: "'d option"
  ic_attempts :: nat
  ic_state :: incidentState
  ic_firstAt :: int
  ic_lastAt :: int
  ic_retryAt :: "int option"

record itrack =
  it_node :: inode
  it_scopePath :: string
  it_scopeSeg :: string
  it_prev :: "nat list"
  it_skipInitialArm :: bool

record iscope =
  sc_active :: int
  sc_aborting :: bool
  sc_awaitAttach :: bool
  sc_drainPending :: bool

text \<open>
  \<open>il_tracks\<close> are the tracks whose end the loop has not applied yet; a boundary watch is its boundary's id and its host. \<open>il_retryC\<close> is the
  instant at which the retry channel delivers. An entry of \<open>il_completed\<close> is a completed scope with the tracks and the pins it still had.
\<close>

record 'd iloop =
  il_incidents :: "(nat \<times> 'd incident) list"
  il_openIncCount :: int
  il_tracks :: "(nat \<times> itrack) list"
  il_active :: int
  il_scopes :: "(string \<times> iscope) list"
  il_position :: "(nat \<times> inode) list"
  il_watchers :: "(nat \<times> (string \<times> nat) list) list"
  il_now :: int
  il_retryC :: "int option"
  il_next :: nat
  il_stopping :: bool
  il_completed :: "(string \<times> nat list \<times> nat list) list"
  il_pins :: "nat list"

text \<open>What the loop gets from elsewhere: the process's top-level nodes, the target of a flow, whether a track can be built on a node,
  the retry policy of a node or of the engine, the failure-time snapshot, and the boundary watches of an activity.\<close>

record ('c, 'd) ienv =
  ie_Nodes :: "inode list"
  ie_target :: "string \<Rightarrow> inode"
  ie_newTrack :: "inode \<Rightarrow> unit result"
  ie_policy :: "inode \<Rightarrow> (nat \<Rightarrow> 'c \<Rightarrow> int \<times> bool) option"
  ie_enginePolicy :: "(nat \<Rightarrow> 'c \<Rightarrow> int \<times> bool) option"
  ie_render :: "'c \<Rightarrow> string"
  ie_class :: "'c \<Rightarrow> string"
  ie_snapshot :: "string \<Rightarrow> 'd option"
  ie_boundaries :: "inode \<Rightarrow> string list"

section \<open>Lookups\<close>

definition openIncidents :: "'d iloop \<Rightarrow> nat" where
  "openIncidents il = length (filter (\<lambda>p. state_open (ic_state (snd p))) (il_incidents il))"

definition deadLetters :: "'d iloop \<Rightarrow> nat" where
  "deadLetters il = length (filter (\<lambda>p. ic_state (snd p) = incidentDeadLettered) (il_incidents il))"

definition pendingRetries :: "'d iloop \<Rightarrow> nat" where
  "pendingRetries il = length (filter (\<lambda>p. ic_state (snd p) = incidentRetryScheduled) (il_incidents il))"

definition stands_at :: "string \<Rightarrow> string \<Rightarrow> string \<Rightarrow> 'd incident \<Rightarrow> bool" where
  "stands_at nodeID path seg inc \<longleftrightarrow>
     state_open (ic_state inc) \<and> ic_nodeID inc = nodeID \<and> ic_scopePath inc = path \<and> ic_scopeSeg inc = seg"

definition openIncidentAt :: "'d iloop \<Rightarrow> string \<Rightarrow> string \<Rightarrow> string \<Rightarrow> 'd incident option" where
  "openIncidentAt il nodeID path seg = map_option snd (List.find (\<lambda>p. stands_at nodeID path seg (snd p)) (il_incidents il))"

fun nodeInContainers :: "string \<Rightarrow> inode list \<Rightarrow> inode option" where
  "nodeInContainers i [] = None"
| "nodeInContainers i (INode j nm out inner # ns) =
     (if j = i then Some (INode j nm out inner)
      else (case nodeInContainers i inner of Some n \<Rightarrow> Some n | None \<Rightarrow> nodeInContainers i ns))"

fun first_some :: "('a \<Rightarrow> 'b option) \<Rightarrow> 'a list \<Rightarrow> 'b option" where
  "first_some f [] = None"
| "first_some f (x # xs) = (case f x of Some y \<Rightarrow> Some y | None \<Rightarrow> first_some f xs)"

definition nodeByID :: "('c, 'd) ienv \<Rightarrow> string \<Rightarrow> inode option" where
  "nodeByID env i =
     (case List.find (\<lambda>n. nd_ID n = i) (ie_Nodes env) of
        Some n \<Rightarrow> Some n
      | None \<Rightarrow> first_some (\<lambda>n. nodeInContainers i (nd_Nodes n)) (ie_Nodes env))"

definition incidentNode :: "('c, 'd) ienv \<Rightarrow> 'd incident \<Rightarrow> inode option" where
  "incidentNode env inc = (case ic_node inc of Some n \<Rightarrow> Some n | None \<Rightarrow> nodeByID env (ic_nodeID inc))"

definition resolveIncidentRetryPolicy :: "('c, 'd) ienv \<Rightarrow> inode \<Rightarrow> (nat \<Rightarrow> 'c \<Rightarrow> int \<times> bool) option" where
  "resolveIncidentRetryPolicy env n = (case ie_policy env n of Some p \<Rightarrow> Some p | None \<Rightarrow> ie_enginePolicy env)"

section \<open>The scope counter, spawning and watches\<close>

definition put_incident :: "'d incident \<Rightarrow> 'd iloop \<Rightarrow> 'd iloop" where
  "put_incident inc il = il\<lparr>il_incidents := AList.update (ic_id inc) inc (il_incidents il)\<rparr>"

definition in_scope :: "'d iloop \<Rightarrow> string \<Rightarrow> nat list" where
  "in_scope il path = map fst (filter (\<lambda>p. it_scopePath (snd p) = path) (il_tracks il))"

definition pinned_in :: "'d iloop \<Rightarrow> string \<Rightarrow> nat list" where
  "pinned_in il path = filter (\<lambda>i. map_option ic_scopePath (map_of (il_incidents il) i) = Some path) (il_pins il)"

definition icompleteScope :: "string \<Rightarrow> 'd iloop \<Rightarrow> 'd iloop" where
  "icompleteScope path il =
     il\<lparr>il_scopes := AList.delete path (il_scopes il), il_completed := (path, in_scope il path, pinned_in il path) # il_completed il\<rparr>"

text \<open>The release of one count of a scope, after the track or the pin it stood for has gone.\<close>

definition release_count :: "string \<Rightarrow> 'd iloop \<Rightarrow> 'd iloop" where
  "release_count path il =
     (case map_of (il_scopes il) path of
        None \<Rightarrow> il
      | Some e \<Rightarrow>
          (let e1 = e\<lparr>sc_active := sc_active e - 1\<rparr>; il1 = il\<lparr>il_scopes := AList.update path e1 (il_scopes il)\<rparr>
           in if sc_active e1 > 0 \<or> sc_aborting e1 then il1
              else if sc_awaitAttach e1 then il1\<lparr>il_scopes := AList.update path (e1\<lparr>sc_drainPending := True\<rparr>) (il_scopes il)\<rparr>
              else icompleteScope path il1))"

definition decScopePinned :: "nat \<Rightarrow> string \<Rightarrow> 'd iloop \<Rightarrow> 'd iloop" where
  "decScopePinned i path il = release_count path (il\<lparr>il_pins := remove1 i (il_pins il)\<rparr>)"

definition iincScope :: "string \<Rightarrow> 'd iloop \<Rightarrow> 'd iloop" where
  "iincScope path il =
     (case map_of (il_scopes il) path of
        None \<Rightarrow> il
      | Some e \<Rightarrow> il\<lparr>il_scopes := AList.update path (e\<lparr>sc_active := sc_active e + 1\<rparr>) (il_scopes il)\<rparr>)"

definition iarm :: "('c, 'd) ienv \<Rightarrow> nat \<Rightarrow> itrack \<Rightarrow> 'd iloop \<Rightarrow> 'd iloop" where
  "iarm env t tr il =
     (if it_skipInitialArm tr then il\<lparr>il_tracks := AList.update t (tr\<lparr>it_skipInitialArm := False\<rparr>) (il_tracks il)\<rparr>
      else if ie_boundaries env (it_node tr) = [] then il
      else il\<lparr>il_watchers := AList.update t (map (\<lambda>b. (b, t)) (ie_boundaries env (it_node tr))) (il_watchers il)\<rparr>)"

text \<open>The id of the new track is drawn from the generator when the track is built.\<close>

definition ispawn :: "('c, 'd) ienv \<Rightarrow> itrack \<Rightarrow> 'd iloop \<Rightarrow> 'd iloop" where
  "ispawn env tr il =
     (let t = il_next il;
          il1 = iincScope (it_scopePath tr)
            (il\<lparr>il_next := Suc t, il_tracks := il_tracks il @ [(t, tr)], il_active := il_active il + 1\<rparr>)
      in iarm env t tr (il1\<lparr>il_position := AList.update t (it_node tr) (il_position il1)\<rparr>))"

definition idisarmBoundaries :: "nat \<Rightarrow> 'd iloop \<Rightarrow> 'd iloop" where
  "idisarmBoundaries t il = il\<lparr>il_watchers := AList.delete t (il_watchers il)\<rparr>"

definition transferWatches :: "nat \<Rightarrow> nat \<Rightarrow> 'd iloop \<Rightarrow> 'd iloop" where
  "transferWatches old new il =
     (case map_of (il_watchers il) old of
        None \<Rightarrow> il
      | Some ws \<Rightarrow> il\<lparr>il_watchers := AList.update new (map (\<lambda>w. (fst w, new)) ws) (AList.delete old (il_watchers il))\<rparr>)"

section \<open>Raising and scheduling\<close>

definition rearmIncidentRetryTimer :: "'d iloop \<Rightarrow> 'd iloop" where
  "rearmIncidentRetryTimer il =
     (let ds = List.map_filter (\<lambda>p. if ic_state (snd p) = incidentRetryScheduled then ic_retryAt (snd p) else None) (il_incidents il)
      in il\<lparr>il_retryC := (case ds of [] \<Rightarrow> None | d # ds' \<Rightarrow> Some (il_now il + max 0 (foldr min ds' d - il_now il)))\<rparr>)"

definition scheduleIncidentRetry :: "('c, 'd) ienv \<Rightarrow> int \<Rightarrow> 'c \<Rightarrow> 'd incident \<Rightarrow> 'd incident" where
  "scheduleIncidentRetry env now cause inc =
     (case incidentNode env inc of
        None \<Rightarrow> inc
      | Some n \<Rightarrow>
          (case resolveIncidentRetryPolicy env n of
             None \<Rightarrow> inc
           | Some p \<Rightarrow>
               (let (backoff, retry) = p (ic_attempts inc) cause
                in if \<not> retry then inc else inc\<lparr>ic_state := incidentRetryScheduled, ic_retryAt := Some (now + backoff)\<rparr>)))"

definition raiseIncident :: "('c, 'd) ienv \<Rightarrow> nat \<Rightarrow> itrack \<Rightarrow> 'c \<Rightarrow> 'd iloop \<Rightarrow> 'd iloop" where
  "raiseIncident env t tr cause il =
     (let n = it_node tr; now = il_now il;
          (inc, il1) =
            (case openIncidentAt il (nd_ID n) (it_scopePath tr) (it_scopeSeg tr) of
               Some inc \<Rightarrow> (inc, il)
             | None \<Rightarrow>
                 (\<lparr>ic_id = il_next il, ic_nodeID = nd_ID n, ic_nodeName = nd_Name n, ic_trackID = t, ic_scopePath = it_scopePath tr,
                   ic_scopeSeg = it_scopeSeg tr, ic_cause = [], ic_causeClass = [], ic_prev = [], ic_node = None, ic_data = None,
                   ic_attempts = 0, ic_state = incidentOpen, ic_firstAt = now, ic_lastAt = now, ic_retryAt = None\<rparr>,
                  il\<lparr>il_next := Suc (il_next il), il_openIncCount := il_openIncCount il + 1\<rparr>));
          inc1 = inc\<lparr>ic_node := Some n, ic_trackID := t, ic_prev := it_prev tr, ic_cause := ie_render env cause, ic_causeClass := ie_class env cause,
                    ic_attempts := Suc (ic_attempts inc), ic_lastAt := now, ic_state := incidentOpen, ic_data := ie_snapshot env (it_scopePath tr)\<rparr>
      in rearmIncidentRetryTimer (put_incident (scheduleIncidentRetry env now cause inc1) (il1\<lparr>il_pins := ic_id inc # il_pins il1\<rparr>)))"

text \<open>The incident branch of \<^verbatim>\<open>applyFailed\<close>: the count of the failed track stays in its scope, as do its position and its watches.\<close>

definition applyFailed_incident :: "('c, 'd) ienv \<Rightarrow> nat \<Rightarrow> 'c \<Rightarrow> 'd iloop \<Rightarrow> 'd iloop" where
  "applyFailed_incident env t cause il =
     (case map_of (il_tracks il) t of
        None \<Rightarrow> il
      | Some tr \<Rightarrow>
          (let il1 = raiseIncident env t tr cause il
           in il1\<lparr>il_active := il_active il1 - 1, il_tracks := AList.delete t (il_tracks il1)\<rparr>))"

section \<open>Closing and retrying\<close>

definition closeIncident :: "incidentState \<Rightarrow> 'd incident \<Rightarrow> 'd iloop \<Rightarrow> 'd iloop" where
  "closeIncident to inc il =
     put_incident (inc\<lparr>ic_state := to, ic_retryAt := None, ic_lastAt := il_now il\<rparr>) (il\<lparr>il_openIncCount := il_openIncCount il - 1\<rparr>)"

fun spawn_succs :: "('c, 'd) ienv \<Rightarrow> 'd incident \<Rightarrow> string list \<Rightarrow> 'd iloop \<Rightarrow> 'd iloop \<times> bool" where
  "spawn_succs env inc [] il = (il, True)"
| "spawn_succs env inc (s # ss) il =
     (case ie_newTrack env (ie_target env s) of
        Inl _ \<Rightarrow> (il\<lparr>il_stopping := True\<rparr>, False)
      | Inr _ \<Rightarrow>
          spawn_succs env inc ss
            (ispawn env \<lparr>it_node = ie_target env s, it_scopePath = ic_scopePath inc, it_scopeSeg = ic_scopeSeg inc,
                         it_prev = ic_prev inc @ [ic_trackID inc], it_skipInitialArm = False\<rparr> il))"

definition resolveIncident :: "('c, 'd) ienv \<Rightarrow> 'd incident \<Rightarrow> 'd iloop \<Rightarrow> 'd iloop \<times> unit result" where
  "resolveIncident env inc il =
     (case incidentNode env inc of
        None \<Rightarrow> (il, Inl (AppError ObjectNotFound ''resolve: node %q isn't in the process snapshot''))
      | Some n \<Rightarrow>
          (let il1 = idisarmBoundaries (ic_trackID inc) (closeIncident incidentResolved inc il);
               il2 = il1\<lparr>il_position := AList.delete (ic_trackID inc) (il_position il1)\<rparr>;
               (il3, ok) = spawn_succs env inc (nd_Outgoing n) il2
           in (if ok then decScopePinned (ic_id inc) (ic_scopePath inc) il3 else il3, Inr ())))"

definition dropIncident :: "'d incident \<Rightarrow> 'd iloop \<Rightarrow> 'd iloop" where
  "dropIncident inc il =
     (let il1 = idisarmBoundaries (ic_trackID inc) (closeIncident incidentDeadLettered inc il)
      in il1\<lparr>il_position := AList.delete (ic_trackID inc) (il_position il1)\<rparr>)"

definition retryIncident :: "('c, 'd) ienv \<Rightarrow> 'd incident \<Rightarrow> 'd iloop \<Rightarrow> 'd iloop" where
  "retryIncident env inc il =
     (case Option.bind (incidentNode env inc) (\<lambda>n. case ie_newTrack env n of Inl _ \<Rightarrow> None | Inr _ \<Rightarrow> Some n) of
        None \<Rightarrow> put_incident (inc\<lparr>ic_state := incidentOpen, ic_retryAt := None\<rparr>) il
      | Some n \<Rightarrow>
          (let t = il_next il;
               tr = \<lparr>it_node = n, it_scopePath = ic_scopePath inc, it_scopeSeg = ic_scopeSeg inc, it_prev = ic_prev inc @ [ic_trackID inc],
                     it_skipInitialArm = True\<rparr>;
               il1 = transferWatches (ic_trackID inc) t il;
               il2 = put_incident (inc\<lparr>ic_trackID := t, ic_state := incidentOpen, ic_retryAt := None\<rparr>) il1
           in decScopePinned (ic_id inc) (ic_scopePath inc) (ispawn env tr il2)))"

fun on_incidents :: "('d incident \<Rightarrow> bool) \<Rightarrow> ('d incident \<Rightarrow> 'd iloop \<Rightarrow> 'd iloop) \<Rightarrow> nat list \<Rightarrow> 'd iloop \<Rightarrow> 'd iloop" where
  "on_incidents P f [] il = il"
| "on_incidents P f (i # is) il =
     on_incidents P f is (case map_of (il_incidents il) i of Some inc \<Rightarrow> if P inc then f inc il else il | None \<Rightarrow> il)"

definition applyDueIncidentRetries :: "('c, 'd) ienv \<Rightarrow> 'd iloop \<Rightarrow> 'd iloop" where
  "applyDueIncidentRetries env il =
     rearmIncidentRetryTimer
       (on_incidents (\<lambda>inc. ic_state inc = incidentRetryScheduled \<and> (\<forall>d \<in> set_option (ic_retryAt inc). d \<le> il_now il))
          (retryIncident env) (map fst (il_incidents il)) il)"

definition closeIncidentsOvertaken :: "nat \<Rightarrow> 'd iloop \<Rightarrow> 'd iloop" where
  "closeIncidentsOvertaken host il =
     rearmIncidentRetryTimer
       (on_incidents (\<lambda>inc. state_open (ic_state inc) \<and> ic_trackID inc = host)
          (\<lambda>inc il. let il1 = closeIncident incidentOvertaken inc il
                    in decScopePinned (ic_id inc) (ic_scopePath inc) (il1\<lparr>il_position := AList.delete (ic_trackID inc) (il_position il1)\<rparr>))
          (map fst (il_incidents il)) il)"

definition closeIncidentsOnProgress :: "nat \<Rightarrow> 'd iloop \<Rightarrow> 'd iloop" where
  "closeIncidentsOnProgress t il =
     rearmIncidentRetryTimer
       (on_incidents (\<lambda>inc. state_open (ic_state inc) \<and> ic_trackID inc = t) (closeIncident incidentResolved) (map fst (il_incidents il)) il)"

datatype IncidentOp = IncidentRetry | IncidentResolve | IncidentDrop

definition handleIncidentRequest :: "('c, 'd) ienv \<Rightarrow> IncidentOp \<Rightarrow> nat \<Rightarrow> 'd iloop \<Rightarrow> 'd iloop \<times> unit result" where
  "handleIncidentRequest env op i il =
     (case map_of (il_incidents il) i of
        None \<Rightarrow> (il, Inl (AppError ObjectNotFound ''incident %q isn't found''))
      | Some inc \<Rightarrow>
          (if \<not> state_open (ic_state inc) then (il, Inl (AppError InvalidState ''incident %q is already closed (%s)''))
           else (let (il1, r) =
                       (case op of
                          IncidentRetry \<Rightarrow> (retryIncident env inc il, Inr ())
                        | IncidentResolve \<Rightarrow> resolveIncident env inc il
                        | IncidentDrop \<Rightarrow> (dropIncident inc il, Inr ()))
                 in (rearmIncidentRetryTimer il1, r))))"

section \<open>The rest of the loop, as far as incidents see it\<close>

text \<open>\<^verbatim>\<open>evMoved\<close>: the track is on its next node.\<close>

definition imoved :: "('c, 'd) ienv \<Rightarrow> nat \<Rightarrow> inode \<Rightarrow> 'd iloop \<Rightarrow> 'd iloop" where
  "imoved env t n il =
     (case map_of (il_tracks il) t of
        None \<Rightarrow> il
      | Some tr \<Rightarrow>
          (let tr1 = tr\<lparr>it_node := n\<rparr>; il1 = idisarmBoundaries t (il\<lparr>il_tracks := AList.update t tr1 (il_tracks il)\<rparr>);
               il2 = il1\<lparr>il_position := AList.update t n (il_position il1)\<rparr>
           in closeIncidentsOnProgress t (iarm env t tr1 il2)))"

text \<open>\<^verbatim>\<open>evEnded\<close>.\<close>

definition iended :: "nat \<Rightarrow> 'd iloop \<Rightarrow> 'd iloop" where
  "iended t il =
     (case map_of (il_tracks il) t of
        None \<Rightarrow> il
      | Some tr \<Rightarrow>
          (let il1 = release_count (it_scopePath tr) (il\<lparr>il_active := il_active il - 1, il_tracks := AList.delete t (il_tracks il)\<rparr>);
               il2 = il1\<lparr>il_position := AList.delete t (il_position il1)\<rparr>
           in idisarmBoundaries t il2))"

text \<open>
  An interrupting boundary fires on host \<open>t\<close>, running or failed: a track on the boundary's flow, then the host's watches and incident go.
  The host's own end comes later, as an event of its own. The flow's track is in the host's scope.
\<close>

definition iboundary :: "('c, 'd) ienv \<Rightarrow> nat \<Rightarrow> itrack \<Rightarrow> 'd iloop \<Rightarrow> 'd iloop" where
  "iboundary env t tr il = closeIncidentsOvertaken t (idisarmBoundaries t (ispawn env tr il))"

definition loopPreflight :: "'d iloop \<Rightarrow> 'd iloop \<times> bool option" where
  "loopPreflight il =
     (let il1 = rearmIncidentRetryTimer il
      in if il_active il1 > 0 then (il1, Some True)
         else if openIncidents il1 = 0 \<and> deadLetters il1 = 0 then (il1, None)
         else (il1, Some (pendingRetries il1 > 0)))"

definition parkOnIncidents :: "'d iloop \<Rightarrow> bool" where
  "parkOnIncidents il \<longleftrightarrow> \<not> (il_stopping il \<or> openIncidents il = 0 \<and> deadLetters il = 0)"

section \<open>Checkpoint records\<close>

record 'd IncidentRecord =
  ir_FirstAt :: int
  ir_LastAt :: int
  ir_RetryAt :: "int option"
  ir_IncID :: nat
  ir_NodeID :: string
  ir_NodeName :: string
  ir_TrackID :: nat
  ir_ScopePath :: string
  ir_ScopeSeg :: string
  ir_Cause :: string
  ir_CauseClass :: string
  ir_State :: string
  ir_Prev :: "nat list"
  ir_Data :: "'d option"
  ir_Attempts :: nat

definition incident_record :: "'d incident \<Rightarrow> 'd IncidentRecord" where
  "incident_record inc =
     \<lparr>ir_FirstAt = ic_firstAt inc, ir_LastAt = ic_lastAt inc, ir_RetryAt = ic_retryAt inc, ir_IncID = ic_id inc, ir_NodeID = ic_nodeID inc,
      ir_NodeName = ic_nodeName inc, ir_TrackID = ic_trackID inc, ir_ScopePath = ic_scopePath inc, ir_ScopeSeg = ic_scopeSeg inc,
      ir_Cause = ic_cause inc, ir_CauseClass = ic_causeClass inc, ir_State = incidentState_String (ic_state inc), ir_Prev = ic_prev inc,
      ir_Data = ic_data inc, ir_Attempts = ic_attempts inc\<rparr>"

text \<open>By first raise, then by id: the sort by instant keeps the order of what was sorted by id.\<close>

definition incidentRecords :: "'d iloop \<Rightarrow> 'd IncidentRecord list" where
  "incidentRecords il = sort_key ir_FirstAt (sort_key ir_IncID (map (incident_record \<circ> snd) (il_incidents il)))"

fun restoreIncidents :: "'d IncidentRecord list \<Rightarrow> 'd iloop \<Rightarrow> 'd iloop result" where
  "restoreIncidents [] il = Inr il"
| "restoreIncidents (rec # recs) il =
     (case incidentStateFromName (ir_State rec) of
        None \<Rightarrow> Inl (AppError InvalidState ''restoreIncidents: unknown incident state %q (id %q)'')
      | Some st \<Rightarrow>
          restoreIncidents recs
            (put_incident
              \<lparr>ic_id = ir_IncID rec, ic_nodeID = ir_NodeID rec, ic_nodeName = ir_NodeName rec, ic_trackID = ir_TrackID rec,
               ic_scopePath = ir_ScopePath rec, ic_scopeSeg = ir_ScopeSeg rec, ic_cause = ir_Cause rec, ic_causeClass = ir_CauseClass rec,
               ic_prev = ir_Prev rec, ic_node = None, ic_data = ir_Data rec, ic_attempts = ir_Attempts rec, ic_state = st,
               ic_firstAt = ir_FirstAt rec, ic_lastAt = ir_LastAt rec, ic_retryAt = ir_RetryAt rec\<rparr>
              (il\<lparr>il_openIncCount := il_openIncCount il + (if state_open st then 1 else 0)\<rparr>)))"

end
