(* ===== verification/Incident_Properties.thy ===== *)
theory Incident_Properties
  imports Incidents "HOL-Library.Multiset"
begin

text \<open>
  What the incident machinery of \<open>Incidents\<close> guarantees over every history of the loop: the lifecycle of the records, the retry timer, the
  accounting of the scopes an incident pins, and the round trip through a checkpoint; and where it does not keep its promises.
\<close>

section \<open>Histories\<close>

datatype 'c istep =
    IOpen string itrack | IFork itrack | IFail nat 'c | IMove nat inode | IEnd nat | IOp IncidentOp nat | IDue | IBoundary nat itrack | ITick nat

definition open_scope :: "('c, 'd) ienv \<Rightarrow> string \<Rightarrow> itrack \<Rightarrow> 'd iloop \<Rightarrow> 'd iloop" where
  "open_scope env path tr il =
     ispawn env (tr\<lparr>it_scopePath := path\<rparr>)
       (il\<lparr>il_scopes := (path, \<lparr>sc_active = 0, sc_aborting = False, sc_awaitAttach = False, sc_drainPending = False\<rparr>) # il_scopes il\<rparr>)"

definition istep_apply :: "('c, 'd) ienv \<Rightarrow> 'c istep \<Rightarrow> 'd iloop \<Rightarrow> 'd iloop" where
  "istep_apply env st il =
     (case st of
        IOpen path tr \<Rightarrow> open_scope env path tr il
      | IFork tr \<Rightarrow> ispawn env tr il
      | IFail t c \<Rightarrow> applyFailed_incident env t c il
      | IMove t n \<Rightarrow> imoved env t n il
      | IEnd t \<Rightarrow> iended t il
      | IOp op i \<Rightarrow> fst (handleIncidentRequest env op i il)
      | IDue \<Rightarrow> applyDueIncidentRetries env il
      | IBoundary t tr \<Rightarrow> iboundary env t tr il
      | ITick d \<Rightarrow> il\<lparr>il_now := il_now il + int d\<rparr>)"

text \<open>A scope opens where none is open and nothing is left.\<close>

definition enabled :: "'c istep \<Rightarrow> 'd iloop \<Rightarrow> bool" where
  "enabled st il =
     (case st of IOpen path tr \<Rightarrow> \<not> has_key path (il_scopes il) \<and> in_scope il path = [] \<and> pinned_in il path = [] | _ \<Rightarrow> True)"

text \<open>
  A disciplined step: the operator does not retry or resolve an incident whose attempt is running, and no interrupting boundary fires on
  such an attempt.
\<close>

definition disciplined :: "'c istep \<Rightarrow> 'd iloop \<Rightarrow> bool" where
  "disciplined st il =
     (case st of
        IOp IncidentDrop i \<Rightarrow> True
      | IOp _ i \<Rightarrow> i \<in> set (il_pins il)
      | IBoundary t tr \<Rightarrow> list_all (\<lambda>p. state_open (ic_state (snd p)) \<and> ic_trackID (snd p) = t \<longrightarrow> fst p \<in> set (il_pins il)) (il_incidents il)
      | _ \<Rightarrow> True)"

definition inc_start :: "'d iloop" where
  "inc_start =
     \<lparr>il_incidents = [], il_openIncCount = 0, il_tracks = [], il_active = 0, il_scopes = [], il_position = [], il_watchers = [], il_now = 0,
      il_retryC = None, il_next = 0, il_stopping = False, il_completed = [], il_pins = []\<rparr>"

inductive inc_run :: "bool \<Rightarrow> ('c, 'd) ienv \<Rightarrow> 'd iloop \<Rightarrow> bool" for disc env where
  start: "inc_run disc env inc_start"
| step: "inc_run disc env il \<Longrightarrow> \<not> il_stopping il \<Longrightarrow> enabled st il \<Longrightarrow> disc \<longrightarrow> disciplined st il \<Longrightarrow> inc_run disc env (istep_apply env st il)"

section \<open>What the primitives leave alone\<close>

lemma release_count_frame [simp]:
  "il_incidents (release_count p il) = il_incidents il" "il_openIncCount (release_count p il) = il_openIncCount il"
  "il_tracks (release_count p il) = il_tracks il" "il_now (release_count p il) = il_now il" "il_retryC (release_count p il) = il_retryC il"
  "il_next (release_count p il) = il_next il" "il_pins (release_count p il) = il_pins il"
  by (auto simp: release_count_def icompleteScope_def Let_def split: option.splits)

lemma decScopePinned_frame [simp]:
  "il_incidents (decScopePinned i p il) = il_incidents il" "il_openIncCount (decScopePinned i p il) = il_openIncCount il"
  "il_tracks (decScopePinned i p il) = il_tracks il" "il_now (decScopePinned i p il) = il_now il" "il_retryC (decScopePinned i p il) = il_retryC il"
  "il_next (decScopePinned i p il) = il_next il" "il_pins (decScopePinned i p il) = remove1 i (il_pins il)"
  by (auto simp: decScopePinned_def)

lemma iincScope_frame [simp]:
  "il_incidents (iincScope p il) = il_incidents il" "il_openIncCount (iincScope p il) = il_openIncCount il"
  "il_tracks (iincScope p il) = il_tracks il" "il_now (iincScope p il) = il_now il" "il_retryC (iincScope p il) = il_retryC il"
  "il_next (iincScope p il) = il_next il" "il_pins (iincScope p il) = il_pins il" "il_completed (iincScope p il) = il_completed il"
  by (auto simp: iincScope_def split: option.splits)

lemma iarm_frame [simp]:
  "il_incidents (iarm env t tr il) = il_incidents il" "il_openIncCount (iarm env t tr il) = il_openIncCount il"
  "il_now (iarm env t tr il) = il_now il" "il_retryC (iarm env t tr il) = il_retryC il"
  "il_next (iarm env t tr il) = il_next il" "il_pins (iarm env t tr il) = il_pins il" "il_scopes (iarm env t tr il) = il_scopes il"
  "il_completed (iarm env t tr il) = il_completed il"
  by (auto simp: iarm_def)

lemma ispawn_frame [simp]:
  "il_incidents (ispawn env tr il) = il_incidents il" "il_openIncCount (ispawn env tr il) = il_openIncCount il"
  "il_now (ispawn env tr il) = il_now il" "il_retryC (ispawn env tr il) = il_retryC il"
  "il_next (ispawn env tr il) = Suc (il_next il)" "il_pins (ispawn env tr il) = il_pins il" "il_completed (ispawn env tr il) = il_completed il"
  by (auto simp: ispawn_def Let_def)

lemma idisarm_frame [simp]:
  "il_incidents (idisarmBoundaries t il) = il_incidents il" "il_openIncCount (idisarmBoundaries t il) = il_openIncCount il"
  "il_tracks (idisarmBoundaries t il) = il_tracks il" "il_now (idisarmBoundaries t il) = il_now il"
  "il_retryC (idisarmBoundaries t il) = il_retryC il" "il_next (idisarmBoundaries t il) = il_next il"
  "il_pins (idisarmBoundaries t il) = il_pins il" "il_scopes (idisarmBoundaries t il) = il_scopes il"
  "il_completed (idisarmBoundaries t il) = il_completed il"
  by (auto simp: idisarmBoundaries_def)

lemma transfer_frame [simp]:
  "il_incidents (transferWatches s t il) = il_incidents il" "il_openIncCount (transferWatches s t il) = il_openIncCount il"
  "il_tracks (transferWatches s t il) = il_tracks il" "il_now (transferWatches s t il) = il_now il"
  "il_retryC (transferWatches s t il) = il_retryC il" "il_next (transferWatches s t il) = il_next il"
  "il_pins (transferWatches s t il) = il_pins il" "il_scopes (transferWatches s t il) = il_scopes il"
  "il_completed (transferWatches s t il) = il_completed il"
  by (auto simp: transferWatches_def split: option.splits)

lemma put_frame [simp]:
  "il_incidents (put_incident inc il) = AList.update (ic_id inc) inc (il_incidents il)" "il_openIncCount (put_incident inc il) = il_openIncCount il"
  "il_tracks (put_incident inc il) = il_tracks il" "il_now (put_incident inc il) = il_now il"
  "il_retryC (put_incident inc il) = il_retryC il" "il_next (put_incident inc il) = il_next il"
  "il_pins (put_incident inc il) = il_pins il" "il_scopes (put_incident inc il) = il_scopes il"
  "il_completed (put_incident inc il) = il_completed il"
  by (auto simp: put_incident_def)

lemma rearm_frame [simp]:
  "il_incidents (rearmIncidentRetryTimer il) = il_incidents il" "il_openIncCount (rearmIncidentRetryTimer il) = il_openIncCount il"
  "il_tracks (rearmIncidentRetryTimer il) = il_tracks il" "il_now (rearmIncidentRetryTimer il) = il_now il"
  "il_next (rearmIncidentRetryTimer il) = il_next il" "il_pins (rearmIncidentRetryTimer il) = il_pins il"
  "il_scopes (rearmIncidentRetryTimer il) = il_scopes il" "il_completed (rearmIncidentRetryTimer il) = il_completed il"
  by (auto simp: rearmIncidentRetryTimer_def Let_def)

lemma close_frame [simp]:
  "il_incidents (closeIncident to inc il) =
     AList.update (ic_id inc) (inc\<lparr>ic_state := to, ic_retryAt := None, ic_lastAt := il_now il\<rparr>) (il_incidents il)"
  "il_openIncCount (closeIncident to inc il) = il_openIncCount il - 1" "il_tracks (closeIncident to inc il) = il_tracks il"
  "il_now (closeIncident to inc il) = il_now il" "il_next (closeIncident to inc il) = il_next il" "il_pins (closeIncident to inc il) = il_pins il"
  "il_scopes (closeIncident to inc il) = il_scopes il" "il_completed (closeIncident to inc il) = il_completed il"
  by (auto simp: closeIncident_def)

lemma spawn_succs_frame [simp]:
  "il_incidents (fst (spawn_succs env inc ss il)) = il_incidents il" "il_openIncCount (fst (spawn_succs env inc ss il)) = il_openIncCount il"
  "il_now (fst (spawn_succs env inc ss il)) = il_now il" "il_pins (fst (spawn_succs env inc ss il)) = il_pins il"
  "il_completed (fst (spawn_succs env inc ss il)) = il_completed il"
  by (induction ss arbitrary: il) (auto split: sum.splits)

section \<open>The records\<close>

text \<open>A property of the table and the count that holds after every change of a record keeps holding.\<close>

definition table_ok :: "(nat \<times> 'd incident) list \<Rightarrow> int \<Rightarrow> nat \<Rightarrow> bool" where
  "table_ok incs c nx \<longleftrightarrow>
     distinct (map fst incs) \<and> (\<forall>(i, inc) \<in> set incs. ic_id inc = i \<and> i < nx \<and> (ic_state inc = incidentRetryScheduled \<longrightarrow> ic_retryAt inc \<noteq> None)) \<and>
     c = int (length (filter (\<lambda>p. state_open (ic_state (snd p))) incs)) \<and>
     (\<forall>p \<in> set incs. \<forall>q \<in> set incs. stands_at (ic_nodeID (snd q)) (ic_scopePath (snd q)) (ic_scopeSeg (snd q)) (snd p) \<and> state_open (ic_state (snd q)) \<longrightarrow> p = q)"

lemma length_filter_update:
  assumes "distinct (map fst m)" and "map_of m k = Some v0"
  shows "int (length (filter P (AList.update k v m))) =
    int (length (filter P m)) - (if P (k, v0) then 1 else 0) + (if P (k, v) then 1 else 0)"
  using assms
proof (induction m)
  case (Cons p m)
  obtain j w where p: "p = (j, w)" by fastforce
  show ?case
  proof (cases "j = k")
    case True then show ?thesis using Cons.prems p by simp
  next
    case False
    then have "map_of m k = Some v0" "distinct (map fst m)" using Cons.prems p by auto
    then show ?thesis using Cons.IH False p by (simp split: if_splits)
  qed
qed simp

lemma set_update_old:
  assumes "distinct (map fst m)" and "map_of m k = Some v0"
  shows "set (AList.update k v m) = insert (k, v) (set m - {(k, v0)})"
  using assms
proof (induction m)
  case (Cons p m)
  obtain j w where p: "p = (j, w)" by fastforce
  show ?case
  proof (cases "j = k")
    case True
    have "(k, v0) \<notin> set m" using Cons.prems p True by force
    then show ?thesis using Cons.prems p True by auto
  next
    case False then show ?thesis using Cons p by auto
  qed
qed simp

lemma table_lookup: "table_ok incs c nx \<Longrightarrow> map_of incs i = Some inc \<Longrightarrow> ic_id inc = i \<and> i < nx"
  by (auto simp: table_ok_def dest!: map_of_SomeD)

text \<open>A change of an open record that stays open at its place, or closes.\<close>

lemma table_change:
  assumes t: "table_ok incs c nx" and l: "map_of incs i = Some inc" and o: "state_open (ic_state inc)"
    and n: "ic_id inc' = i" "ic_nodeID inc' = ic_nodeID inc" "ic_scopePath inc' = ic_scopePath inc" "ic_scopeSeg inc' = ic_scopeSeg inc"
      "ic_state inc' = incidentRetryScheduled \<longrightarrow> ic_retryAt inc' \<noteq> None"
  shows "table_ok (AList.update i inc' incs) (if state_open (ic_state inc') then c else c - 1) nx"
proof -
  have d: "distinct (map fst incs)" using t by (simp add: table_ok_def)
  have s: "set (AList.update i inc' incs) = insert (i, inc') (set incs - {(i, inc)})" by (rule set_update_old[OF d l])
  have m: "(i, inc) \<in> set incs" using l by (rule map_of_SomeD)
  have u: "p = (i, inc)" if "p \<in> set incs" "state_open (ic_state (snd p))" "ic_nodeID (snd p) = ic_nodeID inc"
      "ic_scopePath (snd p) = ic_scopePath inc" "ic_scopeSeg (snd p) = ic_scopeSeg inc" for p
    using t that m o unfolding table_ok_def stands_at_def by fastforce
  have ix: "i < nx" using table_lookup[OF t l] by simp
  have c1: "(if state_open (ic_state inc') then c else c - 1) = int (length (filter (\<lambda>p. state_open (ic_state (snd p))) (AList.update i inc' incs)))"
    using t o length_filter_update[OF d l, of "\<lambda>p. state_open (ic_state (snd p))" inc'] by (simp add: table_ok_def)
  have un: "\<forall>p \<in> set (AList.update i inc' incs). \<forall>q \<in> set (AList.update i inc' incs).
      stands_at (ic_nodeID (snd q)) (ic_scopePath (snd q)) (ic_scopeSeg (snd q)) (snd p) \<and> state_open (ic_state (snd q)) \<longrightarrow> p = q"
    unfolding s
  proof (intro ballI impI, elim conjE)
    fix p q
    assume p: "p \<in> insert (i, inc') (set incs - {(i, inc)})" and q: "q \<in> insert (i, inc') (set incs - {(i, inc)})"
      and st: "stands_at (ic_nodeID (snd q)) (ic_scopePath (snd q)) (ic_scopeSeg (snd q)) (snd p)" and oq: "state_open (ic_state (snd q))"
    show "p = q"
    proof (cases "p = (i, inc')"; cases "q = (i, inc')")
      assume "p = (i, inc')" "q \<noteq> (i, inc')"
      then show ?thesis using q st oq n u[of q] by (auto simp: stands_at_def)
    next
      assume "p \<noteq> (i, inc')" "q = (i, inc')"
      then show ?thesis using p st n u[of p] by (auto simp: stands_at_def)
    next
      assume "p \<noteq> (i, inc')" "q \<noteq> (i, inc')"
      then show ?thesis using p q st oq t unfolding table_ok_def by blast
    qed simp
  qed
  show ?thesis unfolding table_ok_def
  proof (intro conjI)
    show "distinct (map fst (AList.update i inc' incs))" using d by (rule distinct_update)
    show "\<forall>(j, jnc) \<in> set (AList.update i inc' incs). ic_id jnc = j \<and> j < nx \<and> (ic_state jnc = incidentRetryScheduled \<longrightarrow> ic_retryAt jnc \<noteq> None)"
      unfolding s using t n ix by (auto simp: table_ok_def)
  qed (use c1 un in blast)+
qed

lemma table_new:
  assumes t: "table_ok incs c nx" and f: "List.find (\<lambda>p. stands_at nd pt sg (snd p)) incs = None"
    and n: "ic_id inc = nx" "ic_nodeID inc = nd" "ic_scopePath inc = pt" "ic_scopeSeg inc = sg"
      "state_open (ic_state inc)" "ic_state inc = incidentRetryScheduled \<longrightarrow> ic_retryAt inc \<noteq> None"
  shows "table_ok (AList.update nx inc incs) (c + 1) (Suc nx)"
proof -
  have nk: "\<not> has_key nx incs" using t by (fastforce simp: has_key_def table_ok_def)
  have e: "AList.update nx inc incs = incs @ [(nx, inc)]" by (rule update_new_append[OF nk])
  have no: "\<not> stands_at nd pt sg (snd p)" if "p \<in> set incs" for p using f that by (cases p) (auto simp: find_None_iff)
  show ?thesis unfolding e table_ok_def
  proof (intro conjI)
    show "distinct (map fst (incs @ [(nx, inc)]))" using t nk by (auto simp: table_ok_def has_key_def)
    show "\<forall>(j, jnc) \<in> set (incs @ [(nx, inc)]). ic_id jnc = j \<and> j < Suc nx \<and> (ic_state jnc = incidentRetryScheduled \<longrightarrow> ic_retryAt jnc \<noteq> None)"
      using t n by (auto simp: table_ok_def less_SucI)
    show "c + 1 = int (length (filter (\<lambda>p. state_open (ic_state (snd p))) (incs @ [(nx, inc)])))" using t n by (simp add: table_ok_def)
    show "\<forall>p \<in> set (incs @ [(nx, inc)]). \<forall>q \<in> set (incs @ [(nx, inc)]).
        stands_at (ic_nodeID (snd q)) (ic_scopePath (snd q)) (ic_scopeSeg (snd q)) (snd p) \<and> state_open (ic_state (snd q)) \<longrightarrow> p = q"
    proof (intro ballI impI, elim conjE)
      fix p q
      assume p: "p \<in> set (incs @ [(nx, inc)])" and q: "q \<in> set (incs @ [(nx, inc)])"
        and st: "stands_at (ic_nodeID (snd q)) (ic_scopePath (snd q)) (ic_scopeSeg (snd q)) (snd p)" and oq: "state_open (ic_state (snd q))"
      show "p = q"
      proof (cases "p \<in> set incs"; cases "q \<in> set incs")
        assume "p \<in> set incs" "q \<notin> set incs" then show ?thesis using q st n no[of p] by simp
      next
        assume "p \<notin> set incs" "q \<in> set incs" then show ?thesis using p st oq n no[of q] by (auto simp: stands_at_def)
      next
        assume "p \<in> set incs" "q \<in> set incs" then show ?thesis using st oq t unfolding table_ok_def by blast
      next
        assume "p \<notin> set incs" "q \<notin> set incs" then show ?thesis using p q by simp
      qed
    qed
  qed
qed

lemma table_later: "table_ok incs c nx \<Longrightarrow> nx \<le> nx' \<Longrightarrow> table_ok incs c nx'"
  unfolding table_ok_def by fastforce

definition records_ok :: "'d iloop \<Rightarrow> bool" where
  "records_ok il \<longleftrightarrow> table_ok (il_incidents il) (il_openIncCount il) (il_next il)"

lemma records_ok_frame:
  assumes "records_ok il" and "il_incidents il' = il_incidents il" and "il_openIncCount il' = il_openIncCount il" and "il_next il \<le> il_next il'"
  shows "records_ok il'"
  using assms table_later by (auto simp: records_ok_def)

lemma records_ok_close:
  assumes "records_ok il" and "map_of (il_incidents il) i = Some inc" and "state_open (ic_state inc)" and "\<not> state_open to"
  shows "records_ok (closeIncident to inc il)"
proof -
  have i: "ic_id inc = i" using table_lookup[OF assms(1)[unfolded records_ok_def] assms(2)] by simp
  have "to \<noteq> incidentRetryScheduled" using assms(4) by (auto simp: state_open_def)
  then show ?thesis
    using table_change[OF assms(1)[unfolded records_ok_def] assms(2,3), of "inc\<lparr>ic_state := to, ic_retryAt := None, ic_lastAt := il_now il\<rparr>"]
      assms(4) i by (simp add: records_ok_def)
qed

lemma records_ok_put:
  assumes "records_ok il" and "map_of (il_incidents il) i = Some inc" and "state_open (ic_state inc)" and "state_open (ic_state inc')"
    and "ic_id inc' = i" "ic_nodeID inc' = ic_nodeID inc" "ic_scopePath inc' = ic_scopePath inc" "ic_scopeSeg inc' = ic_scopeSeg inc"
    and "ic_state inc' = incidentRetryScheduled \<longrightarrow> ic_retryAt inc' \<noteq> None"
  shows "records_ok (put_incident inc' il)"
  using table_change[OF assms(1)[unfolded records_ok_def] assms(2,3,5,6,7,8,9)] assms(4,5) by (simp add: records_ok_def)

lemma records_ok_retry:
  assumes "records_ok il" and "map_of (il_incidents il) i = Some inc" and "state_open (ic_state inc)"
  shows "records_ok (retryIncident env inc il)"
proof -
  have i: "ic_id inc = i" using table_lookup[OF assms(1)[unfolded records_ok_def] assms(2)] by simp
  have p: "records_ok (put_incident (inc\<lparr>ic_trackID := t, ic_state := incidentOpen, ic_retryAt := None\<rparr>) il)" for t
    by (rule records_ok_put[OF assms]) (simp_all add: i state_open_def)
  have q: "records_ok (put_incident (inc\<lparr>ic_state := incidentOpen, ic_retryAt := None\<rparr>) il)"
    by (rule records_ok_put[OF assms]) (simp_all add: i state_open_def)
  show ?thesis unfolding retryIncident_def Let_def
    by (auto split: option.splits intro: q records_ok_frame[OF p[of "il_next il"]])
qed

lemma records_ok_on_incidents:
  assumes "records_ok il"
    and "\<And>il i inc. records_ok il \<Longrightarrow> map_of (il_incidents il) i = Some inc \<Longrightarrow> P inc \<Longrightarrow> records_ok (f inc il)"
  shows "records_ok (on_incidents P f is il)"
  using assms(1)
proof (induction "is" arbitrary: il)
  case (Cons i "is")
  show ?case using Cons.prems by (auto split: option.split intro!: Cons.IH assms(2))
qed simp

lemma records_ok_rearm [simp]: "records_ok (rearmIncidentRetryTimer il) = records_ok il"
  by (simp add: records_ok_def)

lemma schedule_fields [simp]:
  "ic_id (scheduleIncidentRetry env now c inc) = ic_id inc" "ic_nodeID (scheduleIncidentRetry env now c inc) = ic_nodeID inc"
  "ic_scopePath (scheduleIncidentRetry env now c inc) = ic_scopePath inc" "ic_scopeSeg (scheduleIncidentRetry env now c inc) = ic_scopeSeg inc"
  "ic_trackID (scheduleIncidentRetry env now c inc) = ic_trackID inc"
  by (auto simp: scheduleIncidentRetry_def Let_def split: option.splits prod.splits)

lemma schedule_state:
  assumes "ic_state inc = incidentOpen"
  shows "state_open (ic_state (scheduleIncidentRetry env now c inc)) \<and>
    (ic_state (scheduleIncidentRetry env now c inc) = incidentRetryScheduled \<longrightarrow> ic_retryAt (scheduleIncidentRetry env now c inc) \<noteq> None)"
  using assms by (auto simp: scheduleIncidentRetry_def Let_def state_open_def split: option.splits prod.splits)

lemma openIncidentAt_Some:
  assumes "openIncidentAt il nd pt sg = Some inc" and "records_ok il"
  shows "map_of (il_incidents il) (ic_id inc) = Some inc \<and> state_open (ic_state inc) \<and> ic_nodeID inc = nd \<and> ic_scopePath inc = pt \<and> ic_scopeSeg inc = sg"
proof -
  obtain p where p: "List.find (\<lambda>p. stands_at nd pt sg (snd p)) (il_incidents il) = Some p" "inc = snd p"
    using assms(1) by (auto simp: openIncidentAt_def)
  then obtain k where "k < length (il_incidents il)" "p = il_incidents il ! k" "stands_at nd pt sg (snd p)"
    by (auto simp: find_Some_iff)
  then obtain i where "(i, inc) \<in> set (il_incidents il)" "stands_at nd pt sg inc"
    using p(2) by (metis nth_mem prod.collapse)
  moreover have "ic_id inc = i" "distinct (map fst (il_incidents il))" using assms(2) calculation(1) by (auto simp: records_ok_def table_ok_def)
  ultimately show ?thesis by (auto simp: stands_at_def)
qed

lemma records_ok_raise:
  assumes "records_ok il"
  shows "records_ok (raiseIncident env t tr cause il)"
proof (cases "openIncidentAt il (nd_ID (it_node tr)) (it_scopePath tr) (it_scopeSeg tr)")
  case None
  then have f: "List.find (\<lambda>p. stands_at (nd_ID (it_node tr)) (it_scopePath tr) (it_scopeSeg tr) (snd p)) (il_incidents il) = None"
    by (simp add: openIncidentAt_def)
  show ?thesis
    unfolding raiseIncident_def Let_def None records_ok_rearm
    unfolding records_ok_def
    by (simp, rule table_new[OF assms[unfolded records_ok_def] f]) (simp_all add: schedule_state)
next
  case (Some inc)
  note s = openIncidentAt_Some[OF Some assms]
  have fr: "records_ok (il\<lparr>il_pins := ic_id inc # il_pins il\<rparr>)" using assms by (simp add: records_ok_def)
  show ?thesis
    unfolding raiseIncident_def Let_def Some
    by (simp, rule records_ok_put[OF fr, of "ic_id inc" inc]) (use s in \<open>simp_all add: schedule_state\<close>)
qed

lemma spawn_succs_next: "il_next il \<le> il_next (fst (spawn_succs env inc ss il))"
proof (induction ss arbitrary: il)
  case (Cons s ss)
  show ?case using Suc_leD[OF Cons.IH[of "ispawn env _ il", simplified]] by (auto split: sum.split)
qed simp

lemma resolve_frame:
  assumes "incidentNode env inc = Some n"
  shows "il_incidents (fst (resolveIncident env inc il)) =
      AList.update (ic_id inc) (inc\<lparr>ic_state := incidentResolved, ic_retryAt := None, ic_lastAt := il_now il\<rparr>) (il_incidents il)"
    and "il_openIncCount (fst (resolveIncident env inc il)) = il_openIncCount il - 1"
    and "il_next il \<le> il_next (fst (resolveIncident env inc il))"
  using assms spawn_succs_next[of "idisarmBoundaries (ic_trackID inc) (closeIncident incidentResolved inc il)\<lparr>il_position :=
      AList.delete (ic_trackID inc) (il_position (idisarmBoundaries (ic_trackID inc) (closeIncident incidentResolved inc il)))\<rparr>" env inc "nd_Outgoing n"]
  by (simp_all add: resolveIncident_def Let_def case_prod_beta)

lemma records_ok_resolve:
  assumes "records_ok il" and "map_of (il_incidents il) i = Some inc" and "state_open (ic_state inc)"
  shows "records_ok (fst (resolveIncident env inc il))"
proof (cases "incidentNode env inc")
  case None then show ?thesis using assms(1) by (simp add: resolveIncident_def)
next
  case (Some n)
  have c: "records_ok (closeIncident incidentResolved inc il)" by (rule records_ok_close[OF assms]) (simp add: state_open_def)
  show ?thesis by (rule records_ok_frame[OF c]) (use resolve_frame[OF Some] in simp_all)
qed

lemma records_ok_request:
  assumes "records_ok il"
  shows "records_ok (fst (handleIncidentRequest env op i il))"
proof (cases "map_of (il_incidents il) i")
  case (Some inc)
  show ?thesis
  proof (cases "state_open (ic_state inc)")
    case True
    have d: "records_ok (dropIncident inc il)"
      unfolding dropIncident_def Let_def
      by (rule records_ok_frame[OF records_ok_close[OF assms Some True, of incidentDeadLettered]]) (simp_all add: state_open_def)
    show ?thesis
      using records_ok_retry[OF assms Some True, of env] records_ok_resolve[OF assms Some True, of env] d Some True
      by (auto simp: handleIncidentRequest_def split: IncidentOp.split prod.split)
  qed (use assms Some in \<open>simp add: handleIncidentRequest_def\<close>)
qed (use assms in \<open>simp add: handleIncidentRequest_def\<close>)

lemma records_ok_progress: "records_ok il \<Longrightarrow> records_ok (closeIncidentsOnProgress t il)"
  unfolding closeIncidentsOnProgress_def records_ok_rearm
  by (rule records_ok_on_incidents) (auto intro: records_ok_close simp: state_open_def)

lemma records_ok_overtaken: "records_ok il \<Longrightarrow> records_ok (closeIncidentsOvertaken t il)"
  unfolding closeIncidentsOvertaken_def records_ok_rearm
proof (rule records_ok_on_incidents)
  fix il :: "'a iloop" and i inc
  assume "records_ok il" "map_of (il_incidents il) i = Some inc" "state_open (ic_state inc) \<and> ic_trackID inc = t"
  then have "records_ok (closeIncident incidentOvertaken inc il)" by (intro records_ok_close) (auto simp: state_open_def)
  then show "records_ok (let il1 = closeIncident incidentOvertaken inc il
      in decScopePinned (ic_id inc) (ic_scopePath inc) (il1\<lparr>il_position := AList.delete (ic_trackID inc) (il_position il1)\<rparr>))"
    by (rule records_ok_frame) (simp_all add: Let_def)
qed

lemma records_ok_due: "records_ok il \<Longrightarrow> records_ok (applyDueIncidentRetries env il)"
  unfolding applyDueIncidentRetries_def records_ok_rearm
  by (rule records_ok_on_incidents) (auto intro: records_ok_retry simp: state_open_def)

lemma records_ok_failed: "records_ok il \<Longrightarrow> records_ok (applyFailed_incident env t c il)"
  unfolding applyFailed_incident_def Let_def
  by (auto split: option.split intro: records_ok_frame[OF records_ok_raise[of il env t _ c]])

lemma records_ok_moved:
  assumes "records_ok il"
  shows "records_ok (imoved env t n il)"
  unfolding imoved_def Let_def
  by (auto split: option.split intro!: records_ok_progress assms intro: records_ok_frame[OF assms])

lemma records_ok_step:
  assumes "records_ok il"
  shows "records_ok (istep_apply env st il)"
proof (cases st)
  case (IBoundary t tr)
  then show ?thesis
    by (auto simp: istep_apply_def iboundary_def intro!: records_ok_overtaken records_ok_frame[OF assms])
next
  case (IEnd t)
  then show ?thesis by (auto simp: istep_apply_def iended_def Let_def assms split: option.split intro!: records_ok_frame[OF assms])
qed (auto simp: istep_apply_def open_scope_def intro: records_ok_request records_ok_due records_ok_failed records_ok_moved assms records_ok_frame[OF assms])

lemma inc_run_records: "inc_run disc env il \<Longrightarrow> records_ok il"
proof (induction rule: inc_run.induct)
  case start show ?case by (simp add: records_ok_def table_ok_def inc_start_def)
qed (rule records_ok_step)

section \<open>The retry timer\<close>

definition timer_ok :: "'d iloop \<Rightarrow> bool" where
  "timer_ok il \<longleftrightarrow>
     (\<forall>(i, inc) \<in> set (il_incidents il). \<forall>d. ic_state inc = incidentRetryScheduled \<and> ic_retryAt inc = Some d \<longrightarrow>
        (\<exists>t. il_retryC il = Some t \<and> t \<le> max d (il_now il)))"

lemma foldr_min_le: "x \<in> set (d # ds) \<Longrightarrow> foldr min ds d \<le> (x :: int)"
  by (induction ds) (auto simp: min_le_iff_disj)

lemma timer_ok_rearm: "timer_ok (rearmIncidentRetryTimer il)"
  unfolding timer_ok_def
proof (intro ballI, clarify)
  fix i inc d
  assume m: "(i, inc) \<in> set (il_incidents (rearmIncidentRetryTimer il))" and s: "ic_state inc = incidentRetryScheduled" "ic_retryAt inc = Some d"
  let ?ds = "List.map_filter (\<lambda>p. if ic_state (snd p) = incidentRetryScheduled then ic_retryAt (snd p) else None) (il_incidents il)"
  have "d \<in> set ?ds" using m s by (force simp: map_filter_def)
  then obtain e es where e: "?ds = e # es" "d \<in> set (e # es)" by (cases ?ds) auto
  then have "foldr min es e \<le> d" by (intro foldr_min_le)
  then show "\<exists>t. il_retryC (rearmIncidentRetryTimer il) = Some t \<and> t \<le> max d (il_now (rearmIncidentRetryTimer il))"
    by (simp add: rearmIncidentRetryTimer_def Let_def e(1))
qed

lemma timer_ok_frame:
  assumes "timer_ok il" and "il_incidents il' = il_incidents il" and "il_retryC il' = il_retryC il" and "il_now il \<le> il_now il'"
  shows "timer_ok il'"
  using assms unfolding timer_ok_def by fastforce

lemma timer_ok_step:
  assumes "timer_ok il"
  shows "timer_ok (istep_apply env st il)"
proof (cases st)
  case (IFail t c)
  show ?thesis unfolding IFail istep_apply_def istep.case applyFailed_incident_def
  proof (cases "map_of (il_tracks il) t")
    case (Some tr)
    have "timer_ok (raiseIncident env t tr c il)" unfolding raiseIncident_def Let_def by (auto split: prod.split intro: timer_ok_rearm)
    then show "timer_ok (case map_of (il_tracks il) t of None \<Rightarrow> il
        | Some tr \<Rightarrow> let il1 = raiseIncident env t tr c il in il1\<lparr>il_active := il_active il1 - 1, il_tracks := AList.delete t (il_tracks il1)\<rparr>)"
      by (rule timer_ok_frame) (simp_all add: Some Let_def)
  qed (use assms in simp)
next
  case (IOp op i)
  then show ?thesis using assms
    by (auto simp: istep_apply_def handleIncidentRequest_def split: option.split prod.split intro: timer_ok_rearm)
next
  case (IMove t n)
  then show ?thesis using assms
    by (auto simp: istep_apply_def imoved_def closeIncidentsOnProgress_def Let_def split: option.split intro: timer_ok_rearm)
next
  case (IEnd t)
  then show ?thesis by (auto simp: istep_apply_def iended_def Let_def assms split: option.split intro!: timer_ok_frame[OF assms])
qed (auto simp: istep_apply_def open_scope_def iboundary_def closeIncidentsOvertaken_def applyDueIncidentRetries_def
      intro: timer_ok_rearm timer_ok_frame[OF assms])

text \<open>
  Claim C8. The life of the records, in every history: the published count is the number of open incidents; there is at most one open incident for
  a node in a scope; a scheduled retry has its deadline, and the loop's one timer delivers no later than it.
\<close>

theorem incident_lifecycle:
  assumes "inc_run disc env il"
  shows "il_openIncCount il = int (openIncidents il) \<and>
    (\<forall>i j inc jnc. map_of (il_incidents il) i = Some inc \<and> map_of (il_incidents il) j = Some jnc \<and> state_open (ic_state inc) \<and>
       stands_at (ic_nodeID inc) (ic_scopePath inc) (ic_scopeSeg inc) jnc \<longrightarrow> i = j) \<and>
    (\<forall>i inc. map_of (il_incidents il) i = Some inc \<and> ic_state inc = incidentRetryScheduled \<longrightarrow>
       (\<exists>d t. ic_retryAt inc = Some d \<and> il_retryC il = Some t \<and> t \<le> max d (il_now il)))"
proof -
  have t: "table_ok (il_incidents il) (il_openIncCount il) (il_next il)" using inc_run_records[OF assms] by (simp add: records_ok_def)
  have tm: "timer_ok il" using assms by (induction rule: inc_run.induct) (simp add: timer_ok_def inc_start_def, rule timer_ok_step)
  have u: "i = j" if "map_of (il_incidents il) i = Some inc" "map_of (il_incidents il) j = Some jnc" "state_open (ic_state inc)"
      "stands_at (ic_nodeID inc) (ic_scopePath inc) (ic_scopeSeg inc) jnc" for i j inc jnc
    using t that(3,4) map_of_SomeD[OF that(1)] map_of_SomeD[OF that(2)] unfolding table_ok_def by fastforce
  have d: "\<exists>d t. ic_retryAt inc = Some d \<and> il_retryC il = Some t \<and> t \<le> max d (il_now il)"
    if "map_of (il_incidents il) i = Some inc" "ic_state inc = incidentRetryScheduled" for i inc
    using t tm that(2) map_of_SomeD[OF that(1)] unfolding table_ok_def timer_ok_def by fastforce
  show ?thesis using t u d by (auto simp: table_ok_def openIncidents_def)
qed

section \<open>A closed record never changes\<close>

definition keeps_closed :: "'d iloop \<Rightarrow> 'd iloop \<Rightarrow> bool" where
  "keeps_closed il il' \<longleftrightarrow>
     (\<forall>i inc. map_of (il_incidents il) i = Some inc \<and> \<not> state_open (ic_state inc) \<longrightarrow> map_of (il_incidents il') i = Some inc)"

lemma keeps_same: "il_incidents il' = il_incidents il \<Longrightarrow> keeps_closed il il'"
  by (simp add: keeps_closed_def)

lemma keeps_trans: "keeps_closed il il1 \<Longrightarrow> keeps_closed il1 il2 \<Longrightarrow> keeps_closed il il2"
  by (auto simp: keeps_closed_def)

lemma keeps_update:
  assumes "il_incidents il' = AList.update j x (il_incidents il)"
    and "\<forall>jnc. map_of (il_incidents il) j = Some jnc \<longrightarrow> state_open (ic_state jnc)"
  shows "keeps_closed il il'"
  using assms by (auto simp: keeps_closed_def update_conv')

lemma keeps_change:
  assumes "records_ok il" and "map_of (il_incidents il) i = Some inc" and "state_open (ic_state inc)"
    and "il_incidents il' = AList.update (ic_id inc) x (il_incidents il)"
  shows "keeps_closed il il'"
proof -
  have "ic_id inc = i" using table_lookup[OF assms(1)[unfolded records_ok_def] assms(2)] by simp
  then show ?thesis using keeps_update[OF assms(4)] assms(2,3) by simp
qed

lemma keeps_retry:
  assumes "records_ok il" and "map_of (il_incidents il) i = Some inc" and "state_open (ic_state inc)"
  shows "keeps_closed il (retryIncident env inc il)"
  by (auto simp: retryIncident_def Let_def split: option.split intro: keeps_change[OF assms])

lemma keeps_on_incidents:
  assumes "records_ok il"
    and "\<And>il i inc. records_ok il \<Longrightarrow> map_of (il_incidents il) i = Some inc \<Longrightarrow> P inc \<Longrightarrow> records_ok (f inc il) \<and> keeps_closed il (f inc il)"
  shows "keeps_closed il (on_incidents P f is il)"
  using assms(1)
proof (induction "is" arbitrary: il)
  case (Cons i "is")
  let ?il = "case map_of (il_incidents il) i of Some inc \<Rightarrow> if P inc then f inc il else il | None \<Rightarrow> il"
  have "records_ok ?il \<and> keeps_closed il ?il" using Cons.prems assms(2) by (auto split: option.split intro: keeps_same)
  then show ?case using Cons.IH[of ?il] keeps_trans by auto
qed (simp add: keeps_same)

lemma keeps_closing:
  assumes "records_ok il" and "map_of (il_incidents il) i = Some inc" and "state_open (ic_state inc)" and "\<not> state_open to"
  shows "records_ok (closeIncident to inc il) \<and> keeps_closed il (closeIncident to inc il)"
  using records_ok_close[OF assms] keeps_change[OF assms(1-3)] by simp

lemma keeps_rearm: "keeps_closed il il' \<Longrightarrow> keeps_closed il (rearmIncidentRetryTimer il')"
  by (simp add: keeps_closed_def)

lemma keeps_progress: "records_ok il \<Longrightarrow> keeps_closed il (closeIncidentsOnProgress t il)"
  unfolding closeIncidentsOnProgress_def
  by (intro keeps_rearm keeps_on_incidents keeps_closing) (auto simp: state_open_def)

lemma keeps_overtaken: "records_ok il \<Longrightarrow> keeps_closed il (closeIncidentsOvertaken t il)"
  unfolding closeIncidentsOvertaken_def
proof (intro keeps_rearm keeps_on_incidents)
  fix il :: "'a iloop" and i inc
  assume a: "records_ok il" "map_of (il_incidents il) i = Some inc" "state_open (ic_state inc) \<and> ic_trackID inc = t"
  then have k: "records_ok (closeIncident incidentOvertaken inc il)" "keeps_closed il (closeIncident incidentOvertaken inc il)"
    using keeps_closing[OF a(1,2), of incidentOvertaken] by (auto simp: state_open_def)
  show "records_ok (let il1 = closeIncident incidentOvertaken inc il
        in decScopePinned (ic_id inc) (ic_scopePath inc) (il1\<lparr>il_position := AList.delete (ic_trackID inc) (il_position il1)\<rparr>)) \<and>
      keeps_closed il (let il1 = closeIncident incidentOvertaken inc il
        in decScopePinned (ic_id inc) (ic_scopePath inc) (il1\<lparr>il_position := AList.delete (ic_trackID inc) (il_position il1)\<rparr>))"
    using records_ok_frame[OF k(1)] k(2) by (simp add: Let_def keeps_closed_def)
qed simp

lemma keeps_due: "records_ok il \<Longrightarrow> keeps_closed il (applyDueIncidentRetries env il)"
  unfolding applyDueIncidentRetries_def
  by (intro keeps_rearm keeps_on_incidents conjI records_ok_retry keeps_retry) (auto simp: state_open_def)

lemma raise_update:
  "\<exists>x. il_incidents (raiseIncident env t tr cause il) =
     AList.update (case openIncidentAt il (nd_ID (it_node tr)) (it_scopePath tr) (it_scopeSeg tr) of Some inc \<Rightarrow> ic_id inc | None \<Rightarrow> il_next il)
       x (il_incidents il)"
  by (auto simp: raiseIncident_def Let_def split: option.split)

lemma keeps_raise:
  assumes "records_ok il"
  shows "keeps_closed il (raiseIncident env t tr cause il)"
proof -
  obtain x where x: "il_incidents (raiseIncident env t tr cause il) =
     AList.update (case openIncidentAt il (nd_ID (it_node tr)) (it_scopePath tr) (it_scopeSeg tr) of Some inc \<Rightarrow> ic_id inc | None \<Rightarrow> il_next il)
       x (il_incidents il)" using raise_update[of env t tr cause il] by (elim exE)
  have "map_of (il_incidents il) (il_next il) = None"
    using assms by (force simp: records_ok_def table_ok_def map_of_eq_None_iff)
  then show ?thesis using openIncidentAt_Some[OF _ assms] by (intro keeps_update[OF x]) (auto split: option.splits)
qed

lemma keeps_request:
  assumes "records_ok il"
  shows "keeps_closed il (fst (handleIncidentRequest env op i il))"
proof (cases "map_of (il_incidents il) i")
  case (Some inc)
  show ?thesis
  proof (cases "state_open (ic_state inc)")
    case True
    have "keeps_closed il (dropIncident inc il)" by (rule keeps_change[OF assms Some True]) (simp add: dropIncident_def Let_def)
    moreover have "keeps_closed il (fst (resolveIncident env inc il))"
    proof (cases "incidentNode env inc")
      case None then show ?thesis by (simp add: resolveIncident_def keeps_same)
    next
      case (Some n) show ?thesis by (rule keeps_change[OF assms \<open>map_of (il_incidents il) i = Some inc\<close> True resolve_frame(1)[OF Some]])
    qed
    ultimately have d: "keeps_closed il (dropIncident inc il)" "keeps_closed il (fst (resolveIncident env inc il))" by simp_all
    show ?thesis using keeps_retry[OF assms Some True, of env] d Some True
      by (auto simp: handleIncidentRequest_def split: IncidentOp.split prod.split intro: keeps_rearm)
  qed (use Some in \<open>simp add: handleIncidentRequest_def keeps_same\<close>)
qed (simp add: handleIncidentRequest_def keeps_same)

text \<open>Once an incident is closed its record never changes again, whatever the loop does: it is closed once, and a dead letter is durable.\<close>

theorem closed_incident_frozen:
  assumes "inc_run disc env il" and "map_of (il_incidents il) i = Some inc" and "\<not> state_open (ic_state inc)"
  shows "map_of (il_incidents (istep_apply env st il)) i = Some inc"
proof -
  have r: "records_ok il" by (rule inc_run_records[OF assms(1)])
  have "keeps_closed il (istep_apply env st il)"
  proof (cases st)
    case (IFail t c)
    then show ?thesis using keeps_raise[OF r, of env t _ c]
      by (auto simp: istep_apply_def applyFailed_incident_def Let_def keeps_closed_def split: option.split)
  next
    case (IMove t n)
    show ?thesis
    proof (cases "map_of (il_tracks il) t")
      case (Some tr)
      let ?il1 = "idisarmBoundaries t (il\<lparr>il_tracks := AList.update t (tr\<lparr>it_node := n\<rparr>) (il_tracks il)\<rparr>)"
      let ?il = "iarm env t (tr\<lparr>it_node := n\<rparr>) (?il1\<lparr>il_position := AList.update t n (il_position ?il1)\<rparr>)"
      have "records_ok ?il" by (rule records_ok_frame[OF r]) simp_all
      then have "keeps_closed ?il (closeIncidentsOnProgress t ?il)" by (rule keeps_progress)
      then show ?thesis using Some by (simp add: IMove istep_apply_def imoved_def Let_def keeps_closed_def)
    qed (simp add: IMove istep_apply_def imoved_def keeps_same)
  next
    case (IBoundary t tr)
    have "records_ok (idisarmBoundaries t (ispawn env tr il))" by (rule records_ok_frame[OF r]) simp_all
    from keeps_overtaken[OF this, of t] show ?thesis by (simp add: IBoundary istep_apply_def iboundary_def keeps_closed_def)
  next
    case (IEnd t)
    then show ?thesis by (auto simp: istep_apply_def iended_def Let_def split: option.split intro: keeps_same)
  qed (auto simp: istep_apply_def open_scope_def intro: keeps_same keeps_due[OF r] keeps_request[OF r])
  then show ?thesis using assms(2,3) by (auto simp: keeps_closed_def)
qed

section \<open>The scopes an incident holds open\<close>

text \<open>The counters are right up to \<open>off\<close>: the number of counts of a scope that stand for nothing any more.\<close>

definition acct_off :: "(string \<Rightarrow> int) \<Rightarrow> 'd iloop \<Rightarrow> bool" where
  "acct_off off il \<longleftrightarrow>
     (\<forall>p e. map_of (il_scopes il) p = Some e \<longrightarrow> sc_active e = int (length (in_scope il p)) + int (length (pinned_in il p)) + off p) \<and>
     list_all (\<lambda>(p, ts, ins). ts = [] \<and> ins = []) (il_completed il)"

abbreviation one_at :: "string \<Rightarrow> string \<Rightarrow> int" where
  "one_at p \<equiv> \<lambda>q. if q = p then 1 else 0"

abbreviation acct :: "'d iloop \<Rightarrow> bool" where
  "acct \<equiv> acct_off (\<lambda>_. 0)"

definition tracks_ok :: "'d iloop \<Rightarrow> bool" where
  "tracks_ok il \<longleftrightarrow> distinct (map fst (il_tracks il)) \<and> (\<forall>t \<in> fst ` set (il_tracks il). t < il_next il)"

definition pins_ok :: "'d iloop \<Rightarrow> bool" where
  "pins_ok il \<longleftrightarrow>
     set (il_pins il) \<subseteq> fst ` set (il_incidents il) \<and>
     (\<forall>i inc. map_of (il_incidents il) i = Some inc \<and> ic_state inc = incidentRetryScheduled \<longrightarrow> i \<in> set (il_pins il))"

lemma in_scope_cong: "il_tracks il' = il_tracks il \<Longrightarrow> in_scope il' p = in_scope il p"
  by (simp add: in_scope_def)

lemma pinned_in_cong:
  assumes "il_pins il' = il_pins il"
    and "\<And>i. i \<in> set (il_pins il) \<Longrightarrow> map_option ic_scopePath (map_of (il_incidents il') i) = map_option ic_scopePath (map_of (il_incidents il) i)"
  shows "pinned_in il' p = pinned_in il p"
  unfolding pinned_in_def assms(1) using assms(2) by (intro filter_cong refl) (simp only:)

lemma acct_frame:
  assumes "acct_off off il" and "il_tracks il' = il_tracks il" and "il_scopes il' = il_scopes il" and "il_completed il' = il_completed il"
    and "\<And>p. pinned_in il' p = pinned_in il p"
  shows "acct_off off il'"
  using assms(1) unfolding acct_off_def assms(3-5) in_scope_cong[OF assms(2)] .

text \<open>Letting a count go that stands for nothing.\<close>

lemma acct_release:
  assumes "acct_off (one_at p) il"
  shows "acct (release_count p il)"
proof (cases "map_of (il_scopes il) p")
  case None then show ?thesis using assms by (auto simp: release_count_def acct_off_def split: if_splits)
next
  case (Some e)
  have a: "sc_active e = int (length (in_scope il p)) + int (length (pinned_in il p)) + 1" using assms Some by (auto simp: acct_off_def)
  have o: "\<And>q e. q \<noteq> p \<Longrightarrow> map_of (il_scopes il) q = Some e \<Longrightarrow> sc_active e = int (length (in_scope il q)) + int (length (pinned_in il q))"
    using assms by (auto simp: acct_off_def)
  have fr: "in_scope (il\<lparr>il_scopes := ss\<rparr>) q = in_scope il q" "pinned_in (il\<lparr>il_scopes := ss\<rparr>) q = pinned_in il q"
    "in_scope (il\<lparr>il_scopes := ss, il_completed := cs\<rparr>) q = in_scope il q" "pinned_in (il\<lparr>il_scopes := ss, il_completed := cs\<rparr>) q = pinned_in il q"
    for ss cs q by (simp_all add: in_scope_def pinned_in_def)
  have cm: "list_all (\<lambda>(p, ts, ins). ts = [] \<and> ins = []) (il_completed il)" using assms by (simp add: acct_off_def)
  show ?thesis
  proof (cases "sc_active e - 1 > 0")
    case True then show ?thesis using a o cm by (auto simp: release_count_def Some Let_def acct_off_def fr update_conv' split: if_splits)
  next
    case False
    then have "length (in_scope il p) = 0" "length (pinned_in il p) = 0" using a by linarith+
    then have z: "in_scope il p = []" "pinned_in il p = []" "sc_active e = 1" using a by simp_all
    then show ?thesis using a o cm
      by (auto simp: release_count_def Some Let_def acct_off_def icompleteScope_def fr update_conv' delete_conv' split: if_splits)
  qed
qed

lemma acct_pinned:
  assumes a: "acct il" and i: "i \<in> set (il_pins il)" and p: "map_option ic_scopePath (map_of (il_incidents il) i) = Some p"
  shows "acct (decScopePinned i p il)"
proof -
  have fl: "int (length (filter P (remove1 i xs))) = int (length (filter P xs)) - (if P i then 1 else 0)" if "i \<in> set xs" for xs and P :: "nat \<Rightarrow> bool"
    using that by (induction xs) auto
  have "int (length (pinned_in (il\<lparr>il_pins := remove1 i (il_pins il)\<rparr>) q)) = int (length (pinned_in il q)) - one_at p q" for q
    using fl[OF i, of "\<lambda>j. map_option ic_scopePath (map_of (il_incidents il) j) = Some q"] p
    unfolding pinned_in_def by (simp only: iloop.simps option.inject) auto
  then have "acct_off (one_at p) (il\<lparr>il_pins := remove1 i (il_pins il)\<rparr>)"
    using a by (auto simp: acct_off_def in_scope_def)
  then show ?thesis unfolding decScopePinned_def by (rule acct_release)
qed

lemma spawn_tracks:
  assumes "tracks_ok il"
  shows "in_scope (ispawn env tr il) p = in_scope il p @ (if it_scopePath tr = p then [il_next il] else []) \<and> tracks_ok (ispawn env tr il)"
proof -
  have n: "\<not> has_key (il_next il) (il_tracks il)" using assms by (auto simp: tracks_ok_def has_key_def)
  have "\<not> has_key k m \<Longrightarrow> AList.update k v (m @ [(k, w)]) = m @ [(k, v)]" for k :: nat and m :: "(nat \<times> itrack) list" and v w
    by (induction m) auto
  then have "\<exists>tr'. it_scopePath tr' = it_scopePath tr \<and> il_tracks (ispawn env tr il) = il_tracks il @ [(il_next il, tr')]"
    using n by (auto simp: ispawn_def iarm_def Let_def)
  then show ?thesis using assms n by (fastforce simp: in_scope_def tracks_ok_def has_key_def less_Suc_eq)
qed

lemma acct_spawn:
  assumes "acct_off off il" and "tracks_ok il"
  shows "acct_off off (ispawn env tr il)"
proof -
  have sc: "il_scopes (ispawn env tr il) = il_scopes (iincScope (it_scopePath tr) il)"
    by (auto simp: ispawn_def Let_def iincScope_def split: option.split)
  have pi: "pinned_in (ispawn env tr il) p = pinned_in il p" for p by (rule pinned_in_cong) simp_all
  show ?thesis using assms(1) unfolding acct_off_def sc pi conjunct1[OF spawn_tracks[OF assms(2)]]
    by (auto simp: iincScope_def update_conv' split: option.splits if_splits)
qed

text \<open>Everything the accounting needs.\<close>

definition books_ok :: "'d iloop \<Rightarrow> bool" where
  "books_ok il \<longleftrightarrow> records_ok il \<and> acct il \<and> tracks_ok il \<and> pins_ok il"

lemma books_frame:
  assumes "books_ok il" and "il_incidents il' = il_incidents il" and "il_openIncCount il' = il_openIncCount il" and "il_next il' = il_next il"
    and "il_tracks il' = il_tracks il" and "il_scopes il' = il_scopes il" and "il_completed il' = il_completed il" and "il_pins il' = il_pins il"
  shows "books_ok il'"
proof -
  have "pinned_in il' p = pinned_in il p" for p by (rule pinned_in_cong) (simp_all add: assms)
  then show ?thesis using assms acct_frame[of "\<lambda>_. 0" il il'] by (auto simp: books_ok_def records_ok_def tracks_ok_def pins_ok_def)
qed

lemma books_spawn: "books_ok il \<Longrightarrow> books_ok (ispawn env tr il)"
  using acct_spawn[of "\<lambda>_. 0" il env tr] spawn_tracks[of il env tr] records_ok_frame[of il "ispawn env tr il"]
  by (auto simp: books_ok_def pins_ok_def)

lemma books_spawn_succs:
  assumes "books_ok il"
  shows "books_ok (fst (spawn_succs env inc ss il))"
  using assms
proof (induction ss arbitrary: il)
  case (Cons s ss)
  have "books_ok (il\<lparr>il_stopping := True\<rparr>)" using Cons.prems by (rule books_frame) simp_all
  then show ?case using Cons.IH[OF books_spawn[OF Cons.prems]] by (auto split: sum.split)
qed simp

text \<open>A change of an open record at its place leaves the accounts alone.\<close>

lemma books_put:
  assumes b: "books_ok il" and l: "map_of (il_incidents il) i = Some inc" and n: "ic_id inc' = i" "ic_scopePath inc' = ic_scopePath inc"
    and r: "records_ok il'" and s: "ic_state inc' = incidentRetryScheduled \<longrightarrow> i \<in> set (il_pins il)"
    and f: "il_incidents il' = AList.update i inc' (il_incidents il)" "il_tracks il' = il_tracks il" "il_scopes il' = il_scopes il"
      "il_completed il' = il_completed il" "il_pins il' = il_pins il" "il_next il' = il_next il"
  shows "books_ok il'"
proof -
  have "pinned_in il' p = pinned_in il p" for p
    by (rule pinned_in_cong) (use n l in \<open>auto simp: f update_conv'\<close>)
  then have "acct il'" using b acct_frame[of "\<lambda>_. 0" il il'] by (simp add: books_ok_def f)
  moreover have "pins_ok il'" using b s by (auto simp: books_ok_def pins_ok_def f update_conv' split: if_splits)
  ultimately show ?thesis using r b by (simp add: books_ok_def tracks_ok_def f)
qed

lemma books_pinned:
  assumes b: "books_ok il" and i: "i \<in> set (il_pins il)" and l: "map_of (il_incidents il) i = Some inc" and o: "ic_state inc \<noteq> incidentRetryScheduled"
  shows "books_ok (decScopePinned i (ic_scopePath inc) il)"
proof -
  have "acct (decScopePinned i (ic_scopePath inc) il)" by (rule acct_pinned[OF _ i]) (use b l in \<open>simp_all add: books_ok_def\<close>)
  moreover have "pins_ok (decScopePinned i (ic_scopePath inc) il)"
  proof -
    have k: "set (il_pins il) \<subseteq> fst ` set (il_incidents il)"
      "\<And>j jnc. map_of (il_incidents il) j = Some jnc \<Longrightarrow> ic_state jnc = incidentRetryScheduled \<Longrightarrow> j \<in> set (il_pins il)"
      using b by (auto simp: books_ok_def pins_ok_def)
    have "j \<in> set (remove1 i (il_pins il))" if "map_of (il_incidents il) j = Some jnc" "ic_state jnc = incidentRetryScheduled" for j jnc
      using k(2)[OF that] that l o by (cases "j = i") auto
    then show ?thesis using k(1) set_remove1_subset[of i "il_pins il"] by (simp add: pins_ok_def)
  qed
  ultimately show ?thesis using b by (simp add: books_ok_def records_ok_def tracks_ok_def)
qed

lemma books_close:
  assumes "books_ok il" and "map_of (il_incidents il) i = Some inc" and "state_open (ic_state inc)" and "\<not> state_open to"
  shows "books_ok (closeIncident to inc il)"
proof -
  have r: "records_ok il" using assms(1) by (simp add: books_ok_def)
  have i: "ic_id inc = i" using table_lookup[OF r[unfolded records_ok_def] assms(2)] by simp
  show ?thesis
    by (rule books_put[OF assms(1,2), of "inc\<lparr>ic_state := to, ic_retryAt := None, ic_lastAt := il_now il\<rparr>"])
      (use records_ok_close[OF r assms(2-4)] assms(4) i in \<open>auto simp: state_open_def\<close>)
qed

lemma books_retry:
  assumes b: "books_ok il" and l: "map_of (il_incidents il) i = Some inc" and o: "state_open (ic_state inc)" and p: "i \<in> set (il_pins il)"
  shows "books_ok (retryIncident env inc il)"
proof -
  have r: "records_ok il" using b by (simp add: books_ok_def)
  have i: "ic_id inc = i" using table_lookup[OF r[unfolded records_ok_def] l] by simp
  have put: "books_ok (put_incident inc' il)" if "ic_state inc' = incidentOpen" "ic_id inc' = i" "ic_nodeID inc' = ic_nodeID inc"
      "ic_scopePath inc' = ic_scopePath inc" "ic_scopeSeg inc' = ic_scopeSeg inc" for inc'
    by (rule books_put[OF b l]) (use that records_ok_put[OF r l o] in \<open>simp_all add: state_open_def\<close>)
  show ?thesis
  proof (cases "Option.bind (incidentNode env inc) (\<lambda>n. case ie_newTrack env n of Inl _ \<Rightarrow> None | Inr _ \<Rightarrow> Some n)")
    case None
    then show ?thesis using put[of "inc\<lparr>ic_state := incidentOpen, ic_retryAt := None\<rparr>"] i by (simp add: retryIncident_def)
  next
    case (Some n)
    let ?inc = "inc\<lparr>ic_trackID := il_next il, ic_state := incidentOpen, ic_retryAt := None\<rparr>"
    have "books_ok (put_incident ?inc il)" by (rule put) (simp_all add: i)
    then have "books_ok (put_incident ?inc (transferWatches (ic_trackID inc) (il_next il) il))" by (rule books_frame) simp_all
    note sp = books_spawn[OF this]
    have "books_ok (decScopePinned i (ic_scopePath ?inc) (ispawn env tr (put_incident ?inc (transferWatches (ic_trackID inc) (il_next il) il))))" for tr
      by (rule books_pinned[OF sp]) (use p i in \<open>simp_all add: update_conv'\<close>)
    then show ?thesis by (simp add: retryIncident_def Some Let_def i)
  qed
qed

lemma books_resolve:
  assumes b: "books_ok il" and l: "map_of (il_incidents il) i = Some inc" and o: "state_open (ic_state inc)" and p: "i \<in> set (il_pins il)"
  shows "books_ok (fst (resolveIncident env inc il))"
proof (cases "incidentNode env inc")
  case None then show ?thesis using b by (simp add: resolveIncident_def)
next
  case (Some n)
  have r: "records_ok il" using b by (simp add: books_ok_def)
  have i: "ic_id inc = i" using table_lookup[OF r[unfolded records_ok_def] l] by simp
  let ?il1 = "idisarmBoundaries (ic_trackID inc) (closeIncident incidentResolved inc il)"
  let ?il2 = "?il1\<lparr>il_position := AList.delete (ic_trackID inc) (il_position ?il1)\<rparr>"
  let ?il3 = "fst (spawn_succs env inc (nd_Outgoing n) ?il2)"
  have "books_ok (closeIncident incidentResolved inc il)" by (rule books_close[OF b l o]) (simp add: state_open_def)
  then have "books_ok ?il2" by (rule books_frame) simp_all
  then have b3: "books_ok ?il3" by (rule books_spawn_succs)
  have "books_ok (decScopePinned i (ic_scopePath inc) ?il3)"
    using books_pinned[OF b3, of i "inc\<lparr>ic_state := incidentResolved, ic_retryAt := None, ic_lastAt := il_now il\<rparr>"] p i by (simp add: update_conv')
  then show ?thesis using b3 by (simp add: resolveIncident_def Some Let_def case_prod_beta i)
qed

lemma books_rearm: "books_ok il \<Longrightarrow> books_ok (rearmIncidentRetryTimer il)"
  by (rule books_frame) simp_all

lemma books_request:
  assumes "books_ok il" and "op \<noteq> IncidentDrop \<Longrightarrow> i \<in> set (il_pins il)"
  shows "books_ok (fst (handleIncidentRequest env op i il))"
proof (cases "map_of (il_incidents il) i")
  case (Some inc)
  show ?thesis
  proof (cases "state_open (ic_state inc)")
    case True
    have "books_ok (closeIncident incidentDeadLettered inc il)" by (rule books_close[OF assms(1) Some True]) (simp add: state_open_def)
    then have d: "books_ok (dropIncident inc il)" unfolding dropIncident_def Let_def by (rule books_frame) simp_all
    show ?thesis
      using books_retry[OF assms(1) Some True, of env] books_resolve[OF assms(1) Some True, of env] d Some True assms(2)
      by (cases op) (auto simp: handleIncidentRequest_def case_prod_beta intro: books_rearm)
  qed (use assms Some in \<open>simp add: handleIncidentRequest_def\<close>)
qed (use assms in \<open>simp add: handleIncidentRequest_def\<close>)

lemma books_on_incidents:
  assumes "books_ok il" and "distinct is"
    and "\<And>i inc. i \<in> set is \<Longrightarrow> map_of (il_incidents il) i = Some inc \<Longrightarrow> P inc \<Longrightarrow> Q \<Longrightarrow> i \<in> set (il_pins il)"
    and "\<And>il i inc. books_ok il \<Longrightarrow> map_of (il_incidents il) i = Some inc \<Longrightarrow> P inc \<Longrightarrow> (Q \<Longrightarrow> i \<in> set (il_pins il)) \<Longrightarrow>
      books_ok (f inc il) \<and> (\<forall>j. j \<noteq> i \<longrightarrow> map_of (il_incidents (f inc il)) j = map_of (il_incidents il) j \<and>
        (j \<in> set (il_pins il) \<longrightarrow> j \<in> set (il_pins (f inc il))))"
  shows "books_ok (on_incidents P f is il)"
  using assms(1-3)
proof (induction "is" arbitrary: il)
  case (Cons i "is")
  show ?case
  proof (cases "\<exists>inc. map_of (il_incidents il) i = Some inc \<and> P inc")
    case True
    then obtain inc where l: "map_of (il_incidents il) i = Some inc" "P inc" by blast
    note k = assms(4)[OF Cons.prems(1) l Cons.prems(3)[OF list.set_intros(1) l]]
    have "books_ok (on_incidents P f is (f inc il))"
    proof (rule Cons.IH)
      show "j \<in> set (il_pins (f inc il))" if "j \<in> set is" "map_of (il_incidents (f inc il)) j = Some jnc" "P jnc" Q for j jnc
        using k that Cons.prems(2) Cons.prems(3)[of j jnc] by (metis distinct.simps(2) list.set_intros(2))
    qed (use k Cons.prems(2) in simp_all)
    then show ?thesis using l by simp
  next
    case False
    then have "on_incidents P f (i # is) il = on_incidents P f is il" by (auto split: option.split)
    then show ?thesis using Cons.IH[OF Cons.prems(1)] Cons.prems(2,3) by auto
  qed
qed simp

lemma incident_ids_distinct: "books_ok il \<Longrightarrow> distinct (map fst (il_incidents il))"
  by (simp add: books_ok_def records_ok_def table_ok_def)

lemma lookup_id: "books_ok il \<Longrightarrow> map_of (il_incidents il) i = Some inc \<Longrightarrow> ic_id inc = i"
  using table_lookup by (fastforce simp: books_ok_def records_ok_def)

lemma books_progress: "books_ok il \<Longrightarrow> books_ok (closeIncidentsOnProgress t il)"
  unfolding closeIncidentsOnProgress_def
proof (rule books_rearm, rule books_on_incidents[where Q = False])
  fix il :: "'a iloop" and i inc
  assume b: "books_ok il" "map_of (il_incidents il) i = Some inc" "state_open (ic_state inc) \<and> ic_trackID inc = t"
  then have "books_ok (closeIncident incidentResolved inc il)" by (intro books_close) (auto simp: state_open_def)
  then show "books_ok (closeIncident incidentResolved inc il) \<and>
     (\<forall>j. j \<noteq> i \<longrightarrow> map_of (il_incidents (closeIncident incidentResolved inc il)) j = map_of (il_incidents il) j \<and>
        (j \<in> set (il_pins il) \<longrightarrow> j \<in> set (il_pins (closeIncident incidentResolved inc il))))"
    using lookup_id[OF b(1,2)] by (simp add: update_conv')
qed (simp_all add: incident_ids_distinct)

lemma books_overtaken:
  assumes "books_ok il"
    and "\<And>i inc. map_of (il_incidents il) i = Some inc \<Longrightarrow> state_open (ic_state inc) \<and> ic_trackID inc = t \<Longrightarrow> i \<in> set (il_pins il)"
  shows "books_ok (closeIncidentsOvertaken t il)"
  unfolding closeIncidentsOvertaken_def
proof (rule books_rearm, rule books_on_incidents[where Q = True])
  fix il :: "'a iloop" and i inc
  assume b: "books_ok il" "map_of (il_incidents il) i = Some inc" "state_open (ic_state inc) \<and> ic_trackID inc = t" "True \<Longrightarrow> i \<in> set (il_pins il)"
  let ?inc = "inc\<lparr>ic_state := incidentOvertaken, ic_retryAt := None, ic_lastAt := il_now il\<rparr>"
  let ?c = "closeIncident incidentOvertaken inc il"
  let ?d = "?c\<lparr>il_position := AList.delete (ic_trackID inc) (il_position ?c)\<rparr>"
  have i: "ic_id inc = i" by (rule lookup_id[OF b(1,2)])
  have "books_ok ?c" using b by (intro books_close) (auto simp: state_open_def)
  then have "books_ok ?d" by (rule books_frame) simp_all
  then have "books_ok (decScopePinned i (ic_scopePath ?inc) ?d)" by (rule books_pinned) (use b i in \<open>simp_all add: update_conv'\<close>)
  then show "books_ok (let il1 = closeIncident incidentOvertaken inc il
        in decScopePinned (ic_id inc) (ic_scopePath inc) (il1\<lparr>il_position := AList.delete (ic_trackID inc) (il_position il1)\<rparr>)) \<and>
     (\<forall>j. j \<noteq> i \<longrightarrow> map_of (il_incidents (let il1 = closeIncident incidentOvertaken inc il
        in decScopePinned (ic_id inc) (ic_scopePath inc) (il1\<lparr>il_position := AList.delete (ic_trackID inc) (il_position il1)\<rparr>))) j =
        map_of (il_incidents il) j \<and> (j \<in> set (il_pins il) \<longrightarrow> j \<in> set (il_pins (let il1 = closeIncident incidentOvertaken inc il
        in decScopePinned (ic_id inc) (ic_scopePath inc) (il1\<lparr>il_position := AList.delete (ic_trackID inc) (il_position il1)\<rparr>)))))"
    by (simp add: Let_def i update_conv')
qed (use assms in \<open>simp_all add: incident_ids_distinct\<close>)

lemma retry_touches:
  assumes "ic_id inc = i" and "j \<noteq> i"
  shows "map_of (il_incidents (retryIncident env inc il)) j = map_of (il_incidents il) j"
    and "j \<in> set (il_pins il) \<Longrightarrow> j \<in> set (il_pins (retryIncident env inc il))"
  using assms by (auto simp: retryIncident_def Let_def update_conv' split: option.split)

lemma books_due:
  assumes "books_ok il"
  shows "books_ok (applyDueIncidentRetries env il)"
  unfolding applyDueIncidentRetries_def
proof (rule books_rearm, rule books_on_incidents[where Q = True])
  show "i \<in> set (il_pins il)" if "map_of (il_incidents il) i = Some inc"
    "ic_state inc = incidentRetryScheduled \<and> (\<forall>d \<in> set_option (ic_retryAt inc). d \<le> il_now il)" for i inc
    using assms that by (auto simp: books_ok_def pins_ok_def)
next
  fix il' :: "'a iloop" and i inc
  assume "books_ok il'" "map_of (il_incidents il') i = Some inc"
    "ic_state inc = incidentRetryScheduled \<and> (\<forall>d \<in> set_option (ic_retryAt inc). d \<le> il_now il)" "True \<Longrightarrow> i \<in> set (il_pins il')"
  then show "books_ok (retryIncident env inc il') \<and> (\<forall>j. j \<noteq> i \<longrightarrow> map_of (il_incidents (retryIncident env inc il')) j = map_of (il_incidents il') j \<and>
        (j \<in> set (il_pins il') \<longrightarrow> j \<in> set (il_pins (retryIncident env inc il'))))"
    using lookup_id[of il' i inc] by (auto simp: state_open_def retry_touches intro!: books_retry)
qed (use assms in \<open>simp_all add: incident_ids_distinct\<close>)

lemma in_scope_delete:
  assumes "tracks_ok il" and "map_of (il_tracks il) t = Some tr"
  shows "int (length (filter (\<lambda>q. it_scopePath (snd q) = p) (AList.delete t (il_tracks il)))) = int (length (in_scope il p)) - one_at (it_scopePath tr) p"
proof -
  have "int (length (filter P (AList.delete t m))) = int (length (filter P m)) - (if P (t, tr) then 1 else 0)"
    if "distinct (map fst m)" "map_of m t = Some tr" for P and m :: "(nat \<times> itrack) list"
    using that
  proof (induction m)
    case (Cons q m)
    then show ?case by (cases q; cases "fst q = t") (auto simp: delete_idem)
  qed simp
  then show ?thesis using assms by (simp add: in_scope_def tracks_ok_def)
qed

lemma tracks_ok_delete:
  assumes "tracks_ok il"
  shows "distinct (map fst (AList.delete t (il_tracks il)))" and "\<forall>u \<in> fst ` set (AList.delete t (il_tracks il)). u < il_next il"
proof -
  have "fst ` set (AList.delete t (il_tracks il)) \<subseteq> fst ` set (il_tracks il)"
    using delete_keys[of t "il_tracks il"] by (metis list.set_map set_removeAll Diff_subset)
  then show "\<forall>u \<in> fst ` set (AList.delete t (il_tracks il)). u < il_next il" using assms unfolding tracks_ok_def by blast
  show "distinct (map fst (AList.delete t (il_tracks il)))" using assms by (simp add: tracks_ok_def distinct_delete)
qed

lemma books_ended:
  assumes "books_ok il"
  shows "books_ok (iended t il)"
proof (cases "map_of (il_tracks il) t")
  case (Some tr)
  let ?il = "il\<lparr>il_active := il_active il - 1, il_tracks := AList.delete t (il_tracks il)\<rparr>"
  have k: "records_ok il" "acct il" "tracks_ok il" "pins_ok il" using assms by (auto simp: books_ok_def)
  have "acct_off (one_at (it_scopePath tr)) ?il"
    using k(2) in_scope_delete[OF k(3) Some] by (simp add: acct_off_def in_scope_def pinned_in_def)
  then have a: "acct (release_count (it_scopePath tr) ?il)" by (rule acct_release)
  have "books_ok (release_count (it_scopePath tr) ?il)"
    using k a tracks_ok_delete[OF k(3), of t] by (simp add: books_ok_def records_ok_def tracks_ok_def pins_ok_def)
  then show ?thesis unfolding iended_def Some option.case Let_def by (rule books_frame) simp_all
qed (use assms in \<open>simp add: iended_def\<close>)

text \<open>A raise pins the scope of the failed track once more; with the track's own end the counters are right again.\<close>

lemma raise_fields [simp]:
  "il_tracks (raiseIncident env t tr c il) = il_tracks il" "il_scopes (raiseIncident env t tr c il) = il_scopes il"
  "il_completed (raiseIncident env t tr c il) = il_completed il"
  "il_pins (raiseIncident env t tr c il) =
     (case openIncidentAt il (nd_ID (it_node tr)) (it_scopePath tr) (it_scopeSeg tr) of Some inc \<Rightarrow> ic_id inc | None \<Rightarrow> il_next il) # il_pins il"
  "il_next il \<le> il_next (raiseIncident env t tr c il)"
  by (auto simp: raiseIncident_def Let_def split: option.split)

lemma raise_record:
  assumes "records_ok il"
  shows "\<exists>x. il_incidents (raiseIncident env t tr c il) =
      AList.update (case openIncidentAt il (nd_ID (it_node tr)) (it_scopePath tr) (it_scopeSeg tr) of Some inc \<Rightarrow> ic_id inc | None \<Rightarrow> il_next il)
        x (il_incidents il) \<and> ic_scopePath x = it_scopePath tr"
  using openIncidentAt_Some[OF _ assms] by (auto simp: raiseIncident_def Let_def split: option.split)

lemma books_failed:
  assumes "books_ok il"
  shows "books_ok (applyFailed_incident env t c il)"
proof (cases "map_of (il_tracks il) t")
  case (Some tr)
  have k: "records_ok il" "acct il" "tracks_ok il" "pins_ok il" using assms by (auto simp: books_ok_def)
  define i where "i = (case openIncidentAt il (nd_ID (it_node tr)) (it_scopePath tr) (it_scopeSeg tr) of Some inc \<Rightarrow> ic_id inc | None \<Rightarrow> il_next il)"
  obtain x where x: "il_incidents (raiseIncident env t tr c il) = AList.update i x (il_incidents il)" "ic_scopePath x = it_scopePath tr"
    using raise_record[OF k(1), of env t tr c] unfolding i_def by (elim exE conjE)
  let ?r = "raiseIncident env t tr c il"
  let ?il = "?r\<lparr>il_active := il_active ?r - 1, il_tracks := AList.delete t (il_tracks ?r)\<rparr>"
  have same: "map_option ic_scopePath (map_of (AList.update i x (il_incidents il)) j) = map_option ic_scopePath (map_of (il_incidents il) j)"
    if j: "j \<in> set (il_pins il)" for j
  proof (cases "j = i")
    case True
    have "j \<noteq> il_next il" using j k(1,4) by (fastforce simp: pins_ok_def records_ok_def table_ok_def)
    then obtain inc where "openIncidentAt il (nd_ID (it_node tr)) (it_scopePath tr) (it_scopeSeg tr) = Some inc" "i = ic_id inc"
      using True by (auto simp: i_def split: option.splits)
    then show ?thesis using openIncidentAt_Some[OF _ k(1)] x(2) True by (auto simp: update_conv')
  qed (simp add: update_conv')
  have pin: "length (pinned_in ?il p) = length (pinned_in il p) + (if p = it_scopePath tr then 1 else 0)" for p
  proof -
    have "filter (\<lambda>j. map_option ic_scopePath (map_of (AList.update i x (il_incidents il)) j) = Some p) (il_pins il) = pinned_in il p"
      unfolding pinned_in_def using same by (intro filter_cong refl) (simp only:)
    moreover have "pinned_in ?il p = filter (\<lambda>j. map_option ic_scopePath (map_of (AList.update i x (il_incidents il)) j) = Some p) (i # il_pins il)"
    proof -
      have "il_pins ?il = i # il_pins il" "il_incidents ?il = AList.update i x (il_incidents il)" by (simp_all add: x(1) i_def)
      then show ?thesis unfolding pinned_in_def by (simp only:)
    qed
    moreover have "map_option ic_scopePath (map_of (AList.update i x (il_incidents il)) i) = Some p \<longleftrightarrow> p = it_scopePath tr"
      using x(2) by (auto simp: update_conv')
    ultimately show ?thesis by (simp only: filter.simps) simp
  qed
  have "acct ?il" using k(2) pin in_scope_delete[OF k(3) Some] by (auto simp: acct_off_def in_scope_def split: if_splits)
  moreover have "records_ok ?il" by (rule records_ok_frame[OF records_ok_raise[OF k(1), of env t tr c]]) simp_all
  moreover have "tracks_ok ?il"
  proof -
    have eq: "il_tracks ?il = AList.delete t (il_tracks il)" "il_next ?il = il_next ?r" by simp_all
    show ?thesis unfolding tracks_ok_def eq
      using tracks_ok_delete[OF k(3), of t] raise_fields(5)[of il env t tr c] by (meson less_le_trans)
  qed
  moreover have "pins_ok ?il" using k(4) by (auto simp: pins_ok_def x(1) i_def[symmetric] update_conv' split: if_splits)
  ultimately have "books_ok ?il" by (simp add: books_ok_def)
  then show ?thesis by (simp add: applyFailed_incident_def Some Let_def)
qed (use assms in \<open>simp add: applyFailed_incident_def\<close>)

lemma update_tracks:
  assumes "tracks_ok il" and "map_of (il_tracks il) t = Some tr" and "it_scopePath tr' = it_scopePath tr"
  shows "map fst (filter (\<lambda>q. it_scopePath (snd q) = p) (AList.update t tr' (il_tracks il))) = in_scope il p \<and>
    map fst (AList.update t tr' (il_tracks il)) = map fst (il_tracks il)"
proof -
  have "map_of m t = Some tr \<Longrightarrow> map fst (filter (\<lambda>q. it_scopePath (snd q) = p) (AList.update t tr' m)) = map fst (filter (\<lambda>q. it_scopePath (snd q) = p) m) \<and>
    map fst (AList.update t tr' m) = map fst m" for m
    using assms(3) by (induction m) auto
  then show ?thesis using assms by (simp add: in_scope_def)
qed

lemma books_update_track:
  assumes "books_ok il" and "map_of (il_tracks il) t = Some tr" and "it_scopePath tr' = it_scopePath tr"
    and "il' = il\<lparr>il_tracks := AList.update t tr' (il_tracks il)\<rparr>"
  shows "books_ok il'"
proof -
  note u = update_tracks[OF _ assms(2,3)]
  have k: "tracks_ok il" "acct il" using assms(1) by (auto simp: books_ok_def)
  have "in_scope il' p = in_scope il p" for p using u[OF k(1)] by (simp add: in_scope_def assms(4))
  moreover have "pinned_in il' p = pinned_in il p" for p by (rule pinned_in_cong) (simp_all add: assms(4))
  ultimately have "acct il'" using k(2) by (simp add: acct_off_def assms(4))
  moreover have "map fst (il_tracks il') = map fst (il_tracks il)" using u[OF k(1)] by (simp add: assms(4))
  then have "tracks_ok il'" using k(1) unfolding tracks_ok_def by (metis assms(4) iloop.select_convs(10) iloop.surjective iloop.update_convs(3) list.set_map)
  ultimately show ?thesis using assms(1) by (simp add: books_ok_def records_ok_def pins_ok_def assms(4))
qed

lemma books_moved:
  assumes "books_ok il"
  shows "books_ok (imoved env t n il)"
proof (cases "map_of (il_tracks il) t")
  case (Some tr)
  let ?tr = "tr\<lparr>it_node := n\<rparr>"
  let ?a = "il\<lparr>il_tracks := AList.update t ?tr (il_tracks il)\<rparr>"
  let ?il1 = "idisarmBoundaries t ?a"
  let ?il2 = "?il1\<lparr>il_position := AList.update t n (il_position ?il1)\<rparr>"
  have "books_ok ?a" by (rule books_update_track[OF assms Some]) simp_all
  then have b: "books_ok ?il2" by (rule books_frame) simp_all
  have l: "map_of (il_tracks ?il2) t = Some ?tr" by (simp add: update_conv')
  have "books_ok (iarm env t ?tr ?il2)"
  proof (cases "it_skipInitialArm ?tr")
    case True
    then show ?thesis by (intro books_update_track[OF b l, of "?tr\<lparr>it_skipInitialArm := False\<rparr>"]) (simp_all add: iarm_def)
  next
    case False
    then show ?thesis by (intro books_frame[OF b]) (simp_all add: iarm_def)
  qed
  then show ?thesis unfolding imoved_def Some option.case Let_def by (rule books_progress)
qed (use assms in \<open>simp add: imoved_def\<close>)

lemma books_open:
  assumes b: "books_ok il" and "in_scope il path = []" and "pinned_in il path = []"
  shows "books_ok (open_scope env path tr il)"
proof -
  let ?il = "il\<lparr>il_scopes := (path, \<lparr>sc_active = 0, sc_aborting = False, sc_awaitAttach = False, sc_drainPending = False\<rparr>) # il_scopes il\<rparr>"
  have "acct ?il" using assms by (auto simp: books_ok_def acct_off_def in_scope_def pinned_in_def)
  then have "books_ok ?il" using b by (simp add: books_ok_def records_ok_def tracks_ok_def pins_ok_def)
  then show ?thesis unfolding open_scope_def by (rule books_spawn)
qed

lemma books_step:
  assumes b: "books_ok il" and e: "enabled st il" and d: "disciplined st il"
  shows "books_ok (istep_apply env st il)"
proof (cases st)
  case (IBoundary t tr)
  have "books_ok (idisarmBoundaries t (ispawn env tr il))" by (rule books_frame[OF books_spawn[OF b]]) simp_all
  then have "books_ok (closeIncidentsOvertaken t (idisarmBoundaries t (ispawn env tr il)))"
    by (rule books_overtaken) (use d in \<open>force simp: IBoundary disciplined_def list_all_iff dest: map_of_SomeD\<close>)
  then show ?thesis by (simp add: IBoundary istep_apply_def iboundary_def)
next
  case (IOp op i)
  have "books_ok (fst (handleIncidentRequest env op i il))"
    by (rule books_request[OF b]) (use d in \<open>cases op; simp add: IOp disciplined_def\<close>)
  then show ?thesis by (simp add: IOp istep_apply_def)
next
  case (ITick k)
  have "books_ok (il\<lparr>il_now := il_now il + int k\<rparr>)" using b by (rule books_frame) simp_all
  then show ?thesis by (simp add: ITick istep_apply_def)
qed (use e in \<open>auto simp: istep_apply_def enabled_def intro: books_open[OF b] books_spawn[OF b] books_failed[OF b] books_moved[OF b] books_ended[OF b] books_due[OF b]\<close>)

lemma inc_run_books: "inc_run disc env il \<Longrightarrow> disc \<Longrightarrow> books_ok il"
proof (induction rule: inc_run.induct)
  case start
  show ?case by (simp add: books_ok_def records_ok_def table_ok_def acct_off_def tracks_ok_def pins_ok_def inc_start_def)
next
  case (step il st) then show ?case by (intro books_step) simp_all
qed


section \<open>Through a checkpoint\<close>

definition of_record :: "'d IncidentRecord \<Rightarrow> incidentState \<Rightarrow> 'd incident" where
  "of_record rec st =
     \<lparr>ic_id = ir_IncID rec, ic_nodeID = ir_NodeID rec, ic_nodeName = ir_NodeName rec, ic_trackID = ir_TrackID rec,
      ic_scopePath = ir_ScopePath rec, ic_scopeSeg = ir_ScopeSeg rec, ic_cause = ir_Cause rec, ic_causeClass = ir_CauseClass rec,
      ic_prev = ir_Prev rec, ic_node = None, ic_data = ir_Data rec, ic_attempts = ir_Attempts rec, ic_state = st,
      ic_firstAt = ir_FirstAt rec, ic_lastAt = ir_LastAt rec, ic_retryAt = ir_RetryAt rec\<rparr>"

lemma state_name_roundtrip: "incidentStateFromName (incidentState_String st) = Some st"
  by (cases st) (simp_all add: incidentStateFromName_def incidentStates_def)

lemma of_incident_record: "of_record (incident_record inc) (ic_state inc) = inc\<lparr>ic_node := None\<rparr>"
  by (simp add: of_record_def incident_record_def)

lemma restore_records:
  assumes "set recs \<subseteq> incident_record ` A" and "distinct (map ir_IncID recs)"
  shows "\<exists>il'. restoreIncidents recs il = Inr il' \<and>
    il_openIncCount il' = il_openIncCount il + int (length (filter (\<lambda>r. state_open (the (incidentStateFromName (ir_State r)))) recs)) \<and>
    (\<forall>i. map_of (il_incidents il') i =
       (case List.find (\<lambda>r. ir_IncID r = i) recs of Some r \<Rightarrow> Some (of_record r (the (incidentStateFromName (ir_State r)))) | None \<Rightarrow> map_of (il_incidents il) i))"
  using assms
proof (induction recs arbitrary: il)
  case (Cons r recs)
  then obtain inc where r: "r = incident_record inc" by auto
  let ?il = "put_incident (of_record r (ic_state inc)) (il\<lparr>il_openIncCount := il_openIncCount il + (if state_open (ic_state inc) then 1 else 0)\<rparr>)"
  have st: "incidentStateFromName (ir_State r) = Some (ic_state inc)" by (simp add: r incident_record_def state_name_roundtrip)
  have id: "ic_id (of_record r (ic_state inc)) = ir_IncID r" by (simp add: of_record_def)
  obtain il' where il': "restoreIncidents recs ?il = Inr il'"
    "il_openIncCount il' = il_openIncCount ?il + int (length (filter (\<lambda>r. state_open (the (incidentStateFromName (ir_State r)))) recs))"
    "\<forall>i. map_of (il_incidents il') i =
       (case List.find (\<lambda>r. ir_IncID r = i) recs of Some r \<Rightarrow> Some (of_record r (the (incidentStateFromName (ir_State r)))) | None \<Rightarrow> map_of (il_incidents ?il) i)"
    using Cons.IH[of ?il] Cons.prems by auto
  have "ir_IncID r \<notin> ir_IncID ` set recs" using Cons.prems(2) by simp
  then have nf: "List.find (\<lambda>q. ir_IncID q = ir_IncID r) recs = None" by (metis (mono_tags, lifting) find_None_iff image_eqI)
  show ?case
  proof (intro exI[of _ il'] conjI allI)
    show "restoreIncidents (r # recs) il = Inr il'" using il'(1) st by (simp add: of_record_def)
    show "il_openIncCount il' = il_openIncCount il + int (length (filter (\<lambda>r. state_open (the (incidentStateFromName (ir_State r)))) (r # recs)))"
      using il'(2) st by simp
    show "map_of (il_incidents il') i = (case List.find (\<lambda>r. ir_IncID r = i) (r # recs) of
        Some r \<Rightarrow> Some (of_record r (the (incidentStateFromName (ir_State r)))) | None \<Rightarrow> map_of (il_incidents il) i)" for i
      using il'(3) nf st id by (auto simp: update_conv' split: option.split)
  qed
qed simp

lemma find_distinct: "distinct (map f xs) \<Longrightarrow> x \<in> set xs \<Longrightarrow> List.find (\<lambda>r. f r = f x) xs = Some x"
proof (induction xs)
  case (Cons y xs) then show ?case by (cases "x = y") (auto simp: image_iff)
qed simp

lemma start_table [simp]: "il_incidents inc_start = []" "il_openIncCount inc_start = 0"
  by (simp_all add: inc_start_def)

text \<open>
  Claim C10. The incidents of every history survive a checkpoint: written as records and read back into a fresh instance, every incident is there
  again, open and closed, with all it had but the pointer to its node, and the count of open ones with them.
\<close>

theorem incidents_roundtrip:
  assumes "inc_run disc env il"
  shows "\<exists>il'. restoreIncidents (incidentRecords il) inc_start = Inr il' \<and> il_openIncCount il' = il_openIncCount il \<and>
    (\<forall>i. map_of (il_incidents il') i = map_option (\<lambda>inc. inc\<lparr>ic_node := None\<rparr>) (map_of (il_incidents il) i))"
proof -
  have t: "table_ok (il_incidents il) (il_openIncCount il) (il_next il)" using inc_run_records[OF assms] by (simp add: records_ok_def)
  let ?rs = "map (incident_record \<circ> snd) (il_incidents il)"
  have m: "mset (incidentRecords il) = mset ?rs" by (simp add: incidentRecords_def)
  have k: "ic_id (snd p) = fst p" if "p \<in> set (il_incidents il)" for p using t that unfolding table_ok_def by (cases p) auto
  have ids: "map ir_IncID ?rs = map fst (il_incidents il)" by (simp add: incident_record_def k)
  have "distinct (map ir_IncID ?rs)" unfolding ids using t by (simp add: table_ok_def)
  moreover have "mset (map ir_IncID (incidentRecords il)) = mset (map ir_IncID ?rs)" by (simp only: mset_map m)
  ultimately have d: "distinct (map ir_IncID (incidentRecords il))" using mset_eq_imp_distinct_iff by blast
  have set: "set (incidentRecords il) = incident_record ` snd ` set (il_incidents il)"
  proof -
    have "set_mset (mset (incidentRecords il)) = set_mset (mset ?rs)" by (simp only: m)
    then show ?thesis by (simp add: image_comp)
  qed
  then have "set (incidentRecords il) \<subseteq> incident_record ` UNIV" by auto
  from restore_records[OF this d, of inc_start, unfolded start_table map_of.simps(1) add_0] obtain il' where r: "restoreIncidents (incidentRecords il) inc_start = Inr il'"
    "il_openIncCount il' = int (length (filter (\<lambda>r. state_open (the (incidentStateFromName (ir_State r)))) (incidentRecords il)))"
    "\<forall>i. map_of (il_incidents il') i = (case List.find (\<lambda>r. ir_IncID r = i) (incidentRecords il) of
        Some r \<Rightarrow> Some (of_record r (the (incidentStateFromName (ir_State r)))) | None \<Rightarrow> None)"
    by (elim exE conjE)
  have "length (filter (\<lambda>r. state_open (the (incidentStateFromName (ir_State r)))) (incidentRecords il)) =
      length (filter (\<lambda>r. state_open (the (incidentStateFromName (ir_State r)))) ?rs)"
    by (simp only: size_mset[symmetric] mset_filter m)
  also have "\<dots> = length (filter (\<lambda>p. state_open (ic_state (snd p))) (il_incidents il))"
    by (simp add: filter_map comp_def incident_record_def state_name_roundtrip)
  finally have c: "il_openIncCount il' = il_openIncCount il" using r(2) t by (simp add: table_ok_def)
  have "map_of (il_incidents il') i = map_option (\<lambda>inc. inc\<lparr>ic_node := None\<rparr>) (map_of (il_incidents il) i)" for i
  proof (cases "map_of (il_incidents il) i")
    case None
    then have "List.find (\<lambda>r. ir_IncID r = i) (incidentRecords il) = None"
    proof -
      have "i \<notin> fst ` set (il_incidents il)" using None by (simp add: map_of_eq_None_iff)
      moreover have "ir_IncID q \<in> fst ` set (il_incidents il)" if q: "q \<in> set (incidentRecords il)" for q
      proof -
        obtain p where p: "p \<in> set (il_incidents il)" "q = incident_record (snd p)" using q set by auto
        then have "ir_IncID q = fst p" using k by (simp add: incident_record_def)
        then show ?thesis using p(1) by auto
      qed
      ultimately show ?thesis unfolding find_None_iff by blast
    qed
    then show ?thesis using r(3) None by simp
  next
    case (Some inc)
    have id: "ic_id inc = i" using table_lookup[OF t Some] by simp
    have "incident_record inc \<in> set (incidentRecords il)" using set map_of_SomeD[OF Some] by force
    from find_distinct[OF d this] have "List.find (\<lambda>r. ir_IncID r = i) (incidentRecords il) = Some (incident_record inc)"
      by (simp add: incident_record_def id)
    moreover have "the (incidentStateFromName (ir_State (incident_record inc))) = ic_state inc"
      by (simp add: incident_record_def state_name_roundtrip)
    ultimately show ?thesis using r(3) Some by (simp add: of_incident_record)
  qed
  then show ?thesis using r(1) c by blast
qed

section \<open>Runs\<close>

fun steps_ok :: "bool \<Rightarrow> ('c, 'd) ienv \<Rightarrow> 'c istep list \<Rightarrow> 'd iloop \<Rightarrow> bool" where
  "steps_ok disc env [] il = True"
| "steps_ok disc env (st # sts) il \<longleftrightarrow>
     \<not> il_stopping il \<and> enabled st il \<and> (disc \<longrightarrow> disciplined st il) \<and> steps_ok disc env sts (istep_apply env st il)"

lemma inc_run_steps: "inc_run disc env il \<Longrightarrow> steps_ok disc env sts il \<Longrightarrow> inc_run disc env (fold (istep_apply env) sts il)"
  by (induction sts arbitrary: il) (auto intro: inc_run.step)

text \<open>A task with a successor, an end event, and no retry policy. The first failure of the task below is retried by the operator.\<close>

definition demo_next :: inode where "demo_next = INode ''N'' ''next'' [] []"
definition demo_itask :: inode where "demo_itask = INode ''T'' ''task'' [''N''] []"

definition demo_ienv :: "(string, nat) ienv" where
  "demo_ienv = \<lparr>ie_Nodes = [demo_itask, demo_next], ie_target = (\<lambda>i. demo_next), ie_newTrack = (\<lambda>n. Inr ()), ie_policy = (\<lambda>n. None),
     ie_enginePolicy = None, ie_render = id, ie_class = (\<lambda>c. []), ie_snapshot = (\<lambda>p. Some 5), ie_boundaries = (\<lambda>n. [])\<rparr>"

definition demo_itrack :: "inode \<Rightarrow> itrack" where
  "demo_itrack n = \<lparr>it_node = n, it_scopePath = ''/sp'', it_scopeSeg = [], it_prev = [], it_skipInitialArm = False\<rparr>"

definition demo_failed :: "string istep list" where
  "demo_failed = [IOpen ''/sp'' (demo_itrack demo_itask), IFail 0 ''boom'']"

definition demo_retried :: "string istep list" where
  "demo_retried = demo_failed @ [IOp IncidentRetry 1, IMove 2 demo_next]"

abbreviation after :: "string istep list \<Rightarrow> nat iloop" where
  "after sts \<equiv> fold (istep_apply demo_ienv) sts inc_start"

theorem incident_lifecycle_witness:
  "openIncidents (after demo_failed) = 1 \<and> il_openIncCount (after demo_failed) = int (openIncidents (after demo_failed))"
proof -
  have r: "inc_run False demo_ienv (after demo_failed)" by (rule inc_run_steps[OF inc_run.start]) code_simp
  have o: "openIncidents (after demo_failed) = 1" by code_simp
  show ?thesis using incident_lifecycle[OF r] o by simp
qed

theorem closed_incident_frozen_witness:
  "map_option ic_state (map_of (il_incidents (after demo_retried)) 1) = Some incidentResolved \<and>
   map_option ic_state (map_of (il_incidents (istep_apply demo_ienv (IOp IncidentRetry 1) (after demo_retried))) 1) = Some incidentResolved"
proof -
  have r: "inc_run True demo_ienv (after demo_retried)" by (rule inc_run_steps[OF inc_run.start]) code_simp
  have s: "map_option ic_state (map_of (il_incidents (after demo_retried)) 1) = Some incidentResolved" by code_simp
  then obtain inc where i: "map_of (il_incidents (after demo_retried)) 1 = Some inc" "ic_state inc = incidentResolved" by auto
  then have "map_of (il_incidents (istep_apply demo_ienv (IOp IncidentRetry 1) (after demo_retried))) 1 = Some inc"
    by (intro closed_incident_frozen[OF r]) (simp_all add: state_open_def)
  then show ?thesis using i s by simp
qed


theorem incidents_roundtrip_witness:
  "\<exists>il'. restoreIncidents (incidentRecords (after demo_failed)) inc_start = Inr il' \<and> il_openIncCount il' = il_openIncCount (after demo_failed)"
proof -
  have r: "inc_run True demo_ienv (after demo_failed)" by (rule inc_run_steps[OF inc_run.start]) code_simp
  show ?thesis using incidents_roundtrip[OF r] by blast
qed

section \<open>Where the promises are not kept\<close>

text \<open>
  An incident stays open while its retry is running, so the operator's second retry is accepted: a second attempt starts, and the count it
  gives back is that of the first. When one of them ends, the scope completes with the other still running in it.
\<close>

definition double_retry :: "string istep list" where
  "double_retry = demo_failed @ [IOp IncidentRetry 1, IOp IncidentRetry 1, IEnd 3]"

theorem double_retry_closes_early:
  "inc_run False demo_ienv (after double_retry) \<and> il_completed (after double_retry) = [(''/sp'', [2], [])] \<and> has_key 2 (il_tracks (after double_retry))"
proof (intro conjI)
  show "inc_run False demo_ienv (after double_retry)" by (rule inc_run_steps[OF inc_run.start]) code_simp
  show "il_completed (after double_retry) = [(''/sp'', [2], [])]" by code_simp
  show "has_key 2 (il_tracks (after double_retry))" by code_simp
qed

text \<open>
  A failed track keeps its position, and a retry does not take it away: after a successful retry the node is occupied for ever, by a
  track that does not exist, and every join that can be reached from it waits for it.
\<close>

theorem retried_position_stays:
  "inc_run True demo_ienv (after (demo_retried @ [IEnd 2])) \<and> il_tracks (after (demo_retried @ [IEnd 2])) = [] \<and>
   openIncidents (after (demo_retried @ [IEnd 2])) = 0 \<and> il_position (after (demo_retried @ [IEnd 2])) = [(0, demo_itask)]"
proof (intro conjI)
  show "inc_run True demo_ienv (after (demo_retried @ [IEnd 2]))" by (rule inc_run_steps[OF inc_run.start]) code_simp
  show "il_tracks (after (demo_retried @ [IEnd 2])) = []" by code_simp
  show "openIncidents (after (demo_retried @ [IEnd 2])) = 0" by code_simp
  show "il_position (after (demo_retried @ [IEnd 2])) = [(0, demo_itask)]" by code_simp
qed

text \<open>
  Only a move past the node closes a retried incident. An attempt at a node without outgoing flows ends without a move: the retry has
  succeeded, nothing runs any more, and the instance parks on the open incident instead of completing.
\<close>

definition retried_end :: "string istep list" where
  "retried_end = [IOpen ''/sp'' (demo_itrack demo_next), IFail 0 ''boom'', IOp IncidentRetry 1, IEnd 2]"

theorem retried_end_never_closes:
  "inc_run True demo_ienv (after retried_end) \<and> il_tracks (after retried_end) = [] \<and> parkOnIncidents (after retried_end)"
proof (intro conjI)
  show "inc_run True demo_ienv (after retried_end)" by (rule inc_run_steps[OF inc_run.start]) code_simp
  show "il_tracks (after retried_end) = []" by code_simp
  show "parkOnIncidents (after retried_end)" by code_simp
qed

text \<open>
  Two tokens that fail at the same node in the same scope share one incident, but each leaves its count: one retry moves one token on, and
  the scope can never drain.
\<close>

definition two_tokens :: "string istep list" where
  "two_tokens =
     [IOpen ''/sp'' (demo_itrack demo_itask), IFork (demo_itrack demo_itask), IFail 0 ''boom'', IFail 1 ''boom'', IOp IncidentRetry 2,
      IMove 3 demo_next, IEnd 3]"

theorem shared_incident_strands_token:
  "inc_run True demo_ienv (after two_tokens) \<and> il_tracks (after two_tokens) = [] \<and> openIncidents (after two_tokens) = 0 \<and>
   map_option sc_active (map_of (il_scopes (after two_tokens)) ''/sp'') = Some 1"
proof (intro conjI)
  show "inc_run True demo_ienv (after two_tokens)" by (rule inc_run_steps[OF inc_run.start]) code_simp
  show "il_tracks (after two_tokens) = []" by code_simp
  show "openIncidents (after two_tokens) = 0" by code_simp
  show "map_option sc_active (map_of (il_scopes (after two_tokens)) ''/sp'') = Some 1" by code_simp
qed

end
