(* ===== verification/Timer_Service.thy ===== *)
theory Timer_Service
  imports Gobpm_Prelude "HOL-Library.Word" "HOL-Library.Sublist"
begin

text \<open>
  The engine's durable timer holder (\<^verbatim>\<open>src/pkg/thresher/timer_service.go\<close>): the absolute deadlines
  kept on behalf of released instances, the tokens of the arms in flight, and the goroutine that
  waits for the nearest deadline and wakes the instances whose deadline has passed.

  An event definition is named by its id (\<open>None\<close> is the nil definition the code tolerates), a
  \<^verbatim>\<open>time.Time\<close> is the number of nanoseconds of its instant. The clock and the wake callback are
  arguments. A pending trigger's prepared data is left out: no timer sets it. The methods run under the service's mutex, so each is one step; \<open>fireDue\<close> gives the
  mutex up between its scan and its wakes, and the step relation at the end of the theory
  interleaves the goroutine with the arms and releases of everybody else at exactly those points.
\<close>

section \<open>Holds\<close>

datatype WaitKind = WaitNode | WaitBoundary

record PendingTrigger =
  pt_TrackID :: string
  pt_EDef :: "string option"

record timerHold =
  th_eDef :: "string option"
  th_deadline :: int
  th_instanceID :: string
  th_trackID :: string
  th_cycles :: int
  th_kind :: WaitKind
  th_firing :: bool

definition holdKey :: "string \<Rightarrow> string \<Rightarrow> string \<Rightarrow> string" where
  "holdKey instanceID trackID eDefID = instanceID @ ''|'' @ trackID @ ''|'' @ eDefID"

definition trackPrefix :: "string \<Rightarrow> string \<Rightarrow> string" where
  "trackPrefix instanceID trackID = instanceID @ ''|'' @ trackID @ ''|''"

definition eDefIDOf :: "string option \<Rightarrow> string" where
  "eDefIDOf d = (case d of None \<Rightarrow> [] | Some i \<Rightarrow> i)"

definition key_of :: "timerHold \<Rightarrow> string" where
  "key_of h = holdKey (th_instanceID h) (th_trackID h) (eDefIDOf (th_eDef h))"

section \<open>The service\<close>

text \<open>\<open>ts_kick\<close> tells whether the one-slot channel of the loop's wake-up signal is full.\<close>

record timerService =
  ts_holds :: "(string \<times> timerHold) list"
  ts_arming :: "(64 word \<times> string) list"
  ts_kick :: bool
  ts_armingNext :: "64 word"
  ts_backoff :: int

definition newTimerService :: "int \<Rightarrow> timerService" where
  "newTimerService backoff =
     \<lparr>ts_holds = [], ts_arming = [], ts_kick = False, ts_armingNext = 0, ts_backoff = backoff\<rparr>"

definition signal :: "timerService \<Rightarrow> timerService" where
  "signal ts = ts\<lparr>ts_kick := True\<rparr>"

definition deferHold :: "timerHold \<Rightarrow> int \<Rightarrow> timerService \<Rightarrow> timerService" where
  "deferHold h nxt ts =
     signal (case map_of (ts_holds ts) (key_of h) of
       None \<Rightarrow> ts
     | Some cur \<Rightarrow>
         if th_firing cur
         then ts\<lparr>ts_holds := AList.update (key_of h) (cur\<lparr>th_firing := False, th_deadline := nxt\<rparr>) (ts_holds ts)\<rparr>
         else ts)"

definition beginArm :: "string \<Rightarrow> string \<Rightarrow> timerService \<Rightarrow> timerService \<times> 64 word" where
  "beginArm instanceID trackID ts =
     (let tok = ts_armingNext ts + 1
      in (ts\<lparr>ts_armingNext := tok, ts_arming := AList.update tok (trackPrefix instanceID trackID) (ts_arming ts)\<rparr>, tok))"

definition hold :: "timerHold \<Rightarrow> 64 word \<Rightarrow> timerService \<Rightarrow> timerService \<times> bool" where
  "hold h token ts =
     (if \<not> has_key token (ts_arming ts) then (ts, False)
      else (signal (ts\<lparr>ts_arming := AList.delete token (ts_arming ts),
                       ts_holds := AList.update (key_of h) h (ts_holds ts)\<rparr>), True))"

definition releaseOne :: "string \<Rightarrow> string \<Rightarrow> string \<Rightarrow> timerService \<Rightarrow> timerService" where
  "releaseOne instanceID trackID eDefID ts =
     signal (ts\<lparr>ts_holds := AList.delete (holdKey instanceID trackID eDefID) (ts_holds ts)\<rparr>)"

definition release :: "string \<Rightarrow> string \<Rightarrow> timerService \<Rightarrow> timerService" where
  "release instanceID trackID ts =
     (let p = trackPrefix instanceID trackID
      in signal (ts\<lparr>ts_holds := filter (\<lambda>(k, h). \<not> prefix p k) (ts_holds ts),
                    ts_arming := filter (\<lambda>(tok, q). q \<noteq> p) (ts_arming ts)\<rparr>))"

fun timer_nearest_loop :: "(string \<times> timerHold) list \<Rightarrow> int option \<Rightarrow> int option" where
  "timer_nearest_loop [] best = best"
| "timer_nearest_loop ((k, h) # hs) best =
     timer_nearest_loop hs (case best of
       None \<Rightarrow> Some (th_deadline h)
     | Some b \<Rightarrow> if th_deadline h < b then Some (th_deadline h) else best)"

definition timer_nearest :: "timerService \<Rightarrow> int option" where
  "timer_nearest ts = timer_nearest_loop (ts_holds ts) None"

subsection \<open>Firing\<close>

definition hold_due :: "int \<Rightarrow> timerHold \<Rightarrow> bool" where
  "hold_due now h \<longleftrightarrow> \<not> now < th_deadline h \<and> \<not> th_firing h"

text \<open>The part of \<^verbatim>\<open>fireDue\<close> under the mutex: the due holds are marked and collected.\<close>

definition fire_scan :: "int \<Rightarrow> timerService \<Rightarrow> timerService \<times> timerHold list" where
  "fire_scan now ts =
     (ts\<lparr>ts_holds := map (\<lambda>(k, h). (k, if hold_due now h then h\<lparr>th_firing := True\<rparr> else h)) (ts_holds ts)\<rparr>,
      map (\<lambda>(k, h). h\<lparr>th_firing := True\<rparr>) (filter (\<lambda>(k, h). hold_due now h) (ts_holds ts)))"

definition fire_pending :: "timerHold \<Rightarrow> PendingTrigger option" where
  "fire_pending h =
     (if th_kind h \<noteq> WaitBoundary then Some \<lparr>pt_TrackID = th_trackID h, pt_EDef = th_eDef h\<rparr> else None)"

text \<open>
  What follows one wake: the hold is surrendered when the instance was woken and deferred otherwise.
\<close>

definition fire_settle :: "int \<Rightarrow> timerHold \<Rightarrow> bool \<Rightarrow> timerService \<Rightarrow> timerService" where
  "fire_settle now h woken ts =
     (if woken then releaseOne (th_instanceID h) (th_trackID h) (eDefIDOf (th_eDef h)) ts
      else deferHold h (now + ts_backoff ts) ts)"

text \<open>
  The wakes of \<^verbatim>\<open>fireDue\<close>. The callback runs with the mutex free, so it is a function on the service:
  it stands for the wake and for everything others do to the service meanwhile. \<open>stop h\<close> tells
  whether the context is done when the loop reaches \<open>h\<close>.
\<close>

fun fire_loop ::
  "(string \<Rightarrow> PendingTrigger option \<Rightarrow> timerService \<Rightarrow> timerService \<times> bool) \<Rightarrow> (timerHold \<Rightarrow> bool) \<Rightarrow> int \<Rightarrow>
   timerHold list \<Rightarrow> timerService \<Rightarrow> timerService" where
  "fire_loop wake stop now [] ts = ts"
| "fire_loop wake stop now (h # hs) ts =
     (if stop h then ts
      else (let (ts1, woken) = wake (th_instanceID h) (fire_pending h) ts
            in fire_loop wake stop now hs (fire_settle now h woken ts1)))"

definition fireDue ::
  "(string \<Rightarrow> PendingTrigger option \<Rightarrow> timerService \<Rightarrow> timerService \<times> bool) \<Rightarrow> (timerHold \<Rightarrow> bool) \<Rightarrow> int \<Rightarrow>
   timerService \<Rightarrow> timerService" where
  "fireDue wake stop now ts = (let (ts1, hs) = fire_scan now ts in fire_loop wake stop now hs ts1)"

text \<open>\<^verbatim>\<open>HoldTimer\<close> of the engine, with the service running: announce the arm, then hold.\<close>

definition HoldTimer ::
  "string \<Rightarrow> string \<Rightarrow> string option \<Rightarrow> int \<Rightarrow> int \<Rightarrow> WaitKind \<Rightarrow> timerService option \<Rightarrow> timerService option \<times> unit result" where
  "HoldTimer instanceID trackID eDef deadline cycles kind svc =
     (case svc of
        None \<Rightarrow> (None, Inl (AppError InvalidState ''HoldTimer: the engine timer service isn't running''))
      | Some ts \<Rightarrow>
          (let (ts1, token) = beginArm instanceID trackID ts;
               (ts2, taken) = hold \<lparr>th_eDef = eDef, th_deadline = deadline, th_instanceID = instanceID,
                 th_trackID = trackID, th_cycles = cycles, th_kind = kind, th_firing = False\<rparr> token ts1
           in (Some ts2, Inr ())))"

section \<open>The nearest deadline\<close>

lemma timer_nearest_loop_best:
  "\<exists>d. timer_nearest_loop hs (Some b) = Some d \<and> d \<le> b \<and> (\<forall>p \<in> set hs. d \<le> th_deadline (snd p)) \<and>
       (d = b \<or> (\<exists>p \<in> set hs. th_deadline (snd p) = d))"
proof (induction hs arbitrary: b)
  case (Cons p hs)
  obtain d where "timer_nearest_loop hs (Some (min (th_deadline (snd p)) b)) = Some d" "d \<le> min (th_deadline (snd p)) b"
    "\<forall>p \<in> set hs. d \<le> th_deadline (snd p)"
    "d = min (th_deadline (snd p)) b \<or> (\<exists>p \<in> set hs. th_deadline (snd p) = d)"
    using Cons.IH by blast
  moreover have "timer_nearest_loop (p # hs) (Some b) = timer_nearest_loop hs (Some (min (th_deadline (snd p)) b))"
    by (cases p) (simp add: min_def)
  ultimately show ?case by (auto simp: min_def split: if_splits)
qed simp

lemma timer_nearest_spec:
  assumes "ts_holds ts = p # hs"
  obtains d where "timer_nearest ts = Some d" "\<forall>p \<in> set (ts_holds ts). d \<le> th_deadline (snd p)"
    "\<exists>p \<in> set (ts_holds ts). th_deadline (snd p) = d"
proof -
  have "timer_nearest ts = timer_nearest_loop hs (Some (th_deadline (snd p)))" using assms by (cases p) (simp add: timer_nearest_def)
  then show ?thesis using timer_nearest_loop_best[of hs "th_deadline (snd p)"] assms that by auto
qed

lemma timer_nearest_None: "timer_nearest ts = None \<longleftrightarrow> ts_holds ts = []"
proof (cases "ts_holds ts")
  case (Cons p hs)
  then show ?thesis by (metis list.distinct(1) timer_nearest_spec option.distinct(1))
qed (simp add: timer_nearest_def)

lemma timer_nearest_le: "map_of (ts_holds ts) k = Some h \<Longrightarrow> \<exists>d. timer_nearest ts = Some d \<and> d \<le> th_deadline h"
proof (cases "ts_holds ts")
  case (Cons p hs)
  then show "map_of (ts_holds ts) k = Some h \<Longrightarrow> ?thesis" using timer_nearest_spec[OF Cons] by (metis map_of_SomeD snd_conv)
qed simp

lemma timer_nearest_held: "timer_nearest ts = Some d \<Longrightarrow> \<exists>p \<in> set (ts_holds ts). th_deadline (snd p) = d"
proof (cases "ts_holds ts")
  case (Cons p hs)
  then show "timer_nearest ts = Some d \<Longrightarrow> ?thesis" using timer_nearest_spec[OF Cons] by (metis option.inject)
qed (simp add: timer_nearest_def)

section \<open>Keys\<close>

lemma sep_inj:
  assumes "c \<notin> set a" "c \<notin> set a'" "prefix (a @ c # r) (a' @ c # r')"
  shows "a = a' \<and> prefix r r'"
  using assms
proof (induction a arbitrary: a')
  case Nil
  then show ?case by (cases a') auto
next
  case (Cons x a)
  then show ?case by (cases a') auto
qed

text \<open>
  With ids that do not contain the separator, the prefix of a track matches the holds of that track
  and of no other, whatever the id of the event definition.
\<close>

definition id_ok :: "string \<Rightarrow> bool" where
  "id_ok s \<longleftrightarrow> CHR ''|'' \<notin> set s"

lemma trackPrefix_matches:
  assumes "id_ok i" "id_ok t" "id_ok i'" "id_ok t'"
  shows "prefix (trackPrefix i t) (holdKey i' t' e) \<longleftrightarrow> i = i' \<and> t = t'"
proof
  assume p: "prefix (trackPrefix i t) (holdKey i' t' e)"
  have "i = i' \<and> prefix (t @ CHR ''|'' # []) (t' @ CHR ''|'' # e)"
    using sep_inj[of "CHR ''|''" i i' "t @ ''|''" "t' @ ''|'' @ e"] p assms
    by (simp add: trackPrefix_def holdKey_def id_ok_def)
  then show "i = i' \<and> t = t'" using sep_inj[of "CHR ''|''" t t' "[]" e] assms by (simp add: id_ok_def)
qed (simp add: trackPrefix_def holdKey_def prefix_def)

lemma trackPrefix_inj: "id_ok i \<Longrightarrow> id_ok t \<Longrightarrow> id_ok i' \<Longrightarrow> id_ok t' \<Longrightarrow> trackPrefix i t = trackPrefix i' t' \<longleftrightarrow> i = i' \<and> t = t'"
proof -
  have "trackPrefix i' t' = holdKey i' t' []" by (simp add: trackPrefix_def holdKey_def)
  then show "id_ok i \<Longrightarrow> id_ok t \<Longrightarrow> id_ok i' \<Longrightarrow> id_ok t' \<Longrightarrow> ?thesis"
    using trackPrefix_matches[of i t i' t' "[]"] by (metis prefix_order.refl)
qed

section \<open>The invariant of the table\<close>

definition holds_ok :: "timerService \<Rightarrow> bool" where
  "holds_ok ts \<longleftrightarrow> distinct (map fst (ts_holds ts)) \<and> (\<forall>k h. map_of (ts_holds ts) k = Some h \<longrightarrow> key_of h = k)"

lemma key_of_upd [simp]:
  "key_of (h\<lparr>th_firing := b\<rparr>) = key_of h" "key_of (h\<lparr>th_deadline := d\<rparr>) = key_of h"
  by (simp_all add: key_of_def)

lemma signal_simps [simp]:
  "ts_holds (signal ts) = ts_holds ts" "ts_arming (signal ts) = ts_arming ts" "ts_kick (signal ts)"
  "ts_armingNext (signal ts) = ts_armingNext ts" "ts_backoff (signal ts) = ts_backoff ts"
  by (simp_all add: signal_def)

lemma map_of_alist_delete: "map_of (AList.delete k m) i = (if i = k then None else map_of m i)"
  by (simp add: delete_conv')

lemma map_of_filter_key:
  "map_of (filter (\<lambda>(k, h). P k) m) i = (if P i then map_of m i else None)"
  by (induction m) auto

lemma map_of_map_val: "map_of (map (\<lambda>(k, h). (k, f h)) m) i = map_option f (map_of m i)"
  by (induction m) auto

lemmas table_simps = map_of_alist_delete map_of_filter_key map_of_map_val update_conv' distinct_update distinct_delete

lemma map_of_hold:
  "map_of (ts_holds (fst (hold h tok ts))) k =
     (if has_key tok (ts_arming ts) \<and> k = key_of h then Some h else map_of (ts_holds ts) k)"
  by (simp add: hold_def table_simps)

lemma map_of_releaseOne:
  "map_of (ts_holds (releaseOne i t e ts)) k = (if k = holdKey i t e then None else map_of (ts_holds ts) k)"
  by (simp add: releaseOne_def table_simps)

lemma map_of_release:
  "map_of (ts_holds (release i t ts)) k = (if prefix (trackPrefix i t) k then None else map_of (ts_holds ts) k)"
  by (simp add: release_def Let_def map_of_filter_key[of "\<lambda>k. \<not> prefix (trackPrefix i t) k"])

lemma map_of_deferHold:
  "map_of (ts_holds (deferHold h d ts)) k =
     (if k = key_of h then map_option (\<lambda>c. if th_firing c then c\<lparr>th_firing := False, th_deadline := d\<rparr> else c) (map_of (ts_holds ts) k)
      else map_of (ts_holds ts) k)"
  by (auto simp: deferHold_def table_simps split: option.split)

lemma map_of_fire_scan:
  "map_of (ts_holds (fst (fire_scan now ts))) k =
     map_option (\<lambda>h. if hold_due now h then h\<lparr>th_firing := True\<rparr> else h) (map_of (ts_holds ts) k)"
  by (simp add: fire_scan_def table_simps)

lemma beginArm_holds [simp]: "ts_holds (fst (beginArm i t ts)) = ts_holds ts" "ts_kick (fst (beginArm i t ts)) = ts_kick ts"
  by (simp_all add: beginArm_def Let_def)

lemmas map_of_ops = map_of_hold map_of_releaseOne map_of_release map_of_deferHold map_of_fire_scan

lemma holds_ok_beginArm: "holds_ok ts \<Longrightarrow> holds_ok (fst (beginArm i t ts))"
  by (simp add: holds_ok_def)

lemma holds_ok_hold: "holds_ok ts \<Longrightarrow> holds_ok (fst (hold h tok ts))"
  unfolding holds_ok_def map_of_hold by (simp add: hold_def distinct_update)

lemma holds_ok_releaseOne: "holds_ok ts \<Longrightarrow> holds_ok (releaseOne i t e ts)"
  unfolding holds_ok_def map_of_releaseOne by (simp add: releaseOne_def distinct_delete)

lemma holds_ok_release: "holds_ok ts \<Longrightarrow> holds_ok (release i t ts)"
  unfolding holds_ok_def map_of_release by (simp add: release_def Let_def distinct_map_filter)

lemma holds_ok_deferHold: "holds_ok ts \<Longrightarrow> holds_ok (deferHold h d ts)"
  unfolding holds_ok_def map_of_deferHold by (auto simp: deferHold_def distinct_update split: option.split)

lemma holds_ok_fire_scan: "holds_ok ts \<Longrightarrow> holds_ok (fst (fire_scan now ts))"
  unfolding holds_ok_def map_of_fire_scan by (auto simp: fire_scan_def comp_def case_prod_beta')

lemma holds_ok_settle: "holds_ok ts \<Longrightarrow> holds_ok (fire_settle now h woken ts)"
  by (simp add: fire_settle_def holds_ok_releaseOne holds_ok_deferHold)

lemma holds_ok_new: "holds_ok (newTimerService b)"
  by (simp add: holds_ok_def newTimerService_def)

lemmas holds_ok_ops = holds_ok_beginArm holds_ok_hold holds_ok_releaseOne holds_ok_release holds_ok_settle
  holds_ok_fire_scan holds_ok_new

section \<open>What firing does to the table\<close>

text \<open>The holds a scan collects are the due ones, once each, and the table has them marked.\<close>

lemma fire_scan_due:
  assumes "holds_ok ts"
  shows "distinct (map key_of (snd (fire_scan now ts)))"
    and "h \<in> set (snd (fire_scan now ts)) \<longleftrightarrow>
           (\<exists>h0. map_of (ts_holds ts) (key_of h) = Some h0 \<and> hold_due now h0 \<and> h = h0\<lparr>th_firing := True\<rparr>)"
proof -
  have d: "distinct (map fst (ts_holds ts))" and k: "\<forall>k h. map_of (ts_holds ts) k = Some h \<longrightarrow> key_of h = k"
    using assms by (simp_all add: holds_ok_def)
  have mem: "(k, h) \<in> set (ts_holds ts) \<longleftrightarrow> map_of (ts_holds ts) k = Some h" for k h
    using d by simp
  have "map key_of (snd (fire_scan now ts)) = map fst (filter (\<lambda>(k, h). hold_due now h) (ts_holds ts))"
    using k by (auto simp: fire_scan_def mem)
  then show "distinct (map key_of (snd (fire_scan now ts)))"
    using d by (simp add: distinct_map_filter)
  show "h \<in> set (snd (fire_scan now ts)) \<longleftrightarrow>
           (\<exists>h0. map_of (ts_holds ts) (key_of h) = Some h0 \<and> hold_due now h0 \<and> h = h0\<lparr>th_firing := True\<rparr>)"
    using k by (force simp: fire_scan_def mem image_iff)
qed

text \<open>With a callback that leaves the service alone, one round settles every due hold and no other.\<close>

lemma fire_settle_key:
  assumes "map_of (ts_holds ts) (key_of h) = Some h" "th_firing h"
  shows "map_of (ts_holds (fire_settle now h woken ts)) k =
           (if k = key_of h then if woken then None else Some (h\<lparr>th_firing := False, th_deadline := now + ts_backoff ts\<rparr>)
            else map_of (ts_holds ts) k)"
  using assms by (simp add: fire_settle_def map_of_releaseOne map_of_deferHold flip: key_of_def)

lemma fire_settle_backoff [simp]: "ts_backoff (fire_settle now h woken ts) = ts_backoff ts"
  by (simp add: fire_settle_def releaseOne_def deferHold_def split: option.split)

lemma fire_loop_quiet:
  assumes "distinct (map key_of hs)" "\<And>h. h \<in> set hs \<Longrightarrow> map_of (ts_holds ts) (key_of h) = Some h \<and> th_firing h"
  shows "map_of (ts_holds (fire_loop (\<lambda>i p ts. (ts, ok i p)) (\<lambda>_. False) now hs ts)) k =
           (case map_of (map (\<lambda>h. (key_of h, h)) hs) k of
              None \<Rightarrow> map_of (ts_holds ts) k
            | Some h \<Rightarrow> if ok (th_instanceID h) (fire_pending h) then None
                        else Some (h\<lparr>th_firing := False, th_deadline := now + ts_backoff ts\<rparr>))"
  using assms
proof (induction hs arbitrary: ts)
  case (Cons h hs)
  let ?ts = "fire_settle now h (ok (th_instanceID h) (fire_pending h)) ts"
  have h: "map_of (ts_holds ts) (key_of h) = Some h" "th_firing h" using Cons.prems by auto
  have "map_of (ts_holds ?ts) (key_of g) = Some g \<and> th_firing g" if "g \<in> set hs" for g
    using Cons.prems that unfolding fire_settle_key[OF h] by (auto simp: image_iff)
  moreover have "map_of (map (\<lambda>h. (key_of h, h)) hs) (key_of h) = None"
    using Cons.prems(1) by (simp add: map_of_eq_None_iff image_image)
  ultimately show ?case using Cons.IH[of ?ts] Cons.prems(1)
    by (auto simp: fire_settle_key[OF h] split: option.split)
qed simp

section \<open>The goroutine and its environment\<close>

text \<open>
  \<^verbatim>\<open>run\<close>: the goroutine waits for the deadline it computed (or for none), recomputes it after a kick,
  or is inside \<open>fireDue\<close> with the holds still to wake.
\<close>

datatype worker =
    Waiting "int option"
  | Recompute
  | Firing int "timerHold list"
  | Waking int timerHold "timerHold list"
  | Returned

record ts_conf =
  tc_ts :: timerService
  tc_worker :: worker
  tc_done :: bool

datatype ts_label =
    LArm "64 word" string string | LHold "64 word" timerHold bool | LRelease string string | LCancel
  | LKick | LCompute | LFire int | LWake timerHold | LSettled timerHold bool | LFired | LAbort | LReturn

inductive ts_step :: "ts_conf \<Rightarrow> ts_label \<Rightarrow> ts_conf \<Rightarrow> bool" where
  arm: "beginArm i t (tc_ts c) = (ts', tok) \<Longrightarrow> ts_step c (LArm tok i t) (c\<lparr>tc_ts := ts'\<rparr>)"
| hold: "\<not> th_firing h \<Longrightarrow> hold h tok (tc_ts c) = (ts', taken) \<Longrightarrow> ts_step c (LHold tok h taken) (c\<lparr>tc_ts := ts'\<rparr>)"
| release: "ts_step c (LRelease i t) (c\<lparr>tc_ts := release i t (tc_ts c)\<rparr>)"
| cancel: "ts_step c LCancel (c\<lparr>tc_done := True\<rparr>)"
| kick: "tc_worker c = Waiting d \<Longrightarrow> ts_kick (tc_ts c) \<Longrightarrow>
    ts_step c LKick (c\<lparr>tc_ts := (tc_ts c)\<lparr>ts_kick := False\<rparr>, tc_worker := Recompute\<rparr>)"
| compute: "tc_worker c = Recompute \<Longrightarrow> ts_step c LCompute (c\<lparr>tc_worker := Waiting (timer_nearest (tc_ts c))\<rparr>)"
| fire: "tc_worker c = Waiting (Some d) \<Longrightarrow> d \<le> now \<Longrightarrow> fire_scan now (tc_ts c) = (ts', hs) \<Longrightarrow>
    ts_step c (LFire now) (c\<lparr>tc_ts := ts', tc_worker := Firing now hs\<rparr>)"
| wake: "tc_worker c = Firing now (h # hs) \<Longrightarrow> \<not> tc_done c \<Longrightarrow> ts_step c (LWake h) (c\<lparr>tc_worker := Waking now h hs\<rparr>)"
| settled: "tc_worker c = Waking now h hs \<Longrightarrow>
    ts_step c (LSettled h woken) (c\<lparr>tc_ts := fire_settle now h woken (tc_ts c), tc_worker := Firing now hs\<rparr>)"
| fired: "tc_worker c = Firing now [] \<Longrightarrow> ts_step c LFired (c\<lparr>tc_worker := Recompute\<rparr>)"
| abort: "tc_worker c = Firing now (h # hs) \<Longrightarrow> tc_done c \<Longrightarrow> ts_step c LAbort (c\<lparr>tc_worker := Recompute\<rparr>)"
| return: "tc_worker c = Waiting d \<Longrightarrow> tc_done c \<Longrightarrow> ts_step c LReturn (c\<lparr>tc_worker := Returned\<rparr>)"

inductive_cases ts_stepE: "ts_step c l c'"

inductive ts_run :: "ts_conf \<Rightarrow> ts_label list \<Rightarrow> ts_conf \<Rightarrow> bool" where
  ts_nil: "ts_run c [] c"
| ts_snoc: "ts_run c ls c1 \<Longrightarrow> ts_step c1 l c2 \<Longrightarrow> ts_run c (ls @ [l]) c2"

definition ts_start :: "int \<Rightarrow> ts_conf" where
  "ts_start backoff = \<lparr>tc_ts = newTimerService backoff, tc_worker = Recompute, tc_done = False\<rparr>"

text \<open>The holds the goroutine still has to settle, and the invariant of its configurations.\<close>

fun in_hand :: "worker \<Rightarrow> timerHold list" where
  "in_hand (Firing now hs) = hs"
| "in_hand (Waking now h hs) = h # hs"
| "in_hand w = []"

definition timer_conf_ok :: "ts_conf \<Rightarrow> bool" where
  "timer_conf_ok c \<longleftrightarrow>
     holds_ok (tc_ts c) \<and>
     (\<not> tc_done c \<longrightarrow> (\<forall>k h. map_of (ts_holds (tc_ts c)) k = Some h \<and> th_firing h \<longrightarrow> k \<in> key_of ` set (in_hand (tc_worker c)))) \<and>
     (\<forall>d. tc_worker c = Waiting d \<and> \<not> ts_kick (tc_ts c) \<longrightarrow> timer_nearest (tc_ts c) = d)"

lemma timer_conf_ok_start: "timer_conf_ok (ts_start b)"
  by (simp add: timer_conf_ok_def ts_start_def newTimerService_def holds_ok_def)

lemma kick_after [simp]: "ts_kick (release i t ts)" "ts_kick (fire_settle now h woken ts)"
  by (simp_all add: release_def fire_settle_def releaseOne_def deferHold_def Let_def)

lemma hold_taken:
  "hold h tok ts = (ts', taken) \<Longrightarrow> (taken \<and> has_key tok (ts_arming ts) \<and> ts_kick ts') \<or> (\<not> taken \<and> ts' = ts)"
  by (auto simp: hold_def split: if_splits)

lemma settled_firing:
  assumes "holds_ok ts" "map_of (ts_holds (fire_settle now h woken ts)) k = Some g" "th_firing g"
  shows "k \<noteq> key_of h \<and> map_of (ts_holds ts) k = Some g"
  using assms by (auto simp: fire_settle_def map_of_releaseOne map_of_deferHold simp flip: key_of_def split: if_splits
      dest: arg_cong[where f = th_firing])

lemma scanned_firing:
  assumes "holds_ok ts" "fire_scan now ts = (ts', hs)" "map_of (ts_holds ts') k = Some g" "th_firing g"
    "\<And>h. map_of (ts_holds ts) k = Some h \<Longrightarrow> \<not> th_firing h"
  shows "k \<in> key_of ` set hs"
proof -
  obtain h0 where h0: "map_of (ts_holds ts) k = Some h0" and "g = (if hold_due now h0 then h0\<lparr>th_firing := True\<rparr> else h0)"
    using assms(2,3) map_of_fire_scan[of now ts k] by (cases "map_of (ts_holds ts) k") auto
  then have "hold_due now h0" "g = h0\<lparr>th_firing := True\<rparr>" using assms(4,5) by (auto split: if_splits)
  moreover have "key_of h0 = k" using assms(1) h0 by (simp add: holds_ok_def)
  ultimately have "g \<in> set hs" "key_of g = k" using fire_scan_due(2)[OF assms(1), of g now] assms(2) h0 by auto
  then show ?thesis by blast
qed

lemma timer_conf_ok_step:
  assumes "ts_step c l c'" "timer_conf_ok c"
  shows "timer_conf_ok c'"
  using assms
proof cases
  case (arm i t ts' tok)
  then show ?thesis using assms(2) holds_ok_beginArm[of "tc_ts c" i t] beginArm_holds[of i t "tc_ts c"]
    by (auto simp: timer_conf_ok_def timer_nearest_def)
next
  case (hold h tok ts' taken)
  then show ?thesis using assms(2) holds_ok_hold[of "tc_ts c" h tok] hold_taken[OF hold(4)] map_of_hold[of h tok "tc_ts c"]
    by (auto simp: timer_conf_ok_def split: if_splits)
next
  case (release i t)
  then show ?thesis using assms(2) by (auto simp: timer_conf_ok_def holds_ok_release map_of_release split: if_splits)
next
  case (fire d now ts' hs)
  then show ?thesis using assms(2) holds_ok_fire_scan[of "tc_ts c" now] scanned_firing[of "tc_ts c" now ts' hs]
    by (fastforce simp: timer_conf_ok_def)
next
  case (settled now h hs woken)
  then show ?thesis using assms(2) settled_firing[of "tc_ts c" now h woken]
    by (fastforce simp: timer_conf_ok_def holds_ok_settle)
qed (auto simp: timer_conf_ok_def timer_nearest_def holds_ok_def)

lemma timer_conf_ok_run: "ts_run c ls c' \<Longrightarrow> timer_conf_ok c \<Longrightarrow> timer_conf_ok c'"
  by (induction rule: ts_run.induct) (auto intro: timer_conf_ok_step)

subsection \<open>Tokens\<close>

definition is_arm :: "ts_label \<Rightarrow> bool" where
  "is_arm l \<longleftrightarrow> (\<exists>tok i t. l = LArm tok i t)"

abbreviation arms :: "ts_label list \<Rightarrow> nat" where
  "arms ls \<equiv> length (filter is_arm ls)"

abbreviation arming_of :: "ts_conf \<Rightarrow> (64 word \<times> string) set" where
  "arming_of c \<equiv> set (ts_arming (tc_ts c))"

lemma update_subset: "set (AList.update k v m) \<subseteq> insert (k, v) (set m)"
  by (induction m) auto

lemma delete_subset: "set (AList.delete k m) \<subseteq> set m"
  by (induction m) auto

text \<open>Only an arm adds a token, and the token it adds is the next number.\<close>

lemma arming_step:
  assumes "ts_step c l c'" "\<not> is_arm l"
  shows "arming_of c' \<subseteq> arming_of c" "ts_armingNext (tc_ts c') = ts_armingNext (tc_ts c)"
  using assms
  by (cases; force simp: is_arm_def hold_def release_def fire_scan_def fire_settle_def releaseOne_def deferHold_def
      Let_def split: if_splits option.splits dest: set_mp[OF delete_subset])+

lemma arming_step_arm:
  assumes "ts_step c (LArm tok i t) c'"
  shows "tok = ts_armingNext (tc_ts c) + 1" "ts_armingNext (tc_ts c') = tok"
    "arming_of c' \<subseteq> insert (tok, trackPrefix i t) (arming_of c)"
  using assms update_subset
  by (cases; fastforce simp: beginArm_def Let_def)+

lemma arming_hold:
  "ts_step c (LHold tok h True) c' \<Longrightarrow> \<exists>q. (tok, q) \<in> arming_of c"
  by (erule ts_stepE) (auto simp: hold_def has_key_def split: if_splits)

lemma arming_release:
  "ts_step c (LRelease i t) c' \<Longrightarrow> (tok, trackPrefix i t) \<notin> arming_of c'"
  by (erule ts_stepE) (auto simp: release_def Let_def)

lemma token_counts:
  "ts_run (ts_start b) ls c \<Longrightarrow> arms ls < 2 ^ 64 \<Longrightarrow>
     unat (ts_armingNext (tc_ts c)) = arms ls \<and>
     (\<forall>p \<in> arming_of c. unat (fst p) \<le> arms ls) \<and>
     (\<forall>tok i t. LArm tok i t \<in> set ls \<longrightarrow> unat tok \<le> arms ls)"
proof (induction "ts_start b" ls c rule: ts_run.induct)
  case ts_nil
  show ?case by (simp add: ts_start_def newTimerService_def)
next
  case (ts_snoc ls c1 l c2)
  show ?case
  proof (cases "is_arm l")
    case True
    then obtain tok i t where l: "l = LArm tok i t" by (auto simp: is_arm_def)
    have "arms (ls @ [l]) = Suc (arms ls)" using True by simp
    moreover have "unat (ts_armingNext (tc_ts c1) + 1) = Suc (arms ls)"
      using ts_snoc True by (simp add: unat_word_ariths)
    ultimately show ?thesis using ts_snoc arming_step_arm[OF ts_snoc(3)[unfolded l]] l
      by (fastforce simp: is_arm_def)
  next
    case False
    then show ?thesis using ts_snoc arming_step[OF ts_snoc(3) False] by (fastforce simp: is_arm_def)
  qed
qed

text \<open>A token keeps the track it was announced for, and a token that is gone stays gone.\<close>

lemma token_fresh:
  assumes "ts_run (ts_start b) ls c" "ts_step c (LArm tok i t) c'" "Suc (arms ls) < 2 ^ 64"
  shows "(tok, q) \<notin> arming_of c" "LArm tok i' t' \<notin> set ls"
proof -
  have "unat tok = Suc (arms ls)"
    using arming_step_arm(1)[OF assms(2)] token_counts[OF assms(1)] assms(3) by (simp add: unat_word_ariths)
  then show "(tok, q) \<notin> arming_of c" "LArm tok i' t' \<notin> set ls"
    using token_counts[OF assms(1)] assms(3) by fastforce+
qed

lemma token_track:
  "ts_run (ts_start b) ls c \<Longrightarrow> arms ls < 2 ^ 64 \<Longrightarrow> LArm tok i t \<in> set ls \<Longrightarrow> (tok, q) \<in> arming_of c \<Longrightarrow> q = trackPrefix i t"
proof (induction "ts_start b" ls c arbitrary: q rule: ts_run.induct)
  case (ts_snoc ls c1 l c2)
  show ?case
  proof (cases "is_arm l")
    case True
    then obtain tok' i' t' where l: "l = LArm tok' i' t'" by (auto simp: is_arm_def)
    have fr: "\<And>q. (tok', q) \<notin> arming_of c1" "LArm tok' i t \<notin> set ls"
      using token_fresh[OF ts_snoc(1) ts_snoc(3)[unfolded l]] ts_snoc(4) True by simp_all
    show ?thesis
    proof (cases "tok = tok'")
      case True
      then show ?thesis using arming_step_arm(3)[OF ts_snoc(3)[unfolded l]] ts_snoc(5,6) fr l by auto
    next
      case False
      then show ?thesis using arming_step_arm(3)[OF ts_snoc(3)[unfolded l]] ts_snoc True l by auto
    qed
  next
    case False
    then show ?thesis using arming_step[OF ts_snoc(3) False] ts_snoc by (auto simp: is_arm_def)
  qed
qed simp

lemma token_gone:
  "ts_run (ts_start b) ls c \<Longrightarrow> arms ls < 2 ^ 64 \<Longrightarrow> ls = xs @ LRelease i t # ys \<Longrightarrow> LArm tok i t \<in> set xs \<Longrightarrow>
     (\<forall>q. (tok, q) \<notin> arming_of c) \<and> LHold tok h True \<notin> set ys"
proof (induction "ts_start b" ls c arbitrary: ys rule: ts_run.induct)
  case (ts_snoc ls c1 l c2)
  show ?case
  proof (cases ys rule: rev_cases)
    case Nil
    then have l: "l = LRelease i t" "ls = xs" using ts_snoc(5) by auto
    then have "\<not> is_arm l" by (simp add: is_arm_def)
    then have "(tok, q) \<in> arming_of c2 \<Longrightarrow> q = trackPrefix i t" for q
      using arming_step[OF ts_snoc(3)] token_track[OF ts_snoc(1)] ts_snoc(4,6) l by auto
    then show ?thesis using arming_release[OF ts_snoc(3)[unfolded l(1)]] Nil by auto
  next
    case (snoc zs l')
    then have ls: "ls = xs @ LRelease i t # zs" "l' = l" using ts_snoc(5) by auto
    have IH: "\<And>q. (tok, q) \<notin> arming_of c1" "LHold tok h True \<notin> set zs"
      using ts_snoc(2)[OF _ ls(1) ts_snoc(6)] ts_snoc(4) by auto
    have "(tok, q) \<notin> arming_of c2" for q
    proof (cases "is_arm l")
      case True
      then obtain tok' i' t' where l: "l = LArm tok' i' t'" by (auto simp: is_arm_def)
      have "Suc (arms ls) < 2 ^ 64" using ts_snoc(4) True by simp
      then have "LArm tok' i t \<notin> set ls" using token_fresh(2)[OF ts_snoc(1) ts_snoc(3)[unfolded l]] by blast
      then have "tok' \<noteq> tok" using ts_snoc(6) ls by auto
      then show ?thesis using arming_step_arm(3)[OF ts_snoc(3)[unfolded l]] IH(1) by auto
    qed (use arming_step[OF ts_snoc(3)] IH(1) in auto)
    moreover have "l \<noteq> LHold tok h True" using arming_hold ts_snoc(3) IH(1) by metis
    ultimately show ?thesis using IH(2) snoc ls by auto
  qed
qed simp

subsection \<open>How a hold leaves the table\<close>

definition withdraws :: "string \<Rightarrow> ts_label \<Rightarrow> bool" where
  "withdraws k l \<longleftrightarrow> (\<exists>i t. l = LRelease i t \<and> prefix (trackPrefix i t) k) \<or> (\<exists>h. l = LSettled h True \<and> key_of h = k)"

lemma held_step:
  assumes "ts_step c l c'" "\<not> withdraws k l" "map_of (ts_holds (tc_ts c)) k \<noteq> None"
  shows "map_of (ts_holds (tc_ts c')) k \<noteq> None"
  using assms
proof cases
  case (arm i t ts' tok)
  then show ?thesis using assms(3) beginArm_holds[of i t "tc_ts c"] by auto
next
  case (hold h tok ts' taken)
  then show ?thesis using assms(3) map_of_hold[of h tok "tc_ts c"] by auto
next
  case (fire d now ts' hs)
  then show ?thesis using assms(3) map_of_fire_scan[of now "tc_ts c"] by auto
next
  case (settled now h hs woken)
  then show ?thesis using assms(2,3)
    by (cases woken) (auto simp: withdraws_def fire_settle_def map_of_releaseOne map_of_deferHold simp flip: key_of_def)
qed (use assms(2,3) in \<open>auto simp: map_of_release withdraws_def\<close>)

lemma held_run:
  "ts_run c ls c' \<Longrightarrow> \<forall>l \<in> set ls. \<not> withdraws k l \<Longrightarrow> map_of (ts_holds (tc_ts c)) k \<noteq> None \<Longrightarrow> map_of (ts_holds (tc_ts c')) k \<noteq> None"
  by (induction rule: ts_run.induct) (auto dest: held_step)

section \<open>Properties\<close>


text \<open>
  Claim C29. An arm that a release of its track overtakes never lands: in every run of the service that takes
  fewer than 2^64 arm tokens, after an arm was announced and its track released, the hold that
  presents that arm's token is refused.
\<close>

theorem overtaken_arm_refused:
  assumes "ts_run (ts_start b) (xs @ LRelease i t # ys) c" "LArm tok i t \<in> set xs"
    and "arms (xs @ LRelease i t # ys) < 2 ^ 64"
  shows "LHold tok h True \<notin> set ys"
  using token_gone[OF assms(1,3) refl assms(2)] by blast

text \<open>
  A release withdraws the deadlines of its track and of no other, and every arm in flight for it,
  when instance and track ids do not contain the separator of the keys.
\<close>

theorem release_exact:
  assumes "holds_ok ts" "id_ok i" "id_ok t" "map_of (ts_holds ts) k = Some h" "id_ok (th_instanceID h)" "id_ok (th_trackID h)"
  shows "map_of (ts_holds (release i t ts)) k = (if th_instanceID h = i \<and> th_trackID h = t then None else Some h) \<and>
         (\<forall>tok. (tok, trackPrefix i t) \<notin> set (ts_arming (release i t ts)))"
proof -
  have "k = holdKey (th_instanceID h) (th_trackID h) (eDefIDOf (th_eDef h))"
    using assms(1,4) by (simp add: holds_ok_def key_of_def)
  then have "prefix (trackPrefix i t) k \<longleftrightarrow> i = th_instanceID h \<and> t = th_trackID h"
    using trackPrefix_matches[OF assms(2,3,5,6)] by simp
  moreover have "(tok, trackPrefix i t) \<notin> set (ts_arming (release i t ts))" for tok
    by (simp add: release_def Let_def)
  ultimately show ?thesis using assms(4) by (auto simp: map_of_release)
qed

text \<open>
  One round of the service with nobody else at work: every deadline that has passed is either
  surrendered, when its instance was woken, or kept, unmarked, with its next attempt one back-off
  away; every other deadline is left as it was.
\<close>

theorem fireDue_outcome:
  assumes "holds_ok ts" "\<forall>k h. map_of (ts_holds ts) k = Some h \<longrightarrow> \<not> th_firing h"
  shows "map_of (ts_holds (fireDue (\<lambda>i p ts. (ts, ok i p)) (\<lambda>_. False) now ts)) k =
           (case map_of (ts_holds ts) k of
              None \<Rightarrow> None
            | Some h \<Rightarrow>
                if now < th_deadline h then Some h
                else if ok (th_instanceID h) (fire_pending h) then None
                else Some (h\<lparr>th_deadline := now + ts_backoff ts\<rparr>))"
proof -
  let ?ts = "fst (fire_scan now ts)" and ?hs = "snd (fire_scan now ts)"
  have b: "ts_backoff ?ts = ts_backoff ts" by (simp add: fire_scan_def)
  have in_ts: "map_of (ts_holds ?ts) (key_of h) = Some h \<and> th_firing h" if "h \<in> set ?hs" for h
    using that fire_scan_due(2)[OF assms(1)] by (auto simp: map_of_fire_scan)
  have key: "map_of (map (\<lambda>h. (key_of h, h)) ?hs) k =
      (case map_of (ts_holds ts) k of None \<Rightarrow> None | Some h \<Rightarrow> if hold_due now h then Some (h\<lparr>th_firing := True\<rparr>) else None)"
  proof (cases "\<exists>h0. map_of (ts_holds ts) k = Some h0 \<and> hold_due now h0")
    case True
    then obtain h0 where h0: "map_of (ts_holds ts) k = Some h0" "hold_due now h0" by blast
    then have "key_of h0 = k" using assms(1) by (simp add: holds_ok_def)
    then have "h0\<lparr>th_firing := True\<rparr> \<in> set ?hs"
      using h0 fire_scan_due(2)[OF assms(1), of "h0\<lparr>th_firing := True\<rparr>" now] by auto
    then have "(k, h0\<lparr>th_firing := True\<rparr>) \<in> set (map (\<lambda>h. (key_of h, h)) ?hs)"
      using \<open>key_of h0 = k\<close> by (simp add: image_iff)
    then show ?thesis using h0 fire_scan_due(1)[OF assms(1), of now] by (simp add: comp_def)
  next
    case False
    then have "k \<notin> key_of ` set ?hs" using fire_scan_due(2)[OF assms(1), of _ now] by auto
    then show ?thesis using False by (auto simp: map_of_eq_None_iff image_image split: option.split)
  qed
  have "map_of (ts_holds (fire_loop (\<lambda>i p ts. (ts, ok i p)) (\<lambda>_. False) now ?hs ?ts)) k =
      (case map_of (map (\<lambda>h. (key_of h, h)) ?hs) k of
         None \<Rightarrow> map_of (ts_holds ?ts) k
       | Some h \<Rightarrow> if ok (th_instanceID h) (fire_pending h) then None
                   else Some (h\<lparr>th_firing := False, th_deadline := now + ts_backoff ?ts\<rparr>))"
    by (rule fire_loop_quiet[OF fire_scan_due(1)[OF assms(1)] in_ts])
  then show ?thesis
    unfolding fireDue_def case_prod_beta Let_def key b map_of_fire_scan
    using assms(2) by (cases "map_of (ts_holds ts) k") (auto simp: hold_due_def fire_pending_def)
qed

section \<open>Witnesses\<close>

definition w_hold :: timerHold where
  "w_hold = \<lparr>th_eDef = Some ''d'', th_deadline = 5, th_instanceID = ''i'', th_trackID = ''t'', th_cycles = 0,
             th_kind = WaitNode, th_firing = False\<rparr>"

definition w_ts :: timerService where
  "w_ts = \<lparr>ts_holds = [(''i|t|d'', w_hold)], ts_arming = [], ts_kick = False, ts_armingNext = 1, ts_backoff = 10\<rparr>"

definition w_rest :: ts_conf where
  "w_rest = \<lparr>tc_ts = w_ts, tc_worker = Waiting (Some 5), tc_done = False\<rparr>"

lemmas w_defs = w_hold_def w_ts_def w_rest_def ts_start_def newTimerService_def beginArm_def hold_def signal_def key_of_def holdKey_def
  eDefIDOf_def trackPrefix_def has_key_def timer_nearest_def Let_def

lemma ts_snocI: "ts_run c ls c1 \<Longrightarrow> ts_step c1 l c2 \<Longrightarrow> ls' = ls @ [l] \<Longrightarrow> ts_run c ls' c2"
  by (auto intro: ts_run.intros)

lemma w_armed: "ts_run (ts_start 10) [LArm 1 ''i'' ''t''] ((ts_start 10)\<lparr>tc_ts := fst (beginArm ''i'' ''t'' (newTimerService 10))\<rparr>)"
  by (rule ts_snocI[OF ts_nil ts_step.arm[of "''i''" "''t''"]]) (simp_all add: ts_start_def newTimerService_def beginArm_def Let_def)

lemma w_held:
  "ts_run (ts_start 10) [LArm 1 ''i'' ''t'', LHold 1 w_hold True]
     \<lparr>tc_ts = w_ts\<lparr>ts_kick := True\<rparr>, tc_worker = Recompute, tc_done = False\<rparr>"
proof (rule ts_snocI[OF w_armed])
  show "ts_step ((ts_start 10)\<lparr>tc_ts := fst (beginArm ''i'' ''t'' (newTimerService 10))\<rparr>) (LHold 1 w_hold True)
     \<lparr>tc_ts = w_ts\<lparr>ts_kick := True\<rparr>, tc_worker = Recompute, tc_done = False\<rparr>"
    using ts_step.hold[of w_hold 1 "(ts_start 10)\<lparr>tc_ts := fst (beginArm ''i'' ''t'' (newTimerService 10))\<rparr>"]
    by (simp add: w_defs)
qed simp

lemma w_run:
  "ts_run (ts_start 10) [LArm 1 ''i'' ''t'', LHold 1 w_hold True, LCompute, LKick, LCompute] w_rest"
proof -
  let ?c = "\<lambda>kick w. \<lparr>tc_ts = w_ts\<lparr>ts_kick := kick\<rparr>, tc_worker = w, tc_done = False\<rparr>"
  have 1: "ts_step (?c True Recompute) LCompute (?c True (Waiting (Some 5)))"
    using ts_step.compute[of "?c True Recompute"] by (simp add: w_defs)
  have 2: "ts_step (?c True (Waiting (Some 5))) LKick (?c False Recompute)"
    using ts_step.kick[of "?c True (Waiting (Some 5))"] by (simp add: w_defs)
  have 3: "ts_step (?c False Recompute) LCompute w_rest"
    using ts_step.compute[of "?c False Recompute"] by (simp add: w_defs)
  show ?thesis
    by (rule ts_snocI[OF ts_snocI[OF ts_snocI[OF w_held 1 refl] 2 refl] 3]) simp
qed


theorem overtaken_arm_refused_witness:
  "\<exists>c. ts_run (ts_start 10) ([LArm 1 ''i'' ''t''] @ LRelease ''i'' ''t'' # [LHold 1 w_hold False]) c \<and>
       LHold 1 w_hold True \<notin> set [LHold 1 w_hold False]"
proof -
  let ?c = "(ts_start 10)\<lparr>tc_ts := fst (beginArm ''i'' ''t'' (newTimerService 10))\<rparr>"
  let ?d = "?c\<lparr>tc_ts := release ''i'' ''t'' (tc_ts ?c)\<rparr>"
  have "ts_step ?d (LHold 1 w_hold False) ?d"
    using ts_step.hold[of w_hold 1 ?d _ False] by (simp add: w_defs release_def)
  then have run: "ts_run (ts_start 10) ([LArm 1 ''i'' ''t''] @ LRelease ''i'' ''t'' # [LHold 1 w_hold False]) ?d"
    by (intro ts_snocI[OF ts_snocI[OF w_armed ts_step.release refl]]) simp_all
  then have "LHold 1 w_hold True \<notin> set [LHold 1 w_hold False]"
    by (rule overtaken_arm_refused) (simp_all add: is_arm_def)
  with run show ?thesis by blast
qed

theorem release_exact_witness: "map_of (ts_holds (release ''i'' ''t'' w_ts)) ''i|t|d'' = None"
  using release_exact[of w_ts "''i''" "''t''" "''i|t|d''" w_hold]
  by (simp add: holds_ok_def id_ok_def w_ts_def w_hold_def key_of_def holdKey_def eDefIDOf_def)

theorem fireDue_outcome_witness:
  "map_of (ts_holds (fireDue (\<lambda>i p ts. (ts, False)) (\<lambda>_. False) 7 w_ts)) ''i|t|d'' = Some (w_hold\<lparr>th_deadline := 17\<rparr>)"
  using fireDue_outcome[of w_ts "\<lambda>i p. False" 7 "''i|t|d''"]
  by (simp add: holds_ok_def w_ts_def w_hold_def key_of_def holdKey_def eDefIDOf_def)

end
