(* ===== verification/Engine_Wake.thy ===== *)
theory Engine_Wake
  imports Timer_Service Store_Repo
begin

text \<open>
  How the engine brings a released instance back (\<^verbatim>\<open>src/pkg/thresher/wake.go\<close>,
  \<^verbatim>\<open>subscription_holder.go\<close>, \<^verbatim>\<open>recovery.go\<close>): the hub subscriptions it holds for released waits, the wake
  of an instance by a trigger, the latch that makes wakes single-flight, and the claim of the
  checkpoint record a rebuild starts from.

  The engine's maps are guarded by their own mutexes, and the hub is never called under them; the
  step relations below split the operations at exactly those points.
\<close>

section \<open>Held subscriptions\<close>

text \<open>
  A holder carries the identity minted for it and the wait it stands for; \<^verbatim>\<open>cur == h\<close> compares holders by
  identity, which no two share. The hub is the list of the holders registered on it. \<open>sh_started\<close> tells
  whether the engine's state is \<^verbatim>\<open>Started\<close>, the guard of its \<^verbatim>\<open>RegisterEvent\<close> and \<^verbatim>\<open>UnregisterEvent\<close>.
\<close>

record subKey =
  sk_instanceID :: string
  sk_trackID :: string
  sk_eDefID :: string

record subHolder =
  sb_ID :: nat
  sb_key :: subKey
  sb_convKeys :: "string list"

record sub_state =
  sh_subs :: "(subKey \<times> subHolder) list"
  sh_hub :: "subHolder list"
  sh_next :: nat
  sh_started :: bool

definition holdStillRecorded :: "subKey \<Rightarrow> subHolder \<Rightarrow> sub_state \<Rightarrow> bool" where
  "holdStillRecorded k h s \<longleftrightarrow> map_of (sh_subs s) k = Some h"

definition dropHold :: "subKey \<Rightarrow> subHolder \<Rightarrow> sub_state \<Rightarrow> sub_state" where
  "dropHold k h s = (if map_of (sh_subs s) k = Some h then s\<lparr>sh_subs := AList.delete k (sh_subs s)\<rparr> else s)"

definition withdraw :: "subHolder \<Rightarrow> sub_state \<Rightarrow> sub_state" where
  "withdraw h s = (if sh_started s then s\<lparr>sh_hub := removeAll h (sh_hub s)\<rparr> else s)"

text \<open>The critical sections of \<^verbatim>\<open>HoldSubscription\<close>: record, register on the hub, confirm.\<close>

definition hold_record :: "subKey \<Rightarrow> string list \<Rightarrow> sub_state \<Rightarrow> sub_state \<times> subHolder" where
  "hold_record k convKeys s =
     (let h = \<lparr>sb_ID = sh_next s, sb_key = k, sb_convKeys = convKeys\<rparr>
      in (s\<lparr>sh_subs := AList.update k h (sh_subs s), sh_next := Suc (sh_next s)\<rparr>, h))"

definition hold_register :: "bool \<Rightarrow> subHolder \<Rightarrow> sub_state \<Rightarrow> sub_state \<times> bool" where
  "hold_register hubTakes h s = (if sh_started s \<and> hubTakes then (s\<lparr>sh_hub := h # sh_hub s\<rparr>, True) else (s, False))"

definition hold_confirm :: "subHolder \<Rightarrow> sub_state \<Rightarrow> sub_state" where
  "hold_confirm h s = (if holdStillRecorded (sb_key h) h s then s else withdraw h s)"

text \<open>The whole call when nothing comes in between; \<open>hubTakes\<close> is the hub's own verdict.\<close>

definition HoldSubscription ::
  "string \<Rightarrow> string \<Rightarrow> string option \<Rightarrow> string list \<Rightarrow> bool \<Rightarrow> bool \<Rightarrow> sub_state \<Rightarrow> sub_state \<times> unit result" where
  "HoldSubscription instanceID trackID eDef convKeys repoSet hubTakes s =
     (case eDef of
        None \<Rightarrow> (s, Inl (AppError InvalidState ''HoldSubscription: a nil EventDefinition isn't allowed''))
      | Some d \<Rightarrow>
          if \<not> repoSet then (s, Inl (AppError InvalidState ''HoldSubscription: the engine holds no checkpoints''))
          else
            (let k = \<lparr>sk_instanceID = instanceID, sk_trackID = trackID, sk_eDefID = d\<rparr>;
                 (s1, h) = hold_record k convKeys s;
                 (s2, taken) = hold_register hubTakes h s1
             in if taken then (hold_confirm h s2, Inr ())
                else (dropHold k h s2, Inl (AppError OperationFailed ''the hub refused the registration''))))"

definition of_track :: "string \<Rightarrow> string \<Rightarrow> subKey \<Rightarrow> bool" where
  "of_track i t k \<longleftrightarrow> sk_instanceID k = i \<and> sk_trackID k = t"

text \<open>The part of \<^verbatim>\<open>ReleaseWaits\<close> under the lock, with the holders it dropped, and the whole call.\<close>

definition release_subs :: "string \<Rightarrow> string \<Rightarrow> sub_state \<Rightarrow> sub_state \<times> subHolder list" where
  "release_subs i t s =
     (s\<lparr>sh_subs := filter (\<lambda>(k, h). \<not> of_track i t k) (sh_subs s)\<rparr>, map snd (filter (\<lambda>(k, h). of_track i t k) (sh_subs s)))"

definition ReleaseWaits ::
  "string \<Rightarrow> string \<Rightarrow> timerService option \<times> sub_state \<Rightarrow> timerService option \<times> sub_state" where
  "ReleaseWaits i t st =
     (case st of (svc, s) \<Rightarrow>
        (let (s1, dropped) = release_subs i t s
         in (map_option (release i t) svc, fold withdraw dropped s1)))"

subsection \<open>Interleavings\<close>

text \<open>
  Calls of \<^verbatim>\<open>HoldSubscription\<close> in flight, before and after the hub took them, and the withdrawals releases still owe.
\<close>

record sub_conf =
  sc_st :: sub_state
  sc_arming :: "subHolder list"
  sc_armed :: "subHolder list"
  sc_owed :: "subHolder list"

datatype sub_label = SRecord subKey | SRegister bool | SConfirm | SRelease string string | SWithdraw | SPause | SResume

inductive sub_step :: "sub_conf \<Rightarrow> sub_label \<Rightarrow> sub_conf \<Rightarrow> bool" where
  recorded: "hold_record k convKeys (sc_st c) = (s', h) \<Longrightarrow>
    sub_step c (SRecord k) (c\<lparr>sc_st := s', sc_arming := h # sc_arming c\<rparr>)"
| register: "h \<in> set (sc_arming c) \<Longrightarrow> hold_register hubTakes h (sc_st c) = (s', True) \<Longrightarrow>
    sub_step c (SRegister True) (c\<lparr>sc_st := s', sc_arming := removeAll h (sc_arming c), sc_armed := h # sc_armed c\<rparr>)"
| refused: "h \<in> set (sc_arming c) \<Longrightarrow> hold_register hubTakes h (sc_st c) = (s', False) \<Longrightarrow>
    sub_step c (SRegister False) (c\<lparr>sc_st := dropHold (sb_key h) h s', sc_arming := removeAll h (sc_arming c)\<rparr>)"
| confirm: "h \<in> set (sc_armed c) \<Longrightarrow>
    sub_step c SConfirm (c\<lparr>sc_st := hold_confirm h (sc_st c), sc_armed := removeAll h (sc_armed c)\<rparr>)"
| release: "release_subs i t (sc_st c) = (s', dropped) \<Longrightarrow>
    sub_step c (SRelease i t) (c\<lparr>sc_st := s', sc_owed := dropped @ sc_owed c\<rparr>)"
| withdraw: "h \<in> set (sc_owed c) \<Longrightarrow>
    sub_step c SWithdraw (c\<lparr>sc_st := withdraw h (sc_st c), sc_owed := remove1 h (sc_owed c)\<rparr>)"
| pause: "sub_step c SPause (c\<lparr>sc_st := (sc_st c)\<lparr>sh_started := False\<rparr>\<rparr>)"
| resume: "sub_step c SResume (c\<lparr>sc_st := (sc_st c)\<lparr>sh_started := True\<rparr>\<rparr>)"

definition sub_start :: sub_conf where
  "sub_start = \<lparr>sc_st = \<lparr>sh_subs = [], sh_hub = [], sh_next = 0, sh_started = True\<rparr>, sc_arming = [], sc_armed = [], sc_owed = []\<rparr>"

inductive sub_reach :: "sub_conf \<Rightarrow> bool" where
  sub_init: "sub_reach sub_start"
| sub_next: "sub_reach c \<Longrightarrow> sub_step c l c' \<Longrightarrow> sub_reach c'"

text \<open>
  The discipline of the callers: a wait is armed only while none is recorded for its key, and the engine is not
  paused.
\<close>

fun armed_once :: "sub_conf \<Rightarrow> sub_label \<Rightarrow> bool" where
  "armed_once c (SRecord k) = (map_of (sh_subs (sc_st c)) k = None)"
| "armed_once c SPause = False"
| "armed_once c l = True"

inductive tidy_reach :: "sub_conf \<Rightarrow> bool" where
  tidy_init: "tidy_reach sub_start"
| tidy_next: "tidy_reach c \<Longrightarrow> sub_step c l c' \<Longrightarrow> armed_once c l \<Longrightarrow> tidy_reach c'"

text \<open>
  The invariant: a holder owed a withdrawal is not recorded; a holder on the hub is recorded, or its call has yet
  to confirm, or its withdrawal is owed; a recorded holder is on the hub or its call has yet to register it.
\<close>

abbreviation rec_at :: "sub_conf \<Rightarrow> subKey \<Rightarrow> subHolder option" where
  "rec_at c \<equiv> map_of (sh_subs (sc_st c))"

abbreviation hub_of :: "sub_conf \<Rightarrow> subHolder set" where
  "hub_of c \<equiv> set (sh_hub (sc_st c))"

definition subs_known :: "sub_conf \<Rightarrow> bool" where
  "subs_known c \<longleftrightarrow>
     distinct (map fst (sh_subs (sc_st c))) \<and> (\<forall>k h. rec_at c k = Some h \<longrightarrow> sb_key h = k \<and> sb_ID h < sh_next (sc_st c)) \<and>
     (\<forall>h \<in> set (sc_owed c) \<union> set (sc_arming c) \<union> hub_of c. sb_ID h < sh_next (sc_st c)) \<and> set (sc_arming c) \<inter> hub_of c = {}"

definition accounted :: "sub_conf \<Rightarrow> bool" where
  "accounted c \<longleftrightarrow>
     (\<forall>h \<in> set (sc_owed c). rec_at c (sb_key h) \<noteq> Some h) \<and>
     (\<forall>h \<in> hub_of c. rec_at c (sb_key h) = Some h \<or> h \<in> set (sc_armed c) \<or> h \<in> set (sc_owed c)) \<and>
     (\<forall>k h. rec_at c k = Some h \<longrightarrow> h \<in> set (sc_arming c) \<or> h \<in> hub_of c)"

lemma rec_release: "map_of (sh_subs (fst (release_subs i t s))) k = (if of_track i t k then None else map_of (sh_subs s) k)"
  by (simp add: release_subs_def map_of_filter_key[of "\<lambda>k. \<not> of_track i t k"])

lemma dropped_release:
  "distinct (map fst (sh_subs s)) \<Longrightarrow> h \<in> set (snd (release_subs i t s)) \<longleftrightarrow> (\<exists>k. of_track i t k \<and> map_of (sh_subs s) k = Some h)"
  by (force simp: release_subs_def)

lemma release_subs_keeps [simp]:
  "sh_hub (fst (release_subs i t s)) = sh_hub s" "sh_next (fst (release_subs i t s)) = sh_next s"
  "sh_started (fst (release_subs i t s)) = sh_started s"
  "distinct (map fst (sh_subs s)) \<Longrightarrow> distinct (map fst (sh_subs (fst (release_subs i t s))))"
  by (simp_all add: release_subs_def distinct_map_filter)

lemma rec_dropHold: "map_of (sh_subs (dropHold k h s)) k' = (if k' = k \<and> map_of (sh_subs s) k = Some h then None else map_of (sh_subs s) k')"
  by (simp add: dropHold_def map_of_alist_delete)

lemma dropHold_keeps [simp]:
  "sh_hub (dropHold k h s) = sh_hub s" "sh_next (dropHold k h s) = sh_next s" "sh_started (dropHold k h s) = sh_started s"
  "distinct (map fst (sh_subs s)) \<Longrightarrow> distinct (map fst (sh_subs (dropHold k h s)))"
  by (simp_all add: dropHold_def distinct_delete)

declare map_of_eq_Some_iff [simp del]

lemma subs_known_record:
  assumes "subs_known c" "hold_record k convKeys (sc_st c) = (s', h)"
  shows "subs_known (c\<lparr>sc_st := s', sc_arming := h # sc_arming c\<rparr>)"
proof -
  have h: "h = \<lparr>sb_ID = sh_next (sc_st c), sb_key = k, sb_convKeys = convKeys\<rparr>"
    and s': "s' = (sc_st c)\<lparr>sh_subs := AList.update k h (sh_subs (sc_st c)), sh_next := Suc (sh_next (sc_st c))\<rparr>"
    using assms(2) by (auto simp: hold_record_def Let_def)
  have "sb_ID g < sh_next (sc_st c)" if "g \<in> hub_of c" for g using assms(1) that by (simp add: subs_known_def)
  then have "h \<notin> hub_of c" using h by force
  then show ?thesis using assms(1) h by (auto simp: subs_known_def s' update_conv' distinct_update less_Suc_eq split: if_splits)
qed

lemma subs_known_step:
  assumes "sub_step c l c'" "subs_known c"
  shows "subs_known c'"
  using assms
proof (induction rule: sub_step.induct)
  case (recorded k convKeys c s' h)
  then show ?case using subs_known_record by blast
next
  case (register h c hubTakes s')
  then show ?case by (auto simp: subs_known_def hold_register_def split: if_splits)
next
  case (refused h c hubTakes s')
  then show ?case by (auto simp: subs_known_def hold_register_def rec_dropHold split: if_splits)
next
  case (confirm h c)
  then show ?case by (auto simp: subs_known_def hold_confirm_def withdraw_def)
next
  case (release i t c s' dropped)
  have d: "distinct (map fst (sh_subs (sc_st c)))" using release by (simp add: subs_known_def)
  show ?case using release rec_release[of i t "sc_st c"] dropped_release[OF d, of _ i t] release_subs_keeps[where s = "sc_st c" and i = i and t = t]
    by (auto simp: subs_known_def split: if_splits)
next
  case (withdraw h c)
  then show ?case by (auto simp: subs_known_def withdraw_def dest: set_mp[OF set_remove1_subset])
qed (simp_all add: subs_known_def)

lemma accountedI:
  assumes "\<And>h. h \<in> set (sc_owed c) \<Longrightarrow> rec_at c (sb_key h) \<noteq> Some h"
    and "\<And>h. h \<in> hub_of c \<Longrightarrow> h \<notin> set (sc_armed c) \<Longrightarrow> h \<notin> set (sc_owed c) \<Longrightarrow> rec_at c (sb_key h) = Some h"
    and "\<And>k h. rec_at c k = Some h \<Longrightarrow> h \<notin> hub_of c \<Longrightarrow> h \<in> set (sc_arming c)"
  shows "accounted c"
  using assms unfolding accounted_def by metis

lemma accountedD:
  assumes "accounted c"
  shows "h \<in> set (sc_owed c) \<Longrightarrow> rec_at c (sb_key h) \<noteq> Some h"
    and "h \<in> hub_of c \<Longrightarrow> h \<notin> set (sc_armed c) \<Longrightarrow> h \<notin> set (sc_owed c) \<Longrightarrow> rec_at c (sb_key h) = Some h"
    and "rec_at c k = Some h \<Longrightarrow> h \<notin> hub_of c \<Longrightarrow> h \<in> set (sc_arming c)"
  using assms unfolding accounted_def by blast+

lemma subs_knownD:
  assumes "subs_known c"
  shows "rec_at c k = Some h \<Longrightarrow> sb_key h = k" "h \<in> set (sc_owed c) \<Longrightarrow> sb_ID h < sh_next (sc_st c)"
    "h \<in> set (sc_arming c) \<Longrightarrow> h \<notin> hub_of c" "distinct (map fst (sh_subs (sc_st c)))"
  using assms unfolding subs_known_def by blast+

lemma accounted_record:
  assumes "hold_record k convKeys (sc_st c) = (s', h)" "rec_at c k = None" "subs_known c" "accounted c"
  shows "accounted (c\<lparr>sc_st := s', sc_arming := h # sc_arming c\<rparr>)"
proof -
  have h: "sb_key h = k" "sb_ID h = sh_next (sc_st c)" and s': "map_of (sh_subs s') = (rec_at c)(k \<mapsto> h)" "sh_hub s' = sh_hub (sc_st c)"
    using assms(1) by (auto simp: hold_record_def Let_def update_conv')
  have new: "h \<notin> set (sc_owed c)" using subs_knownD(2)[OF assms(3), of h] h(2) by auto
  show ?thesis
  proof (rule accountedI, goal_cases)
    case (1 g)
    then show ?case using accountedD(1)[OF assms(4), of g] new s'(1) by auto
  next
    case (2 g)
    then have "rec_at c (sb_key g) = Some g" using accountedD(2)[OF assms(4), of g] s'(2) by simp
    then show ?case using assms(2) s'(1) by auto
  next
    case (3 k' g)
    then show ?case using accountedD(3)[OF assms(4), of k' g] s' by (auto split: if_splits)
  qed
qed

lemma accounted_register:
  assumes "sh_subs s' = sh_subs (sc_st c)" "sh_hub s' = h # sh_hub (sc_st c)" "accounted c"
  shows "accounted (c\<lparr>sc_st := s', sc_arming := removeAll h (sc_arming c), sc_armed := h # sc_armed c\<rparr>)"
proof (rule accountedI, goal_cases)
  case (1 g)
  then show ?case using accountedD(1)[OF assms(3), of g] assms(1) by simp
next
  case (2 g)
  then show ?case using accountedD(2)[OF assms(3), of g] assms(1,2) by auto
next
  case (3 k g)
  then show ?case using accountedD(3)[OF assms(3), of k g] assms(1,2) by auto
qed

lemma accounted_refused:
  assumes "h \<in> set (sc_arming c)" "subs_known c" "accounted c"
  shows "accounted (c\<lparr>sc_st := dropHold (sb_key h) h (sc_st c), sc_arming := removeAll h (sc_arming c)\<rparr>)"
proof (rule accountedI, goal_cases)
  case (1 g)
  then show ?case using accountedD(1)[OF assms(3), of g] by (simp add: rec_dropHold)
next
  case (2 g)
  then have "g \<noteq> h" "rec_at c (sb_key g) = Some g"
    using accountedD(2)[OF assms(3), of g] subs_knownD(3)[OF assms(2,1)] by auto
  then show ?case by (auto simp: rec_dropHold)
next
  case (3 k g)
  then have k: "rec_at c k = Some g" "k = sb_key h \<Longrightarrow> rec_at c (sb_key h) \<noteq> Some h" by (auto simp: rec_dropHold split: if_splits)
  then have "g \<noteq> h" using subs_knownD(1)[OF assms(2) k(1)] by auto
  then show ?case using accountedD(3)[OF assms(3) k(1)] 3 by simp
qed

text \<open>A holder that is not recorded may leave the hub, and its call or its withdrawal with it.\<close>

lemma accounted_withdraw:
  assumes "rec_at c (sb_key h) \<noteq> Some h" "sh_started (sc_st c)" "subs_known c" "accounted c"
    "set armed' \<union> {h} = set (sc_armed c) \<union> {h}" "set owed' \<subseteq> set (sc_owed c)" "set (sc_owed c) \<subseteq> set owed' \<union> {h}"
  shows "accounted (c\<lparr>sc_st := withdraw h (sc_st c), sc_armed := armed', sc_owed := owed'\<rparr>)"
proof (rule accountedI, goal_cases)
  case (1 g)
  then show ?case using accountedD(1)[OF assms(4), of g] assms(2,6) by (auto simp: withdraw_def)
next
  case (2 g)
  then have "g \<noteq> h" "g \<in> hub_of c" using assms(2) by (auto simp: withdraw_def)
  then show ?case using accountedD(2)[OF assms(4), of g] 2 assms(2,5,7) by (auto simp: withdraw_def)
next
  case (3 k g)
  then have k: "rec_at c k = Some g" using assms(2) by (simp add: withdraw_def)
  then have "g \<noteq> h" using subs_knownD(1)[OF assms(3) k] assms(1) by auto
  then show ?case using accountedD(3)[OF assms(4) k] 3 assms(2) by (simp add: withdraw_def)
qed

lemma accounted_release:
  assumes "subs_known c" "accounted c"
  shows "accounted (c\<lparr>sc_st := fst (release_subs i t (sc_st c)), sc_owed := snd (release_subs i t (sc_st c)) @ sc_owed c\<rparr>)"
proof (rule accountedI, goal_cases)
  case (1 g)
  show ?case
  proof (cases "g \<in> set (sc_owed c)")
    case True
    then show ?thesis using accountedD(1)[OF assms(2), of g] by (simp add: rec_release)
  next
    case False
    then obtain k where "of_track i t k" "rec_at c k = Some g" using 1 dropped_release[OF subs_knownD(4)[OF assms(1)]] by auto
    then show ?thesis using subs_knownD(1)[OF assms(1)] by (auto simp: rec_release)
  qed
next
  case (2 g)
  then have r: "rec_at c (sb_key g) = Some g" using accountedD(2)[OF assms(2), of g] by simp
  have "\<not> of_track i t (sb_key g)" using 2(3) r dropped_release[OF subs_knownD(4)[OF assms(1)], of g i t] by auto
  then show ?case using r by (simp add: rec_release)
next
  case (3 k g)
  then show ?case using accountedD(3)[OF assms(2), of k g] by (auto simp: rec_release split: if_splits)
qed

lemma accounted_step:
  assumes "sub_step c l c'" "armed_once c l" "sh_started (sc_st c)" "subs_known c" "accounted c"
  shows "accounted c'"
  using assms
proof (induction rule: sub_step.induct)
  case (recorded k convKeys c s' h)
  then show ?case using accounted_record by simp
next
  case (register h c hubTakes s')
  then show ?case using accounted_register[of s' c h] by (auto simp: hold_register_def split: if_splits)
next
  case (refused h c hubTakes s')
  then have "s' = sc_st c" by (auto simp: hold_register_def split: if_splits)
  then show ?case using accounted_refused refused by simp
next
  case (confirm h c)
  show ?case
  proof (cases "rec_at c (sb_key h) = Some h")
    case True
    then show ?thesis using confirm(5) by (auto simp: hold_confirm_def holdStillRecorded_def accounted_def)
  next
    case False
    then show ?thesis using accounted_withdraw[OF False confirm(3-5), of "removeAll h (sc_armed c)" "sc_owed c"]
      by (simp add: hold_confirm_def holdStillRecorded_def subset_insertI)
  qed
next
  case (release i t c s' dropped)
  then show ?case using accounted_release[of c i t] by simp
next
  case (withdraw h c)
  have "set (sc_owed c) \<subseteq> set (remove1 h (sc_owed c)) \<union> {h}" using in_set_remove1 by fastforce
  then show ?case using accounted_withdraw[OF accountedD(1)[OF withdraw(5,1)] withdraw(3-5), of "sc_armed c" "remove1 h (sc_owed c)"]
    by (simp add: set_remove1_subset)
qed (auto simp: accounted_def)

lemma started_step: "sub_step c l c' \<Longrightarrow> armed_once c l \<Longrightarrow> sh_started (sc_st c) \<Longrightarrow> sh_started (sc_st c')"
  by (induction rule: sub_step.induct)
     (auto simp: hold_record_def hold_register_def hold_confirm_def withdraw_def release_subs_def Let_def split: if_splits)

lemma tidy_ok: "tidy_reach c \<Longrightarrow> sh_started (sc_st c) \<and> subs_known c \<and> accounted c"
proof (induction rule: tidy_reach.induct)
  case tidy_init
  then show ?case by (simp add: sub_start_def subs_known_def accounted_def)
next
  case (tidy_next c l c')
  then show ?case using started_step subs_known_step accounted_step by blast
qed

subsection \<open>Who is on the hub\<close>

text \<open>
  Claim C30. When every call has run to its end, the holders on the hub are exactly the recorded ones, whatever the
  interleaving of the calls: no release is overtaken by an arm, and no hold that reported success is without its
  subscription. This is for callers that arm a wait once and an engine that is not paused; the two lemmas after it
  show that neither condition can be dropped.
\<close>

theorem holders_match_hub:
  assumes "tidy_reach c" "sc_arming c = []" "sc_armed c = []" "sc_owed c = []"
  shows "hub_of c = {h. \<exists>k. rec_at c k = Some h}"
  using tidy_ok[OF assms(1)] assms(2-4) unfolding accounted_def by auto

text \<open>
  The restored track of a trigger-absent hydration takes its holds again under the keys of before, and nobody
  withdrew the first ones: the second record replaces the first, whose holder stays on the hub for ever.
\<close>

definition dup_key :: subKey where
  "dup_key = \<lparr>sk_instanceID = ''i'', sk_trackID = ''t'', sk_eDefID = ''d''\<rparr>"

definition hold_twice :: sub_state where
  "hold_twice =
     (let hold = (\<lambda>s. fst (HoldSubscription ''i'' ''t'' (Some ''d'') [] True True s))
      in snd (ReleaseWaits ''i'' ''t'' (None, hold (hold (sc_st sub_start)))))"

lemma rehold_leaks_subscription: "sh_subs hold_twice = [] \<and> length (sh_hub hold_twice) = 1"
  by (simp add: hold_twice_def sub_start_def HoldSubscription_def hold_record_def hold_register_def hold_confirm_def
      holdStillRecorded_def ReleaseWaits_def release_subs_def of_track_def withdraw_def Let_def)

text \<open>A release while the engine is paused drops the record and leaves the holder on the hub.\<close>

lemma paused_release_leaks:
  assumes "\<not> sh_started s" "map_of (sh_subs s) k = Some h" "of_track i t k" "h \<in> set (sh_hub s)"
  shows "map_of (sh_subs (snd (ReleaseWaits i t (svc, s)))) k = None \<and> h \<in> set (sh_hub (snd (ReleaseWaits i t (svc, s))))"
proof -
  have "fold withdraw hs s1 = s1" if "\<not> sh_started s1" for hs s1
    using that by (induction hs) (auto simp: withdraw_def)
  then have "snd (ReleaseWaits i t (svc, s)) = fst (release_subs i t s)"
    using assms(1) by (simp add: ReleaseWaits_def case_prod_beta)
  then show ?thesis using assms(3,4) by (simp add: rec_release)
qed

section \<open>Waking an instance\<close>

text \<open>
  The wake of an instance by a trigger. What the instance and the engine answer is given: the state of the
  registered instance, the answer of its loop to the delivered trigger, and the verdicts of the latch, of the
  rebuild and of the wait for another wake, attempt by attempt.
\<close>

datatype wake_outcome = Delivered | Rebuilt | WakeFailed app_error | NilPanic

datatype inst_view = NotTracked | IsDehydrated | IsResident

datatype latch_view = Claimed "unit result" | Lost bool

definition wakeDeliverAttempts :: nat where
  "wakeDeliverAttempts = 3"

function (sequential) wakeInstanceAttempt ::
  "(nat \<Rightarrow> inst_view) \<Rightarrow> (nat \<Rightarrow> PendingTrigger \<Rightarrow> bool result) \<Rightarrow> (nat \<Rightarrow> latch_view) \<Rightarrow> PendingTrigger option \<Rightarrow> nat \<Rightarrow> wake_outcome" where
  "wakeInstanceAttempt view deliver latch pending attempt =
     (let claim = (\<lambda>_ :: unit.
        (case latch attempt of
           Claimed (Inl e) \<Rightarrow> WakeFailed e
         | Claimed (Inr _) \<Rightarrow> Rebuilt
         | Lost False \<Rightarrow> WakeFailed (AppError OperationFailed ''wake: the engine stopped while awaiting an in-flight wake'')
         | Lost True \<Rightarrow>
             if wakeDeliverAttempts \<le> attempt + 1
             then WakeFailed (AppError OperationFailed ''wake: the trigger could not be delivered after 3 attempts'')
             else wakeInstanceAttempt view deliver latch pending (attempt + 1)))
      in if view attempt = IsResident
         then (case pending of
                 None \<Rightarrow> NilPanic
               | Some p \<Rightarrow> (case deliver attempt p of Inl e \<Rightarrow> WakeFailed e | Inr True \<Rightarrow> Delivered | Inr False \<Rightarrow> claim ()))
         else claim ())"
  by pat_completeness auto
termination
  by (relation "measure (\<lambda>(view, deliver, latch, pending, attempt). wakeDeliverAttempts - attempt)") auto

declare wakeInstanceAttempt.simps [simp del]

definition wakeInstance ::
  "(nat \<Rightarrow> inst_view) \<Rightarrow> (nat \<Rightarrow> PendingTrigger \<Rightarrow> bool result) \<Rightarrow> (nat \<Rightarrow> latch_view) \<Rightarrow> PendingTrigger option \<Rightarrow> wake_outcome" where
  "wakeInstance view deliver latch pending = wakeInstanceAttempt view deliver latch pending 0"

text \<open>
  A wake that reports success has delivered the trigger to a loop that took it, or has rebuilt the instance under the
  latch, within its three attempts: losing the latch to another wake is never taken for success.
\<close>

lemma wakeAttempt_success:
  "attempt < wakeDeliverAttempts \<Longrightarrow> wakeInstanceAttempt view deliver latch (Some p) attempt \<in> {Delivered, Rebuilt} \<Longrightarrow>
   \<exists>n < wakeDeliverAttempts. (view n = IsResident \<and> deliver n p = Inr True) \<or> latch n = Claimed (Inr ())"
proof (induction "wakeDeliverAttempts - attempt" arbitrary: attempt rule: less_induct)
  case less
  show ?case
  proof (cases "latch attempt = Lost True \<and> \<not> wakeDeliverAttempts \<le> attempt + 1 \<and>
      wakeInstanceAttempt view deliver latch (Some p) (attempt + 1) \<in> {Delivered, Rebuilt}")
    case True
    then have "wakeDeliverAttempts - (attempt + 1) < wakeDeliverAttempts - attempt" by linarith
    then show ?thesis using less.hyps[of "attempt + 1"] True by simp
  next
    case False
    then show ?thesis
      using less.prems(1) less.prems(2)[unfolded wakeInstanceAttempt.simps[of view deliver latch "Some p" attempt]]
      by (intro exI[of _ attempt]) (auto simp: Let_def split: if_splits latch_view.splits sum.splits bool.splits)
  qed
qed

lemma wake_success:
  assumes "wakeInstance view deliver latch (Some p) \<in> {Delivered, Rebuilt}"
  shows "\<exists>n < wakeDeliverAttempts. (view n = IsResident \<and> deliver n p = Inr True) \<or> latch n = Claimed (Inr ())"
  using wakeAttempt_success[of 0] assms by (simp add: wakeInstance_def wakeDeliverAttempts_def)

text \<open>
  A boundary's deadline wakes without a trigger, and the instance whose boundary it is may well be resident: it
  holds its boundaries' deadlines from the moment they are armed. The wake then reads the track of a nil trigger.
\<close>

lemma boundary_deadline_panics:
  "th_kind h = WaitBoundary \<Longrightarrow> view 0 = IsResident \<Longrightarrow> wakeInstance view deliver latch (fire_pending h) = NilPanic"
  by (simp add: wakeInstance_def fire_pending_def wakeInstanceAttempt.simps Let_def)

subsection \<open>The latch\<close>

text \<open>
  The wakes in flight, each with the channel its losers wait on; channels are numbered as they are made.
\<close>

record latch =
  lt_waking :: "(string \<times> nat) list"
  lt_closed :: "nat list"
  lt_next :: nat

definition claimWake :: "string \<Rightarrow> latch \<Rightarrow> latch \<times> nat option" where
  "claimWake i l =
     (case map_of (lt_waking l) i of
        Some ch \<Rightarrow> (l, Some ch)
      | None \<Rightarrow> (l\<lparr>lt_waking := AList.update i (lt_next l) (lt_waking l), lt_next := Suc (lt_next l)\<rparr>, None))"

definition releaseWake :: "string \<Rightarrow> latch \<Rightarrow> latch" where
  "releaseWake i l =
     (case map_of (lt_waking l) i of
        None \<Rightarrow> l
      | Some ch \<Rightarrow> l\<lparr>lt_waking := AList.delete i (lt_waking l), lt_closed := ch # lt_closed l\<rparr>)"

text \<open>
  The callers that bring an instance back, each at its own point: \<open>Checking\<close> reads the residency,
  \<open>Claiming\<close> asks for the latch, \<open>Awaiting\<close> is blocked on the channel of the wake it lost to, \<open>Rebuilding\<close> owns
  the latch. \<open>rechecks\<close> tells the task path (\<^verbatim>\<open>hydrateForTask\<close>), which starts at the claim and looks at the
  residency under the latch, from the trigger path (\<^verbatim>\<open>wakeInstanceAttempt\<close>), which looks before it claims.
\<close>

datatype waker = Checking nat | Claiming nat | Awaiting nat nat | Rebuilding | Finished

record wake_conf =
  wc_latch :: latch
  wc_wakers :: "nat \<Rightarrow> waker"
  wc_of :: "nat \<Rightarrow> string"
  wc_rechecks :: "nat \<Rightarrow> bool"
  wc_resident :: "string set"

definition move :: "nat \<Rightarrow> waker \<Rightarrow> wake_conf \<Rightarrow> wake_conf" where
  "move p w c = c\<lparr>wc_wakers := (wc_wakers c)(p := w)\<rparr>"

inductive wake_step :: "wake_conf \<Rightarrow> wake_conf \<Rightarrow> bool" where
  w_delivered: "wc_wakers c p = Checking n \<Longrightarrow> wc_of c p \<in> wc_resident c \<Longrightarrow> wake_step c (move p Finished c)"
| w_absent: "wc_wakers c p = Checking n \<Longrightarrow> wc_of c p \<notin> wc_resident c \<Longrightarrow> wake_step c (move p (Claiming n) c)"
| w_claimed: "wc_wakers c p = Claiming n \<Longrightarrow> claimWake (wc_of c p) (wc_latch c) = (l', None) \<Longrightarrow>
    wake_step c (move p Rebuilding (c\<lparr>wc_latch := l'\<rparr>))"
| w_lost: "wc_wakers c p = Claiming n \<Longrightarrow> claimWake (wc_of c p) (wc_latch c) = (l', Some ch) \<Longrightarrow>
    wake_step c (move p (Awaiting n ch) (c\<lparr>wc_latch := l'\<rparr>))"
| w_woken: "wc_wakers c p = Awaiting n ch \<Longrightarrow> ch \<in> set (lt_closed (wc_latch c)) \<Longrightarrow>
    wake_step c (move p (if wakeDeliverAttempts \<le> n + 1 then Finished
                         else if wc_rechecks c p then Claiming (n + 1) else Checking (n + 1)) c)"
| w_pinned: "wc_wakers c p = Rebuilding \<Longrightarrow> wc_rechecks c p \<Longrightarrow> wc_of c p \<in> wc_resident c \<Longrightarrow>
    wake_step c (move p Finished (c\<lparr>wc_latch := releaseWake (wc_of c p) (wc_latch c)\<rparr>))"
| w_rebuilt: "wc_wakers c p = Rebuilding \<Longrightarrow> \<not> (wc_rechecks c p \<and> wc_of c p \<in> wc_resident c) \<Longrightarrow>
    wake_step c (move p Finished (c\<lparr>wc_latch := releaseWake (wc_of c p) (wc_latch c),
                                    wc_resident := insert (wc_of c p) (wc_resident c)\<rparr>))"
| w_failed: "wc_wakers c p = Rebuilding \<Longrightarrow> wake_step c (move p Finished (c\<lparr>wc_latch := releaseWake (wc_of c p) (wc_latch c)\<rparr>))"
| w_dehydrates: "wake_step c (c\<lparr>wc_resident := wc_resident c - {i}\<rparr>)"

definition wake_start :: "(nat \<Rightarrow> string) \<Rightarrow> (nat \<Rightarrow> bool) \<Rightarrow> wake_conf" where
  "wake_start insts rechecks =
     \<lparr>wc_latch = \<lparr>lt_waking = [], lt_closed = [], lt_next = 0\<rparr>,
      wc_wakers = (\<lambda>p. if rechecks p then Claiming 0 else Checking 0), wc_of = insts, wc_rechecks = rechecks, wc_resident = {}\<rparr>"

inductive wake_reach :: "wake_conf \<Rightarrow> bool" where
  wake_init: "wake_reach (wake_start insts rechecks)"
| wake_next: "wake_reach c \<Longrightarrow> wake_step c c' \<Longrightarrow> wake_reach c'"

definition latch_ok :: "wake_conf \<Rightarrow> bool" where
  "latch_ok c \<longleftrightarrow>
     (\<forall>p. wc_wakers c p = Rebuilding \<longrightarrow> map_of (lt_waking (wc_latch c)) (wc_of c p) \<noteq> None) \<and>
     (\<forall>p q. wc_wakers c p = Rebuilding \<and> wc_wakers c q = Rebuilding \<and> wc_of c p = wc_of c q \<longrightarrow> p = q) \<and>
     (\<forall>i. map_of (lt_waking (wc_latch c)) i \<noteq> None \<longrightarrow> (\<exists>p. wc_wakers c p = Rebuilding \<and> wc_of c p = i)) \<and>
     (\<forall>p n ch. wc_wakers c p = Awaiting n ch \<longrightarrow>
        ch \<in> set (lt_closed (wc_latch c)) \<or> map_of (lt_waking (wc_latch c)) (wc_of c p) = Some ch)"

lemma latch_ok_quiet:
  assumes "latch_ok c" "wc_wakers c p \<noteq> Rebuilding" "w \<noteq> Rebuilding"
    "\<And>n ch. w = Awaiting n ch \<Longrightarrow> map_of (lt_waking (wc_latch c)) (wc_of c p) = Some ch"
  shows "latch_ok (move p w c)"
  using assms unfolding latch_ok_def move_def by (simp split: if_splits) metis

lemma latch_ok_claimed:
  assumes "latch_ok c" "map_of (lt_waking (wc_latch c)) (wc_of c p) = None" "wc_wakers c p \<noteq> Rebuilding"
  shows "latch_ok (move p Rebuilding (c\<lparr>wc_latch := (wc_latch c)\<lparr>lt_waking := AList.update (wc_of c p) ch (lt_waking (wc_latch c)), lt_next := m\<rparr>\<rparr>))"
  using assms unfolding latch_ok_def move_def by (auto simp: update_conv') (metis option.distinct(1))+

lemma latch_ok_released:
  assumes "latch_ok c" "wc_wakers c p = Rebuilding"
  shows "latch_ok (move p Finished (c\<lparr>wc_latch := releaseWake (wc_of c p) (wc_latch c), wc_resident := R\<rparr>))"
proof -
  obtain ch where ch: "map_of (lt_waking (wc_latch c)) (wc_of c p) = Some ch" using assms unfolding latch_ok_def by fastforce
  have only: "wc_wakers c q = Rebuilding \<Longrightarrow> wc_of c q = wc_of c p \<Longrightarrow> q = p" for q
    using assms unfolding latch_ok_def by blast
  have l: "lt_closed (releaseWake (wc_of c p) (wc_latch c)) = ch # lt_closed (wc_latch c)"
    "map_of (lt_waking (releaseWake (wc_of c p) (wc_latch c))) = (map_of (lt_waking (wc_latch c)))(wc_of c p := None)"
    by (simp_all add: releaseWake_def ch delete_conv')
  let ?c = "move p Finished (c\<lparr>wc_latch := releaseWake (wc_of c p) (wc_latch c), wc_resident := R\<rparr>)"
  have w: "wc_wakers ?c q = (if q = p then Finished else wc_wakers c q)" "wc_of ?c = wc_of c" for q by (simp_all add: move_def)
  have wl: "wc_latch ?c = releaseWake (wc_of c p) (wc_latch c)" by (simp add: move_def)
  have 1: "map_of (lt_waking (wc_latch ?c)) (wc_of ?c q) \<noteq> None" if "wc_wakers ?c q = Rebuilding" for q
  proof -
    have q: "q \<noteq> p" "wc_wakers c q = Rebuilding" using that w by (auto split: if_splits)
    then have "wc_of c q \<noteq> wc_of c p" using only by blast
    then show ?thesis using assms(1) q(2) unfolding wl l w latch_ok_def by auto
  qed
  have 2: "q = r" if "wc_wakers ?c q = Rebuilding" "wc_wakers ?c r = Rebuilding" "wc_of ?c q = wc_of ?c r" for q r
    using that assms(1) unfolding w latch_ok_def by (auto split: if_splits)
  have 3: "\<exists>q. wc_wakers ?c q = Rebuilding \<and> wc_of ?c q = i" if "map_of (lt_waking (wc_latch ?c)) i \<noteq> None" for i
  proof -
    have i: "i \<noteq> wc_of c p" "map_of (lt_waking (wc_latch c)) i \<noteq> None" using that unfolding wl l by (auto split: if_splits)
    then obtain q where "wc_wakers c q = Rebuilding" "wc_of c q = i" using assms(1) unfolding latch_ok_def by blast
    then show ?thesis using i(1) w by (intro exI[of _ q]) auto
  qed
  have 4: "ch' \<in> set (lt_closed (wc_latch ?c)) \<or> map_of (lt_waking (wc_latch ?c)) (wc_of ?c q) = Some ch'"
    if "wc_wakers ?c q = Awaiting n ch'" for q n ch'
  proof -
    have "wc_wakers c q = Awaiting n ch'" using that w by (auto split: if_splits)
    then have "ch' \<in> set (lt_closed (wc_latch c)) \<or> map_of (lt_waking (wc_latch c)) (wc_of c q) = Some ch'"
      using assms(1) unfolding latch_ok_def by blast
    then show ?thesis using ch unfolding wl l w by auto
  qed
  show ?thesis unfolding latch_ok_def using 1 2 3 4 by blast
qed

lemma latch_ok_step: "wake_step c c' \<Longrightarrow> latch_ok c \<Longrightarrow> latch_ok c'"
proof (induction rule: wake_step.induct)
  case (w_claimed c p n l')
  then have "map_of (lt_waking (wc_latch c)) (wc_of c p) = None"
    "l' = (wc_latch c)\<lparr>lt_waking := AList.update (wc_of c p) (lt_next (wc_latch c)) (lt_waking (wc_latch c)), lt_next := Suc (lt_next (wc_latch c))\<rparr>"
    by (auto simp: claimWake_def split: option.splits)
  then show ?case using latch_ok_claimed[of c p] w_claimed(1,3) by simp
next
  case (w_lost c p n l' ch)
  then have "map_of (lt_waking (wc_latch c)) (wc_of c p) = Some ch" "l' = wc_latch c"
    by (auto simp: claimWake_def split: option.splits)
  then show ?case using latch_ok_quiet[of c p "Awaiting n ch"] w_lost(1,3) by simp
next
  case (w_pinned c p)
  then show ?case using latch_ok_released[of c p "wc_resident c"] by simp
next
  case (w_rebuilt c p)
  then show ?case using latch_ok_released by blast
next
  case (w_failed c p)
  then show ?case using latch_ok_released[of c p "wc_resident c"] by simp
next
  case (w_dehydrates c i)
  then show ?case by (simp add: latch_ok_def)
qed (auto intro!: latch_ok_quiet)

lemma wake_reach_ok: "wake_reach c \<Longrightarrow> latch_ok c"
proof (induction rule: wake_reach.induct)
  case (wake_init insts rechecks)
  then show ?case by (simp add: latch_ok_def wake_start_def)
qed (rule latch_ok_step)

text \<open>
  Claim C31. The latch is single-flight and never leaves a waiter behind: in every interleaving of wakes by triggers and by
  human tasks, at most one caller rebuilds an instance at a time, and a caller waiting for another's wake either can
  go on at once or the rebuild it waits for is still running.
\<close>

theorem wake_single_flight:
  assumes "wake_reach c"
  shows "(wc_wakers c p = Rebuilding \<and> wc_wakers c q = Rebuilding \<and> wc_of c p = wc_of c q \<longrightarrow> p = q) \<and>
         (wc_wakers c r = Awaiting n ch \<longrightarrow>
            (\<exists>c' w. wake_step c c' \<and> wc_wakers c' r = w \<and> w \<noteq> Awaiting n ch) \<or>
            (\<exists>s. wc_wakers c s = Rebuilding \<and> wc_of c s = wc_of c r))"
proof -
  note ok = wake_reach_ok[OF assms, unfolded latch_ok_def]
  have "\<exists>c' w. wake_step c c' \<and> wc_wakers c' r = w \<and> w \<noteq> Awaiting n ch"
    if "wc_wakers c r = Awaiting n ch" "ch \<in> set (lt_closed (wc_latch c))"
  proof -
    let ?w = "if wakeDeliverAttempts \<le> n + 1 then Finished else if wc_rechecks c r then Claiming (n + 1) else Checking (n + 1)"
    have "wc_wakers (move r ?w c) r = ?w" "?w \<noteq> Awaiting n ch" by (simp_all add: move_def)
    then show ?thesis using w_woken[OF that] by blast
  qed
  moreover have "\<exists>s. wc_wakers c s = Rebuilding \<and> wc_of c s = wc_of c r"
    if "wc_wakers c r = Awaiting n ch" "ch \<notin> set (lt_closed (wc_latch c))"
  proof -
    have "map_of (lt_waking (wc_latch c)) (wc_of c r) = Some ch" using ok that by blast
    then show ?thesis using ok by blast
  qed
  ultimately show ?thesis using ok by blast
qed

text \<open>
  The trigger path looks at the residency before it claims the latch and not again: two triggers that both find the
  instance released rebuild it one after the other, the second over the loop the first has started, which is then
  cancelled as displaced. The task path looks again under the latch.
\<close>

definition two_wakers :: wake_conf where
  "two_wakers =
     (let c = wake_start (\<lambda>_. ''i'') (\<lambda>_. False)
      in move 0 Rebuilding ((move 1 (Claiming 0) (move 0 (Claiming 0) c))\<lparr>wc_latch := \<lparr>lt_waking = [(''i'', 0)], lt_closed = [], lt_next = 1\<rparr>\<rparr>))"

lemmas wake_defs = wake_start_def move_def claimWake_def releaseWake_def

lemma two_wakers_reach: "wake_reach two_wakers"
proof -
  let ?c = "wake_start (\<lambda>_. ''i'') (\<lambda>_. False)"
  have r1: "wake_reach (move 0 (Claiming 0) ?c)" by (rule wake_next[OF wake_init w_absent[of _ _ 0]]) (simp_all add: wake_defs)
  have r2: "wake_reach (move 1 (Claiming 0) (move 0 (Claiming 0) ?c))" by (rule wake_next[OF r1 w_absent[of _ _ 0]]) (simp_all add: wake_defs)
  show ?thesis unfolding two_wakers_def Let_def by (rule wake_next[OF r2 w_claimed[of _ _ 0]]) (simp_all add: wake_defs)
qed

lemma second_trigger_rebuilds_resident:
  "\<exists>c. wake_reach c \<and> wc_wakers c 1 = Rebuilding \<and> wc_of c 1 \<in> wc_resident c"
proof -
  let ?l = "releaseWake ''i'' (wc_latch two_wakers)"
  let ?c = "move 0 Finished (two_wakers\<lparr>wc_latch := ?l, wc_resident := {''i''}\<rparr>)"
  let ?d = "move 1 Rebuilding (?c\<lparr>wc_latch := fst (claimWake ''i'' ?l)\<rparr>)"
  note d = wake_defs two_wakers_def Let_def
  have "wake_step two_wakers ?c" using w_rebuilt[of two_wakers 0] by (simp add: d)
  then have r: "wake_reach ?c" by (rule wake_next[OF two_wakers_reach])
  have "wake_reach ?d" by (rule wake_next[OF r w_claimed[of _ _ 0]]) (simp_all add: d)
  then show ?thesis by (rule exI[where x = ?d, OF conjI]) (simp add: d)
qed

section \<open>Claiming the checkpoint\<close>

text \<open>
  \<^verbatim>\<open>claimForWake\<close> over the in-memory store. Between the load and the save of an attempt others use the store: \<open>env n\<close>
  is what they did to it at the attempt with \<open>n\<close> more to follow, and \<open>now n\<close> the clock.
\<close>

definition wakeClaimAttempts :: nat where
  "wakeClaimAttempts = 3"

definition claim_record :: "string \<Rightarrow> int \<Rightarrow> 'b InstanceRecord \<Rightarrow> 'b InstanceRecord" where
  "claim_record self expiry rec =
     rec\<lparr>ir_Lease := \<lparr>le_Expiry = expiry, le_Owner = self, le_Incarnation = le_Incarnation (ir_Lease rec) + 1\<rparr>\<rparr>"

fun claim_loop ::
  "string \<Rightarrow> string \<Rightarrow> int \<Rightarrow> (nat \<Rightarrow> int) \<Rightarrow> (nat \<Rightarrow> 'b Repo \<Rightarrow> 'b Repo) \<Rightarrow> string \<Rightarrow> nat \<Rightarrow> 'b Repo \<Rightarrow> 'b Repo \<times> 'b InstanceRecord result" where
  "claim_loop self grp ttl now env i 0 r = (r, Inl (AppError OperationFailed ''wake: couldn't claim the record for the wake''))"
| "claim_loop self grp ttl now env i (Suc n) r =
     (case Load i r of
        None \<Rightarrow> (r, Inl (AppError OperationFailed ''wake: the checkpoint vanished before the wake''))
      | Some rec \<Rightarrow>
          if ir_Group rec \<noteq> grp
          then (r, Inl (AppError OperationFailed ''wake: the instance belongs to another engine group''))
          else
            (let mine = claim_record self (now n + ttl) rec
             in case Save mine (env n r) of
                  (r', Inl _) \<Rightarrow> claim_loop self grp ttl now env i n r'
                | (r', Inr _) \<Rightarrow> (r', Inr (mine\<lparr>ir_RecVersion := ir_RecVersion mine + 1\<rparr>))))"

definition claimForWake ::
  "string \<Rightarrow> string \<Rightarrow> int \<Rightarrow> (nat \<Rightarrow> int) \<Rightarrow> (nat \<Rightarrow> 'b Repo \<Rightarrow> 'b Repo) \<Rightarrow> string \<Rightarrow> 'b Repo \<Rightarrow> 'b Repo \<times> 'b InstanceRecord result" where
  "claimForWake self grp ttl now env i r = claim_loop self grp ttl now env i wakeClaimAttempts r"

lemma claim_loop_owns:
  assumes "\<And>m s. repo_ok s \<Longrightarrow> repo_ok (env m s)"
  shows "repo_ok r \<Longrightarrow> claim_loop self grp ttl now env i n r = (r', Inr got) \<Longrightarrow>
         repo_ok r' \<and> Load i r' = Some got \<and> ir_Group got = grp \<and> le_Owner (ir_Lease got) = self \<and>
         (\<forall>w. ir_ID w = i \<longrightarrow> ir_RecVersion w + 1 = ir_RecVersion got \<longrightarrow> (\<exists>e. Save w r' = (r', Inl e)))"
proof (induction n arbitrary: r)
  case (Suc n)
  obtain rec where rec: "Load i r = Some rec" "ir_Group rec = grp"
    using Suc.prems(2) by (auto split: option.splits if_splits)
  let ?m = "claim_record self (now n + ttl) rec"
  have id: "ir_ID ?m = i" using rec(1) Suc.prems(1) by (simp add: claim_record_def repo_ok_def Load_def)
  have ok: "repo_ok (env n r)" using assms Suc.prems(1) by blast
  show ?case
  proof (cases "snd (Save ?m (env n r))")
    case (Inl e)
    then have "claim_loop self grp ttl now env i n (fst (Save ?m (env n r))) = (r', Inr got)"
      using Suc.prems(2) rec by (simp add: Let_def split: prod.splits)
    then show ?thesis using Suc.IH Save_ok[OF ok] by blast
  next
    case (Inr u)
    then have s: "Save ?m (env n r) = (r', Inr ())" and got: "got = ?m\<lparr>ir_RecVersion := ir_RecVersion ?m + 1\<rparr>"
      using Suc.prems(2) rec by (auto simp: Let_def split: prod.splits)
    have "repo_ok r'" using Save_ok[OF ok, of ?m] s by simp
    moreover have "Load i r' = Some got" using Save_loads(1)[OF ok s] id got by simp
    moreover have "\<exists>e. Save w r' = (r', Inl e)" if "ir_ID w = i" "ir_RecVersion w + 1 = ir_RecVersion got" for w
      using memrepo.one_winner[OF ok s, of w] that id got by simp
    ultimately show ?thesis using got rec(2) by (simp add: claim_record_def)
  qed
qed simp

text \<open>
  A claim that succeeds owns the record: whatever others did to the store meanwhile, what a load now returns is the
  record the wake continues from, leased to this engine in its own group, and a writer that still has the version
  the claim replaced, the loop's own late checkpoint included, is refused without effect.
\<close>

theorem claim_for_wake_owns:
  assumes "repo_ok r" "\<forall>m s. repo_ok s \<longrightarrow> repo_ok (env m s)" "claimForWake self grp ttl now env i r = (r', Inr got)"
  shows "Load i r' = Some got \<and> ir_Group got = grp \<and> le_Owner (ir_Lease got) = self \<and>
         (\<forall>w. ir_ID w = i \<longrightarrow> ir_RecVersion w + 1 = ir_RecVersion got \<longrightarrow> (\<exists>e. Save w r' = (r', Inl e)))"
  using claim_loop_owns[of env, OF _ assms(1)] assms(2,3) unfolding claimForWake_def by blast

section \<open>Witnesses\<close>

definition held_conf :: sub_conf where
  "held_conf =
     sub_start\<lparr>sc_st := \<lparr>sh_subs = [(dup_key, \<lparr>sb_ID = 0, sb_key = dup_key, sb_convKeys = []\<rparr>)],
                         sh_hub = [\<lparr>sb_ID = 0, sb_key = dup_key, sb_convKeys = []\<rparr>], sh_next = 1, sh_started = True\<rparr>\<rparr>"

lemma held_conf_reach: "tidy_reach held_conf"
proof -
  let ?h = "\<lparr>sb_ID = 0, sb_key = dup_key, sb_convKeys = []\<rparr>"
  let ?s = "\<lambda>hub. \<lparr>sh_subs = [(dup_key, ?h)], sh_hub = hub, sh_next = 1, sh_started = True\<rparr>"
  have 1: "sub_step sub_start (SRecord dup_key) (sub_start\<lparr>sc_st := ?s [], sc_arming := [?h]\<rparr>)"
    using sub_step.recorded[of dup_key "[]" sub_start "?s []" ?h] by (simp add: sub_start_def hold_record_def Let_def)
  have 2: "sub_step (sub_start\<lparr>sc_st := ?s [], sc_arming := [?h]\<rparr>) (SRegister True) (sub_start\<lparr>sc_st := ?s [?h], sc_armed := [?h]\<rparr>)"
    using sub_step.register[of ?h "sub_start\<lparr>sc_st := ?s [], sc_arming := [?h]\<rparr>" True "?s [?h]"]
    by (simp add: sub_start_def hold_register_def)
  have 3: "sub_step (sub_start\<lparr>sc_st := ?s [?h], sc_armed := [?h]\<rparr>) SConfirm held_conf"
    using sub_step.confirm[of ?h "sub_start\<lparr>sc_st := ?s [?h], sc_armed := [?h]\<rparr>"]
    by (simp add: sub_start_def hold_confirm_def holdStillRecorded_def held_conf_def)
  show ?thesis
    by (rule tidy_next[OF tidy_next[OF tidy_next[OF tidy_init 1] 2] 3]) (simp_all add: sub_start_def)
qed

theorem holders_match_hub_witness: "hub_of held_conf = {h. \<exists>k. rec_at held_conf k = Some h} \<and> hub_of held_conf \<noteq> {}"
  using holders_match_hub[OF held_conf_reach] by (simp add: held_conf_def sub_start_def)

theorem wake_single_flight_witness:
  "\<exists>c. wake_reach c \<and> wc_wakers c 1 = Awaiting 0 0 \<and> (\<exists>s. wc_wakers c s = Rebuilding \<and> wc_of c s = wc_of c 1)"
proof -
  let ?c = "move 1 (Awaiting 0 0) two_wakers"
  note d = wake_defs two_wakers_def Let_def
  have l: "claimWake (wc_of two_wakers 1) (wc_latch two_wakers) = (wc_latch two_wakers, Some 0)" by (simp add: d)
  have "wc_wakers two_wakers 1 = Claiming 0" by (simp add: d)
  from w_lost[OF this l] have "wake_step two_wakers ?c" by simp
  then have r: "wake_reach ?c" by (rule wake_next[OF two_wakers_reach])
  have a: "wc_wakers ?c 1 = Awaiting 0 0" "wc_wakers ?c 0 = Rebuilding" "wc_of ?c 0 = wc_of ?c 1" by (simp_all add: d)
  from wake_single_flight[OF r, where r = 1 and n = 0 and ch = 0 and p = 0 and q = 0] r a show ?thesis by blast
qed

theorem claim_for_wake_owns_witness:
  "\<exists>r' got. claimForWake ''e'' ''g'' 10 (\<lambda>_. 7) (\<lambda>_ s. s) ''i1'' sample_repo = (r', Inr got) \<and>
            Load ''i1'' r' = Some got \<and> le_Owner (ir_Lease got) = ''e''"
proof -
  obtain r' got where c: "claimForWake ''e'' ''g'' 10 (\<lambda>_. 7) (\<lambda>_ s. s) ''i1'' sample_repo = (r', Inr got)"
    by (simp add: claimForWake_def wakeClaimAttempts_def numeral_3_eq_3 claim_record_def sample_repo_def sample_rec_def Load_def
        Save_def RegisterGroup_def Repo_New_def IsTerminal_def List.insert_def)
  from claim_for_wake_owns[OF repo_reach_ok[OF sample_repo_reach] _ c] c show ?thesis by blast
qed

declare map_of_eq_Some_iff [simp]

end
