(* ===== verification/Spec2Isabelle.thy ===== *)
theory Spec2Isabelle
  imports Complex_Join Lite_Eval Data_Setpath Data_Shape Data_Array Data_Frame Instance_Waits Instance_Joins Store_Repo Iso_Duration Msg_Broker Job_Dispatch Event_Hub Scope_Properties Decision_Table Iteration_MI Incident_Properties Engine_Wake
begin

text \<open>
  Verification of the core of gobpm, an embeddable BPMN 2.0 engine (sources under \<^verbatim>\<open>src\<close>).

  \<^bold>\<open>The program.\<close> A process definition is a graph of nodes and sequence flows. Running it gives an \<^emph>\<open>instance\<close>: tracks, one goroutine for each
  token, that execute nodes, and one event-loop goroutine that owns every registry of the instance (positions, parked waits, joins, open
  scopes, conditions, ledgers) and is their only writer. A track hands an event to the loop and waits; the loop answers by resuming
  tracks over channels of capacity one. Around an instance stand the data plane (a tree of scopes with structured values, written by
  atomic commits that return their changes), the expression engine, the event hub with its waiters, the message broker, the job
  dispatcher, the checkpoint store and the decision-table engine.

  \<^bold>\<open>How the model is built.\<close> A struct is a record, an enumeration a datatype, a fallible function returns \<open>app_error + 'a\<close>, and a panic is
  a value of its own wherever the source can panic. A Go map is an association list or a map, a pointer is a number that names an entry of
  an explicit heap, a channel is the list of what is buffered in it. Code that takes a lock is one atomic step; where the source releases
  the lock in the middle there are two steps. A goroutine that hands something over is a step of a relation, and the properties hold
  for every interleaving of these steps. Lists of the code that are searched in order are searched in the same order.

  \<^bold>\<open>Theories, and what they model.\<close>

  \<^item> \<open>Gobpm_Prelude\<close>, \<open>Go_Strings\<close>, \<open>Float64\<close>: error codes and results (\<^verbatim>\<open>pkg/errs\<close>), association lists, the collection of simplification
    facts the components share; the string functions and the \<^verbatim>\<open>float64\<close> arithmetic of Go that the program uses.
  \<^item> \<open>Flow_Graph\<close>, \<open>Gateway_Routing\<close>, \<open>Gateway_Joins\<close>, \<open>Complex_Join\<close>: the flow lists of a node (\<^verbatim>\<open>pkg/model/flow\<close>), the gateways
    (\<^verbatim>\<open>pkg/model/gateways\<close>), diverging and converging. \<open>Reachability\<close>: the walk that decides whether a token can still come to a join
    (\<^verbatim>\<open>internal/instance/reachability.go\<close>). The locale \<open>sync_join\<close> states what a synchronizing join promises and is interpreted on the
    parallel and on the inclusive gateway; \<open>flow_checker\<close> is the interface between a join and the walk.
  \<^item> \<open>Lite_Lexer\<close>, \<open>Lite_Parser\<close>, \<open>Lite_Eval\<close>: the expression language (\<^verbatim>\<open>pkg/model/expression/lite\<close>), with its documented grammar as an
    inductive relation and a kind system.
  \<^item> \<open>Data_Path\<close>, \<open>Data_Value\<close>, \<open>Data_Shape\<close>, \<open>Data_Setpath\<close>, \<open>Data_Array\<close>: structural paths, navigation, the commit diff, shape walk and
    structural writes (\<^verbatim>\<open>pkg/model/data\<close> and \<^verbatim>\<open>pkg/model/data/values\<close>). \<open>Data_Scope\<close>, \<open>Data_Frame\<close>: the data plane and the execution frame
    of a node (\<^verbatim>\<open>internal/scope\<close>).
  \<^item> \<open>Instance_State\<close>, \<open>Instance_Waits\<close>, \<open>Instance_Joins\<close>, \<open>Instance_Correlation\<close>: tracks, the stop of an instance, the wait plane with
    conditional events and the release of idle goroutines, the join plane, and message correlation (\<^verbatim>\<open>internal/instance\<close>).
  \<^item> \<open>Compensation_Ledger\<close>, \<open>Scope_Runtime\<close>, \<open>Scope_Accounting\<close>, \<open>Scope_Invariants\<close>, \<open>Scope_Properties\<close>: nested scopes at run time, event
    sub-processes, boundary events, compensation and transactions (\<^verbatim>\<open>internal/instance/scope_runtime.go\<close>, \<^verbatim>\<open>scope_handler.go\<close>,
    \<^verbatim>\<open>boundary_watch.go\<close>, \<^verbatim>\<open>escalation_watch.go\<close>, \<^verbatim>\<open>compensation_ledger.go\<close>, \<^verbatim>\<open>compensation_watch.go\<close>, \<^verbatim>\<open>transaction.go\<close>).
  \<^item> \<open>Iteration_Loops\<close>, \<open>Iteration_MI\<close>: standard loops and multi-instances (\<^verbatim>\<open>std_loop.go\<close>, \<^verbatim>\<open>mi.go\<close>, \<^verbatim>\<open>mi_parallel.go\<close>, \<^verbatim>\<open>mi_behavior.go\<close>).
  \<^item> \<open>Event_Waiters\<close>, \<open>Event_Hub\<close>, \<open>Iso_Duration\<close>: timers, message and signal waiters, the hub that registers them
    (\<^verbatim>\<open>internal/eventproc/eventhub\<close>) and the texts of timer definitions (\<^verbatim>\<open>pkg/iso8601\<close>). \<open>Msg_Broker\<close>: \<^verbatim>\<open>pkg/messaging/membroker\<close>.
  \<^item> \<open>Job_Policy\<close>, \<open>Job_Dispatch\<close>: retry policies on 64-bit words and the fetch-and-lock dispatcher (\<^verbatim>\<open>pkg/tasks\<close>). \<open>Store_Repo\<close>: the checkpoint
    store (\<^verbatim>\<open>pkg/repository\<close>), with the locale \<open>checkpoint_store\<close> for its contract. \<open>Decision_Table\<close>: \<^verbatim>\<open>adapters/dtable\<close>.
  \<^item> \<open>Incidents\<close>, \<open>Incident_Properties\<close>: failures the process does not handle, their retries and the scopes they hold open
    (\<^verbatim>\<open>internal/instance/incident.go\<close>).
  \<^item> \<open>Timer_Service\<close>, \<open>Engine_Wake\<close>: how the engine keeps the waits of released instances and brings them back: the durable deadlines and
    their goroutine (\<^verbatim>\<open>pkg/thresher/timer_service.go\<close>), held subscriptions (\<^verbatim>\<open>subscription_holder.go\<close>), the wake of an instance, its latch and
    the claim of its checkpoint over \<open>Store_Repo\<close> (\<^verbatim>\<open>wake.go\<close>). The mutex-free points of each operation are the points of interleaving.
  \<^item> This theory composes the data plane, the diff, the path algebra and the wait plane: a commit resumes the track whose condition it
    makes true.

  \<^bold>\<open>What the theorems show.\<close>

  \<^item> Routing and joins: which flows a split takes; when a join fires, that it fires once and is never left due; that the worklist walk
    decides the existence of a path; that a complex join aborts only when it can no longer fire.
  \<^item> Expressions: the parser decides the grammar, every rejection names an offset, well-kinded expressions do not get stuck.
  \<^item> Data: writes are read back and change nothing else, the diff reports every observable change, paths are read as they were written,
    the open scopes form a tree, and a frame writes once.
  \<^item> The instance: no interleaving makes the loop block or panic on a delivery, a parked track takes one event, conversation keys do
    not change, a scope's counter is the number of its live tracks and a drained scope closes, compensation runs in reverse order,
    iterations run the passes they should, a parallel barrier neither loses nor repeats a drain, and an incident keeps its scope open
    and survives a checkpoint.
  \<^item> Services: the hub's index and its registrations, the conservation of messages and of jobs, the exclusion of job locks, one winner
    of two saves over one version, the rows a decision returns.
  \<^item> Released instances: a held deadline is kept until it wakes its instance and fires when it is due, an arm overtaken by a release is refused,
    the holders on the hub are the recorded ones, wakes are single-flight, and a claimed checkpoint belongs to its claimer.
  \<^item> Theorems about defects: where the code does something other than what it says, a theorem gives the run or the input.

  \<^bold>\<open>Bounds and fuel.\<close> The parser's fuel is the number of tokens plus one and the walk through the parents of a scope takes the number of
  segments of its path; both are proved enough. The retry loop of a trusted worker has the attempts its policy allows, the walk of an error
  up the scopes the number of open scopes plus one, and both are proved to return. A standard loop gets one unit of fuel for each pass:
  with a maximum the loop is proved to return within it; without one the program itself need not return. Event channels and park channels
  have capacity one, a broker's subscription sixteen, as in the code. Durations and backoffs are 64-bit words.

  \<^bold>\<open>Parameters.\<close> What is not the program's own is an argument: the expression engine and guards behind their interfaces, the data source
  of an expression, \<^verbatim>\<open>time.Parse\<close> and the clock, \<^verbatim>\<open>reflect.DeepEqual\<close> and cloning of foreign values, names of Go types, the supplier of
  runtime variables, \<^verbatim>\<open>json.Unmarshal\<close> and the checkpoint codec, the random source, and the result of a broker's subscription. In the
  iteration theories also the calls of a decorator to the rest of the instance.

  \<^bold>\<open>Not modelled.\<close> Capture and restore of checkpoints (\<^verbatim>\<open>checkpoint_capture.go\<close>, \<^verbatim>\<open>restore.go\<close>), apart from the recorded positions of
  iterations and the incident records: they translate almost every registry to JSON and back. Of the engine object (\<^verbatim>\<open>pkg/thresher\<close>) everything but timers, holders and wakes: registration of processes, launch and shutdown. User tasks, call activities and
  ad-hoc sub-processes: they drive the parts modelled here. Data stores, BPMN import and export, observability, database adapters and
  script engines: input and output, or bindings to third-party code. Real time, the Go scheduler's fairness and memory limits are outside
  the model.
\<close>

section \<open>From a commit to the waiting track\<close>

text \<open>The value a scope holds under a name of its own.\<close>

definition held_value :: "'v plane \<Rightarrow> string \<Rightarrow> string \<Rightarrow> 'v val" where
  "held_value p pt n =
     (case map_of (pl_scopes p) pt of
        None \<Rightarrow> VNil
      | Some vv \<Rightarrow> (case map_of vv n of None \<Rightarrow> VNil | Some d \<Rightarrow> dt_value d))"

definition book_value :: "'v book \<Rightarrow> string \<Rightarrow> 'v val" where
  "book_value vv n = (case map_of vv n of None \<Rightarrow> VNil | Some d \<Rightarrow> dt_value d)"

lemma covers_mono: "covers h chs ss \<Longrightarrow> set chs \<subseteq> set chs' \<Longrightarrow> covers h chs' ss"
  by (auto simp: covers_def)

lemma commit_loop_covers:
  assumes "\<And>a b. deq a b \<Longrightarrow> a = b" and "list_all legal_step ss"
  shows "commit_loop deq vv nn = (vv', chs) \<Longrightarrow> obs_at (book_value vv h) ss \<noteq> obs_at (book_value vv' h) ss \<Longrightarrow> covers h chs ss"
proof (induction nn arbitrary: vv chs)
  case (Cons nd nn)
  obtain n d where nd: "nd = (n, d)" by (cases nd)
  let ?vv = "AList.update n d vv"
  obtain chs1 where rec: "commit_loop deq ?vv nn = (vv', chs1)" and chs: "chs = DiffValues deq n (book_value vv n) (dt_value d) @ chs1"
    using Cons.prems(1) by (auto simp: nd book_value_def Let_def split: prod.splits)
  show ?case
  proof (cases "obs_at (book_value ?vv h) ss = obs_at (book_value vv' h) ss")
    case False
    from covers_mono[OF Cons.IH[OF rec this]] show ?thesis by (simp add: chs)
  next
    case True
    then have ne: "obs_at (book_value vv h) ss \<noteq> obs_at (book_value ?vv h) ss" using Cons.prems(2) by simp
    then have "n = h" by (rule_tac ccontr) (simp add: book_value_def update_conv')
    then have "obs_at (book_value vv n) ss \<noteq> obs_at (dt_value d) ss" using ne by (simp add: book_value_def update_conv')
    from diffInto_covers[where deq = deq and path = n, OF assms(1) assms(2) this] \<open>n = h\<close>
    show ?thesis by (auto simp: chs DiffValues_def intro: covers_mono)
  qed
qed simp

lemma Scope_Commit_covers:
  assumes "\<And>a b. deq a b \<Longrightarrow> a = b" and "list_all legal_step ss" and "Scope_Commit deq p pt dd = Inr (p', chs)"
    and "obs_at (held_value p pt h) ss \<noteq> obs_at (held_value p' pt h) ss"
  shows "covers h chs ss"
proof -
  have "p' \<noteq> p" using assms(4) by auto
  then obtain vv nn vv' where vv: "map_of (pl_scopes p) pt = Some vv" "commit_loop deq vv nn = (vv', chs)"
    "p' = p\<lparr>pl_scopes := AList.update pt vv' (pl_scopes p)\<rparr>"
    using assms(3) by (auto simp: Scope_Commit_def Let_def split: sum.splits if_splits option.splits prod.splits)
  then have "obs_at (book_value vv h) ss \<noteq> obs_at (book_value vv' h) ss"
    using assms(4) by (simp add: held_value_def book_value_def update_conv')
  from commit_loop_covers[where deq = deq, OF assms(1,2) vv(2) this] show ?thesis .
qed

lemma covers_due:
  assumes "covers h chs ss" and "legal_name h" and "list_all legal_step ss" and "h @ render_steps ss \<in> set deps"
  shows "condDue deps chs"
proof -
  obtain ch rs where ch: "ch \<in> set chs" "list_all legal_step rs" "ch_path ch = h @ render_steps rs" "prefix rs ss"
    using assms(1) by (auto simp: covers_def)
  have "PathsOverlap (h @ render_steps ss) (ch_path ch) = Inr True"
    using PathsOverlap_parsed[OF _ _ ParsePath_render_name[OF assms(2,3)] ParsePath_render_name[OF assms(2) ch(2)]]
      legal_nameD(1)[OF assms(2)] ch(3,4) by simp
  then show ?thesis using assms(4) ch(1) unfolding condDue_def list_ex_iff by (metis sum.case(2))
qed

text \<open>A sweep in which every evaluation succeeds collects every watch whose condition became true.\<close>

lemma sweep_eval_total:
  assumes "\<forall>w\<in>set ws. \<exists>b. evalCondition env (cw_def w) (watch_path ls w) = Inr b"
  shows "\<exists>ws' fires. sweep_eval env ls chs ws = Some (ws', fires) \<and> map (\<lambda>w. (cw_ptr w, cw_track w)) ws' = map (\<lambda>w. (cw_ptr w, cw_track w)) ws \<and>
    (\<forall>w\<in>set ws. condDue (cw_deps w) chs \<and> \<not> cw_last w \<and> evalCondition env (cw_def w) (watch_path ls w) = Inr True \<longrightarrow>
       w \<in> set fires)"
  using assms
proof (induction ws)
  case (Cons w ws)
  then obtain ws' fires b where "sweep_eval env ls chs ws = Some (ws', fires)" "map (\<lambda>w. (cw_ptr w, cw_track w)) ws' = map (\<lambda>w. (cw_ptr w, cw_track w)) ws"
    "\<forall>w\<in>set ws. condDue (cw_deps w) chs \<and> \<not> cw_last w \<and> evalCondition env (cw_def w) (watch_path ls w) = Inr True \<longrightarrow>
       w \<in> set fires"
    "evalCondition env (cw_def w) (watch_path ls w) = Inr b"
    by auto
  then show ?case by (cases "condDue (cw_deps w) chs") auto
qed simp

definition resumed :: "track_id \<Rightarrow> ('c, 'p) loop_state \<Rightarrow> bool" where
  "resumed t ls \<longleftrightarrow> t \<notin> set (ls_waiting ls) \<and> (\<exists>tr. track_of ls t = Some tr \<and> tk_evtCh tr \<noteq> [])"

lemma dispatch_resumes:
  assumes "wait_ok ls" and "track_of ls t = Some tr" and "t \<in> set (ls_waiting ls)"
  shows "resumed t (dispatchToParked env (Some t) ed ls)"
proof -
  have "\<not> ls_stopping ls" using wait_okD(2)[OF assms(1)] assms(3) by auto
  then have "tk_evtCh tr = []" "\<not> tk_evtClosed tr"
    using wait_okD(5)[OF assms(1,2)] assms(3) by (auto simp: track_ok_def)
  then show ?thesis using assms(2,3)
    by (simp add: resumed_def dispatchToParked_def send_evt_def eventBufferDepth_def)
qed

lemma dispatch_other:
  assumes "u \<noteq> t"
  shows "track_of (dispatchToParked env (Some u) ed ls) t = track_of ls t"
    and "t \<in> set (ls_waiting (dispatchToParked env (Some u) ed ls)) \<longleftrightarrow> t \<in> set (ls_waiting ls)"
    and "list_ex (\<lambda>c. cw_ptr c = p \<and> cw_track c = t) (ls_conds ls) \<Longrightarrow>
      list_ex (\<lambda>c. cw_ptr c = p \<and> cw_track c = t) (ls_conds (dispatchToParked env (Some u) ed ls))"
  using assms by (auto simp: dispatchToParked_def send_evt_def list_ex_iff split: option.split)

definition armed_for :: "track_id \<Rightarrow> 'c condWatch \<Rightarrow> ('c, 'p) loop_state \<Rightarrow> bool" where
  "armed_for t w ls \<longleftrightarrow> list_ex (\<lambda>c. cw_ptr c = cw_ptr w \<and> cw_track c = t) (ls_conds ls)"

lemma armed_for_condArmed: "armed_for t w ls \<Longrightarrow> condArmed w ls"
  by (auto simp: armed_for_def condArmed_def list_ex_iff)

lemma sweep_fires_resumes:
  assumes "wait_ok ls" and "track_of ls t = Some tr" and "\<And>w. w \<in> set fires \<Longrightarrow> cw_handler w = None \<and> \<not> cw_boundary w"
    and "resumed t ls \<or> t \<in> set (ls_waiting ls) \<and> w \<in> set fires \<and> cw_track w = t \<and> armed_for t w ls"
  shows "resumed t (sweep_fires fsh fb env fires ls)"
  using assms
proof (induction fires arbitrary: ls tr)
  case (Cons v fires)
  let ?ls = "if condArmed v ls then fireCondWatch fsh fb env v ls else ls"
  note fire = Cons.prems(3)[of v, simplified]
  have eq: "?ls = (if condArmed v ls then dispatchToParked env (Some (cw_track v)) (cond_event (cw_def v)) ls else ls)"
    using fire by (simp add: fireCondWatch_def)
  have ok: "wait_ok ?ls" unfolding eq using Cons.prems(1) dispatchToParked_ok[OF Cons.prems(1), of env "Some (cw_track v)" "cond_event (cw_def v)"] by simp
  have "resumed t ?ls \<or> t \<in> set (ls_waiting ?ls) \<and> w \<in> set fires \<and> cw_track w = t \<and> armed_for t w ?ls"
  proof (cases "cw_track v = t")
    case False
    note other = dispatch_other[OF False, where env = env and ed = "cond_event (cw_def v)" and ls = ls]
    show ?thesis using Cons.prems(4) False other(3)[where p = "cw_ptr w"]
      unfolding eq by (auto simp: resumed_def armed_for_def other(1,2))
  next
    case True
    show ?thesis
    proof (cases "t \<in> set (ls_waiting ls)")
      case wt: True
      show ?thesis
      proof (cases "condArmed v ls")
        case True
        then show ?thesis using dispatch_resumes[OF Cons.prems(1,2) wt, of env "cond_event (cw_def v)"] \<open>cw_track v = t\<close> unfolding eq by simp
      next
        case False
        then have "v \<noteq> w" using Cons.prems(4) wt armed_for_condArmed by (auto simp: resumed_def)
        then show ?thesis using False Cons.prems(4) by auto
      qed
    next
      case wf: False
      then have "?ls = ls" unfolding eq using True by (simp add: dispatchToParked_def)
      then show ?thesis using Cons.prems(4) wf by simp
    qed
  qed
  moreover have "\<exists>tr'. track_of ?ls t = Some tr'"
    using calculation Cons.prems(2) dispatch_other(1)[of "cw_track v" t env "cond_event (cw_def v)" ls] dispatch_resumes[OF Cons.prems(1,2), of env "cond_event (cw_def v)"]
    unfolding eq by (cases "cw_track v = t"; cases "t \<in> set (ls_waiting ls)") (auto simp: resumed_def dispatchToParked_def)
  ultimately show ?case using Cons.IH[OF ok] Cons.prems(3) by fastforce
qed (simp add: resumed_def)

lemma sweep_resumes:
  assumes "wait_ok ls" and w: "w \<in> set (ls_conds ls)" and "track_of ls (cw_track w) = Some tr"
    and total: "\<forall>v\<in>set (ls_conds ls). \<exists>b. evalCondition env (cw_def v) (watch_path ls v) = Inr b"
    and "condDue (cw_deps w) chs" and "\<not> cw_last w" and "evalCondition env (cw_def w) (watch_path ls w) = Inr True"
  shows "resumed (cw_track w) (sweepConditionals fsh fb env chs ls)"
proof -
  obtain ws' fires where sw: "sweep_eval env ls chs (ls_conds ls) = Some (ws', fires)"
    "map (\<lambda>w. (cw_ptr w, cw_track w)) ws' = map (\<lambda>w. (cw_ptr w, cw_track w)) (ls_conds ls)" "w \<in> set fires"
    using sweep_eval_total[OF total, of chs] assms(5-7) w by blast
  note wd = wait_okD(4)[OF assms(1)]
  have wt: "cw_track w \<in> set (ls_waiting ls)" using wd[OF w] by simp
  then have run: "\<not> ls_stopping ls" using wait_okD(2)[OF assms(1)] by auto
  have "(cw_ptr w, cw_track w) \<in> set (map (\<lambda>w. (cw_ptr w, cw_track w)) ws')" unfolding sw(2) using w by simp
  then have arm: "armed_for (cw_track w) w (ls\<lparr>ls_conds := ws'\<rparr>)" by (auto simp: armed_for_def list_ex_iff)
  have ok: "wait_ok (ls\<lparr>ls_conds := ws'\<rparr>)"
  proof (rule wait_ok_conds[OF assms(1)])
    fix v assume "v \<in> set ws'"
    then obtain v0 b where "v0 \<in> set (ls_conds ls)" "v = v0\<lparr>cw_last := b\<rparr>" using sweep_eval_conds[OF sw(1)] by blast
    then show "cw_handler v = None \<and> \<not> cw_boundary v \<and> cw_track v \<in> set (ls_waiting ls)" using wd[of v0] by simp
  qed
  have "resumed (cw_track w) (sweep_fires fsh fb env fires (ls\<lparr>ls_conds := ws'\<rparr>))"
  proof (rule sweep_fires_resumes[OF ok, where w = w])
    show "track_of (ls\<lparr>ls_conds := ws'\<rparr>) (cw_track w) = Some tr" using assms(3) by simp
    show "cw_handler v = None \<and> \<not> cw_boundary v" if "v \<in> set fires" for v
      using wd[of v] sweep_eval_conds[OF sw(1)] that by blast
  qed (use wt sw(3) arm in simp)
  then show ?thesis using run sw(1) w by (auto simp: sweepConditionals_def)
qed


text \<open>A track waits until \<open>x\<close> has a value; a commit gives it one.\<close>

definition sample_cond :: "unit cond_def" where
  "sample_cond = \<lparr>cd_id = ''c1'', cd_cond = (), cd_lister = Some [''x'']\<rparr>"

definition sample_cond_env :: "nat plane \<Rightarrow> (unit, unit, unit, unit, nat) loop_env" where
  "sample_cond_env p = sample_env\<lparr>le_cpOwner := [], le_plane := p,
     le_eval := (\<lambda>_ p _. Inr (Some (case held_value p ''/'' ''x'' of VNil \<Rightarrow> False | _ \<Rightarrow> True)))\<rparr>"

definition sample_watch :: "unit condWatch" where
  "sample_watch = \<lparr>cw_ptr = 0, cw_track = ''t1'', cw_node = Some ''catch'', cw_def = sample_cond, cw_handler = None,
     cw_handlerPath = [], cw_deps = [''x''], cw_last = False, cw_boundary = False\<rparr>"

definition sample_armed :: "(unit, unit) loop_state" where
  "sample_armed = sample_start\<lparr>ls_tracks := [(''t1'', sample_track\<lparr>tk_state := TrackWaitForEvent,
     tk_hist := [(''catch'', TrackWaitForEvent)], tk_condDefs := [sample_cond]\<rparr>)], ls_waiting := [''t1''],
     ls_conds := [sample_watch], ls_nextPtr := 1\<rparr>"

lemma sample_eval:
  assumes "checkContained p ''/'' = Inr ()" and "opened p ''/''"
  shows "evalCondition (sample_cond_env p) sample_cond ''/'' = Inr (case held_value p ''/'' ''x'' of VNil \<Rightarrow> False | _ \<Rightarrow> True)"
proof -
  have "TrimSpace ''cond-eval'' = ''cond-eval''" "TrimSpace ''c1'' = ''c1''" by code_simp+
  then show ?thesis using assms by (simp add: evalCondition_def NewFrame_def sample_cond_env_def sample_cond_def)
qed

lemma sample_armed_reach: "wait_reach {sample_cond_env sample_plane} sample_armed"
proof -
  let ?e = "sample_cond_env sample_plane"
  define s1 where "s1 = upd_track ''t1'' (\<lambda>tr. updateState TrackWaitForEvent (tr\<lparr>tk_node := ''catch'', tk_msgDefIDs := [],
    tk_condDefs := [sample_cond], tk_emit := Some EmWaiting\<rparr>)) sample_start"
  have cc: "checkContained sample_plane ''/'' = Inr ()" "opened sample_plane ''/''" by code_simp+
  have ev: "evalCondition ?e sample_cond ''/'' = Inr False"
    unfolding sample_eval[OF cc] by (simp add: held_value_def sample_plane_def)
  have "wait_reach {?e} sample_start"
    by (rule reach_init) (simp add: wait_init_def sample_start_def sample_track_def)
  moreover have "wait_step {?e} sample_start s1"
    unfolding s1_def by (rule parks[of _ _ sample_track]) (simp_all add: sample_run)
  moreover have "wait_step {?e} s1 (maybeDehydrate ?e (onWaiting ?e ''t1''
      (Some ''catch'') [] (upd_track ''t1'' (\<lambda>tr. tr\<lparr>tk_emit := None\<rparr>) s1)))"
    using takes_wait[of s1 ?e "{?e}" "''t1''"] by (simp add: s1_def sample_run)
  moreover have "maybeDehydrate ?e (onWaiting ?e ''t1'' (Some ''catch'') []
      (upd_track ''t1'' (\<lambda>tr. tr\<lparr>tk_emit := None\<rparr>) s1)) = sample_armed"
    using ev by (simp add: s1_def sample_run onWaiting_def Let_def maybeDehydrate_def sample_armed_def evalCondWatch_def
        watch_path_def set_last_def sample_watch_def condDeps_def)
      (simp add: sample_cond_env_def sample_cond_def)
  ultimately show ?thesis by (metis reach_step)
qed


end
